(* ===== verification/Kernel_Prelude.thy ===== *)
theory Kernel_Prelude
  imports Main "HOL-Library.Word"
begin

text \<open>
  What every component of the model shares: the machine types of the kernel, the outcomes a C
  function can have besides returning, checked reads and writes of arrays, the status codes of
  \<^verbatim>\<open>kernel/include/yak/status.h\<close>, and the collections of rewrite rules the component
  theories fill.

  A C function that can fail an \<open>assert\<close> (the shipped configuration sets
  \<^verbatim>\<open>CONFIG_DEBUG=y\<close>, so a failed assertion is a kernel panic), dereference a null pointer
  or index outside an array returns a value of type \<open>'a res\<close>: \<open>Inl\<close> of the fault, or
  \<open>Inr\<close> of what it returns. The fault \<open>Diverges\<close> stands for a loop that is never left.
\<close>

named_theorems res_simps "evaluation of the fault-or-value type"
named_theorems mem_simps "what the byte-array routines compute"

section \<open>Machine types\<close>

type_synonym u8 = "8 word"
type_synonym u32 = "32 word"
type_synonym u64 = "64 word"

type_synonym vaddr = u64
type_synonym paddr = u64

section \<open>Faults\<close>

datatype fault = AssertFail | KPanic | NullDeref | OutOfBounds | DivByZero | Diverges

type_synonym 'a res = "fault + 'a"

definition bindR :: "'e + 'a \<Rightarrow> ('a \<Rightarrow> 'e + 'b) \<Rightarrow> 'e + 'b" where
  "bindR m f = (case m of Inl e \<Rightarrow> Inl e | Inr x \<Rightarrow> f x)"

definition ensure :: "bool \<Rightarrow> fault \<Rightarrow> 'a res \<Rightarrow> 'a res" where
  "ensure b e k = (if b then k else Inl e)"

definition is_ok :: "'e + 'a \<Rightarrow> bool" where
  "is_ok m = (case m of Inl _ \<Rightarrow> False | Inr _ \<Rightarrow> True)"

lemma bindR_simps [simp, res_simps]:
  "bindR (Inl e) f = Inl e"
  "bindR (Inr x) f = f x"
  by (simp_all add: bindR_def)

lemma ensure_simps [simp, res_simps]:
  "ensure True e k = k"
  "ensure False e k = Inl e"
  by (simp_all add: ensure_def)

lemma is_ok_simps [simp, res_simps]:
  "\<not> is_ok (Inl e)"
  "is_ok (Inr x)"
  by (simp_all add: is_ok_def)

lemma is_ok_iff: "is_ok m \<longleftrightarrow> (\<exists>x. m = Inr x)"
  by (cases m) auto

lemma bindR_Inr_iff: "bindR m f = Inr y \<longleftrightarrow> (\<exists>x. m = Inr x \<and> f x = Inr y)"
  by (cases m) auto

lemma bindR_Inl_iff: "bindR m f = Inl e \<longleftrightarrow> m = Inl e \<or> (\<exists>x. m = Inr x \<and> f x = Inl e)"
  by (cases m) auto

lemma bindR_assoc: "bindR (bindR m f) g = bindR m (\<lambda>x. bindR (f x) g)"
  by (cases m) auto

lemma ensure_Inr_iff: "ensure b e k = Inr y \<longleftrightarrow> b \<and> k = Inr y"
  by (cases b) auto

lemma bindR_cong [fundef_cong]:
  "m = m' \<Longrightarrow> (\<And>x. m' = Inr x \<Longrightarrow> f x = f' x) \<Longrightarrow> bindR m f = bindR m' f'"
  by (cases m') auto

section \<open>Checked array accesses\<close>

definition ld :: "'a list \<Rightarrow> nat \<Rightarrow> 'a res" where
  "ld xs i = (if i < length xs then Inr (xs ! i) else Inl OutOfBounds)"

definition st :: "'a list \<Rightarrow> nat \<Rightarrow> 'a \<Rightarrow> 'a list res" where
  "st xs i x = (if i < length xs then Inr (xs[i := x]) else Inl OutOfBounds)"

lemma ld_ok [simp]: "i < length xs \<Longrightarrow> ld xs i = Inr (xs ! i)"
  by (simp add: ld_def)

lemma ld_oob [simp]: "length xs \<le> i \<Longrightarrow> ld xs i = Inl OutOfBounds"
  by (simp add: ld_def)

lemma st_ok [simp]: "i < length xs \<Longrightarrow> st xs i x = Inr (xs[i := x])"
  by (simp add: st_def)

lemma st_oob [simp]: "length xs \<le> i \<Longrightarrow> st xs i x = Inl OutOfBounds"
  by (simp add: st_def)

section \<open>Loops over indices\<close>

fun each_index :: "(nat \<Rightarrow> 's \<Rightarrow> 's res) \<Rightarrow> nat list \<Rightarrow> 's \<Rightarrow> 's res" where
  "each_index f [] s = Inr s"
| "each_index f (i # is) s = bindR (f i s) (each_index f is)"

lemma each_index_append: "each_index f (xs @ ys) s = bindR (each_index f xs s) (each_index f ys)"
  by (induction xs arbitrary: s) (simp_all add: bindR_assoc bindR_def split: sum.splits)

section \<open>Status codes\<close>

text \<open>\<open>status_t\<close> of \<^verbatim>\<open>kernel/include/yak/status.h\<close>; the wait results
  \<open>YAK_WAIT_SUCCESS | i\<close> carry the object index.\<close>

datatype status =
    YAK_SUCCESS | YAK_NOENT | YAK_NULL_DEREF | YAK_NOT_IMPLEMENTED | YAK_NOT_SUPPORTED
  | YAK_BUSY | YAK_OOM | YAK_TIMEOUT | YAK_CANCELLED | YAK_IO | YAK_INVALID_ARGS
  | YAK_UNKNOWN_FS | YAK_NODEV | YAK_NODIR | YAK_EXISTS | YAK_NOSPACE | YAK_EOF | YAK_MFILE
  | YAK_PERM_DENIED | YAK_BADF | YAK_NOTTY | YAK_CROSS_DEVICE | YAK_ISDIR
  | YAK_WAIT_SUCCESS nat

definition IS_OK :: "status \<Rightarrow> bool" where
  "IS_OK s = (s = YAK_SUCCESS)"

definition IS_ERR :: "status \<Rightarrow> bool" where
  "IS_ERR s = (s \<noteq> YAK_SUCCESS)"

lemma IS_ERR_iff [simp]: "IS_ERR s \<longleftrightarrow> \<not> IS_OK s"
  by (simp add: IS_ERR_def IS_OK_def)

lemma IS_OK_simps [simp]: "IS_OK YAK_SUCCESS" "IS_OK s \<longleftrightarrow> s = YAK_SUCCESS"
  by (simp_all add: IS_OK_def)

section \<open>Lists cut at an index\<close>

lemma take_Suc_update:
  "n < length xs \<Longrightarrow> take (Suc n) (xs[n := x]) = take n xs @ [x]"
  by (simp add: take_Suc_conv_app_nth)

lemma drop_nth_Cons: "i < length xs \<Longrightarrow> drop i xs = xs ! i # drop (Suc i) xs"
  by (simp add: Cons_nth_drop_Suc)

end
