(* ===== verification/CString.thy ===== *)
theory CString
  imports Kernel_Prelude
begin

text \<open>
  The byte-array routines of \<^verbatim>\<open>kernel/lib/string.c\<close>. A buffer is a list of bytes and a
  pointer into it an index; a store or a load outside the list is the fault
  \<open>OutOfBounds\<close>. Loops are recursions over the number of iterations left.
\<close>

type_synonym buf = "u8 list"

section \<open>memset, memcpy, memcmp, memmove, bzero\<close>

fun memset_from :: "buf \<Rightarrow> nat \<Rightarrow> u8 \<Rightarrow> nat \<Rightarrow> nat \<Rightarrow> buf res" where
  "memset_from b p c i 0 = Inr b"
| "memset_from b p c i (Suc k) = bindR (st b (p + i) c) (\<lambda>b'. memset_from b' p c (Suc i) k)"

definition memset :: "buf \<Rightarrow> nat \<Rightarrow> u8 \<Rightarrow> nat \<Rightarrow> buf res" where
  "memset b p c n = memset_from b p c 0 n"

text \<open>\<open>dest\<close> and \<open>src\<close> are \<open>restrict\<close>: two different buffers.\<close>

fun memcpy_from :: "buf \<Rightarrow> nat \<Rightarrow> buf \<Rightarrow> nat \<Rightarrow> nat \<Rightarrow> nat \<Rightarrow> buf res" where
  "memcpy_from dest d src s i 0 = Inr dest"
| "memcpy_from dest d src s i (Suc k) =
     bindR (ld src (s + i)) (\<lambda>x. bindR (st dest (d + i) x) (\<lambda>dest'.
       memcpy_from dest' d src s (Suc i) k))"

definition memcpy :: "buf \<Rightarrow> nat \<Rightarrow> buf \<Rightarrow> nat \<Rightarrow> nat \<Rightarrow> buf res" where
  "memcpy dest d src s n = memcpy_from dest d src s 0 n"

lemma memset_from_eq:
  "p + i + k \<le> length b \<Longrightarrow>
   memset_from b p c i k = Inr (take (p + i) b @ replicate k c @ drop (p + i + k) b)"
proof (induction k arbitrary: b i)
  case 0
  then show ?case by simp
next
  case (Suc k)
  then show ?case
    using Suc.IH [of "Suc i" "b[p + i := c]"]
    by (simp add: take_Suc_update)
qed

lemma memset_eq [mem_simps]:
  "p + n \<le> length b \<Longrightarrow> memset b p c n = Inr (take p b @ replicate n c @ drop (p + n) b)"
  by (simp add: memset_def memset_from_eq)

lemma memcpy_from_eq:
  "d + i + k \<le> length dest \<Longrightarrow> s + i + k \<le> length src \<Longrightarrow>
   memcpy_from dest d src s i k =
     Inr (take (d + i) dest @ take k (drop (s + i) src) @ drop (d + i + k) dest)"
proof (induction k arbitrary: dest i)
  case 0
  then show ?case by simp
next
  case (Suc k)
  have "take (Suc k) (drop (s + i) src) = src ! (s + i) # take k (drop (Suc (s + i)) src)"
    using Suc.prems by (simp add: drop_nth_Cons)
  with Suc show ?case
    using Suc.IH [of "Suc i" "dest[d + i := src ! (s + i)]"]
    by (simp add: take_Suc_update)
qed

lemma memcpy_eq [mem_simps]:
  "d + n \<le> length dest \<Longrightarrow> s + n \<le> length src \<Longrightarrow>
   memcpy dest d src s n = Inr (take d dest @ take n (drop s src) @ drop (d + n) dest)"
  by (simp add: memcpy_def memcpy_from_eq)

lemma memcpy_length: "memcpy dest d src s n = Inr dest' \<Longrightarrow> length dest' = length dest"
proof -
  have "memcpy_from dest d src s i k = Inr dest' \<Longrightarrow> length dest' = length dest" for i k
    by (induction k arbitrary: dest i)
       (auto simp: bindR_Inr_iff ld_def st_def split: if_splits)
  then show "memcpy dest d src s n = Inr dest' \<Longrightarrow> length dest' = length dest"
    by (simp add: memcpy_def)
qed

text \<open>The value of a \<open>memcmp\<close> is \<open>-1\<close>, \<open>0\<close> or \<open>1\<close>.\<close>

fun memcmp_from :: "buf \<Rightarrow> nat \<Rightarrow> buf \<Rightarrow> nat \<Rightarrow> nat \<Rightarrow> nat \<Rightarrow> int res" where
  "memcmp_from b1 s1 b2 s2 i 0 = Inr 0"
| "memcmp_from b1 s1 b2 s2 i (Suc k) =
     bindR (ld b1 (s1 + i)) (\<lambda>x. bindR (ld b2 (s2 + i)) (\<lambda>y.
       if x \<noteq> y then Inr (if x < y then - 1 else 1) else memcmp_from b1 s1 b2 s2 (Suc i) k))"

definition memcmp :: "buf \<Rightarrow> nat \<Rightarrow> buf \<Rightarrow> nat \<Rightarrow> nat \<Rightarrow> int res" where
  "memcmp b1 s1 b2 s2 n = memcmp_from b1 s1 b2 s2 0 n"

text \<open>\<open>memmove\<close> works inside one buffer: ascending when the source lies above the destination,
  descending when it lies below.\<close>

fun memmove_up :: "buf \<Rightarrow> nat \<Rightarrow> nat \<Rightarrow> nat \<Rightarrow> nat \<Rightarrow> buf res" where
  "memmove_up b d s i 0 = Inr b"
| "memmove_up b d s i (Suc k) =
     bindR (ld b (s + i)) (\<lambda>x. bindR (st b (d + i) x) (\<lambda>b'. memmove_up b' d s (Suc i) k))"

fun memmove_down :: "buf \<Rightarrow> nat \<Rightarrow> nat \<Rightarrow> nat \<Rightarrow> buf res" where
  "memmove_down b d s 0 = Inr b"
| "memmove_down b d s (Suc i) =
     bindR (ld b (s + i)) (\<lambda>x. bindR (st b (d + i) x) (\<lambda>b'. memmove_down b' d s i))"

definition memmove :: "buf \<Rightarrow> nat \<Rightarrow> nat \<Rightarrow> nat \<Rightarrow> buf res" where
  "memmove b d s n =
     (if s > d then memmove_up b d s 0 n else if s < d then memmove_down b d s n else Inr b)"

fun bzero :: "buf \<Rightarrow> nat \<Rightarrow> nat \<Rightarrow> buf res" where
  "bzero b s 0 = Inr b"
| "bzero b s (Suc n) = bindR (st b (s + n) 0) (\<lambda>b'. bzero b' s n)"

lemma memcmp_from_eq:
  "s1 + i + k \<le> length b1 \<Longrightarrow> s2 + i + k \<le> length b2 \<Longrightarrow>
   \<exists>r. memcmp_from b1 s1 b2 s2 i k = Inr r \<and>
       (r = 0 \<longleftrightarrow> take k (drop (s1 + i) b1) = take k (drop (s2 + i) b2))"
proof (induction k arbitrary: i)
  case 0
  then show ?case by simp
next
  case (Suc k)
  then show ?case
    using Suc.IH [of "Suc i"] by (auto simp: drop_nth_Cons)
qed

lemma memcmp_zero_iff:
  "s1 + n \<le> length b1 \<Longrightarrow> s2 + n \<le> length b2 \<Longrightarrow>
   memcmp b1 s1 b2 s2 n = Inr 0 \<longleftrightarrow> take n (drop s1 b1) = take n (drop s2 b2)"
  using memcmp_from_eq [of s1 0 n b1 s2 b2] by (auto simp: memcmp_def)

lemma memmove_up_eq:
  "d \<le> s \<Longrightarrow> s + i + k \<le> length b \<Longrightarrow> memmove_up b d s i k =
     Inr (take (d + i) b @ take k (drop (s + i) b) @ drop (d + i + k) b)"
proof (induction k arbitrary: i b)
  case 0
  then show ?case by simp
next
  case (Suc k)
  have "take (Suc k) (drop (s + i) b) = b ! (s + i) # take k (drop (Suc (s + i)) b)"
    using Suc.prems by (simp add: drop_nth_Cons)
  with Suc.prems show ?case
    using Suc.IH [of "Suc i" "b[d + i := b ! (s + i)]"]
    by (simp add: take_Suc_update)
qed

lemma memmove_down_eq:
  "s \<le> d \<Longrightarrow> d + k \<le> length b \<Longrightarrow>
   memmove_down b d s k = Inr (take d b @ take k (drop s b) @ drop (d + k) b)"
proof (induction k arbitrary: b)
  case 0
  then show ?case by simp
next
  case (Suc k)
  let ?b = "b[d + k := b ! (s + k)]"
  have "take (Suc k) (drop s b) = take k (drop s b) @ [b ! (s + k)]"
    using Suc.prems by (simp add: take_Suc_conv_app_nth)
  moreover have "drop (d + k) ?b = b ! (s + k) # drop (d + Suc k) b"
    using Suc.prems by (simp add: drop_nth_Cons [of "d + k" ?b])
  moreover have "take k (drop s ?b) = take k (drop s b)"
    using Suc.prems by (simp add: take_drop)
  ultimately show ?case
    using Suc.prems Suc.IH [of ?b] by simp
qed

lemma memmove_eq [mem_simps]:
  "d + n \<le> length b \<Longrightarrow> s + n \<le> length b \<Longrightarrow>
   memmove b d s n = Inr (take d b @ take n (drop s b) @ drop (d + n) b)"
proof -
  assume bounds: "d + n \<le> length b" "s + n \<le> length b"
  have "b = take s b @ take n (drop s b) @ drop (s + n) b"
    by (metis append_take_drop_id drop_drop add.commute)
  then show ?thesis
    using memmove_up_eq [of d s 0 n b] memmove_down_eq [of s d n b] bounds
    by (cases "d < s"; cases "s < d") (auto simp: memmove_def)
qed

lemma bzero_eq [mem_simps]:
  "s + n \<le> length b \<Longrightarrow> bzero b s n = Inr (take s b @ replicate n 0 @ drop (s + n) b)"
proof (induction n arbitrary: b)
  case 0
  then show ?case by simp
next
  case (Suc n)
  then have "drop (s + n) (b[s + n := 0]) = 0 # drop (s + Suc n) b"
    by (simp add: drop_nth_Cons [of "s + n" "b[s + n := 0]"])
  with Suc show ?case by (simp add: replicate_append_same flip: replicate_Suc)
qed

section \<open>NUL-terminated strings\<close>

text \<open>Each loop reads at least one byte of a buffer per iteration and moves on, so the bytes
  left in that buffer bound it: a string that never ends runs out of the buffer.\<close>

function strlen_from :: "buf \<Rightarrow> nat \<Rightarrow> nat \<Rightarrow> nat res" where
  "strlen_from b p len =
     bindR (ld b (p + len)) (\<lambda>c. if c = 0 then Inr len else strlen_from b p (Suc len))"
  by auto
termination
  by (relation "measure (\<lambda>(b, p, len). length b - (p + len))")
     (auto simp: ld_def split: if_splits)

declare strlen_from.simps [simp del]

definition strlen :: "buf \<Rightarrow> nat \<Rightarrow> nat res" where
  "strlen b p = strlen_from b p 0"

fun strnlen_from :: "buf \<Rightarrow> nat \<Rightarrow> nat \<Rightarrow> nat \<Rightarrow> nat res" where
  "strnlen_from b p 0 len = Inr len"
| "strnlen_from b p (Suc maxlen) len =
     bindR (ld b (p + len)) (\<lambda>c. if c = 0 then Inr len else strnlen_from b p maxlen (Suc len))"

definition strnlen :: "buf \<Rightarrow> nat \<Rightarrow> nat \<Rightarrow> nat res" where
  "strnlen b p maxlen = strnlen_from b p maxlen 0"

function strcmp :: "buf \<Rightarrow> nat \<Rightarrow> buf \<Rightarrow> nat \<Rightarrow> int res" where
  "strcmp b1 s1 b2 s2 =
     bindR (ld b1 s1) (\<lambda>x. bindR (ld b2 s2) (\<lambda>y.
       if x \<noteq> 0 \<and> x = y then strcmp b1 (Suc s1) b2 (Suc s2) else Inr (uint x - uint y)))"
  by auto
termination
  by (relation "measure (\<lambda>(b1, s1, b2, s2). length b1 - s1)")
     (auto simp: ld_def split: if_splits)

declare strcmp.simps [simp del]

text \<open>The test \<open>n && *s1 && *s1 == *s2\<close> reads nothing once \<open>n\<close> is \<open>0\<close>, and does not read
  \<open>*s2\<close> when \<open>*s1\<close> is \<open>0\<close>; the final difference reads both.\<close>

fun strncmp :: "buf \<Rightarrow> nat \<Rightarrow> buf \<Rightarrow> nat \<Rightarrow> nat \<Rightarrow> int res" where
  "strncmp b1 s1 b2 s2 0 = Inr 0"
| "strncmp b1 s1 b2 s2 (Suc n) =
     bindR (ld b1 s1) (\<lambda>x. bindR (ld b2 s2) (\<lambda>y.
       if x \<noteq> 0 \<and> x = y then strncmp b1 (Suc s1) b2 (Suc s2) n else Inr (uint x - uint y)))"

fun strncpy :: "buf \<Rightarrow> nat \<Rightarrow> buf \<Rightarrow> nat \<Rightarrow> nat \<Rightarrow> buf res" where
  "strncpy dest d src s 0 = bindR (ld src s) (\<lambda>x. Inr dest)"
| "strncpy dest d src s (Suc len) =
     bindR (ld src s) (\<lambda>x. if x = 0 then Inr dest
       else bindR (st dest d x) (\<lambda>dest'. strncpy dest' (Suc d) src (Suc s) len))"

function strcpy_from :: "buf \<Rightarrow> nat \<Rightarrow> buf \<Rightarrow> nat \<Rightarrow> buf res" where
  "strcpy_from dest d src s =
     bindR (ld src s) (\<lambda>x. if x = 0 then st dest d 0
       else bindR (st dest d x) (\<lambda>dest'. strcpy_from dest' (Suc d) src (Suc s)))"
  by auto
termination
  by (relation "measure (\<lambda>(dest, d, src, s). length src - s)")
     (auto simp: ld_def split: if_splits)

declare strcpy_from.simps [simp del]

text \<open>\<open>strcpy\<close> returns a null pointer for a null destination and touches nothing.\<close>

definition strcpy :: "buf option \<Rightarrow> nat \<Rightarrow> buf \<Rightarrow> nat \<Rightarrow> buf option res" where
  "strcpy dest d src s =
     (case dest of
        None \<Rightarrow> Inr None
      | Some b \<Rightarrow> bindR (strcpy_from b d src s) (\<lambda>b'. Inr (Some b')))"

text \<open>\<open>mem len\<close> is what \<open>kmalloc (len)\<close> returns: a buffer of its own, or \<open>None\<close>.\<close>

definition strdup :: "(nat \<Rightarrow> buf option) \<Rightarrow> buf \<Rightarrow> nat \<Rightarrow> buf option res" where
  "strdup mem src s =
     bindR (strlen src s) (\<lambda>l.
       let len = l + 1 in
       case mem len of
         None \<Rightarrow> Inr None
       | Some b \<Rightarrow> bindR (memcpy b 0 src s len) (\<lambda>b'. Inr (Some b')))"

definition strndup :: "(nat \<Rightarrow> buf option) \<Rightarrow> buf \<Rightarrow> nat \<Rightarrow> nat \<Rightarrow> buf option res" where
  "strndup mem src s sz =
     (case mem sz of
        None \<Rightarrow> Inr None
      | Some b \<Rightarrow> bindR (memcpy b 0 src s sz) (\<lambda>b1.
          bindR (st b1 sz 0) (\<lambda>b2. Inr (Some b2))))"

text \<open>The string a pointer denotes: the bytes before the first NUL byte.\<close>

definition cstr :: "buf \<Rightarrow> nat \<Rightarrow> u8 list" where
  "cstr b p = takeWhile (\<lambda>c. c \<noteq> 0) (drop p b)"

definition terminated :: "buf \<Rightarrow> nat \<Rightarrow> bool" where
  "terminated b p \<longleftrightarrow> 0 \<in> set (drop p b)"

lemma terminated_less: "terminated b p \<Longrightarrow> p < length b"
  by (auto simp: terminated_def dest: arg_cong [of _ _ set] intro: ccontr)

lemma terminated_cases:
  assumes "terminated b p"
  obtains "b ! p = 0" "cstr b p = []" "p < length b"
  | "b ! p \<noteq> 0" "cstr b p = b ! p # cstr b (Suc p)" "terminated b (Suc p)" "p < length b"
  using assms terminated_less [OF assms] by (auto simp: terminated_def cstr_def drop_nth_Cons)

lemma terminated_Suc: "terminated b p \<Longrightarrow> b ! p \<noteq> 0 \<Longrightarrow> terminated b (Suc p)"
  by (erule terminated_cases) auto

lemma cstr_unfold:
  "terminated b p \<Longrightarrow> cstr b p = (if b ! p = 0 then [] else b ! p # cstr b (Suc p))"
  by (erule terminated_cases) auto

lemma strlen_from_eq:
  "terminated b (p + len) \<Longrightarrow> strlen_from b p len = Inr (len + length (cstr b (p + len)))"
proof (induction b p len rule: strlen_from.induct)
  case (1 b p len)
  from 1(2) show ?case
  proof (cases rule: terminated_cases)
    case 1
    then show ?thesis by (simp add: strlen_from.simps [of b])
  next
    case 2
    then show ?thesis using "1.IH" by (simp add: strlen_from.simps [of b p len])
  qed
qed

lemma strlen_eq [mem_simps]: "terminated b p \<Longrightarrow> strlen b p = Inr (length (cstr b p))"
  by (simp add: strlen_def strlen_from_eq)

lemma strlen_unterminated: "\<not> terminated b p \<Longrightarrow> strlen b p = Inl OutOfBounds"
proof -
  have "0 \<notin> set (drop (p + len) b) \<Longrightarrow> strlen_from b p len = Inl OutOfBounds" for len
  proof (induction b p len rule: strlen_from.induct)
    case (1 b p len)
    show ?case
    proof (cases "p + len < length b")
      case True
      then show ?thesis using 1 by (subst strlen_from.simps) (auto simp: drop_nth_Cons)
    next
      case False
      then show ?thesis by (subst strlen_from.simps) simp
    qed
  qed
  then show "\<not> terminated b p \<Longrightarrow> strlen b p = Inl OutOfBounds"
    by (simp add: strlen_def terminated_def)
qed

text \<open>Two terminated strings compare equal exactly when they are the same string.\<close>

lemma strcmp_eq:
  "terminated b1 s1 \<Longrightarrow> terminated b2 s2 \<Longrightarrow>
   \<exists>r. strcmp b1 s1 b2 s2 = Inr r \<and> (r = 0 \<longleftrightarrow> cstr b1 s1 = cstr b2 s2)"
proof (induction b1 s1 b2 s2 rule: strcmp.induct)
  case (1 b1 s1 b2 s2)
  note unfold = strcmp.simps [of b1 s1 b2 s2]
  have l: "s1 < length b1" "s2 < length b2" using 1(2,3) terminated_less by auto
  show ?case
  proof (cases "b1 ! s1 \<noteq> 0 \<and> b1 ! s1 = b2 ! s2")
    case True
    then have "terminated b1 (Suc s1)" "terminated b2 (Suc s2)"
        "cstr b1 s1 = b1 ! s1 # cstr b1 (Suc s1)" "cstr b2 s2 = b1 ! s1 # cstr b2 (Suc s2)"
      using 1(2,3) by (auto simp: terminated_Suc cstr_unfold [of b1 s1] cstr_unfold [of b2 s2])
    with True l "1.IH" show ?thesis by (auto simp: unfold)
  next
    case False
    with l have "strcmp b1 s1 b2 s2 = Inr (uint (b1 ! s1) - uint (b2 ! s2))"
      by (auto simp: unfold)
    moreover have "b1 ! s1 = b2 ! s2 \<longleftrightarrow> cstr b1 s1 = cstr b2 s2"
      using 1(2,3) False by (auto simp: cstr_unfold [of b1 s1] cstr_unfold [of b2 s2])
    ultimately show ?thesis by (simp flip: word_uint_eq_iff)
  qed
qed

lemma cstr_take_drop:
  "terminated b p \<Longrightarrow> take (length (cstr b p) + 1) (drop p b) = cstr b p @ [0]"
proof -
  have "0 \<in> set xs \<Longrightarrow> take (length (takeWhile (\<lambda>c. c \<noteq> 0) xs) + 1) xs =
      takeWhile (\<lambda>c. c \<noteq> 0) xs @ [0]" for xs :: "u8 list"
    by (induction xs) auto
  then show "terminated b p \<Longrightarrow> take (length (cstr b p) + 1) (drop p b) = cstr b p @ [0]"
    by (simp add: terminated_def cstr_def)
qed

lemma cstr_fits: "terminated b p \<Longrightarrow> p + (length (cstr b p) + 1) \<le> length b"
proof -
  assume t: "terminated b p"
  have "length (take (length (cstr b p) + 1) (drop p b)) = length (cstr b p) + 1"
    using cstr_take_drop [OF t] by simp
  with terminated_less [OF t] show ?thesis by auto
qed

text \<open>\<open>strdup\<close> allocates exactly the string and its terminator and copies both.\<close>

lemma strdup_eq:
  "terminated src s \<Longrightarrow> mem (length (cstr src s) + 1) = Some b \<Longrightarrow>
   length b = length (cstr src s) + 1 \<Longrightarrow> strdup mem src s = Inr (Some (cstr src s @ [0]))"
  using cstr_take_drop [of src s] cstr_fits [of src s]
  by (simp add: strdup_def mem_simps)

lemma strdup_oom:
  "terminated src s \<Longrightarrow> mem (length (cstr src s) + 1) = None \<Longrightarrow> strdup mem src s = Inr None"
  by (simp add: strdup_def mem_simps)

text \<open>\<open>strndup\<close> allocates \<open>size\<close> bytes and writes the terminator at index \<open>size\<close>, one byte past
  the allocation, whatever the source holds.\<close>

lemma strndup_overrun:
  "s + n \<le> length src \<Longrightarrow> mem n = Some b \<Longrightarrow> length b = n \<Longrightarrow>
   strndup mem src s n = Inl OutOfBounds"
  by (simp add: strndup_def mem_simps)

lemma strncpy_eq:
  "s < length src \<Longrightarrow> n \<le> length (cstr src s) \<Longrightarrow> terminated src s \<Longrightarrow> d + n \<le> length dest \<Longrightarrow>
   strncpy dest d src s n = Inr (take d dest @ take n (cstr src s) @ drop (d + n) dest)"
proof (induction dest d src s n rule: strncpy.induct)
  case (1 dest d src s)
  then show ?case by simp
next
  case (2 dest d src s len)
  from 2(4) show ?case
  proof (cases rule: terminated_cases)
    case 1
    then show ?thesis using 2 by simp
  next
    case c: 2
    then have "strncpy (dest[d := src ! s]) (Suc d) src (Suc s) len =
        Inr (take (Suc d) (dest[d := src ! s]) @ take len (cstr src (Suc s)) @
             drop (Suc d + len) (dest[d := src ! s]))"
      using 2 terminated_less [of src "Suc s"] by (intro "2.IH") auto
    then show ?thesis using c 2 by (simp add: take_Suc_update)
  qed
qed

end
