(* ===== verification/RingBuffer.thy ===== *)
theory RingBuffer
  imports CString
begin

text \<open>
  The byte ring buffer of \<^verbatim>\<open>kernel/core/ringbuffer.c\<close>: a buffer of \<open>capacity\<close> bytes, the
  index \<open>head\<close> where the next byte is written, the index \<open>tail\<close> where the next byte is read, and
  the number \<open>size\<close> of stored bytes. The interface locale \<open>byte_queue\<close> states what its clients
  (the line discipline) rely on: a bounded first-in first-out list of bytes.
\<close>

section \<open>The interface: a bounded byte queue\<close>

locale byte_queue =
  fixes qput :: "'q \<Rightarrow> buf \<Rightarrow> nat \<Rightarrow> (nat \<times> 'q) res"
    and qget :: "'q \<Rightarrow> buf \<Rightarrow> nat \<Rightarrow> (nat \<times> buf \<times> 'q) res"
    and qlist :: "'q \<Rightarrow> u8 list"
    and qcap :: "'q \<Rightarrow> nat"
    and qinv :: "'q \<Rightarrow> bool"
  assumes q_bound: "qinv q \<Longrightarrow> length (qlist q) \<le> qcap q"
    and q_put: "qinv q \<Longrightarrow> n \<le> length b \<Longrightarrow>
      \<exists>q'. qput q b n = Inr (min n (qcap q - length (qlist q)), q') \<and> qinv q' \<and> qcap q' = qcap q \<and>
           qlist q' = qlist q @ take (min n (qcap q - length (qlist q))) b"
    and q_get: "qinv q \<Longrightarrow> n \<le> length d \<Longrightarrow>
      \<exists>q'. qget q d n = Inr (min n (length (qlist q)),
             take (min n (length (qlist q))) (qlist q) @ drop (min n (length (qlist q))) d, q') \<and>
           qinv q' \<and> qcap q' = qcap q \<and> qlist q' = drop (min n (length (qlist q))) (qlist q)"
begin

lemma put_fits:
  assumes "qinv q" "length b \<le> qcap q - length (qlist q)"
  obtains q' where "qput q b (length b) = Inr (length b, q')" "qinv q'" "qcap q' = qcap q"
    "qlist q' = qlist q @ b"
  using q_put [OF assms(1), of "length b" b] assms(2) by (auto simp: min_def)

lemma put_full:
  assumes "qinv q" "length (qlist q) = qcap q" "n \<le> length b"
  obtains q' where "qput q b n = Inr (0, q')" "qinv q'" "qlist q' = qlist q"
  using q_put [OF assms(1,3)] assms(2) by auto

text \<open>Whatever was stored before comes out first, then the bytes just put.\<close>

lemma put_then_get_all:
  assumes "qinv q" "length b \<le> qcap q - length (qlist q)"
    and "length d = length (qlist q) + length b"
  shows "\<exists>q1 q2. qput q b (length b) = Inr (length b, q1) \<and>
     qget q1 d (length d) = Inr (length d, qlist q @ b, q2) \<and> qlist q2 = [] \<and> qinv q2"
proof -
  obtain q1 where q1: "qput q b (length b) = Inr (length b, q1)" "qinv q1" "qlist q1 = qlist q @ b"
    using put_fits assms by metis
  from q_get [OF q1(2), of "length d" d] q1(3) assms(3)
  show ?thesis by (auto simp: q1(1))
qed

lemma get_exact:
  assumes "qinv q" "n \<le> length (qlist q)" "length d = n"
  obtains q' where "qget q d n = Inr (n, take n (qlist q), q')" "qinv q'" "qcap q' = qcap q"
    "qlist q' = drop n (qlist q)"
  using q_get [OF assms(1), of n d] assms(2,3) by (auto simp: min.absorb1)

text \<open>Two reads of \<open>n\<close> and \<open>m\<close> bytes give what one read of \<open>n + m\<close> bytes gives.\<close>

lemma get_get:
  assumes "qinv q" "n + m \<le> length (qlist q)" "length d = n" "length e = m"
  shows "\<exists>q1 q2 x y. qget q d n = Inr (n, x, q1) \<and> qget q1 e m = Inr (m, y, q2) \<and>
     x @ y = take (n + m) (qlist q) \<and> qlist q2 = drop (n + m) (qlist q)"
proof -
  obtain q1 where q1: "qget q d n = Inr (n, take n (qlist q), q1)" "qinv q1"
      "qlist q1 = drop n (qlist q)"
    using get_exact [OF assms(1) _ assms(3)] assms(2) by (metis add_leD1)
  obtain q2 where "qget q1 e m = Inr (m, take m (qlist q1), q2)" "qlist q2 = drop m (qlist q1)"
    using get_exact [OF q1(2) _ assms(4)] q1(3) assms(2) by (metis length_drop add_le_imp_le_diff add.commute)
  with q1 show ?thesis by (auto simp: take_add) (simp add: add.commute)
qed

end

section \<open>The ring buffer\<close>

record ringbuffer =
  rb_data :: buf
  rb_capacity :: nat
  rb_size :: nat
  rb_head :: nat
  rb_tail :: nat

text \<open>\<open>mem\<close> is what \<open>kmalloc (cap)\<close> returned: \<open>None\<close> for a null pointer, after which \<open>data\<close> points to
  no bytes.\<close>

definition ringbuffer_init ::
    "buf option \<Rightarrow> ringbuffer option \<Rightarrow> nat \<Rightarrow> status \<times> ringbuffer option" where
  "ringbuffer_init mem rb cap =
     (case rb of
        None \<Rightarrow> (YAK_INVALID_ARGS, rb)
      | Some r \<Rightarrow>
          if cap = 0 then (YAK_INVALID_ARGS, rb)
          else (case mem of
                  None \<Rightarrow> (YAK_OOM, Some (r\<lparr>rb_data := []\<rparr>))
                | Some d \<Rightarrow> (YAK_SUCCESS, Some (r\<lparr>rb_data := d, rb_capacity := cap, rb_head := 0,
                                                rb_tail := 0, rb_size := 0\<rparr>))))"

definition ringbuffer_static_init ::
    "ringbuffer option \<Rightarrow> nat \<Rightarrow> buf option \<Rightarrow> status \<times> ringbuffer option" where
  "ringbuffer_static_init rb cap backing =
     (case (rb, backing) of
        (Some r, Some d) \<Rightarrow>
          if cap = 0 then (YAK_INVALID_ARGS, rb)
          else (YAK_SUCCESS, Some (r\<lparr>rb_data := d, rb_capacity := cap, rb_head := 0,
                                   rb_tail := 0, rb_size := 0\<rparr>))
      | _ \<Rightarrow> (YAK_INVALID_ARGS, rb))"

definition ringbuffer_put :: "ringbuffer \<Rightarrow> buf \<Rightarrow> nat \<Rightarrow> (nat \<times> ringbuffer) res" where
  "ringbuffer_put rb src count =
     (if count = 0 then Inr (0, rb)
      else
        let free = rb_capacity rb - rb_size rb in
        if free = 0 then Inr (0, rb)
        else
          let write_size = (if count < free then count else free);
              to_end = rb_capacity rb - rb_head rb;
              first_chunk = (if to_end > write_size then write_size else to_end);
              remaining = write_size - first_chunk
          in bindR (memcpy (rb_data rb) (rb_head rb) src 0 first_chunk) (\<lambda>d1.
             bindR (if remaining > 0 then memcpy d1 0 src first_chunk remaining else Inr d1) (\<lambda>d2.
               Inr (write_size,
                    rb\<lparr>rb_data := d2,
                       rb_head := (rb_head rb + write_size) mod rb_capacity rb,
                       rb_size := rb_size rb + write_size\<rparr>))))"

definition ringbuffer_get :: "ringbuffer \<Rightarrow> buf \<Rightarrow> nat \<Rightarrow> (nat \<times> buf \<times> ringbuffer) res" where
  "ringbuffer_get rb dst count =
     (if count = 0 then Inr (0, dst, rb)
      else
        let avail = rb_size rb in
        if avail = 0 then Inr (0, dst, rb)
        else
          let read_size = (if count < avail then count else avail);
              to_end = rb_capacity rb - rb_tail rb;
              first_chunk = (if to_end > read_size then read_size else to_end);
              remaining = read_size - first_chunk
          in bindR (memcpy dst 0 (rb_data rb) (rb_tail rb) first_chunk) (\<lambda>d1.
             bindR (if remaining > 0 then memcpy d1 first_chunk (rb_data rb) 0 remaining
                    else Inr d1) (\<lambda>d2.
               Inr (read_size, d2,
                    rb\<lparr>rb_tail := (rb_tail rb + read_size) mod rb_capacity rb,
                       rb_size := rb_size rb - read_size\<rparr>))))"

definition ringbuffer_available :: "ringbuffer \<Rightarrow> nat" where
  "ringbuffer_available rb = rb_size rb"

section \<open>Invariant and abstraction\<close>

definition rb_inv :: "ringbuffer \<Rightarrow> bool" where
  "rb_inv rb \<longleftrightarrow> 0 < rb_capacity rb \<and> length (rb_data rb) = rb_capacity rb \<and>
     rb_size rb \<le> rb_capacity rb \<and> rb_tail rb < rb_capacity rb \<and>
     rb_head rb = (rb_tail rb + rb_size rb) mod rb_capacity rb"

definition rb_list :: "ringbuffer \<Rightarrow> u8 list" where
  "rb_list rb = map (\<lambda>i. rb_data rb ! ((rb_tail rb + i) mod rb_capacity rb)) [0..<rb_size rb]"

lemma rb_list_length [simp]: "length (rb_list rb) = rb_size rb"
  by (simp add: rb_list_def)

lemma rb_list_nth: "i < rb_size rb \<Longrightarrow>
  rb_list rb ! i = rb_data rb ! ((rb_tail rb + i) mod rb_capacity rb)"
  by (simp add: rb_list_def)

lemma mod_wrap: "(a::nat) < c + c \<Longrightarrow> a mod c = (if a < c then a else a - c)"
  by (simp add: mod_if)

lemma rb_head_less: "rb_inv rb \<Longrightarrow> rb_head rb < rb_capacity rb"
  by (auto simp: rb_inv_def)

lemma ringbuffer_static_init_inv:
  "ringbuffer_static_init (Some r) cap (Some d) = (YAK_SUCCESS, Some rb) \<Longrightarrow> length d = cap \<Longrightarrow>
   rb_inv rb \<and> rb_list rb = []"
  by (auto simp: ringbuffer_static_init_def rb_inv_def rb_list_def split: if_splits)

lemma ringbuffer_init_inv:
  "ringbuffer_init (Some d) (Some r) cap = (YAK_SUCCESS, Some rb) \<Longrightarrow> length d = cap \<Longrightarrow>
   rb_inv rb \<and> rb_list rb = []"
  by (auto simp: ringbuffer_init_def rb_inv_def rb_list_def split: if_splits)

text \<open>The bytes of the array after a write of \<open>n\<close> bytes at \<open>head\<close>, wrapping at the end.\<close>

definition wrap_write :: "buf \<Rightarrow> nat \<Rightarrow> buf \<Rightarrow> nat \<Rightarrow> buf" where
  "wrap_write d h b n = map (\<lambda>j. if h \<le> j \<and> j < h + n then b ! (j - h)
     else if j + length d < h + n then b ! (j + length d - h) else d ! j) [0..<length d]"

lemma wrap_write_nth: "i < length d \<Longrightarrow> wrap_write d h b n ! i =
   (if h \<le> i \<and> i < h + n then b ! (i - h)
    else if i + length d < h + n then b ! (i + length d - h) else d ! i)"
  by (simp add: wrap_write_def)

lemma wrap_write_length [simp]: "length (wrap_write d h b n) = length d"
  by (simp add: wrap_write_def)

lemma wrap_write_straight:
  assumes "h + n \<le> length d" "n \<le> length b"
  shows "wrap_write d h b n = take h d @ take n b @ drop (h + n) d"
proof (rule nth_equalityI)
  fix i assume "i < length (wrap_write d h b n)"
  then have i: "i < length d" by simp
  consider "i < h" | "h \<le> i" "i - h < n" | "h + n \<le> i" by linarith
  then show "wrap_write d h b n ! i = (take h d @ take n b @ drop (h + n) d) ! i"
  proof cases
    case 1 with i assms show ?thesis by (simp add: wrap_write_nth nth_append)
  next
    case 2 with i assms show ?thesis by (auto simp: wrap_write_nth nth_append)
  next
    case 3
    then have "i - (h + n) + (h + n) = i" by simp
    with 3 i assms show ?thesis by (auto simp: wrap_write_nth nth_append)
  qed
qed (use assms in simp)

lemma wrap_write_wrapped:
  assumes "h < length d" "f = length d - h" "f \<le> n" "n \<le> length d" "n \<le> length b"
  shows "wrap_write d h b n = take (n - f) (drop f b) @ drop (n - f) (take h d @ take f b)"
proof (rule nth_equalityI)
  fix i assume "i < length (wrap_write d h b n)"
  then have i: "i < length d" by simp
  consider "i < n - f" | "n - f \<le> i" "i < h" | "h \<le> i" by linarith
  then show "wrap_write d h b n ! i = (take (n - f) (drop f b) @ drop (n - f) (take h d @ take f b)) ! i"
  proof cases
    case 1
    moreover have "i + length d - h = f + i" using assms by simp
    ultimately show ?thesis using i assms by (auto simp: wrap_write_nth nth_append)
  next
    case 2 with i assms show ?thesis by (auto simp: wrap_write_nth nth_append)
  next
    case 3 with i assms show ?thesis by (auto simp: wrap_write_nth nth_append)
  qed
qed (use assms in simp)

lemma wrap_write_copies:
  assumes "h < length d" "n \<le> length d" "n \<le> length b" 
    and f: "f = (if length d - h > n then n else length d - h)"
  shows "bindR (memcpy d h b 0 f) (\<lambda>d1. if n - f > 0 then memcpy d1 0 b f (n - f) else Inr d1)
    = Inr (wrap_write d h b n)"
proof (cases "length d - h > n")
  case True
  then have "f = n" "h + n \<le> length d" using f by auto
  then show ?thesis using assms(3)
    by (simp add: mem_simps wrap_write_straight)
next
  case False
  then have ff: "f = length d - h" using f by simp
  moreover have "memcpy d h b 0 f = Inr (take h d @ take f b)"
    using assms ff False by (simp add: mem_simps)
  moreover have "memcpy (take h d @ take f b) 0 b f (n - f) =
      Inr (take (n - f) (drop f b) @ drop (n - f) (take h d @ take f b))"
    using assms ff False by (simp add: mem_simps)
  ultimately show ?thesis using assms False
    by (simp add: wrap_write_wrapped)
qed

section \<open>The buffer refines the queue\<close>

lemma put_position:
  assumes "t < c" "s \<le> c" "i < (c::nat)" "n \<le> c - s"
  defines "h \<equiv> (t + s) mod c" and "p \<equiv> (t + i) mod c"
  shows "i < s \<Longrightarrow> \<not> (h \<le> p \<and> p < h + n) \<and> \<not> p + c < h + n"
    and "s \<le> i \<Longrightarrow> i < s + n \<Longrightarrow>
      (if h \<le> p \<and> p < h + n then p - h = i - s else p + c < h + n \<and> p + c - h = i - s)"
  using assms by (auto simp: mod_wrap)

lemma ringbuffer_put_refines:
  assumes inv: "rb_inv rb" and n: "n \<le> length src"
  shows "\<exists>rb'. ringbuffer_put rb src n =
            Inr (min n (rb_capacity rb - length (rb_list rb)), rb') \<and>
          rb_inv rb' \<and> rb_capacity rb' = rb_capacity rb \<and>
          rb_list rb' = rb_list rb @ take (min n (rb_capacity rb - length (rb_list rb))) src"
proof -
  define c where "c = rb_capacity rb"
  define w where "w = min n (c - rb_size rb)"
  define rb' where "rb' = rb\<lparr>rb_data := wrap_write (rb_data rb) (rb_head rb) src w,
     rb_head := (rb_head rb + w) mod c, rb_size := rb_size rb + w\<rparr>"
  have facts: "0 < c" "length (rb_data rb) = c" "rb_size rb \<le> c" "rb_tail rb < c"
      "rb_head rb = (rb_tail rb + rb_size rb) mod c" "rb_head rb < c"
    using inv by (auto simp: rb_inv_def c_def)
  have w: "w \<le> n" "w \<le> c - rb_size rb" by (auto simp: w_def)
  have w_if: "(if n < c - rb_size rb then n else c - rb_size rb) = w"
    by (simp add: w_def)
  have put: "ringbuffer_put rb src n = Inr (w, rb')" if "w \<noteq> 0"
  proof -
    define f where "f = (if c - rb_head rb > w then w else c - rb_head rb)"
    have "bindR (memcpy (rb_data rb) (rb_head rb) src 0 f)
        (\<lambda>d1. if w - f > 0 then memcpy d1 0 src f (w - f) else Inr d1)
      = Inr (wrap_write (rb_data rb) (rb_head rb) src w)"
      using facts(2,6) n w by (intro wrap_write_copies) (auto simp: f_def)
    moreover have "n \<noteq> 0" "c - rb_size rb \<noteq> 0" using that by (auto simp: w_def)
    ultimately show ?thesis
      unfolding ringbuffer_put_def Let_def c_def [symmetric] w_if f_def [symmetric] rb'_def
      by (simp add: bindR_assoc [symmetric])
  qed
  have inv': "rb_inv rb'"
    using facts w by (simp add: rb_inv_def rb'_def c_def [symmetric] mod_simps add.assoc)
  have list': "rb_list rb' = rb_list rb @ take w src"
  proof (rule nth_equalityI)
    show "length (rb_list rb') = length (rb_list rb @ take w src)"
      using w n by (simp add: rb'_def)
  next
    fix i assume "i < length (rb_list rb')"
    then have i: "i < rb_size rb + w" by (simp add: rb'_def)
    then have "i < c" using w facts by linarith
    note pos = put_position [OF facts(4,3) this w(2), folded facts(5)]
    have "rb_list rb' ! i = wrap_write (rb_data rb) (rb_head rb) src w ! ((rb_tail rb + i) mod c)"
      using i by (simp add: rb_list_nth rb'_def c_def)
    also have "\<dots> = (rb_list rb @ take w src) ! i"
      using pos i facts w n
      by (auto simp: wrap_write_nth nth_append rb_list_nth c_def [symmetric] not_less
            split: if_splits)
    finally show "rb_list rb' ! i = (rb_list rb @ take w src) ! i" .
  qed
  show ?thesis
  proof (cases "w = 0")
    case True
    then have "ringbuffer_put rb src n = Inr (0, rb)"
      by (auto simp: ringbuffer_put_def w_def c_def min_def split: if_splits)
    with True inv show ?thesis by (auto simp: w_def c_def)
  next
    case False
    with put inv' list' show ?thesis by (auto simp: w_def c_def rb'_def)
  qed
qed

lemma rb_list_chunks:
  assumes inv: "rb_inv rb" and r: "r \<le> rb_size rb"
    and f: "f = (if rb_capacity rb - rb_tail rb > r then r else rb_capacity rb - rb_tail rb)"
  shows "take r (rb_list rb) = take f (drop (rb_tail rb) (rb_data rb)) @ take (r - f) (rb_data rb)"
proof (rule nth_equalityI)
  show "length (take r (rb_list rb)) =
      length (take f (drop (rb_tail rb) (rb_data rb)) @ take (r - f) (rb_data rb))"
    using inv r f by (auto simp: rb_inv_def)
next
  fix i assume "i < length (take r (rb_list rb))"
  then have i: "i < r" using r by simp
  with inv r have c: "i + rb_tail rb < rb_capacity rb + rb_capacity rb"
    by (auto simp: rb_inv_def)
  show "take r (rb_list rb) ! i =
      (take f (drop (rb_tail rb) (rb_data rb)) @ take (r - f) (rb_data rb)) ! i"
    using inv r f i by (auto simp: rb_list_nth nth_append mod_wrap [OF c] rb_inv_def not_less add.commute)
qed

lemma ringbuffer_get_refines:
  assumes inv: "rb_inv rb" and n: "n \<le> length dst"
  shows "\<exists>rb'. ringbuffer_get rb dst n = Inr (min n (length (rb_list rb)),
            take (min n (length (rb_list rb))) (rb_list rb) @
              drop (min n (length (rb_list rb))) dst, rb') \<and>
          rb_inv rb' \<and> rb_capacity rb' = rb_capacity rb \<and>
          rb_list rb' = drop (min n (length (rb_list rb))) (rb_list rb)"
proof -
  define c where "c = rb_capacity rb"
  define r where "r = min n (rb_size rb)"
  define f where "f = (if c - rb_tail rb > r then r else c - rb_tail rb)"
  define rb' where "rb' = rb\<lparr>rb_tail := (rb_tail rb + r) mod c, rb_size := rb_size rb - r\<rparr>"
  have facts: "0 < c" "length (rb_data rb) = c" "rb_size rb \<le> c" "rb_tail rb < c"
      "rb_head rb = (rb_tail rb + rb_size rb) mod c"
    using inv by (auto simp: rb_inv_def c_def)
  have r: "r \<le> n" "r \<le> rb_size rb" by (auto simp: r_def)
  have r_if: "(if n < rb_size rb then n else rb_size rb) = r"
    by (simp add: r_def)
  have chunks: "take r (rb_list rb) =
      take f (drop (rb_tail rb) (rb_data rb)) @ take (r - f) (rb_data rb)"
    using rb_list_chunks [OF inv r(2), of f] by (simp add: f_def c_def)
  have f: "f \<le> r" "rb_tail rb + f \<le> c" using facts by (auto simp: f_def)
  have get: "ringbuffer_get rb dst n = Inr (r, take r (rb_list rb) @ drop r dst, rb')"
    if "r \<noteq> 0"
  proof -
    have "n \<noteq> 0" "rb_size rb \<noteq> 0" using that by (auto simp: r_def)
    moreover have "memcpy dst 0 (rb_data rb) (rb_tail rb) f =
        Inr (take f (drop (rb_tail rb) (rb_data rb)) @ drop f dst)"
      using facts f r n by (simp add: mem_simps)
    moreover have "memcpy (take f (drop (rb_tail rb) (rb_data rb)) @ drop f dst) f (rb_data rb) 0
        (r - f) = Inr (take r (rb_list rb) @ drop r dst)"
      using facts f r n by (simp add: mem_simps chunks)
    moreover have "r - f = 0 \<Longrightarrow> r = f" using f by simp
    ultimately show ?thesis
      unfolding ringbuffer_get_def Let_def c_def [symmetric] r_if f_def [symmetric] rb'_def
      by (auto simp: chunks)
  qed
  have inv': "rb_inv rb'"
  proof -
    have "((rb_tail rb + r) mod c + (rb_size rb - r)) mod c = (rb_tail rb + rb_size rb) mod c"
      using mod_add_left_eq [of "rb_tail rb + r" c "rb_size rb - r"] r(2) by simp
    with facts show ?thesis by (simp add: rb_inv_def rb'_def c_def [symmetric])
  qed
  have list': "rb_list rb' = drop r (rb_list rb)"
  proof (rule nth_equalityI)
    show "length (rb_list rb') = length (drop r (rb_list rb))"
      by (simp add: rb'_def)
  next
    fix i assume "i < length (rb_list rb')"
    then show "rb_list rb' ! i = drop r (rb_list rb) ! i"
      using r by (simp add: rb_list_nth rb'_def c_def mod_simps add.assoc)
  qed
  show ?thesis
  proof (cases "r = 0")
    case True
    then have "ringbuffer_get rb dst n = Inr (0, dst, rb)"
      by (auto simp: ringbuffer_get_def r_def min_def split: if_splits)
    with True inv show ?thesis by (auto simp: r_def)
  next
    case False
    with get inv' list' show ?thesis by (auto simp: r_def rb'_def)
  qed
qed

lemma ringbuffer_available_eq: "ringbuffer_available rb = length (rb_list rb)"
  by (simp add: ringbuffer_available_def)

interpretation rb: byte_queue ringbuffer_put ringbuffer_get rb_list rb_capacity rb_inv
proof
  show "length (rb_list q) \<le> rb_capacity q" if "rb_inv q" for q
    using that by (simp add: rb_inv_def)
qed (use ringbuffer_put_refines ringbuffer_get_refines in \<open>blast+\<close>)

end
