(* ===== verification/HashTable.thy ===== *)
theory HashTable
  imports CString
begin

text \<open>
  The open-addressing hash table of \<^verbatim>\<open>kernel/core/hashtable.c\<close>: linear probing, tombstones for
  deleted keys, a maximal load of three quarters. The interface locale \<open>dictionary\<close> states
  what its clients rely on, a finite map from byte strings to non-null pointers.

  A key is a buffer and its length, a value a pointer (\<open>u64\<close>, null is \<open>0\<close>). \<open>find_entry\<close> is a
  loop without a bound; after \<open>capacity\<close> iterations it has read every slot and the next round
  reads the same slots again, so the model stops there with \<open>Diverges\<close>, and the theorems show
  that it never comes to that.
\<close>

unbundle bit_operations_syntax

section \<open>Data\<close>

record ht_entry =
  he_key :: "buf option"
  he_key_len :: nat
  he_value :: u64

record hashtable =
  ht_count :: nat
  ht_capacity :: nat
  ht_entries :: "ht_entry list"
  ht_hash :: "buf \<Rightarrow> nat \<Rightarrow> u64"
  ht_eq :: "buf \<Rightarrow> buf \<Rightarrow> nat \<Rightarrow> bool"

definition TOMB :: u64 where
  "TOMB = 1"

definition zero_entry :: ht_entry where
  "zero_entry = \<lparr>he_key = None, he_key_len = 0, he_value = 0\<rparr>"

section \<open>Operations\<close>

definition ht_init :: "(buf \<Rightarrow> nat \<Rightarrow> u64) \<Rightarrow> (buf \<Rightarrow> buf \<Rightarrow> nat \<Rightarrow> bool) \<Rightarrow> hashtable" where
  "ht_init hash eq =
     \<lparr>ht_count = 0, ht_capacity = 0, ht_entries = [], ht_hash = hash, ht_eq = eq\<rparr>"

text \<open>The sizes handed to \<open>kfree\<close>, and the cleared table; a null function pointer is \<open>None\<close> in
  the code and unconstrained here.\<close>

definition ht_destroy :: "(buf \<Rightarrow> nat \<Rightarrow> u64) \<Rightarrow> (buf \<Rightarrow> buf \<Rightarrow> nat \<Rightarrow> bool) \<Rightarrow>
    hashtable \<Rightarrow> nat list \<times> hashtable" where
  "ht_destroy null_hash null_eq tbl =
     (map he_key_len (filter (\<lambda>e. he_key e \<noteq> None) (take (ht_capacity tbl) (ht_entries tbl))) @
        [24 * ht_capacity tbl],
      ht_init null_hash null_eq)"

fun find_from :: "(buf \<Rightarrow> buf \<Rightarrow> nat \<Rightarrow> bool) \<Rightarrow> ht_entry list \<Rightarrow> nat \<Rightarrow> buf \<Rightarrow> nat \<Rightarrow>
    nat \<Rightarrow> nat option \<Rightarrow> nat \<Rightarrow> nat res" where
  "find_from eq entries capacity key key_len index tombstone 0 = Inl Diverges"
| "find_from eq entries capacity key key_len index tombstone (Suc rounds) =
     bindR (ld entries index) (\<lambda>entry.
       case he_key entry of
         None \<Rightarrow>
           if he_value entry = TOMB then
             find_from eq entries capacity key key_len ((index + 1) mod capacity)
               (if tombstone = None then Some index else tombstone) rounds
           else Inr (case tombstone of None \<Rightarrow> index | Some t \<Rightarrow> t)
       | Some k \<Rightarrow>
           if key_len = he_key_len entry \<and> eq key k key_len then Inr index
           else find_from eq entries capacity key key_len ((index + 1) mod capacity)
                  tombstone rounds)"

definition find_entry :: "hashtable \<Rightarrow> ht_entry list \<Rightarrow> nat \<Rightarrow> buf \<Rightarrow> nat \<Rightarrow> nat res" where
  "find_entry tbl entries capacity key key_len =
     ensure (capacity \<noteq> 0) DivByZero
       (find_from (ht_eq tbl) entries capacity key key_len
          (unat (ht_hash tbl key key_len) mod capacity) None capacity)"

fun reinsert :: "hashtable \<Rightarrow> ht_entry list \<Rightarrow> ht_entry list \<Rightarrow> nat \<Rightarrow> nat \<Rightarrow>
    (ht_entry list \<times> nat) res" where
  "reinsert tbl [] entries new_cap count = Inr (entries, count)"
| "reinsert tbl (entry # rest) entries new_cap count =
     (case he_key entry of
        None \<Rightarrow> reinsert tbl rest entries new_cap count
      | Some k \<Rightarrow>
          bindR (find_entry tbl entries new_cap k (he_key_len entry)) (\<lambda>dest.
            reinsert tbl rest
              (entries[dest := \<lparr>he_key = Some k, he_key_len = he_key_len entry,
                                he_value = he_value entry\<rparr>])
              new_cap (count + 1)))"

text \<open>\<open>mem\<close>: whether \<open>kzalloc\<close> returned memory.\<close>

definition ht_resize :: "bool \<Rightarrow> hashtable \<Rightarrow> nat \<Rightarrow> (status \<times> hashtable) res" where
  "ht_resize mem tbl new_cap =
     (if \<not> mem then Inr (YAK_OOM, tbl)
      else bindR (reinsert tbl (take (ht_capacity tbl) (ht_entries tbl))
                    (replicate new_cap zero_entry) new_cap 0) (\<lambda>(entries, count).
             Inr (YAK_SUCCESS,
                  tbl\<lparr>ht_entries := entries, ht_capacity := new_cap, ht_count := count\<rparr>)))"

definition ht_grow :: "bool \<Rightarrow> hashtable \<Rightarrow> (status \<times> hashtable) res" where
  "ht_grow mem tbl =
     (if (ht_count tbl + 1) * 4 > ht_capacity tbl * 3
      then ht_resize mem tbl (if ht_capacity tbl = 0 then 16 else ht_capacity tbl * 2)
      else Inr (YAK_SUCCESS, tbl))"

text \<open>The part of \<open>ht_set\<close> after the growth; \<open>mem\<close>: whether \<open>kmalloc (key_len)\<close> returned
  memory for the copy of the key.\<close>

definition ht_store :: "bool \<Rightarrow> hashtable \<Rightarrow> buf \<Rightarrow> nat \<Rightarrow> u64 \<Rightarrow> bool \<Rightarrow>
    (status \<times> hashtable) res" where
  "ht_store mem tbl key key_len value overwrite =
     bindR (find_entry tbl (ht_entries tbl) (ht_capacity tbl) key key_len) (\<lambda>i.
     bindR (ld (ht_entries tbl) i) (\<lambda>entry.
       let new_key = (he_key entry = None) in
       if \<not> new_key \<and> \<not> overwrite then Inr (YAK_EXISTS, tbl)
       else
         let tbl1 = (if new_key \<and> he_value entry \<noteq> TOMB
                     then tbl\<lparr>ht_count := ht_count tbl + 1\<rparr> else tbl);
             entry1 = entry\<lparr>he_key_len := key_len\<rparr> in
         if \<not> mem then Inr (YAK_OOM, tbl1\<lparr>ht_entries := (ht_entries tbl1)[i := entry1]\<rparr>)
         else bindR (memcpy (replicate key_len 0) 0 key 0 key_len) (\<lambda>key_copy.
           Inr (YAK_SUCCESS,
                tbl1\<lparr>ht_entries := (ht_entries tbl1)
                       [i := entry1\<lparr>he_key := Some key_copy, he_value := value\<rparr>]\<rparr>))))"

definition ht_set :: "bool \<Rightarrow> bool \<Rightarrow> hashtable \<Rightarrow> buf \<Rightarrow> nat \<Rightarrow> u64 \<Rightarrow> bool \<Rightarrow>
    (status \<times> hashtable) res" where
  "ht_set mem_resize mem_key tbl key key_len value overwrite =
     bindR (ht_grow mem_resize tbl) (\<lambda>(res, tbl1).
       if IS_ERR res then Inr (res, tbl1)
       else ht_store mem_key tbl1 key key_len value overwrite)"

definition ht_get :: "hashtable \<Rightarrow> buf \<Rightarrow> nat \<Rightarrow> u64 res" where
  "ht_get tbl key key_len =
     (if ht_count tbl = 0 then Inr 0
      else bindR (find_entry tbl (ht_entries tbl) (ht_capacity tbl) key key_len) (\<lambda>i.
           bindR (ld (ht_entries tbl) i) (\<lambda>entry.
             Inr (if he_key entry = None then 0 else he_value entry))))"

definition ht_del :: "hashtable \<Rightarrow> buf \<Rightarrow> nat \<Rightarrow> (bool \<times> hashtable) res" where
  "ht_del tbl key key_len =
     (if ht_count tbl = 0 then Inr (False, tbl)
      else bindR (find_entry tbl (ht_entries tbl) (ht_capacity tbl) key key_len) (\<lambda>i.
           bindR (ld (ht_entries tbl) i) (\<lambda>entry.
             if he_key entry = None then Inr (False, tbl)
             else Inr (True, tbl\<lparr>ht_entries := (ht_entries tbl)
                       [i := \<lparr>he_key = None, he_key_len = 0, he_value = TOMB\<rparr>]\<rparr>))))"

section \<open>Ready-made hash and equality\<close>

definition ht_hash_str :: "buf \<Rightarrow> nat \<Rightarrow> u64" where
  "ht_hash_str key len =
     fold (\<lambda>value hash. (hash XOR ucast value) * 0x100000001b3) (take len key)
       0xcbf29ce484222325"

definition ht_eq_str :: "buf \<Rightarrow> buf \<Rightarrow> nat \<Rightarrow> bool" where
  "ht_eq_str a b len = (memcmp a 0 b 0 len = Inr 0)"

lemma ht_eq_str_iff:
  "length a = n \<Longrightarrow> length b = n \<Longrightarrow> ht_eq_str a b n \<longleftrightarrow> a = b"
  by (simp add: ht_eq_str_def memcmp_zero_iff)

section \<open>Probing\<close>

abbreviation slot :: "nat \<Rightarrow> nat \<Rightarrow> nat \<Rightarrow> nat" where
  "slot capacity h d \<equiv> (h + d) mod capacity"

definition vacant :: "ht_entry \<Rightarrow> bool" where
  "vacant e \<longleftrightarrow> he_key e = None \<and> he_value e \<noteq> TOMB"

definition matches :: "(buf \<Rightarrow> buf \<Rightarrow> nat \<Rightarrow> bool) \<Rightarrow> buf \<Rightarrow> nat \<Rightarrow> ht_entry \<Rightarrow> bool" where
  "matches eq key key_len e =
     (case he_key e of None \<Rightarrow> False | Some k \<Rightarrow> key_len = he_key_len e \<and> eq key k key_len)"

lemma slot_Suc: "slot c ((h + 1) mod c) d = slot c h (Suc d)"
  by (simp add: mod_simps)

lemma find_from_hit:
  "length es = c \<Longrightarrow> h < c \<Longrightarrow> n < rounds \<Longrightarrow> matches eq key kl (es ! slot c h n) \<Longrightarrow>
   (\<And>d. d < n \<Longrightarrow> \<not> vacant (es ! slot c h d) \<and> \<not> matches eq key kl (es ! slot c h d)) \<Longrightarrow>
   find_from eq es c key kl h tomb rounds = Inr (slot c h n)"
proof (induction n arbitrary: h tomb rounds)
  case 0
  then show ?case by (cases rounds) (auto simp: matches_def split: option.splits)
next
  case (Suc n)
  then obtain r where r: "rounds = Suc r" by (cases rounds) auto
  have "find_from eq es c key kl ((h + 1) mod c) tomb' r = Inr (slot c ((h + 1) mod c) n)" for tomb'
  proof (rule Suc.IH)
    show "matches eq key kl (es ! slot c ((h + 1) mod c) n)"
      using Suc.prems(4) by (simp only: slot_Suc)
    show "\<not> vacant (es ! slot c ((h + 1) mod c) d) \<and> \<not> matches eq key kl (es ! slot c ((h + 1) mod c) d)"
      if "d < n" for d
      using Suc.prems(5) [of "Suc d"] that unfolding slot_Suc by simp
  qed (use Suc.prems r in auto)
  then show ?case
    using Suc.prems(1,2) Suc.prems(5) [of 0] r slot_Suc [of h c n]
    by (auto simp: matches_def vacant_def split: option.splits)
qed

lemma find_from_miss:
  "length es = c \<Longrightarrow> h < c \<Longrightarrow> n < rounds \<Longrightarrow> vacant (es ! slot c h n) \<Longrightarrow>
   (\<And>d. d < n \<Longrightarrow> \<not> vacant (es ! slot c h d) \<and> \<not> matches eq key kl (es ! slot c h d)) \<Longrightarrow>
   (\<exists>m \<le> n. find_from eq es c key kl h tomb rounds =
       Inr (case tomb of None \<Rightarrow> slot c h m | Some t \<Rightarrow> t) \<and> he_key (es ! slot c h m) = None)"
proof (induction n arbitrary: h tomb rounds)
  case 0
  then show ?case by (cases rounds) (auto simp: vacant_def split: option.splits)
next
  case (Suc n)
  then obtain r where r: "rounds = Suc r" by (cases rounds) auto
  let ?h = "(h + 1) mod c"
  have step: "\<exists>m \<le> n. find_from eq es c key kl ?h tomb' r =
       Inr (case tomb' of None \<Rightarrow> slot c ?h m | Some t \<Rightarrow> t) \<and> he_key (es ! slot c ?h m) = None" for tomb'
  proof (rule Suc.IH)
    show "vacant (es ! slot c ?h n)"
      using Suc.prems(4) by (simp only: slot_Suc)
    show "\<not> vacant (es ! slot c ?h d) \<and> \<not> matches eq key kl (es ! slot c ?h d)" if "d < n" for d
      using Suc.prems(5) [of "Suc d"] that unfolding slot_Suc by simp
  qed (use Suc.prems r in auto)
  show ?case
  proof (cases "he_key (es ! h) = None")
    case True
    obtain m where "find_from eq es c key kl ?h (if tomb = None then Some h else tomb) r =
        Inr (case tomb of None \<Rightarrow> h | Some t \<Rightarrow> t)"
      using step [of "if tomb = None then Some h else tomb"] by (auto split: option.splits)
    then show ?thesis
      using True Suc.prems(1,2) Suc.prems(5) [of 0] r
      by (intro exI [of _ 0]) (auto simp: vacant_def split: option.splits)
  next
    case False
    obtain m where m: "m \<le> n" "find_from eq es c key kl ?h tomb r =
        Inr (case tomb of None \<Rightarrow> slot c h (Suc m) | Some t \<Rightarrow> t)" "he_key (es ! slot c h (Suc m)) = None"
      using step [of tomb] unfolding slot_Suc by blast
    have "\<not> matches eq key kl (es ! h)" using Suc.prems(2) Suc.prems(5) [of 0] by simp
    then have "find_from eq es c key kl h tomb rounds = find_from eq es c key kl ?h tomb r"
      using False Suc.prems(1,2) r by (auto simp: matches_def)
    with m show ?thesis by (intro exI [of _ "Suc m"]) (simp del: add_Suc_right)
  qed
qed

section \<open>Well-formed tables\<close>

definition reaches :: "ht_entry list \<Rightarrow> nat \<Rightarrow> nat \<Rightarrow> nat \<Rightarrow> bool" where
  "reaches es c h i \<longleftrightarrow> (\<exists>m < c. slot c h m = i \<and> (\<forall>d < m. \<not> vacant (es ! slot c h d)))"

definition home :: "(buf \<Rightarrow> nat \<Rightarrow> u64) \<Rightarrow> nat \<Rightarrow> buf \<Rightarrow> nat" where
  "home hash c k = unat (hash k (length k)) mod c"

definition probe_ok :: "(buf \<Rightarrow> nat \<Rightarrow> u64) \<Rightarrow> ht_entry list \<Rightarrow> nat \<Rightarrow> bool" where
  "probe_ok hash es c \<longleftrightarrow> length es = c \<and>
     (\<forall>i < c. \<forall>k. he_key (es ! i) = Some k \<longrightarrow>
        he_key_len (es ! i) = length k \<and> reaches es c (home hash c k) i \<and>
        (\<forall>j < c. he_key (es ! j) = Some k \<longrightarrow> j = i))"

definition used :: "ht_entry list \<Rightarrow> nat" where
  "used es = card {i. i < length es \<and> \<not> vacant (es ! i)}"

definition eq_ok :: "(buf \<Rightarrow> buf \<Rightarrow> nat \<Rightarrow> bool) \<Rightarrow> bool" where
  "eq_ok eq \<longleftrightarrow> (\<forall>a b. length a = length b \<longrightarrow> eq a b (length a) = (a = b))"

definition ht_inv :: "hashtable \<Rightarrow> bool" where
  "ht_inv tbl \<longleftrightarrow> eq_ok (ht_eq tbl) \<and>
     probe_ok (ht_hash tbl) (ht_entries tbl) (ht_capacity tbl) \<and>
     used (ht_entries tbl) \<le> ht_count tbl \<and> ht_count tbl * 4 \<le> ht_capacity tbl * 3 \<and>
     (ht_capacity tbl = 0 \<or> 2 \<le> ht_capacity tbl)"

fun es_map :: "ht_entry list \<Rightarrow> buf \<Rightarrow> u64 option" where
  "es_map [] k = None"
| "es_map (e # es) k = (if he_key e = Some k then Some (he_value e) else es_map es k)"

definition ht_map :: "hashtable \<Rightarrow> buf \<Rightarrow> u64 option" where
  "ht_map tbl = es_map (ht_entries tbl)"

lemma es_map_None: "es_map es k = None \<longleftrightarrow> (\<forall>e \<in> set es. he_key e \<noteq> Some k)"
  by (induction es) auto

lemma es_map_Some:
  "i < length es \<Longrightarrow> he_key (es ! i) = Some k \<Longrightarrow>
   (\<And>j. j < length es \<Longrightarrow> he_key (es ! j) = Some k \<Longrightarrow> j = i) \<Longrightarrow> es_map es k = Some (he_value (es ! i))"
proof (induction es arbitrary: i)
  case (Cons e es)
  show ?case
  proof (cases i)
    case 0
    then show ?thesis using Cons.prems by simp
  next
    case (Suc i')
    have "he_key e \<noteq> Some k" using Cons.prems(3) [of 0] Suc by auto
    moreover have "es_map es k = Some (he_value (es ! i'))"
      using Cons.prems Suc by (intro Cons.IH) force+
    ultimately show ?thesis using Suc by simp
  qed
qed simp

lemma es_map_update_other:
  "he_key e \<noteq> Some k \<Longrightarrow> he_key (es ! i) \<noteq> Some k \<Longrightarrow> es_map (es[i := e]) k = es_map es k"
  by (induction es arbitrary: i) (auto split: nat.splits)

lemma probe_okD:
  assumes "probe_ok hash es c" "i < c" "he_key (es ! i) = Some k"
  shows "he_key_len (es ! i) = length k" "reaches es c (home hash c k) i"
    and "\<And>j. j < c \<Longrightarrow> he_key (es ! j) = Some k \<Longrightarrow> j = i"
  using assms unfolding probe_ok_def by blast+

lemma probe_ok_length: "probe_ok hash es c \<Longrightarrow> length es = c"
  by (simp add: probe_ok_def)

lemma matches_iff:
  assumes "probe_ok hash es c" "eq_ok eq" "i < c"
  shows "matches eq key (length key) (es ! i) \<longleftrightarrow> he_key (es ! i) = Some key"
  using probe_okD(1) [OF assms(1,3)] assms(2)
  by (cases "he_key (es ! i)") (auto simp: matches_def eq_ok_def)

lemma probe_home: "0 < c \<Longrightarrow> home hash c k < c"
  by (simp add: home_def)

lemma find_from_present:
  assumes ok: "probe_ok hash es c" "eq_ok eq" and i: "i < c" "he_key (es ! i) = Some key"
  shows "find_from eq es c key (length key) (home hash c key) None c = Inr i"
proof -
  let ?h = "home hash c key" and ?m = "\<lambda>d. matches eq key (length key) (es ! slot c (home hash c key) d)"
  have len: "length es = c" using ok by (simp add: probe_ok_length)
  obtain m where m: "m < c" "slot c ?h m = i" "\<forall>d < m. \<not> vacant (es ! slot c ?h d)"
    using probe_okD(2) [OF ok(1) i] unfolding reaches_def by blast
  define n where "n = (LEAST d. ?m d)"
  have "?m m" using matches_iff [OF ok i(1)] i m by simp
  then have n: "?m n" "n \<le> m" "\<And>d. d < n \<Longrightarrow> \<not> ?m d"
    using LeastI [of ?m m] Least_le [of ?m m] not_less_Least [of _ ?m] by (auto simp: n_def)
  have "find_from eq es c key (length key) ?h None c = Inr (slot c ?h n)"
  proof (rule find_from_hit [OF len _ _ n(1)])
    show "?h < c" using i(1) by (simp add: probe_home)
    show "n < c" using n(2) m(1) by simp
    show "\<not> vacant (es ! slot c ?h d) \<and> \<not> ?m d" if "d < n" for d
      using m(3) n(2,3) that by simp
  qed
  moreover have "slot c ?h n = i"
  proof -
    have "slot c ?h n < c" using i by simp
    then have "he_key (es ! slot c ?h n) = Some key" using matches_iff [OF ok] n(1) by blast
    then show ?thesis using probe_okD(3) [OF ok(1) i \<open>slot c ?h n < c\<close>] by simp
  qed
  ultimately show ?thesis by simp
qed

lemma slot_surj: "h < c \<Longrightarrow> i < c \<Longrightarrow> \<exists>d < c. slot c h d = i"
  by (intro exI [of _ "(i + c - h) mod c"]) (simp add: mod_simps)

lemma used_less_vacant:
  assumes "used es < length es"
  shows "\<exists>i < length es. vacant (es ! i)"
proof (rule ccontr)
  assume "\<not> ?thesis"
  then have "{i. i < length es \<and> \<not> vacant (es ! i)} = {..<length es}" by auto
  with assms show False by (simp add: used_def)
qed

lemma find_from_absent:
  assumes ok: "probe_ok hash es c" "eq_ok eq" and room: "used es < c"
    and absent: "\<And>i. i < c \<Longrightarrow> he_key (es ! i) \<noteq> Some key"
  shows "\<exists>i < c. find_from eq es c key (length key) (home hash c key) None c = Inr i \<and>
           he_key (es ! i) = None \<and> reaches es c (home hash c key) i"
proof -
  let ?h = "home hash c key"
  let ?v = "\<lambda>d. vacant (es ! slot c ?h d)"
  have len: "length es = c" using ok by (simp add: probe_ok_length)
  have "0 < c" using room by simp
  then have h: "?h < c" by (rule probe_home)
  obtain i where "i < c" "vacant (es ! i)" using used_less_vacant room len by auto
  then obtain d where d: "d < c" "?v d" using slot_surj [OF h] by metis
  define n where "n = (LEAST d. ?v d)"
  have n: "?v n" "n \<le> d" "\<And>d. d < n \<Longrightarrow> \<not> ?v d"
    using LeastI [of ?v d] d(2) Least_le [of ?v d] not_less_Least [of _ ?v] by (auto simp: n_def)
  have nm: "\<not> matches eq key (length key) (es ! slot c ?h d)" for d
    using matches_iff [OF ok, of "slot c ?h d" key] absent [of "slot c ?h d"] \<open>0 < c\<close> by simp
  have "\<exists>m \<le> n. find_from eq es c key (length key) ?h None c =
      Inr (case None of None \<Rightarrow> slot c ?h m | Some t \<Rightarrow> t) \<and> he_key (es ! slot c ?h m) = None"
    using n(2) d(1) n(3) nm by (intro find_from_miss [OF len h _ n(1)]) auto
  then obtain m where m: "m \<le> n" "find_from eq es c key (length key) ?h None c = Inr (slot c ?h m)"
    "he_key (es ! slot c ?h m) = None" by auto
  moreover have "reaches es c ?h (slot c ?h m)"
    unfolding reaches_def using m(1) n(2,3) d(1) by (intro exI [of _ m]) auto
  moreover have "slot c ?h m < c" using \<open>0 < c\<close> by simp
  ultimately show ?thesis by blast
qed

lemma reaches_mono:
  assumes "reaches es c h i" and "\<And>j. vacant (es' ! j) \<Longrightarrow> vacant (es ! j)"
  shows "reaches es' c h i"
proof -
  obtain m where "m < c" "slot c h m = i" "\<forall>d < m. \<not> vacant (es ! slot c h d)"
    using assms(1) unfolding reaches_def by blast
  with assms(2) show ?thesis unfolding reaches_def by (intro exI [of _ m]) blast
qed

lemma vacant_update:
  "(vacant e \<Longrightarrow> vacant (es ! i)) \<Longrightarrow> vacant (es[i := e] ! j) \<Longrightarrow> vacant (es ! j)"
  by (cases "i < length es"; cases "i = j") (auto simp: nth_list_update list_update_beyond)

text \<open>Changing one slot keeps the probe invariant when no slot on a path becomes vacant and a
  key written is at the end of its own path and nowhere else.\<close>

lemma probe_ok_update:
  assumes ok: "probe_ok hash es c" and i: "i < c" and vac: "vacant e \<Longrightarrow> vacant (es ! i)"
    and new: "\<And>k. he_key e = Some k \<Longrightarrow> he_key_len e = length k \<and> reaches es c (home hash c k) i \<and>
                (\<forall>j < c. j \<noteq> i \<longrightarrow> he_key (es ! j) \<noteq> Some k)"
  shows "probe_ok hash (es[i := e]) c"
  unfolding probe_ok_def
proof (intro conjI allI impI)
  show "length (es[i := e]) = c" using ok by (simp add: probe_ok_length)
next
  fix j k assume j: "j < c" "he_key (es[i := e] ! j) = Some k"
  have len: "length es = c" using ok by (simp add: probe_ok_length)
  note mono = reaches_mono [of es c _ _ "es[i := e]", OF _ vacant_update [OF vac]]
  show "he_key_len (es[i := e] ! j) = length k"
    using j new probe_okD(1) [OF ok j(1)] len by (cases "i = j") auto
  show "reaches (es[i := e]) c (home hash c k) j"
    using j new [of k] probe_okD(2) [OF ok j(1), of k] len by (intro mono) (cases "i = j"; simp)
  fix l assume l: "l < c" "he_key (es[i := e] ! l) = Some k"
  show "l = j"
  proof -
    have key: "he_key (es[i := e] ! x) = (if x = i then he_key e else he_key (es ! x))" if "x < c" for x
      using that len by auto
    show ?thesis
      using j l new [of k] probe_okD(3) [OF ok j(1), of k] unfolding key [OF j(1)] key [OF l(1)]
      by (metis (full_types))
  qed
qed

lemma used_update:
  assumes "i < length es"
  shows "used (es[i := e]) \<le> used es + (if vacant (es ! i) \<and> \<not> vacant e then 1 else 0)"
proof (cases "vacant (es ! i) \<and> \<not> vacant e")
  case True
  have "{j. j < length es \<and> \<not> vacant (es[i := e] ! j)} \<subseteq>
      insert i {j. j < length es \<and> \<not> vacant (es ! j)}"
    using assms by (auto simp: nth_list_update split: if_splits)
  from card_mono [OF _ this] show ?thesis using True
    by (simp add: used_def card_insert_if)
next
  case False
  have "{j. j < length es \<and> \<not> vacant (es[i := e] ! j)} \<subseteq> {j. j < length es \<and> \<not> vacant (es ! j)}"
    using False assms by (auto simp: nth_list_update split: if_splits)
  from card_mono [OF _ this] show ?thesis using False by (simp add: used_def)
qed

lemma es_map_update:
  assumes "i < length es" "he_key e = Some k" "he_key (es ! i) = None \<or> he_key (es ! i) = Some k"
    and "\<And>j. j < length es \<Longrightarrow> j \<noteq> i \<Longrightarrow> he_key (es ! j) \<noteq> Some k"
  shows "es_map (es[i := e]) = (es_map es)(k \<mapsto> he_value e)"
proof
  fix k'
  show "es_map (es[i := e]) k' = ((es_map es)(k \<mapsto> he_value e)) k'"
  proof (cases "k' = k")
    case True
    have "es_map (es[i := e]) k = Some (he_value (es[i := e] ! i))"
      using assms by (intro es_map_Some) (auto simp: nth_list_update split: if_splits)
    with True assms(1) show ?thesis by simp
  next
    case False
    then have "he_key e \<noteq> Some k'" "he_key (es ! i) \<noteq> Some k'" using assms(2,3) by auto
    with False show ?thesis by (simp add: es_map_update_other)
  qed
qed

lemma es_map_delete:
  assumes "i < length es" "he_key e = None" "he_key (es ! i) = Some k"
    and "\<And>j. j < length es \<Longrightarrow> j \<noteq> i \<Longrightarrow> he_key (es ! j) \<noteq> Some k"
  shows "es_map (es[i := e]) = (es_map es)(k := None)"
proof
  fix k'
  show "es_map (es[i := e]) k' = ((es_map es)(k := None)) k'"
  proof (cases "k' = k")
    case True
    have "es_map (es[i := e]) k = None"
      unfolding es_map_None
    proof
      fix f assume "f \<in> set (es[i := e])"
      then obtain j where "j < length es" "f = es[i := e] ! j" by (auto simp: in_set_conv_nth)
      then show "he_key f \<noteq> Some k"
        using assms(1,2) assms(4) [of j] by (cases "j = i") auto
    qed
    with True show ?thesis by simp
  next
    case False
    then have "he_key e \<noteq> Some k'" "he_key (es ! i) \<noteq> Some k'" using assms(2,3) by auto
    with False show ?thesis by (simp add: es_map_update_other)
  qed
qed

lemma es_map_index:
  assumes "es_map es k = Some v"
  obtains i where "i < length es" "he_key (es ! i) = Some k" "he_value (es ! i) = v"
proof -
  have "\<exists>i < length es. he_key (es ! i) = Some k \<and> he_value (es ! i) = v"
    using assms
  proof (induction es)
    case (Cons e es)
    show ?case
    proof (cases "he_key e = Some k")
      case True
      with Cons.prems show ?thesis by (intro exI [of _ 0]) auto
    next
      case False
      with Cons obtain i where "i < length es" "he_key (es ! i) = Some k" "he_value (es ! i) = v" by auto
      then show ?thesis by (intro exI [of _ "Suc i"]) auto
    qed
  qed simp
  with that show ?thesis by blast
qed

text \<open>Where a lookup ends: at the slot of the key, or at a slot a new key may take.\<close>

lemma find_entry_cases:
  assumes ok: "probe_ok (ht_hash tbl) es c" "eq_ok (ht_eq tbl)" and room: "used es < c"
  obtains i where "find_entry tbl es c key (length key) = Inr i" "i < c" "he_key (es ! i) = Some key"
      "es_map es key = Some (he_value (es ! i))"
      "\<And>j. j < c \<Longrightarrow> j \<noteq> i \<Longrightarrow> he_key (es ! j) \<noteq> Some key"
    | i where "find_entry tbl es c key (length key) = Inr i" "i < c" "he_key (es ! i) = None"
      "es_map es key = None" "reaches es c (home (ht_hash tbl) c key) i"
      "\<And>j. j < c \<Longrightarrow> he_key (es ! j) \<noteq> Some key"
proof (cases "es_map es key")
  case None
  then have "\<And>j. j < c \<Longrightarrow> he_key (es ! j) \<noteq> Some key"
    using probe_ok_length [OF ok(1)] by (auto simp: es_map_None)
  with find_from_absent [OF ok room this] None that(2) room show ?thesis
    by (auto simp: find_entry_def home_def)
next
  case (Some v)
  then obtain i where i: "i < c" "he_key (es ! i) = Some key" "he_value (es ! i) = v"
    using probe_ok_length [OF ok(1)] by (auto elim: es_map_index)
  have "find_entry tbl es c key (length key) = Inr i"
    using find_from_present [OF ok i(1,2)] room by (simp add: find_entry_def home_def)
  moreover have "he_key (es ! j) \<noteq> Some key" if "j < c" "j \<noteq> i" for j
    using probe_okD(3) [OF ok(1) i(1,2) that(1)] that(2) by blast
  ultimately show ?thesis using that(1) [of i] i Some by simp
qed

section \<open>Reinsertion and growth\<close>

fun uniq :: "ht_entry list \<Rightarrow> bool" where
  "uniq [] = True"
| "uniq (e # es) \<longleftrightarrow> (\<forall>k. he_key e = Some k \<longrightarrow> es_map es k = None) \<and> uniq es"

lemma uniq_nth:
  "(\<And>i j k. i < length es \<Longrightarrow> j < length es \<Longrightarrow> he_key (es ! i) = Some k \<Longrightarrow>
      he_key (es ! j) = Some k \<Longrightarrow> i = j) \<Longrightarrow> uniq es"
proof (induction es)
  case (Cons e es)
  have "uniq es"
  proof (rule Cons.IH)
    fix i j k assume "i < length es" "j < length es" "he_key (es ! i) = Some k" "he_key (es ! j) = Some k"
    then show "i = j" using Cons.prems [of "Suc i" "Suc j" k] by simp
  qed
  moreover have "es_map es k = None" if "he_key e = Some k" for k
    unfolding es_map_None
  proof
    fix f assume "f \<in> set es"
    then obtain j where "j < length es" "f = es ! j" by (auto simp: in_set_conv_nth)
    then show "he_key f \<noteq> Some k" using Cons.prems [of 0 "Suc j" k] that by auto
  qed
  ultimately show ?case by simp
qed simp

abbreviation live :: "ht_entry list \<Rightarrow> nat" where
  "live es \<equiv> length (filter (\<lambda>e. he_key e \<noteq> None) es)"

lemma reinsert_ok:
  assumes "eq_ok (ht_eq tbl)"
  shows "probe_ok (ht_hash tbl) entries c \<Longrightarrow> used entries \<le> count \<Longrightarrow> count + live rest < c \<Longrightarrow>
   (\<And>e k. e \<in> set rest \<Longrightarrow> he_key e = Some k \<Longrightarrow>
      he_key_len e = length k \<and> es_map entries k = None) \<Longrightarrow> uniq rest \<Longrightarrow>
   \<exists>es'. reinsert tbl rest entries c count = Inr (es', count + live rest) \<and>
     probe_ok (ht_hash tbl) es' c \<and> used es' \<le> count + live rest \<and>
     es_map es' = es_map entries ++ es_map rest"
proof (induction rest arbitrary: entries count)
  case Nil
  then show ?case by (auto simp: map_add_def)
next
  case (Cons e rest)
  show ?case
  proof (cases "he_key e")
    case None
    have "\<exists>es'. reinsert tbl rest entries c count = Inr (es', count + live rest) \<and>
       probe_ok (ht_hash tbl) es' c \<and> used es' \<le> count + live rest \<and>
       es_map es' = es_map entries ++ es_map rest"
    proof (rule Cons.IH)
      show "he_key_len f = length k \<and> es_map entries k = None"
        if "f \<in> set rest" "he_key f = Some k" for f k
        using Cons.prems(4) [of f k] that by simp
    qed (use Cons.prems None in auto)
    moreover have "es_map (e # rest) = es_map rest" using None by (simp add: fun_eq_iff)
    ultimately show ?thesis using None by simp
  next
    case (Some k)
    let ?e = "\<lparr>he_key = Some k, he_key_len = he_key_len e, he_value = he_value e\<rparr>"
    have k: "he_key_len e = length k" "es_map entries k = None" "es_map rest k = None"
      using Cons.prems(4,5) Some by auto
    have "used entries < c" using Cons.prems(2,3) by simp
    then obtain i where i:
        "find_entry tbl entries c k (length k) = Inr i" "i < c" "he_key (entries ! i) = None"
        "reaches entries c (home (ht_hash tbl) c k) i" "\<And>j. j < c \<Longrightarrow> he_key (entries ! j) \<noteq> Some k"
      using find_entry_cases [OF Cons.prems(1) assms, of k] k(2) by (metis option.distinct(1))
    have len: "length entries = c" using Cons.prems(1) by (rule probe_ok_length)
    have map': "es_map (entries[i := ?e]) = (es_map entries)(k \<mapsto> he_value e)"
      using es_map_update [of i entries ?e k] i len by simp
    have "\<exists>es'. reinsert tbl rest (entries[i := ?e]) c (count + 1) = Inr (es', (count + 1) + live rest) \<and>
       probe_ok (ht_hash tbl) es' c \<and> used es' \<le> (count + 1) + live rest \<and>
       es_map es' = es_map (entries[i := ?e]) ++ es_map rest"
    proof (rule Cons.IH)
      show "probe_ok (ht_hash tbl) (entries[i := ?e]) c"
        using i k Cons.prems(1) by (intro probe_ok_update) (auto simp: vacant_def)
      show "used (entries[i := ?e]) \<le> count + 1"
        using used_update [of i entries ?e] i len Cons.prems(2) by (auto split: if_splits)
      show "he_key_len f = length k' \<and> es_map (entries[i := ?e]) k' = None"
        if "f \<in> set rest" "he_key f = Some k'" for f k'
        using Cons.prems(4) [of f k'] that k(3) by (auto simp: map' es_map_None)
    qed (use Cons.prems(3,5) Some in auto)
    moreover have "es_map (entries[i := ?e]) ++ es_map rest = es_map entries ++ es_map (e # rest)"
      using Some k(3) by (auto simp: map' map_add_def fun_eq_iff split: option.splits)
    ultimately show ?thesis using Some i(1) k(1) by (simp del: es_map.simps)
  qed
qed

lemma zero_entry_simps [simp]:
  "he_key zero_entry = None" "he_key_len zero_entry = 0" "he_value zero_entry = 0"
  "vacant zero_entry"
  by (simp_all add: zero_entry_def vacant_def TOMB_def)

lemma fresh_array:
  "probe_ok hash (replicate c zero_entry) c" "used (replicate c zero_entry) = 0"
  "es_map (replicate c zero_entry) = (\<lambda>k. None)"
proof -
  show "probe_ok hash (replicate c zero_entry) c" by (simp add: probe_ok_def)
  have "{i. i < c \<and> \<not> vacant (replicate c zero_entry ! i)} = {}" by auto
  then show "used (replicate c zero_entry) = 0" by (simp add: used_def)
  show "es_map (replicate c zero_entry) = (\<lambda>k. None)" by (induction c) auto
qed

lemma probe_ok_uniq: "probe_ok hash es c \<Longrightarrow> uniq es"
  using probe_okD(3) [of hash es c] probe_ok_length [of hash es c]
  by (intro uniq_nth) blast

lemma live_le_used: "live es \<le> used es"
proof -
  have "live es = card {i. i < length es \<and> he_key (es ! i) \<noteq> None}"
    by (simp add: length_filter_conv_card)
  also have "\<dots> \<le> used es"
    unfolding used_def by (intro card_mono) (auto simp: vacant_def)
  finally show ?thesis .
qed

lemma ht_resize_ok:
  assumes inv: "ht_inv tbl" and c: "ht_count tbl * 4 \<le> new_cap * 3" "2 \<le> new_cap"
  shows "\<exists>tbl'. ht_resize True tbl new_cap = Inr (YAK_SUCCESS, tbl') \<and> ht_inv tbl' \<and>
     ht_map tbl' = ht_map tbl \<and> ht_hash tbl' = ht_hash tbl \<and> ht_eq tbl' = ht_eq tbl \<and>
     ht_capacity tbl' = new_cap \<and> ht_count tbl' \<le> ht_count tbl"
proof -
  let ?es = "ht_entries tbl"
  note I = inv [unfolded ht_inv_def]
  have len: "length ?es = ht_capacity tbl" using I probe_ok_length by blast
  have live: "live ?es \<le> ht_count tbl" using I live_le_used [of ?es] by simp
  have "0 + live ?es < new_cap" using live c by linarith
  have "\<exists>es'. reinsert tbl ?es (replicate new_cap zero_entry) new_cap 0 = Inr (es', 0 + live ?es) \<and>
     probe_ok (ht_hash tbl) es' new_cap \<and> used es' \<le> 0 + live ?es \<and>
     es_map es' = es_map (replicate new_cap zero_entry) ++ es_map ?es"
  proof (rule reinsert_ok)
    show "he_key_len e = length k \<and> es_map (replicate new_cap zero_entry) k = None"
      if "e \<in> set ?es" "he_key e = Some k" for e k
      using that I probe_okD(1) len by (fastforce simp: fresh_array in_set_conv_nth)
    show "uniq ?es" using I probe_ok_uniq by blast
  qed (use I \<open>0 + live ?es < new_cap\<close> in \<open>auto simp: fresh_array\<close>)
  then show ?thesis
    using I live c len
    by (auto simp: ht_resize_def ht_inv_def ht_map_def fresh_array map_add_def)
qed

lemma ht_grow_ok:
  assumes inv: "ht_inv tbl"
  shows "\<exists>tbl'. ht_grow True tbl = Inr (YAK_SUCCESS, tbl') \<and> ht_inv tbl' \<and>
     ht_map tbl' = ht_map tbl \<and> ht_hash tbl' = ht_hash tbl \<and> ht_eq tbl' = ht_eq tbl \<and>
     (ht_count tbl' + 1) * 4 \<le> ht_capacity tbl' * 3"
proof (cases "(ht_count tbl + 1) * 4 > ht_capacity tbl * 3")
  case False
  with inv show ?thesis by (simp add: ht_grow_def)
next
  case True
  let ?c = "if ht_capacity tbl = 0 then 16 else ht_capacity tbl * 2"
  have I: "ht_count tbl * 4 \<le> ht_capacity tbl * 3" "ht_capacity tbl = 0 \<or> 2 \<le> ht_capacity tbl"
    using inv by (auto simp: ht_inv_def)
  then have "ht_count tbl * 4 \<le> ?c * 3" "2 \<le> ?c" "(ht_count tbl + 1) * 4 \<le> ?c * 3" by auto
  with ht_resize_ok [OF inv this(1,2)] True show ?thesis
    unfolding ht_grow_def by (auto intro: order_trans [of _ "(ht_count tbl + 1) * 4"])
qed

lemma ht_store_ok:
  fixes key :: buf
  assumes inv: "ht_inv tbl" and room: "(ht_count tbl + 1) * 4 \<le> ht_capacity tbl * 3"
  shows "\<exists>tbl'. ht_store mem tbl key (length key) value overwrite =
       Inr (if ht_map tbl key \<noteq> None \<and> \<not> overwrite then YAK_EXISTS
            else if mem then YAK_SUCCESS else YAK_OOM, tbl') \<and>
     ht_inv tbl' \<and>
     ht_map tbl' = (if (ht_map tbl key \<noteq> None \<and> \<not> overwrite) \<or> \<not> mem then ht_map tbl
                    else (ht_map tbl)(key \<mapsto> value))"
proof -
  let ?es = "ht_entries tbl" and ?c = "ht_capacity tbl"
  have ok: "probe_ok (ht_hash tbl) ?es ?c" "eq_ok (ht_eq tbl)" and u: "used ?es \<le> ht_count tbl"
    and c: "2 \<le> ?c" and load: "ht_count tbl * 4 \<le> ?c * 3"
    using inv room by (auto simp: ht_inv_def)
  have len: "length ?es = ?c" using ok(1) by (rule probe_ok_length)
  have room': "used ?es < ?c" using u load c by linarith
  have copy: "memcpy (replicate (length key) 0) 0 key 0 (length key) = Inr key"
    by (simp add: mem_simps)
  show ?thesis
  proof (cases rule: find_entry_cases [OF ok room', of key])
    case (1 i)
    let ?f = "(?es ! i)\<lparr>he_key_len := length key\<rparr>"
    let ?e = "?f\<lparr>he_key := Some key, he_value := value\<rparr>"
    have i: "i < length ?es" using 1(2) len by simp
    have key_len: "he_key_len (?es ! i) = length key" by (rule probe_okD(1) [OF ok(1) 1(2,3)])
    then have "?f = ?es ! i" by simp
    then have same: "?es[i := ?f] = ?es" by simp
    have "probe_ok (ht_hash tbl) (?es[i := ?e]) ?c"
      using 1 probe_okD(2) [OF ok(1) 1(2,3)] by (intro probe_ok_update [OF ok(1)]) (auto simp: vacant_def)
    moreover have "used (?es[i := ?e]) \<le> used ?es"
      using used_update [OF i, of ?e] 1(3) by (simp add: vacant_def)
    moreover have "es_map (?es[i := ?e]) = (es_map ?es)(key \<mapsto> value)"
      using es_map_update [of i ?es ?e key] i 1(3,5) len by simp
    ultimately show ?thesis
      using 1(1,3,4) i u inv copy same
      by (auto simp: ht_store_def Let_def ht_map_def ht_inv_def)
  next
    case (2 i)
    let ?f = "(?es ! i)\<lparr>he_key_len := length key\<rparr>"
    let ?e = "?f\<lparr>he_key := Some key, he_value := value\<rparr>"
    have i: "i < length ?es" using 2(2) len by simp
    have e0: "probe_ok (ht_hash tbl) (?es[i := ?f]) ?c" "used (?es[i := ?f]) \<le> used ?es"
        "es_map (?es[i := ?f]) = es_map ?es"
      using 2 used_update [OF i, of ?f] i
      by (auto intro!: probe_ok_update [OF ok(1)] ext es_map_update_other simp: vacant_def split: if_splits)
    have e: "probe_ok (ht_hash tbl) (?es[i := ?e]) ?c"
        "used (?es[i := ?e]) \<le> used ?es + (if he_value (?es ! i) = TOMB then 0 else 1)"
        "es_map (?es[i := ?e]) = (es_map ?es)(key \<mapsto> value)"
    proof -
      show "probe_ok (ht_hash tbl) (?es[i := ?e]) ?c"
        using 2 by (intro probe_ok_update [OF ok(1)]) (auto simp: vacant_def)
      show "used (?es[i := ?e]) \<le> used ?es + (if he_value (?es ! i) = TOMB then 0 else 1)"
        using used_update [OF i, of ?e] 2(3) by (auto simp: vacant_def split: if_splits)
      show "es_map (?es[i := ?e]) = (es_map ?es)(key \<mapsto> value)"
        using es_map_update [of i ?es ?e key] i 2(3,6) len by simp
    qed
    show ?thesis
      using 2(1,3,4) i u c ok(2) copy room load e0 e
      by (auto simp: ht_store_def Let_def ht_map_def ht_inv_def)
  qed
qed

lemma ht_set_ok:
  fixes key :: buf
  assumes inv: "ht_inv tbl"
  shows "\<exists>tbl'. ht_set True mem tbl key (length key) value overwrite =
       Inr (if ht_map tbl key \<noteq> None \<and> \<not> overwrite then YAK_EXISTS
            else if mem then YAK_SUCCESS else YAK_OOM, tbl') \<and>
     ht_inv tbl' \<and>
     ht_map tbl' = (if (ht_map tbl key \<noteq> None \<and> \<not> overwrite) \<or> \<not> mem then ht_map tbl
                    else (ht_map tbl)(key \<mapsto> value))"
proof -
  obtain t where t: "ht_grow True tbl = Inr (YAK_SUCCESS, t)" "ht_inv t" "ht_map t = ht_map tbl"
      "(ht_count t + 1) * 4 \<le> ht_capacity t * 3"
    using ht_grow_ok [OF inv] by blast
  have "ht_set True mem tbl key (length key) value overwrite =
      ht_store mem t key (length key) value overwrite"
    by (simp add: ht_set_def t(1))
  with ht_store_ok [OF t(2,4), of mem key "value" overwrite] show ?thesis
    by (simp only: t(3))
qed

text \<open>Whatever the two allocations answer: without memory for a larger array, when one is needed, nothing
  at all changes.\<close>

definition must_grow :: "hashtable \<Rightarrow> bool" where
  "must_grow tbl \<longleftrightarrow> (ht_count tbl + 1) * 4 > ht_capacity tbl * 3"

lemma ht_set_any:
  fixes key :: buf
  assumes inv: "ht_inv tbl"
  shows "\<exists>tbl'. ht_set room mem tbl key (length key) value overwrite =
       Inr (if must_grow tbl \<and> \<not> room then YAK_OOM
            else if ht_map tbl key \<noteq> None \<and> \<not> overwrite then YAK_EXISTS
            else if mem then YAK_SUCCESS else YAK_OOM, tbl') \<and>
     ht_inv tbl' \<and> (must_grow tbl \<and> \<not> room \<longrightarrow> tbl' = tbl) \<and>
     ht_map tbl' = (if must_grow tbl \<and> \<not> room \<or> ht_map tbl key \<noteq> None \<and> \<not> overwrite \<or> \<not> mem
                    then ht_map tbl else (ht_map tbl)(key \<mapsto> value))"
proof (cases "must_grow tbl \<and> \<not> room")
  case True
  then have "ht_set room mem tbl key (length key) value overwrite = Inr (YAK_OOM, tbl)"
    by (simp add: ht_set_def ht_grow_def ht_resize_def must_grow_def)
  with True inv show ?thesis by simp
next
  case False
  then have "ht_grow room tbl = ht_grow True tbl" by (auto simp: ht_grow_def must_grow_def)
  then have "ht_set room mem tbl key (length key) value overwrite = ht_set True mem tbl key (length key) value overwrite"
    by (simp add: ht_set_def)
  then show ?thesis using ht_set_ok [OF inv, of mem key "value" overwrite] False by auto
qed

lemma ht_count_pos: "ht_inv tbl \<Longrightarrow> ht_count tbl = 0 \<Longrightarrow> ht_map tbl key = None"
proof -
  assume "ht_inv tbl" "ht_count tbl = 0"
  then have "live (ht_entries tbl) = 0" using live_le_used [of "ht_entries tbl"] by (simp add: ht_inv_def)
  then show ?thesis by (auto simp: ht_map_def es_map_None filter_empty_conv)
qed

lemma ht_used_less: "ht_inv tbl \<Longrightarrow> ht_count tbl \<noteq> 0 \<Longrightarrow> used (ht_entries tbl) < ht_capacity tbl"
  by (auto simp: ht_inv_def)

lemma ht_get_ok:
  fixes key :: buf
  assumes inv: "ht_inv tbl"
  shows "ht_get tbl key (length key) = Inr (case ht_map tbl key of None \<Rightarrow> 0 | Some v \<Rightarrow> v)"
proof (cases "ht_count tbl = 0")
  case True
  with ht_count_pos [OF inv True] show ?thesis by (simp add: ht_get_def)
next
  case False
  have ok: "probe_ok (ht_hash tbl) (ht_entries tbl) (ht_capacity tbl)" "eq_ok (ht_eq tbl)"
    using inv by (auto simp: ht_inv_def)
  show ?thesis
    using False probe_ok_length [OF ok(1)]
    by (cases rule: find_entry_cases [OF ok ht_used_less [OF inv False], of key])
       (simp_all add: ht_get_def ht_map_def)
qed

lemma ht_del_ok:
  fixes key :: buf
  assumes inv: "ht_inv tbl"
  shows "\<exists>tbl'. ht_del tbl key (length key) = Inr (ht_map tbl key \<noteq> None, tbl') \<and> ht_inv tbl' \<and>
     ht_map tbl' = (ht_map tbl)(key := None)"
proof (cases "ht_count tbl = 0")
  case True
  with ht_count_pos [OF inv True] inv show ?thesis by (auto simp: ht_del_def fun_upd_idem)
next
  case False
  let ?es = "ht_entries tbl"
  let ?e = "\<lparr>he_key = None, he_key_len = 0, he_value = TOMB\<rparr> :: ht_entry"
  have ok: "probe_ok (ht_hash tbl) ?es (ht_capacity tbl)" "eq_ok (ht_eq tbl)"
    using inv by (auto simp: ht_inv_def)
  note len = probe_ok_length [OF ok(1)]
  show ?thesis
  proof (cases rule: find_entry_cases [OF ok ht_used_less [OF inv False], of key])
    case (1 i)
    have "probe_ok (ht_hash tbl) (?es[i := ?e]) (ht_capacity tbl)"
      using 1 by (intro probe_ok_update [OF ok(1)]) (auto simp: vacant_def)
    moreover have "used (?es[i := ?e]) \<le> used ?es"
      using used_update [of i ?es ?e] 1(2,3) len by (simp add: vacant_def)
    moreover have "es_map (?es[i := ?e]) = (es_map ?es)(key := None)"
      using es_map_delete [of i ?es ?e key] 1(2,3,5) len by simp
    ultimately show ?thesis
      using 1 False inv len by (auto simp: ht_del_def ht_map_def ht_inv_def)
  next
    case (2 i)
    then show ?thesis using False inv len by (auto simp: ht_del_def ht_map_def fun_upd_idem)
  qed
qed

lemma ht_init_ok: "eq_ok eq \<Longrightarrow> ht_inv (ht_init hash eq) \<and> ht_map (ht_init hash eq) = (\<lambda>k. None)"
  by (auto simp: ht_inv_def ht_init_def ht_map_def probe_ok_def used_def fun_eq_iff)

lemma eq_ok_str: "eq_ok ht_eq_str"
  by (simp add: eq_ok_def ht_eq_str_iff)

section \<open>The interface: a dictionary of byte strings\<close>

locale dictionary =
  fixes dget :: "'d \<Rightarrow> buf \<Rightarrow> u64 res"
    and dset :: "bool \<Rightarrow> 'd \<Rightarrow> buf \<Rightarrow> u64 \<Rightarrow> bool \<Rightarrow> (status \<times> 'd) res"
    and ddel :: "'d \<Rightarrow> buf \<Rightarrow> (bool \<times> 'd) res"
    and dmap :: "'d \<Rightarrow> buf \<Rightarrow> u64 option"
    and dinv :: "'d \<Rightarrow> bool"
  assumes d_get: "dinv d \<Longrightarrow> dget d k = Inr (case dmap d k of None \<Rightarrow> 0 | Some v \<Rightarrow> v)"
    and d_set: "dinv d \<Longrightarrow> \<exists>d'. dset mem d k v ow =
        Inr (if dmap d k \<noteq> None \<and> \<not> ow then YAK_EXISTS
             else if mem then YAK_SUCCESS else YAK_OOM, d') \<and> dinv d' \<and>
        dmap d' = (if (dmap d k \<noteq> None \<and> \<not> ow) \<or> \<not> mem then dmap d else (dmap d)(k \<mapsto> v))"
    and d_del: "dinv d \<Longrightarrow> \<exists>d'. ddel d k = Inr (dmap d k \<noteq> None, d') \<and> dinv d' \<and>
        dmap d' = (dmap d)(k := None)"
begin

lemma get_set:
  assumes "dinv d" "dmap d k = None \<or> ow"
  obtains d' where "dset True d k v ow = Inr (YAK_SUCCESS, d')" "dinv d'" "dget d' k = Inr v"
    "\<And>k'. k' \<noteq> k \<Longrightarrow> dget d' k' = dget d k'"
  using d_set [OF assms(1), of True k v ow] assms d_get by auto

lemma set_exists:
  assumes "dinv d" "dmap d k \<noteq> None"
  obtains d' where "dset mem d k v False = Inr (YAK_EXISTS, d')" "dinv d'"
    "\<And>k'. dget d' k' = dget d k'"
  using d_set [OF assms(1), of mem k v False] assms d_get by auto

lemma get_del:
  assumes "dinv d"
  obtains d' where "ddel d k = Inr (dmap d k \<noteq> None, d')" "dinv d'" "dget d' k = Inr 0"
    "\<And>k'. k' \<noteq> k \<Longrightarrow> dget d' k' = dget d k'"
  using d_del [OF assms(1), of k] assms d_get by auto

text \<open>A deleted key can be set again and reads back the new value.\<close>

lemma del_set:
  assumes "dinv d"
  shows "\<exists>b d1 d2. ddel d k = Inr (b, d1) \<and> dset True d1 k v False = Inr (YAK_SUCCESS, d2) \<and>
     dinv d2 \<and> dget d2 k = Inr v \<and> (\<forall>k'. k' \<noteq> k \<longrightarrow> dget d2 k' = dget d k')"
proof -
  obtain d1 where d1: "ddel d k = Inr (dmap d k \<noteq> None, d1)" "dinv d1" "dmap d1 = (dmap d)(k := None)"
    using d_del [OF assms] by blast
  then obtain d2 where d2: "dset True d1 k v False = Inr (YAK_SUCCESS, d2)" "dinv d2"
      "dget d2 k = Inr v" "\<And>k'. k' \<noteq> k \<Longrightarrow> dget d2 k' = dget d1 k'"
    using get_set [of d1 k False v] by auto
  moreover have "dget d1 k' = dget d k'" if "k' \<noteq> k" for k'
    using d1(2,3) assms that by (simp add: d_get)
  ultimately show ?thesis using d1(1) by (intro exI conjI) auto
qed

end

interpretation ht: dictionary
  "\<lambda>t k. ht_get t k (length k)" "\<lambda>mem t k v ow. ht_set True mem t k (length k) v ow"
  "\<lambda>t k. ht_del t k (length k)" ht_map ht_inv
  by unfold_locales (use ht_get_ok ht_set_ok ht_del_ok in \<open>blast+\<close>)

end
