(* ===== verification/RbTree.thy ===== *)
theory RbTree
  imports Kernel_Prelude
begin

text \<open>
  The red-black tree of \<^verbatim>\<open>kernel/core/subr_tree.c\<close>, on which the VM map keeps its entries and
  the VM objects their pages. The parent, left and right pointers of \<open>struct rb_entry\<close> form a
  tree; a pointer to an entry of it is a position: the subtree below the entry and the list of
  frames from its parent up to the root, each with the parent's colour, its element, its other
  subtree and the side the entry is on. Following a parent pointer drops a frame; a rotation
  rewrites the subtree at a position, and the writes to the parent's child pointer, to the
  root pointer and to the parent pointers are the plugging of the subtree into its frames.
  No tree of the kernel sets \<open>t_augment\<close>, so the augmentation calls do nothing.
\<close>

section \<open>Trees and positions\<close>

datatype color = RB_BLACK | RB_RED

datatype 'a rbtree = Null | Node color "'a rbtree" 'a "'a rbtree"

datatype 'a frame =
    InLeft color 'a "'a rbtree"
  | InRight color "'a rbtree" 'a

type_synonym 'a path = "'a frame list"

fun zip1 :: "'a rbtree \<Rightarrow> 'a frame \<Rightarrow> 'a rbtree" where
  "zip1 t (InLeft c x r) = Node c t x r"
| "zip1 t (InRight c l x) = Node c l x t"

fun plug :: "'a rbtree \<Rightarrow> 'a path \<Rightarrow> 'a rbtree" where
  "plug t [] = t"
| "plug t (f # fs) = plug (zip1 t f) fs"

fun inorder :: "'a rbtree \<Rightarrow> 'a list" where
  "inorder Null = []"
| "inorder (Node c l x r) = inorder l @ x # inorder r"

fun RBE_COLOR :: "'a rbtree \<Rightarrow> color res" where
  "RBE_COLOR Null = Inl NullDeref"
| "RBE_COLOR (Node c l x r) = Inr c"

text \<open>\<open>t == NULL || RBE_COLOR(t) == RB_BLACK\<close>, and its negation.\<close>

fun null_or_black :: "'a rbtree \<Rightarrow> bool" where
  "null_or_black Null = True"
| "null_or_black (Node c l x r) = (c = RB_BLACK)"

fun paint :: "color \<Rightarrow> 'a rbtree \<Rightarrow> 'a rbtree" where
  "paint c Null = Null"
| "paint c (Node c' l x r) = Node c l x r"

fun frame_color :: "'a frame \<Rightarrow> color" where
  "frame_color (InLeft c x r) = c"
| "frame_color (InRight c l x) = c"

fun set_frame_color :: "color \<Rightarrow> 'a frame \<Rightarrow> 'a frame" where
  "set_frame_color c (InLeft c' x r) = InLeft c x r"
| "set_frame_color c (InRight c' l x) = InRight c l x"

section \<open>Rotations\<close>

fun rbe_rotate_left :: "'a rbtree \<Rightarrow> 'a rbtree res" where
  "rbe_rotate_left (Node c a x (Node d b y e)) = Inr (Node d (Node c a x b) y e)"
| "rbe_rotate_left t = Inl NullDeref"

fun rbe_rotate_right :: "'a rbtree \<Rightarrow> 'a rbtree res" where
  "rbe_rotate_right (Node c (Node d a x b) y e) = Inr (Node d a x (Node c b y e))"
| "rbe_rotate_right t = Inl NullDeref"

section \<open>Insertion\<close>

text \<open>\<open>rbe\<close> is the position \<open>(t, fs)\<close>. When the uncle is black, the rotations leave a black
  parent above \<open>rbe\<close>, so the loop test fails and the root is painted.\<close>

fun rbe_insert_color :: "'a rbtree \<Rightarrow> 'a path \<Rightarrow> 'a rbtree res" where
  "rbe_insert_color t [] = Inr (paint RB_BLACK t)"
| "rbe_insert_color t [parent] =
     (if frame_color parent = RB_BLACK then Inr (paint RB_BLACK (plug t [parent]))
      else Inl NullDeref)"
| "rbe_insert_color t (parent # InLeft gc gx uncle # fs) =
     (if frame_color parent = RB_BLACK
      then Inr (paint RB_BLACK (plug t (parent # InLeft gc gx uncle # fs)))
      else if \<not> null_or_black uncle then
        rbe_insert_color
          (Node RB_RED (zip1 t (set_frame_color RB_BLACK parent)) gx (paint RB_BLACK uncle)) fs
      else
        bindR (case parent of InRight pc pl px \<Rightarrow> rbe_rotate_left (Node pc pl px t)
                            | InLeft pc px pr \<Rightarrow> Inr (Node pc t px pr)) (\<lambda>p.
        bindR (rbe_rotate_right (Node RB_RED (paint RB_BLACK p) gx uncle)) (\<lambda>g.
          Inr (paint RB_BLACK (plug g fs)))))"
| "rbe_insert_color t (parent # InRight gc uncle gx # fs) =
     (if frame_color parent = RB_BLACK
      then Inr (paint RB_BLACK (plug t (parent # InRight gc uncle gx # fs)))
      else if \<not> null_or_black uncle then
        rbe_insert_color
          (Node RB_RED (paint RB_BLACK uncle) gx (zip1 t (set_frame_color RB_BLACK parent))) fs
      else
        bindR (case parent of InLeft pc px pr \<Rightarrow> rbe_rotate_right (Node pc t px pr)
                            | InRight pc pl px \<Rightarrow> Inr (Node pc pl px t)) (\<lambda>p.
        bindR (rbe_rotate_left (Node RB_RED uncle gx (paint RB_BLACK p))) (\<lambda>g.
          Inr (paint RB_BLACK (plug g fs)))))"

text \<open>The descent of \<open>_rb_insert\<close>: the position where the comparison says \<open>0\<close>, or the null
  position where the element belongs.\<close>

fun rb_descend :: "('a \<Rightarrow> int) \<Rightarrow> 'a rbtree \<Rightarrow> 'a path \<Rightarrow> 'a rbtree \<times> 'a path" where
  "rb_descend cmp Null fs = (Null, fs)"
| "rb_descend cmp (Node c l x r) fs =
     (if cmp x < 0 then rb_descend cmp l (InLeft c x r # fs)
      else if cmp x > 0 then rb_descend cmp r (InRight c l x # fs)
      else (Node c l x r, fs))"

text \<open>Returns the element already there, or none.\<close>

definition rb_insert :: "('a \<Rightarrow> 'a \<Rightarrow> int) \<Rightarrow> 'a rbtree \<Rightarrow> 'a \<Rightarrow> ('a option \<times> 'a rbtree) res" where
  "rb_insert compare rbt elm =
     (case rb_descend (compare elm) rbt [] of
        (Node c l x r, fs) \<Rightarrow> Inr (Some x, rbt)
      | (Null, fs) \<Rightarrow>
          bindR (rbe_insert_color (Node RB_RED Null elm Null) fs) (\<lambda>rbt'. Inr (None, rbt')))"

section \<open>Removal\<close>

text \<open>One iteration of the loop of \<open>rbe_remove_color\<close> either moves \<open>rbe\<close> up or breaks out with
  the rotated subtree in place, \<open>rbe\<close> then being the root.\<close>

datatype 'a iteration = Continue "'a rbtree" "'a path" | Break "'a rbtree" "'a path"

fun remove_left :: "'a rbtree \<Rightarrow> color \<Rightarrow> 'a \<Rightarrow> 'a rbtree \<Rightarrow> 'a path \<Rightarrow> 'a iteration res" where
  "remove_left rbe pc px Null fs = Inl NullDeref"
| "remove_left rbe pc px (Node c l y r) fs =
     (if null_or_black l \<and> null_or_black r then
        Inr (Continue (Node pc rbe px (Node RB_RED l y r)) fs)
      else
        bindR (if null_or_black r then rbe_rotate_right (Node RB_RED (paint RB_BLACK l) y r)
               else Inr (Node c l y r)) (\<lambda>tmp.
          case tmp of
            Null \<Rightarrow> Inl NullDeref
          | Node c' l' y' r' \<Rightarrow>
              bindR (rbe_rotate_left
                       (Node RB_BLACK rbe px (Node pc l' y' (paint RB_BLACK r')))) (\<lambda>s.
                Inr (Break s fs))))"

fun remove_right :: "'a rbtree \<Rightarrow> color \<Rightarrow> 'a \<Rightarrow> 'a rbtree \<Rightarrow> 'a path \<Rightarrow> 'a iteration res" where
  "remove_right rbe pc px Null fs = Inl NullDeref"
| "remove_right rbe pc px (Node c l y r) fs =
     (if null_or_black l \<and> null_or_black r then
        Inr (Continue (Node pc (Node RB_RED l y r) px rbe) fs)
      else
        bindR (if null_or_black l then rbe_rotate_left (Node RB_RED l y (paint RB_BLACK r))
               else Inr (Node c l y r)) (\<lambda>tmp.
          case tmp of
            Null \<Rightarrow> Inl NullDeref
          | Node c' l' y' r' \<Rightarrow>
              bindR (rbe_rotate_right
                       (Node RB_BLACK (Node pc (paint RB_BLACK l') y' r') px rbe)) (\<lambda>s.
                Inr (Break s fs))))"

text \<open>The first half of an iteration: a red sibling is rotated above the parent, so that the
  sibling of \<open>rbe\<close> is black. (When \<open>rbe\<close> and its sibling are both null the C test
  \<open>RBE_LEFT(parent) == rbe\<close> cannot tell the sides apart; on either side the null sibling is
  dereferenced.)\<close>

fun remove_step :: "'a rbtree \<Rightarrow> 'a frame \<Rightarrow> 'a path \<Rightarrow> 'a iteration res" where
  "remove_step rbe (InLeft pc px tmp) fs =
     (case tmp of
        Node RB_RED a y b \<Rightarrow> remove_left rbe RB_RED px a (InLeft RB_BLACK y b # fs)
      | _ \<Rightarrow> remove_left rbe pc px tmp fs)"
| "remove_step rbe (InRight pc tmp px) fs =
     (case tmp of
        Node RB_RED a y b \<Rightarrow> remove_right rbe RB_RED px b (InRight RB_BLACK a y # fs)
      | _ \<Rightarrow> remove_right rbe pc px tmp fs)"

lemma remove_left_Continue:
  "remove_left rbe pc px tmp fs = Inr (Continue t gs) \<Longrightarrow>
   gs = fs \<and> (\<exists>r. t = Node pc rbe px r)"
  by (cases tmp) (auto simp: bindR_def split: if_splits rbtree.splits sum.splits)

lemma remove_right_Continue:
  "remove_right rbe pc px tmp fs = Inr (Continue t gs) \<Longrightarrow>
   gs = fs \<and> (\<exists>l. t = Node pc l px rbe)"
  by (cases tmp) (auto simp: bindR_def split: if_splits rbtree.splits sum.splits)

lemma remove_step_Continue:
  assumes "remove_step rbe f fs = Inr (Continue t gs)"
  shows "gs = fs \<or> (\<not> null_or_black t \<and> length gs = Suc (length fs))"
  using assms
  by (cases f) (auto simp del: remove_left.simps remove_right.simps split: rbtree.splits color.splits
      dest!: remove_left_Continue remove_right_Continue)

function rbe_remove_color :: "'a rbtree \<Rightarrow> 'a path \<Rightarrow> 'a rbtree res" where
  "rbe_remove_color rbe [] = Inr (paint RB_BLACK rbe)"
| "rbe_remove_color rbe (parent # fs) =
     (if \<not> null_or_black rbe then Inr (plug (paint RB_BLACK rbe) (parent # fs))
      else bindR (remove_step rbe parent fs) (\<lambda>it.
        case it of
          Continue rbe' fs' \<Rightarrow> rbe_remove_color rbe' fs'
        | Break s fs' \<Rightarrow> Inr (paint RB_BLACK (plug s fs'))))"
  by pat_completeness auto
termination
proof (relation "measure (\<lambda>(rbe, fs). 2 * length fs + (if null_or_black rbe then 1 else 0))",
    goal_cases)
  case 1
  show ?case by simp
next
  case (2 rbe parent fs it rbe' fs')
  then show ?case using remove_step_Continue [of rbe parent fs rbe' fs'] by auto
qed

text \<open>\<open>while ((tmp = RBE_LEFT(rbe)) != NULL) rbe = tmp\<close>, and its mirror image.\<close>

fun descend_min :: "'a rbtree \<Rightarrow> 'a path \<Rightarrow> 'a rbtree \<times> 'a path" where
  "descend_min (Node c (Node c1 l1 x1 r1) x r) fs = descend_min (Node c1 l1 x1 r1) (InLeft c x r # fs)"
| "descend_min t fs = (t, fs)"

fun descend_max :: "'a rbtree \<Rightarrow> 'a path \<Rightarrow> 'a rbtree \<times> 'a path" where
  "descend_max (Node c l x (Node c1 l1 x1 r1)) fs = descend_max (Node c1 l1 x1 r1) (InRight c l x # fs)"
| "descend_max t fs = (t, fs)"

text \<open>Removal of the entry at a position. With two children the successor takes over the place
  and the colour of the removed entry, and its right child takes the place of the successor.\<close>

fun rbe_remove :: "'a rbtree \<Rightarrow> 'a path \<Rightarrow> 'a rbtree res" where
  "rbe_remove Null fs = Inl NullDeref"
| "rbe_remove (Node c l x r) fs =
     (if l = Null then
        (if c = RB_BLACK then rbe_remove_color r fs else Inr (plug r fs))
      else if r = Null then
        (if c = RB_BLACK then rbe_remove_color l fs else Inr (plug l fs))
      else
        (case descend_min r [] of
           (Null, gs) \<Rightarrow> Inl NullDeref
         | (Node sc sl sx child, gs) \<Rightarrow>
             let hs = gs @ InRight c l sx # fs in
             if sc = RB_BLACK then rbe_remove_color child hs else Inr (plug child hs)))"

text \<open>\<open>_rb_remove\<close> of the entry equal to \<open>elm\<close>; the caller hands in an entry of the tree, and an
  entry that is in no tree has no position.\<close>

definition rb_remove :: "('a \<Rightarrow> 'a \<Rightarrow> int) \<Rightarrow> 'a rbtree \<Rightarrow> 'a \<Rightarrow> 'a rbtree res" where
  "rb_remove compare rbt elm =
     (case rb_descend (compare elm) rbt [] of (t, fs) \<Rightarrow> rbe_remove t fs)"

section \<open>Searching and walking\<close>

fun rb_find :: "('a \<Rightarrow> int) \<Rightarrow> 'a rbtree \<Rightarrow> 'a option" where
  "rb_find cmp Null = None"
| "rb_find cmp (Node c l x r) =
     (if cmp x < 0 then rb_find cmp l else if cmp x > 0 then rb_find cmp r else Some x)"

fun rb_nfind_from :: "('a \<Rightarrow> int) \<Rightarrow> 'a rbtree \<Rightarrow> 'a option \<Rightarrow> 'a option" where
  "rb_nfind_from cmp Null res = res"
| "rb_nfind_from cmp (Node c l x r) res =
     (if cmp x < 0 then rb_nfind_from cmp l (Some x)
      else if cmp x > 0 then rb_nfind_from cmp r res else Some x)"

definition rb_nfind :: "('a \<Rightarrow> int) \<Rightarrow> 'a rbtree \<Rightarrow> 'a option" where
  "rb_nfind cmp t = rb_nfind_from cmp t None"

text \<open>The entry at a position; the climbs follow parent pointers while the entry is a right
  (left) child and then one more.\<close>

fun entry :: "'a rbtree \<Rightarrow> 'a option" where
  "entry Null = None"
| "entry (Node c l x r) = Some x"

fun climb_from_right :: "'a path \<Rightarrow> 'a option" where
  "climb_from_right [] = None"
| "climb_from_right (InRight c l x # fs) = climb_from_right fs"
| "climb_from_right (InLeft c x r # fs) = Some x"

fun climb_from_left :: "'a path \<Rightarrow> 'a option" where
  "climb_from_left [] = None"
| "climb_from_left (InLeft c x r # fs) = climb_from_left fs"
| "climb_from_left (InRight c l x # fs) = Some x"

fun rb_next_at :: "'a rbtree \<Rightarrow> 'a path \<Rightarrow> 'a option res" where
  "rb_next_at Null fs = Inl NullDeref"
| "rb_next_at (Node c l x r) fs =
     Inr (if r \<noteq> Null then entry (fst (descend_min r (InRight c l x # fs)))
          else climb_from_right fs)"

fun rb_prev_at :: "'a rbtree \<Rightarrow> 'a path \<Rightarrow> 'a option res" where
  "rb_prev_at Null fs = Inl NullDeref"
| "rb_prev_at (Node c l x r) fs =
     Inr (if l \<noteq> Null then entry (fst (descend_max l (InLeft c x r # fs)))
          else climb_from_left fs)"

definition rb_next :: "('a \<Rightarrow> 'a \<Rightarrow> int) \<Rightarrow> 'a rbtree \<Rightarrow> 'a \<Rightarrow> 'a option res" where
  "rb_next compare rbt elm =
     (case rb_descend (compare elm) rbt [] of (t, fs) \<Rightarrow> rb_next_at t fs)"

definition rb_prev :: "('a \<Rightarrow> 'a \<Rightarrow> int) \<Rightarrow> 'a rbtree \<Rightarrow> 'a \<Rightarrow> 'a option res" where
  "rb_prev compare rbt elm =
     (case rb_descend (compare elm) rbt [] of (t, fs) \<Rightarrow> rb_prev_at t fs)"

definition rb_min :: "'a rbtree \<Rightarrow> 'a option" where
  "rb_min t = entry (fst (descend_min t []))"

definition rb_max :: "'a rbtree \<Rightarrow> 'a option" where
  "rb_max t = entry (fst (descend_max t []))"

definition rb_empty :: "'a rbtree \<Rightarrow> bool" where
  "rb_empty t = (t = Null)"

section \<open>The elements in order\<close>

fun before :: "'a path \<Rightarrow> 'a list" where
  "before [] = []"
| "before (InLeft c x r # fs) = before fs"
| "before (InRight c l x # fs) = before fs @ inorder l @ [x]"

fun after :: "'a path \<Rightarrow> 'a list" where
  "after [] = []"
| "after (InLeft c x r # fs) = x # inorder r @ after fs"
| "after (InRight c l x # fs) = after fs"

lemma inorder_plug: "inorder (plug t fs) = before fs @ inorder t @ after fs"
proof (induction fs arbitrary: t)
  case (Cons f fs)
  then show ?case by (cases f) auto
qed simp

lemma inorder_paint [simp]: "inorder (paint c t) = inorder t"
  by (cases t) auto

lemma before_append [simp]: "before (fs @ gs) = before gs @ before fs"
  by (induction fs rule: before.induct) auto

lemma after_append [simp]: "after (fs @ gs) = after fs @ after gs"
  by (induction fs rule: after.induct) auto

lemma sides_set_frame_color [simp]:
  "before (set_frame_color c f # fs) = before (f # fs)"
  "after (set_frame_color c f # fs) = after (f # fs)"
  "inorder (zip1 t (set_frame_color c f)) = inorder (zip1 t f)"
  by (cases f; simp)+

lemma rotate_left_inorder: "rbe_rotate_left t = Inr t' \<Longrightarrow> inorder t' = inorder t"
  by (cases t rule: rbe_rotate_left.cases) auto

lemma rotate_right_inorder: "rbe_rotate_right t = Inr t' \<Longrightarrow> inorder t' = inorder t"
  by (cases t rule: rbe_rotate_right.cases) auto

lemma insert_color_inorder:
  "rbe_insert_color t fs = Inr t' \<Longrightarrow> inorder t' = before fs @ inorder t @ after fs"
proof (induction t fs rule: rbe_insert_color.induct)
  case (3 t parent gc gx uncle fs)
  then show ?case
    by (cases parent)
       (auto simp: inorder_plug bindR_Inr_iff split: if_splits
         dest!: rotate_left_inorder rotate_right_inorder)
next
  case (4 t parent gc uncle gx fs)
  then show ?case
    by (cases parent)
       (auto simp: inorder_plug bindR_Inr_iff split: if_splits
         dest!: rotate_left_inorder rotate_right_inorder)
next
  case (2 t parent)
  then show ?case by (cases parent) (auto split: if_splits)
qed auto

fun it_inorder :: "'a iteration \<Rightarrow> 'a list" where
  "it_inorder (Continue t fs) = before fs @ inorder t @ after fs"
| "it_inorder (Break t fs) = before fs @ inorder t @ after fs"

text \<open>What the two rotations of an iteration amount to.\<close>

lemma remove_left_eval:
  "remove_left rbe pc px (Node c l y r) fs =
     (if null_or_black l \<and> null_or_black r then
        Inr (Continue (Node pc rbe px (Node RB_RED l y r)) fs)
      else Inr (Break
        (case (null_or_black r, l) of
           (True, Node d a z b) \<Rightarrow> Node pc (Node RB_BLACK rbe px a) z (Node RB_BLACK b y r)
         | _ \<Rightarrow> Node pc (Node RB_BLACK rbe px l) y (paint RB_BLACK r)) fs))"
  by (cases l; cases "null_or_black r") auto

lemma remove_right_eval:
  "remove_right rbe pc px (Node c l y r) fs =
     (if null_or_black l \<and> null_or_black r then
        Inr (Continue (Node pc (Node RB_RED l y r) px rbe) fs)
      else Inr (Break
        (case (null_or_black l, r) of
           (True, Node d a z b) \<Rightarrow> Node pc (Node RB_BLACK l y a) z (Node RB_BLACK b px rbe)
         | _ \<Rightarrow> Node pc (paint RB_BLACK l) y (Node RB_BLACK r px rbe)) fs))"
  by (cases r; cases "null_or_black l") auto

lemma remove_left_inorder:
  "remove_left rbe pc px tmp fs = Inr it \<Longrightarrow>
   it_inorder it = before fs @ inorder rbe @ px # inorder tmp @ after fs"
  by (cases tmp) (auto simp: remove_left_eval simp del: remove_left.simps(2)
      split: if_splits rbtree.splits bool.splits)

lemma remove_right_inorder:
  "remove_right rbe pc px tmp fs = Inr it \<Longrightarrow>
   it_inorder it = before fs @ inorder tmp @ px # inorder rbe @ after fs"
  by (cases tmp) (auto simp: remove_right_eval simp del: remove_right.simps(2)
      split: if_splits rbtree.splits bool.splits)

lemma remove_step_inorder:
  "remove_step rbe f fs = Inr it \<Longrightarrow> it_inorder it = before (f # fs) @ inorder rbe @ after (f # fs)"
  by (cases f)
     (auto simp del: remove_left.simps remove_right.simps split: rbtree.splits color.splits
       dest!: remove_left_inorder remove_right_inorder)

lemma remove_color_inorder:
  "rbe_remove_color t fs = Inr t' \<Longrightarrow> inorder t' = before fs @ inorder t @ after fs"
proof (induction t fs rule: rbe_remove_color.induct)
  case (2 rbe parent fs)
  show ?case
  proof (cases "null_or_black rbe")
    case True
    with 2(2) obtain it where it: "remove_step rbe parent fs = Inr it"
        "(case it of Continue rbe' fs' \<Rightarrow> rbe_remove_color rbe' fs'
          | Break s fs' \<Rightarrow> Inr (paint RB_BLACK (plug s fs'))) = Inr t'"
      by (auto simp: bindR_Inr_iff)
    with remove_step_inorder [OF it(1)] "2.IH" [OF _ it(1)] True show ?thesis
      by (cases it) (auto simp: inorder_plug)
  next
    case False
    with 2(2) show ?thesis by (cases parent) (auto simp: inorder_plug)
  qed
qed auto

lemma descend_min_split:
  assumes "descend_min t fs = (t', gs)" "t \<noteq> Null"
  obtains c x r hs where "t' = Node c Null x r" "gs = hs @ fs" "before hs = []"
    "inorder t = x # inorder r @ after hs"
proof -
  have "\<exists>c x r hs. t' = Node c Null x r \<and> gs = hs @ fs \<and> before hs = [] \<and>
      inorder t = x # inorder r @ after hs"
    using assms
  proof (induction t fs arbitrary: t' gs rule: descend_min.induct)
    case (1 c c1 l1 x1 r1 x r fs)
    then obtain d y s hs where "t' = Node d Null y s" "gs = hs @ InLeft c x r # fs" "before hs = []"
        "inorder (Node c1 l1 x1 r1) = y # inorder s @ after hs"
      by force
    then show ?case by (intro exI [of _ d] exI [of _ y] exI [of _ s] exI [of _ "hs @ [InLeft c x r]"]) auto
  qed auto
  with that show ?thesis by blast
qed

lemma descend_max_split:
  assumes "descend_max t fs = (t', gs)" "t \<noteq> Null"
  obtains c l x hs where "t' = Node c l x Null" "gs = hs @ fs" "after hs = []"
    "inorder t = before hs @ inorder l @ [x]"
proof -
  have "\<exists>c l x hs. t' = Node c l x Null \<and> gs = hs @ fs \<and> after hs = [] \<and>
      inorder t = before hs @ inorder l @ [x]"
    using assms
  proof (induction t fs arbitrary: t' gs rule: descend_max.induct)
    case (1 c l x c1 l1 x1 r1 fs)
    then obtain d m y hs where "t' = Node d m y Null" "gs = hs @ InRight c l x # fs" "after hs = []"
        "inorder (Node c1 l1 x1 r1) = before hs @ inorder m @ [y]"
      by force
    then show ?case by (intro exI [of _ d] exI [of _ m] exI [of _ y] exI [of _ "hs @ [InRight c l x]"]) auto
  qed auto
  with that show ?thesis by blast
qed

section \<open>Balance\<close>

fun bheight :: "'a rbtree \<Rightarrow> nat" where
  "bheight Null = 0"
| "bheight (Node c l x r) = bheight l + (if c = RB_BLACK then 1 else 0)"

fun invc :: "'a rbtree \<Rightarrow> bool" where
  "invc Null = True"
| "invc (Node c l x r) \<longleftrightarrow> (c = RB_RED \<longrightarrow> null_or_black l \<and> null_or_black r) \<and> invc l \<and> invc r"

fun invh :: "'a rbtree \<Rightarrow> bool" where
  "invh Null = True"
| "invh (Node c l x r) \<longleftrightarrow> bheight l = bheight r \<and> invh l \<and> invh r"

definition rb_ok :: "'a rbtree \<Rightarrow> bool" where
  "rb_ok t \<longleftrightarrow> null_or_black t \<and> invc t \<and> invh t"

fun sibling :: "'a frame \<Rightarrow> 'a rbtree" where
  "sibling (InLeft c x r) = r"
| "sibling (InRight c l x) = l"

text \<open>\<open>path_ok fs h\<close>: a subtree of black height \<open>h\<close> below \<open>fs\<close> balances the tree.\<close>

fun under_black :: "'a path \<Rightarrow> bool" where
  "under_black [] = False"
| "under_black (f # fs) = (frame_color f = RB_BLACK)"

fun path_ok :: "'a path \<Rightarrow> nat \<Rightarrow> bool" where
  "path_ok [] h = True"
| "path_ok (f # fs) h \<longleftrightarrow> invc (sibling f) \<and> invh (sibling f) \<and> bheight (sibling f) = h \<and>
     (if frame_color f = RB_BLACK then path_ok fs (Suc h)
      else null_or_black (sibling f) \<and> under_black fs \<and> path_ok fs h)"

definition pos_ok :: "'a rbtree \<Rightarrow> 'a path \<Rightarrow> bool" where
  "pos_ok t fs \<longleftrightarrow> invc t \<and> invh t \<and> path_ok fs (bheight t) \<and> (null_or_black t \<or> under_black fs)"

lemma not_red [simp]: "c \<noteq> RB_RED \<longleftrightarrow> c = RB_BLACK" "c \<noteq> RB_BLACK \<longleftrightarrow> c = RB_RED"
  by (cases c; simp)+

lemma paint_facts [simp]:
  "null_or_black (paint RB_BLACK t)" "invh (paint c t) = invh t"
  "invc t \<Longrightarrow> invc (paint RB_BLACK t)"
  "null_or_black t \<Longrightarrow> paint RB_BLACK t = t"
  by (cases t; simp)+

lemma bheight_paint: "bheight (paint RB_BLACK t) = bheight t + (if null_or_black t then 0 else 1)"
  by (cases t) auto

lemma zip1_pos_ok: "pos_ok t (f # fs) \<longleftrightarrow> pos_ok (zip1 t f) fs \<and> (null_or_black t \<or> frame_color f = RB_BLACK)
    \<and> invc t \<and> (frame_color f = RB_RED \<longrightarrow> under_black fs)"
  by (cases f) (auto simp: pos_ok_def)

lemma plug_ok: "pos_ok t fs \<Longrightarrow> rb_ok (plug t fs)"
proof (induction fs arbitrary: t)
  case Nil
  then show ?case by (simp add: pos_ok_def rb_ok_def)
next
  case (Cons f fs)
  then show ?case by (simp add: zip1_pos_ok)
qed

lemma pos_ok_root: "rb_ok t \<longleftrightarrow> pos_ok t []"
  by (auto simp: pos_ok_def rb_ok_def)

lemma rb_ok_paint: "rb_ok t \<Longrightarrow> paint RB_BLACK t = t"
  by (simp add: rb_ok_def)

lemma descend_pos_ok: "rb_descend cmp t fs = (t', fs') \<Longrightarrow> pos_ok t fs \<Longrightarrow> pos_ok t' fs'"
  by (induction cmp t fs rule: rb_descend.induct) (auto simp: pos_ok_def split: if_splits)

lemma descend_min_pos_ok: "descend_min t fs = (t', fs') \<Longrightarrow> pos_ok t fs \<Longrightarrow> pos_ok t' fs'"
  by (induction t fs rule: descend_min.induct) (auto simp: pos_ok_def split: if_splits)

text \<open>Insertion: a red subtree in a balanced place, whose parent may be red.\<close>

lemma insert_color_ok:
  "path_ok fs (bheight t) \<Longrightarrow> invc t \<Longrightarrow> invh t \<Longrightarrow> \<not> null_or_black t \<Longrightarrow>
   \<exists>t'. rbe_insert_color t fs = Inr t' \<and> rb_ok t'"
proof (induction t fs rule: rbe_insert_color.induct)
  case (1 t)
  then show ?case by (simp add: rb_ok_def)
next
  case (2 t parent)
  then have "pos_ok t [parent]" by (auto simp: pos_ok_def split: if_splits)
  with 2 show ?case using plug_ok [of t "[parent]"] rb_ok_paint [of "zip1 t parent"]
    by (auto split: if_splits)
next
  case (3 t parent gc gx uncle fs)
  show ?case
  proof (cases "frame_color parent = RB_BLACK")
    case True
    with 3 have "pos_ok t (parent # InLeft gc gx uncle # fs)" by (auto simp: pos_ok_def split: if_splits)
    from plug_ok [OF this] True show ?thesis by (simp add: rb_ok_paint)
  next
    case red: False
    with 3 have gc: "gc = RB_BLACK" and p: "null_or_black (sibling parent)" "bheight uncle = bheight t"
        "path_ok fs (Suc (bheight t))" "bheight (sibling parent) = bheight t" "invc uncle" "invh uncle"
        "invc (sibling parent)" "invh (sibling parent)"
      by (auto split: if_splits)
    show ?thesis
    proof (cases "null_or_black uncle")
      case True
      obtain a y b where t: "t = Node RB_RED a y b" using 3(5) by (cases t) auto
      have "\<exists>g. rbe_insert_color t (parent # InLeft gc gx uncle # fs) = Inr (paint RB_BLACK (plug g fs)) \<and>
          pos_ok g fs"
        using red True p 3(3,4) by (cases parent) (auto simp: t pos_ok_def)
      then show ?thesis using plug_ok rb_ok_paint by fastforce
    next
      case False
      have "\<exists>t'. rbe_insert_color
          (Node RB_RED (zip1 t (set_frame_color RB_BLACK parent)) gx (paint RB_BLACK uncle)) fs = Inr t' \<and> rb_ok t'"
        using p 3(3,4,5) False by (intro 3(1) [OF red False]; cases parent) (auto simp: bheight_paint)
      with red False show ?thesis by simp
    qed
  qed
next
  case (4 t parent gc uncle gx fs)
  show ?case
  proof (cases "frame_color parent = RB_BLACK")
    case True
    with 4 have "pos_ok t (parent # InRight gc uncle gx # fs)" by (auto simp: pos_ok_def split: if_splits)
    from plug_ok [OF this] True show ?thesis by (simp add: rb_ok_paint)
  next
    case red: False
    with 4 have gc: "gc = RB_BLACK" and p: "null_or_black (sibling parent)" "bheight uncle = bheight t"
        "path_ok fs (Suc (bheight t))" "bheight (sibling parent) = bheight t" "invc uncle" "invh uncle"
        "invc (sibling parent)" "invh (sibling parent)"
      by (auto split: if_splits)
    show ?thesis
    proof (cases "null_or_black uncle")
      case True
      obtain a y b where t: "t = Node RB_RED a y b" using 4(5) by (cases t) auto
      have "\<exists>g. rbe_insert_color t (parent # InRight gc uncle gx # fs) = Inr (paint RB_BLACK (plug g fs)) \<and>
          pos_ok g fs"
        using red True p 4(3,4) by (cases parent) (auto simp: t pos_ok_def)
      then show ?thesis using plug_ok rb_ok_paint by fastforce
    next
      case False
      have "\<exists>t'. rbe_insert_color
          (Node RB_RED (paint RB_BLACK uncle) gx (zip1 t (set_frame_color RB_BLACK parent))) fs = Inr t' \<and> rb_ok t'"
        using p 4(3,4,5) False by (intro 4(1) [OF red False]; cases parent) (auto simp: bheight_paint)
      with red False show ?thesis by simp
    qed
  qed
qed

text \<open>Removal: a place whose black height is one too small.\<close>

definition short_ok :: "'a rbtree \<Rightarrow> 'a path \<Rightarrow> bool" where
  "short_ok t fs \<longleftrightarrow> invc (paint RB_BLACK t) \<and> invh t \<and> path_ok fs (Suc (bheight t))"

fun it_ok :: "'a iteration \<Rightarrow> bool" where
  "it_ok (Continue t fs) = short_ok t fs"
| "it_ok (Break t fs) = pos_ok t fs"

lemma null_height: "null_or_black t \<Longrightarrow> bheight t = Suc n \<Longrightarrow> \<exists>l x r. t = Node RB_BLACK l x r"
  by (cases t) auto

lemma remove_left_ok:
  assumes "invc rbe" "invh rbe" "null_or_black rbe" "invc tmp" "invh tmp" "null_or_black tmp"
    and "bheight tmp = Suc (bheight rbe)"
    and "path_ok fs (bheight tmp + (if pc = RB_BLACK then 1 else 0))" "pc = RB_RED \<Longrightarrow> under_black fs"
  shows "\<exists>it. remove_left rbe pc px tmp fs = Inr it \<and> it_ok it"
proof -
  obtain l y r where tmp: "tmp = Node RB_BLACK l y r" using null_height assms(6,7) by blast
  show ?thesis
    unfolding tmp remove_left_eval using assms
    by (cases l; cases "null_or_black r")
       (auto simp: tmp short_ok_def pos_ok_def bheight_paint split: if_splits)
qed

lemma remove_right_ok:
  assumes "invc rbe" "invh rbe" "null_or_black rbe" "invc tmp" "invh tmp" "null_or_black tmp"
    and "bheight tmp = Suc (bheight rbe)"
    and "path_ok fs (bheight tmp + (if pc = RB_BLACK then 1 else 0))" "pc = RB_RED \<Longrightarrow> under_black fs"
  shows "\<exists>it. remove_right rbe pc px tmp fs = Inr it \<and> it_ok it"
proof -
  obtain l y r where tmp: "tmp = Node RB_BLACK l y r" using null_height assms(6,7) by blast
  show ?thesis
    unfolding tmp remove_right_eval using assms
    by (cases r; cases "null_or_black l")
       (auto simp: tmp short_ok_def pos_ok_def bheight_paint split: if_splits)
qed

lemma remove_step_ok:
  assumes "short_ok rbe (f # fs)" "null_or_black rbe"
  shows "\<exists>it. remove_step rbe f fs = Inr it \<and> it_ok it"
proof -
  have rbe: "invc rbe" "invh rbe" "invc (sibling f)" "invh (sibling f)"
      "bheight (sibling f) = Suc (bheight rbe)"
    using assms by (auto simp: short_ok_def)
  show ?thesis
  proof (cases "null_or_black (sibling f)")
    case True
    with rbe(5) obtain l y r where sib: "sibling f = Node RB_BLACK l y r" using null_height by metis
    with assms rbe True show ?thesis
      by (cases f) (auto simp: short_ok_def split: if_splits
            simp del: remove_left.simps remove_right.simps intro!: remove_left_ok remove_right_ok)
  next
    case False
    then obtain l y r where sib: "sibling f = Node RB_RED l y r" by (cases "sibling f") auto
    with assms rbe show ?thesis
      by (cases f) (auto simp: short_ok_def split: if_splits
            simp del: remove_left.simps remove_right.simps intro!: remove_left_ok remove_right_ok)
  qed
qed

lemma remove_color_ok: "short_ok t fs \<Longrightarrow> \<exists>t'. rbe_remove_color t fs = Inr t' \<and> rb_ok t'"
proof (induction t fs rule: rbe_remove_color.induct)
  case (1 rbe)
  then show ?case by (simp add: short_ok_def rb_ok_def)
next
  case (2 rbe parent fs)
  show ?case
  proof (cases "null_or_black rbe")
    case False
    with 2(2) have "pos_ok (paint RB_BLACK rbe) (parent # fs)"
      by (auto simp: short_ok_def pos_ok_def bheight_paint)
    from plug_ok [OF this] False show ?thesis by simp
  next
    case True
    obtain it where it: "remove_step rbe parent fs = Inr it" "it_ok it"
      using remove_step_ok [OF 2(2) True] by blast
    show ?thesis
    proof (cases it)
      case (Continue t' fs')
      with "2.IH" [OF _ it(1) Continue] it True show ?thesis by simp
    next
      case (Break s fs')
      with it True plug_ok [of s fs'] show ?thesis by (simp add: rb_ok_paint)
    qed
  qed
qed

lemma descend_min_append: "descend_min t (fs @ gs) = (fst (descend_min t fs), snd (descend_min t fs) @ gs)"
  by (induction t fs rule: descend_min.induct) simp_all

lemma path_ok_element:
  "path_ok (gs @ InRight c l x # fs) h \<longleftrightarrow> path_ok (gs @ InRight c l y # fs) h"
  "under_black (gs @ InRight c l x # fs) \<longleftrightarrow> under_black (gs @ InRight c l y # fs)"
proof -
  have u: "under_black (hs @ InRight c l x # fs) \<longleftrightarrow> under_black (hs @ InRight c l y # fs)" for hs
    by (cases hs) auto
  then show "under_black (gs @ InRight c l x # fs) \<longleftrightarrow> under_black (gs @ InRight c l y # fs)" .
  show "path_ok (gs @ InRight c l x # fs) h \<longleftrightarrow> path_ok (gs @ InRight c l y # fs) h"
    by (induction gs arbitrary: h) (auto simp: u)
qed

lemma unlink_ok:
  assumes "pos_ok (Node c l x r) fs" and "l = Null \<and> child = r \<or> r = Null \<and> child = l"
  shows "\<exists>t'. (if c = RB_BLACK then rbe_remove_color child fs else Inr (plug child fs)) = Inr t' \<and>
     rb_ok t' \<and> inorder t' = before fs @ inorder child @ after fs"
proof (cases "c = RB_BLACK")
  case True
  with assms have "short_ok child fs" by (auto simp: short_ok_def pos_ok_def)
  from remove_color_ok [OF this] True show ?thesis using remove_color_inorder by fastforce
next
  case False
  with assms have "pos_ok child fs" by (auto simp: pos_ok_def)
  from plug_ok [OF this] False show ?thesis by (simp add: inorder_plug)
qed

lemma rbe_remove_ok:
  assumes ok: "pos_ok (Node c l x r) fs"
  shows "\<exists>t'. rbe_remove (Node c l x r) fs = Inr t' \<and> rb_ok t' \<and>
     inorder t' = before fs @ inorder l @ inorder r @ after fs"
proof (cases "l = Null \<or> r = Null")
  case True
  with unlink_ok [OF ok, of r] unlink_ok [OF ok, of l] show ?thesis
    by (cases "l = Null"; cases "r = Null") (auto split: if_splits)
next
  case False
  obtain t gs where d: "descend_min r [] = (t, gs)" by force
  have "r \<noteq> Null" using False by simp
  then obtain sc sx child hs where "t = Node sc Null sx child" "gs = hs @ []" "before hs = []"
      "inorder r = sx # inorder child @ after hs"
    by (rule descend_min_split [OF d])
  then have t: "t = Node sc Null sx child" "before gs = []" "inorder r = sx # inorder child @ after gs"
    by simp_all
  have "pos_ok r (InRight c l x # fs)" using ok by (auto simp: pos_ok_def split: if_splits)
  moreover have "descend_min r (InRight c l x # fs) = (t, gs @ InRight c l x # fs)"
    using descend_min_append [of r "[]" "InRight c l x # fs"] d by simp
  ultimately have "pos_ok t (gs @ InRight c l x # fs)" by (rule descend_min_pos_ok [rotated])
  then have "pos_ok (Node sc Null sx child) (gs @ InRight c l sx # fs)"
    unfolding t pos_ok_def using path_ok_element(1) [of gs c l x fs _ sx] path_ok_element(2) [of gs c l x fs sx] by simp
  from unlink_ok [OF this, of child] False d t show ?thesis by (simp add: Let_def)
qed

lemma climb_from_right_eq: "climb_from_right fs = (case after fs of [] \<Rightarrow> None | x # xs \<Rightarrow> Some x)"
  by (induction fs rule: climb_from_right.induct) auto

lemma climb_from_left_eq: "climb_from_left fs = (case rev (before fs) of [] \<Rightarrow> None | x # xs \<Rightarrow> Some x)"
  by (induction fs rule: climb_from_left.induct) auto

definition hd_opt :: "'a list \<Rightarrow> 'a option" where
  "hd_opt xs = (case xs of [] \<Rightarrow> None | x # _ \<Rightarrow> Some x)"

lemma hd_opt_simps [simp]:
  "hd_opt [] = None" "hd_opt (x # xs) = Some x" "hd_opt xs = None \<longleftrightarrow> xs = []"
  "hd_opt (xs @ ys) = (if xs = [] then hd_opt ys else hd_opt xs)"
  by (auto simp: hd_opt_def split: list.splits)

lemma hd_opt_mem: "hd_opt xs = Some x \<Longrightarrow> x \<in> set xs"
  by (cases xs) auto

lemma rb_min_eq: "rb_min t = hd_opt (inorder t)"
proof (cases "t = Null")
  case False
  obtain t' gs where d: "descend_min t [] = (t', gs)" by force
  from descend_min_split [OF d False] obtain c x r hs where "t' = Node c Null x r"
    "inorder t = x # inorder r @ after hs" .
  with d show ?thesis by (simp add: rb_min_def)
qed (simp add: rb_min_def)

lemma rb_max_eq: "rb_max t = hd_opt (rev (inorder t))"
proof (cases "t = Null")
  case False
  obtain t' gs where d: "descend_max t [] = (t', gs)" by force
  from descend_max_split [OF d False] obtain c x l hs where "t' = Node c l x Null"
    "inorder t = before hs @ inorder l @ [x]" .
  with d show ?thesis by (simp add: rb_max_def)
qed (simp add: rb_max_def)

lemma rb_next_at_eq: "rb_next_at (Node c l x r) fs = Inr (hd_opt (inorder r @ after fs))"
proof (cases "r = Null")
  case True
  then show ?thesis by (simp add: climb_from_right_eq hd_opt_def)
next
  case False
  obtain t' gs where d: "descend_min r (InRight c l x # fs) = (t', gs)" by force
  from descend_min_split [OF d False] obtain c x r' hs where "t' = Node c Null x r'"
    "inorder r = x # inorder r' @ after hs" .
  with d False show ?thesis by simp
qed

lemma rb_prev_at_eq: "rb_prev_at (Node c l x r) fs = Inr (hd_opt (rev (before fs @ inorder l)))"
proof (cases "l = Null")
  case True
  then show ?thesis by (simp add: climb_from_left_eq hd_opt_def)
next
  case False
  obtain t' gs where d: "descend_max l (InLeft c x r # fs) = (t', gs)" by force
  from descend_max_split [OF d False] obtain c x l' hs where "t' = Node c l' x Null"
    "inorder l = before hs @ inorder l' @ [x]" .
  with d False show ?thesis by simp
qed

lemma rb_empty_iff: "rb_empty t \<longleftrightarrow> inorder t = []"
  by (cases t) (auto simp: rb_empty_def)

section \<open>The depth of a balanced tree\<close>

fun depth :: "'a rbtree \<Rightarrow> nat" where
  "depth Null = 0"
| "depth (Node c l x r) = Suc (max (depth l) (depth r))"

lemma bheight_size: "invh t \<Longrightarrow> 2 ^ bheight t \<le> length (inorder t) + 1"
proof (induction t)
  case (Node c l x r)
  then have "2 ^ bheight l \<le> length (inorder l) + 1" "2 ^ bheight l \<le> length (inorder r) + 1" by auto
  then show ?case by auto
qed simp

lemma depth_bheight: "invc t \<Longrightarrow> invh t \<Longrightarrow> depth t \<le> 2 * bheight t + (if null_or_black t then 0 else 1)"
proof (induction t)
  case (Node c l x r)
  then show ?case by (cases c) (auto split: if_splits)
qed simp

lemma depth_bound:
  assumes "rb_ok t"
  shows "2 ^ (depth t div 2) \<le> length (inorder t) + 1"
proof -
  have "depth t div 2 \<le> bheight t" using depth_bheight [of t] assms by (simp add: rb_ok_def)
  then have "2 ^ (depth t div 2) \<le> (2::nat) ^ bheight t" by simp
  also have "\<dots> \<le> length (inorder t) + 1" using bheight_size [of t] assms by (simp add: rb_ok_def)
  finally show ?thesis .
qed
section \<open>Trees ordered by a key\<close>

text \<open>What a tree's comparison function promises (the trees of the kernel compare a base address
  or an offset), and what the operations do to the sorted list of elements then.\<close>

locale keyed_compare =
  fixes compare :: "'a \<Rightarrow> 'a \<Rightarrow> int"
    and key :: "'a \<Rightarrow> 'k::linorder"
  assumes less: "compare a b < 0 \<longleftrightarrow> key a < key b"
    and greater: "compare a b > 0 \<longleftrightarrow> key b < key a"
begin

abbreviation (input) asc :: "'a list \<Rightarrow> bool" where
  "asc xs \<equiv> sorted_wrt (\<lambda>x y. key x < key y) xs"

lemma equal: "compare a b = 0 \<longleftrightarrow> key a = key b"
  using less [of a b] greater [of a b] by (metis less_irrefl linorder_neqE not_less_iff_gr_or_eq)

lemma descend_sides:
  assumes "rb_descend (compare elm) t fs = (t', fs')" "asc (inorder t)"
    and "\<forall>x \<in> set (before fs). key x < key elm" "\<forall>x \<in> set (after fs). key elm < key x"
  shows "before fs' @ inorder t' @ after fs' = before fs @ inorder t @ after fs \<and>
     (\<forall>x \<in> set (before fs'). key x < key elm) \<and> (\<forall>x \<in> set (after fs'). key elm < key x) \<and>
     (\<forall>c l x r. t' = Node c l x r \<longrightarrow> key x = key elm \<and>
        (\<forall>y \<in> set (inorder l). key y < key elm) \<and> (\<forall>y \<in> set (inorder r). key elm < key y))"
  using assms
proof (induction "compare elm" t fs rule: rb_descend.induct)
  case (2 c l x r fs)
  note hyps = 2(1,2) and desc = 2(3) and sorted = 2(4) and lo = 2(5) and hi = 2(6)
  consider "key elm < key x" | "key elm = key x" | "key x < key elm" by fastforce
  then show ?case
  proof cases
    case 1
    have after: "\<forall>y \<in> set (after (InLeft c x r # fs)). key elm < key y"
      using 1 sorted hi by (auto simp: sorted_wrt_append dest: less_trans)
    have asc: "asc (inorder l)" using sorted by (simp add: sorted_wrt_append)
    have before: "\<forall>y \<in> set (before (InLeft c x r # fs)). key y < key elm" using lo by simp
    have neg: "compare elm x < 0" using 1 less by simp
    then have "rb_descend (compare elm) l (InLeft c x r # fs) = (t', fs')" using desc by simp
    from hyps(1) [OF neg this asc before after] show ?thesis by simp
  next
    case 2
    then have "compare elm x = 0" by (simp add: equal)
    then have "t' = Node c l x r" "fs' = fs" using desc by simp_all
    with sorted lo hi 2 show ?thesis by (simp add: sorted_wrt_append)
  next
    case 3
    have before: "\<forall>y \<in> set (before (InRight c l x # fs)). key y < key elm"
      using 3 sorted lo by (auto simp: sorted_wrt_append dest: less_trans)
    have asc: "asc (inorder r)" using sorted by (simp add: sorted_wrt_append)
    have after: "\<forall>y \<in> set (after (InRight c l x # fs)). key elm < key y" using hi by simp
    have pos: "\<not> compare elm x < 0" "compare elm x > 0" using 3 less greater by auto
    then have "rb_descend (compare elm) r (InRight c l x # fs) = (t', fs')" using desc by simp
    from hyps(2) [OF pos this asc before after] show ?thesis by simp
  qed
qed auto

definition tree_ok :: "'a rbtree \<Rightarrow> bool" where
  "tree_ok t \<longleftrightarrow> rb_ok t \<and> asc (inorder t)"

text \<open>Where the descent from the root ends, for a key that is there and for one that is not.\<close>

lemma descend_present:
  assumes "tree_ok t" "x \<in> set (inorder t)" "key x = key elm"
  obtains c l r fs where "rb_descend (compare elm) t [] = (Node c l x r, fs)"
    "pos_ok (Node c l x r) fs" "inorder t = (before fs @ inorder l) @ x # (inorder r @ after fs)"
    "\<forall>y \<in> set (before fs @ inorder l). key y < key elm"
    "\<forall>y \<in> set (inorder r @ after fs). key elm < key y"
proof -
  obtain t' fs where d: "rb_descend (compare elm) t [] = (t', fs)" by force
  have asc: "asc (inorder t)" using assms(1) by (simp add: tree_ok_def)
  note sides = descend_sides [OF d asc, simplified]
  have "t' \<noteq> Null" using sides assms(2,3) by (metis UnE append.left_neutral inorder.simps(1) less_irrefl set_append)
  then obtain c l z r where t': "t' = Node c l z r" by (cases t') auto
  have z: "key z = key elm" using sides t' by simp
  have "z = x"
  proof -
    have x: "x \<in> set (before fs) \<union> set (inorder l) \<union> {z} \<union> set (inorder r) \<union> set (after fs)"
      using sides t' assms(2) by (metis (no_types, lifting) Un_iff Un_insert_right inorder.simps(2) list.simps(15) set_append sup_bot.right_neutral)
    have "x \<notin> set (before fs)" "x \<notin> set (inorder l)" "x \<notin> set (inorder r)" "x \<notin> set (after fs)"
      using sides t' assms(3) by auto
    with x show ?thesis by simp
  qed
  moreover have "pos_ok t' fs" using descend_pos_ok [OF d] assms(1) by (simp add: tree_ok_def pos_ok_root)
  ultimately show ?thesis using that [of c l r fs] d t' sides by (simp add: ball_Un)
qed

lemma descend_absent:
  assumes "tree_ok t" "key elm \<notin> key ` set (inorder t)"
  obtains fs where "rb_descend (compare elm) t [] = (Null, fs)" "pos_ok Null fs"
    "inorder t = before fs @ after fs" "\<forall>y \<in> set (before fs). key y < key elm"
    "\<forall>y \<in> set (after fs). key elm < key y"
proof -
  obtain t' fs where d: "rb_descend (compare elm) t [] = (t', fs)" by force
  have asc: "asc (inorder t)" using assms(1) by (simp add: tree_ok_def)
  note sides = descend_sides [OF d asc, simplified]
  have "t' = Null"
  proof (cases t')
    case (Node c l z r)
    then have "key z = key elm" "z \<in> set (inorder t)"
      using sides by (auto simp flip: sides[THEN conjunct1])
    with assms(2) show ?thesis by (metis image_eqI)
  qed simp
  moreover have "pos_ok t' fs" using descend_pos_ok [OF d] assms(1) by (simp add: tree_ok_def pos_ok_root)
  ultimately show ?thesis using that [of fs] d sides by simp
qed

lemma insert_new:
  assumes ok: "tree_ok t" and new: "key elm \<notin> key ` set (inorder t)"
  shows "\<exists>t'. rb_insert compare t elm = Inr (None, t') \<and> tree_ok t' \<and>
     inorder t' = filter (\<lambda>x. key x < key elm) (inorder t) @ elm # filter (\<lambda>x. key elm < key x) (inorder t)"
proof -
  obtain fs where fs: "rb_descend (compare elm) t [] = (Null, fs)" "pos_ok Null fs"
      "inorder t = before fs @ after fs" "\<forall>y \<in> set (before fs). key y < key elm"
      "\<forall>y \<in> set (after fs). key elm < key y"
    using descend_absent [OF ok new] .
  have "path_ok fs (bheight (Node RB_RED Null elm Null))" using fs(2) by (simp add: pos_ok_def)
  then obtain t' where t': "rbe_insert_color (Node RB_RED Null elm Null) fs = Inr t'" "rb_ok t'"
    using insert_color_ok [of fs "Node RB_RED Null elm Null"] by auto
  then have ino: "inorder t' = before fs @ elm # after fs" using insert_color_inorder by fastforce
  moreover have "asc (inorder t')"
    using ok fs unfolding ino tree_ok_def by (auto simp: sorted_wrt_append)
  moreover have "filter (\<lambda>x. key x < key elm) (inorder t) = before fs"
    "filter (\<lambda>x. key elm < key x) (inorder t) = after fs"
    using fs(4,5) unfolding fs(3) filter_append by (simp_all add: less_imp_not_less)
  ultimately show ?thesis using fs(1) t' by (simp add: rb_insert_def tree_ok_def)
qed

lemma insert_present:
  assumes "tree_ok t" "x \<in> set (inorder t)" "key x = key elm"
  shows "rb_insert compare t elm = Inr (Some x, t)"
proof -
  obtain c l r fs where "rb_descend (compare elm) t [] = (Node c l x r, fs)"
    using descend_present [OF assms] .
  then show ?thesis by (simp add: rb_insert_def)
qed

lemma remove_present:
  assumes ok: "tree_ok t" and "x \<in> set (inorder t)" "key x = key elm"
  shows "\<exists>t'. rb_remove compare t elm = Inr t' \<and> tree_ok t' \<and>
     inorder t' = filter (\<lambda>y. key y \<noteq> key elm) (inorder t)"
proof -
  obtain c l r fs where d: "rb_descend (compare elm) t [] = (Node c l x r, fs)"
    "pos_ok (Node c l x r) fs" "inorder t = (before fs @ inorder l) @ x # (inorder r @ after fs)"
    "\<forall>y \<in> set (before fs @ inorder l). key y < key elm"
    "\<forall>y \<in> set (inorder r @ after fs). key elm < key y"
    using descend_present [OF assms] .
  obtain t' where t': "rbe_remove (Node c l x r) fs = Inr t'" "rb_ok t'"
      "inorder t' = before fs @ inorder l @ inorder r @ after fs"
    using rbe_remove_ok [OF d(2)] by blast
  have keep: "filter (\<lambda>y. key y \<noteq> key elm) (inorder t) = inorder t'"
  proof -
    have "filter (\<lambda>y. key y \<noteq> key elm) (before fs @ inorder l) = before fs @ inorder l"
        "filter (\<lambda>y. key y \<noteq> key elm) (inorder r @ after fs) = inorder r @ after fs"
      using d(4,5) by (auto simp only: intro!: filter_True)
    then show ?thesis unfolding d(3) t'(3) filter_append filter.simps using assms(3) by simp
  qed
  have "asc (inorder t')" using ok unfolding keep [symmetric] tree_ok_def by (auto intro: sorted_wrt_filter)
  with t' keep d(1) show ?thesis by (simp add: rb_remove_def tree_ok_def)
qed

lemma next_eq:
  assumes "tree_ok t" "x \<in> set (inorder t)" "key x = key elm"
  shows "rb_next compare t elm = Inr (hd_opt (filter (\<lambda>y. key elm < key y) (inorder t)))"
proof -
  obtain c l r fs where d: "rb_descend (compare elm) t [] = (Node c l x r, fs)"
    "inorder t = (before fs @ inorder l) @ x # (inorder r @ after fs)"
    "\<forall>y \<in> set (before fs @ inorder l). key y < key elm"
    "\<forall>y \<in> set (inorder r @ after fs). key elm < key y"
    using descend_present [OF assms] .
  have "filter (\<lambda>y. key elm < key y) (before fs @ inorder l) = []"
      "filter (\<lambda>y. key elm < key y) (inorder r @ after fs) = inorder r @ after fs"
    using d(3,4) by (auto simp only: intro!: filter_True filter_False dest: less_asym)
  then have "filter (\<lambda>y. key elm < key y) (inorder t) = inorder r @ after fs"
    unfolding d(2) filter_append filter.simps using assms(3) by simp
  with d(1) show ?thesis by (simp only: rb_next_def rb_next_at_eq prod.case)
qed

lemma prev_eq:
  assumes "tree_ok t" "x \<in> set (inorder t)" "key x = key elm"
  shows "rb_prev compare t elm = Inr (hd_opt (rev (filter (\<lambda>y. key y < key elm) (inorder t))))"
proof -
  obtain c l r fs where d: "rb_descend (compare elm) t [] = (Node c l x r, fs)"
    "inorder t = (before fs @ inorder l) @ x # (inorder r @ after fs)"
    "\<forall>y \<in> set (before fs @ inorder l). key y < key elm"
    "\<forall>y \<in> set (inorder r @ after fs). key elm < key y"
    using descend_present [OF assms] .
  have "filter (\<lambda>y. key y < key elm) (inorder r @ after fs) = []"
      "filter (\<lambda>y. key y < key elm) (before fs @ inorder l) = before fs @ inorder l"
    using d(3,4) by (auto simp only: intro!: filter_True filter_False dest: less_asym)
  then have "filter (\<lambda>y. key y < key elm) (inorder t) = before fs @ inorder l"
    unfolding d(2) filter_append filter.simps using assms(3) by simp
  with d(1) show ?thesis by (simp only: rb_prev_def rb_prev_at_eq prod.case)
qed

lemma find_eq:
  "asc (inorder t) \<Longrightarrow> rb_find (compare elm) t = List.find (\<lambda>x. key x = key elm) (inorder t)"
proof (induction t)
  case (Node c l x r)
  have "List.find (\<lambda>x. key x = key elm) (inorder l) = None" if "key x \<le> key elm"
    using Node.prems that by (force simp: find_None_iff sorted_wrt_append)
  moreover have "List.find (\<lambda>x. key x = key elm) (inorder r) = None" if "key elm < key x"
    using Node.prems that by (force simp: find_None_iff sorted_wrt_append)
  moreover have "List.find P (xs @ ys) = (case List.find P xs of None \<Rightarrow> List.find P ys | Some y \<Rightarrow> Some y)"
    for P :: "'a \<Rightarrow> bool" and xs ys
    by (induction xs) auto
  ultimately show ?case
    using Node less [of elm x] greater [of elm x]
    by (cases "key elm" "key x" rule: linorder_cases)
       (auto simp: sorted_wrt_append split: option.splits)
qed simp

lemma nfind_from_eq:
  "asc (inorder t) \<Longrightarrow> rb_nfind_from (compare elm) t res =
     (case hd_opt (filter (\<lambda>x. key elm \<le> key x) (inorder t)) of None \<Rightarrow> res | Some x \<Rightarrow> Some x)"
proof (induction t arbitrary: res)
  case (Node c l x r)
  have l: "filter (\<lambda>x. key elm \<le> key x) (inorder l) = []" if "key x \<le> key elm"
    using Node.prems that by (force simp: filter_empty_conv sorted_wrt_append)
  show ?case
    using Node less [of elm x] greater [of elm x] l
    by (cases "key elm" "key x" rule: linorder_cases)
       (auto simp: sorted_wrt_append split: option.splits)
qed simp

text \<open>The first element not below the key.\<close>

lemma nfind_eq:
  "asc (inorder t) \<Longrightarrow> rb_nfind (compare elm) t = hd_opt (filter (\<lambda>x. key elm \<le> key x) (inorder t))"
  by (auto simp: rb_nfind_def nfind_from_eq split: option.splits)

end

end
