(* ===== verification/BuddySpec.thy ===== *)
theory BuddySpec
  imports Kernel_Prelude
begin

text \<open>
  The abstract buddy system behind \<^verbatim>\<open>kernel/vm/pmm.c\<close>: a set of frames tiled by blocks of
  \<open>2 ^ k\<close> frames aligned to their size, inside maximal blocks that are never joined. Splitting a
  block and joining it with its buddy keep the tiling, and the buddy of a block smaller than its
  maximal block is itself the first frame of a block that is not larger.
\<close>

unbundle bit_operations_syntax

definition blk :: "nat \<times> nat \<Rightarrow> nat set" where
  "blk b = {fst b ..< fst b + 2 ^ snd b}"

definition buddy_of :: "nat \<Rightarrow> nat \<Rightarrow> nat" where
  "buddy_of n k = (if 2 ^ Suc k dvd n then n + 2 ^ k else n - 2 ^ k)"

definition max_blocks :: "nat set \<Rightarrow> (nat \<Rightarrow> nat) \<Rightarrow> bool" where
  "max_blocks D mx \<longleftrightarrow>
     (\<forall>x \<in> D. \<forall>y \<in> blk (x div 2 ^ mx x * 2 ^ mx x, mx x). y \<in> D \<and> mx y = mx x)"

definition tiling :: "nat set \<Rightarrow> (nat \<Rightarrow> nat) \<Rightarrow> (nat \<times> nat) set \<Rightarrow> bool" where
  "tiling D mx T \<longleftrightarrow>
     (\<forall>(n, k) \<in> T. 2 ^ k dvd n \<and> n \<in> D \<and> k \<le> mx n) \<and>
     (\<forall>x \<in> D. \<exists>t \<in> T. x \<in> blk t) \<and>
     (\<forall>t \<in> T. \<forall>t' \<in> T. t \<noteq> t' \<longrightarrow> blk t \<inter> blk t' = {})"

section \<open>Arithmetic of buddies\<close>

lemma blk_iff: "x \<in> blk (n, k) \<longleftrightarrow> n \<le> x \<and> x < n + 2 ^ k"
  by (simp add: blk_def)

lemma blk_head [simp]: "n \<in> blk (n, k)"
  by (simp add: blk_iff)

lemma blk_div: "2 ^ k dvd n \<Longrightarrow> x \<in> blk (n, k) \<longleftrightarrow> x div 2 ^ k = n div 2 ^ k" for n k x :: nat
proof -
  assume "2 ^ k dvd n"
  then obtain q where n: "n = 2 ^ k * q" by (auto simp: dvd_def)
  show ?thesis
  proof
    assume "x \<in> blk (n, k)"
    then obtain r where "x = 2 ^ k * q + r" "r < 2 ^ k"
      unfolding blk_iff n by (metis le_iff_add nat_add_left_cancel_less)
    then show "x div 2 ^ k = n div 2 ^ k" by (simp add: n)
  next
    assume "x div 2 ^ k = n div 2 ^ k"
    then have "x div 2 ^ k = q" by (simp add: n)
    then show "x \<in> blk (n, k)"
      unfolding blk_iff n
    proof -
      have "2 ^ k * q + x mod 2 ^ k = x"
        using mult_div_mod_eq [of "2 ^ k" x] \<open>x div 2 ^ k = q\<close> by simp
      moreover have "x mod 2 ^ k < 2 ^ k" by (rule mod_less_divisor) simp
      ultimately show "2 ^ k * q \<le> x \<and> x < 2 ^ k * q + 2 ^ k" by linarith
    qed
  qed
qed

text \<open>Two aligned blocks that meet are nested.\<close>

lemma blk_nested:
  fixes n k q j x :: nat
  assumes "2 ^ k dvd n" "2 ^ j dvd q" "j \<le> k" "x \<in> blk (n, k)" "x \<in> blk (q, j)"
  shows "blk (q, j) \<subseteq> blk (n, k)"
proof
  fix y assume "y \<in> blk (q, j)"
  then have "y div 2 ^ j = x div 2 ^ j" using assms blk_div by metis
  moreover have "a div 2 ^ k = a div 2 ^ j div 2 ^ (k - j)" for a :: nat
    using assms(3) by (simp add: div_mult2_eq [symmetric] power_add [symmetric])
  ultimately have "y div 2 ^ k = x div 2 ^ k" by simp
  then show "y \<in> blk (n, k)" using assms blk_div by metis
qed

lemma buddy_facts:
  fixes n k :: nat
  assumes "2 ^ k dvd n"
  shows "2 ^ k dvd buddy_of n k" "2 ^ Suc k dvd min n (buddy_of n k)" "buddy_of n k \<noteq> n"
    and "max n (buddy_of n k) = min n (buddy_of n k) + 2 ^ k"
    and "buddy_of n k div 2 ^ Suc k = n div 2 ^ Suc k"
proof -
  obtain q where n: "n = 2 ^ k * q" using assms by (auto simp: dvd_def)
  have dvd: "2 ^ Suc k dvd n \<longleftrightarrow> even q" by (simp add: n)
  have "odd q \<Longrightarrow> 2 ^ k \<le> n" using n by (cases q) auto
  show "2 ^ k dvd buddy_of n k" using assms by (auto simp: buddy_of_def dvd_diff_nat)
  show "buddy_of n k \<noteq> n"
  proof (cases "even q")
    case False
    have "(0::nat) < 2 ^ k" by simp
    with \<open>odd q \<Longrightarrow> 2 ^ k \<le> n\<close> [OF False] have "n - 2 ^ k \<noteq> n" by linarith
    with False dvd show ?thesis by (simp add: buddy_of_def)
  qed (use dvd in \<open>simp add: buddy_of_def\<close>)
  show "max n (buddy_of n k) = min n (buddy_of n k) + 2 ^ k"
    using \<open>odd q \<Longrightarrow> 2 ^ k \<le> n\<close> dvd by (auto simp: buddy_of_def)
  show lo: "2 ^ Suc k dvd min n (buddy_of n k)"
  proof (cases "even q")
    case True then show ?thesis using dvd by (simp add: buddy_of_def)
  next
    case False
    then have "n - 2 ^ k = 2 ^ Suc k * (q div 2)"
      unfolding n by (elim oddE) (simp add: algebra_simps)
    then show ?thesis using False dvd by (simp add: buddy_of_def)
  qed
  show "buddy_of n k div 2 ^ Suc k = n div 2 ^ Suc k"
  proof -
    have "n \<in> blk (min n (buddy_of n k), Suc k)" "buddy_of n k \<in> blk (min n (buddy_of n k), Suc k)"
      using \<open>max n (buddy_of n k) = min n (buddy_of n k) + 2 ^ k\<close> by (auto simp: blk_iff max_def min_def split: if_splits)
    then show ?thesis using blk_div [OF lo] by metis
  qed
qed

lemma unset_bit_nat_eq:
  fixes a :: nat
  assumes "bit a j"
  shows "unset_bit j a = a - 2 ^ j"
proof -
  have "set_bit j (unset_bit j a) = a"
    using assms by (intro bit_eqI) (auto simp: bit_set_bit_iff bit_unset_bit_iff)
  moreover have "set_bit j (unset_bit j a) = unset_bit j a + 2 ^ j"
    by (simp add: set_bit_eq bit_unset_bit_iff)
  ultimately show ?thesis by simp
qed

lemma buddy_xor:
  fixes n k s :: nat
  assumes "2 ^ k dvd n"
  shows "(n * 2 ^ s) XOR 2 ^ (s + k) = buddy_of n k * 2 ^ s"
proof -
  obtain q where n: "n = 2 ^ k * q" using assms by (auto simp: dvd_def)
  have bit: "bit (n * 2 ^ s) (s + k) \<longleftrightarrow> odd q"
    by (simp add: bit_iff_odd n power_add mult.assoc mult.left_commute)
  have dvd: "2 ^ Suc k dvd n \<longleftrightarrow> even q" by (simp add: n)
  have "(n * 2 ^ s) XOR 2 ^ (s + k) = flip_bit (s + k) (n * 2 ^ s)"
    by (simp add: flip_bit_eq_xor push_bit_eq_mult)
  also have "\<dots> = (if odd q then n * 2 ^ s - 2 ^ (s + k) else n * 2 ^ s + 2 ^ (s + k))"
    by (simp add: flip_bit_eq_if set_bit_eq unset_bit_nat_eq bit)
  also have "\<dots> = buddy_of n k * 2 ^ s"
    using dvd by (auto simp: buddy_of_def power_add algebra_simps diff_mult_distrib)
  finally show ?thesis .
qed

section \<open>Tilings\<close>

lemma div_higher: "x div 2 ^ j = y div 2 ^ j \<Longrightarrow> j \<le> k \<Longrightarrow> x div 2 ^ k = y div 2 ^ k" for x y :: nat
proof -
  assume "x div 2 ^ j = y div 2 ^ j" "j \<le> k"
  moreover have "a div 2 ^ k = a div 2 ^ j div 2 ^ (k - j)" for a :: nat
    using \<open>j \<le> k\<close> by (simp add: div_mult2_eq [symmetric] power_add [symmetric])
  ultimately show ?thesis by simp
qed

lemma max_blocks_div:
  assumes "max_blocks D mx" "n \<in> D" "y div 2 ^ j = n div 2 ^ j" "j \<le> mx n"
  shows "y \<in> D \<and> mx y = mx n"
proof -
  have "y \<in> blk (n div 2 ^ mx n * 2 ^ mx n, mx n)"
    using div_higher [OF assms(3,4)] by (subst blk_div) simp_all
  with assms(1,2) show ?thesis unfolding max_blocks_def by blast
qed

lemma tilingD:
  assumes "tiling D mx T" "(n, k) \<in> T"
  shows "2 ^ k dvd n" "n \<in> D" "k \<le> mx n"
  using assms unfolding tiling_def by auto

lemma tiling_disjoint:
  assumes "tiling D mx T" "t \<in> T" "t' \<in> T" "x \<in> blk t" "x \<in> blk t'"
  shows "t = t'"
  using assms unfolding tiling_def by blast

lemma tiling_cover: "tiling D mx T \<Longrightarrow> x \<in> D \<Longrightarrow> \<exists>t \<in> T. x \<in> blk t"
  unfolding tiling_def by blast

lemma tiling_head: "tiling D mx T \<Longrightarrow> (n, k) \<in> T \<Longrightarrow> (n, j) \<in> T \<Longrightarrow> j = k"
  using tiling_disjoint [of D mx T "(n, k)" "(n, j)" n] by auto

lemma tiling_other_order: "tiling D mx T \<Longrightarrow> (n, k) \<in> T \<Longrightarrow> j \<noteq> k \<Longrightarrow> (n, j) \<notin> T"
  using tiling_head by blast

text \<open>The buddy of a block below its maximal block is the head of a block no larger.\<close>

lemma tiling_buddy:
  assumes T: "tiling D mx T" and M: "max_blocks D mx" and t: "(n, k) \<in> T" "k < mx n"
  shows "\<exists>j \<le> k. (buddy_of n k, j) \<in> T"
proof -
  note n = tilingD [OF T t(1)]
  let ?b = "buddy_of n k"
  have same: "?b div 2 ^ Suc k = n div 2 ^ Suc k" by (rule buddy_facts(5) [OF n(1)])
  have "?b \<in> D" using max_blocks_div [OF M n(2) same] t(2) by simp
  then obtain q j where q: "(q, j) \<in> T" "?b \<in> blk (q, j)" using tiling_cover [OF T] by force
  note qd = tilingD(1) [OF T q(1)]
  have b: "?b div 2 ^ j = q div 2 ^ j" using q(2) blk_div [OF qd] by simp
  show ?thesis
  proof (cases "j \<le> k")
    case True
    have "2 ^ j dvd ?b" using buddy_facts(1) [OF n(1)] True by (meson dvd_trans le_imp_power_dvd)
    with qd b have "?b = q" by (metis dvd_div_mult_self)
    with q True show ?thesis by auto
  next
    case False
    then have "n div 2 ^ j = q div 2 ^ j" using div_higher [OF same, of j] b by simp
    then have "n \<in> blk (q, j)" using blk_div [OF qd] by simp
    then have "(n, k) = (q, j)" by (intro tiling_disjoint [OF T t(1) q(1)]) simp_all
    with False show ?thesis by simp
  qed
qed

lemma blk_halves:
  "blk (n, Suc k) = blk (n, k) \<union> blk (n + 2 ^ k, k)" "blk (n, k) \<inter> blk (n + 2 ^ k, k) = {}"
  by (auto simp: blk_def)

lemma tiling_split:
  assumes T: "tiling D mx T" and M: "max_blocks D mx" and t: "(n, Suc k) \<in> T"
  shows "tiling D mx (insert (n, k) (insert (n + 2 ^ k, k) (T - {(n, Suc k)})))"
proof -
  note n = tilingD [OF T t]
  have d: "2 ^ k dvd n" using n(1) by (metis dvd_mult_right power_Suc)
  have "n + 2 ^ k \<in> blk (n, Suc k)" by (simp add: blk_iff)
  then have "(n + 2 ^ k) div 2 ^ Suc k = n div 2 ^ Suc k" by (rule iffD1 [OF blk_div [OF n(1)]])
  then have up: "n + 2 ^ k \<in> D" "mx (n + 2 ^ k) = mx n" using max_blocks_div [OF M n(2) _ n(3)] by blast+
  have other: "blk t' \<inter> blk (n, Suc k) = {}" if "t' \<in> T - {(n, Suc k)}" for t'
    using tiling_disjoint [OF T _ t] that by blast
  show ?thesis
    unfolding tiling_def
  proof (intro conjI)
    show "\<forall>(m, j) \<in> insert (n, k) (insert (n + 2 ^ k, k) (T - {(n, Suc k)})). 2 ^ j dvd m \<and> m \<in> D \<and> j \<le> mx m"
      using tilingD [OF T] d n up by (auto simp: dvd_add)
    show "\<forall>x \<in> D. \<exists>t' \<in> insert (n, k) (insert (n + 2 ^ k, k) (T - {(n, Suc k)})). x \<in> blk t'"
    proof
      fix x assume "x \<in> D"
      then obtain t' where "t' \<in> T" "x \<in> blk t'" using tiling_cover [OF T] by blast
      then show "\<exists>t' \<in> insert (n, k) (insert (n + 2 ^ k, k) (T - {(n, Suc k)})). x \<in> blk t'"
        using blk_halves(1) [of n k] by (cases "t' = (n, Suc k)") auto
    qed
    show "\<forall>t \<in> insert (n, k) (insert (n + 2 ^ k, k) (T - {(n, Suc k)})).
        \<forall>t' \<in> insert (n, k) (insert (n + 2 ^ k, k) (T - {(n, Suc k)})). t \<noteq> t' \<longrightarrow> blk t \<inter> blk t' = {}"
      unfolding pairwise_def [symmetric] pairwise_insert
    proof (intro conjI allI impI)
      show "pairwise (\<lambda>t t'. blk t \<inter> blk t' = {}) (T - {(n, Suc k)})"
        using T unfolding pairwise_def tiling_def by blast
    qed (use other blk_halves [of n k] in blast)+
  qed
qed

lemma tiling_merge:
  assumes T: "tiling D mx T" and M: "max_blocks D mx"
    and t: "(n, k) \<in> T" "(buddy_of n k, k) \<in> T" "k < mx n"
  shows "tiling D mx (insert (min n (buddy_of n k), Suc k) (T - {(n, k), (buddy_of n k, k)}))"
proof -
  let ?lo = "min n (buddy_of n k)" and ?R = "T - {(n, k), (buddy_of n k, k)}"
  note n = tilingD [OF T t(1)] and b = tilingD [OF T t(2)]
  note bf = buddy_facts [OF n(1)]
  have both: "blk (?lo, Suc k) = blk (n, k) \<union> blk (buddy_of n k, k)"
    using blk_halves(1) [of ?lo k] bf(4) by (auto simp: max_def min_def split: if_splits)
  have mx: "mx (buddy_of n k) = mx n" using max_blocks_div [OF M n(2) bf(5)] t(3) by simp
  have other: "blk t' \<inter> blk (?lo, Suc k) = {}" if "t' \<in> ?R" for t'
    using tiling_disjoint [OF T _ t(1)] tiling_disjoint [OF T _ t(2)] that unfolding both by blast
  show ?thesis
    unfolding tiling_def
  proof (intro conjI)
    show "\<forall>(m, j) \<in> insert (?lo, Suc k) ?R. 2 ^ j dvd m \<and> m \<in> D \<and> j \<le> mx m"
      using tilingD [OF T] bf(2) n b t(3) mx by (auto simp: min_def)
    show "\<forall>x \<in> D. \<exists>t' \<in> insert (?lo, Suc k) ?R. x \<in> blk t'"
    proof
      fix x assume "x \<in> D"
      then obtain t' where "t' \<in> T" "x \<in> blk t'" using tiling_cover [OF T] by blast
      then show "\<exists>t' \<in> insert (?lo, Suc k) ?R. x \<in> blk t'"
        using both by (cases "t' \<in> {(n, k), (buddy_of n k, k)}") auto
    qed
    show "\<forall>t \<in> insert (?lo, Suc k) ?R. \<forall>t' \<in> insert (?lo, Suc k) ?R. t \<noteq> t' \<longrightarrow> blk t \<inter> blk t' = {}"
      unfolding pairwise_def [symmetric] pairwise_insert
    proof (intro conjI allI impI)
      show "pairwise (\<lambda>t t'. blk t \<inter> blk t' = {}) ?R"
        using T unfolding pairwise_def tiling_def by blast
    qed (use other in blast)+
  qed
qed

end
