(* ===== verification/Pmm.thy ===== *)
theory Pmm
  imports BuddySpec
begin

text \<open>
  The physical page allocator of \<^verbatim>\<open>kernel/vm/pmm.c\<close>: zones, each a binary buddy allocator over
  the pages of the regions added to it, and the reference counts of
  \<^verbatim>\<open>kernel/include/yak/vm/page.h\<close> whose last release returns a block.

  Page descriptors live in an array per region; the element that describes the frame \<open>pfn\<close> is
  named by \<open>pfn\<close>, and the array elements of all regions form the partial map \<open>pages\<close>. A pointer
  one past the array of a region, which \<open>pmm_lookup_page\<close> can return, is \<open>PastEnd\<close>. The tail
  queues are lists of frame numbers. Addresses are natural numbers (no address computed here
  leaves 64 bits). Locks have no effect in a sequential run.
\<close>

unbundle bit_operations_syntax

section \<open>Data\<close>

definition PAGE_SHIFT :: nat where "PAGE_SHIFT = 12"
definition PAGE_SIZE :: nat where "PAGE_SIZE = 4096"
definition BUDDY_ORDERS :: nat where "BUDDY_ORDERS = 7"
definition UINT_MAX :: nat where "UINT_MAX = 2 ^ 32 - 1"
definition MAX_ZONES :: nat where "MAX_ZONES = 8"

text \<open>\<open>sizeof (struct page)\<close> and \<open>sizeof (struct region)\<close> on x86-64.\<close>

definition SIZEOF_PAGE :: nat where "SIZEOF_PAGE = 96"
definition SIZEOF_REGION :: nat where "SIZEOF_REGION = 24"

record page =
  pg_pfn :: nat
  pg_shares :: nat
  pg_vmobj :: "nat option"
  pg_offset :: u64
  pg_flags :: u64
  pg_order :: nat
  pg_max_order :: nat

type_synonym pages = "nat \<Rightarrow> page option"

datatype page_ptr = Pg nat | PastEnd nat

record region =
  rg_base :: nat
  rg_end :: nat

record zone =
  zone_id :: nat
  zone_name :: string
  max_zone_order :: nat
  zn_base :: nat
  zn_end :: nat
  may_alloc :: bool
  zn_orders :: "nat list list"
  zn_npages :: "nat list"

record pmm =
  region_list :: "region list"
  pm_pages :: pages
  zone_list :: "zone list"
  static_zones_pos :: nat
  total_pagecnt :: nat
  usable_pagecnt :: nat
  free_pagecnt :: nat

definition BLOCK_SIZE :: "nat \<Rightarrow> nat" where
  "BLOCK_SIZE order = 2 ^ (PAGE_SHIFT + order)"

definition page_at :: "pages \<Rightarrow> nat \<Rightarrow> page res" where
  "page_at pages n = (case pages n of None \<Rightarrow> Inl OutOfBounds | Some p \<Rightarrow> Inr p)"

definition page_to_addr :: "page \<Rightarrow> nat" where
  "page_to_addr p = pg_pfn p * 2 ^ PAGE_SHIFT"

definition page_zeroed :: page where
  "page_zeroed = \<lparr>pg_pfn = 0, pg_shares = 0, pg_vmobj = None, pg_offset = 0, pg_flags = 0,
                  pg_order = 0, pg_max_order = 0\<rparr>"

section \<open>Lookups\<close>

fun lookup_region :: "region list \<Rightarrow> nat \<Rightarrow> region option" where
  "lookup_region [] addr = None"
| "lookup_region (r # rs) addr =
     (if addr \<ge> rg_base r \<and> addr \<le> rg_end r then Some r else lookup_region rs addr)"

text \<open>The array of a region has an element per frame of it; the index of \<open>addr\<close> is one past the
  array when \<open>addr\<close> is the end of the region.\<close>

definition pmm_lookup_page :: "region list \<Rightarrow> nat \<Rightarrow> page_ptr option" where
  "pmm_lookup_page rs addr =
     (case lookup_region rs addr of
        None \<Rightarrow> None
      | Some r \<Rightarrow>
          let base_pfn = rg_base r div 2 ^ PAGE_SHIFT;
              i = addr div 2 ^ PAGE_SHIFT - base_pfn
          in Some (if base_pfn + i < rg_end r div 2 ^ PAGE_SHIFT then Pg (base_pfn + i)
                   else PastEnd (rg_base r)))"

fun lookup_zone :: "zone list \<Rightarrow> nat \<Rightarrow> zone option" where
  "lookup_zone [] addr = None"
| "lookup_zone (z # zs) addr =
     (if addr \<ge> zn_base z \<and> addr < zn_end z then Some z else lookup_zone zs addr)"

fun lookup_zone_by_id :: "zone list \<Rightarrow> nat \<Rightarrow> zone option" where
  "lookup_zone_by_id [] i = None"
| "lookup_zone_by_id (z # zs) i = (if zone_id z = i then Some z else lookup_zone_by_id zs i)"

text \<open>Writing back the zone a lookup by address (by identifier) returned.\<close>

fun set_zone :: "zone list \<Rightarrow> nat \<Rightarrow> zone \<Rightarrow> zone list" where
  "set_zone [] addr z' = []"
| "set_zone (z # zs) addr z' =
     (if addr \<ge> zn_base z \<and> addr < zn_end z then z' # zs else z # set_zone zs addr z')"

fun set_zone_by_id :: "zone list \<Rightarrow> nat \<Rightarrow> zone \<Rightarrow> zone list" where
  "set_zone_by_id [] i z' = []"
| "set_zone_by_id (z # zs) i z' =
     (if zone_id z = i then z' # zs else z # set_zone_by_id zs i z')"

section \<open>Zones\<close>

text \<open>\<open>SLIST_INSERT_AFTER\<close> the last element that is not above the new one, scanning from the
  head up to the first that is; at the head when there is none.\<close>

fun insert_by_base :: "('a \<Rightarrow> nat) \<Rightarrow> 'a \<Rightarrow> 'a list \<Rightarrow> 'a list" where
  "insert_by_base base x [] = [x]"
| "insert_by_base base x (y # ys) =
     (if base y > base x then x # y # ys else y # insert_by_base base x ys)"

definition pmm_zone_init ::
    "nat \<Rightarrow> string \<Rightarrow> bool \<Rightarrow> nat \<Rightarrow> nat \<Rightarrow> pmm \<Rightarrow> pmm res" where
  "pmm_zone_init zid name may base zend pm =
     (let pos = static_zones_pos pm;
          pm1 = pm\<lparr>static_zones_pos := pos + 1\<rparr>
      in if pos \<ge> MAX_ZONES then Inl KPanic
         else
           let zone = \<lparr>zone_id = zid, zone_name = name, max_zone_order = 0, zn_base = base,
                       zn_end = zend, may_alloc = may,
                       zn_orders = replicate BUDDY_ORDERS [],
                       zn_npages = replicate BUDDY_ORDERS 0\<rparr>
           in Inr (pm1\<lparr>zone_list := insert_by_base zn_base zone (zone_list pm1)\<rparr>))"

definition zone_validate :: "zone \<Rightarrow> bool" where
  "zone_validate z =
     (\<forall>order < BUDDY_ORDERS. (0 < zn_npages z ! order) = (zn_orders z ! order \<noteq> []))"

text \<open>\<open>npages[order] += 1\<close> and \<open>-= 1\<close> with a queue operation on the same order, in any order of
  the two statements.\<close>

definition zone_put :: "zone \<Rightarrow> nat \<Rightarrow> (nat list \<Rightarrow> nat list) \<Rightarrow> zone res" where
  "zone_put z order q =
     bindR (ld (zn_orders z) order) (\<lambda>l. bindR (ld (zn_npages z) order) (\<lambda>n.
       Inr (z\<lparr>zn_orders := (zn_orders z)[order := q l],
              zn_npages := (zn_npages z)[order := n + 1]\<rparr>)))"

definition zone_take :: "zone \<Rightarrow> nat \<Rightarrow> nat \<Rightarrow> zone res" where
  "zone_take z order page =
     bindR (ld (zn_orders z) order) (\<lambda>l. bindR (ld (zn_npages z) order) (\<lambda>n.
       Inr (z\<lparr>zn_orders := (zn_orders z)[order := remove1 page l],
              zn_npages := (zn_npages z)[order := if n = 0 then 2 ^ 64 - 1 else n - 1]\<rparr>)))"

section \<open>Adding a region\<close>

text \<open>For an empty region the descriptor page is written past the (empty) array.\<close>

definition lookup_zone_res :: "zone list \<Rightarrow> nat \<Rightarrow> zone res" where
  "lookup_zone_res zs addr =
     (case lookup_zone zs addr of None \<Rightarrow> Inl NullDeref | Some z \<Rightarrow> Inr z)"

text \<open>The order loop at \<open>i\<close>; \<open>k\<close> counts the iterations left, at most \<open>BUDDY_ORDERS - 1\<close>.\<close>

fun block_order :: "nat \<Rightarrow> nat \<Rightarrow> nat \<Rightarrow> nat \<Rightarrow> nat" where
  "block_order i zend max_order 0 = max_order"
| "block_order i zend max_order (Suc k) =
     (if i + 2 * 2 ^ (PAGE_SHIFT + max_order) < zend \<and> i mod (2 * 2 ^ (PAGE_SHIFT + max_order)) = 0
      then block_order i zend (max_order + 1) k else max_order)"

text \<open>The descriptors of \<open>n\<close> frames from \<open>pfn\<close> on, each \<open>f\<close> of its zeroed element.\<close>

fun init_pages :: "pages \<Rightarrow> nat \<Rightarrow> nat \<Rightarrow> (page \<Rightarrow> page) \<Rightarrow> pages" where
  "init_pages pages pfn 0 f = pages"
| "init_pages pages pfn (Suc n) f =
     init_pages (pages(pfn \<mapsto> f (page_zeroed\<lparr>pg_pfn := pfn\<rparr>))) (Suc pfn) n f"

function carve_blocks :: "zone \<Rightarrow> pages \<Rightarrow> nat \<Rightarrow> nat \<Rightarrow> (zone \<times> pages) res" where
  "carve_blocks zone pages i rend =
     (if i < rend then
        let max_order = block_order i rend 0 (BUDDY_ORDERS - 1);
            zone1 = zone\<lparr>max_zone_order := max (max_zone_order zone) max_order\<rparr>;
            pfn = i div 2 ^ PAGE_SHIFT;
            pages1 = init_pages pages pfn (2 ^ max_order)
                       (\<lambda>p. p\<lparr>pg_shares := 0, pg_order := max_order, pg_max_order := max_order\<rparr>)
        in bindR (zone_put zone1 max_order (\<lambda>l. l @ [pfn])) (\<lambda>zone2.
             carve_blocks zone2 pages1 (i + BLOCK_SIZE max_order) rend)
      else Inr (zone, pages))"
  by pat_completeness auto
termination
  by (relation "measure (\<lambda>(zone, pages, i, rend). rend - i)")
     (auto simp: BLOCK_SIZE_def intro!: diff_less_mono2)

declare carve_blocks.simps [simp del]

definition UINT32_MAX :: nat where "UINT32_MAX = 2 ^ 32 - 1"

definition align_up :: "nat \<Rightarrow> nat \<Rightarrow> nat" where
  "align_up a b = (a + b - 1) div b * b"

definition pmm_add_region :: "nat \<Rightarrow> nat \<Rightarrow> pmm \<Rightarrow> pmm res" where
  "pmm_add_region base rend pm =
     ensure (base mod PAGE_SIZE = 0) AssertFail (
     ensure (rend mod PAGE_SIZE = 0) AssertFail (
     ensure ((base > UINT32_MAX \<and> rend > UINT32_MAX) \<or> (base < UINT32_MAX \<and> rend < UINT32_MAX))
       AssertFail (
     bindR (lookup_zone_res (zone_list pm) base) (\<lambda>zone.
     ensure (zone_validate zone) AssertFail (
       let pagecnt_total = (rend - base) div 2 ^ PAGE_SHIFT;
           pagecnt_used = align_up (SIZEOF_REGION + SIZEOF_PAGE * pagecnt_total) PAGE_SIZE
                            div 2 ^ PAGE_SHIFT;
           base_pfn = base div 2 ^ PAGE_SHIFT
       in ensure (pagecnt_used \<le> pagecnt_total) OutOfBounds (
       let pages0 = init_pages (pm_pages pm) base_pfn pagecnt_total (\<lambda>p. p\<lparr>pg_pfn := 0\<rparr>);
           pages1 = init_pages pages0 base_pfn pagecnt_used
                      (\<lambda>p. p\<lparr>pg_shares := 1, pg_order := UINT_MAX, pg_max_order := UINT_MAX\<rparr>);
           pm1 = pm\<lparr>region_list := insert_by_base rg_base \<lparr>rg_base = base, rg_end = rend\<rparr>
                                     (region_list pm),
                    pm_pages := pages1,
                    total_pagecnt := total_pagecnt pm + pagecnt_total,
                    usable_pagecnt := usable_pagecnt pm + (pagecnt_total - pagecnt_used),
                    free_pagecnt := free_pagecnt pm + (pagecnt_total - pagecnt_used)\<rparr>
       in if pagecnt_total - pagecnt_used = 0 then Inr pm1
          else bindR (carve_blocks zone pages1 (base + pagecnt_used * PAGE_SIZE) rend)
                 (\<lambda>(zone', pages').
                 ensure (zone_validate zone') AssertFail (
                   Inr (pm1\<lparr>pm_pages := pages',
                            zone_list := set_zone (zone_list pm1) base zone'\<rparr>)))))))))"

section \<open>Allocation\<close>

text \<open>\<open>while (++order < BUDDY_ORDERS && TAILQ_EMPTY(&zone->orders[order]))\<close>, started at
  \<open>order + 1\<close>.\<close>

function find_order :: "zone \<Rightarrow> nat \<Rightarrow> nat res" where
  "find_order zone order =
     (if order < BUDDY_ORDERS then
        bindR (ld (zn_orders zone) order) (\<lambda>l.
          if l = [] then find_order zone (order + 1) else Inr order)
      else Inr order)"
  by pat_completeness auto
termination
  by (relation "measure (\<lambda>(zone, order). BUDDY_ORDERS - order)") auto

declare find_order.simps [simp del]

text \<open>The splitting loop: the upper half of the block goes to the queue of the order below.
  (\<open>order -= 1\<close> at \<open>0\<close> would wrap to an index far outside the queues.)\<close>

fun split_block :: "zone \<Rightarrow> pages \<Rightarrow> nat \<Rightarrow> nat \<Rightarrow> nat \<Rightarrow> nat \<Rightarrow> (zone \<times> pages) res" where
  "split_block zone pages page buddy 0 desired =
     (if 0 = desired then Inr (zone, pages) else Inl OutOfBounds)"
| "split_block zone pages page buddy (Suc order) desired =
     (if Suc order = desired then Inr (zone, pages)
      else bindR (zone_put zone order (\<lambda>l. l @ [buddy])) (\<lambda>zone1.
           bindR (page_at pages buddy) (\<lambda>b.
             split_block zone1 (pages(buddy \<mapsto> b\<lparr>pg_order := order\<rparr>)) page
               (page + 2 ^ order div 2) order desired)))"

definition zone_alloc :: "zone \<Rightarrow> pages \<Rightarrow> nat \<Rightarrow> (nat option \<times> zone \<times> pages) res" where
  "zone_alloc zone pages desired_order =
     ensure (desired_order < BUDDY_ORDERS) AssertFail (
     if desired_order > max_zone_order zone then Inr (None, zone, pages)
     else
     ensure (zone_validate zone) AssertFail (
     bindR (ld (zn_npages zone) desired_order) (\<lambda>n.
     if n > 0 then
       bindR (ld (zn_orders zone) desired_order) (\<lambda>l.
       case l of
         [] \<Rightarrow> Inl AssertFail
       | page # _ \<Rightarrow>
           bindR (zone_take zone desired_order page) (\<lambda>zone1.
           bindR (page_at pages page) (\<lambda>p.
           ensure (pg_shares p = 0) AssertFail (
           ensure (zone_validate zone1) AssertFail (
             Inr (Some page, zone1, pages(page \<mapsto> p\<lparr>pg_shares := 1\<rparr>)))))))
     else
       bindR (find_order zone (desired_order + 1)) (\<lambda>order.
       if order \<ge> BUDDY_ORDERS then Inr (None, zone, pages)
       else
         bindR (ld (zn_orders zone) order) (\<lambda>l.
         case l of
           [] \<Rightarrow> Inl NullDeref
         | page # _ \<Rightarrow>
             bindR (zone_take zone order page) (\<lambda>zone1.
             bindR (split_block zone1 pages page (page + 2 ^ order div 2) order desired_order)
               (\<lambda>(zone2, pages1).
             bindR (page_at pages1 page) (\<lambda>p.
             ensure (pg_shares p = 0) AssertFail (
             ensure (zone_validate zone2) AssertFail (
               Inr (Some page, zone2,
                    pages1(page \<mapsto> p\<lparr>pg_order := desired_order, pg_shares := 1\<rparr>))))))))))))"

section \<open>Release\<close>

lemma zone_take_lengths:
  "zone_take z k n = Inr z' \<Longrightarrow> length (zn_npages z') = length (zn_npages z) \<and>
     length (zn_orders z') = length (zn_orders z)"
  by (auto simp: zone_take_def bindR_Inr_iff)

lemma zone_put_lengths:
  "zone_put z k q = Inr z' \<Longrightarrow> length (zn_npages z') = length (zn_npages z) \<and>
     length (zn_orders z') = length (zn_orders z)"
  by (auto simp: zone_put_def bindR_Inr_iff)

lemma ld_Inr_iff: "ld xs i = Inr x \<longleftrightarrow> i < length xs \<and> x = xs ! i"
  by (auto simp: ld_def)

definition page_deref_ptr :: "page_ptr option \<Rightarrow> fault \<Rightarrow> nat res" where
  "page_deref_ptr ptr null =
     (case ptr of None \<Rightarrow> Inl null | Some (PastEnd r) \<Rightarrow> Inl OutOfBounds | Some (Pg n) \<Rightarrow> Inr n)"

text \<open>The coalescing loop: the zone, the pages, the head and the order of the block when it ends.\<close>

function zone_merge :: "region list \<Rightarrow> zone \<Rightarrow> pages \<Rightarrow> nat \<Rightarrow> nat \<Rightarrow>
    (zone \<times> pages \<times> nat \<times> nat) res" where
  "zone_merge rs zone pages page order =
     bindR (page_at pages page) (\<lambda>p.
     if order < pg_max_order p then
       let page_addr = page_to_addr p;
           buddy_addr = page_addr XOR BLOCK_SIZE order
       in bindR (page_deref_ptr (pmm_lookup_page rs buddy_addr) AssertFail) (\<lambda>buddy.
          bindR (page_at pages buddy) (\<lambda>b.
          ensure (pg_max_order b = pg_max_order p) AssertFail (
          if pg_shares b > 0 \<or> pg_order b \<noteq> pg_order p then Inr (zone, pages, page, order)
          else
            bindR (ld (zn_npages zone) order) (\<lambda>n.
            ensure (n > 0) AssertFail (
            bindR (ld (zn_orders zone) order) (\<lambda>l.
            ensure (l \<noteq> []) AssertFail (
            ensure (buddy \<in> set l) KPanic (
            bindR (zone_take zone order buddy) (\<lambda>zone1.
              let pages1 = pages(buddy \<mapsto> b\<lparr>pg_order := (pg_order b + 1) mod 2 ^ 32\<rparr>);
                  pages2 = pages1(page \<mapsto> p\<lparr>pg_order := (pg_order p + 1) mod 2 ^ 32\<rparr>);
                  lower_addr = (if buddy_addr < page_addr then buddy_addr else page_addr)
              in bindR (page_deref_ptr (pmm_lookup_page rs lower_addr) NullDeref) (\<lambda>page'.
                   zone_merge rs zone1 pages2 page' (order + 1))))))))))) 
     else Inr (zone, pages, page, order))"
  by pat_completeness auto
termination
  by (relation "measure (\<lambda>(rs, zone, pages, page, order). length (zn_npages zone) - order)")
     (auto simp: ld_Inr_iff ensure_Inr_iff bindR_Inr_iff dest!: zone_take_lengths)

declare zone_merge.simps [simp del]

definition zone_free :: "region list \<Rightarrow> zone \<Rightarrow> pages \<Rightarrow> page_ptr option \<Rightarrow> nat \<Rightarrow>
    (zone \<times> pages) res" where
  "zone_free rs zone pages ptr order =
     ensure (ptr \<noteq> None) AssertFail (
     ensure (order < BUDDY_ORDERS) AssertFail (
     ensure (zone_validate zone) AssertFail (
     bindR (page_deref_ptr ptr NullDeref) (\<lambda>page.
     bindR (page_at pages page) (\<lambda>p.
     ensure (pg_shares p = 0) AssertFail (
     bindR (zone_merge rs zone pages page order) (\<lambda>(zone1, pages1, page', order').
     bindR (zone_put zone1 order' (\<lambda>l. page' # l)) (\<lambda>zone2.
     bindR (page_at pages1 page') (\<lambda>p'.
     ensure (pg_order p' = order') AssertFail (
     ensure (zone_validate zone2) AssertFail (
       Inr (zone2, pages1))))))))))))"

section \<open>The interface of the allocator\<close>

fun alloc_from_zones :: "zone list \<Rightarrow> pages \<Rightarrow> nat \<Rightarrow> (nat option \<times> zone list \<times> pages) res" where
  "alloc_from_zones [] pages order = Inr (None, [], pages)"
| "alloc_from_zones (z # zs) pages order =
     (if \<not> may_alloc z then
        bindR (alloc_from_zones zs pages order) (\<lambda>(page, zs', pages'). Inr (page, z # zs', pages'))
      else
        bindR (zone_alloc z pages order) (\<lambda>(page, z', pages').
          case page of
            Some n \<Rightarrow> Inr (Some n, z' # zs, pages')
          | None \<Rightarrow>
              bindR (alloc_from_zones zs pages' order) (\<lambda>(page, zs', pages'').
                Inr (page, z' # zs', pages''))))"

definition charge :: "nat option \<Rightarrow> nat \<Rightarrow> pmm \<Rightarrow> pmm" where
  "charge page order pm =
     (if page = None then pm else pm\<lparr>free_pagecnt := free_pagecnt pm - 2 ^ order\<rparr>)"

definition pmm_alloc_order :: "nat \<Rightarrow> pmm \<Rightarrow> (nat option \<times> pmm) res" where
  "pmm_alloc_order order pm =
     bindR (alloc_from_zones (zone_list pm) (pm_pages pm) order) (\<lambda>(page, zs, pages).
       Inr (page, charge page order (pm\<lparr>zone_list := zs, pm_pages := pages\<rparr>)))"

definition pmm_zone_alloc_order :: "nat \<Rightarrow> nat \<Rightarrow> pmm \<Rightarrow> (nat option \<times> pmm) res" where
  "pmm_zone_alloc_order zid order pm =
     (case lookup_zone_by_id (zone_list pm) zid of
        None \<Rightarrow> Inr (None, pm)
      | Some zone \<Rightarrow>
          bindR (zone_alloc zone (pm_pages pm) order) (\<lambda>(page, zone', pages).
            Inr (page, charge page order
              (pm\<lparr>zone_list := set_zone_by_id (zone_list pm) zid zone', pm_pages := pages\<rparr>))))"

text \<open>\<open>addr\<close> selects the zone; a null zone is dereferenced for its lock after the first two
  assertions.\<close>

definition free_in_zone :: "nat \<Rightarrow> page_ptr option \<Rightarrow> nat \<Rightarrow> pmm \<Rightarrow> pmm res" where
  "free_in_zone addr ptr order pm =
     ensure (ptr \<noteq> None) AssertFail (
     ensure (order < BUDDY_ORDERS) AssertFail (
     bindR (lookup_zone_res (zone_list pm) addr) (\<lambda>zone.
     bindR (zone_free (region_list pm) zone (pm_pages pm) ptr order) (\<lambda>(zone', pages).
       Inr (pm\<lparr>zone_list := set_zone (zone_list pm) addr zone', pm_pages := pages,
               free_pagecnt := free_pagecnt pm + 2 ^ order\<rparr>)))))"

definition pmm_free_order :: "nat \<Rightarrow> nat \<Rightarrow> pmm \<Rightarrow> pmm res" where
  "pmm_free_order addr order pm =
     free_in_zone addr (pmm_lookup_page (region_list pm) addr) order pm"

definition pmm_free_pages_order :: "nat \<Rightarrow> nat \<Rightarrow> pmm \<Rightarrow> pmm res" where
  "pmm_free_pages_order page order pm =
     bindR (page_at (pm_pages pm) page) (\<lambda>p.
       free_in_zone (page_to_addr p) (Some (Pg page)) order pm)"

definition pmm_get_stat :: "pmm \<Rightarrow> nat \<times> nat \<times> nat" where
  "pmm_get_stat pm = (total_pagecnt pm, usable_pagecnt pm, free_pagecnt pm)"

section \<open>Reference counts of pages\<close>

definition VM_PG_FAKE :: u64 where "VM_PG_FAKE = 1"

text \<open>The descriptor of a fake page goes back to the heap.\<close>

definition page_free :: "nat \<Rightarrow> pmm \<Rightarrow> pmm res" where
  "page_free page pm =
     bindR (page_at (pm_pages pm) page) (\<lambda>p.
       if pg_flags p AND VM_PG_FAKE \<noteq> 0
       then Inr (pm\<lparr>pm_pages := (pm_pages pm)(page := None)\<rparr>)
       else pmm_free_pages_order page (pg_order p) pm)"

definition page_ref :: "nat \<Rightarrow> pmm \<Rightarrow> pmm res" where
  "page_ref page pm =
     bindR (page_at (pm_pages pm) page) (\<lambda>p.
       Inr (pm\<lparr>pm_pages := (pm_pages pm)(page \<mapsto> p\<lparr>pg_shares := (pg_shares p + 1) mod 2 ^ 64\<rparr>)\<rparr>))"

definition page_deref :: "nat \<Rightarrow> pmm \<Rightarrow> pmm res" where
  "page_deref page pm =
     bindR (page_at (pm_pages pm) page) (\<lambda>p.
       let shares = (if pg_shares p = 0 then 2 ^ 64 - 1 else pg_shares p - 1);
           pm1 = pm\<lparr>pm_pages := (pm_pages pm)(page \<mapsto> p\<lparr>pg_shares := shares\<rparr>)\<rparr>
       in if pg_shares p = 1 then page_free page pm1 else Inr pm1)"

definition pmm_alloc :: "pmm \<Rightarrow> (nat \<times> pmm) res" where
  "pmm_alloc pm =
     bindR (pmm_alloc_order 0 pm) (\<lambda>(page, pm1).
       case page of
         None \<Rightarrow> Inr (0, pm1)
       | Some n \<Rightarrow> bindR (page_at (pm_pages pm1) n) (\<lambda>p. Inr (page_to_addr p, pm1)))"

definition pmm_free :: "nat \<Rightarrow> pmm \<Rightarrow> pmm res" where
  "pmm_free pa pm =
     bindR (page_deref_ptr (pmm_lookup_page (region_list pm) pa) NullDeref) (\<lambda>page.
       page_deref page pm)"

definition vm_pagealloc :: "nat option \<Rightarrow> u64 \<Rightarrow> pmm \<Rightarrow> (nat option \<times> pmm) res" where
  "vm_pagealloc obj offset pm =
     bindR (pmm_alloc_order 0 pm) (\<lambda>(page, pm1).
       case page of
         None \<Rightarrow> Inr (None, pm1)
       | Some n \<Rightarrow>
           bindR (page_at (pm_pages pm1) n) (\<lambda>p.
             Inr (Some n, pm1\<lparr>pm_pages := (pm_pages pm1)
                    (n \<mapsto> p\<lparr>pg_vmobj := obj, pg_offset := offset\<rparr>)\<rparr>)))"

definition vm_pagefree :: "nat \<Rightarrow> pmm \<Rightarrow> pmm res" where
  "vm_pagefree page pm =
     bindR (page_at (pm_pages pm) page) (\<lambda>p.
       pmm_free_pages_order page 0
         (pm\<lparr>pm_pages := (pm_pages pm)(page \<mapsto> p\<lparr>pg_vmobj := None, pg_offset := 0\<rparr>)\<rparr>))"

section \<open>The invariant of a zone\<close>

definition frames_of :: "zone \<Rightarrow> pages \<Rightarrow> nat set" where
  "frames_of z pages = {x. zn_base z \<le> x * 2 ^ PAGE_SHIFT \<and> x * 2 ^ PAGE_SHIFT < zn_end z \<and>
     (\<exists>p. pages x = Some p \<and> pg_max_order p < BUDDY_ORDERS)}"

definition mxo :: "pages \<Rightarrow> nat \<Rightarrow> nat" where
  "mxo pages x = pg_max_order (the (pages x))"

definition free_blocks :: "zone \<Rightarrow> (nat \<times> nat) set" where
  "free_blocks z = {(n, k). k < BUDDY_ORDERS \<and> n \<in> set (zn_orders z ! k)}"

definition held_blocks :: "zone \<Rightarrow> pages \<Rightarrow> (nat \<times> nat) set" where
  "held_blocks z pages = {(n, k). n \<in> frames_of z pages \<and>
     (\<exists>p. pages n = Some p \<and> pg_shares p > 0 \<and> pg_order p = k)}"

definition queues_ok :: "zone \<Rightarrow> bool" where
  "queues_ok z \<longleftrightarrow> length (zn_orders z) = BUDDY_ORDERS \<and> length (zn_npages z) = BUDDY_ORDERS \<and>
     (\<forall>k < BUDDY_ORDERS. zn_npages z ! k = length (zn_orders z ! k) \<and> distinct (zn_orders z ! k))"

text \<open>\<open>X\<close>: blocks taken off the queues and not handed out, or handed out, no longer referenced and
  not yet back on a queue.\<close>

definition zone_inv :: "region list \<Rightarrow> zone \<Rightarrow> pages \<Rightarrow> (nat \<times> nat) set \<Rightarrow> bool" where
  "zone_inv rs z pages X \<longleftrightarrow>
     queues_ok z \<and>
     (\<forall>x \<in> frames_of z pages. pg_pfn (the (pages x)) = x \<and>
        pmm_lookup_page rs (x * 2 ^ PAGE_SHIFT) = Some (Pg x)) \<and>
     max_blocks (frames_of z pages) (mxo pages) \<and>
     tiling (frames_of z pages) (mxo pages) (free_blocks z \<union> held_blocks z pages \<union> X) \<and>
     free_blocks z \<inter> X = {} \<and>
     (\<forall>(n, k) \<in> free_blocks z. pg_order (the (pages n)) = k) \<and>
     (\<forall>(n, k) \<in> free_blocks z \<union> X. pg_shares (the (pages n)) = 0)"

text \<open>Two zone values for the same stretch of memory.\<close>

definition same_zone :: "zone \<Rightarrow> zone \<Rightarrow> bool" where
  "same_zone z z' \<longleftrightarrow> zn_base z' = zn_base z \<and> zn_end z' = zn_end z \<and> zone_id z' = zone_id z \<and>
     may_alloc z' = may_alloc z"

lemma same_zone_refl [simp]: "same_zone z z"
  by (simp add: same_zone_def)

lemma same_zone_trans: "same_zone x y \<Longrightarrow> same_zone y z \<Longrightarrow> same_zone x z"
  by (simp add: same_zone_def)

lemma same_zone_frames: "same_zone z z' \<Longrightarrow> frames_of z' pages = frames_of z pages"
  by (simp add: same_zone_def frames_of_def)

lemma same_zone_held: "same_zone z z' \<Longrightarrow> held_blocks z' pages = held_blocks z pages"
  by (simp add: held_blocks_def same_zone_frames)

lemma frames_upd:
  assumes "pages n = Some p" "pg_max_order p' = pg_max_order p"
  shows "frames_of z (pages(n \<mapsto> p')) = frames_of z pages" "mxo (pages(n \<mapsto> p')) = mxo pages"
  using assms by (auto simp: frames_of_def mxo_def fun_eq_iff)

lemma frames_page: "x \<in> frames_of z pages \<Longrightarrow> \<exists>p. pages x = Some p \<and> pg_max_order p < BUDDY_ORDERS"
  by (simp add: frames_of_def)

lemma validate_queues: "queues_ok z \<Longrightarrow> zone_validate z"
  by (simp add: queues_ok_def zone_validate_def)

lemma zone_take_ok:
  assumes q: "queues_ok z" and n: "(n, k) \<in> free_blocks z"
  shows "\<exists>z'. zone_take z k n = Inr z' \<and> queues_ok z' \<and> same_zone z z' \<and>
     free_blocks z' = free_blocks z - {(n, k)}"
proof -
  have k: "k < BUDDY_ORDERS" "n \<in> set (zn_orders z ! k)" using n by (auto simp: free_blocks_def)
  define z' where "z' = z\<lparr>zn_orders := (zn_orders z)[k := remove1 n (zn_orders z ! k)],
      zn_npages := (zn_npages z)[k := length (zn_orders z ! k) - 1]\<rparr>"
  have "zn_npages z ! k = length (zn_orders z ! k)" "zn_orders z ! k \<noteq> []"
    using q k by (auto simp: queues_ok_def)
  then have "zone_take z k n = Inr z'"
    using q k by (simp add: zone_take_def queues_ok_def z'_def)
  moreover have "queues_ok z'"
    using q k by (auto simp: queues_ok_def z'_def nth_list_update length_remove1)
  moreover have "free_blocks z' = free_blocks z - {(n, k)}"
    using q k by (auto simp: free_blocks_def z'_def queues_ok_def nth_list_update split: if_splits)
  ultimately show ?thesis by (auto simp: same_zone_def z'_def)
qed

lemma zone_put_ok:
  assumes q: "queues_ok z" and k: "k < BUDDY_ORDERS" and n: "(n, k) \<notin> free_blocks z"
    and ins: "ins = (\<lambda>l. l @ [n]) \<or> ins = (\<lambda>l. n # l)"
  shows "\<exists>z'. zone_put z k ins = Inr z' \<and> queues_ok z' \<and> same_zone z z' \<and>
     free_blocks z' = insert (n, k) (free_blocks z)"
proof -
  have new: "n \<notin> set (zn_orders z ! k)" using n k by (auto simp: free_blocks_def)
  define z' where "z' = z\<lparr>zn_orders := (zn_orders z)[k := ins (zn_orders z ! k)],
      zn_npages := (zn_npages z)[k := zn_npages z ! k + 1]\<rparr>"
  have "zone_put z k ins = Inr z'"
    using q k by (simp add: zone_put_def queues_ok_def z'_def)
  moreover have "queues_ok z'"
    using q k new ins by (auto simp: queues_ok_def z'_def nth_list_update)
  moreover have "free_blocks z' = insert (n, k) (free_blocks z)"
    using q k ins by (auto simp: free_blocks_def z'_def queues_ok_def nth_list_update split: if_splits)
  ultimately show ?thesis by (auto simp: same_zone_def z'_def)
qed

lemma zone_invD:
  assumes "zone_inv rs z pages X"
  shows "queues_ok z" "max_blocks (frames_of z pages) (mxo pages)"
    and "tiling (frames_of z pages) (mxo pages) (free_blocks z \<union> held_blocks z pages \<union> X)"
    and "free_blocks z \<inter> X = {}"
    and "x \<in> frames_of z pages \<Longrightarrow> pg_pfn (the (pages x)) = x"
    and "x \<in> frames_of z pages \<Longrightarrow> pmm_lookup_page rs (x * 2 ^ PAGE_SHIFT) = Some (Pg x)"
    and "(n, k) \<in> free_blocks z \<Longrightarrow> pg_order (the (pages n)) = k"
    and "(n, k) \<in> free_blocks z \<Longrightarrow> pg_shares (the (pages n)) = 0"
    and "(n, k) \<in> X \<Longrightarrow> pg_shares (the (pages n)) = 0"
  using assms unfolding zone_inv_def by (blast, blast, blast, blast, blast, blast, auto)

text \<open>Which parts of the state the invariant reads.\<close>

lemma zone_inv_frame:
  assumes "zone_inv rs z pages X" "queues_ok z'" "same_zone z z'"
    and "frames_of z pages' = frames_of z pages" "mxo pages' = mxo pages"
    and "\<And>x. x \<in> frames_of z pages \<Longrightarrow> pg_pfn (the (pages' x)) = pg_pfn (the (pages x))"
    and "free_blocks z' \<union> held_blocks z pages' \<union> X' = free_blocks z \<union> held_blocks z pages \<union> X"
    and "free_blocks z' \<inter> X' = {}"
    and "\<And>m j. (m, j) \<in> free_blocks z' \<Longrightarrow> pg_order (the (pages' m)) = j"
    and "\<And>m j. (m, j) \<in> free_blocks z' \<Longrightarrow> pg_shares (the (pages' m)) = 0"
    and "\<And>m j. (m, j) \<in> X' \<Longrightarrow> pg_shares (the (pages' m)) = 0"
  shows "zone_inv rs z' pages' X'"
proof -
  have "\<forall>(m, j) \<in> free_blocks z'. pg_order (the (pages' m)) = j"
    "\<forall>(m, j) \<in> free_blocks z' \<union> X'. pg_shares (the (pages' m)) = 0"
    using assms(9,10,11) by blast+
  then show ?thesis
    using assms(1,2,8) unfolding zone_inv_def same_zone_frames [OF assms(3)] same_zone_held [OF assms(3)]
      assms(4,5,7) by (simp add: assms(6))
qed

lemma zone_inv_page:
  assumes "zone_inv rs z pages X" "(n, k) \<in> free_blocks z \<union> held_blocks z pages \<union> X"
  obtains p where "pages n = Some p" "n \<in> frames_of z pages" "2 ^ k dvd n" "k \<le> pg_max_order p"
    "pg_max_order p < BUDDY_ORDERS" "pg_pfn p = n"
  using tilingD [OF zone_invD(3) [OF assms(1)] assms(2)] frames_page [of n z pages]
    zone_invD(5) [OF assms(1), of n] by (auto simp: mxo_def)

text \<open>A descriptor that heads no free block and is not referenced may change its order.\<close>

lemma held_upd_other:
  assumes "pages n = Some p" "pg_max_order p' = pg_max_order p" "pg_shares p = 0" "pg_shares p' = 0"
  shows "held_blocks z (pages(n \<mapsto> p')) = held_blocks z pages"
proof -
  have "frames_of z (pages(n \<mapsto> p')) = frames_of z pages"
    by (rule frames_upd [where n = n and p = p]; use assms in simp)
  with assms show ?thesis by (auto simp: held_blocks_def split: if_splits)
qed

lemma zone_inv_set_order:
  assumes inv: "zone_inv rs z pages X" and p: "pages n = Some p" "pg_shares p = 0"
    and n: "\<And>k. (n, k) \<notin> free_blocks z"
  shows "zone_inv rs z (pages(n \<mapsto> p\<lparr>pg_order := j\<rparr>)) X"
proof (rule zone_inv_frame [OF inv zone_invD(1) [OF inv]])
  show "frames_of z (pages(n \<mapsto> p\<lparr>pg_order := j\<rparr>)) = frames_of z pages"
    "mxo (pages(n \<mapsto> p\<lparr>pg_order := j\<rparr>)) = mxo pages"
    by (rule frames_upd [where n = n and p = p]; use p in simp)+
  show "free_blocks z \<union> held_blocks z (pages(n \<mapsto> p\<lparr>pg_order := j\<rparr>)) \<union> X
      = free_blocks z \<union> held_blocks z pages \<union> X"
    using held_upd_other [of pages n p "p\<lparr>pg_order := j\<rparr>" z] p by simp
qed (use p n zone_invD(4,7,8,9) [OF inv] in auto)

lemma take_off:
  assumes inv: "zone_inv rs z pages X" and n: "(n, k) \<in> free_blocks z"
  shows "\<exists>z'. zone_take z k n = Inr z' \<and> zone_inv rs z' pages (insert (n, k) X) \<and> same_zone z z' \<and>
     free_blocks z' = free_blocks z - {(n, k)}"
proof -
  obtain z' where z': "zone_take z k n = Inr z'" "queues_ok z'" "same_zone z z'"
      "free_blocks z' = free_blocks z - {(n, k)}"
    using zone_take_ok [OF zone_invD(1) [OF inv] n] by blast
  have "free_blocks z' \<union> held_blocks z' pages \<union> insert (n, k) X
      = free_blocks z \<union> held_blocks z pages \<union> X"
    using n z'(4) same_zone_held [OF z'(3)] by auto
  then have "zone_inv rs z' pages (insert (n, k) X)"
    using z' n same_zone_held [OF z'(3)] zone_invD(4,7,8,9) [OF inv]
    by (intro zone_inv_frame [OF inv z'(2,3)]) auto
  with z' show ?thesis by blast
qed

lemma put_on:
  assumes inv: "zone_inv rs z pages (insert (n, k) X)" and n: "(n, k) \<notin> X"
    and ord: "pg_order (the (pages n)) = k" and ins: "ins = (\<lambda>l. l @ [n]) \<or> ins = (\<lambda>l. n # l)"
  shows "\<exists>z'. zone_put z k ins = Inr z' \<and> zone_inv rs z' pages X \<and> same_zone z z' \<and>
     free_blocks z' = insert (n, k) (free_blocks z)"
proof -
  have "(n, k) \<notin> free_blocks z" using zone_invD(4) [OF inv] by auto
  moreover have "k < BUDDY_ORDERS"
    using zone_inv_page [OF inv, of n k] by (metis UnI2 insertI1 order_le_less_trans)
  ultimately obtain z' where z': "zone_put z k ins = Inr z'" "queues_ok z'" "same_zone z z'"
      "free_blocks z' = insert (n, k) (free_blocks z)"
    using zone_put_ok [OF zone_invD(1) [OF inv] _ _ ins] by blast
  have "free_blocks z' \<union> held_blocks z' pages \<union> X
      = free_blocks z \<union> held_blocks z pages \<union> insert (n, k) X"
    using z'(4) same_zone_held [OF z'(3)] by auto
  moreover have "pg_shares (the (pages m)) = 0" if "(m, j) \<in> X \<union> {(n, k)}" for m j
    using zone_invD(9) [OF inv, of m j] that by blast
  ultimately have "zone_inv rs z' pages X"
    using z' n ord same_zone_held [OF z'(3)] zone_invD(4,7,8) [OF inv]
    by (intro zone_inv_frame [OF inv z'(2,3)]) auto
  with z' show ?thesis by blast
qed

lemma hand_out:
  assumes inv: "zone_inv rs z pages (insert (n, k) X)" and n: "(n, k) \<notin> X" and p: "pages n = Some p"
  defines "pages' \<equiv> pages(n \<mapsto> p\<lparr>pg_order := k, pg_shares := 1\<rparr>)"
  shows "zone_inv rs z pages' X" "held_blocks z pages' = insert (n, k) (held_blocks z pages)"
    "frames_of z pages' = frames_of z pages"
proof -
  let ?p = "p\<lparr>pg_order := k, pg_shares := 1\<rparr>"
  have T: "tiling (frames_of z pages) (mxo pages) (free_blocks z \<union> held_blocks z pages \<union> insert (n, k) X)"
    by (rule zone_invD(3) [OF inv])
  have s: "pg_shares p = 0" using zone_invD(9) [OF inv, of n k] p by simp
  have fr: "frames_of z pages' = frames_of z pages" "mxo pages' = mxo pages"
    unfolding pages'_def by (rule frames_upd [where n = n and p = p]; use p in simp)+
  have nf: "(n, j) \<notin> free_blocks z" for j
    using tiling_head [OF T, of n k j] zone_invD(4) [OF inv] by auto
  have nx: "(n, j) \<notin> X" for j using tiling_head [OF T, of n k j] n by auto
  have "n \<in> frames_of z pages" using tilingD(2) [OF T, of n k] by simp
  then show held: "held_blocks z pages' = insert (n, k) (held_blocks z pages)"
    using s p unfolding held_blocks_def fr by (auto simp: pages'_def split: if_splits)
  then have eq: "free_blocks z \<union> held_blocks z pages' \<union> X = free_blocks z \<union> held_blocks z pages \<union> insert (n, k) X"
    by auto
  have same: "pages' m = pages m" if "(m, j) \<in> free_blocks z \<union> X" for m j
    using nf nx that by (auto simp: pages'_def)
  show "zone_inv rs z pages' X"
  proof (rule zone_inv_frame [OF inv zone_invD(1) [OF inv] same_zone_refl fr])
    show "pg_pfn (the (pages' x)) = pg_pfn (the (pages x))" for x
      using p by (simp add: pages'_def)
    show "free_blocks z \<inter> X = {}" using zone_invD(4) [OF inv] by auto
    fix m j
    show "(m, j) \<in> free_blocks z \<Longrightarrow> pg_order (the (pages' m)) = j"
      "(m, j) \<in> free_blocks z \<Longrightarrow> pg_shares (the (pages' m)) = 0"
      "(m, j) \<in> X \<Longrightarrow> pg_shares (the (pages' m)) = 0"
      using same [of m j] zone_invD(7,8,9) [OF inv, of m j] by simp_all
  qed (rule eq)
  show "frames_of z pages' = frames_of z pages" by (rule fr)
qed

section \<open>Allocation keeps the invariant\<close>

lemma split_in_flight:
  assumes inv: "zone_inv rs z pages (insert (n, Suc k) X)" and n: "(n, Suc k) \<notin> X"
  obtains p where "zone_inv rs z pages (insert (n + 2 ^ k, k) (insert (n, k) X))"
    "pages (n + 2 ^ k) = Some p" "pg_shares p = 0" "\<And>j. (n + 2 ^ k, j) \<notin> free_blocks z"
    "(n + 2 ^ k, k) \<notin> insert (n, k) X" "(n, k) \<notin> X"
proof -
  let ?D = "frames_of z pages" and ?up = "n + 2 ^ k"
  let ?T = "free_blocks z \<union> held_blocks z pages \<union> insert (n, Suc k) X"
  have T: "tiling ?D (mxo pages) ?T" by (rule zone_invD(3) [OF inv])
  have t: "(n, Suc k) \<in> ?T" by simp
  have up_in: "?up \<in> blk (n, Suc k)" by (simp add: blk_iff)
  have no_up: "(?up, j) \<notin> ?T" for j
  proof
    assume "(?up, j) \<in> ?T"
    then have "(?up, j) = (n, Suc k)" by (rule tiling_disjoint [OF T _ t blk_head up_in])
    then show False by simp
  qed
  have no_n: "(n, k) \<notin> ?T"
    using tiling_head [OF T t, of k] by auto
  have nf: "(n, Suc k) \<notin> free_blocks z" using zone_invD(4) [OF inv] by auto
  have s0: "pg_shares (the (pages n)) = 0" using zone_invD(9) [OF inv, of n "Suc k"] by simp
  then have nh: "(n, j) \<notin> held_blocks z pages" for j by (auto simp: held_blocks_def)
  have split: "tiling ?D (mxo pages) (insert (n, k) (insert (?up, k) (?T - {(n, Suc k)})))"
    by (rule tiling_split [OF T zone_invD(2) [OF inv] t])
  have eq: "insert (n, k) (insert (?up, k) (?T - {(n, Suc k)}))
      = free_blocks z \<union> held_blocks z pages \<union> insert (?up, k) (insert (n, k) X)"
    using nf nh n by auto
  have "?up \<in> ?D" using tilingD(2) [OF split, of ?up k] by simp
  then obtain p where p: "pages ?up = Some p" using frames_page by blast
  have s: "pg_shares p = 0"
  proof (rule ccontr)
    assume "pg_shares p \<noteq> 0"
    with p \<open>?up \<in> ?D\<close> have "(?up, pg_order p) \<in> held_blocks z pages" by (simp add: held_blocks_def)
    with no_up show False by blast
  qed
  have "zone_inv rs z pages (insert (?up, k) (insert (n, k) X))"
    unfolding zone_inv_def
  proof (intro conjI)
    show "tiling ?D (mxo pages) (free_blocks z \<union> held_blocks z pages \<union> insert (?up, k) (insert (n, k) X))"
      using split unfolding eq .
    show "free_blocks z \<inter> insert (?up, k) (insert (n, k) X) = {}"
      using zone_invD(4) [OF inv] no_up no_n by auto
    show "\<forall>(m, j) \<in> free_blocks z \<union> insert (?up, k) (insert (n, k) X). pg_shares (the (pages m)) = 0"
      using zone_invD(8,9) [OF inv] s0 s p by auto
  qed (use inv in \<open>auto simp: zone_inv_def\<close>)
  with p s no_up no_n show ?thesis by (intro that [of p]) auto
qed

lemma split_block_ok:
  "zone_inv rs z pages (insert (page, order) X) \<Longrightarrow> (page, order) \<notin> X \<Longrightarrow> desired \<le> order \<Longrightarrow>
   \<exists>z' pages'. split_block z pages page (page + 2 ^ order div 2) order desired = Inr (z', pages') \<and>
     zone_inv rs z' pages' (insert (page, desired) X) \<and> (page, desired) \<notin> X \<and> same_zone z z' \<and>
     frames_of z pages' = frames_of z pages \<and> held_blocks z pages' = held_blocks z pages \<and>
     pages' page = pages page \<and> (\<forall>x. x \<notin> frames_of z pages \<longrightarrow> pages' x = pages x)"
proof (induction order arbitrary: z pages)
  case 0
  then show ?case by auto
next
  case (Suc o')
  show ?case
  proof (cases "Suc o' = desired")
    case True
    with Suc.prems show ?thesis by auto
  next
    case False
    let ?up = "page + 2 ^ o'"
    obtain b where b: "zone_inv rs z pages (insert (?up, o') (insert (page, o') X))"
      "pages ?up = Some b" "pg_shares b = 0" "\<And>j. (?up, j) \<notin> free_blocks z"
      "(?up, o') \<notin> insert (page, o') X" "(page, o') \<notin> X"
      by (rule split_in_flight [OF Suc.prems(1,2)]) (rule that; simp)
    define pages1 where "pages1 = pages(?up \<mapsto> b\<lparr>pg_order := o'\<rparr>)"
    have inv1: "zone_inv rs z pages1 (insert (?up, o') (insert (page, o') X))"
      unfolding pages1_def by (rule zone_inv_set_order [OF b(1-4)])
    obtain z1 where z1: "zone_put z o' (\<lambda>l. l @ [?up]) = Inr z1"
        "zone_inv rs z1 pages1 (insert (page, o') X)" "same_zone z z1"
      using put_on [OF inv1 b(5)] by (auto simp: pages1_def)
    have "frames_of z pages1 = frames_of z pages"
      unfolding pages1_def by (rule frames_upd [where n = ?up and p = b]; use b(2) in simp)
    moreover have "held_blocks z pages1 = held_blocks z pages"
      unfolding pages1_def by (rule held_upd_other [where n = ?up and p = b]; use b(2,3) in simp)
    moreover obtain z' pages' where
      "split_block z1 pages1 page (page + 2 ^ o' div 2) o' desired = Inr (z', pages')"
      "zone_inv rs z' pages' (insert (page, desired) X)" "(page, desired) \<notin> X" "same_zone z1 z'"
      "frames_of z1 pages' = frames_of z1 pages1" "held_blocks z1 pages' = held_blocks z1 pages1"
      "pages' page = pages1 page" "\<forall>x. x \<notin> frames_of z1 pages1 \<longrightarrow> pages' x = pages1 x"
      using Suc.IH [OF z1(2) b(6)] Suc.prems(3) False by (metis le_SucE)
    moreover have "?up \<in> frames_of z pages"
      using zone_inv_page [OF b(1), of ?up o'] by auto
    ultimately show ?thesis
      using z1 b(2) False same_zone_trans [OF z1(3)]
      by (auto simp: same_zone_frames [OF z1(3)] same_zone_held [OF z1(3)] page_at_def pages1_def)
  qed
qed

lemma find_order_ok:
  "queues_ok z \<Longrightarrow> order \<le> BUDDY_ORDERS \<Longrightarrow>
   \<exists>j. find_order z order = Inr j \<and> order \<le> j \<and> j \<le> BUDDY_ORDERS \<and>
     (\<forall>i. order \<le> i \<and> i < j \<longrightarrow> zn_orders z ! i = []) \<and>
     (j < BUDDY_ORDERS \<longrightarrow> zn_orders z ! j \<noteq> [])"
proof (induction z order rule: find_order.induct)
  case (1 z order)
  show ?case
  proof (cases "order < BUDDY_ORDERS \<and> zn_orders z ! order = []")
    case True
    with 1 obtain j where "find_order z (order + 1) = Inr j" "order + 1 \<le> j" "j \<le> BUDDY_ORDERS"
        "\<forall>i. order + 1 \<le> i \<and> i < j \<longrightarrow> zn_orders z ! i = []"
        "j < BUDDY_ORDERS \<longrightarrow> zn_orders z ! j \<noteq> []"
      by (auto simp: queues_ok_def)
    moreover have "zn_orders z ! i = []" if "order \<le> i" "i < j" for i
    proof (cases "i = order")
      case False
      with that have "order + 1 \<le> i" by simp
      with calculation(4) that show ?thesis by blast
    qed (use True in simp)
    moreover have "find_order z order = find_order z (order + 1)"
      using True 1(2) by (subst find_order.simps) (simp add: queues_ok_def)
    ultimately show ?thesis by (intro exI [of _ j]) simp
  next
    case False
    then have "find_order z order = Inr order"
      using 1(2) by (subst find_order.simps) (auto simp: queues_ok_def)
    with False 1(3) show ?thesis by auto
  qed
qed

text \<open>\<open>zone_alloc\<close> never faults. It takes a block off the free ones and references it; when it
  returns null, no free block of the zone is large enough (or the zone never had one that is).\<close>

lemma zone_alloc_ok:
  assumes inv: "zone_inv rs z pages X" and d: "desired < BUDDY_ORDERS"
  shows "\<exists>r z' pages'. zone_alloc z pages desired = Inr (r, z', pages') \<and>
     zone_inv rs z' pages' X \<and> same_zone z z' \<and> frames_of z pages' = frames_of z pages \<and>
     (\<forall>x. x \<notin> frames_of z pages \<longrightarrow> pages' x = pages x) \<and>
     (case r of
        None \<Rightarrow> z' = z \<and> pages' = pages \<and>
          (max_zone_order z < desired \<or> (\<forall>n k. (n, k) \<in> free_blocks z \<longrightarrow> k < desired))
      | Some n \<Rightarrow> (n, desired) \<notin> held_blocks z pages \<and>
          held_blocks z' pages' = insert (n, desired) (held_blocks z pages))"
proof (cases "desired > max_zone_order z")
  case True
  with d inv show ?thesis by (auto simp: zone_alloc_def)
next
  case False
  have q: "queues_ok z" by (rule zone_invD(1) [OF inv])
  then have v: "zone_validate z" by (rule validate_queues)
  have len: "desired < length (zn_npages z)" "desired < length (zn_orders z)"
      "zn_npages z ! desired = length (zn_orders z ! desired)"
    using q d by (auto simp: queues_ok_def)
  have given_out: "(n, desired) \<notin> held_blocks z pages" if "(n, k) \<in> free_blocks z" for n k
    using zone_invD(8) [OF inv that] by (auto simp: held_blocks_def)
  show ?thesis
  proof (cases "zn_orders z ! desired")
    case (Cons n l)
    then have free: "(n, desired) \<in> free_blocks z" using d by (simp add: free_blocks_def)
    obtain z1 where z1: "zone_take z desired n = Inr z1" "zone_inv rs z1 pages (insert (n, desired) X)"
        "same_zone z z1"
      using take_off [OF inv free] by blast
    obtain p where p: "pages n = Some p" "n \<in> frames_of z pages" by (rule zone_inv_page [OF inv, of n desired]) (use free in auto)
    have nx: "(n, desired) \<notin> X" using zone_invD(4) [OF inv] free by auto
    have ord: "p\<lparr>pg_order := desired, pg_shares := 1\<rparr> = p\<lparr>pg_shares := 1\<rparr>"
      using zone_invD(7) [OF inv free] p by (cases p) simp
    note h = hand_out [OF z1(2) nx p(1), unfolded ord]
    have "zone_alloc z pages desired = Inr (Some n, z1, pages(n \<mapsto> p\<lparr>pg_shares := 1\<rparr>))"
      using False d v len Cons z1 p zone_invD(8) [OF inv free] validate_queues [OF zone_invD(1) [OF h(1)]]
      by (simp add: zone_alloc_def page_at_def)
    then show ?thesis
      using h z1 p(2) given_out [OF free]
      by (auto simp: same_zone_frames [OF z1(3)] same_zone_held [OF z1(3)])
  next
    case Nil
    obtain j where j: "find_order z (desired + 1) = Inr j" "desired + 1 \<le> j" "j \<le> BUDDY_ORDERS"
        "\<forall>i. desired + 1 \<le> i \<and> i < j \<longrightarrow> zn_orders z ! i = []" "j < BUDDY_ORDERS \<longrightarrow> zn_orders z ! j \<noteq> []"
      using find_order_ok [OF q, of "desired + 1"] d by auto
    show ?thesis
    proof (cases "j < BUDDY_ORDERS")
      case none: False
      have "k < desired" if "(n, k) \<in> free_blocks z" for n k
      proof (rule ccontr)
        assume "\<not> k < desired"
        with that Nil have "k < BUDDY_ORDERS" "desired + 1 \<le> k"
          by (auto simp: free_blocks_def Suc_le_eq le_eq_less_or_eq not_less)
        with j(3,4) none that show False by (auto simp: free_blocks_def)
      qed
      moreover have "zone_alloc z pages desired = Inr (None, z, pages)"
        using False d v len Nil j none by (simp add: zone_alloc_def)
      ultimately show ?thesis using inv by auto
    next
      case True
      then obtain n l where l: "zn_orders z ! j = n # l" using j(5) by (cases "zn_orders z ! j") auto
      then have free: "(n, j) \<in> free_blocks z" using True by (simp add: free_blocks_def)
      have nx: "(n, j) \<notin> X" using zone_invD(4) [OF inv] free by auto
      obtain z1 where z1: "zone_take z j n = Inr z1" "zone_inv rs z1 pages (insert (n, j) X)" "same_zone z z1"
        using take_off [OF inv free] by blast
      obtain p where p: "pages n = Some p" "n \<in> frames_of z pages"
        by (rule zone_inv_page [OF inv, of n j]) (use free in auto)
      have "desired \<le> j" using j(2) by simp
      from split_block_ok [OF z1(2) nx this] obtain z2 pages1 where
        s: "split_block z1 pages n (n + 2 ^ j div 2) j desired = Inr (z2, pages1)"
          "zone_inv rs z2 pages1 (insert (n, desired) X)" "(n, desired) \<notin> X" "same_zone z1 z2"
          "frames_of z1 pages1 = frames_of z1 pages" "held_blocks z1 pages1 = held_blocks z1 pages"
          "pages1 n = pages n" "\<forall>x. x \<notin> frames_of z1 pages \<longrightarrow> pages1 x = pages x"
        by blast
      have p1: "pages1 n = Some p" using s(7) p by simp
      note h = hand_out [OF s(2,3) p1]
      note sz = same_zone_trans [OF z1(3) s(4)]
      have "zone_alloc z pages desired =
          Inr (Some n, z2, pages1(n \<mapsto> p\<lparr>pg_order := desired, pg_shares := 1\<rparr>))"
        using False d v len Nil j(1) True l z1(1) s(1) p1 q zone_invD(8) [OF inv free] p
          validate_queues [OF zone_invD(1) [OF h(1)]]
        by (simp add: zone_alloc_def page_at_def queues_ok_def)
      then show ?thesis
        using h sz p(2) s(5,6,8) given_out [OF free]
        by (auto simp: same_zone_frames [OF z1(3)] same_zone_held [OF z1(3)] same_zone_frames [OF sz]
            same_zone_held [OF sz])
    qed
  qed
qed

section \<open>Release keeps the invariant\<close>

lemma merge_in_flight:
  assumes inv: "zone_inv rs z pages {(buddy_of n k, k), (n, k)}" and k: "k < mxo pages n"
  shows "zone_inv rs z pages {(min n (buddy_of n k), Suc k)}"
proof -
  let ?b = "buddy_of n k" and ?D = "frames_of z pages"
  let ?T = "free_blocks z \<union> held_blocks z pages \<union> {(?b, k), (n, k)}"
  have T: "tiling ?D (mxo pages) ?T" by (rule zone_invD(3) [OF inv])
  have t: "(n, k) \<in> ?T" "(?b, k) \<in> ?T" by auto
  have s: "pg_shares (the (pages n)) = 0" "pg_shares (the (pages ?b)) = 0"
    using zone_invD(9) [OF inv] by auto
  then have nh: "(n, j) \<notin> held_blocks z pages" "(?b, j) \<notin> held_blocks z pages" for j
    by (auto simp: held_blocks_def)
  have nf: "(n, k) \<notin> free_blocks z" "(?b, k) \<notin> free_blocks z"
    using zone_invD(4) [OF inv] by auto
  have "tiling ?D (mxo pages) (insert (min n ?b, Suc k) (?T - {(n, k), (?b, k)}))"
    by (rule tiling_merge [OF T zone_invD(2) [OF inv] t k])
  moreover have "insert (min n ?b, Suc k) (?T - {(n, k), (?b, k)})
      = free_blocks z \<union> held_blocks z pages \<union> {(min n ?b, Suc k)}"
    using nh nf by auto
  moreover have "(min n ?b, Suc k) \<notin> free_blocks z"
    using tiling_other_order [OF T t(1), of "Suc k"] tiling_other_order [OF T t(2), of "Suc k"]
    by (simp add: min_def)
  ultimately show ?thesis
    using inv s unfolding zone_inv_def by (auto simp: min_def)
qed

lemma zone_merge_ok:
  "zone_inv rs z pages {(n, k)} \<Longrightarrow> pg_order (the (pages n)) = k \<Longrightarrow>
   \<exists>z' pages' n' k'. zone_merge rs z pages n k = Inr (z', pages', n', k') \<and>
     zone_inv rs z' pages' {(n', k')} \<and> pg_order (the (pages' n')) = k' \<and> same_zone z z' \<and>
     frames_of z pages' = frames_of z pages \<and> held_blocks z pages' = held_blocks z pages \<and>
     (\<forall>x. x \<notin> frames_of z pages \<longrightarrow> pages' x = pages x) \<and> blk (n, k) \<subseteq> blk (n', k')"
proof (induction "BUDDY_ORDERS - k" arbitrary: k n z pages rule: less_induct)
  case less
  note inv = less.prems(1)
  let ?b = "buddy_of n k"
  have t: "(n, k) \<in> free_blocks z \<union> held_blocks z pages \<union> {(n, k)}" by simp
  obtain p where p: "pages n = Some p" "n \<in> frames_of z pages" "2 ^ k dvd n" "k \<le> pg_max_order p"
      "pg_max_order p < BUDDY_ORDERS" "pg_pfn p = n"
    using zone_inv_page [OF inv t] .
  have ord: "pg_order p = k" using less.prems(2) p(1) by simp
  show ?case
  proof (cases "k < pg_max_order p")
    case False
    then have "zone_merge rs z pages n k = Inr (z, pages, n, k)"
      by (subst zone_merge.simps) (simp add: page_at_def p(1))
    with less.prems show ?thesis by auto
  next
    case True
    note T = zone_invD(3) [OF inv] and bf = buddy_facts [OF p(3)]
    have mx: "k < mxo pages n" using True p(1) by (simp add: mxo_def)
    have b_in: "?b \<in> frames_of z pages" "mxo pages ?b = mxo pages n"
      using max_blocks_div [OF zone_invD(2) [OF inv] p(2) bf(5)] mx by auto
    then obtain b where b: "pages ?b = Some b" "pg_max_order b = pg_max_order p" "pg_pfn b = ?b"
      using frames_page [OF b_in(1)] zone_invD(5) [OF inv b_in(1)] p(1) by (auto simp: mxo_def)
    have addr: "page_to_addr p = n * 2 ^ PAGE_SHIFT"
        "page_to_addr p XOR BLOCK_SIZE k = ?b * 2 ^ PAGE_SHIFT"
      using buddy_xor [OF p(3), of PAGE_SHIFT] p(6) by (simp_all add: page_to_addr_def BLOCK_SIZE_def)
    have look: "pmm_lookup_page rs (?b * 2 ^ PAGE_SHIFT) = Some (Pg ?b)"
        "pmm_lookup_page rs (n * 2 ^ PAGE_SHIFT) = Some (Pg n)"
      using zone_invD(6) [OF inv] b_in(1) p(2) by auto
    show ?thesis
    proof (cases "pg_shares b > 0 \<or> pg_order b \<noteq> k")
      case stop: True
      then have "zone_merge rs z pages n k = Inr (z, pages, n, k)"
        using True ord b look addr
        by (subst zone_merge.simps) (auto simp: page_at_def page_deref_ptr_def Let_def p(1))
      with less.prems show ?thesis by auto
    next
      case merge: False
      obtain j where "(?b, j) \<in> free_blocks z \<union> held_blocks z pages \<union> {(n, k)}"
        using tiling_buddy [OF T zone_invD(2) [OF inv] t mx] by blast
      then have "(?b, j) \<in> free_blocks z"
        using merge b(1) bf(3) by (auto simp: held_blocks_def)
      moreover from this have "j = k" using zone_invD(7) [OF inv, of ?b j] b(1) merge by simp
      ultimately have free: "(?b, k) \<in> free_blocks z" by simp
      have list: "?b \<in> set (zn_orders z ! k)" "k < BUDDY_ORDERS" using free by (auto simp: free_blocks_def)
      then have cnt: "k < length (zn_npages z)" "k < length (zn_orders z)" "0 < zn_npages z ! k" "zn_orders z ! k \<noteq> []"
        using zone_invD(1) [OF inv] by (auto simp: queues_ok_def)
      obtain z1 where z1: "zone_take z k ?b = Inr z1" "zone_inv rs z1 pages {(?b, k), (n, k)}" "same_zone z z1"
          "free_blocks z1 = free_blocks z - {(?b, k)}"
        using take_off [OF inv free] by blast
      define pages1 where "pages1 = pages(?b \<mapsto> b\<lparr>pg_order := Suc k\<rparr>)"
      define pages2 where "pages2 = pages1(n \<mapsto> p\<lparr>pg_order := Suc k\<rparr>)"
      have zero: "pg_shares b = 0" "pg_shares p = 0"
        using merge zone_invD(9) [OF inv, of n k] p(1) by auto
      have nf: "(n, i) \<notin> free_blocks z1" "(?b, i) \<notin> free_blocks z1" for i
        using tiling_other_order [OF T t, of i] tiling_other_order [OF T UnI1 [OF UnI1 [OF free]], of i]
          zone_invD(4) [OF inv] z1(4)
        by (cases "i = k"; auto)+
      have p1: "pages1 n = Some p" using bf(3) p(1) by (simp add: pages1_def)
      have fr: "frames_of y pages2 = frames_of y pages" "mxo pages2 = mxo pages" for y
        unfolding pages2_def using frames_upd [where pages = pages1 and n = n and p = p and p' = "p\<lparr>pg_order := Suc k\<rparr>"]
          frames_upd [where pages = pages and n = ?b and p = b and p' = "b\<lparr>pg_order := Suc k\<rparr>"] p1 b(1)
        by (simp_all add: pages1_def [symmetric])
      have held: "held_blocks y pages2 = held_blocks y pages" for y
        unfolding pages2_def using held_upd_other [where pages = pages1 and n = n and p = p and p' = "p\<lparr>pg_order := Suc k\<rparr>"]
          held_upd_other [where pages = pages and n = ?b and p = b and p' = "b\<lparr>pg_order := Suc k\<rparr>"] zero p1 b(1)
        by (simp add: pages1_def [symmetric])
      have "zone_inv rs z1 pages1 {(?b, k), (n, k)}"
        unfolding pages1_def by (rule zone_inv_set_order [OF z1(2) b(1) zero(1) nf(2)])
      then have "zone_inv rs z1 pages2 {(?b, k), (n, k)}"
        unfolding pages2_def using p1 zero(2) nf(1)
        by (intro zone_inv_set_order [where p = p and n = n and pages = pages1])
      then have inv2: "zone_inv rs z1 pages2 {(min n ?b, Suc k)}"
        by (rule merge_in_flight) (simp add: fr mx)
      have ord2: "pg_order (the (pages2 (min n ?b))) = Suc k"
        by (auto simp: pages2_def pages1_def min_def)
      have step: "zone_merge rs z pages n k = zone_merge rs z1 pages2 (min n ?b) (Suc k)"
      proof -
        have "Suc k mod 2 ^ 32 = Suc k" using list(2) by (simp add: BUDDY_ORDERS_def)
        moreover have "(if ?b * 2 ^ PAGE_SHIFT < n * 2 ^ PAGE_SHIFT then ?b * 2 ^ PAGE_SHIFT
            else n * 2 ^ PAGE_SHIFT) = min n ?b * 2 ^ PAGE_SHIFT"
          by (auto simp: min_def)
        moreover have "pmm_lookup_page rs (min n ?b * 2 ^ PAGE_SHIFT) = Some (Pg (min n ?b))"
          using look by (simp add: min_def)
        ultimately show ?thesis
          using True merge ord b look addr list cnt z1(1)
          by (subst zone_merge.simps)
             (simp add: page_at_def page_deref_ptr_def Let_def p(1) pages2_def pages1_def)
      qed
      have "BUDDY_ORDERS - Suc k < BUDDY_ORDERS - k" using list(2) by simp
      from less.hyps [OF this inv2 ord2] obtain z' pages' n' k' where
        "zone_merge rs z1 pages2 (min n ?b) (Suc k) = Inr (z', pages', n', k')"
        "zone_inv rs z' pages' {(n', k')}" "pg_order (the (pages' n')) = k'" "same_zone z1 z'"
        "frames_of z1 pages' = frames_of z1 pages2" "held_blocks z1 pages' = held_blocks z1 pages2"
        "\<forall>x. x \<notin> frames_of z1 pages2 \<longrightarrow> pages' x = pages2 x" "blk (min n ?b, Suc k) \<subseteq> blk (n', k')"
        by blast
      moreover have "blk (n, k) \<subseteq> blk (min n ?b, Suc k)"
        using bf(4) by (auto simp: blk_iff min_def max_def split: if_splits)
      moreover have "pages2 x = pages x" if "x \<notin> frames_of z pages" for x
        using that p(2) b_in(1) by (auto simp: pages2_def pages1_def)
      ultimately show ?thesis
        unfolding step using same_zone_trans [OF z1(3)]
        by (intro exI [of _ z'] exI [of _ pages'] exI [of _ n'] exI [of _ k'])
           (simp add: fr held same_zone_frames [OF z1(3)] same_zone_held [OF z1(3)])
    qed
  qed
qed

text \<open>Freeing an unreferenced block never faults: its buddies are where the code expects them. The
  block ends up inside a free block.\<close>

lemma zone_free_ok:
  assumes inv: "zone_inv rs z pages {(n, k)}" and ord: "pg_order (the (pages n)) = k"
  shows "\<exists>z' pages'. zone_free rs z pages (Some (Pg n)) k = Inr (z', pages') \<and>
     zone_inv rs z' pages' {} \<and> same_zone z z' \<and> frames_of z pages' = frames_of z pages \<and>
     held_blocks z pages' = held_blocks z pages \<and>
     (\<forall>x. x \<notin> frames_of z pages \<longrightarrow> pages' x = pages x) \<and>
     (\<exists>t \<in> free_blocks z'. blk (n, k) \<subseteq> blk t)"
proof -
  obtain p where p: "pages n = Some p" "k \<le> pg_max_order p" "pg_max_order p < BUDDY_ORDERS"
    by (rule zone_inv_page [OF inv, of n k]) auto
  have s: "pg_shares p = 0" using zone_invD(9) [OF inv, of n k] p(1) by simp
  obtain z1 pages1 n1 k1 where m: "zone_merge rs z pages n k = Inr (z1, pages1, n1, k1)"
     "zone_inv rs z1 pages1 {(n1, k1)}" "pg_order (the (pages1 n1)) = k1" "same_zone z z1"
     "frames_of z pages1 = frames_of z pages" "held_blocks z pages1 = held_blocks z pages"
     "\<forall>x. x \<notin> frames_of z pages \<longrightarrow> pages1 x = pages x" "blk (n, k) \<subseteq> blk (n1, k1)"
    using zone_merge_ok [OF inv ord] by blast
  obtain z2 where z2: "zone_put z1 k1 (\<lambda>l. n1 # l) = Inr z2" "zone_inv rs z2 pages1 {}" "same_zone z1 z2"
      "free_blocks z2 = insert (n1, k1) (free_blocks z1)"
    using put_on [OF m(2) _ m(3)] by blast
  obtain p1 where p1: "pages1 n1 = Some p1" by (rule zone_inv_page [OF m(2), of n1 k1]) auto
  have "zone_free rs z pages (Some (Pg n)) k = Inr (z2, pages1)"
    using p s m(1,3) z2(1) p1 validate_queues [OF zone_invD(1) [OF inv]]
      validate_queues [OF zone_invD(1) [OF z2(2)]]
    by (simp add: zone_free_def page_deref_ptr_def page_at_def)
  with m z2 same_zone_trans [OF m(4) z2(3)] show ?thesis by auto
qed

text \<open>Dropping the last reference of an allocated block puts it in flight.\<close>

lemma last_reference:
  assumes inv: "zone_inv rs z pages {}" and h: "(n, k) \<in> held_blocks z pages" and p: "pages n = Some p"
  defines "pages' \<equiv> pages(n \<mapsto> p\<lparr>pg_shares := 0\<rparr>)"
  shows "zone_inv rs z pages' {(n, k)}" "held_blocks z pages' = held_blocks z pages - {(n, k)}"
    "frames_of z pages' = frames_of z pages"
proof -
  have T: "tiling (frames_of z pages) (mxo pages) (free_blocks z \<union> held_blocks z pages)"
    using zone_invD(3) [OF inv] by simp
  have fr: "frames_of z pages' = frames_of z pages" "mxo pages' = mxo pages"
    unfolding pages'_def by (rule frames_upd [where n = n and p = p]; use p in simp)+
  then show "frames_of z pages' = frames_of z pages" by simp
  have k: "pg_order p = k" "pg_shares p > 0" "n \<in> frames_of z pages" using h p by (auto simp: held_blocks_def)
  show held: "held_blocks z pages' = held_blocks z pages - {(n, k)}"
    unfolding held_blocks_def fr using p k by (auto simp: pages'_def split: if_splits)
  have nf: "(n, j) \<notin> free_blocks z" for j
    using zone_invD(8) [OF inv, of n j] k p by auto
  show "zone_inv rs z pages' {(n, k)}"
  proof (rule zone_inv_frame [OF inv zone_invD(1) [OF inv] same_zone_refl fr])
    show "pg_pfn (the (pages' x)) = pg_pfn (the (pages x))" for x using p by (simp add: pages'_def)
    show "free_blocks z \<union> held_blocks z pages' \<union> {(n, k)} = free_blocks z \<union> held_blocks z pages \<union> {}"
      using held h by auto
    show "free_blocks z \<inter> {(n, k)} = {}" using nf by simp
    fix m j
    show "(m, j) \<in> free_blocks z \<Longrightarrow> pg_order (the (pages' m)) = j"
      "(m, j) \<in> free_blocks z \<Longrightarrow> pg_shares (the (pages' m)) = 0"
      "(m, j) \<in> {(n, k)} \<Longrightarrow> pg_shares (the (pages' m)) = 0"
      using nf [of j] zone_invD(7,8) [OF inv, of m j] by (auto simp: pages'_def)
  qed
qed

section \<open>Regions establish the invariant\<close>

lemma block_order_props:
  "i mod 2 ^ (PAGE_SHIFT + m) = 0 \<Longrightarrow> i + 2 ^ (PAGE_SHIFT + m) \<le> zend \<Longrightarrow>
   i mod 2 ^ (PAGE_SHIFT + block_order i zend m k) = 0 \<and>
   i + 2 ^ (PAGE_SHIFT + block_order i zend m k) \<le> zend \<and> block_order i zend m k \<le> m + k"
  by (induction i zend m k rule: block_order.induct) (auto simp: less_imp_le)

lemma init_pages_eq:
  "init_pages P n c f = (\<lambda>x. if n \<le> x \<and> x < n + c then Some (f (page_zeroed\<lparr>pg_pfn := x\<rparr>)) else P x)"
proof (induction c arbitrary: P n)
  case (Suc c)
  show ?case unfolding init_pages.simps Suc.IH by (auto simp: fun_eq_iff)
qed (auto simp: fun_eq_iff)

text \<open>A fresh block, all of whose descriptors are new, joins the tiling.\<close>

lemma tiling_add:
  assumes T: "tiling D mx T" and n: "2 ^ k dvd n" and new: "D \<inter> blk (n, k) = {}"
    and M: "max_blocks D mx" and mx': "\<And>x. x \<in> D \<Longrightarrow> mx' x = mx x" "\<And>x. x \<in> blk (n, k) \<Longrightarrow> mx' x = k"
  shows "tiling (D \<union> blk (n, k)) mx' (insert (n, k) T)" "max_blocks (D \<union> blk (n, k)) mx'"
proof -
  have sub: "blk t \<subseteq> D" if "t \<in> T" for t
  proof
    fix x assume x: "x \<in> blk t"
    obtain m j where t: "t = (m, j)" by force
    note f = tilingD [OF T that [unfolded t]]
    show "x \<in> D" using max_blocks_div [OF M f(2) _ f(3)] x blk_div [OF f(1)] t by blast
  qed
  show "max_blocks (D \<union> blk (n, k)) mx'"
    unfolding max_blocks_def
  proof (intro ballI)
    fix x y assume x: "x \<in> D \<union> blk (n, k)" and y: "y \<in> blk (x div 2 ^ mx' x * 2 ^ mx' x, mx' x)"
    show "y \<in> D \<union> blk (n, k) \<and> mx' y = mx' x"
    proof (cases "x \<in> D")
      case True
      then have "y \<in> D \<and> mx y = mx x" using M y unfolding max_blocks_def mx'(1) [OF True] by blast
      then show ?thesis using True mx'(1) by simp
    next
      case False
      then have "x \<in> blk (n, k)" using x by simp
      then have "x div 2 ^ k * 2 ^ k = n" "mx' x = k" using blk_div [OF n] n mx'(2) by auto
      then show ?thesis using y mx'(2) by simp
    qed
  qed
  show "tiling (D \<union> blk (n, k)) mx' (insert (n, k) T)"
    unfolding tiling_def
  proof (intro conjI)
    show "\<forall>(m, j) \<in> insert (n, k) T. 2 ^ j dvd m \<and> m \<in> D \<union> blk (n, k) \<and> j \<le> mx' m"
      using tilingD [OF T] n mx' by auto
    show "\<forall>x \<in> D \<union> blk (n, k). \<exists>t \<in> insert (n, k) T. x \<in> blk t" using tiling_cover [OF T] by auto
    show "\<forall>t \<in> insert (n, k) T. \<forall>t' \<in> insert (n, k) T. t \<noteq> t' \<longrightarrow> blk t \<inter> blk t' = {}"
      unfolding pairwise_def [symmetric] pairwise_insert
    proof (intro conjI allI impI)
      show "pairwise (\<lambda>t t'. blk t \<inter> blk t' = {}) T" using T unfolding pairwise_def tiling_def by blast
    qed (use new sub in blast)+
  qed
qed

text \<open>The descriptors outside the frames still to be carved.\<close>

definition cut :: "nat \<Rightarrow> nat \<Rightarrow> pages \<Rightarrow> pages" where
  "cut i rend P = (\<lambda>x. if i \<le> x * 2 ^ PAGE_SHIFT \<and> x * 2 ^ PAGE_SHIFT < rend then None else P x)"

lemma add_block:
  assumes inv: "zone_inv rs z P {}" and n: "2 ^ k dvd n" and k: "k < BUDDY_ORDERS"
    and new: "\<And>x. x \<in> blk (n, k) \<Longrightarrow> P x = None"
    and place: "\<And>x. x \<in> blk (n, k) \<Longrightarrow> zn_base z \<le> x * 2 ^ PAGE_SHIFT \<and>
       x * 2 ^ PAGE_SHIFT < zn_end z \<and> pmm_lookup_page rs (x * 2 ^ PAGE_SHIFT) = Some (Pg x)"
    and zz: "zn_orders zz = zn_orders z" "zn_npages zz = zn_npages z" "zn_base zz = zn_base z"
      "zn_end zz = zn_end z"
  defines "P' \<equiv> init_pages P n (2 ^ k) (\<lambda>p. p\<lparr>pg_shares := 0, pg_order := k, pg_max_order := k\<rparr>)"
  shows "\<exists>z'. zone_put zz k (\<lambda>l. l @ [n]) = Inr z' \<and> zone_inv rs z' P' {} \<and> same_zone zz z' \<and>
     frames_of z' P' = frames_of z P \<union> blk (n, k) \<and> held_blocks z' P' = held_blocks z P"
proof -
  have P': "P' x = (if x \<in> blk (n, k) then Some (page_zeroed\<lparr>pg_pfn := x, pg_shares := 0,
      pg_order := k, pg_max_order := k\<rparr>) else P x)" for x
    by (simp add: P'_def init_pages_eq blk_iff)
  have frames_out: "x \<notin> frames_of z P" if "x \<in> blk (n, k)" for x
    using new [OF that] by (simp add: frames_of_def)
  have same: "P' x = P x" if "x \<in> frames_of z P" for x
    using frames_out that by (auto simp: P')
  have fr: "frames_of z P' = frames_of z P \<union> blk (n, k)"
    using place k new by (auto simp: frames_of_def P' split: if_splits)
  have nf: "(n, k) \<notin> free_blocks z"
    using tilingD(2) [OF zone_invD(3) [OF inv], of n k] frames_out [of n] by auto
  have "queues_ok zz" using zone_invD(1) [OF inv] zz by (simp add: queues_ok_def)
  moreover have fz: "free_blocks zz = free_blocks z" using zz by (simp add: free_blocks_def)
  ultimately obtain z' where z': "zone_put zz k (\<lambda>l. l @ [n]) = Inr z'" "queues_ok z'" "same_zone zz z'"
      "free_blocks z' = insert (n, k) (free_blocks z)"
    using zone_put_ok [of zz k n "\<lambda>l. l @ [n]"] k nf by auto
  have zbase: "zn_base z' = zn_base z" "zn_end z' = zn_end z" using z'(3) zz by (auto simp: same_zone_def)
  then have fz': "frames_of z' Q = frames_of z Q" for Q by (simp add: frames_of_def)
  have held: "held_blocks z' P' = held_blocks z P"
    unfolding held_blocks_def fz' fr using same frames_out P' by auto
  have mx: "\<And>x. x \<in> frames_of z P \<Longrightarrow> mxo P' x = mxo P x" "\<And>x. x \<in> blk (n, k) \<Longrightarrow> mxo P' x = k"
    using same by (simp_all add: mxo_def P')
  have T: "tiling (frames_of z P) (mxo P) (free_blocks z \<union> held_blocks z P)"
    using zone_invD(3) [OF inv] by simp
  have disj: "frames_of z P \<inter> blk (n, k) = {}" using frames_out by auto
  note add = tiling_add [OF T n disj zone_invD(2) [OF inv] mx]
  have heads: "P' m = P m" if "(m, j) \<in> free_blocks z" for m j
    using same tilingD(2) [OF T, of m j] that by simp
  have "zone_inv rs z' P' {}"
    unfolding zone_inv_def
  proof (intro conjI)
    show "\<forall>x \<in> frames_of z' P'. pg_pfn (the (P' x)) = x \<and> pmm_lookup_page rs (x * 2 ^ PAGE_SHIFT) = Some (Pg x)"
      unfolding fz' fr using zone_invD(5,6) [OF inv] same place by (auto simp: P')
    show "max_blocks (frames_of z' P') (mxo P')" unfolding fz' fr by (rule add(2))
    show "tiling (frames_of z' P') (mxo P') (free_blocks z' \<union> held_blocks z' P' \<union> {})"
      using add(1) unfolding fz' fr held z'(4) by simp
    show "\<forall>(m, j) \<in> free_blocks z'. pg_order (the (P' m)) = j"
      unfolding z'(4) using heads zone_invD(7) [OF inv] by (auto simp: P')
    show "\<forall>(m, j) \<in> free_blocks z' \<union> {}. pg_shares (the (P' m)) = 0"
      unfolding z'(4) using heads zone_invD(8) [OF inv] by (auto simp: P')
  qed (use z'(2) in simp_all)
  with z' held fr fz' show ?thesis by auto
qed

lemma carve_blocks_ok:
  "zone_inv rs z (cut i rend P) {} \<Longrightarrow> i mod 2 ^ PAGE_SHIFT = 0 \<Longrightarrow> rend mod 2 ^ PAGE_SHIFT = 0 \<Longrightarrow>
   (\<And>x. i \<le> x * 2 ^ PAGE_SHIFT \<Longrightarrow> x * 2 ^ PAGE_SHIFT < rend \<Longrightarrow> zn_base z \<le> x * 2 ^ PAGE_SHIFT \<and>
      x * 2 ^ PAGE_SHIFT < zn_end z \<and> pmm_lookup_page rs (x * 2 ^ PAGE_SHIFT) = Some (Pg x)) \<Longrightarrow>
   \<exists>z' P'. carve_blocks z P i rend = Inr (z', P') \<and> zone_inv rs z' P' {} \<and>
     same_zone z z' \<and> (\<forall>x. \<not> (i \<le> x * 2 ^ PAGE_SHIFT \<and> x * 2 ^ PAGE_SHIFT < rend) \<longrightarrow> P' x = P x) \<and>
     frames_of z' P' = frames_of z (cut i rend P) \<union> {x. i \<le> x * 2 ^ PAGE_SHIFT \<and> x * 2 ^ PAGE_SHIFT < rend} \<and>
     held_blocks z' P' = held_blocks z (cut i rend P)"
proof (induction z P i rend rule: carve_blocks.induct)
  case (1 z P i rend)
  show ?case
  proof (cases "i < rend")
    case False
    then have "cut i rend P = P" "{x. i \<le> x * 2 ^ PAGE_SHIFT \<and> x * 2 ^ PAGE_SHIFT < rend} = {}"
      by (auto simp: cut_def fun_eq_iff)
    with 1(2) False show ?thesis by (auto simp: carve_blocks.simps)
  next
    case True
    define m where "m = block_order i rend 0 (BUDDY_ORDERS - 1)"
    define n where "n = i div 2 ^ PAGE_SHIFT"
    have i: "i = n * 2 ^ PAGE_SHIFT" using 1(3) by (simp add: n_def mod_0_imp_dvd)
    obtain e where e: "rend = e * 2 ^ PAGE_SHIFT" using 1(4) by auto
    have "i + 2 ^ PAGE_SHIFT \<le> rend"
    proof -
      have "n + 1 \<le> e" using True i e by simp
      then have "(n + 1) * 2 ^ PAGE_SHIFT \<le> e * 2 ^ PAGE_SHIFT" by (rule mult_le_mono1)
      then show ?thesis by (simp add: i e)
    qed
    then have m: "i mod 2 ^ (PAGE_SHIFT + m) = 0" "i + 2 ^ (PAGE_SHIFT + m) \<le> rend" "m \<le> BUDDY_ORDERS - 1"
      using block_order_props [of i 0 rend "BUDDY_ORDERS - 1"] 1(3) by (auto simp: m_def)
    have k: "m < BUDDY_ORDERS" using m(3) by (simp add: BUDDY_ORDERS_def)
    have dvd: "2 ^ m dvd n" using m(1) unfolding i power_add by (simp add: mod_eq_0_iff_dvd mult.commute [of n])
    have blk_in: "x \<in> blk (n, m) \<longleftrightarrow> i \<le> x * 2 ^ PAGE_SHIFT \<and> x * 2 ^ PAGE_SHIFT < i + 2 ^ (PAGE_SHIFT + m)" for x
    proof -
      have "i + 2 ^ (PAGE_SHIFT + m) = (n + 2 ^ m) * 2 ^ PAGE_SHIFT" by (simp add: i power_add algebra_simps)
      then show ?thesis unfolding blk_iff i by simp
    qed
    let ?f = "\<lambda>p. p\<lparr>pg_shares := 0, pg_order := m, pg_max_order := m\<rparr>"
    let ?P = "init_pages P n (2 ^ m) ?f" and ?j = "i + 2 ^ (PAGE_SHIFT + m)"
    let ?z = "z\<lparr>max_zone_order := max (max_zone_order z) m\<rparr>"
    have eq: "init_pages (cut i rend P) n (2 ^ m) ?f = cut ?j rend ?P"
    proof
      fix x
      have "x \<in> blk (n, m) \<longleftrightarrow> n \<le> x \<and> x < n + 2 ^ m" by (rule blk_iff)
      then show "init_pages (cut i rend P) n (2 ^ m) ?f x = cut ?j rend ?P x"
        using blk_in [of x] m(2) unfolding init_pages_eq cut_def by auto
    qed
    have "\<exists>z'. zone_put ?z m (\<lambda>l. l @ [n]) = Inr z' \<and>
      zone_inv rs z' (init_pages (cut i rend P) n (2 ^ m) ?f) {} \<and> same_zone ?z z' \<and>
      frames_of z' (init_pages (cut i rend P) n (2 ^ m) ?f) = frames_of z (cut i rend P) \<union> blk (n, m) \<and>
      held_blocks z' (init_pages (cut i rend P) n (2 ^ m) ?f) = held_blocks z (cut i rend P)"
    proof (rule add_block [OF 1(2) dvd k])
      fix x assume "x \<in> blk (n, m)"
      then have x: "i \<le> x * 2 ^ PAGE_SHIFT" "x * 2 ^ PAGE_SHIFT < rend" using blk_in m(2) by auto
      show "cut i rend P x = None" using x by (simp add: cut_def)
      show "zn_base z \<le> x * 2 ^ PAGE_SHIFT \<and> x * 2 ^ PAGE_SHIFT < zn_end z \<and>
          pmm_lookup_page rs (x * 2 ^ PAGE_SHIFT) = Some (Pg x)"
        by (rule 1(5) [OF x])
    qed simp_all
    then obtain z1 where z1: "zone_put ?z m (\<lambda>l. l @ [n]) = Inr z1" "zone_inv rs z1 (cut ?j rend ?P) {}"
        "same_zone ?z z1" "frames_of z1 (cut ?j rend ?P) = frames_of z (cut i rend P) \<union> blk (n, m)"
        "held_blocks z1 (cut ?j rend ?P) = held_blocks z (cut i rend P)"
      unfolding eq by blast
    have zb: "zn_base z1 = zn_base z" "zn_end z1 = zn_end z" "zone_id z1 = zone_id z" "may_alloc z1 = may_alloc z"
      using z1(3) by (auto simp: same_zone_def)
    have j0: "?j mod 2 ^ PAGE_SHIFT = 0" using 1(3) by (simp add: power_add)
    have place: "zn_base z1 \<le> x * 2 ^ PAGE_SHIFT \<and> x * 2 ^ PAGE_SHIFT < zn_end z1 \<and>
        pmm_lookup_page rs (x * 2 ^ PAGE_SHIFT) = Some (Pg x)"
      if "?j \<le> x * 2 ^ PAGE_SHIFT" "x * 2 ^ PAGE_SHIFT < rend" for x
      using 1(5) [of x] that unfolding zb by simp
    from 1(1) [OF True m_def refl n_def refl z1(1), unfolded BLOCK_SIZE_def, OF z1(2) j0 1(4) place]
    obtain z' P' where r: "carve_blocks z1 ?P ?j rend = Inr (z', P')" "zone_inv rs z' P' {}"
        "same_zone z1 z'" "\<forall>x. \<not> (?j \<le> x * 2 ^ PAGE_SHIFT \<and> x * 2 ^ PAGE_SHIFT < rend) \<longrightarrow> P' x = ?P x"
        "frames_of z' P' = frames_of z1 (cut ?j rend ?P) \<union> {x. ?j \<le> x * 2 ^ PAGE_SHIFT \<and> x * 2 ^ PAGE_SHIFT < rend}"
        "held_blocks z' P' = held_blocks z1 (cut ?j rend ?P)"
      by blast
    have carve: "carve_blocks z P i rend = Inr (z', P')"
      using True z1(1) r(1)
      by (subst carve_blocks.simps) (simp add: Let_def BLOCK_SIZE_def m_def [symmetric, simplified] n_def [symmetric])
    have rest: "blk (n, m) \<union> {x. ?j \<le> x * 2 ^ PAGE_SHIFT \<and> x * 2 ^ PAGE_SHIFT < rend}
        = {x. i \<le> x * 2 ^ PAGE_SHIFT \<and> x * 2 ^ PAGE_SHIFT < rend}"
      unfolding set_eq_iff Un_iff mem_Collect_eq blk_in using m(2) by (metis le_add1 linorder_not_le order_less_le_trans order_trans)
    have "frames_of z' P' = frames_of z (cut i rend P) \<union> {x. i \<le> x * 2 ^ PAGE_SHIFT \<and> x * 2 ^ PAGE_SHIFT < rend}"
      unfolding r(5) z1(4) Un_assoc rest ..
    moreover have "held_blocks z' P' = held_blocks z (cut i rend P)" unfolding r(6) z1(5) ..
    moreover have "same_zone z z'" using r(3) z1(3) by (simp add: same_zone_def)
    moreover have "P' x = P x" if "\<not> (i \<le> x * 2 ^ PAGE_SHIFT \<and> x * 2 ^ PAGE_SHIFT < rend)" for x
    proof -
      have "x \<notin> blk (n, m)" using that blk_in m(2) by auto
      then have "?P x = P x" by (auto simp: init_pages_eq blk_iff)
      then show ?thesis using r(4) that by auto
    qed
    ultimately show ?thesis
      using carve r(2) by (intro exI [of _ z'] exI [of _ P'] conjI) auto
  qed
qed

section \<open>The whole allocator\<close>

definition in_zone :: "zone \<Rightarrow> nat \<Rightarrow> bool" where
  "in_zone z addr \<longleftrightarrow> zn_base z \<le> addr \<and> addr < zn_end z"

definition pmm_ok :: "pmm \<Rightarrow> bool" where
  "pmm_ok pm \<longleftrightarrow> (\<forall>z \<in> set (zone_list pm). zone_inv (region_list pm) z (pm_pages pm) {}) \<and>
     sorted_wrt (\<lambda>z z'. \<not> (\<exists>a. in_zone z a \<and> in_zone z' a)) (zone_list pm)"

definition held :: "pmm \<Rightarrow> (nat \<times> nat) set" where
  "held pm = (\<Union>z \<in> set (zone_list pm). held_blocks z (pm_pages pm))"

text \<open>The frames of the free blocks: of a zone, all its frames but those of the blocks handed out.\<close>

definition zone_free_frames :: "zone \<Rightarrow> nat set" where
  "zone_free_frames z = (\<Union>t \<in> free_blocks z. blk t)"

definition free_frames :: "pmm \<Rightarrow> nat set" where
  "free_frames pm = (\<Union>z \<in> set (zone_list pm). zone_free_frames z)"

lemma zone_free_frames_eq:
  assumes inv: "zone_inv rs z P {}"
  shows "zone_free_frames z = frames_of z P - (\<Union>t \<in> held_blocks z P. blk t)" "(\<Union>t \<in> held_blocks z P. blk t) \<subseteq> frames_of z P"
proof -
  have T: "tiling (frames_of z P) (mxo P) (free_blocks z \<union> held_blocks z P)"
    using zone_invD(3) [OF inv] by simp
  have sub: "blk t \<subseteq> frames_of z P" if "t \<in> free_blocks z \<union> held_blocks z P" for t
  proof
    fix x assume x: "x \<in> blk t"
    obtain m j where t: "t = (m, j)" by force
    note f = tilingD [OF T that [unfolded t]]
    show "x \<in> frames_of z P" using max_blocks_div [OF zone_invD(2) [OF inv] f(2) _ f(3)] x blk_div [OF f(1)] t by blast
  qed
  then show "(\<Union>t \<in> held_blocks z P. blk t) \<subseteq> frames_of z P" by blast
  have not_both: "t \<notin> held_blocks z P" if "t \<in> free_blocks z" for t
    using zone_invD(8) [OF inv, of "fst t" "snd t"] that by (auto simp: held_blocks_def)
  have apart: False if "t \<in> free_blocks z" "u \<in> held_blocks z P" "x \<in> blk t" "x \<in> blk u" for t u x
    using tiling_disjoint [OF T _ _ that(3,4)] not_both [OF that(1)] that(1,2) by blast
  show "zone_free_frames z = frames_of z P - (\<Union>t \<in> held_blocks z P. blk t)"
  proof (intro equalityI subsetI)
    fix x assume "x \<in> zone_free_frames z"
    then obtain t where "t \<in> free_blocks z" "x \<in> blk t" unfolding zone_free_frames_def by blast
    then show "x \<in> frames_of z P - (\<Union>t \<in> held_blocks z P. blk t)" using sub [of t] apart by blast
  next
    fix x assume x: "x \<in> frames_of z P - (\<Union>t \<in> held_blocks z P. blk t)"
    then obtain t where "t \<in> free_blocks z \<union> held_blocks z P" "x \<in> blk t" using tiling_cover [OF T, of x] by blast
    with x show "x \<in> zone_free_frames z" unfolding zone_free_frames_def by blast
  qed
qed

text \<open>Agreement on the frames of a zone carries its invariant over.\<close>

lemma zone_agree:
  assumes fr: "frames_of z pages' = frames_of z pages"
    and eq: "\<And>x. x \<in> frames_of z pages \<Longrightarrow> pages' x = pages x"
    and look: "\<And>x. x \<in> frames_of z pages \<Longrightarrow>
      pmm_lookup_page rs' (x * 2 ^ PAGE_SHIFT) = pmm_lookup_page rs (x * 2 ^ PAGE_SHIFT)"
    and inv: "zone_inv rs z pages {}"
  shows "zone_inv rs' z pages' {}" "held_blocks z pages' = held_blocks z pages"
proof -
  show held: "held_blocks z pages' = held_blocks z pages"
    unfolding held_blocks_def fr using eq by auto
  note T = zone_invD(3) [OF inv]
  have mx: "mxo pages' x = mxo pages x" if "x \<in> frames_of z pages" for x
    using eq [OF that] by (simp add: mxo_def)
  have heads: "pages' m = pages m" if "(m, j) \<in> free_blocks z \<union> {}" for m j
    using eq tilingD(2) [OF T, of m j] that by blast
  show "zone_inv rs' z pages' {}"
    unfolding zone_inv_def fr held
  proof (intro conjI)
    show "\<forall>x \<in> frames_of z pages. pg_pfn (the (pages' x)) = x \<and>
        pmm_lookup_page rs' (x * 2 ^ PAGE_SHIFT) = Some (Pg x)"
    proof
      fix x assume x: "x \<in> frames_of z pages"
      then show "pg_pfn (the (pages' x)) = x \<and> pmm_lookup_page rs' (x * 2 ^ PAGE_SHIFT) = Some (Pg x)"
        using zone_invD(5,6) [OF inv x] eq [OF x] look [OF x] by simp
    qed
    show "max_blocks (frames_of z pages) (mxo pages')"
      unfolding max_blocks_def
    proof (intro ballI)
      fix x y assume x: "x \<in> frames_of z pages" and y: "y \<in> blk (x div 2 ^ mxo pages' x * 2 ^ mxo pages' x, mxo pages' x)"
      then have "y \<in> frames_of z pages \<and> mxo pages y = mxo pages x"
        using zone_invD(2) [OF inv] unfolding max_blocks_def mx [OF x] by blast
      then show "y \<in> frames_of z pages \<and> mxo pages' y = mxo pages' x" using mx x by simp
    qed
    show "tiling (frames_of z pages) (mxo pages') (free_blocks z \<union> held_blocks z pages \<union> {})"
      unfolding tiling_def
    proof (intro conjI)
      show "\<forall>(n, k) \<in> free_blocks z \<union> held_blocks z pages \<union> {}. 2 ^ k dvd n \<and> n \<in> frames_of z pages \<and> k \<le> mxo pages' n"
      proof (intro ballI, clarify)
        fix n k assume t: "(n, k) \<in> free_blocks z \<union> held_blocks z pages \<union> {}"
        then show "2 ^ k dvd n \<and> n \<in> frames_of z pages \<and> k \<le> mxo pages' n"
          using tilingD [OF T t] mx [of n] by simp
      qed
    qed (use T in \<open>simp_all add: tiling_def\<close>)
    show "\<forall>(m, j) \<in> free_blocks z. pg_order (the (pages' m)) = j"
    proof (intro ballI, clarify)
      fix m j assume "(m, j) \<in> free_blocks z"
      then show "pg_order (the (pages' m)) = j" using heads [of m j] zone_invD(7) [OF inv, of m j] by simp
    qed
    show "\<forall>(m, j) \<in> free_blocks z \<union> {}. pg_shares (the (pages' m)) = 0"
    proof (intro ballI, clarify)
      fix m j assume m: "(m, j) \<in> free_blocks z \<union> {}"
      then show "pg_shares (the (pages' m)) = 0"
        using heads [OF m] zone_invD(8) [OF inv, of m j] by auto
    qed
  qed (use zone_invD(1,4) [OF inv] in auto)
qed

text \<open>A zone reads and writes only the descriptors of its own frames.\<close>

lemma frames_in_zone: "x \<in> frames_of z pages \<Longrightarrow> in_zone z (x * 2 ^ PAGE_SHIFT)"
  by (simp add: frames_of_def in_zone_def)

lemma zone_outside:
  assumes "\<And>x. in_zone z (x * 2 ^ PAGE_SHIFT) \<Longrightarrow> pages' x = pages x"
  shows "frames_of z pages' = frames_of z pages" "held_blocks z pages' = held_blocks z pages"
    "zone_inv rs z pages {} \<Longrightarrow> zone_inv rs z pages' {}"
proof -
  show fr: "frames_of z pages' = frames_of z pages"
    using assms by (auto simp: frames_of_def in_zone_def)
  have eq: "pages' x = pages x" if "x \<in> frames_of z pages" for x
    using assms frames_in_zone [OF that] by blast
  show "held_blocks z pages' = held_blocks z pages"
    unfolding held_blocks_def fr using eq by auto
  show "zone_inv rs z pages {} \<Longrightarrow> zone_inv rs z pages' {}"
    by (rule zone_agree [OF fr eq refl])
qed

lemma same_zone_in: "same_zone z z' \<Longrightarrow> in_zone z' a = in_zone z a"
  by (simp add: same_zone_def in_zone_def)

abbreviation zones_ok :: "region list \<Rightarrow> zone list \<Rightarrow> pages \<Rightarrow> bool" where
  "zones_ok rs zs pages \<equiv> (\<forall>z \<in> set zs. zone_inv rs z pages {}) \<and>
     sorted_wrt (\<lambda>z z'. \<not> (\<exists>a. in_zone z a \<and> in_zone z' a)) zs"

abbreviation held_in :: "zone list \<Rightarrow> pages \<Rightarrow> (nat \<times> nat) set" where
  "held_in zs pages \<equiv> (\<Union>z \<in> set zs. held_blocks z pages)"

text \<open>Replacing the head zone, with descriptors changed only inside it, keeps the others.\<close>

lemma zones_ok_head:
  assumes "zones_ok rs (z # zs) pages" "zone_inv rs z' pages' {}" "same_zone z z'"
    and "\<And>x. \<not> in_zone z (x * 2 ^ PAGE_SHIFT) \<Longrightarrow> pages' x = pages x"
  shows "zones_ok rs (z' # zs) pages'" "held_in zs pages' = held_in zs pages"
proof -
  have out: "pages' x = pages x" if "y \<in> set zs" "in_zone y (x * 2 ^ PAGE_SHIFT)" for x y
  proof -
    have "\<not> in_zone z (x * 2 ^ PAGE_SHIFT)" using assms(1) that by auto
    then show ?thesis by (rule assms(4))
  qed
  show "zones_ok rs (z' # zs) pages'"
  proof (intro conjI ballI)
    fix y assume "y \<in> set (z' # zs)"
    then show "zone_inv rs y pages' {}"
      using assms(1,2) zone_outside(3) [of y pages' pages rs] out [of y] by auto
  qed (use assms(1) in \<open>simp add: same_zone_in [OF assms(3)]\<close>)
  show "held_in zs pages' = held_in zs pages"
  proof (rule SUP_cong [OF refl])
    fix y assume "y \<in> set zs"
    then show "held_blocks y pages' = held_blocks y pages" by (intro zone_outside(2)) (rule out)
  qed
qed

lemma zones_ok_tail:
  assumes ok: "zones_ok rs (z # zs) pages" and zs': "zones_ok rs zs' pages'"
    and out: "\<And>x. in_zone z (x * 2 ^ PAGE_SHIFT) \<Longrightarrow> pages' x = pages x"
    and ranges: "list_all2 same_zone zs zs'"
  shows "zones_ok rs (z # zs') pages'" "held_blocks z pages' = held_blocks z pages"
proof -
  have "\<not> (\<exists>a. in_zone z a \<and> in_zone y a)" if y: "y \<in> set zs'" for y
  proof -
    obtain i where i: "i < length zs'" "y = zs' ! i" using y by (auto simp: in_set_conv_nth)
    then have "same_zone (zs ! i) y" "zs ! i \<in> set zs"
      using ranges by (auto simp: list_all2_conv_all_nth)
    then show ?thesis using ok by (auto simp: same_zone_in)
  qed
  then show "zones_ok rs (z # zs') pages'"
    using ok zs' zone_outside(3) [OF out] by auto
  show "held_blocks z pages' = held_blocks z pages" by (rule zone_outside(2) [OF out])
qed

lemma alloc_from_zones_ok:
  assumes o: "order < BUDDY_ORDERS"
  shows "zones_ok rs zs pages \<Longrightarrow>
   \<exists>r zs' pages'. alloc_from_zones zs pages order = Inr (r, zs', pages') \<and> zones_ok rs zs' pages' \<and>
     list_all2 same_zone zs zs' \<and>
     (\<forall>x. (\<forall>z \<in> set zs. \<not> in_zone z (x * 2 ^ PAGE_SHIFT)) \<longrightarrow> pages' x = pages x) \<and>
     (case r of
        None \<Rightarrow> held_in zs' pages' = held_in zs pages
      | Some n \<Rightarrow> (n, order) \<notin> held_in zs pages \<and>
          held_in zs' pages' = insert (n, order) (held_in zs pages))"
proof (induction zs arbitrary: pages)
  case Nil
  then show ?case by simp
next
  case (Cons z zs)
  have tail: "zones_ok rs zs pages" using Cons.prems by simp
  have apart: "\<not> in_zone y (x * 2 ^ PAGE_SHIFT)" if "in_zone z (x * 2 ^ PAGE_SHIFT)" "y \<in> set zs" for x y
    using Cons.prems that by auto
  obtain r zs' pages' where t: "alloc_from_zones zs pages order = Inr (r, zs', pages')" "zones_ok rs zs' pages'"
     "list_all2 same_zone zs zs'"
     "\<forall>x. (\<forall>z \<in> set zs. \<not> in_zone z (x * 2 ^ PAGE_SHIFT)) \<longrightarrow> pages' x = pages x"
     "case r of None \<Rightarrow> held_in zs' pages' = held_in zs pages
      | Some n \<Rightarrow> (n, order) \<notin> held_in zs pages \<and> held_in zs' pages' = insert (n, order) (held_in zs pages)"
    using Cons.IH [OF tail] by blast
  have out: "pages' x = pages x" if "in_zone z (x * 2 ^ PAGE_SHIFT)" for x
    using t(4) apart [OF that] by blast
  note tail_ok = zones_ok_tail [OF Cons.prems t(2) out t(3)]
  have inv: "zone_inv rs z pages {}" using Cons.prems by simp
  have not_here: "(n, order) \<notin> held_blocks z pages" if got: "(n, order) \<in> held_in zs' pages'" "(n, order) \<notin> held_in zs pages" for n
  proof
    assume "(n, order) \<in> held_blocks z pages"
    then have z: "in_zone z (n * 2 ^ PAGE_SHIFT)" by (auto simp: held_blocks_def intro: frames_in_zone)
    obtain y where y: "y \<in> set zs'" "(n, order) \<in> held_blocks y pages'" using got(1) by blast
    then have "in_zone y (n * 2 ^ PAGE_SHIFT)" by (auto simp: held_blocks_def intro: frames_in_zone)
    then show False using tail_ok(1) y(1) z by auto
  qed
  have here: "(n, order) \<notin> held_blocks z pages" if "r = Some n" for n
    using t(5) that by (intro not_here) auto
  show ?case
  proof (cases "may_alloc z")
    case False
    then have "alloc_from_zones (z # zs) pages order = Inr (r, z # zs', pages')" by (simp add: t(1))
    then show ?thesis
      using tail_ok t(3,4,5) here by (auto split: option.splits)
  next
    case True
    obtain r1 z1 pages1 where z1: "zone_alloc z pages order = Inr (r1, z1, pages1)"
      "zone_inv rs z1 pages1 {}" "same_zone z z1" "frames_of z pages1 = frames_of z pages"
      "\<forall>x. x \<notin> frames_of z pages \<longrightarrow> pages1 x = pages x"
      "case r1 of None \<Rightarrow> z1 = z \<and> pages1 = pages \<and> (max_zone_order z < order \<or> (\<forall>n k. (n, k) \<in> free_blocks z \<longrightarrow> k < order))
       | Some n \<Rightarrow> (n, order) \<notin> held_blocks z pages \<and> held_blocks z1 pages1 = insert (n, order) (held_blocks z pages)"
      using zone_alloc_ok [OF inv o] by blast
    show ?thesis
    proof (cases r1)
      case None
      then have "alloc_from_zones (z # zs) pages order = Inr (r, z # zs', pages')"
        using True z1(1,6) by (simp add: t(1))
      then show ?thesis
        using tail_ok t(3,4,5) here by (auto split: option.splits)
    next
      case (Some n)
      have keep: "pages1 x = pages x" if "\<not> in_zone z (x * 2 ^ PAGE_SHIFT)" for x
        using z1(5) frames_in_zone that by blast
      note head = zones_ok_head [OF Cons.prems z1(2,3) keep]
      have "alloc_from_zones (z # zs) pages order = Inr (Some n, z1 # zs, pages1)"
        using True z1(1) Some by simp
      moreover have "(n, order) \<notin> held_in zs pages"
      proof
        assume "(n, order) \<in> held_in zs pages"
        then obtain y where y: "y \<in> set zs" "in_zone y (n * 2 ^ PAGE_SHIFT)"
          by (auto simp: held_blocks_def dest: frames_in_zone)
        have "(n, order) \<in> held_blocks z1 pages1" using z1(6) Some by simp
        then have "in_zone z (n * 2 ^ PAGE_SHIFT)"
          unfolding same_zone_held [OF z1(3)] by (auto simp: held_blocks_def dest: frames_in_zone)
        with apart y show False by blast
      qed
      moreover have "list_all2 same_zone zs zs" by (simp add: list.rel_refl)
      ultimately show ?thesis
        using head z1(3,6) Some keep by auto
    qed
  qed
qed

lemma lookup_zone_in:
  "zones_ok rs zs pages \<Longrightarrow> z \<in> set zs \<Longrightarrow> in_zone z a \<Longrightarrow> lookup_zone zs a = Some z"
  by (induction zs) (auto simp: in_zone_def)

lemma set_zone_ranges:
  "zones_ok rs zs pages \<Longrightarrow> z \<in> set zs \<Longrightarrow> in_zone z a \<Longrightarrow> same_zone z z' \<Longrightarrow>
   list_all2 same_zone zs (set_zone zs a z')"
  by (induction zs) (auto simp: in_zone_def list.rel_refl)

lemma set_zone_union:
  "zones_ok rs zs pages \<Longrightarrow> z \<in> set zs \<Longrightarrow> in_zone z a \<Longrightarrow> F z \<subseteq> F z' \<Longrightarrow>
   (\<Union>y \<in> set (set_zone zs a z'). F y) = (\<Union>y \<in> set zs. F y) \<union> F z'"
  by (induction zs) (auto simp: in_zone_def)

text \<open>A release in one zone, seen from the list of all zones.\<close>

lemma set_zone_ok:
  "zones_ok rs zs pages \<Longrightarrow> z \<in> set zs \<Longrightarrow> in_zone z a \<Longrightarrow> zone_inv rs z' pages' {} \<Longrightarrow> same_zone z z' \<Longrightarrow>
   (\<And>x. \<not> in_zone z (x * 2 ^ PAGE_SHIFT) \<Longrightarrow> pages' x = pages x) \<Longrightarrow>
   held_blocks z' pages' = held_blocks z pages - R \<Longrightarrow> R \<subseteq> held_blocks z pages \<Longrightarrow>
   zones_ok rs (set_zone zs a z') pages' \<and>
   held_in (set_zone zs a z') pages' = held_in zs pages - R"
proof (induction zs)
  case (Cons y zs)
  have t: "in_zone z (fst t * 2 ^ PAGE_SHIFT)" if "t \<in> R" for t
    using Cons.prems(8) that by (cases t) (auto simp: held_blocks_def dest: frames_in_zone)
  show ?case
  proof (cases "in_zone y a")
    case True
    then have y: "y = z" using Cons.prems(1-3) by auto
    have eq: "set_zone (z # zs) a z' = z' # zs" using True y by (simp add: in_zone_def)
    note head = zones_ok_head [OF Cons.prems(1) [unfolded y] Cons.prems(4,5,6)]
    have no: "t \<notin> held_in zs pages" if R: "t \<in> R" for t
    proof
      assume "t \<in> held_in zs pages"
      then obtain v where "v \<in> set zs" "in_zone v (fst t * 2 ^ PAGE_SHIFT)"
        by (cases t) (auto simp: held_blocks_def dest: frames_in_zone)
      with t [OF R] Cons.prems(1) y show False by auto
    qed
    have "held_in (z' # zs) pages' = (held_blocks z pages - R) \<union> held_in zs pages"
      using head(2) Cons.prems(7) by simp
    also have "\<dots> = held_in (z # zs) pages - R" using no by auto
    finally show ?thesis using head(1) unfolding eq y by blast
  next
    case False
    then have z: "z \<in> set zs" using Cons.prems(2,3) by auto
    have eq: "set_zone (y # zs) a z' = y # set_zone zs a z'" using False by (auto simp: in_zone_def)
    have ok: "zones_ok rs zs pages" using Cons.prems(1) by simp
    have IH: "zones_ok rs (set_zone zs a z') pages' \<and> held_in (set_zone zs a z') pages' = held_in zs pages - R"
      by (rule Cons.IH [OF ok z Cons.prems(3-8)])
    have out: "pages' x = pages x" if "in_zone y (x * 2 ^ PAGE_SHIFT)" for x
      using Cons.prems(1) z that by (intro Cons.prems(6)) auto
    have "R \<inter> held_blocks y pages = {}"
    proof -
      have "t \<notin> held_blocks y pages" if "t \<in> R" for t
        using t [OF that] Cons.prems(1) z by (cases t) (auto simp: held_blocks_def dest: frames_in_zone)
      then show ?thesis by blast
    qed
    moreover note zones_ok_tail [OF Cons.prems(1) conjunct1 [OF IH] out set_zone_ranges [OF ok z Cons.prems(3,5)]]
    ultimately have tl: "zones_ok rs (y # set_zone zs a z') pages'" "held_blocks y pages' = held_blocks y pages"
        "R \<inter> held_blocks y pages = {}"
      by blast+
    have "held_in (y # set_zone zs a z') pages' = held_blocks y pages \<union> (held_in zs pages - R)"
      using tl(2) IH by simp
    also have "\<dots> = held_in (y # zs) pages - R" using tl(3) by auto
    finally show ?thesis using tl(1) unfolding eq by blast
  qed
qed simp

lemma page_deref_shared:
  assumes ok: "pmm_ok pm" and h: "(n, k) \<in> held pm"
    and p: "pm_pages pm n = Some p" "1 < pg_shares p"
  shows "\<exists>pm'. page_deref n pm = Inr pm' \<and> pmm_ok pm' \<and> held pm' = held pm"
proof -
  define pages' where "pages' = (pm_pages pm)(n \<mapsto> p\<lparr>pg_shares := pg_shares p - 1\<rparr>)"
  have res: "page_deref n pm = Inr (pm\<lparr>pm_pages := pages'\<rparr>)"
    using p by (simp add: page_deref_def page_at_def pages'_def)
  have fr: "frames_of z pages' = frames_of z (pm_pages pm)" "mxo pages' = mxo (pm_pages pm)" for z
    unfolding pages'_def by (rule frames_upd [where n = n and p = p]; use p in simp)+
  have hb: "held_blocks z pages' = held_blocks z (pm_pages pm)" for z
    unfolding held_blocks_def fr using p by (auto simp: pages'_def split: if_splits)
  have "zone_inv (region_list pm) z pages' {}" if z: "zone_inv (region_list pm) z (pm_pages pm) {}" for z
  proof (rule zone_inv_frame [OF z zone_invD(1) [OF z] same_zone_refl fr])
    show "pg_pfn (the (pages' x)) = pg_pfn (the (pm_pages pm x))" for x using p by (simp add: pages'_def)
    show "free_blocks z \<union> held_blocks z pages' \<union> {} = free_blocks z \<union> held_blocks z (pm_pages pm) \<union> {}"
      by (simp add: hb)
    fix m j
    assume m: "(m, j) \<in> free_blocks z"
    have "m \<noteq> n" using zone_invD(8) [OF z m] p by auto
    then show "pg_order (the (pages' m)) = j" "pg_shares (the (pages' m)) = 0"
      using zone_invD(7,8) [OF z m] by (simp_all add: pages'_def)
  qed simp_all
  with ok hb res show ?thesis by (auto simp: pmm_ok_def held_def)
qed

text \<open>The last release of an allocated page returns its block, without a fault.\<close>

lemma page_deref_last:
  assumes ok: "pmm_ok pm" and h: "(n, k) \<in> held pm"
    and p: "pm_pages pm n = Some p" "pg_shares p = 1" "pg_flags p AND VM_PG_FAKE = 0"
  shows "\<exists>pm'. page_deref n pm = Inr pm' \<and> pmm_ok pm' \<and> held pm' = held pm - {(n, k)} \<and>
     free_pagecnt pm' = free_pagecnt pm + 2 ^ k"
proof -
  let ?rs = "region_list pm" and ?P = "pm_pages pm"
  obtain z where z: "z \<in> set (zone_list pm)" "(n, k) \<in> held_blocks z ?P"
    using h by (auto simp: held_def)
  have zok: "zones_ok ?rs (zone_list pm) ?P" using ok by (simp add: pmm_ok_def)
  then have inv: "zone_inv ?rs z ?P {}" using z(1) by blast
  define P1 where "P1 = ?P(n \<mapsto> p\<lparr>pg_shares := 0\<rparr>)"
  note last = last_reference [OF inv z(2) p(1), folded P1_def]
  have ord: "pg_order p = k" "n \<in> frames_of z ?P" using z(2) p(1) by (auto simp: held_blocks_def)
  then have pfn: "pg_pfn p = n" using zone_invD(5) [OF inv, of n] p(1) by simp
  have k: "k < BUDDY_ORDERS"
    using zone_inv_page [OF inv, of n k] z(2) by (metis UnI1 UnI2 order_le_less_trans)
  have "pg_order (the (P1 n)) = k" using ord by (simp add: P1_def)
  from zone_free_ok [OF last(1) this] obtain z' P2 where f:
    "zone_free ?rs z P1 (Some (Pg n)) k = Inr (z', P2)" "zone_inv ?rs z' P2 {}" "same_zone z z'"
    "frames_of z P2 = frames_of z P1" "held_blocks z P2 = held_blocks z P1"
    "\<forall>x. x \<notin> frames_of z P1 \<longrightarrow> P2 x = P1 x"
    by blast
  have inz: "in_zone z (n * 2 ^ PAGE_SHIFT)" using ord(2) by (rule frames_in_zone)
  have out: "P2 x = ?P x" if "\<not> in_zone z (x * 2 ^ PAGE_SHIFT)" for x
  proof -
    have "x \<notin> frames_of z P1" using that frames_in_zone by blast
    moreover have "x \<noteq> n" using that inz by auto
    ultimately show ?thesis using f(6) by (simp add: P1_def)
  qed
  have "held_blocks z' P2 = held_blocks z ?P - {(n, k)}"
    unfolding same_zone_held [OF f(3)] f(5) by (rule last(2))
  from set_zone_ok [OF zok z(1) inz f(2,3) out this] z(2)
  have fin: "zones_ok ?rs (set_zone (zone_list pm) (n * 2 ^ PAGE_SHIFT) z') P2"
      "held_in (set_zone (zone_list pm) (n * 2 ^ PAGE_SHIFT) z') P2 = held_in (zone_list pm) ?P - {(n, k)}"
    by auto
  have look: "lookup_zone (zone_list pm) (n * 2 ^ PAGE_SHIFT) = Some z"
    by (rule lookup_zone_in [OF zok z(1) inz])
  have "page_deref n pm = Inr (pm\<lparr>zone_list := set_zone (zone_list pm) (n * 2 ^ PAGE_SHIFT) z',
      pm_pages := P2, free_pagecnt := free_pagecnt pm + 2 ^ k\<rparr>)"
    using p ord(1) pfn k look f(1)
    by (simp add: page_deref_def page_at_def page_free_def pmm_free_pages_order_def free_in_zone_def
        lookup_zone_res_def page_to_addr_def P1_def)
  then show ?thesis using fin by (simp add: pmm_ok_def held_def)
qed

section \<open>Boot: zones and regions\<close>

lemma insert_by_base_set: "set (insert_by_base f x xs) = insert x (set xs)"
  by (induction xs) auto

lemma insert_by_base_apart:
  "sorted_wrt (\<lambda>z z'. \<not> (\<exists>a. in_zone z a \<and> in_zone z' a)) zs \<Longrightarrow>
   (\<And>z a. z \<in> set zs \<Longrightarrow> in_zone z a \<Longrightarrow> \<not> in_zone x a) \<Longrightarrow>
   sorted_wrt (\<lambda>z z'. \<not> (\<exists>a. in_zone z a \<and> in_zone z' a)) (insert_by_base f x zs)"
proof (induction zs)
  case (Cons y zs)
  have "sorted_wrt (\<lambda>z z'. \<not> (\<exists>a. in_zone z a \<and> in_zone z' a)) (insert_by_base f x zs)"
  proof (rule Cons.IH)
    show "\<not> in_zone x a" if "z \<in> set zs" "in_zone z a" for z a
      using Cons.prems(2) [of z a] that by simp
  qed (use Cons.prems(1) in simp)
  with Cons.prems show ?case by (auto simp: insert_by_base_set)
qed simp

lemma pmm_zone_init_ok:
  assumes ok: "pmm_ok pm" and pos: "static_zones_pos pm < MAX_ZONES"
    and empty: "\<And>x. base \<le> x * 2 ^ PAGE_SHIFT \<Longrightarrow> x * 2 ^ PAGE_SHIFT < zend \<Longrightarrow> pm_pages pm x = None"
    and apart: "\<And>z a. z \<in> set (zone_list pm) \<Longrightarrow> in_zone z a \<Longrightarrow> \<not> (base \<le> a \<and> a < zend)"
  shows "\<exists>pm'. pmm_zone_init zid name may base zend pm = Inr pm' \<and> pmm_ok pm' \<and> held pm' = held pm"
proof -
  define z where "z = \<lparr>zone_id = zid, zone_name = name, max_zone_order = 0, zn_base = base,
     zn_end = zend, may_alloc = may, zn_orders = replicate BUDDY_ORDERS [], zn_npages = replicate BUDDY_ORDERS 0\<rparr>"
  have fr: "frames_of z (pm_pages pm) = {}"
    using empty by (auto simp: frames_of_def z_def)
  then have "held_blocks z (pm_pages pm) = {}" by (auto simp: held_blocks_def)
  moreover have "free_blocks z = {}" by (auto simp: free_blocks_def z_def)
  ultimately have "zone_inv (region_list pm) z (pm_pages pm) {}"
    using fr by (auto simp: zone_inv_def queues_ok_def z_def max_blocks_def tiling_def)
  moreover have "sorted_wrt (\<lambda>z z'. \<not> (\<exists>a. in_zone z a \<and> in_zone z' a)) (insert_by_base zn_base z (zone_list pm))"
    using ok apart by (intro insert_by_base_apart) (auto simp: pmm_ok_def in_zone_def z_def)
  moreover have "pmm_zone_init zid name may base zend pm =
      Inr (pm\<lparr>static_zones_pos := static_zones_pos pm + 1, zone_list := insert_by_base zn_base z (zone_list pm)\<rparr>)"
    using pos by (simp add: pmm_zone_init_def z_def Let_def)
  ultimately show ?thesis
    using ok \<open>held_blocks z (pm_pages pm) = {}\<close> by (auto simp: pmm_ok_def held_def insert_by_base_set)
qed

lemma lookup_region_insert:
  assumes "\<And>r. r \<in> set rs \<Longrightarrow> rg_end r < base \<or> rend < rg_base r"
  shows "lookup_region (insert_by_base rg_base \<lparr>rg_base = base, rg_end = rend\<rparr> rs) addr =
     (if base \<le> addr \<and> addr \<le> rend then Some \<lparr>rg_base = base, rg_end = rend\<rparr> else lookup_region rs addr)"
  using assms
proof (induction rs)
  case (Cons r rs)
  have "rg_end r < base \<or> rend < rg_base r" using Cons.prems [of r] by simp
  moreover have "lookup_region (insert_by_base rg_base \<lparr>rg_base = base, rg_end = rend\<rparr> rs) addr =
     (if base \<le> addr \<and> addr \<le> rend then Some \<lparr>rg_base = base, rg_end = rend\<rparr> else lookup_region rs addr)"
    using Cons by simp
  ultimately show ?case by auto
qed simp

lemma lookup_region_mem: "lookup_region rs addr = Some r \<Longrightarrow> r \<in> set rs \<and> rg_base r \<le> addr \<and> addr \<le> rg_end r"
  by (induction rs) (auto split: if_splits)

lemma used_le_total: "0 < t \<Longrightarrow> align_up (SIZEOF_REGION + SIZEOF_PAGE * t) PAGE_SIZE div 2 ^ PAGE_SHIFT \<le> t"
proof -
  assume t: "0 < t"
  have "(SIZEOF_REGION + SIZEOF_PAGE * t + PAGE_SIZE - 1) div PAGE_SIZE < t + 1"
    using t unfolding SIZEOF_REGION_def SIZEOF_PAGE_def PAGE_SIZE_def by (subst div_less_iff_less_mult) simp_all
  then show ?thesis by (simp add: align_up_def PAGE_SIZE_def PAGE_SHIFT_def)
qed

text \<open>The pages at the start of a region that hold its descriptors.\<close>

definition overhead :: "nat \<Rightarrow> nat" where
  "overhead cnt = align_up (SIZEOF_REGION + SIZEOF_PAGE * cnt) PAGE_SIZE div 2 ^ PAGE_SHIFT"

text \<open>A region of new frames inside one zone, away from the other regions, joins the allocator:
  no assertion fails, every block handed out before is still handed out, and the frames behind the
  descriptors are free.\<close>

lemma pmm_add_region_ok:
  assumes ok: "pmm_ok pm" and al: "base mod PAGE_SIZE = 0" "rend mod PAGE_SIZE = 0" and ne: "base < rend"
    and half: "base > UINT32_MAX \<or> rend < UINT32_MAX"
    and z: "z \<in> set (zone_list pm)" "in_zone z base" "rend \<le> zn_end z"
    and apart: "\<And>r. r \<in> set (region_list pm) \<Longrightarrow> rg_end r < base \<or> rend < rg_base r"
  defines "cnt \<equiv> (rend - base) div 2 ^ PAGE_SHIFT"
  shows "\<exists>pm'. pmm_add_region base rend pm = Inr pm' \<and> pmm_ok pm' \<and> held pm' = held pm \<and>
     region_list pm' = insert_by_base rg_base \<lparr>rg_base = base, rg_end = rend\<rparr> (region_list pm) \<and>
     free_frames pm' = free_frames pm \<union> {base div 2 ^ PAGE_SHIFT + overhead cnt..<rend div 2 ^ PAGE_SHIFT} \<and>
     total_pagecnt pm' = total_pagecnt pm + cnt \<and>
     usable_pagecnt pm' = usable_pagecnt pm + (cnt - overhead cnt) \<and>
     free_pagecnt pm' = free_pagecnt pm + (cnt - overhead cnt)"
proof -
  let ?rs = "region_list pm" and ?P = "pm_pages pm" and ?S = "2 ^ PAGE_SHIFT :: nat"
  define rs' where "rs' = insert_by_base rg_base \<lparr>rg_base = base, rg_end = rend\<rparr> ?rs"
  define usd where "usd = align_up (SIZEOF_REGION + SIZEOF_PAGE * cnt) PAGE_SIZE div ?S"
  define b where "b = base div ?S"
  have S: "PAGE_SIZE = ?S" by (simp add: PAGE_SIZE_def PAGE_SHIFT_def)
  have base: "base = b * ?S" using al(1) by (simp add: b_def S mod_0_imp_dvd)
  have rend: "rend = (b + cnt) * ?S"
  proof -
    have "?S dvd rend - base" using al by (simp add: S dvd_diff_nat mod_0_imp_dvd)
    then have "cnt * ?S = rend - base" by (simp add: cnt_def)
    then show ?thesis using ne by (simp add: base algebra_simps)
  qed
  have "0 < cnt" using ne unfolding base rend by simp
  then have ut: "usd \<le> cnt" unfolding usd_def by (rule used_le_total)
  define P0 where "P0 = init_pages ?P b cnt (\<lambda>p. p\<lparr>pg_pfn := 0\<rparr>)"
  define P1 where "P1 = init_pages P0 b usd (\<lambda>p. p\<lparr>pg_shares := 1, pg_order := UINT_MAX, pg_max_order := UINT_MAX\<rparr>)"
  define i where "i = base + usd * PAGE_SIZE"
  have i: "i = (b + usd) * ?S" by (simp add: i_def base S algebra_simps)
  have zok: "zones_ok ?rs (zone_list pm) ?P" using ok by (simp add: pmm_ok_def)
  have P1_out: "P1 x = ?P x" if "x < b \<or> b + cnt \<le> x" for x
    using that ut by (auto simp: P1_def P0_def init_pages_eq)
  have P1_used: "pg_max_order p = UINT_MAX" if "P1 x = Some p" "b \<le> x" "x < b + usd" for x p
    using that by (auto simp: P1_def init_pages_eq)
  have lookup': "lookup_region rs' a = (if base \<le> a \<and> a \<le> rend then Some \<lparr>rg_base = base, rg_end = rend\<rparr>
      else lookup_region ?rs a)" for a
    unfolding rs'_def by (rule lookup_region_insert [OF apart])
  have old: "x < b \<or> b + cnt \<le> x" "pmm_lookup_page rs' (x * ?S) = pmm_lookup_page ?rs (x * ?S)"
    if "y \<in> set (zone_list pm)" "x \<in> frames_of y ?P" for x y
  proof -
    have inv: "zone_inv ?rs y ?P {}" using zok that(1) by blast
    have "pmm_lookup_page ?rs (x * ?S) = Some (Pg x)" by (rule zone_invD(6) [OF inv that(2)])
    then obtain r where "lookup_region ?rs (x * ?S) = Some r"
      by (auto simp: pmm_lookup_page_def split: option.splits)
    from lookup_region_mem [OF this] apart [of r] have out: "\<not> (base \<le> x * ?S \<and> x * ?S \<le> rend)" by auto
    then show "x < b \<or> b + cnt \<le> x" unfolding base rend by auto
    show "pmm_lookup_page rs' (x * ?S) = pmm_lookup_page ?rs (x * ?S)"
      by (simp only: pmm_lookup_page_def lookup' out if_False)
  qed
  have new_look: "pmm_lookup_page rs' (x * ?S) = Some (Pg x)" if "b \<le> x" "x < b + cnt" for x
  proof -
    have in_r: "base \<le> x * ?S \<and> x * ?S \<le> rend" using that unfolding base rend by simp
    have "x * ?S div ?S = x" "rend div ?S = b + cnt" by (simp_all add: rend)
    then show ?thesis
      unfolding pmm_lookup_page_def lookup' using in_r that by (simp add: Let_def b_def [symmetric])
  qed
  have cutP: "frames_of y (cut i rend P1) = frames_of y ?P" "\<And>x. x \<in> frames_of y ?P \<Longrightarrow> cut i rend P1 x = ?P x"
    if y: "y \<in> set (zone_list pm)" for y
  proof -
    have nx: "\<not> (b \<le> x \<and> x < b + cnt)" if "x \<in> frames_of y ?P" for x using old(1) [OF y that] by linarith
    have c: "cut i rend P1 x = (if b + usd \<le> x \<and> x < b + cnt then None else P1 x)" for x
      by (simp add: cut_def i rend)
    have not_used: "\<not> (b \<le> x \<and> x < b + usd)" if "P1 x = Some p" "pg_max_order p < BUDDY_ORDERS" for x p
      using P1_used that by (auto simp: BUDDY_ORDERS_def UINT_MAX_def)
    show eq: "\<And>x. x \<in> frames_of y ?P \<Longrightarrow> cut i rend P1 x = ?P x"
      using nx P1_out by (auto simp: c) (meson linorder_not_le)+
    show "frames_of y (cut i rend P1) = frames_of y ?P"
    proof (rule Set.set_eqI)
      fix x
      show "x \<in> frames_of y (cut i rend P1) \<longleftrightarrow> x \<in> frames_of y ?P"
      proof (cases "b \<le> x \<and> x < b + cnt")
        case True
        then have "x \<notin> frames_of y (cut i rend P1)"
          using not_used [of x] by (auto simp: frames_of_def c split: if_splits)
        with nx True show ?thesis by blast
      next
        case False
        then have "cut i rend P1 x = ?P x" using P1_out ut by (auto simp: c)
        then show ?thesis by (simp add: frames_of_def)
      qed
    qed
  qed
  have zinv: "zone_inv rs' y (cut i rend P1) {}" "held_blocks y (cut i rend P1) = held_blocks y ?P"
    if y: "y \<in> set (zone_list pm)" for y
    using zone_agree [OF cutP(1) [OF y] cutP(2) [OF y] old(2) [OF y]] zok y by auto
  then have zok': "zones_ok rs' (zone_list pm) (cut i rend P1)" using zok by blast
  have heldc: "held_in (zone_list pm) (cut i rend P1) = held pm"
    using zinv(2) by (simp add: held_def)
  have look: "lookup_zone (zone_list pm) base = Some z" by (rule lookup_zone_in [OF zok z(1,2)])
  have val: "zone_validate z" using zok z(1) zone_invD(1) validate_queues by blast
  define pm1 where "pm1 = pm\<lparr>region_list := rs', pm_pages := P1,
      total_pagecnt := total_pagecnt pm + cnt, usable_pagecnt := usable_pagecnt pm + (cnt - usd),
      free_pagecnt := free_pagecnt pm + (cnt - usd)\<rparr>"
  have run: "pmm_add_region base rend pm = (if cnt - usd = 0 then Inr pm1
      else bindR (carve_blocks z P1 i rend) (\<lambda>(z', P'). ensure (zone_validate z') AssertFail
        (Inr (pm1\<lparr>pm_pages := P', zone_list := set_zone (zone_list pm1) base z'\<rparr>))))"
  proof -
    have h: "base > UINT32_MAX \<and> rend > UINT32_MAX \<or> base < UINT32_MAX \<and> rend < UINT32_MAX"
      using half ne by auto
    show ?thesis
      unfolding pmm_add_region_def Let_def cnt_def [symmetric] usd_def [symmetric] b_def [symmetric]
        P0_def [symmetric] P1_def [symmetric] rs'_def [symmetric] i_def [symmetric] pm1_def [symmetric]
      using al h look val ut by (simp add: lookup_zone_res_def)
  qed
  have ov: "overhead cnt = usd" "base div ?S = b" "rend div ?S = b + cnt"
    by (simp_all add: overhead_def usd_def base rend)
  show ?thesis
    unfolding ov
  proof (cases "cnt - usd = 0")
    case True
    then have "cut i rend P1 = P1" using ut by (auto simp: cut_def i rend fun_eq_iff)
    with zok' heldc True run show "\<exists>pm'. pmm_add_region base rend pm = Inr pm' \<and> pmm_ok pm' \<and> held pm' = held pm \<and>
       region_list pm' = insert_by_base rg_base \<lparr>rg_base = base, rg_end = rend\<rparr> (region_list pm) \<and>
       free_frames pm' = free_frames pm \<union> {b + usd..<b + cnt} \<and> total_pagecnt pm' = total_pagecnt pm + cnt \<and>
       usable_pagecnt pm' = usable_pagecnt pm + (cnt - usd) \<and> free_pagecnt pm' = free_pagecnt pm + (cnt - usd)"
      by (simp add: pmm_ok_def held_def pm1_def free_frames_def rs'_def)
  next
    case False
    have place: "zn_base z \<le> x * ?S \<and> x * ?S < zn_end z \<and> pmm_lookup_page rs' (x * ?S) = Some (Pg x)"
      if "i \<le> x * ?S" "x * ?S < rend" for x
    proof -
      have "b \<le> x" "x < b + cnt" using that unfolding i rend by auto
      then have "base \<le> x * ?S" "x * ?S < rend" by (simp_all add: base rend)
      then show ?thesis
        using z new_look [OF \<open>b \<le> x\<close> \<open>x < b + cnt\<close>] unfolding in_zone_def by linarith
    qed
    obtain z' P' where r: "carve_blocks z P1 i rend = Inr (z', P')" "zone_inv rs' z' P' {}" "same_zone z z'"
        "\<forall>x. \<not> (i \<le> x * ?S \<and> x * ?S < rend) \<longrightarrow> P' x = P1 x" "held_blocks z' P' = held_blocks z (cut i rend P1)"
        "frames_of z' P' = frames_of z (cut i rend P1) \<union> {x. i \<le> x * ?S \<and> x * ?S < rend}"
      using carve_blocks_ok [OF zinv(1) [OF z(1)] _ _ place] by (auto simp: i rend)
    have new: "{x. i \<le> x * ?S \<and> x * ?S < rend} = {b + usd..<b + cnt}" by (auto simp: i rend)
    have apart_new: "frames_of z ?P \<inter> {b + usd..<b + cnt} = {}" using old(1) [OF z(1)] by fastforce
    have "zone_inv ?rs z ?P {}" using zok z(1) by blast
    note before = zone_free_frames_eq [OF this] and after = zone_free_frames_eq(1) [OF r(2)]
    have add: "(F \<union> N) - H = (F - H) \<union> N" if "H \<subseteq> F" "F \<inter> N = {}" for F N H :: "nat set"
      using that by blast
    have ff: "zone_free_frames z' = zone_free_frames z \<union> {b + usd..<b + cnt}"
      unfolding after before(1) r(5,6) zinv(2) [OF z(1)] cutP(1) [OF z(1)] new by (rule add [OF before(2) apart_new])
    have "(\<Union>y \<in> set (set_zone (zone_list pm) base z'). zone_free_frames y) =
        (\<Union>y \<in> set (zone_list pm). zone_free_frames y) \<union> zone_free_frames z'"
      by (rule set_zone_union [OF zok z(1,2)]) (use ff in blast)
    then have free: "(\<Union>y \<in> set (set_zone (zone_list pm) base z'). zone_free_frames y) =
        free_frames pm \<union> {b + usd..<b + cnt}"
      unfolding ff free_frames_def using z(1) by blast
    have out: "P' x = cut i rend P1 x" if "\<not> in_zone z (x * ?S)" for x
    proof -
      have "\<not> (i \<le> x * ?S \<and> x * ?S < rend)" using place that by (auto simp: in_zone_def)
      then show ?thesis using r(4) by (auto simp: cut_def)
    qed
    have "held_blocks z' P' = held_blocks z (cut i rend P1) - {}" using r(5) by simp
    from set_zone_ok [OF zok' z(1,2) r(2,3) out this] heldc
    have "zones_ok rs' (set_zone (zone_list pm) base z') P'" "held_in (set_zone (zone_list pm) base z') P' = held pm"
      by auto
    with False run r(1) validate_queues [OF zone_invD(1) [OF r(2)]] free [unfolded free_frames_def]
    show "\<exists>pm'. pmm_add_region base rend pm = Inr pm' \<and> pmm_ok pm' \<and> held pm' = held pm \<and>
       region_list pm' = insert_by_base rg_base \<lparr>rg_base = base, rg_end = rend\<rparr> (region_list pm) \<and>
       free_frames pm' = free_frames pm \<union> {b + usd..<b + cnt} \<and> total_pagecnt pm' = total_pagecnt pm + cnt \<and>
       usable_pagecnt pm' = usable_pagecnt pm + (cnt - usd) \<and> free_pagecnt pm' = free_pagecnt pm + (cnt - usd)"
      by (simp add: pmm_ok_def held_def pm1_def free_frames_def rs'_def)
  qed
qed

section \<open>What allocation and release leave alone\<close>

text \<open>Splitting and coalescing change nothing in a descriptor but its order.\<close>

definition but_order :: "pages \<Rightarrow> pages" where
  "but_order P = (\<lambda>x. map_option (\<lambda>p. p\<lparr>pg_order := 0\<rparr>) (P x))"

lemma but_order_upd [simp]:
  "P n = Some p \<Longrightarrow> but_order (P(n \<mapsto> p\<lparr>pg_order := k\<rparr>)) = but_order P"
  by (auto simp: but_order_def fun_eq_iff)

lemma but_order_shares:
  "but_order P = but_order Q \<Longrightarrow> P x = Some p \<Longrightarrow>
   \<exists>q. Q x = Some q \<and> pg_shares q = pg_shares p \<and> pg_flags q = pg_flags p"
proof -
  assume "but_order P = but_order Q" and P: "P x = Some p"
  then have "map_option (\<lambda>p. p\<lparr>pg_order := 0\<rparr>) (Q x) = Some (p\<lparr>pg_order := 0\<rparr>)"
    by (metis but_order_def option.simps(9))
  then obtain q where "Q x = Some q" "q\<lparr>pg_order := 0\<rparr> = p\<lparr>pg_order := 0\<rparr>" by auto
  then show ?thesis by (cases p; cases q) auto
qed

lemma page_at_Inr [simp]: "page_at P n = Inr p \<longleftrightarrow> P n = Some p"
  by (auto simp: page_at_def split: option.splits)

lemma split_block_meta:
  "split_block z P page b order desired = Inr (z', P') \<Longrightarrow> but_order P' = but_order P"
proof (induction z P page b order desired rule: split_block.induct)
  case (2 zone pages page buddy order desired)
  show ?case
  proof (cases "Suc order = desired")
    case False
    with 2(2) obtain z1 q where z1: "zone_put zone order (\<lambda>l. l @ [buddy]) = Inr z1" "pages buddy = Some q"
      "split_block z1 (pages(buddy \<mapsto> q\<lparr>pg_order := order\<rparr>)) page (page + 2 ^ order div 2) order desired = Inr (z', P')"
      by (auto simp: bindR_Inr_iff)
    have "page_at pages buddy = Inr q" using z1(2) by simp
    from 2(1) [OF False z1(1) this z1(3)] show ?thesis using z1(2) by (simp only: but_order_upd)
  next
    case True
    have "split_block zone pages page buddy (Suc order) desired = Inr (zone, pages)"
      by (subst split_block.simps(2)) (rule if_P [OF True])
    with 2(2) show ?thesis by simp
  qed
qed (simp split: if_splits)

lemma zone_merge_cases:
  assumes "zone_merge rs z P n k = Inr (z', P', n', k')"
  obtains "P' = P"
  | p b q z1 m where "P n = Some p" "P b = Some q" "k < length (zn_npages z)" "zone_take z k b = Inr z1"
      "zone_merge rs z1 (P(b \<mapsto> q\<lparr>pg_order := (pg_order q + 1) mod 2 ^ 32\<rparr>,
          n \<mapsto> p\<lparr>pg_order := (pg_order p + 1) mod 2 ^ 32\<rparr>)) m (k + 1) = Inr (z', P', n', k')"
  using assms
  by (subst (asm) zone_merge.simps)
     (auto simp: bindR_Inr_iff ensure_Inr_iff ld_Inr_iff Let_def simp del: fun_upd_apply split: if_splits)

lemma zone_merge_meta:
  "zone_merge rs z P n k = Inr (z', P', n', k') \<Longrightarrow> but_order P' = but_order P"
proof (induction "length (zn_npages z) - k" arbitrary: z P n k rule: less_induct)
  case less
  from less.prems show ?case
  proof (cases rule: zone_merge_cases)
    case (2 p b q z1 m)
    have "length (zn_npages z1) - (k + 1) < length (zn_npages z) - k"
      using zone_take_lengths [OF 2(4)] 2(3) by simp
    note IH = less.hyps [OF this 2(5)]
    have "but_order (P(b \<mapsto> q\<lparr>pg_order := (pg_order q + 1) mod 2 ^ 32\<rparr>,
          n \<mapsto> p\<lparr>pg_order := (pg_order p + 1) mod 2 ^ 32\<rparr>)) = but_order P"
      using 2(1,2) by (auto simp: but_order_def fun_eq_iff)
    with IH show ?thesis by simp
  qed simp
qed

lemma zone_alloc_meta:
  assumes "zone_alloc z P k = Inr (Some n, z', P')"
  shows "\<exists>p. P' n = Some p \<and> pg_shares p = 1 \<and> (\<exists>q. P n = Some q \<and> pg_flags p = pg_flags q) \<and>
     but_order (P'(n := None)) = but_order (P(n := None))"
proof -
  have key: ?thesis if "but_order P1 = but_order P" "P1 n = Some p"
    "P' = P1(n \<mapsto> p\<lparr>pg_order := j, pg_shares := 1\<rparr>)" for P1 p j
    using that but_order_shares [OF that(1,2)] by (auto simp: but_order_def fun_eq_iff)
  from assms consider
      p where "P n = Some p" "P' = P(n \<mapsto> p\<lparr>pg_shares := 1\<rparr>)"
    | P1 z1 z2 j i p where "split_block z1 P n (n + 2 ^ j div 2) j k = Inr (z2, P1)" "P1 n = Some p"
        "P' = P1(n \<mapsto> p\<lparr>pg_order := i, pg_shares := 1\<rparr>)"
    by (auto simp: zone_alloc_def bindR_Inr_iff ensure_Inr_iff ld_Inr_iff simp del: fun_upd_apply
          split: if_splits list.splits)
  then show ?thesis
  proof cases
    case 1
    have "p\<lparr>pg_order := pg_order p, pg_shares := 1\<rparr> = p\<lparr>pg_shares := 1\<rparr>" by (cases p) simp
    then have "P' = P(n \<mapsto> p\<lparr>pg_order := pg_order p, pg_shares := 1\<rparr>)" using 1(2) by (simp only:)
    then show ?thesis by (rule key [OF refl 1(1)])
  next
    case 2
    show ?thesis by (rule key [OF split_block_meta [OF 2(1)] 2(2,3)])
  qed
qed

lemma zone_free_meta:
  "zone_free rs z P ptr k = Inr (z', P') \<Longrightarrow> but_order P' = but_order P"
  by (auto simp: zone_free_def bindR_Inr_iff ensure_Inr_iff dest: zone_merge_meta)

lemma alloc_from_zones_meta:
  "alloc_from_zones zs P k = Inr (Some n, zs', P') \<Longrightarrow> zones_ok rs zs P \<Longrightarrow> k < BUDDY_ORDERS \<Longrightarrow>
   \<exists>p. P' n = Some p \<and> pg_shares p = 1 \<and> (\<exists>q. P n = Some q \<and> pg_flags p = pg_flags q) \<and>
     but_order (P'(n := None)) = but_order (P(n := None))"
proof (induction zs arbitrary: zs')
  case (Cons z zs)
  show ?case
  proof (cases "may_alloc z")
    case False
    with Cons.prems(1) obtain zs1 where "alloc_from_zones zs P k = Inr (Some n, zs1, P')"
      by (auto simp: bindR_Inr_iff)
    with Cons show ?thesis by simp
  next
    case True
    obtain r1 z1 P1 where z1: "zone_alloc z P k = Inr (r1, z1, P1)" "r1 = None \<longrightarrow> P1 = P"
      using zone_alloc_ok [of rs z P "{}" k] Cons.prems(2,3) by (fastforce split: option.splits)
    show ?thesis
    proof (cases r1)
      case None
      with Cons.prems(1) True z1 obtain zs1 where "alloc_from_zones zs P k = Inr (Some n, zs1, P')"
        by (auto simp: bindR_Inr_iff)
      with Cons show ?thesis by simp
    next
      case (Some m)
      with Cons.prems(1) True z1 have "m = n" "P1 = P'" by auto
      with Some zone_alloc_meta [of z P k n z1 P'] z1 show ?thesis by (simp del: fun_upd_apply)
    qed
  qed
qed simp

section \<open>Allocated blocks do not overlap\<close>

lemma zones_apart:
  assumes "pmm_ok pm" "z \<in> set (zone_list pm)" "z' \<in> set (zone_list pm)" "in_zone z a" "in_zone z' a"
  shows "z = z'"
proof (rule ccontr)
  assume ne: "z \<noteq> z'"
  have s: "sorted_wrt (\<lambda>z z'. \<not> (\<exists>a. in_zone z a \<and> in_zone z' a)) (zone_list pm)"
    using assms(1) by (simp add: pmm_ok_def)
  obtain i j where "i < length (zone_list pm)" "zone_list pm ! i = z"
      "j < length (zone_list pm)" "zone_list pm ! j = z'"
    using assms(2,3) by (auto simp: in_set_conv_nth)
  with ne s assms(4,5) show False
    by (cases i j rule: linorder_cases) (auto simp: sorted_wrt_iff_nth_less)
qed

lemma held_in_frames:
  assumes z: "zone_inv rs z pages {}" "(n, k) \<in> held_blocks z pages" and x: "x \<in> blk (n, k)"
  shows "x \<in> frames_of z pages"
proof -
  have t: "(n, k) \<in> free_blocks z \<union> held_blocks z pages \<union> {}" using z(2) by simp
  note n = tilingD [OF zone_invD(3) [OF z(1)] t]
  show ?thesis using max_blocks_div [OF zone_invD(2) [OF z(1)] n(2) _ n(3)] x blk_div [OF n(1)] by blast
qed

lemma held_disjoint:
  assumes ok: "pmm_ok pm" and h: "(n, k) \<in> held pm" "(m, j) \<in> held pm"
    and x: "x \<in> blk (n, k)" "x \<in> blk (m, j)"
  shows "(n, k) = (m, j)"
proof -
  let ?P = "pm_pages pm"
  obtain z z' where z: "z \<in> set (zone_list pm)" "(n, k) \<in> held_blocks z ?P"
      "z' \<in> set (zone_list pm)" "(m, j) \<in> held_blocks z' ?P"
    using h by (auto simp: held_def)
  have inv: "zone_inv (region_list pm) z ?P {}" "zone_inv (region_list pm) z' ?P {}"
    using ok z by (auto simp: pmm_ok_def)
  have "z = z'"
    using zones_apart [OF ok z(1,3)] frames_in_zone held_in_frames inv z(2,4) x by metis
  then show ?thesis
    using tiling_disjoint [OF zone_invD(3) [OF inv(1)], of "(n, k)" "(m, j)"] z(2,4) x by blast
qed

lemma held_aligned:
  assumes "pmm_ok pm" "(n, k) \<in> held pm"
  shows "2 ^ k dvd n \<and> k < BUDDY_ORDERS"
proof -
  obtain z where z: "zone_inv (region_list pm) z (pm_pages pm) {}" "(n, k) \<in> held_blocks z (pm_pages pm)"
    using assms by (auto simp: pmm_ok_def held_def)
  then show ?thesis using zone_inv_page [OF z(1), of n k] by (metis UnI1 UnI2 order_le_less_trans)
qed

section \<open>The interface: a provider of single pages\<close>

text \<open>What page tables and VM objects rely on: a page handed out is not handed out again before it
  is given back.\<close>

locale page_provider =
  fixes palloc :: "'s \<Rightarrow> (nat option \<times> 's) res"
    and pfree :: "nat \<Rightarrow> 's \<Rightarrow> 's res"
    and pheld :: "'s \<Rightarrow> nat set"
    and pinv :: "'s \<Rightarrow> bool"
  assumes p_alloc: "pinv s \<Longrightarrow> \<exists>r s'. palloc s = Inr (r, s') \<and> pinv s' \<and>
      (case r of None \<Rightarrow> pheld s' = pheld s
       | Some n \<Rightarrow> n \<notin> pheld s \<and> pheld s' = insert n (pheld s))"
    and p_free: "pinv s \<Longrightarrow> n \<in> pheld s \<Longrightarrow>
      \<exists>s'. pfree n s = Inr s' \<and> pinv s' \<and> pheld s' = pheld s - {n}"
begin

lemma alloc_two:
  assumes "pinv s" "palloc s = Inr (Some n, s1)" "palloc s1 = Inr (Some m, s2)"
  shows "n \<noteq> m" "pinv s2" "pheld s2 = insert m (insert n (pheld s))"
  using p_alloc [OF assms(1)] assms(2,3) p_alloc [of s1] by auto

lemma alloc_free:
  assumes "pinv s" "palloc s = Inr (Some n, s1)"
  shows "\<exists>s2. pfree n s1 = Inr s2 \<and> pinv s2 \<and> pheld s2 = pheld s"
  using p_alloc [OF assms(1)] assms(2) p_free [of s1 n] by auto

end

definition page_unshared :: "pages \<Rightarrow> nat \<Rightarrow> bool" where
  "page_unshared P n \<longleftrightarrow> (\<exists>p. P n = Some p \<and> pg_shares p = 1 \<and> pg_flags p AND VM_PG_FAKE = 0)"

definition owned_pages :: "pmm \<Rightarrow> nat set" where
  "owned_pages pm = {n. (n, 0) \<in> held pm \<and> page_unshared (pm_pages pm) n}"

text \<open>The allocator as its single-page clients keep it: no descriptor is of a fake page.\<close>

definition pmm_inv :: "pmm \<Rightarrow> bool" where
  "pmm_inv pm \<longleftrightarrow> pmm_ok pm \<and> (\<forall>x p. pm_pages pm x = Some p \<longrightarrow> pg_flags p AND VM_PG_FAKE = 0)"

lemma alloc_from_zones_none:
  "alloc_from_zones zs P k = Inr (None, zs', P') \<Longrightarrow> zones_ok rs zs P \<Longrightarrow> k < BUDDY_ORDERS \<Longrightarrow> P' = P"
proof (induction zs arbitrary: zs')
  case (Cons z zs)
  show ?case
  proof (cases "may_alloc z")
    case False
    with Cons.prems(1) obtain zs1 where "alloc_from_zones zs P k = Inr (None, zs1, P')"
      by (auto simp: bindR_Inr_iff)
    with Cons show ?thesis by simp
  next
    case True
    obtain r1 z1 P1 where z1: "zone_alloc z P k = Inr (r1, z1, P1)" "r1 = None \<longrightarrow> P1 = P"
      using zone_alloc_ok [of rs z P "{}" k] Cons.prems(2,3) by (fastforce split: option.splits)
    with Cons.prems(1) True obtain zs1 where "alloc_from_zones zs P k = Inr (None, zs1, P')"
      by (auto simp: bindR_Inr_iff split: option.splits)
    with Cons show ?thesis by simp
  qed
qed simp

lemma unshared_cong:
  assumes "but_order (P(n := None)) = but_order (Q(n := None))" "m \<noteq> n"
  shows "page_unshared P m \<longleftrightarrow> page_unshared Q m"
proof -
  have "but_order P m = but_order Q m" using assms by (metis (no_types) but_order_def fun_upd_other)
  then show ?thesis
    unfolding but_order_def page_unshared_def
    by (cases "P m"; cases "Q m") (auto dest: arg_cong [of _ _ pg_shares] arg_cong [of _ _ pg_flags])
qed

lemma fake_cong:
  assumes "but_order (P(n := None)) = but_order (Q(n := None))"
    and "\<forall>x p. Q x = Some p \<longrightarrow> pg_flags p AND VM_PG_FAKE = 0" "P x = Some p" "x \<noteq> n"
  shows "pg_flags p AND VM_PG_FAKE = 0"
proof -
  have "but_order P x = but_order Q x" using assms(1,4) by (metis (no_types) but_order_def fun_upd_other)
  then show ?thesis
    using assms(2,3) unfolding but_order_def
    by (cases "Q x") (auto dest: arg_cong [of _ _ pg_flags])
qed

lemma pmm_alloc_order_ok:
  assumes ok: "pmm_ok pm" and k: "order < BUDDY_ORDERS"
  shows "\<exists>r pm'. pmm_alloc_order order pm = Inr (r, pm') \<and> pmm_ok pm' \<and>
     (case r of
        None \<Rightarrow> held pm' = held pm \<and> pm_pages pm' = pm_pages pm
      | Some n \<Rightarrow> (n, order) \<notin> held pm \<and> held pm' = insert (n, order) (held pm) \<and>
          (\<exists>p q. pm_pages pm' n = Some p \<and> pg_shares p = 1 \<and> pm_pages pm n = Some q \<and> pg_flags p = pg_flags q) \<and>
          but_order ((pm_pages pm')(n := None)) = but_order ((pm_pages pm)(n := None)))"
proof -
  have zok: "zones_ok (region_list pm) (zone_list pm) (pm_pages pm)" using ok by (simp add: pmm_ok_def)
  obtain r zs' P' where a: "alloc_from_zones (zone_list pm) (pm_pages pm) order = Inr (r, zs', P')"
    "zones_ok (region_list pm) zs' P'"
    "case r of None \<Rightarrow> held_in zs' P' = held_in (zone_list pm) (pm_pages pm)
      | Some n \<Rightarrow> (n, order) \<notin> held_in (zone_list pm) (pm_pages pm) \<and>
          held_in zs' P' = insert (n, order) (held_in (zone_list pm) (pm_pages pm))"
    using alloc_from_zones_ok [OF k zok] by blast
  show ?thesis
  proof (cases r)
    case None
    with a alloc_from_zones_none [OF a(1) [unfolded None] zok k] show ?thesis
      by (simp add: pmm_alloc_order_def pmm_ok_def held_def charge_def)
  next
    case (Some n)
    with a alloc_from_zones_meta [OF a(1) [unfolded Some] zok k] show ?thesis
      by (auto simp: pmm_alloc_order_def pmm_ok_def held_def charge_def simp del: fun_upd_apply)
  qed
qed

lemma free_in_zone_meta:
  "free_in_zone a ptr k pm = Inr pm' \<Longrightarrow> but_order (pm_pages pm') = but_order (pm_pages pm)"
  by (auto simp: free_in_zone_def bindR_Inr_iff ensure_Inr_iff dest!: zone_free_meta)

lemma page_deref_meta:
  assumes "page_deref n pm = Inr pm'" "pm_pages pm n = Some p" "pg_flags p AND VM_PG_FAKE = 0"
  shows "but_order ((pm_pages pm')(n := None)) = but_order ((pm_pages pm)(n := None)) \<and>
     (\<exists>q. pm_pages pm' n = Some q \<and> pg_flags q = pg_flags p)"
proof -
  define s where "s = (if pg_shares p = 0 then 2 ^ 64 - 1 else pg_shares p - 1)"
  define P1 where "P1 = (pm_pages pm)(n \<mapsto> p\<lparr>pg_shares := s\<rparr>)"
  have "page_deref n pm = (if pg_shares p = 1
      then free_in_zone (page_to_addr p) (Some (Pg n)) (pg_order p) (pm\<lparr>pm_pages := P1\<rparr>)
      else Inr (pm\<lparr>pm_pages := P1\<rparr>))"
    using assms(2,3)
    by (simp add: page_deref_def page_free_def pmm_free_pages_order_def page_at_def Let_def s_def
        P1_def page_to_addr_def)
  then have "but_order (pm_pages pm') = but_order P1"
    using assms(1) free_in_zone_meta [of "page_to_addr p" "Some (Pg n)" "pg_order p" "pm\<lparr>pm_pages := P1\<rparr>" pm']
    by (auto split: if_splits)
  moreover from this have "\<exists>q. pm_pages pm' n = Some q \<and> pg_flags q = pg_flags p"
    using but_order_shares [of P1 "pm_pages pm'" n] by (auto simp: P1_def)
  ultimately show ?thesis by (auto simp: but_order_def fun_eq_iff P1_def)
qed

lemma pmm_alloc_provider:
  assumes "pmm_inv pm"
  shows "\<exists>r pm'. pmm_alloc_order 0 pm = Inr (r, pm') \<and> pmm_inv pm' \<and>
     (case r of None \<Rightarrow> owned_pages pm' = owned_pages pm
      | Some n \<Rightarrow> n \<notin> owned_pages pm \<and> owned_pages pm' = insert n (owned_pages pm))"
proof -
  have ok: "pmm_ok pm" and nf: "\<forall>x p. pm_pages pm x = Some p \<longrightarrow> pg_flags p AND VM_PG_FAKE = 0"
    using assms by (auto simp: pmm_inv_def)
  obtain r pm' where a: "pmm_alloc_order 0 pm = Inr (r, pm')" "pmm_ok pm'"
    "case r of
        None \<Rightarrow> held pm' = held pm \<and> pm_pages pm' = pm_pages pm
      | Some n \<Rightarrow> (n, 0) \<notin> held pm \<and> held pm' = insert (n, 0) (held pm) \<and>
          (\<exists>p q. pm_pages pm' n = Some p \<and> pg_shares p = 1 \<and> pm_pages pm n = Some q \<and> pg_flags p = pg_flags q) \<and>
          but_order ((pm_pages pm')(n := None)) = but_order ((pm_pages pm)(n := None))"
    using pmm_alloc_order_ok [OF ok, of 0] by (auto simp: BUDDY_ORDERS_def)
  show ?thesis
  proof (cases r)
    case None
    with a nf show ?thesis by (auto simp: pmm_inv_def owned_pages_def)
  next
    case (Some n)
    then obtain p q where n: "(n, 0) \<notin> held pm" "held pm' = insert (n, 0) (held pm)"
        "pm_pages pm' n = Some p" "pg_shares p = 1" "pm_pages pm n = Some q" "pg_flags p = pg_flags q"
        "but_order ((pm_pages pm')(n := None)) = but_order ((pm_pages pm)(n := None))"
      using a(3) by auto
    have "page_unshared (pm_pages pm') n" using n nf by (simp add: page_unshared_def)
    then have "owned_pages pm' = insert n (owned_pages pm)"
      using n(1,2) unshared_cong [OF n(7)] by (auto simp: owned_pages_def) metis
    moreover have "pg_flags p' AND VM_PG_FAKE = 0" if "pm_pages pm' x = Some p'" for x p'
      using fake_cong [OF n(7) nf that] that n nf by (cases "x = n") auto
    ultimately show ?thesis using a(1,2) n(1) Some by (auto simp: pmm_inv_def owned_pages_def)
  qed
qed

lemma page_deref_provider:
  assumes "pmm_inv pm" "n \<in> owned_pages pm"
  shows "\<exists>pm'. page_deref n pm = Inr pm' \<and> pmm_inv pm' \<and> owned_pages pm' = owned_pages pm - {n}"
proof -
  have ok: "pmm_ok pm" and nf: "\<forall>x p. pm_pages pm x = Some p \<longrightarrow> pg_flags p AND VM_PG_FAKE = 0"
    using assms by (auto simp: pmm_inv_def)
  obtain p where p: "(n, 0) \<in> held pm" "pm_pages pm n = Some p" "pg_shares p = 1" "pg_flags p AND VM_PG_FAKE = 0"
    using assms(2) by (auto simp: owned_pages_def page_unshared_def)
  obtain pm' where d: "page_deref n pm = Inr pm'" "pmm_ok pm'" "held pm' = held pm - {(n, 0)}"
    using page_deref_last [OF ok p] by blast
  note m = page_deref_meta [OF d(1) p(2,4)]
  have "owned_pages pm' = owned_pages pm - {n}"
    using d(3) unshared_cong [OF conjunct1 [OF m]] by (auto simp: owned_pages_def)
  moreover have "pg_flags p' AND VM_PG_FAKE = 0" if "pm_pages pm' x = Some p'" for x p'
    using fake_cong [OF conjunct1 [OF m] nf that] that m p by (cases "x = n") auto
  ultimately show ?thesis using d(1,2) by (auto simp: pmm_inv_def)
qed

interpretation pages: page_provider "pmm_alloc_order 0" page_deref owned_pages pmm_inv
  by unfold_locales (use pmm_alloc_provider page_deref_provider in \<open>blast+\<close>)

end
