(* ===== verification/PageStock.thy ===== *)
theory PageStock
  imports Pmm
begin

text \<open>
  How many pages the allocator of \<^verbatim>\<open>kernel/vm/pmm.c\<close> has left: the frames of the blocks on the free
  queues of the zones it may allocate from. A request for one page takes exactly one of them, and
  fails only when there is none. What follows an allocation in page tables, objects and faults can so be
  said without the case that memory runs out.
\<close>

section \<open>Counting free pages\<close>

definition zone_free_pages :: "zone \<Rightarrow> nat" where
  "zone_free_pages z = (\<Sum>k < BUDDY_ORDERS. length (zn_orders z ! k) * 2 ^ k)"

definition free_in :: "zone list \<Rightarrow> nat" where
  "free_in zs = (\<Sum>z\<leftarrow>zs. if may_alloc z then zone_free_pages z else 0)"

definition free_pages :: "pmm \<Rightarrow> nat" where
  "free_pages pm = free_in (zone_list pm)"

lemma free_in_simps [simp]:
  "free_in [] = 0" "free_in (z # zs) = (if may_alloc z then zone_free_pages z else 0) + free_in zs"
  by (simp_all add: free_in_def)

lemma free_pages_cong [simp]:
  "free_pages (pm\<lparr>pm_pages := P\<rparr>) = free_pages pm" "free_pages (pm\<lparr>free_pagecnt := n\<rparr>) = free_pages pm"
  by (simp_all add: free_pages_def)

text \<open>One queue of a zone replaced.\<close>

lemma requeue:
  assumes "k < BUDDY_ORDERS" "length xs = BUDDY_ORDERS"
  shows "(\<Sum>i < BUDDY_ORDERS. length (xs[k := l] ! i) * 2 ^ i) + length (xs ! k) * 2 ^ k =
    (\<Sum>i < BUDDY_ORDERS. length (xs ! i) * 2 ^ i) + length l * (2 :: nat) ^ k"
proof -
  let ?I = "{..<BUDDY_ORDERS} - {k}"
  have "(\<Sum>i \<in> ?I. length (xs[k := l] ! i) * 2 ^ i) = (\<Sum>i \<in> ?I. length (xs ! i) * (2 :: nat) ^ i)"
    by (rule sum.cong) auto
  then show ?thesis
    using assms sum.remove [of "{..<BUDDY_ORDERS}" k "\<lambda>i. length (xs[k := l] ! i) * (2 :: nat) ^ i"]
      sum.remove [of "{..<BUDDY_ORDERS}" k "\<lambda>i. length (xs ! i) * (2 :: nat) ^ i"]
    by simp
qed

definition has_queues :: "zone \<Rightarrow> bool" where "has_queues z \<longleftrightarrow> length (zn_orders z) = BUDDY_ORDERS"

lemma take_free:
  assumes "zone_take z k n = Inr z'" "n \<in> set (zn_orders z ! k)" "has_queues z"
  shows "zone_free_pages z' + 2 ^ k = zone_free_pages z" "has_queues z'" "may_alloc z' = may_alloc z"
proof -
  let ?l = "remove1 n (zn_orders z ! k)"
  have k: "k < BUDDY_ORDERS" and z': "zn_orders z' = (zn_orders z)[k := ?l]" "may_alloc z' = may_alloc z"
    using assms by (auto simp: zone_take_def has_queues_def bindR_Inr_iff ld_Inr_iff)
  have "length (zn_orders z ! k) = Suc (length ?l)"
    using assms(2) by (metis One_nat_def Suc_pred length_pos_if_in_set length_remove1)
  then show "zone_free_pages z' + 2 ^ k = zone_free_pages z"
    using requeue [OF k, of "zn_orders z" ?l] assms(3) by (simp add: zone_free_pages_def z' has_queues_def)
  show "has_queues z'" "may_alloc z' = may_alloc z" using z' assms(3) by (simp_all add: has_queues_def)
qed

lemma put_free:
  assumes "zone_put z k (\<lambda>l. l @ [n]) = Inr z'" "has_queues z"
  shows "zone_free_pages z' = zone_free_pages z + 2 ^ k" "has_queues z'" "may_alloc z' = may_alloc z"
proof -
  let ?l = "zn_orders z ! k @ [n]"
  have k: "k < BUDDY_ORDERS" and z': "zn_orders z' = (zn_orders z)[k := ?l]" "may_alloc z' = may_alloc z"
    using assms by (auto simp: zone_put_def has_queues_def bindR_Inr_iff ld_Inr_iff)
  show "zone_free_pages z' = zone_free_pages z + 2 ^ k"
    using requeue [OF k, of "zn_orders z" ?l] assms(2) by (simp add: zone_free_pages_def z' has_queues_def)
  show "has_queues z'" "may_alloc z' = may_alloc z" using z' assms(2) by (simp_all add: has_queues_def)
qed

text \<open>Splitting gives back all but the block asked for.\<close>

lemma split_free:
  "split_block z P page buddy order desired = Inr (z', P') \<Longrightarrow> has_queues z \<Longrightarrow>
   zone_free_pages z' + 2 ^ desired = zone_free_pages z + 2 ^ order \<and> has_queues z' \<and> may_alloc z' = may_alloc z"
proof (induction z P page buddy order desired rule: split_block.induct)
  case (2 z P page buddy order desired)
  show ?case
  proof (cases "Suc order = desired")
    case False
    then obtain z1 b where s: "zone_put z order (\<lambda>l. l @ [buddy]) = Inr z1" "page_at P buddy = Inr b"
        "split_block z1 (P(buddy \<mapsto> b\<lparr>pg_order := order\<rparr>)) page (page + 2 ^ order div 2) order desired = Inr (z', P')"
      using 2(2) by (auto simp: bindR_Inr_iff)
    with "2.IH" [OF False s(1,2,3)] put_free [OF s(1) 2(3)] show ?thesis by simp
  next
    case True
    then have "split_block z P page buddy (Suc order) desired = Inr (z, P)" by (subst split_block.simps) simp
    with 2(2) have "z' = z" by simp
    with 2(3) True show ?thesis by blast
  qed
qed (auto split: if_splits)

lemma zone_alloc_free:
  assumes a: "zone_alloc z P d = Inr (r, z', P')" and q: "has_queues z"
  shows "may_alloc z' = may_alloc z"
    "case r of None \<Rightarrow> zone_free_pages z' = zone_free_pages z | Some _ \<Rightarrow> zone_free_pages z' + 2 ^ d = zone_free_pages z"
proof -
  consider "r = None" "z' = z"
    | n l where "r = Some n" "zn_orders z ! d = n # l" "zone_take z d n = Inr z'"
    | n l j z1 P1 where "r = Some n" "zn_orders z ! j = n # l" "zone_take z j n = Inr z1"
        "split_block z1 P n (n + 2 ^ j div 2) j d = Inr (z', P1)"
    using a by (auto simp: zone_alloc_def ensure_Inr_iff bindR_Inr_iff ld_Inr_iff split: if_splits list.splits)
  then have "may_alloc z' = may_alloc z \<and>
    (case r of None \<Rightarrow> zone_free_pages z' = zone_free_pages z | Some _ \<Rightarrow> zone_free_pages z' + 2 ^ d = zone_free_pages z)"
  proof cases
    case (2 n l)
    with take_free [OF 2(3) _ q] show ?thesis by simp
  next
    case (3 n l j z1 P1)
    note t = take_free [OF 3(3) _ q]
    have "n \<in> set (zn_orders z ! j)" using 3(2) by simp
    with t split_free [OF 3(4) t(2)] show ?thesis by (simp add: 3(1))
  qed simp
  then show "may_alloc z' = may_alloc z"
    "case r of None \<Rightarrow> zone_free_pages z' = zone_free_pages z | Some _ \<Rightarrow> zone_free_pages z' + 2 ^ d = zone_free_pages z"
    by blast+
qed

lemma no_free_pages:
  assumes "free_blocks z = {}"
  shows "zone_free_pages z = 0"
proof -
  have "set (zn_orders z ! k) = {}" if "k < BUDDY_ORDERS" for k
  proof (rule equals0I)
    fix x assume "x \<in> set (zn_orders z ! k)"
    with that have "(x, k) \<in> free_blocks z" by (simp add: free_blocks_def)
    with assms show False by simp
  qed
  then show ?thesis by (simp add: zone_free_pages_def)
qed

text \<open>The zones in turn.\<close>

lemma zones_alloc_free:
  "alloc_from_zones zs P d = Inr (r, zs', P') \<Longrightarrow> zones_ok rs zs P \<Longrightarrow> d < BUDDY_ORDERS \<Longrightarrow>
   (case r of None \<Rightarrow> free_in zs' = free_in zs \<and> (d = 0 \<longrightarrow> free_in zs = 0) | Some _ \<Rightarrow> free_in zs' + 2 ^ d = free_in zs)"
proof (induction zs arbitrary: zs')
  case (Cons z zs)
  have tail: "zones_ok rs zs P" and inv: "zone_inv rs z P {}" using Cons.prems(2) by simp_all
  have q: "has_queues z" using zone_invD(1) [OF inv] by (simp add: queues_ok_def has_queues_def)
  show ?case
  proof (cases "may_alloc z")
    case False
    then obtain zs1 where "alloc_from_zones zs P d = Inr (r, zs1, P')" "zs' = z # zs1"
      using Cons.prems(1) by (auto simp: bindR_Inr_iff)
    with Cons.IH [OF this(1) tail Cons.prems(3)] False show ?thesis by (auto split: option.splits)
  next
    case True
    obtain r1 z1 P1 where z1: "zone_alloc z P d = Inr (r1, z1, P1)"
      "r1 = None \<longrightarrow> z1 = z \<and> P1 = P \<and> (max_zone_order z < d \<or> (\<forall>n k. (n, k) \<in> free_blocks z \<longrightarrow> k < d))"
      using zone_alloc_ok [OF inv Cons.prems(3)] by (fastforce split: option.splits)
    note zf = zone_alloc_free [OF z1(1) q]
    show ?thesis
    proof (cases r1)
      case None
      then obtain zs1 where s: "alloc_from_zones zs P d = Inr (r, zs1, P')" "zs' = z # zs1"
        using Cons.prems(1) True z1 by (auto simp: bindR_Inr_iff)
      have "zone_free_pages z = 0" if "d = 0"
        by (rule no_free_pages) (use z1(2) None that in auto)
      with Cons.IH [OF s(1) tail Cons.prems(3)] s(2) True show ?thesis by (auto split: option.splits)
    next
      case (Some n)
      then have "r = Some n" "zs' = z1 # zs" using Cons.prems(1) True z1(1) by auto
      with zf Some True show ?thesis by simp
    qed
  qed
qed simp

text \<open>A request for one page is refused only when no page is free.\<close>

lemma alloc_order_free:
  assumes "pmm_alloc_order d pm = Inr (r, pm')" "pmm_ok pm" "d < BUDDY_ORDERS"
  shows "case r of None \<Rightarrow> free_pages pm' = free_pages pm \<and> (d = 0 \<longrightarrow> free_pages pm = 0)
    | Some _ \<Rightarrow> free_pages pm' + 2 ^ d = free_pages pm"
proof -
  obtain zs P where a: "alloc_from_zones (zone_list pm) (pm_pages pm) d = Inr (r, zs, P)"
      "pm' = charge r d (pm\<lparr>zone_list := zs, pm_pages := P\<rparr>)"
    using assms(1) by (auto simp: pmm_alloc_order_def bindR_Inr_iff)
  then have "free_pages pm' = free_in zs" by (simp add: charge_def free_pages_def)
  with zones_alloc_free [OF a(1), of "region_list pm"] assms(2,3) show ?thesis
    by (simp add: pmm_ok_def free_pages_def split: option.splits)
qed

lemma alloc_page_iff:
  assumes "pmm_alloc_order 0 pm = Inr (r, pm')" "pmm_ok pm"
  shows "r = None \<longleftrightarrow> free_pages pm = 0" "free_pages pm' = free_pages pm - 1"
  using alloc_order_free [OF assms] by (auto simp: BUDDY_ORDERS_def split: option.splits)

text \<open>The descriptors stay.\<close>

lemma alloc_order_dom:
  assumes "pmm_alloc_order d pm = Inr (r, pm')" "pmm_ok pm" "d < BUDDY_ORDERS"
  shows "dom (pm_pages pm') = dom (pm_pages pm)"
proof (cases r)
  case None
  then show ?thesis using pmm_alloc_order_ok [OF assms(2,3)] assms(1) by auto
next
  case (Some n)
  then have m: "\<exists>p q. pm_pages pm' n = Some p \<and> pm_pages pm n = Some q"
      "but_order ((pm_pages pm')(n := None)) = but_order ((pm_pages pm)(n := None))"
    using pmm_alloc_order_ok [OF assms(2,3)] assms(1) by auto
  have "(pm_pages pm' x = None) = (pm_pages pm x = None)" for x
  proof (cases "x = n")
    case False
    then have "but_order (pm_pages pm') x = but_order (pm_pages pm) x"
      using m(2) by (metis (no_types) but_order_def fun_upd_other)
    then show ?thesis by (cases "pm_pages pm' x"; cases "pm_pages pm x") (auto simp: but_order_def)
  qed (use m(1) in auto)
  then show ?thesis by (simp add: dom_def)
qed

end
