(* ===== verification/VmObject.thy ===== *)
theory VmObject
  imports RbTree PageStock
begin

text \<open>
  VM objects and their anonymous pager: \<^verbatim>\<open>kernel/vm/object.c\<close>, \<^verbatim>\<open>kernel/vm/aobj.c\<close>, the page tree
  of \<^verbatim>\<open>kernel/vm/page.c\<close> and \<^verbatim>\<open>page_zero\<close> of \<^verbatim>\<open>kernel/vm/pmm.c\<close>. An object's tree holds
  pointers to page descriptors; an element of it is the descriptor's offset, the key, and its
  frame number. Physical memory is the allocator's state together with the bytes of each frame.
  Locks are left out: every operation runs with the object's lock held.
\<close>

unbundle bit_operations_syntax

section \<open>The page tree\<close>

type_synonym opage = "u64 \<times> nat"

definition vm_page_tree_cmp :: "opage \<Rightarrow> opage \<Rightarrow> int" where
  "vm_page_tree_cmp a b = (if fst a < fst b then -1 else if fst a > fst b then 1 else 0)"

interpretation ptree: keyed_compare vm_page_tree_cmp fst
  by unfold_locales (auto simp: vm_page_tree_cmp_def)

section \<open>Physical memory\<close>

record phys =
  ph_pmm :: pmm
  ph_mem :: "nat \<Rightarrow> nat \<Rightarrow> u8"

definition page_zero :: "nat option \<Rightarrow> nat \<Rightarrow> phys \<Rightarrow> phys res" where
  "page_zero page order ph =
     (case page of
        None \<Rightarrow> Inl NullDeref
      | Some n \<Rightarrow>
          bindR (page_at (pm_pages (ph_pmm ph)) n) (\<lambda>p.
            Inr (ph\<lparr>ph_mem := \<lambda>f. if pg_pfn p \<le> f \<and> f < pg_pfn p + 2 ^ order
                                   then (\<lambda>_. 0) else ph_mem ph f\<rparr>)))"

section \<open>Objects and pagers\<close>

text \<open>A pager reads and frees pages for an object, named by its number.\<close>

record pagerops =
  pgo_get :: "nat \<Rightarrow> u64 \<Rightarrow> nat \<Rightarrow> phys \<Rightarrow> (status \<times> nat list \<times> phys) res"
  pgo_cleanup :: "opage rbtree \<Rightarrow> phys \<Rightarrow> phys res"

record vm_object =
  memq :: "opage rbtree"
  pg_ops :: pagerops
  vo_refcnt :: nat

type_synonym objects = "nat \<Rightarrow> vm_object option"

definition vm_object_common_init :: "pagerops \<Rightarrow> vm_object" where
  "vm_object_common_init pgops = \<lparr>memq = Null, pg_ops = pgops, vo_refcnt = 1\<rparr>"

definition LOOKUP_ONLY :: u32 where "LOOKUP_ONLY = 1"

text \<open>\<open>pagep\<close> is what the caller's variable holds before: a pager error leaves it.\<close>

definition vm_lookuppage :: "nat \<Rightarrow> vm_object \<Rightarrow> u64 \<Rightarrow> u32 \<Rightarrow> nat option \<Rightarrow> phys \<Rightarrow>
    (status \<times> nat option \<times> vm_object \<times> phys) res" where
  "vm_lookuppage oid obj offset flags pagep ph =
     (case rb_find (vm_page_tree_cmp (offset, 0)) (memq obj) of
        Some (_, pg) \<Rightarrow> Inr (YAK_SUCCESS, Some pg, obj, ph)
      | None \<Rightarrow>
          if flags AND LOOKUP_ONLY \<noteq> 0 then Inr (YAK_NOENT, None, obj, ph)
          else bindR (pgo_get (pg_ops obj) oid offset 1 ph) (\<lambda>(res, pages, ph1).
            if IS_ERR res then Inr (res, pagep, obj, ph1)
            else case pages of
              [] \<Rightarrow> Inl NullDeref
            | pg # _ \<Rightarrow>
                bindR (page_at (pm_pages (ph_pmm ph1)) pg) (\<lambda>p.
                bindR (rb_insert vm_page_tree_cmp (memq obj) (pg_offset p, pg)) (\<lambda>(_, memq').
                  Inr (YAK_SUCCESS, Some pg, obj\<lparr>memq := memq'\<rparr>, ph1)))))"

section \<open>The anonymous pager\<close>

fun anon_pages :: "nat \<Rightarrow> u64 \<Rightarrow> nat \<Rightarrow> phys \<Rightarrow> (nat list \<times> phys) res" where
  "anon_pages oid offset 0 ph = Inr ([], ph)"
| "anon_pages oid offset (Suc i) ph =
     bindR (vm_pagealloc (Some oid) offset (ph_pmm ph)) (\<lambda>(page, pm).
     bindR (page_zero page 0 (ph\<lparr>ph_pmm := pm\<rparr>)) (\<lambda>ph1.
     bindR (anon_pages oid offset i ph1) (\<lambda>(pages, ph2).
       Inr (the page # pages, ph2))))"

definition anon_pager_get :: "nat \<Rightarrow> u64 \<Rightarrow> nat \<Rightarrow> phys \<Rightarrow> (status \<times> nat list \<times> phys) res" where
  "anon_pager_get oid offset npages ph =
     ensure (offset AND 0xFFF = 0) AssertFail (
     bindR (anon_pages oid offset npages ph) (\<lambda>(pages, ph').
       Inr (YAK_SUCCESS, pages, ph')))"

fun deref_pages :: "nat list \<Rightarrow> pmm \<Rightarrow> pmm res" where
  "deref_pages [] pm = Inr pm"
| "deref_pages (n # ns) pm = bindR (page_deref n pm) (deref_pages ns)"

definition anon_pager_cleanup :: "opage rbtree \<Rightarrow> phys \<Rightarrow> phys res" where
  "anon_pager_cleanup tree ph =
     bindR (deref_pages (map snd (inorder tree)) (ph_pmm ph)) (\<lambda>pm. Inr (ph\<lparr>ph_pmm := pm\<rparr>))"

definition anon_pagerops :: pagerops where
  "anon_pagerops = \<lparr>pgo_get = anon_pager_get, pgo_cleanup = anon_pager_cleanup\<rparr>"

text \<open>\<open>got\<close>: what \<open>kzalloc\<close> returned. A null pointer is not tested for before the object is
  initialised.\<close>

definition vm_aobj_create :: "nat option \<Rightarrow> objects \<Rightarrow> (nat \<times> objects) res" where
  "vm_aobj_create got objs =
     (case got of
        None \<Rightarrow> Inl NullDeref
      | Some oid \<Rightarrow> Inr (oid, objs(oid \<mapsto> vm_object_common_init anon_pagerops)))"

section \<open>Reference counts of objects\<close>

definition object_at :: "objects \<Rightarrow> nat \<Rightarrow> vm_object res" where
  "object_at objs oid = (case objs oid of None \<Rightarrow> Inl NullDeref | Some obj \<Rightarrow> Inr obj)"

definition vm_object_ref :: "nat \<Rightarrow> objects \<Rightarrow> objects res" where
  "vm_object_ref oid objs =
     bindR (object_at objs oid) (\<lambda>obj.
       Inr (objs(oid \<mapsto> obj\<lparr>vo_refcnt := (vo_refcnt obj + 1) mod 2 ^ 64\<rparr>)))"

text \<open>The anonymous pager frees the object itself, after its pages.\<close>

definition vm_object_cleanup :: "nat \<Rightarrow> objects \<Rightarrow> phys \<Rightarrow> (objects \<times> phys) res" where
  "vm_object_cleanup oid objs ph =
     bindR (object_at objs oid) (\<lambda>obj.
     bindR (pgo_cleanup (pg_ops obj) (memq obj) ph) (\<lambda>ph'.
       Inr (objs(oid := None), ph')))"

definition vm_object_deref :: "nat \<Rightarrow> objects \<Rightarrow> phys \<Rightarrow> (objects \<times> phys) res" where
  "vm_object_deref oid objs ph =
     bindR (object_at objs oid) (\<lambda>obj.
       let refcnt = (if vo_refcnt obj = 0 then 2 ^ 64 - 1 else vo_refcnt obj - 1);
           objs1 = objs(oid \<mapsto> obj\<lparr>vo_refcnt := refcnt\<rparr>)
       in if vo_refcnt obj = 1 then vm_object_cleanup oid objs1 ph else Inr (objs1, ph))"

section \<open>The invariant of an anonymous object\<close>

definition obj_ok :: "vm_object \<Rightarrow> pmm \<Rightarrow> bool" where
  "obj_ok obj pm \<longleftrightarrow> pg_ops obj = anon_pagerops \<and> ptree.tree_ok (memq obj) \<and>
     distinct (map snd (inorder (memq obj))) \<and>
     (\<forall>(off, n) \<in> set (inorder (memq obj)). n \<in> owned_pages pm \<and>
        (\<exists>p. pm_pages pm n = Some p \<and> pg_offset p = off))"

lemma object_create_ok: "obj_ok (vm_object_common_init anon_pagerops) pm"
  by (simp add: obj_ok_def vm_object_common_init_def ptree.tree_ok_def rb_ok_def)

text \<open>The owner and the offset of a page are not read by the allocator.\<close>

lemma set_owner_ok:
  fixes v :: "nat option" and off :: u64
  assumes inv: "pmm_inv pm" and p: "pm_pages pm n = Some p"
    and pm': "pm' = pm\<lparr>pm_pages := (pm_pages pm)(n \<mapsto> p\<lparr>pg_vmobj := v, pg_offset := off\<rparr>)\<rparr>"
  shows "pmm_inv pm'" "owned_pages pm' = owned_pages pm"
proof -
  let ?P = "pm_pages pm" and ?P' = "pm_pages pm'"
  have P': "?P' = ?P(n \<mapsto> p\<lparr>pg_vmobj := v, pg_offset := off\<rparr>)" by (simp add: pm')
  have fr: "frames_of z ?P' = frames_of z ?P" "mxo ?P' = mxo ?P" for z
    unfolding P' by (rule frames_upd [where n = n and p = p]; use p in simp)+
  have hb: "held_blocks z ?P' = held_blocks z ?P" for z
    unfolding held_blocks_def fr using p by (auto simp: P' split: if_splits)
  have "zone_inv (region_list pm) z ?P' {}" if z: "zone_inv (region_list pm) z ?P {}" for z
  proof (rule zone_inv_frame [OF z zone_invD(1) [OF z] same_zone_refl fr])
    show "pg_pfn (the (?P' x)) = pg_pfn (the (?P x))" for x using p by (simp add: P')
    show "free_blocks z \<union> held_blocks z ?P' \<union> {} = free_blocks z \<union> held_blocks z ?P \<union> {}"
      by (simp add: hb)
    fix m j assume m: "(m, j) \<in> free_blocks z"
    show "pg_order (the (?P' m)) = j" "pg_shares (the (?P' m)) = 0"
      using zone_invD(7,8) [OF z m] p by (auto simp: P')
  qed (use zone_invD(4) [OF z] in simp_all)
  moreover have "\<forall>x q. ?P' x = Some q \<longrightarrow> pg_flags q AND VM_PG_FAKE = 0"
    using inv p by (auto simp: P' pmm_inv_def)
  ultimately show "pmm_inv pm'" using inv by (auto simp: pmm_inv_def pmm_ok_def pm')
  have "held pm' = held pm" by (simp add: held_def hb) (simp add: pm')
  moreover have "page_unshared ?P' m \<longleftrightarrow> page_unshared ?P m" for m
    using p by (auto simp: page_unshared_def P')
  ultimately show "owned_pages pm' = owned_pages pm" by (simp add: owned_pages_def)
qed

lemma held_pfn:
  assumes "pmm_ok pm" "(n, k) \<in> held pm"
  shows "\<exists>p. pm_pages pm n = Some p \<and> pg_pfn p = n"
proof -
  obtain z where z: "zone_inv (region_list pm) z (pm_pages pm) {}" "(n, k) \<in> held_blocks z (pm_pages pm)"
    using assms by (auto simp: pmm_ok_def held_def)
  then show ?thesis using zone_inv_page [OF z(1), of n k] by blast
qed

definition offset_of :: "pmm \<Rightarrow> nat \<Rightarrow> u64 option" where
  "offset_of pm n = map_option pg_offset (pm_pages pm n)"

lemma but_order_offset:
  assumes "but_order (P(n := None)) = but_order (Q(n := None))" "m \<noteq> n"
  shows "map_option pg_offset (P m) = map_option pg_offset (Q m)"
proof -
  have "but_order P m = but_order Q m" using assms by (metis (no_types) but_order_def fun_upd_other)
  then show ?thesis
    unfolding but_order_def by (cases "P m"; cases "Q m") (auto dest: arg_cong [of _ _ pg_offset])
qed

lemma vm_pagealloc_ok:
  assumes inv: "pmm_inv pm"
  shows "\<exists>r pm'. vm_pagealloc owner off pm = Inr (r, pm') \<and> pmm_inv pm' \<and>
     (case r of
        None \<Rightarrow> owned_pages pm' = owned_pages pm
      | Some n \<Rightarrow> n \<notin> owned_pages pm \<and> owned_pages pm' = insert n (owned_pages pm) \<and>
          (\<exists>p. pm_pages pm' n = Some p \<and> pg_pfn p = n \<and> pg_offset p = off) \<and>
          (\<forall>m. m \<noteq> n \<longrightarrow> offset_of pm' m = offset_of pm m))"
proof -
  obtain r pm1 where a: "pmm_alloc_order 0 pm = Inr (r, pm1)" "pmm_inv pm1"
     "case r of None \<Rightarrow> owned_pages pm1 = owned_pages pm
      | Some n \<Rightarrow> n \<notin> owned_pages pm \<and> owned_pages pm1 = insert n (owned_pages pm)"
    using pages.p_alloc [OF inv] by blast
  have ok: "pmm_ok pm" using inv by (simp add: pmm_inv_def)
  show ?thesis
  proof (cases r)
    case None
    with a show ?thesis by (simp add: vm_pagealloc_def)
  next
    case (Some n)
    have bo: "but_order ((pm_pages pm1)(n := None)) = but_order ((pm_pages pm)(n := None))"
      using pmm_alloc_order_ok [OF ok, of 0] a(1) Some by (auto simp: BUDDY_ORDERS_def)
    have n: "n \<in> owned_pages pm1" using a(3) Some by simp
    then obtain p where p: "pm_pages pm1 n = Some p" "pg_pfn p = n"
      using held_pfn [of pm1 n 0] a(2) by (auto simp: owned_pages_def pmm_inv_def)
    define pm2 where "pm2 = pm1\<lparr>pm_pages := (pm_pages pm1)(n \<mapsto> p\<lparr>pg_vmobj := owner, pg_offset := off\<rparr>)\<rparr>"
    note own = set_owner_ok [OF a(2) p(1) pm2_def]
    have "vm_pagealloc owner off pm = Inr (Some n, pm2)"
      using a(1) Some p by (simp add: vm_pagealloc_def page_at_def pm2_def)
    moreover have "\<forall>m. m \<noteq> n \<longrightarrow> offset_of pm2 m = offset_of pm m"
      using but_order_offset [OF bo] by (simp add: pm2_def offset_of_def)
    moreover have "pm_pages pm2 n = Some (p\<lparr>pg_vmobj := owner, pg_offset := off\<rparr>)" by (simp add: pm2_def)
    ultimately show ?thesis using own a(3) Some p(2) by simp
  qed
qed

lemma vm_pagealloc_free:
  assumes "vm_pagealloc owner off pm = Inr (r, pm')" "pmm_inv pm"
  shows "r = None \<longleftrightarrow> free_pages pm = 0" "free_pages pm' = free_pages pm - 1" "dom (pm_pages pm') = dom (pm_pages pm)"
proof -
  have ok: "pmm_ok pm" using assms(2) by (simp add: pmm_inv_def)
  obtain r1 pm1 where a: "pmm_alloc_order 0 pm = Inr (r1, pm1)" using pages.p_alloc [OF assms(2)] by blast
  have e: "r1 = r" "zone_list pm' = zone_list pm1" "dom (pm_pages pm') = dom (pm_pages pm1)"
  proof -
    have "r1 = r \<and> zone_list pm' = zone_list pm1 \<and> dom (pm_pages pm') = dom (pm_pages pm1)"
    proof (cases r1)
      case None
      then show ?thesis using assms(1) a by (simp add: vm_pagealloc_def)
    next
      case (Some n)
      then obtain p where "pm_pages pm1 n = Some p" "r = Some n"
          "pm' = pm1\<lparr>pm_pages := (pm_pages pm1)(n \<mapsto> p\<lparr>pg_vmobj := owner, pg_offset := off\<rparr>)\<rparr>"
        using assms(1) a by (auto simp: vm_pagealloc_def bindR_Inr_iff)
      then show ?thesis using Some by auto
    qed
    then show "r1 = r" "zone_list pm' = zone_list pm1" "dom (pm_pages pm') = dom (pm_pages pm1)" by simp_all
  qed
  note f = alloc_page_iff [OF a ok]
  show "r = None \<longleftrightarrow> free_pages pm = 0" "free_pages pm' = free_pages pm - 1" using f e by (simp_all add: free_pages_def)
  show "dom (pm_pages pm') = dom (pm_pages pm)"
    unfolding e(3) by (rule alloc_order_dom [OF a ok]) (simp add: BUDDY_ORDERS_def)
qed

section \<open>Looking a page up\<close>

lemma find_unique:
  "x \<in> set xs \<Longrightarrow> P x \<Longrightarrow> (\<And>y. y \<in> set xs \<Longrightarrow> y \<noteq> x \<Longrightarrow> \<not> P y) \<Longrightarrow> List.find P xs = Some x"
  by (induction xs) auto

lemma tree_keys_distinct:
  assumes "ptree.tree_ok t"
  shows "distinct (map fst (inorder t))"
proof -
  have "sorted_wrt (<) (map fst (inorder t))" using assms by (simp add: ptree.tree_ok_def sorted_wrt_map)
  then show ?thesis by (simp add: strict_sorted_iff)
qed

text \<open>A page the object has is returned, and nothing changes.\<close>

lemma lookup_present:
  assumes ok: "ptree.tree_ok (memq obj)" and pg: "(off, n) \<in> set (inorder (memq obj))"
  shows "vm_lookuppage oid obj off flags pagep ph = Inr (YAK_SUCCESS, Some n, obj, ph)"
proof -
  have asc: "sorted_wrt (\<lambda>x y. fst x < fst y) (inorder (memq obj))" using ok by (simp add: ptree.tree_ok_def)
  have "distinct (map fst (inorder (memq obj)))" using tree_keys_distinct [OF ok] .
  then have "List.find (\<lambda>x. fst x = off) (inorder (memq obj)) = Some (off, n)"
    using pg by (intro find_unique) (auto dest: eq_key_imp_eq_value)
  then show ?thesis using ptree.find_eq [OF asc, of "(off, 0)"] by (simp add: vm_lookuppage_def)
qed

lemma lookup_absent:
  assumes "ptree.tree_ok (memq obj)" "off \<notin> fst ` set (inorder (memq obj))"
  shows "rb_find (vm_page_tree_cmp (off, 0)) (memq obj) = None"
  using assms ptree.find_eq [of "memq obj" "(off, 0)"] by (force simp: ptree.tree_ok_def find_None_iff)

lemma anon_one_page:
  "off AND 0xFFF = 0 \<Longrightarrow> vm_pagealloc (Some oid) off (ph_pmm ph) = Inr (r, pm) \<Longrightarrow>
   anon_pager_get oid off 1 ph =
     (case r of None \<Rightarrow> Inl NullDeref
      | Some n \<Rightarrow> bindR (page_at (pm_pages pm) n) (\<lambda>p.
          Inr (YAK_SUCCESS, [n], ph\<lparr>ph_pmm := pm, ph_mem := \<lambda>f.
            if f = pg_pfn p then (\<lambda>_. 0) else ph_mem ph f\<rparr>)))"
proof -
  have one: "m \<le> f \<and> f < Suc m \<longleftrightarrow> f = m" for m f :: nat by auto
  assume "off AND 0xFFF = 0" "vm_pagealloc (Some oid) off (ph_pmm ph) = Inr (r, pm)"
  then show ?thesis
    by (cases r; cases "pm_pages pm (the r)")
       (simp_all add: anon_pager_get_def page_zero_def page_at_def one cong: if_cong)
qed

text \<open>A page the object does not have is allocated, zeroed and entered in the tree; when no page is
  left, and only then, the pager writes through a null pointer.\<close>

lemma lookup_fill:
  assumes ok: "obj_ok obj (ph_pmm ph)" and inv: "pmm_inv (ph_pmm ph)"
    and off: "off AND 0xFFF = 0" "off \<notin> fst ` set (inorder (memq obj))" "flags AND LOOKUP_ONLY = 0"
  shows "if free_pages (ph_pmm ph) = 0 then vm_lookuppage oid obj off flags pagep ph = Inl NullDeref
    else (\<exists>n obj' ph'. vm_lookuppage oid obj off flags pagep ph = Inr (YAK_SUCCESS, Some n, obj', ph') \<and>
       obj_ok obj' (ph_pmm ph') \<and> pmm_inv (ph_pmm ph') \<and>
       n \<notin> owned_pages (ph_pmm ph) \<and> owned_pages (ph_pmm ph') = insert n (owned_pages (ph_pmm ph)) \<and>
       free_pages (ph_pmm ph') + 1 = free_pages (ph_pmm ph) \<and>
       set (inorder (memq obj')) = insert (off, n) (set (inorder (memq obj))) \<and>
       ph_mem ph' n = (\<lambda>_. 0) \<and> (\<forall>m. m \<noteq> n \<longrightarrow> ph_mem ph' m = ph_mem ph m))"
proof -
  have tok: "ptree.tree_ok (memq obj)" and ops: "pg_ops obj = anon_pagerops"
    using ok by (auto simp: obj_ok_def)
  obtain r pm where a: "vm_pagealloc (Some oid) off (ph_pmm ph) = Inr (r, pm)" "pmm_inv pm"
    "case r of
        None \<Rightarrow> owned_pages pm = owned_pages (ph_pmm ph)
      | Some n \<Rightarrow> n \<notin> owned_pages (ph_pmm ph) \<and> owned_pages pm = insert n (owned_pages (ph_pmm ph)) \<and>
          (\<exists>p. pm_pages pm n = Some p \<and> pg_pfn p = n \<and> pg_offset p = off) \<and>
          (\<forall>m. m \<noteq> n \<longrightarrow> offset_of pm m = offset_of (ph_pmm ph) m)"
    using vm_pagealloc_ok [OF inv] by blast
  note get = anon_one_page [OF off(1) a(1)] and free = vm_pagealloc_free(1,2) [OF a(1) inv]
  have look: "vm_lookuppage oid obj off flags pagep ph =
      bindR (anon_pager_get oid off 1 ph) (\<lambda>(res, pages, ph1).
            if IS_ERR res then Inr (res, pagep, obj, ph1)
            else case pages of
              [] \<Rightarrow> Inl NullDeref
            | pg # _ \<Rightarrow>
                bindR (page_at (pm_pages (ph_pmm ph1)) pg) (\<lambda>p.
                bindR (rb_insert vm_page_tree_cmp (memq obj) (pg_offset p, pg)) (\<lambda>(_, memq').
                  Inr (YAK_SUCCESS, Some pg, obj\<lparr>memq := memq'\<rparr>, ph1))))"
    using lookup_absent [OF tok off(2)] off(3) ops by (simp add: vm_lookuppage_def anon_pagerops_def)
  show ?thesis
  proof (cases r)
    case None
    with look get free show ?thesis by simp
  next
    case (Some n)
    then obtain p where n: "n \<notin> owned_pages (ph_pmm ph)" "owned_pages pm = insert n (owned_pages (ph_pmm ph))"
        "pm_pages pm n = Some p" "pg_pfn p = n" "pg_offset p = off"
        "\<And>m. m \<noteq> n \<Longrightarrow> offset_of pm m = offset_of (ph_pmm ph) m"
      using a(3) by auto
    define ph' where "ph' = ph\<lparr>ph_pmm := pm, ph_mem := \<lambda>f. if f = n then (\<lambda>_. 0) else ph_mem ph f\<rparr>"
    have get': "anon_pager_get oid off 1 ph = Inr (YAK_SUCCESS, [n], ph')"
      using get Some n by (simp add: page_at_def ph'_def)
    obtain t where t: "rb_insert vm_page_tree_cmp (memq obj) (off, n) = Inr (None, t)" "ptree.tree_ok t"
        "inorder t = filter (\<lambda>x. fst x < off) (inorder (memq obj)) @ (off, n) #
           filter (\<lambda>x. off < fst x) (inorder (memq obj))"
      using ptree.insert_new [OF tok, of "(off, n)"] off(2) by auto
    have elems: "set (inorder t) = insert (off, n) (set (inorder (memq obj)))"
      using off(2) unfolding t(3) by (force simp: linorder_neq_iff)
    have old: "m \<in> owned_pages (ph_pmm ph) \<and> offset_of (ph_pmm ph) m = Some off'"
      if "(off', m) \<in> set (inorder (memq obj))" for off' m
      using ok that by (force simp: obj_ok_def offset_of_def)
    then have fresh: "n \<notin> snd ` set (inorder (memq obj))" using n(1) by force
    have "distinct (inorder t)" using tree_keys_distinct [OF t(2)] by (simp add: distinct_map)
    moreover have "inj_on snd (set (inorder t))"
      using ok fresh unfolding elems by (auto simp: obj_ok_def distinct_map)
    ultimately have "distinct (map snd (inorder t))" by (simp add: distinct_map)
    moreover have "m \<in> owned_pages pm \<and> (\<exists>q. pm_pages pm m = Some q \<and> pg_offset q = off')"
      if "(off', m) \<in> set (inorder t)" for off' m
    proof (cases "m = n")
      case True
      with that elems fresh have "off' = off" by force
      with True n show ?thesis by simp
    next
      case False
      with that elems old [of off' m] n(2) n(6) [OF False] show ?thesis by (auto simp: offset_of_def)
    qed
    ultimately have "obj_ok (obj\<lparr>memq := t\<rparr>) pm" using t(2) ops by (auto simp: obj_ok_def)
    moreover have "vm_lookuppage oid obj off flags pagep ph = Inr (YAK_SUCCESS, Some n, obj\<lparr>memq := t\<rparr>, ph')"
      using look get' t(1) n(3,5) by (simp add: page_at_def ph'_def)
    ultimately show ?thesis using a(2) n(1,2) elems free Some by (simp add: ph'_def)
  qed
qed

section \<open>Releasing an object\<close>

lemma deref_pages_ok:
  "pmm_inv pm \<Longrightarrow> distinct ns \<Longrightarrow> set ns \<subseteq> owned_pages pm \<Longrightarrow>
   \<exists>pm'. deref_pages ns pm = Inr pm' \<and> pmm_inv pm' \<and> owned_pages pm' = owned_pages pm - set ns"
proof (induction ns arbitrary: pm)
  case (Cons n ns)
  then obtain pm1 where d: "page_deref n pm = Inr pm1" "pmm_inv pm1" "owned_pages pm1 = owned_pages pm - {n}"
    using pages.p_free [of pm n] by auto
  then have "\<exists>pm'. deref_pages ns pm1 = Inr pm' \<and> pmm_inv pm' \<and> owned_pages pm' = owned_pages pm1 - set ns"
    using Cons by (intro Cons.IH) auto
  with d show ?case by auto
qed simp

text \<open>Dropping the last reference gives back exactly the pages of the object.\<close>

lemma object_deref_last:
  assumes "objs oid = Some obj" "vo_refcnt obj = 1" "obj_ok obj (ph_pmm ph)" "pmm_inv (ph_pmm ph)"
  shows "\<exists>ph'. vm_object_deref oid objs ph = Inr (objs(oid := None), ph') \<and> pmm_inv (ph_pmm ph') \<and>
     owned_pages (ph_pmm ph') = owned_pages (ph_pmm ph) - snd ` set (inorder (memq obj))"
proof -
  have "set (map snd (inorder (memq obj))) \<subseteq> owned_pages (ph_pmm ph)"
    using assms(3) by (auto simp: obj_ok_def)
  then obtain pm' where "deref_pages (map snd (inorder (memq obj))) (ph_pmm ph) = Inr pm'" "pmm_inv pm'"
      "owned_pages pm' = owned_pages (ph_pmm ph) - snd ` set (inorder (memq obj))"
    using deref_pages_ok [OF assms(4), of "map snd (inorder (memq obj))"] assms(3) by (auto simp: obj_ok_def)
  with assms show ?thesis
    by (simp add: vm_object_deref_def object_at_def vm_object_cleanup_def obj_ok_def anon_pagerops_def
        anon_pager_cleanup_def)
qed

end
