(* ===== verification/VmState.thy ===== *)
theory VmState
  imports VmObject
begin

text \<open>
  The state the virtual-memory code works on: physical memory, the frames that hold page tables
  (\<^verbatim>\<open>kernel/vm/generic_pmap.c\<close>), and the heap objects of \<^verbatim>\<open>kernel/vm/object.c\<close>,
  \<^verbatim>\<open>kernel/vm/anon.c\<close> and \<^verbatim>\<open>kernel/vm/amap.c\<close>, each named by a number standing for its address.
  A frame used as a page table is read and written by entries, never by bytes, so its entries are
  kept beside the bytes. \<open>kz\<close> says, call by call, whether the next heap allocation succeeds
  (those after the end of the list do); addresses are taken from a counter.
\<close>

section \<open>Data\<close>

record vm_anon =
  an_locked :: bool
  an_page :: "nat option"
  an_offset :: u64
  an_refcnt :: nat

type_synonym amap_l1 = "nat \<Rightarrow> nat option"
type_synonym amap_l2 = "nat \<Rightarrow> amap_l1 option"
type_synonym amap_l3 = "nat \<Rightarrow> amap_l2 option"

record vm_amap =
  am_refcnt :: nat
  am_obj :: nat
  am_l3 :: "amap_l3 option"

record vm =
  vm_phys :: phys
  vm_tab :: "nat \<Rightarrow> nat \<Rightarrow> u64"
  vm_objs :: objects
  vm_anons :: "nat \<Rightarrow> vm_anon option"
  vm_amaps :: "nat \<Rightarrow> vm_amap option"
  vm_next :: nat
  vm_kz :: "bool list"
  vm_pagefaults :: u64

abbreviation vm_pmm :: "vm \<Rightarrow> pmm" where
  "vm_pmm s \<equiv> ph_pmm (vm_phys s)"

abbreviation vm_mem :: "vm \<Rightarrow> nat \<Rightarrow> nat \<Rightarrow> u8" where
  "vm_mem s \<equiv> ph_mem (vm_phys s)"

definition set_pmm :: "pmm \<Rightarrow> vm \<Rightarrow> vm" where
  "set_pmm pm s = s\<lparr>vm_phys := vm_phys s\<lparr>ph_pmm := pm\<rparr>\<rparr>"

lemma set_pmm_simps [simp]:
  "vm_pmm (set_pmm pm s) = pm" "vm_mem (set_pmm pm s) = vm_mem s" "vm_tab (set_pmm pm s) = vm_tab s"
  "vm_objs (set_pmm pm s) = vm_objs s" "vm_anons (set_pmm pm s) = vm_anons s"
  "vm_amaps (set_pmm pm s) = vm_amaps s" "vm_next (set_pmm pm s) = vm_next s"
  by (simp_all add: set_pmm_def)

section \<open>The heap\<close>

definition kalloc :: "vm \<Rightarrow> nat option \<times> vm" where
  "kalloc s =
     (case vm_kz s of
        False # bs \<Rightarrow> (None, s\<lparr>vm_kz := bs\<rparr>)
      | True # bs \<Rightarrow> (Some (vm_next s), s\<lparr>vm_kz := bs, vm_next := vm_next s + 1\<rparr>)
      | [] \<Rightarrow> (Some (vm_next s), s\<lparr>vm_next := vm_next s + 1\<rparr>))"

text \<open>An allocation whose result is not tested for null before it is written through.\<close>

definition kalloc_unchecked :: "fault \<Rightarrow> vm \<Rightarrow> (nat \<times> vm) res" where
  "kalloc_unchecked e s = (case kalloc s of (None, _) \<Rightarrow> Inl e | (Some a, s') \<Rightarrow> Inr (a, s'))"

text \<open>The heap allocator changes nothing but its own counters.\<close>

definition same_vm :: "vm \<Rightarrow> vm \<Rightarrow> bool" where
  "same_vm s s' \<longleftrightarrow> s' = s\<lparr>vm_next := vm_next s', vm_kz := vm_kz s'\<rparr> \<and> vm_next s \<le> vm_next s'"

lemma same_vm_simps:
  assumes "same_vm s s'"
  shows "vm_phys s' = vm_phys s" "vm_tab s' = vm_tab s" "vm_objs s' = vm_objs s"
    "vm_anons s' = vm_anons s" "vm_amaps s' = vm_amaps s" "vm_next s \<le> vm_next s'"
proof -
  have s': "s' = s\<lparr>vm_next := vm_next s', vm_kz := vm_kz s'\<rparr>" and le: "vm_next s \<le> vm_next s'"
    using assms by (auto simp: same_vm_def)
  show "vm_phys s' = vm_phys s" "vm_tab s' = vm_tab s" "vm_objs s' = vm_objs s"
    "vm_anons s' = vm_anons s" "vm_amaps s' = vm_amaps s"
    by (subst s', simp)+
  show "vm_next s \<le> vm_next s'" by (rule le)
qed

lemma kalloc_cases:
  "(r, s') = kalloc s \<Longrightarrow> same_vm s s' \<and>
     (case r of None \<Rightarrow> vm_next s' = vm_next s | Some a \<Rightarrow> a = vm_next s \<and> vm_next s' = Suc a)"
  by (auto simp: kalloc_def same_vm_def split: list.splits bool.splits)

lemma kalloc_plenty [simp]: "vm_kz s = [] \<Longrightarrow> kalloc s = (Some (vm_next s), s\<lparr>vm_next := vm_next s + 1\<rparr>)"
  by (simp add: kalloc_def)

section \<open>References to objects\<close>

definition obj_ref :: "nat \<Rightarrow> vm \<Rightarrow> vm res" where
  "obj_ref oid s = bindR (vm_object_ref oid (vm_objs s)) (\<lambda>objs. Inr (s\<lparr>vm_objs := objs\<rparr>))"

definition obj_deref :: "nat \<Rightarrow> vm \<Rightarrow> vm res" where
  "obj_deref oid s =
     bindR (vm_object_deref oid (vm_objs s) (vm_phys s)) (\<lambda>(objs, ph).
       Inr (s\<lparr>vm_objs := objs, vm_phys := ph\<rparr>))"

definition aobj_create :: "vm \<Rightarrow> (nat \<times> vm) res" where
  "aobj_create s =
     (case kalloc s of (got, s1) \<Rightarrow>
        bindR (vm_aobj_create got (vm_objs s1)) (\<lambda>(oid, objs). Inr (oid, s1\<lparr>vm_objs := objs\<rparr>)))"

end
