(* ===== verification/Amap.thy ===== *)
theory Amap
  imports VmState
begin

text \<open>
  Anonymous memory: \<^verbatim>\<open>kernel/vm/anon.c\<close> (one private page with a reference count) and
  \<^verbatim>\<open>kernel/vm/amap.c\<close> (the three-level table from offsets to anons that a copy-on-write map
  entry uses, and its copy at fork, which shares every anon).
\<close>

unbundle bit_operations_syntax

section \<open>Anons\<close>

definition anon_at :: "nat \<Rightarrow> vm \<Rightarrow> vm_anon res" where
  "anon_at a s = (case vm_anons s a of None \<Rightarrow> Inl NullDeref | Some an \<Rightarrow> Inr an)"

definition put_anon :: "nat \<Rightarrow> vm_anon \<Rightarrow> vm \<Rightarrow> vm" where
  "put_anon a an s = s\<lparr>vm_anons := (vm_anons s)(a \<mapsto> an)\<rparr>"

definition vm_anon_free :: "nat \<Rightarrow> vm \<Rightarrow> vm res" where
  "vm_anon_free a s =
     bindR (anon_at a s) (\<lambda>an.
     bindR (case an_page an of
              None \<Rightarrow> Inr s
            | Some pg \<Rightarrow> bindR (page_deref pg (vm_pmm s)) (\<lambda>pm. Inr (set_pmm pm s))) (\<lambda>s1.
       Inr (s1\<lparr>vm_anons := (vm_anons s1)(a := None)\<rparr>)))"

definition vm_anon_ref :: "nat \<Rightarrow> vm \<Rightarrow> vm res" where
  "vm_anon_ref a s =
     bindR (anon_at a s) (\<lambda>an.
       Inr (put_anon a (an\<lparr>an_refcnt := (an_refcnt an + 1) mod 2 ^ 64\<rparr>) s))"

definition vm_anon_deref :: "nat \<Rightarrow> vm \<Rightarrow> vm res" where
  "vm_anon_deref a s =
     bindR (anon_at a s) (\<lambda>an.
       let refcnt = (if an_refcnt an = 0 then 2 ^ 64 - 1 else an_refcnt an - 1);
           s1 = put_anon a (an\<lparr>an_refcnt := refcnt\<rparr>) s
       in if an_refcnt an = 1 then vm_anon_free a s1 else Inr s1)"

definition vm_anon_create :: "nat option \<Rightarrow> u64 \<Rightarrow> vm \<Rightarrow> (nat \<times> vm) res" where
  "vm_anon_create page offset s =
     bindR (kalloc_unchecked NullDeref s) (\<lambda>(a, s1).
       Inr (a, put_anon a \<lparr>an_locked = False, an_page = page, an_offset = offset, an_refcnt = 1\<rparr> s1))"

text \<open>\<open>memcpy (page_to_mapped_addr (dest), page_to_mapped_addr (src), PAGE_SIZE)\<close>.\<close>

definition copy_page :: "nat option \<Rightarrow> nat option \<Rightarrow> vm \<Rightarrow> vm res" where
  "copy_page dest src s =
     (case (dest, src) of
        (Some d, Some p) \<Rightarrow>
          bindR (page_at (pm_pages (vm_pmm s)) d) (\<lambda>dp.
          bindR (page_at (pm_pages (vm_pmm s)) p) (\<lambda>sp.
            Inr (s\<lparr>vm_phys := vm_phys s\<lparr>ph_mem := (vm_mem s)(pg_pfn dp := vm_mem s (pg_pfn sp))\<rparr>\<rparr>)))
      | _ \<Rightarrow> Inl NullDeref)"

definition page_alloc :: "nat option \<Rightarrow> u64 \<Rightarrow> vm \<Rightarrow> (nat option \<times> vm) res" where
  "page_alloc obj offset s =
     bindR (vm_pagealloc obj offset (vm_pmm s)) (\<lambda>(page, pm). Inr (page, set_pmm pm s))"

definition vm_anon_copy :: "nat \<Rightarrow> vm \<Rightarrow> (nat \<times> vm) res" where
  "vm_anon_copy a s =
     bindR (anon_at a s) (\<lambda>an.
     bindR (case an_page an of None \<Rightarrow> Inl NullDeref | Some pg \<Rightarrow> page_at (pm_pages (vm_pmm s)) pg)
       (\<lambda>src_page.
     bindR (page_alloc (pg_vmobj src_page) (pg_offset src_page) s) (\<lambda>(dest, s1).
     bindR (copy_page dest (an_page an) s1) (\<lambda>s2.
       vm_anon_create dest (an_offset an) s2))))"

section \<open>Amaps\<close>

definition amap_at :: "nat \<Rightarrow> vm \<Rightarrow> vm_amap res" where
  "amap_at m s = (case vm_amaps s m of None \<Rightarrow> Inl NullDeref | Some am \<Rightarrow> Inr am)"

definition put_amap :: "nat \<Rightarrow> vm_amap \<Rightarrow> vm \<Rightarrow> vm" where
  "put_amap m am s = s\<lparr>vm_amaps := (vm_amaps s)(m \<mapsto> am)\<rparr>"

definition vm_amap_create :: "nat \<Rightarrow> vm \<Rightarrow> (nat \<times> vm) res" where
  "vm_amap_create obj s =
     bindR (kalloc_unchecked AssertFail s) (\<lambda>(m, s1).
     bindR (obj_ref obj s1) (\<lambda>s2.
       Inr (m, put_amap m \<lparr>am_refcnt = 1, am_obj = obj, am_l3 = None\<rparr> s2)))"

definition AMAP_ENTRIES :: nat where "AMAP_ENTRIES = 512"

definition free_l1 :: "amap_l1 \<Rightarrow> vm \<Rightarrow> vm res" where
  "free_l1 l1e = each_index (\<lambda>k s. case l1e k of None \<Rightarrow> Inr s | Some anon \<Rightarrow> vm_anon_deref anon s)
     [0..<AMAP_ENTRIES]"

definition free_l2 :: "amap_l2 \<Rightarrow> vm \<Rightarrow> vm res" where
  "free_l2 l2e = each_index (\<lambda>j s. case l2e j of None \<Rightarrow> Inr s | Some l1e \<Rightarrow> free_l1 l1e s)
     [0..<AMAP_ENTRIES]"

definition amap_free_all :: "amap_l3 \<Rightarrow> vm \<Rightarrow> vm res" where
  "amap_free_all l3 = each_index (\<lambda>i s. case l3 i of None \<Rightarrow> Inr s | Some l2e \<Rightarrow> free_l2 l2e s)
     [0..<AMAP_ENTRIES]"

definition amap_cleanup :: "nat \<Rightarrow> vm \<Rightarrow> vm res" where
  "amap_cleanup m s =
     bindR (amap_at m s) (\<lambda>am.
     bindR (case am_l3 am of None \<Rightarrow> Inr s | Some l3 \<Rightarrow> amap_free_all l3 s) (\<lambda>s1.
     bindR (obj_deref (am_obj am) s1) (\<lambda>s2.
       Inr (s2\<lparr>vm_amaps := (vm_amaps s2)(m := None)\<rparr>))))"

definition vm_amap_ref :: "nat \<Rightarrow> vm \<Rightarrow> vm res" where
  "vm_amap_ref m s =
     bindR (amap_at m s) (\<lambda>am.
       Inr (put_amap m (am\<lparr>am_refcnt := (am_refcnt am + 1) mod 2 ^ 64\<rparr>) s))"

definition vm_amap_deref :: "nat \<Rightarrow> vm \<Rightarrow> vm res" where
  "vm_amap_deref m s =
     bindR (amap_at m s) (\<lambda>am.
       let refcnt = (if am_refcnt am = 0 then 2 ^ 64 - 1 else am_refcnt am - 1);
           s1 = put_amap m (am\<lparr>am_refcnt := refcnt\<rparr>) s
       in if am_refcnt am = 1 then amap_cleanup m s1 else Inr s1)"

subsection \<open>Lookup\<close>

definition VM_AMAP_CREATE :: u32 where "VM_AMAP_CREATE = 1"
definition VM_AMAP_LOCKED :: u32 where "VM_AMAP_LOCKED = 2"
definition VM_AMAP_DONT_LOCK_ANON :: u32 where "VM_AMAP_DONT_LOCK_ANON = 4"

definition amap_indexes :: "u64 \<Rightarrow> nat \<times> nat \<times> nat" where
  "amap_indexes offset =
     (let pg = drop_bit 12 offset
      in (unat (drop_bit 18 pg AND 511), unat (drop_bit 9 pg AND 511), unat (pg AND 511)))"

definition slot_get :: "vm_amap \<Rightarrow> nat \<times> nat \<times> nat \<Rightarrow> nat option" where
  "slot_get am sl =
     (case sl of (i3, i2, i1) \<Rightarrow>
        (case am_l3 am of None \<Rightarrow> None
         | Some l3 \<Rightarrow> (case l3 i3 of None \<Rightarrow> None
         | Some l2 \<Rightarrow> (case l2 i2 of None \<Rightarrow> None | Some l1 \<Rightarrow> l1 i1))))"

text \<open>Writing through the pointer to a slot whose tables exist.\<close>

definition slot_put :: "vm_amap \<Rightarrow> nat \<times> nat \<times> nat \<Rightarrow> nat option \<Rightarrow> vm_amap" where
  "slot_put am sl v =
     (case sl of (i3, i2, i1) \<Rightarrow>
        (case am_l3 am of None \<Rightarrow> am
         | Some l3 \<Rightarrow> (case l3 i3 of None \<Rightarrow> am
         | Some l2 \<Rightarrow> (case l2 i2 of None \<Rightarrow> am
         | Some l1 \<Rightarrow> am\<lparr>am_l3 := Some (l3(i3 \<mapsto> l2(i2 \<mapsto> l1(i1 := v))))\<rparr>))))"

text \<open>The tables on the way to a slot, made when they are not there; a table that cannot be
  allocated is written through a null pointer.\<close>

definition need_table :: "'a option \<Rightarrow> bool \<Rightarrow> 'a \<Rightarrow> vm \<Rightarrow> ('a option \<times> vm) res" where
  "need_table t create fresh s =
     (case t of
        Some x \<Rightarrow> Inr (Some x, s)
      | None \<Rightarrow>
          if \<not> create then Inr (None, s)
          else bindR (kalloc_unchecked NullDeref s) (\<lambda>(_, s'). Inr (Some fresh, s')))"

definition locked_amap_lookup :: "nat \<Rightarrow> u64 \<Rightarrow> u32 \<Rightarrow> vm \<Rightarrow> ((nat \<times> nat \<times> nat) option \<times> vm) res" where
  "locked_amap_lookup m offset flags s =
     bindR (amap_at m s) (\<lambda>am.
     let create = (flags AND VM_AMAP_CREATE \<noteq> 0);
         (i3, i2, i1) = amap_indexes offset in
     bindR (need_table (am_l3 am) create (\<lambda>_. None) s) (\<lambda>(l3, s1). case l3 of None \<Rightarrow> Inr (None, s1) | Some l3 \<Rightarrow>
     bindR (need_table (l3 i3) create (\<lambda>_. None)
              (put_amap m (am\<lparr>am_l3 := Some l3\<rparr>) s1)) (\<lambda>(l2, s2). case l2 of None \<Rightarrow> Inr (None, s2) | Some l2 \<Rightarrow>
     bindR (need_table (l2 i2) create (\<lambda>_. None)
              (put_amap m (am\<lparr>am_l3 := Some (l3(i3 \<mapsto> l2))\<rparr>) s2)) (\<lambda>(l1, s3). case l1 of None \<Rightarrow> Inr (None, s3) | Some l1 \<Rightarrow>
     let s4 = put_amap m (am\<lparr>am_l3 := Some (l3(i3 \<mapsto> l2(i2 \<mapsto> l1)))\<rparr>) s3 in
     case l1 i1 of
       None \<Rightarrow> Inr (Some (i3, i2, i1), s4)
     | Some anon \<Rightarrow>
         if flags AND VM_AMAP_DONT_LOCK_ANON = 0 then
           bindR (anon_at anon s4) (\<lambda>an.
             if an_locked an then Inl Diverges
             else Inr (Some (i3, i2, i1), put_anon anon (an\<lparr>an_locked := True\<rparr>) s4))
         else Inr (Some (i3, i2, i1), s4)))))"

text \<open>The amap's own lock is taken or held; either way the lookup runs alone.\<close>

definition vm_amap_lookup :: "nat \<Rightarrow> u64 \<Rightarrow> u32 \<Rightarrow> vm \<Rightarrow> ((nat \<times> nat \<times> nat) option \<times> vm) res" where
  "vm_amap_lookup m offset flags s =
     (if flags AND VM_AMAP_LOCKED \<noteq> 0 then locked_amap_lookup m offset flags s
      else locked_amap_lookup m offset flags s)"

subsection \<open>Copy at fork\<close>

fun copy_l1 :: "amap_l1 \<Rightarrow> nat list \<Rightarrow> amap_l1 \<Rightarrow> vm \<Rightarrow> (amap_l1 \<times> vm) res" where
  "copy_l1 l1 [] l1_copy s = Inr (l1_copy, s)"
| "copy_l1 l1 (i # is) l1_copy s =
     (case l1 i of
        None \<Rightarrow> copy_l1 l1 is l1_copy s
      | Some anon \<Rightarrow> bindR (vm_anon_ref anon s) (copy_l1 l1 is (l1_copy(i \<mapsto> anon))))"

fun copy_l2 :: "amap_l2 \<Rightarrow> nat list \<Rightarrow> amap_l2 \<Rightarrow> vm \<Rightarrow> (amap_l2 \<times> vm) res" where
  "copy_l2 l2 [] l2_copy s = Inr (l2_copy, s)"
| "copy_l2 l2 (i # is) l2_copy s =
     (case l2 i of
        None \<Rightarrow> copy_l2 l2 is l2_copy s
      | Some l1 \<Rightarrow>
          bindR (kalloc_unchecked KPanic s) (\<lambda>(_, s1).
          bindR (copy_l1 l1 [0..<AMAP_ENTRIES] (\<lambda>_. None) s1) (\<lambda>(l1_copy, s2).
            copy_l2 l2 is (l2_copy(i \<mapsto> l1_copy)) s2)))"

fun copy_l3 :: "amap_l3 \<Rightarrow> nat list \<Rightarrow> amap_l3 \<Rightarrow> vm \<Rightarrow> (amap_l3 \<times> vm) res" where
  "copy_l3 l3 [] l3_copy s = Inr (l3_copy, s)"
| "copy_l3 l3 (i # is) l3_copy s =
     (case l3 i of
        None \<Rightarrow> copy_l3 l3 is l3_copy s
      | Some l2 \<Rightarrow>
          bindR (kalloc_unchecked KPanic s) (\<lambda>(_, s1).
          bindR (copy_l2 l2 [0..<AMAP_ENTRIES] (\<lambda>_. None) s1) (\<lambda>(l2_copy, s2).
            copy_l3 l3 is (l3_copy(i \<mapsto> l2_copy)) s2)))"

definition vm_amap_copy :: "nat option \<Rightarrow> vm \<Rightarrow> (nat \<times> vm) res" where
  "vm_amap_copy m s =
     (case m of
        None \<Rightarrow> Inl AssertFail
      | Some m \<Rightarrow>
          bindR (amap_at m s) (\<lambda>am.
          bindR (vm_amap_create (am_obj am) s) (\<lambda>(new_amap, s1).
          case am_l3 am of
            None \<Rightarrow> Inr (new_amap, s1)
          | Some l3 \<Rightarrow>
              bindR (kalloc_unchecked KPanic s1) (\<lambda>(_, s2).
              bindR (copy_l3 l3 [0..<AMAP_ENTRIES] (\<lambda>_. None) s2) (\<lambda>(l3_copy, s3).
              bindR (amap_at new_amap s3) (\<lambda>new.
                Inr (new_amap, put_amap new_amap (new\<lparr>am_l3 := Some l3_copy\<rparr>) s3)))))))"

definition vm_amap_fill_locked :: "nat \<Rightarrow> u64 \<Rightarrow> nat option \<Rightarrow> u32 \<Rightarrow> vm \<Rightarrow> (nat \<times> vm) res" where
  "vm_amap_fill_locked m offset backing_page flags s =
     bindR (vm_amap_lookup m offset (VM_AMAP_CREATE OR VM_AMAP_LOCKED) s) (\<lambda>(panon, s1).
     bindR (amap_at m s1) (\<lambda>am.
     case panon of
       None \<Rightarrow> Inl NullDeref
     | Some sl \<Rightarrow>
         ensure (slot_get am sl = None) AssertFail (
         bindR (page_alloc None 0 s1) (\<lambda>(dest_page, s2).
         bindR (copy_page dest_page backing_page s2) (\<lambda>s3.
         bindR (vm_anon_create dest_page 0 s3) (\<lambda>(anon, s4).
         bindR (amap_at m s4) (\<lambda>am.
           Inr (anon, put_amap m (slot_put am sl (Some anon)) s4))))))))"

section \<open>What the table operations do to the slots\<close>

abbreviation slot_of :: "u64 \<Rightarrow> nat \<times> nat \<times> nat" where
  "slot_of offset \<equiv> amap_indexes offset"

lemma amap_at_Inr [simp]: "amap_at m s = Inr am \<longleftrightarrow> vm_amaps s m = Some am"
  by (auto simp: amap_at_def split: option.splits)

lemma anon_at_Inr [simp]: "anon_at a s = Inr an \<longleftrightarrow> vm_anons s a = Some an"
  by (auto simp: anon_at_def split: option.splits)

lemma put_amap_simps [simp]:
  "vm_amaps (put_amap m am s) = (vm_amaps s)(m \<mapsto> am)" "vm_phys (put_amap m am s) = vm_phys s"
  "vm_tab (put_amap m am s) = vm_tab s" "vm_objs (put_amap m am s) = vm_objs s"
  "vm_anons (put_amap m am s) = vm_anons s" "vm_next (put_amap m am s) = vm_next s"
  "vm_kz (put_amap m am s) = vm_kz s" "put_amap m am (put_amap m am' s) = put_amap m am s"
  by (simp_all add: put_amap_def)

lemma put_anon_simps [simp]:
  "vm_anons (put_anon a an s) = (vm_anons s)(a \<mapsto> an)" "vm_phys (put_anon a an s) = vm_phys s"
  "vm_tab (put_anon a an s) = vm_tab s" "vm_objs (put_anon a an s) = vm_objs s"
  "vm_amaps (put_anon a an s) = vm_amaps s" "vm_next (put_anon a an s) = vm_next s"
  "vm_kz (put_anon a an s) = vm_kz s"
  by (simp_all add: put_anon_def)

lemma put_amap_same [simp]: "vm_amaps s m = Some am \<Longrightarrow> put_amap m am s = s"
  by (simp add: put_amap_def fun_upd_idem)

text \<open>Looking a slot up without permission to create tables changes nothing but the lock of the
  anon found.\<close>

definition lock_anon :: "nat \<Rightarrow> vm \<Rightarrow> vm res" where
  "lock_anon a s =
     bindR (anon_at a s) (\<lambda>an.
       if an_locked an then Inl Diverges else Inr (put_anon a (an\<lparr>an_locked := True\<rparr>) s))"

definition has_slot :: "vm_amap \<Rightarrow> nat \<times> nat \<times> nat \<Rightarrow> bool" where
  "has_slot am sl =
     (case sl of (i3, i2, i1) \<Rightarrow>
        (case am_l3 am of None \<Rightarrow> False
         | Some l3 \<Rightarrow> (case l3 i3 of None \<Rightarrow> False | Some l2 \<Rightarrow> l2 i2 \<noteq> None)))"

lemma slot_has: "slot_get am sl \<noteq> None \<Longrightarrow> has_slot am sl"
  by (cases sl) (auto simp: slot_get_def has_slot_def split: option.splits)

lemma slot_put_get_has: "has_slot am sl \<Longrightarrow> slot_get (slot_put am sl v) sl' =
    (if sl' = sl then v else slot_get am sl')"
  by (cases sl; cases sl') (auto simp: slot_get_def slot_put_def has_slot_def split: option.splits)

lemma slot_put_keeps [simp]: "am_refcnt (slot_put am sl v) = am_refcnt am" "am_obj (slot_put am sl v) = am_obj am"
  by (cases sl; auto simp: slot_put_def split: option.splits)+

lemma lookup_existing:
  assumes m: "vm_amaps s m = Some am" and f: "flags AND VM_AMAP_CREATE = 0" "flags AND VM_AMAP_DONT_LOCK_ANON = 0"
  shows "vm_amap_lookup m offset flags s =
     (case slot_get am (slot_of offset) of
        None \<Rightarrow> Inr (if has_slot am (slot_of offset) then Some (slot_of offset) else None, s)
      | Some a \<Rightarrow> bindR (lock_anon a s) (\<lambda>s'. Inr (Some (slot_of offset), s')))"
proof -
  obtain i3 i2 i1 where sl: "amap_indexes offset = (i3, i2, i1)" using prod_cases3 by blast
  have at: "amap_at m s = Inr am" using m by simp
  have same: "am\<lparr>am_l3 := Some l3\<rparr> = am" if "am_l3 am = Some l3" for l3
    using that by (cases am) simp
  show ?thesis
  proof (cases "am_l3 am")
    case None
    then show ?thesis
      using f by (simp add: vm_amap_lookup_def locked_amap_lookup_def at sl need_table_def slot_get_def has_slot_def)
  next
    case (Some l3)
    note s3 = same [OF Some]
    show ?thesis
    proof (cases "l3 i3")
      case None
      with Some f m show ?thesis
        by (simp add: vm_amap_lookup_def locked_amap_lookup_def at sl need_table_def slot_get_def has_slot_def s3)
    next
      case l2: (Some l2)
      then have u3: "l3(i3 \<mapsto> l2) = l3" by (simp add: fun_upd_idem)
      show ?thesis
      proof (cases "l2 i2")
        case None
        with Some l2 f m show ?thesis
          by (simp add: vm_amap_lookup_def locked_amap_lookup_def at sl need_table_def slot_get_def
              has_slot_def s3 u3)
      next
        case l1: (Some l1)
        then have u2: "l2(i2 \<mapsto> l1) = l2" by (simp add: fun_upd_idem)
        show ?thesis
          using Some l2 l1 f m
          by (cases "l1 i1") (simp_all add: vm_amap_lookup_def locked_amap_lookup_def at sl need_table_def
              slot_get_def has_slot_def s3 u3 u2 lock_anon_def bindR_assoc if_distrib [of "\<lambda>m. bindR m f" for f] cong: if_cong)
      qed
    qed
  qed
qed

text \<open>With permission to create tables and enough memory, the slot exists afterwards and every slot
  holds what it held.\<close>

lemma kalloc_unchecked_plenty [simp]:
  "vm_kz s = [] \<Longrightarrow> kalloc_unchecked e s = Inr (vm_next s, s\<lparr>vm_next := vm_next s + 1\<rparr>)"
  by (simp add: kalloc_unchecked_def)

lemma lookup_creating:
  assumes m: "vm_amaps s m = Some am" and kz: "vm_kz s = []"
    and f: "flags AND VM_AMAP_CREATE \<noteq> 0" and none: "slot_get am (slot_of offset) = None"
  shows "\<exists>am' n. vm_amap_lookup m offset flags s =
       Inr (Some (slot_of offset), put_amap m am' (s\<lparr>vm_next := n\<rparr>)) \<and> vm_next s \<le> n \<and>
     has_slot am' (slot_of offset) \<and> slot_get am' = slot_get am \<and>
     am_refcnt am' = am_refcnt am \<and> am_obj am' = am_obj am"
proof -
  obtain i3 i2 i1 where sl: "amap_indexes offset = (i3, i2, i1)" using prod_cases3 by blast
  have at: "amap_at m s = Inr am" using m by simp
  define l3 where "l3 = (case am_l3 am of None \<Rightarrow> (\<lambda>_. None) | Some l3 \<Rightarrow> l3)"
  define l2 where "l2 = (case l3 i3 of None \<Rightarrow> (\<lambda>_. None) | Some l2 \<Rightarrow> l2)"
  define l1 where "l1 = (case l2 i2 of None \<Rightarrow> (\<lambda>_. None) | Some l1 \<Rightarrow> l1)"
  define am' where "am' = am\<lparr>am_l3 := Some (l3(i3 \<mapsto> l2(i2 \<mapsto> l1)))\<rparr>"
  have need: "\<exists>n. need_table t True (\<lambda>_. None) s' =
      Inr (Some (case t of None \<Rightarrow> (\<lambda>_. None) | Some x \<Rightarrow> x), s'\<lparr>vm_next := n\<rparr>) \<and> vm_next s' \<le> n"
    if "vm_kz s' = []" for t :: "(nat \<Rightarrow> 'c option) option" and s' :: vm
    using that by (cases t; simp add: need_table_def; metis le_Suc_eq le_refl vm.surjective vm.update_convs(6))
  obtain n1 where n1: "need_table (am_l3 am) True (\<lambda>_. None) s = Inr (Some l3, s\<lparr>vm_next := n1\<rparr>)" "vm_next s \<le> n1"
    using need [OF kz, of "am_l3 am"] by (auto simp: l3_def)
  define s1 where "s1 = put_amap m (am\<lparr>am_l3 := Some l3\<rparr>) (s\<lparr>vm_next := n1\<rparr>)"
  obtain n2 where n2: "need_table (l3 i3) True (\<lambda>_. None) s1 = Inr (Some l2, s1\<lparr>vm_next := n2\<rparr>)" "n1 \<le> n2"
    using need [of s1 "l3 i3"] kz by (auto simp: l2_def s1_def)
  define s2 where "s2 = put_amap m (am\<lparr>am_l3 := Some (l3(i3 \<mapsto> l2))\<rparr>) (s1\<lparr>vm_next := n2\<rparr>)"
  obtain n3 where n3: "need_table (l2 i2) True (\<lambda>_. None) s2 = Inr (Some l1, s2\<lparr>vm_next := n3\<rparr>)" "n2 \<le> n3"
    using need [of s2 "l2 i2"] kz by (auto simp: l1_def s2_def s1_def)
  have l1: "l1 i1 = None"
    using none by (auto simp: sl slot_get_def l1_def l2_def l3_def split: option.splits)
  have look: "vm_amap_lookup m offset flags s = Inr (Some (i3, i2, i1), put_amap m am' (s2\<lparr>vm_next := n3\<rparr>))"
    using f n1(1) n2(1) n3(1) l1
    by (simp add: vm_amap_lookup_def locked_amap_lookup_def at sl Let_def s1_def [symmetric] s2_def [symmetric]
        am'_def [symmetric])
  moreover have "put_amap m am' (s2\<lparr>vm_next := n3\<rparr>) = put_amap m am' (s\<lparr>vm_next := n3\<rparr>)"
    by (simp add: s2_def s1_def put_amap_def)
  moreover have "slot_get am' sl' = slot_get am sl'" for sl'
    by (cases sl') (auto simp: slot_get_def am'_def l1_def l2_def l3_def split: option.splits if_splits)
  ultimately show ?thesis
    using n1(2) n2(2) n3(2) by (intro exI [of _ am'] exI [of _ n3])
       (auto simp: sl has_slot_def am'_def)
qed

section \<open>Copying a table\<close>

text \<open>\<open>bumped s s' f\<close>: \<open>f a\<close> references more to each anon \<open>a\<close>, and nothing else.\<close>

definition bumped :: "vm \<Rightarrow> vm \<Rightarrow> (nat \<Rightarrow> nat) \<Rightarrow> bool" where
  "bumped s s' f \<longleftrightarrow> vm_phys s' = vm_phys s \<and> vm_tab s' = vm_tab s \<and> vm_objs s' = vm_objs s \<and>
     vm_amaps s' = vm_amaps s \<and> vm_next s \<le> vm_next s' \<and> vm_kz s' = vm_kz s \<and>
     vm_anons s' = (\<lambda>a. map_option (\<lambda>an. an\<lparr>an_refcnt := an_refcnt an + f a\<rparr>) (vm_anons s a))"

definition room :: "vm \<Rightarrow> (nat \<Rightarrow> nat) \<Rightarrow> bool" where
  "room s f \<longleftrightarrow> (\<forall>a. 0 < f a \<longrightarrow> (\<exists>an. vm_anons s a = Some an \<and> an_refcnt an + f a < 2 ^ 64))"

lemma bumped_refl: "bumped s s (\<lambda>_. 0)"
  by (auto simp: bumped_def option.map_ident)

lemma bumped_next: "bumped s (s\<lparr>vm_next := vm_next s + 1\<rparr>) (\<lambda>_. 0)"
  by (auto simp: bumped_def option.map_ident)

lemma bumped_trans:
  assumes "bumped s s1 f" "bumped s1 s2 g" "\<And>a. h a = f a + g a"
  shows "bumped s s2 h"
proof -
  have "vm_anons s2 a = map_option (\<lambda>an. an\<lparr>an_refcnt := an_refcnt an + h a\<rparr>) (vm_anons s a)" for a
    using assms by (cases "vm_anons s a") (auto simp: bumped_def)
  with assms show ?thesis by (auto simp: bumped_def)
qed

lemma room_mono: "room s f \<Longrightarrow> (\<And>a. g a \<le> f a) \<Longrightarrow> room s g"
  unfolding room_def by (metis add_left_mono gr0I le_zero_eq order_le_less_trans)

lemma room_bumped:
  assumes "bumped s s1 g" "room s f" "\<And>a. f a = g a + h a"
  shows "room s1 h"
  unfolding room_def
proof (intro allI impI)
  fix a assume "0 < h a"
  then obtain an where "vm_anons s a = Some an" "an_refcnt an + f a < 2 ^ 64"
    using assms(2,3) by (auto simp: room_def)
  then show "\<exists>an. vm_anons s1 a = Some an \<and> an_refcnt an + h a < 2 ^ 64"
    using assms(1,3) by (auto simp: bumped_def add.assoc)
qed

definition refs1 :: "amap_l1 \<Rightarrow> nat list \<Rightarrow> nat \<Rightarrow> nat" where
  "refs1 l1 is a = length (filter (\<lambda>i. l1 i = Some a) is)"

definition refs2 :: "amap_l2 \<Rightarrow> nat list \<Rightarrow> nat \<Rightarrow> nat" where
  "refs2 l2 is a = (\<Sum>i\<leftarrow>is. case l2 i of None \<Rightarrow> 0 | Some l1 \<Rightarrow> refs1 l1 [0..<AMAP_ENTRIES] a)"

definition refs3 :: "amap_l3 \<Rightarrow> nat list \<Rightarrow> nat \<Rightarrow> nat" where
  "refs3 l3 is a = (\<Sum>i\<leftarrow>is. case l3 i of None \<Rightarrow> 0 | Some l2 \<Rightarrow> refs2 l2 [0..<AMAP_ENTRIES] a)"

lemma copy_l1_ok:
  "room s (refs1 l1 is) \<Longrightarrow>
   \<exists>s'. copy_l1 l1 is c s = Inr (\<lambda>i. if i \<in> set is \<and> l1 i \<noteq> None then l1 i else c i, s') \<and>
     bumped s s' (refs1 l1 is)"
proof (induction "is" arbitrary: c s)
  case Nil
  then show ?case using bumped_refl by (simp add: refs1_def)
next
  case (Cons i "is")
  show ?case
  proof (cases "l1 i")
    case None
    then have r: "refs1 l1 (i # is) = refs1 l1 is" by (simp add: refs1_def fun_eq_iff)
    from Cons.prems None obtain s' where
      "copy_l1 l1 is c s = Inr (\<lambda>j. if j \<in> set is \<and> l1 j \<noteq> None then l1 j else c j, s')" "bumped s s' (refs1 l1 is)"
      unfolding r using Cons.IH by blast
    then show ?thesis using None by (auto simp: r fun_eq_iff)
  next
    case (Some a)
    then have r: "refs1 l1 (i # is) b = (if b = a then 1 else 0) + refs1 l1 is b" for b by (simp add: refs1_def)
    have "0 < refs1 l1 (i # is) a" using r [of a] by simp
    then obtain an where an: "vm_anons s a = Some an" "an_refcnt an + refs1 l1 (i # is) a < 2 ^ 64"
      using Cons.prems unfolding room_def by blast
    define s1 where "s1 = put_anon a (an\<lparr>an_refcnt := an_refcnt an + 1\<rparr>) s"
    have ref: "vm_anon_ref a s = Inr s1"
      using an r [of a] by (simp add: vm_anon_ref_def anon_at_def s1_def)
    have b1: "bumped s s1 (\<lambda>b. if b = a then 1 else 0)"
      using an(1) by (auto simp: bumped_def s1_def fun_eq_iff option.map_ident)
    have "room s1 (refs1 l1 is)" by (rule room_bumped [OF b1 Cons.prems r])
    then obtain s2 where s2: "copy_l1 l1 is (c(i \<mapsto> a)) s1 =
        Inr (\<lambda>j. if j \<in> set is \<and> l1 j \<noteq> None then l1 j else (c(i \<mapsto> a)) j, s2)" "bumped s1 s2 (refs1 l1 is)"
      using Cons.IH by blast
    have "(\<lambda>j. if j \<in> set is \<and> l1 j \<noteq> None then l1 j else (c(i \<mapsto> a)) j) =
        (\<lambda>j. if j \<in> set (i # is) \<and> l1 j \<noteq> None then l1 j else c j)"
      using Some by (auto simp: fun_eq_iff)
    with s2(1) ref Some bumped_trans [OF b1 s2(2) r] show ?thesis by (intro exI [of _ s2]) simp
  qed
qed

definition clip :: "(nat \<Rightarrow> 'a option) \<Rightarrow> nat \<Rightarrow> 'a option" where
  "clip t i = (if i < AMAP_ENTRIES then t i else None)"

lemma copy_l1_all:
  "room s (refs1 l1 [0..<AMAP_ENTRIES]) \<Longrightarrow>
   \<exists>s'. copy_l1 l1 [0..<AMAP_ENTRIES] (\<lambda>_. None) s = Inr (clip l1, s') \<and>
     bumped s s' (refs1 l1 [0..<AMAP_ENTRIES])"
proof -
  assume "room s (refs1 l1 [0..<AMAP_ENTRIES])"
  from copy_l1_ok [OF this, of "\<lambda>_. None"] obtain s' where
    "copy_l1 l1 [0..<AMAP_ENTRIES] (\<lambda>_. None) s =
       Inr (\<lambda>i. if i \<in> set [0..<AMAP_ENTRIES] \<and> l1 i \<noteq> None then l1 i else None, s')"
    "bumped s s' (refs1 l1 [0..<AMAP_ENTRIES])" by blast
  moreover have "(\<lambda>i. if i \<in> set [0..<AMAP_ENTRIES] \<and> l1 i \<noteq> None then l1 i else None) = clip l1"
    by (auto simp: clip_def fun_eq_iff)
  ultimately show ?thesis by auto
qed

text \<open>The two outer levels copy alike: each present table is allocated and copied in turn.\<close>

lemma copy_l2_ok:
  "room s (refs2 l2 is) \<Longrightarrow> vm_kz s = [] \<Longrightarrow>
   \<exists>s'. copy_l2 l2 is c s =
       Inr (\<lambda>i. if i \<in> set is \<and> l2 i \<noteq> None then map_option clip (l2 i) else c i, s') \<and>
     bumped s s' (refs2 l2 is)"
proof (induction "is" arbitrary: c s)
  case Nil
  then show ?case using bumped_refl by (simp add: refs2_def)
next
  case (Cons i "is")
  show ?case
  proof (cases "l2 i")
    case None
    then have r: "refs2 l2 (i # is) = refs2 l2 is" by (simp add: refs2_def fun_eq_iff)
    from Cons None obtain s' where
      "copy_l2 l2 is c s = Inr (\<lambda>j. if j \<in> set is \<and> l2 j \<noteq> None then map_option clip (l2 j) else c j, s')"
      "bumped s s' (refs2 l2 is)"
      unfolding r by blast
    then show ?thesis using None by (auto simp: r fun_eq_iff)
  next
    case (Some l1)
    let ?f = "refs1 l1 [0..<AMAP_ENTRIES]"
    have r: "refs2 l2 (i # is) b = ?f b + refs2 l2 is b" for b using Some by (simp add: refs2_def)
    define s0 where "s0 = s\<lparr>vm_next := vm_next s + 1\<rparr>"
    have b0: "bumped s s0 (\<lambda>_. 0)" unfolding s0_def by (rule bumped_next)
    have "room s ?f" by (rule room_mono [OF Cons.prems(1)]) (simp add: r)
    then have "room s0 ?f" by (rule room_bumped [OF b0]) simp
    then obtain s1 where s1: "copy_l1 l1 [0..<AMAP_ENTRIES] (\<lambda>_. None) s0 = Inr (clip l1, s1)" "bumped s0 s1 ?f"
      using copy_l1_all by blast
    have b1: "bumped s s1 ?f" by (rule bumped_trans [OF b0 s1(2)]) simp
    have "room s1 (refs2 l2 is)" by (rule room_bumped [OF b1 Cons.prems(1) r])
    moreover have "vm_kz s1 = []" using b1 Cons.prems(2) by (simp add: bumped_def)
    ultimately obtain s2 where s2: "copy_l2 l2 is (c(i \<mapsto> clip l1)) s1 =
        Inr (\<lambda>j. if j \<in> set is \<and> l2 j \<noteq> None then map_option clip (l2 j) else (c(i \<mapsto> clip l1)) j, s2)"
        "bumped s1 s2 (refs2 l2 is)"
      using Cons.IH by blast
    have "(\<lambda>j. if j \<in> set is \<and> l2 j \<noteq> None then map_option clip (l2 j) else (c(i \<mapsto> clip l1)) j) =
        (\<lambda>j. if j \<in> set (i # is) \<and> l2 j \<noteq> None then map_option clip (l2 j) else c j)"
      using Some by (auto simp: fun_eq_iff)
    with s2(1) s1(1) Some Cons.prems(2) bumped_trans [OF b1 s2(2) r] show ?thesis
      by (intro exI [of _ s2]) (simp add: s0_def)
  qed
qed

lemma copy_l3_ok:
  "room s (refs3 l3 is) \<Longrightarrow> vm_kz s = [] \<Longrightarrow>
   \<exists>s'. copy_l3 l3 is c s =
       Inr (\<lambda>i. if i \<in> set is \<and> l3 i \<noteq> None
                then map_option (\<lambda>l2 j. map_option clip (clip l2 j)) (l3 i) else c i, s') \<and>
     bumped s s' (refs3 l3 is)"
proof (induction "is" arbitrary: c s)
  case Nil
  then show ?case using bumped_refl by (simp add: refs3_def)
next
  case (Cons i "is")
  let ?cl = "\<lambda>l2 j. map_option clip (clip l2 j)"
  show ?case
  proof (cases "l3 i")
    case None
    then have r: "refs3 l3 (i # is) = refs3 l3 is" by (simp add: refs3_def fun_eq_iff)
    from Cons None obtain s' where
      "copy_l3 l3 is c s = Inr (\<lambda>j. if j \<in> set is \<and> l3 j \<noteq> None then map_option ?cl (l3 j) else c j, s')"
      "bumped s s' (refs3 l3 is)"
      unfolding r by blast
    then show ?thesis using None by (auto simp: r fun_eq_iff)
  next
    case (Some l2)
    let ?f = "refs2 l2 [0..<AMAP_ENTRIES]"
    have r: "refs3 l3 (i # is) b = ?f b + refs3 l3 is b" for b using Some by (simp add: refs3_def)
    define s0 where "s0 = s\<lparr>vm_next := vm_next s + 1\<rparr>"
    have b0: "bumped s s0 (\<lambda>_. 0)" unfolding s0_def by (rule bumped_next)
    have "room s ?f" by (rule room_mono [OF Cons.prems(1)]) (simp add: r)
    then have "room s0 ?f" by (rule room_bumped [OF b0]) simp
    moreover have "vm_kz s0 = []" using Cons.prems(2) by (simp add: s0_def)
    ultimately obtain s1 where s1: "copy_l2 l2 [0..<AMAP_ENTRIES] (\<lambda>_. None) s0 =
        Inr (\<lambda>j. if j \<in> set [0..<AMAP_ENTRIES] \<and> l2 j \<noteq> None then map_option clip (l2 j) else None, s1)"
        "bumped s0 s1 ?f"
      using copy_l2_ok by blast
    have cl: "(\<lambda>j. if j \<in> set [0..<AMAP_ENTRIES] \<and> l2 j \<noteq> None then map_option clip (l2 j) else None) = ?cl l2"
      by (auto simp: clip_def fun_eq_iff)
    have b1: "bumped s s1 ?f" by (rule bumped_trans [OF b0 s1(2)]) simp
    have "room s1 (refs3 l3 is)" by (rule room_bumped [OF b1 Cons.prems(1) r])
    moreover have "vm_kz s1 = []" using b1 Cons.prems(2) by (simp add: bumped_def)
    ultimately obtain s2 where s2: "copy_l3 l3 is (c(i \<mapsto> ?cl l2)) s1 =
        Inr (\<lambda>j. if j \<in> set is \<and> l3 j \<noteq> None then map_option ?cl (l3 j) else (c(i \<mapsto> ?cl l2)) j, s2)"
        "bumped s1 s2 (refs3 l3 is)"
      using Cons.IH by blast
    have "(\<lambda>j. if j \<in> set is \<and> l3 j \<noteq> None then map_option ?cl (l3 j) else (c(i \<mapsto> ?cl l2)) j) =
        (\<lambda>j. if j \<in> set (i # is) \<and> l3 j \<noteq> None then map_option ?cl (l3 j) else c j)"
      using Some by (auto simp: fun_eq_iff)
    with s2(1) s1(1) Some Cons.prems(2) bumped_trans [OF b1 s2(2) r] show ?thesis
      unfolding cl by (intro exI [of _ s2]) (simp add: s0_def)
  qed
qed

text \<open>The references an amap holds on an anon.\<close>

definition amap_refs :: "vm_amap \<Rightarrow> nat \<Rightarrow> nat" where
  "amap_refs am a = (case am_l3 am of None \<Rightarrow> 0 | Some l3 \<Rightarrow> refs3 l3 [0..<AMAP_ENTRIES] a)"

lemma slot_in_range: "amap_indexes offset = (i3, i2, i1) \<Longrightarrow> i3 < AMAP_ENTRIES \<and> i2 < AMAP_ENTRIES \<and> i1 < AMAP_ENTRIES"
proof -
  have "unat (w AND 511) < 512" for w :: u64
    using word_and_le1 [of w 511] by (simp add: word_le_nat_alt)
  then show "amap_indexes offset = (i3, i2, i1) \<Longrightarrow> ?thesis"
    by (auto simp: amap_indexes_def Let_def AMAP_ENTRIES_def)
qed

text \<open>A copied amap holds the same anons at every offset; each gains exactly the references of the
  original, which is unchanged.\<close>

lemma amap_copy_ok:
  assumes m: "vm_amaps s m = Some am" and kz: "vm_kz s = []" and room: "room s (amap_refs am)"
    and new: "vm_amaps s (vm_next s) = None" and obj: "vm_objs s (am_obj am) = Some obj"
  shows "\<exists>s' am'. vm_amap_copy (Some m) s = Inr (vm_next s, s') \<and>
     vm_amaps s' = (vm_amaps s)(vm_next s \<mapsto> am') \<and> am_refcnt am' = 1 \<and> am_obj am' = am_obj am \<and>
     (\<forall>off. slot_get am' (slot_of off) = slot_get am (slot_of off)) \<and>
     vm_anons s' = (\<lambda>a. map_option (\<lambda>an. an\<lparr>an_refcnt := an_refcnt an + amap_refs am a\<rparr>) (vm_anons s a)) \<and>
     vm_phys s' = vm_phys s \<and> vm_tab s' = vm_tab s \<and> vm_kz s' = [] \<and> vm_next s < vm_next s' \<and>
     vm_objs s' = (vm_objs s)(am_obj am \<mapsto> obj\<lparr>vo_refcnt := (vo_refcnt obj + 1) mod 2 ^ 64\<rparr>)"
proof -
  let ?n = "vm_next s"
  define objs where "objs = (vm_objs s)(am_obj am \<mapsto> obj\<lparr>vo_refcnt := (vo_refcnt obj + 1) mod 2 ^ 64\<rparr>)"
  define new0 where "new0 = \<lparr>am_refcnt = 1, am_obj = am_obj am, am_l3 = None\<rparr>"
  define s1 where "s1 = put_amap ?n new0 (s\<lparr>vm_next := ?n + 1, vm_objs := objs\<rparr>)"
  have ne: "?n \<noteq> m" using m new by auto
  have cr: "vm_amap_create (am_obj am) s = Inr (?n, s1)"
    using kz obj by (simp add: vm_amap_create_def obj_ref_def vm_object_ref_def object_at_def objs_def s1_def new0_def)
  show ?thesis
  proof (cases "am_l3 am")
    case None
    then have "vm_amap_copy (Some m) s = Inr (?n, s1)"
      using m cr by (simp add: vm_amap_copy_def amap_at_def)
    moreover have "slot_get new0 sl = slot_get am sl" for sl
      using None by (cases sl) (simp add: slot_get_def new0_def)
    moreover have "amap_refs am = (\<lambda>_. 0)" using None by (simp add: amap_refs_def fun_eq_iff)
    ultimately show ?thesis
      using kz by (intro exI [of _ s1] exI [of _ new0]) (simp add: s1_def new0_def objs_def option.map_ident)
  next
    case (Some l3)
    define s2 where "s2 = s1\<lparr>vm_next := vm_next s1 + 1\<rparr>"
    have r: "amap_refs am = refs3 l3 [0..<AMAP_ENTRIES]" using Some by (simp add: amap_refs_def fun_eq_iff)
    have "room s2 (refs3 l3 [0..<AMAP_ENTRIES])" "vm_kz s2 = []"
      using room kz unfolding r by (auto simp: room_def s2_def s1_def)
    then obtain s3 where s3: "copy_l3 l3 [0..<AMAP_ENTRIES] (\<lambda>_. None) s2 =
        Inr (\<lambda>i. if i \<in> set [0..<AMAP_ENTRIES] \<and> l3 i \<noteq> None
                 then map_option (\<lambda>l2 j. map_option clip (clip l2 j)) (l3 i) else None, s3)"
        (is "_ = Inr (?l3', _)") "bumped s2 s3 (refs3 l3 [0..<AMAP_ENTRIES])"
      using copy_l3_ok by blast
    define am' where "am' = new0\<lparr>am_l3 := Some ?l3'\<rparr>"
    have at3: "vm_amaps s3 = (vm_amaps s)(?n \<mapsto> new0)" using s3(2) by (simp add: bumped_def s2_def s1_def)
    have ka: "kalloc_unchecked KPanic s1 = Inr (vm_next s1, s2)" using kz by (simp add: s2_def s1_def)
    have "amap_at ?n s3 = Inr new0" "amap_at m s = Inr am" using at3 m by simp_all
    then have "vm_amap_copy (Some m) s = Inr (?n, put_amap ?n am' s3)"
      unfolding vm_amap_copy_def using cr Some by (simp only: option.case bindR_simps prod.case ka s3(1) am'_def)
    moreover have "slot_get am' (slot_of off) = slot_get am (slot_of off)" for off
    proof -
      obtain i3 i2 i1 where sl: "amap_indexes off = (i3, i2, i1)" using prod_cases3 by blast
      then show ?thesis using slot_in_range [OF sl] Some
        by (auto simp: slot_get_def am'_def clip_def split: option.splits)
    qed
    ultimately show ?thesis
      using s3(2) at3 r kz by (intro exI [of _ "put_amap ?n am' s3"] exI [of _ am'])
         (simp add: bumped_def s2_def s1_def am'_def new0_def objs_def)
  qed
qed

end
