(* ===== verification/Pmap.thy ===== *)
theory Pmap
  imports VmState
begin

text \<open>
  Page tables: \<^verbatim>\<open>kernel/vm/generic_pmap.c\<close> and the entry format of
  \<^verbatim>\<open>kernel/arch/x86_64/include/yak/arch-mm.h\<close>. A table is a frame, its entries \<open>vm_tab\<close>; the
  number of levels (\<open>PMAP_LEVELS\<close>, 4 or 5, set at boot) is the argument \<open>lv\<close>. Invalidating
  translations cached by a processor, here or on others, changes no memory and is left out.
\<close>

unbundle bit_operations_syntax

section \<open>Entries\<close>

definition VM_READ :: u32 where "VM_READ = 1"
definition VM_WRITE :: u32 where "VM_WRITE = 2"
definition VM_EXECUTE :: u32 where "VM_EXECUTE = 4"
definition VM_USER :: u32 where "VM_USER = 8"
definition VM_GLOBAL :: u32 where "VM_GLOBAL = 16"

datatype vm_cache = VM_UC | VM_WC | VM_WT | VM_WB | Cache_Other nat

definition ptePresent :: u64 where "ptePresent = 0x1"
definition pteWrite :: u64 where "pteWrite = 0x2"
definition pteUser :: u64 where "pteUser = 0x4"
definition ptePwt :: u64 where "ptePwt = 0x8"
definition ptePcd :: u64 where "ptePcd = 0x10"
definition ptePat :: u64 where "ptePat = 0x80"
definition ptePagesize :: u64 where "ptePagesize = 0x80"
definition pteGlobal :: u64 where "pteGlobal = 0x100"
definition ptePatLarge :: u64 where "ptePatLarge = 0x1000"
definition pteAddress :: u64 where "pteAddress = 0x000FFFFFFFFFF000"
definition pteNoExecute :: u64 where "pteNoExecute = 0x8000000000000000"

lemmas pte_masks = ptePresent_def pteWrite_def pteUser_def ptePwt_def ptePcd_def ptePat_def
  ptePagesize_def pteGlobal_def ptePatLarge_def pteAddress_def pteNoExecute_def

definition pte_is_zero :: "u64 \<Rightarrow> bool" where
  "pte_is_zero pte = (pte = 0)"

definition pte_is_large :: "u64 \<Rightarrow> nat \<Rightarrow> bool" where
  "pte_is_large pte lvl = (lvl > 0 \<and> pte AND ptePagesize \<noteq> 0)"

definition pte_paddr :: "u64 \<Rightarrow> u64" where
  "pte_paddr pte = pte AND pteAddress"

definition pte_make_dir :: "u64 \<Rightarrow> u64" where
  "pte_make_dir pa = ptePresent OR pteWrite OR pteUser OR pa"

definition pte_pat_bits :: "nat \<Rightarrow> vm_cache \<Rightarrow> u64" where
  "pte_pat_bits level cache =
     (case cache of
        VM_WC \<Rightarrow> (if level > 0 then ptePatLarge else ptePat) OR ptePwt
      | VM_WT \<Rightarrow> ptePwt
      | VM_WB \<Rightarrow> 0
      | VM_UC \<Rightarrow> ptePwt OR ptePwt
      | _ \<Rightarrow> ptePcd OR ptePwt)"

definition pte_make :: "nat \<Rightarrow> u64 \<Rightarrow> u32 \<Rightarrow> vm_cache \<Rightarrow> u64" where
  "pte_make level pa prot cache =
     (let pte = 0;
          pte = (if prot AND VM_READ \<noteq> 0 then pte OR ptePresent else pte);
          pte = (if prot AND VM_WRITE \<noteq> 0 then pte OR ptePresent OR pteWrite else pte);
          pte = (if prot AND VM_EXECUTE = 0 then pte OR pteNoExecute else pte);
          pte = (if prot AND VM_USER \<noteq> 0 then pte OR pteUser else pte);
          pte = (if prot AND VM_GLOBAL \<noteq> 0 then pte OR pteGlobal else pte);
          pte = (if level > 0 then pte OR ptePagesize else pte);
          pte = pte OR pte_pat_bits level cache
      in pte OR pa)"

section \<open>Walking the tables\<close>

definition PMAP_LEVEL_SHIFTS :: "nat list" where "PMAP_LEVEL_SHIFTS = [12, 21, 30, 39, 48]"
definition PMAP_LEVEL_BITS :: "nat list" where "PMAP_LEVEL_BITS = [9, 9, 9, 9, 9]"
definition PMAP_LEVEL_ENTRIES :: "nat list" where "PMAP_LEVEL_ENTRIES = [512, 512, 512, 512, 512]"
definition PMAP_LARGE_PAGE_SIZES :: "nat list" where "PMAP_LARGE_PAGE_SIZES = [2097152, 1073741824]"

definition pt_index :: "u64 \<Rightarrow> nat \<Rightarrow> nat" where
  "pt_index va lvl =
     unat (drop_bit (PMAP_LEVEL_SHIFTS ! lvl) va AND (push_bit (PMAP_LEVEL_BITS ! lvl) 1 - 1))"

definition frame :: "u64 \<Rightarrow> nat" where
  "frame pa = unat (drop_bit 12 pa)"

definition set_tab :: "nat \<Rightarrow> nat \<Rightarrow> u64 \<Rightarrow> vm \<Rightarrow> vm" where
  "set_tab t i pte s = s\<lparr>vm_tab := (vm_tab s)(t := (vm_tab s t)(i := pte))\<rparr>"

definition pmm_alloc_zeroed :: "vm \<Rightarrow> (u64 \<times> vm) res" where
  "pmm_alloc_zeroed s =
     bindR (pmm_alloc_order 0 (vm_pmm s)) (\<lambda>(page, pm).
       case page of
         None \<Rightarrow> Inr (0, set_pmm pm s)
       | Some n \<Rightarrow>
           bindR (page_zero (Some n) 0 (vm_phys (set_pmm pm s))) (\<lambda>ph.
           bindR (page_at (pm_pages pm) n) (\<lambda>p.
             Inr (of_nat (page_to_addr p),
                  s\<lparr>vm_phys := ph, vm_tab := (vm_tab s)(pg_pfn p := (\<lambda>_. 0))\<rparr>))))"

text \<open>One iteration: the entry of the next table, made when it is zero and \<open>alloc\<close> says so;
  \<open>None\<close> when the walk returns a null pointer.\<close>

definition pte_next :: "bool \<Rightarrow> nat \<Rightarrow> nat \<Rightarrow> nat \<Rightarrow> vm \<Rightarrow> (u64 option \<times> vm) res" where
  "pte_next alloc lvl table i s =
     (let pte = vm_tab s table i in
      if pte_is_zero pte then
        if \<not> alloc then Inr (None, s)
        else bindR (pmm_alloc_zeroed s) (\<lambda>(pa, s1).
               ensure (pa \<noteq> 0) AssertFail (
                 Inr (Some (pte_make_dir pa), set_tab table i (pte_make_dir pa) s1)))
      else ensure (\<not> pte_is_large pte lvl) AssertFail (Inr (Some pte, s)))"

fun pte_walk :: "u64 \<Rightarrow> nat \<Rightarrow> bool \<Rightarrow> nat \<Rightarrow> nat \<Rightarrow> vm \<Rightarrow> ((nat \<times> nat) option \<times> vm) res" where
  "pte_walk va atLevel alloc 0 table s =
     (if atLevel = 0 then Inr (Some (table, pt_index va 0), s)
      else bindR (pte_next alloc 0 table (pt_index va 0) s) (\<lambda>(pte, s1).
             case pte of None \<Rightarrow> Inr (None, s1) | Some _ \<Rightarrow> Inl OutOfBounds))"
| "pte_walk va atLevel alloc (Suc lvl) table s =
     (if atLevel = Suc lvl then Inr (Some (table, pt_index va (Suc lvl)), s)
      else bindR (pte_next alloc (Suc lvl) table (pt_index va (Suc lvl)) s) (\<lambda>(pte, s1).
             case pte of
               None \<Rightarrow> Inr (None, s1)
             | Some pte \<Rightarrow> pte_walk va atLevel alloc lvl (frame (pte_paddr pte)) s1))"

definition pte_fetch :: "nat \<Rightarrow> u64 \<Rightarrow> u64 \<Rightarrow> nat \<Rightarrow> bool \<Rightarrow> vm \<Rightarrow> ((nat \<times> nat) option \<times> vm) res" where
  "pte_fetch lv root va atLevel alloc s = pte_walk va atLevel alloc (lv - 1) (frame root) s"

section \<open>Mapping and unmapping\<close>

definition pmap_map :: "nat \<Rightarrow> u64 \<Rightarrow> u64 \<Rightarrow> u64 \<Rightarrow> nat \<Rightarrow> u32 \<Rightarrow> vm_cache \<Rightarrow> vm \<Rightarrow> vm res" where
  "pmap_map lv root va pa level prot cache s =
     ensure (prot AND VM_READ \<noteq> 0) AssertFail (
     bindR (pte_fetch lv root va level True s) (\<lambda>(ppte, s1).
       case ppte of
         None \<Rightarrow> Inl AssertFail
       | Some (t, i) \<Rightarrow> Inr (set_tab t i (pte_make level pa prot cache) s1)))"

definition UINTPTR_MAX :: u64 where "UINTPTR_MAX = 0xFFFFFFFFFFFFFFFF"

definition do_unmap :: "nat \<Rightarrow> u64 \<Rightarrow> u64 \<Rightarrow> nat \<Rightarrow> vm \<Rightarrow> (u64 \<times> vm) res" where
  "do_unmap lv root va level s =
     bindR (pte_fetch lv root va level False s) (\<lambda>(ppte, s1).
       case ppte of
         None \<Rightarrow> Inr (UINTPTR_MAX, s1)
       | Some (t, i) \<Rightarrow> Inr (pte_paddr (vm_tab s1 t i), set_tab t i 0 s1))"

definition pmap_unmap :: "nat \<Rightarrow> u64 \<Rightarrow> u64 \<Rightarrow> nat \<Rightarrow> vm \<Rightarrow> (u64 \<times> vm) res" where
  "pmap_unmap lv root va level s = do_unmap lv root va level s"

definition page_size_of :: "nat \<Rightarrow> nat" where
  "page_size_of level = (if level = 0 then PAGE_SIZE else PMAP_LARGE_PAGE_SIZES ! (level - 1))"

text \<open>A loop \<open>for (i = 0; i < length; i += pgsz)\<close> over a range.\<close>

fun over_range :: "(u64 \<Rightarrow> vm \<Rightarrow> vm res) \<Rightarrow> u64 \<Rightarrow> nat \<Rightarrow> nat \<Rightarrow> vm \<Rightarrow> vm res" where
  "over_range f va pgsz 0 s = Inr s"
| "over_range f va pgsz (Suc n) s = bindR (f va s) (over_range f (va + of_nat pgsz) pgsz n)"

definition page_count :: "u64 \<Rightarrow> nat \<Rightarrow> nat" where
  "page_count len pgsz = (unat len + pgsz - 1) div pgsz"

definition pmap_unmap_range :: "nat \<Rightarrow> u64 \<Rightarrow> u64 \<Rightarrow> u64 \<Rightarrow> nat \<Rightarrow> vm \<Rightarrow> vm res" where
  "pmap_unmap_range lv root va len level s =
     (let pgsz = page_size_of level in
      over_range (\<lambda>a s. bindR (do_unmap lv root a level s) (\<lambda>(_, s'). Inr s')) va pgsz
        (page_count len pgsz) s)"

definition protect_one :: "nat \<Rightarrow> u64 \<Rightarrow> u32 \<Rightarrow> vm_cache \<Rightarrow> nat \<Rightarrow> u64 \<Rightarrow> vm \<Rightarrow> vm res" where
  "protect_one lv root prot cache level va s =
     bindR (pte_fetch lv root va level False s) (\<lambda>(ppte, s1).
       case ppte of
         None \<Rightarrow> Inr s1
       | Some (t, i) \<Rightarrow>
           let pte = vm_tab s1 t i in
           if pte_is_zero pte then Inr s1
           else Inr (set_tab t i (pte_make level (pte_paddr pte) prot cache) s1))"

definition pmap_protect_range :: "nat \<Rightarrow> u64 \<Rightarrow> u64 \<Rightarrow> u64 \<Rightarrow> u32 \<Rightarrow> vm_cache \<Rightarrow> nat \<Rightarrow> vm \<Rightarrow> vm res" where
  "pmap_protect_range lv root va len prot cache level s =
     (let pgsz = page_size_of level in
      over_range (protect_one lv root prot cache level) va pgsz (page_count len pgsz) s)"

definition vm_pmm_free :: "u64 \<Rightarrow> vm \<Rightarrow> vm res" where
  "vm_pmm_free pa s = bindR (pmm_free (unat pa) (vm_pmm s)) (\<lambda>pm. Inr (set_pmm pm s))"

fun free_batch :: "u64 list \<Rightarrow> vm \<Rightarrow> vm res" where
  "free_batch [] s = Inr s"
| "free_batch (pa # pas) s = bindR (vm_pmm_free pa s) (free_batch pas)"

definition FREE_BATCH :: nat where "FREE_BATCH = 32"

fun unmap_free_loop :: "nat \<Rightarrow> u64 \<Rightarrow> u64 \<Rightarrow> nat \<Rightarrow> u64 list \<Rightarrow> vm \<Rightarrow> vm res" where
  "unmap_free_loop lv root va 0 batch s = free_batch batch s"
| "unmap_free_loop lv root va (Suc n) batch s =
     bindR (do_unmap lv root va 0 s) (\<lambda>(pa, s1).
       let batch' = batch @ [pa] in
       if length batch' = FREE_BATCH
       then bindR (free_batch batch' s1) (unmap_free_loop lv root (va + 0x1000) n [])
       else unmap_free_loop lv root (va + 0x1000) n batch' s1)"

definition pmap_unmap_range_and_free :: "nat \<Rightarrow> u64 \<Rightarrow> u64 \<Rightarrow> u64 \<Rightarrow> nat \<Rightarrow> vm \<Rightarrow> vm res" where
  "pmap_unmap_range_and_free lv root base len level s =
     ensure (level = 0) AssertFail (
       unmap_free_loop lv root base (page_count len PAGE_SIZE) [] s)"

section \<open>Large mappings\<close>

text \<open>The level and the size the loop over \<open>PMAP_LARGE_PAGE_SIZES\<close> chooses, largest first.\<close>

definition fits :: "nat \<Rightarrow> nat \<Rightarrow> nat \<Rightarrow> nat \<Rightarrow> bool" where
  "fits cur stop va sz = (cur + sz \<le> stop \<and> cur mod sz = 0 \<and> va mod sz = 0)"

definition choose_level :: "nat \<Rightarrow> nat \<Rightarrow> nat \<Rightarrow> nat \<times> nat" where
  "choose_level cur stop va =
     (if fits cur stop va (PMAP_LARGE_PAGE_SIZES ! 1) then (2, PMAP_LARGE_PAGE_SIZES ! 1)
      else if fits cur stop va (PMAP_LARGE_PAGE_SIZES ! 0) then (1, PMAP_LARGE_PAGE_SIZES ! 0)
      else (0, PAGE_SIZE))"

text \<open>Each small page mapped makes progress by a page; the inner loop that maps up to the next large
  boundary only skips the choice of a level for pages that cannot start a large one.\<close>

fun map_small :: "nat \<Rightarrow> u64 \<Rightarrow> nat \<Rightarrow> nat \<Rightarrow> nat \<Rightarrow> u32 \<Rightarrow> vm_cache \<Rightarrow> vm \<Rightarrow> vm res" where
  "map_small lv root va cur 0 prot cache s = Inr s"
| "map_small lv root va cur (Suc n) prot cache s =
     bindR (pmap_map lv root (of_nat va) (of_nat cur) 0 prot cache s)
       (map_small lv root (va + PAGE_SIZE) (cur + PAGE_SIZE) n prot cache)"

text \<open>One iteration, which says how far \<open>cur\<close> moves. When the part up to the next large boundary
  is shorter than a page, it does not move. Addresses are taken not to wrap.\<close>

definition large_map_step :: "nat \<Rightarrow> u64 \<Rightarrow> nat \<Rightarrow> nat \<Rightarrow> nat \<Rightarrow> u32 \<Rightarrow> vm_cache \<Rightarrow> vm \<Rightarrow> (nat \<times> vm) res" where
  "large_map_step lv root va cur stop prot cache s =
     (case choose_level cur stop va of (level, sz) \<Rightarrow>
        if level \<noteq> 0 then
          bindR (pmap_map lv root (of_nat va) (of_nat cur) level prot cache s) (\<lambda>s1. Inr (sz, s1))
        else
          let misalign = cur mod (PMAP_LARGE_PAGE_SIZES ! 0) in
          if misalign \<noteq> 0 then
            let advance = PMAP_LARGE_PAGE_SIZES ! 0 - misalign;
                advance = (if cur + advance > stop then stop - cur else advance);
                n = advance div 2 ^ PAGE_SHIFT in
            bindR (map_small lv root va cur n prot cache s) (\<lambda>s1. Inr (n * PAGE_SIZE, s1))
          else
            bindR (pmap_map lv root (of_nat va) (of_nat cur) 0 prot cache s) (\<lambda>s1. Inr (PAGE_SIZE, s1)))"

text \<open>Returns where \<open>cur\<close> is after the loop.\<close>

function large_map_loop :: "nat \<Rightarrow> u64 \<Rightarrow> nat \<Rightarrow> nat \<Rightarrow> nat \<Rightarrow> nat \<Rightarrow> u32 \<Rightarrow> vm_cache \<Rightarrow> vm \<Rightarrow> (nat \<times> vm) res" where
  "large_map_loop lv root base vbase cur stop prot cache s =
     (if cur < stop then
        bindR (large_map_step lv root (vbase + (cur - base)) cur stop prot cache s) (\<lambda>(adv, s1).
          if adv = 0 then Inl Diverges
          else large_map_loop lv root base vbase (cur + adv) stop prot cache s1)
      else Inr (cur, s))"
  by pat_completeness auto
termination
  by (relation "measure (\<lambda>(lv, root, base, vbase, cur, stop, prot, cache, s). stop - cur)") auto

declare large_map_loop.simps [simp del]

definition pmap_large_map_range :: "nat \<Rightarrow> u64 \<Rightarrow> nat \<Rightarrow> nat \<Rightarrow> nat \<Rightarrow> u32 \<Rightarrow> vm_cache \<Rightarrow> vm \<Rightarrow> vm res" where
  "pmap_large_map_range lv root base len vbase prot cache s =
     bindR (large_map_loop lv root base vbase base (base + len) prot cache s) (\<lambda>(cur, s1).
       ensure (cur = base + len) AssertFail (Inr s1))"

section \<open>Whole page tables\<close>

record pmap =
  mapped_on :: "u64 list"
  top_level :: u64

definition top_limit :: "nat \<Rightarrow> nat \<Rightarrow> nat res" where
  "top_limit lv lvl =
     bindR (ld PMAP_LEVEL_ENTRIES lvl) (\<lambda>limit. Inr (if lvl = lv - 1 then limit div 2 else limit))"

text \<open>Level 0 entries, and large ones, are zeroed; a table below is freed after what it holds.\<close>

fun pmap_free_table_level :: "nat \<Rightarrow> nat \<Rightarrow> nat \<Rightarrow> vm \<Rightarrow> vm res" where
  "pmap_free_table_level lv 0 table s =
     bindR (top_limit lv 0) (\<lambda>limit.
       each_index (\<lambda>i s. if pte_is_zero (vm_tab s table i) then Inr s else Inr (set_tab table i 0 s))
         [0..<limit] s)"
| "pmap_free_table_level lv (Suc lvl) table s =
     bindR (top_limit lv (Suc lvl)) (\<lambda>limit.
       each_index (\<lambda>i s.
         let pte = vm_tab s table i in
         if pte_is_zero pte then Inr s
         else if \<not> pte_is_large pte (Suc lvl) then
           bindR (pmap_free_table_level lv lvl (frame (pte_paddr pte)) s) (vm_pmm_free (pte_paddr pte))
         else Inr (set_tab table i 0 s)) [0..<limit] s)"

definition is_pmap_mapped :: "pmap \<Rightarrow> bool" where
  "is_pmap_mapped pm = (\<exists>b \<in> set (mapped_on pm). b \<noteq> 0)"

definition pmap_destroy :: "nat \<Rightarrow> bool \<Rightarrow> pmap \<Rightarrow> vm \<Rightarrow> (pmap \<times> vm) res" where
  "pmap_destroy lv is_kernel pm s =
     ensure (top_level pm \<noteq> 0) AssertFail (
     ensure (\<not> is_kernel) AssertFail (
     ensure (\<not> is_pmap_mapped pm) KPanic (
     bindR (pmap_free_table_level lv (lv - 1) (frame (top_level pm)) s) (\<lambda>s1.
     bindR (vm_pmm_free (top_level pm) s1) (\<lambda>s2.
       Inr (pm\<lparr>top_level := 0\<rparr>, s2))))))"

text \<open>Both loops read \<open>PMAP_LEVEL_ENTRIES\<close> at \<open>PMAP_LEVELS\<close>.\<close>

definition upper_half :: "nat \<Rightarrow> nat list res" where
  "upper_half lv = bindR (ld PMAP_LEVEL_ENTRIES lv) (\<lambda>n. Inr [n div 2..<n])"

definition pmap_kernel_bootstrap :: "nat \<Rightarrow> pmap \<Rightarrow> vm \<Rightarrow> (pmap \<times> vm) res" where
  "pmap_kernel_bootstrap lv pm s =
     bindR (pmm_alloc_zeroed s) (\<lambda>(pa, s1).
     bindR (upper_half lv) (\<lambda>idx.
     bindR (each_index (\<lambda>i s.
              if pte_is_zero (vm_tab s (frame pa) i) then
                bindR (pmm_alloc_zeroed s) (\<lambda>(pa1, s'). Inr (set_tab (frame pa) i (pte_make_dir pa1) s'))
              else Inr s) idx s1) (\<lambda>s2.
       Inr (pm\<lparr>top_level := pa\<rparr>, s2))))"

definition pmap_init :: "nat \<Rightarrow> u64 \<Rightarrow> pmap \<Rightarrow> vm \<Rightarrow> (pmap \<times> vm) res" where
  "pmap_init lv kernel_top pm s =
     bindR (pmm_alloc_zeroed s) (\<lambda>(pa, s1).
     bindR (upper_half lv) (\<lambda>idx.
     bindR (each_index (\<lambda>i s.
              let s' = set_tab (frame pa) i (vm_tab s (frame kernel_top) i) s in
              ensure (vm_tab s' (frame pa) i \<noteq> 0) AssertFail (Inr s')) idx s1) (\<lambda>s2.
       Inr (pm\<lparr>top_level := pa\<rparr>, s2))))"

section \<open>Bits of directory entries\<close>

lemma pa_bit: "n < 2 ^ 40 \<Longrightarrow> bit (of_nat (n * 4096) :: u64) j \<longleftrightarrow> 12 \<le> j \<and> j < 52 \<and> bit n (j - 12)"
proof -
  assume n: "n < 2 ^ 40"
  have eq: "(of_nat (n * 4096) :: u64) = push_bit 12 (of_nat n)"
    by (simp add: push_bit_eq_mult mult.commute)
  have hi: "bit n k \<Longrightarrow> k < 40" for k
    using n by (metis bit_take_bit_iff take_bit_nat_eq_self)
  show ?thesis unfolding eq
    by (auto simp: bit_push_bit_iff bit_of_nat_iff dest: hi)
qed

lemma mask_bits:
  "bit pteAddress j \<longleftrightarrow> 12 \<le> j \<and> j < 52" "bit ptePresent j \<longleftrightarrow> j = 0"
  "bit pteWrite j \<longleftrightarrow> j = 1" "bit pteUser j \<longleftrightarrow> j = 2" "bit ptePagesize j \<longleftrightarrow> j = 7"
proof -
  have eq: "pteAddress = push_bit 12 (mask 40)" "ptePresent = push_bit 0 1" "pteWrite = push_bit 1 1"
    "pteUser = push_bit 2 1" "ptePagesize = push_bit 7 1"
    by (simp_all add: pte_masks push_bit_eq_mult mask_eq_exp_minus_1)
  show "bit pteAddress j \<longleftrightarrow> 12 \<le> j \<and> j < 52" unfolding eq by (auto simp: bit_push_bit_iff bit_mask_iff)
  show "bit ptePresent j \<longleftrightarrow> j = 0" "bit pteWrite j \<longleftrightarrow> j = 1" "bit pteUser j \<longleftrightarrow> j = 2"
    "bit ptePagesize j \<longleftrightarrow> j = 7"
    unfolding eq bit_push_bit_iff bit_1_iff by auto
qed

lemma frame_of_pa: "n < 2 ^ 40 \<Longrightarrow> frame (of_nat (n * 4096)) = n"
proof -
  assume n: "n < 2 ^ 40"
  then have "unat (of_nat (n * 4096) :: u64) = n * 4096"
    by (simp add: unsigned_of_nat take_bit_nat_eq_self del: of_nat_mult)
  then show ?thesis unfolding frame_def unat_drop_bit_eq by (simp add: drop_bit_eq_div del: of_nat_mult)
qed

lemma dir_facts:
  assumes n: "n < 2 ^ 40"
  defines "pte \<equiv> pte_make_dir (of_nat (n * 4096))"
  shows "pte \<noteq> 0" "\<not> pte_is_large pte l" "frame (pte_paddr pte) = n"
proof -
  define pa :: u64 where "pa = of_nat (n * 4096)"
  note pab = pa_bit [OF n, folded pa_def]
  have b: "bit pte j \<longleftrightarrow> j < 3 \<or> bit pa j" for j
    unfolding pte_def pte_make_dir_def bit_or_iff mask_bits pa_def by auto
  have "bit pte 0" by (simp add: b)
  then show "pte \<noteq> 0" by auto
  have "pte AND ptePagesize = 0"
    by (rule bit_eqI) (auto simp: bit_and_iff b mask_bits pab)
  then show "\<not> pte_is_large pte l" by (simp add: pte_is_large_def)
  have "pte_paddr pte = pa"
    unfolding pte_paddr_def by (rule bit_eqI) (auto simp: bit_and_iff b mask_bits pab)
  then show "frame (pte_paddr pte) = n" using frame_of_pa [OF n] by (simp add: pa_def)
qed

section \<open>The tree of tables\<close>

text \<open>\<open>ix lv va k\<close>: the index used at the \<open>k\<close>-th table from the top; \<open>path\<close>: that table.\<close>

definition ix :: "nat \<Rightarrow> u64 \<Rightarrow> nat \<Rightarrow> nat" where
  "ix lv va k = pt_index va (lv - 1 - k)"

primrec path :: "nat \<Rightarrow> u64 \<Rightarrow> (nat \<Rightarrow> nat \<Rightarrow> u64) \<Rightarrow> u64 \<Rightarrow> nat \<Rightarrow> nat option" where
  "path lv root tab va 0 = Some (frame root)"
| "path lv root tab va (Suc d) =
     (case path lv root tab va d of
        None \<Rightarrow> None
      | Some t \<Rightarrow> if tab t (ix lv va d) = 0 then None else Some (frame (pte_paddr (tab t (ix lv va d)))))"

text \<open>The entry that translates \<open>va\<close>: zero when a table on the way is missing.\<close>

definition leaf_pte :: "nat \<Rightarrow> u64 \<Rightarrow> (nat \<Rightarrow> nat \<Rightarrow> u64) \<Rightarrow> u64 \<Rightarrow> u64" where
  "leaf_pte lv root tab va =
     (case path lv root tab va (lv - 1) of None \<Rightarrow> 0 | Some t \<Rightarrow> tab t (ix lv va (lv - 1)))"

definition tree_ok :: "nat \<Rightarrow> u64 \<Rightarrow> (nat \<Rightarrow> nat \<Rightarrow> u64) \<Rightarrow> nat set \<Rightarrow> bool" where
  "tree_ok lv root tab S \<longleftrightarrow>
     (\<forall>va d t. d < lv \<longrightarrow> path lv root tab va d = Some t \<longrightarrow> t \<in> S \<and>
        (Suc d < lv \<longrightarrow> \<not> pte_is_large (tab t (ix lv va d)) (lv - 1 - d))) \<and>
     (\<forall>va va' d d' t. d < lv \<longrightarrow> d' < lv \<longrightarrow> path lv root tab va d = Some t \<longrightarrow>
        path lv root tab va' d' = Some t \<longrightarrow> d = d' \<and> (\<forall>k < d. ix lv va k = ix lv va' k))"

definition same_page :: "nat \<Rightarrow> u64 \<Rightarrow> u64 \<Rightarrow> bool" where
  "same_page lv va va' \<longleftrightarrow> (\<forall>k < lv. ix lv va k = ix lv va' k)"

lemma tree_okD:
  assumes "tree_ok lv root tab S" "d < lv" "path lv root tab va d = Some t"
  shows "t \<in> S" "Suc d < lv \<Longrightarrow> \<not> pte_is_large (tab t (ix lv va d)) (lv - 1 - d)"
    and "d' < lv \<Longrightarrow> path lv root tab va' d' = Some t \<Longrightarrow> d' = d \<and> (\<forall>k < d. ix lv va k = ix lv va' k)"
  using assms unfolding tree_ok_def by blast+

lemma path_cong: "(\<And>k. k < d \<Longrightarrow> ix lv va k = ix lv va' k) \<Longrightarrow> path lv root tab va d = path lv root tab va' d"
  by (induction d) (auto split: option.splits)

lemma path_None: "path lv root tab va d = None \<Longrightarrow> d \<le> d' \<Longrightarrow> path lv root tab va d' = None"
  by (induction d') (auto simp: le_Suc_eq)

text \<open>A write to one entry of one table changes the paths that go through that entry only.\<close>

lemma path_write:
  assumes ok: "tree_ok lv root tab S" and t: "d0 < lv" "path lv root tab va d0 = Some t"
    and out: "\<And>x j. x \<in> S \<Longrightarrow> (x, j) \<noteq> (t, ix lv va d0) \<Longrightarrow> tab' x j = tab x j"
    and d: "d < lv" "d \<le> d0 \<or> (\<exists>k \<le> d0. ix lv va k \<noteq> ix lv va' k)"
  shows "path lv root tab' va' d = path lv root tab va' d"
  using d
proof (induction d)
  case (Suc d)
  then have IH: "path lv root tab' va' d = path lv root tab va' d" by auto
  show ?case
  proof (cases "path lv root tab va' d")
    case (Some t1)
    have "t1 \<in> S" using tree_okD(1) [OF ok _ Some] Suc.prems by simp
    moreover have "(t1, ix lv va' d) \<noteq> (t, ix lv va d0)"
    proof
      assume eq: "(t1, ix lv va' d) = (t, ix lv va d0)"
      then have "d = d0 \<and> (\<forall>k < d0. ix lv va k = ix lv va' k)"
        using tree_okD(3) [OF ok t, of d va'] Some Suc.prems by auto
      with eq Suc.prems(2) show False by (metis Pair_inject Suc_n_not_le_n nat_less_le)
    qed
    ultimately show ?thesis using IH Some out by simp
  qed (simp add: IH)
qed simp

lemma leaf_write:
  fixes pte :: u64
  assumes ok: "tree_ok lv root tab S" and lv: "0 < lv" and t: "path lv root tab va (lv - 1) = Some t"
  defines "tab' \<equiv> tab(t := (tab t)(ix lv va (lv - 1) := pte))"
  shows "tree_ok lv root tab' S" "leaf_pte lv root tab' va = pte"
    and "\<not> same_page lv va va' \<Longrightarrow> leaf_pte lv root tab' va' = leaf_pte lv root tab va'"
proof -
  have out: "tab' x j = tab x j" if "(x, j) \<noteq> (t, ix lv va (lv - 1))" for x j
    using that by (auto simp: tab'_def)
  have path: "path lv root tab' va' d = path lv root tab va' d" if "d < lv" for va' d
    by (rule path_write [OF ok _ t out]) (use that lv in auto)
  have inner: "tab' x (ix lv va' d) = tab x (ix lv va' d)" if "path lv root tab va' d = Some x" "Suc d < lv" for x va' d
  proof (rule out)
    show "(x, ix lv va' d) \<noteq> (t, ix lv va (lv - 1))"
      using tree_okD(3) [OF ok _ t, of d va'] that by auto
  qed
  show "tree_ok lv root tab' S"
    unfolding tree_ok_def
  proof (intro conjI allI impI)
    fix va' d x assume d: "d < lv" "path lv root tab' va' d = Some x"
    then have old: "path lv root tab va' d = Some x" using path by simp
    then show "x \<in> S" using tree_okD(1) [OF ok d(1)] by simp
    assume "Suc d < lv"
    then show "\<not> pte_is_large (tab' x (ix lv va' d)) (lv - 1 - d)"
      using tree_okD(2) [OF ok d(1) old] inner [OF old] by simp
  next
    fix va1 va2 d d' x
    assume "d < lv" "d' < lv" "path lv root tab' va1 d = Some x" "path lv root tab' va2 d' = Some x"
    then show "d = d'" "k < d \<Longrightarrow> ix lv va1 k = ix lv va2 k" for k
      using tree_okD(3) [OF ok, of d va1 x d' va2] path by auto
  qed
  show "leaf_pte lv root tab' va = pte"
    using path [of "lv - 1" va] lv t by (simp add: leaf_pte_def tab'_def)
  show "leaf_pte lv root tab' va' = leaf_pte lv root tab va'" if ne: "\<not> same_page lv va va'"
  proof (cases "path lv root tab va' (lv - 1)")
    case (Some x)
    have "(x, ix lv va' (lv - 1)) \<noteq> (t, ix lv va (lv - 1))"
    proof
      assume eq: "(x, ix lv va' (lv - 1)) = (t, ix lv va (lv - 1))"
      then have "\<forall>k < lv - 1. ix lv va k = ix lv va' k"
        using tree_okD(3) [OF ok _ t, of "lv - 1" va'] Some lv by auto
      with eq have "same_page lv va va'"
        unfolding same_page_def by (metis Pair_inject Suc_pred' less_antisym lv)
      with ne show False by simp
    qed
    then show ?thesis using path [of "lv - 1" va'] lv Some out by (simp add: leaf_pte_def)
  qed (use path [of "lv - 1" va'] lv in \<open>simp add: leaf_pte_def\<close>)
qed

text \<open>A new, empty table below an entry that was zero.\<close>

lemma dir_write:
  assumes ok: "tree_ok lv root tab S" and d0: "Suc d0 < lv" and t: "path lv root tab va d0 = Some t"
    and zero: "tab t (ix lv va d0) = 0" and n: "n \<notin> S" "n < 2 ^ 40"
  defines "tab' \<equiv> (tab(n := (\<lambda>_. 0)))(t := (tab t)(ix lv va d0 := pte_make_dir (of_nat (n * 4096))))"
  shows "tree_ok lv root tab' (insert n S)" "path lv root tab' va (Suc d0) = Some n"
    and "leaf_pte lv root tab' va' = leaf_pte lv root tab va'"
proof -
  note dir = dir_facts [OF n(2)]
  have tS: "t \<in> S" using tree_okD(1) [OF ok _ t] d0 by simp
  then have tn: "t \<noteq> n" using n by auto
  have out: "tab' x j = tab x j" if "x \<in> S" "(x, j) \<noteq> (t, ix lv va d0)" for x j
    using that n by (auto simp: tab'_def)
  have n0: "tab' n j = 0" for j using tn by (simp add: tab'_def)
  have ti: "tab' t (ix lv va d0) = pte_make_dir (of_nat (n * 4096))" by (simp add: tab'_def)
  define through where "through va' \<longleftrightarrow> (\<forall>k \<le> d0. ix lv va k = ix lv va' k)" for va'
  have old: "path lv root tab' va' d = path lv root tab va' d" if "d < lv" "d \<le> d0 \<or> \<not> through va'" for va' d
    by (rule path_write [OF ok _ t out]) (use that d0 in \<open>auto simp: through_def\<close>)
  have at: "path lv root tab' va' d0 = Some t" if "through va'" for va'
    using path_cong [of d0 lv va va' root tab] that old [of d0 va'] d0 t by (simp add: through_def)
  have new: "path lv root tab' va' (Suc d0) = Some n" if "through va'" for va'
    using at [OF that] that dir ti by (simp add: through_def)
  have below: "path lv root tab' va' d = None" if "through va'" "Suc d0 < d" for va' d
  proof (rule path_None)
    show "path lv root tab' va' (Suc (Suc d0)) = None" using new [OF that(1)] n0 by simp
  qed (use that in simp)
  have paths: "path lv root tab' va' d = Some x \<Longrightarrow> d < lv \<Longrightarrow>
      (through va' \<and> d = Suc d0 \<and> x = n) \<or> ((d \<le> d0 \<or> \<not> through va') \<and> path lv root tab va' d = Some x)" for va' d x
    using old [of d va'] new [of va'] below [of va' d]
    by (cases "through va' \<and> d0 < d"; cases "d = Suc d0") auto
  have xS: "x \<in> S" if "path lv root tab va' d = Some x" "d < lv" for va' d x
    using tree_okD(1) [OF ok that(2,1)] .
  show "path lv root tab' va (Suc d0) = Some n" by (rule new) (simp add: through_def)
  show "tree_ok lv root tab' (insert n S)"
    unfolding tree_ok_def
  proof (intro conjI allI impI)
    fix va' d x assume d: "d < lv" "path lv root tab' va' d = Some x"
    then show "x \<in> insert n S" using paths [OF d(2,1)] xS by auto
    assume sd: "Suc d < lv"
    show "\<not> pte_is_large (tab' x (ix lv va' d)) (lv - 1 - d)"
    proof (cases "x = n")
      case True
      then show ?thesis using n0 by (simp add: pte_is_large_def)
    next
      case False
      then have o: "path lv root tab va' d = Some x" using paths [OF d(2,1)] by auto
      show ?thesis
      proof (cases "(x, ix lv va' d) = (t, ix lv va d0)")
        case True
        then show ?thesis using ti dir(2) by simp
      next
        case False
        then show ?thesis using out [OF xS [OF o d(1)]] tree_okD(2) [OF ok d(1) o sd] by simp
      qed
    qed
  next
    fix va1 va2 d d' x
    assume d: "d < lv" "d' < lv" and x: "path lv root tab' va1 d = Some x" "path lv root tab' va2 d' = Some x"
    have "d = d' \<and> (\<forall>k < d. ix lv va1 k = ix lv va2 k)"
    proof (cases "x = n")
      case True
      then have "through va1 \<and> d = Suc d0" "through va2 \<and> d' = Suc d0"
        using paths [OF x(1) d(1)] paths [OF x(2) d(2)] xS d n(1) by metis+
      then show ?thesis by (auto simp: through_def less_Suc_eq_le)
    next
      case False
      then have "path lv root tab va1 d = Some x" "path lv root tab va2 d' = Some x"
        using paths [OF x(1) d(1)] paths [OF x(2) d(2)] by auto
      then show ?thesis using tree_okD(3) [OF ok d(1), of va1 x d' va2] d(2) by auto
    qed
    then show "d = d'" "k < d \<Longrightarrow> ix lv va1 k = ix lv va2 k" for k by auto
  qed
  show "leaf_pte lv root tab' va' = leaf_pte lv root tab va'"
  proof (cases "through va'")
    case True
    have "path lv root tab va' d0 = Some t" using at [OF True] old [of d0 va'] d0 by simp
    then have "path lv root tab va' (Suc d0) = None" using zero True by (simp add: through_def)
    then have "path lv root tab va' (lv - 1) = None" by (rule path_None) (use d0 in simp)
    moreover have "path lv root tab' va' (lv - 1) = (if lv - 1 = Suc d0 then Some n else None)"
      using new [OF True] below [OF True, of "lv - 1"] d0 by (cases "lv - 1 = Suc d0") auto
    ultimately show ?thesis by (simp add: leaf_pte_def n0)
  next
    case False
    have same: "path lv root tab' va' (lv - 1) = path lv root tab va' (lv - 1)"
      using old [of "lv - 1" va'] False d0 by simp
    show ?thesis
    proof (cases "path lv root tab va' (lv - 1)")
      case (Some x)
      have "(x, ix lv va' (lv - 1)) \<noteq> (t, ix lv va d0)"
        using tree_okD(3) [OF ok _ t, of "lv - 1" va'] Some d0 by auto
      then show ?thesis using same Some out xS [OF Some] d0 by (simp add: leaf_pte_def)
    qed (simp add: leaf_pte_def same del: One_nat_def)
  qed
qed

section \<open>Walks\<close>

definition frames_fit :: "pmm \<Rightarrow> bool" where
  "frames_fit pm \<longleftrightarrow> (\<forall>n p. pm_pages pm n = Some p \<longrightarrow> n < 2 ^ 40)"

text \<open>What a page-table operation leaves alone: the heap objects, and the bytes of the pages in use
  before it.\<close>

definition pt_step :: "vm \<Rightarrow> vm \<Rightarrow> bool" where
  "pt_step s s' \<longleftrightarrow> vm_objs s' = vm_objs s \<and> vm_anons s' = vm_anons s \<and> vm_amaps s' = vm_amaps s \<and>
     vm_next s' = vm_next s \<and> vm_kz s' = vm_kz s \<and>
     owned_pages (vm_pmm s) \<subseteq> owned_pages (vm_pmm s') \<and>
     (\<forall>n \<in> owned_pages (vm_pmm s). vm_mem s' n = vm_mem s n \<and>
        offset_of (vm_pmm s') n = offset_of (vm_pmm s) n)"

definition pt_ok :: "nat \<Rightarrow> u64 \<Rightarrow> vm \<Rightarrow> bool" where
  "pt_ok lv root s \<longleftrightarrow> 0 < lv \<and> pmm_inv (vm_pmm s) \<and> frames_fit (vm_pmm s) \<and>
     tree_ok lv root (vm_tab s) (owned_pages (vm_pmm s))"

lemma pt_step_refl [simp]: "pt_step s s"
  by (simp add: pt_step_def)

lemma pt_step_trans: "pt_step s s1 \<Longrightarrow> pt_step s1 s2 \<Longrightarrow> pt_step s s2"
  unfolding pt_step_def by (metis subset_eq)

lemma set_tab_simps [simp]:
  "vm_phys (set_tab t i pte s) = vm_phys s" "vm_objs (set_tab t i pte s) = vm_objs s"
  "vm_anons (set_tab t i pte s) = vm_anons s" "vm_amaps (set_tab t i pte s) = vm_amaps s"
  "vm_next (set_tab t i pte s) = vm_next s" "vm_kz (set_tab t i pte s) = vm_kz s"
  "vm_tab (set_tab t i pte s) = (vm_tab s)(t := (vm_tab s t)(i := pte))"
  by (simp_all add: set_tab_def)

lemma set_tab_step [simp]: "pt_step s (set_tab t i pte s)"
  by (simp add: pt_step_def)

text \<open>The frames the allocator has descriptors of.\<close>

definition managed :: "vm \<Rightarrow> nat set" where
  "managed s = dom (pm_pages (vm_pmm s))"

lemma managed_cong [simp]: "managed (set_tab t i pte s) = managed s"
  by (simp add: managed_def)

lemma pmm_alloc_zeroed_ok:
  assumes inv: "pmm_inv (vm_pmm s)" and fit: "frames_fit (vm_pmm s)"
  shows "\<exists>s'. pmm_alloc_zeroed s = Inr (0, s') \<and> free_pages (vm_pmm s) = 0 \<or>
    (\<exists>n. pmm_alloc_zeroed s = Inr (of_nat (n * 4096), s') \<and> n \<notin> owned_pages (vm_pmm s) \<and>
       owned_pages (vm_pmm s') = insert n (owned_pages (vm_pmm s)) \<and> pmm_inv (vm_pmm s') \<and>
       frames_fit (vm_pmm s') \<and> n < 2 ^ 40 \<and> vm_tab s' = (vm_tab s)(n := (\<lambda>_. 0)) \<and> pt_step s s' \<and>
       free_pages (vm_pmm s') + 1 = free_pages (vm_pmm s) \<and> managed s' = managed s \<and> n \<in> managed s)"
proof -
  let ?pm = "vm_pmm s"
  obtain r pm where a: "pmm_alloc_order 0 ?pm = Inr (r, pm)" "pmm_inv pm"
     "case r of None \<Rightarrow> owned_pages pm = owned_pages ?pm
      | Some n \<Rightarrow> n \<notin> owned_pages ?pm \<and> owned_pages pm = insert n (owned_pages ?pm)"
    using pages.p_alloc [OF inv] by blast
  have "pmm_ok ?pm" using inv by (simp add: pmm_inv_def)
  note free = alloc_page_iff [OF a(1) this] and dom = alloc_order_dom [OF a(1) this]
  show ?thesis
  proof (cases r)
    case None
    with a(1) free show ?thesis by (intro exI [of _ "set_pmm pm s"]) (simp add: pmm_alloc_zeroed_def)
  next
    case (Some n)
    then have n: "n \<notin> owned_pages ?pm" "owned_pages pm = insert n (owned_pages ?pm)" using a(3) by auto
    have ok: "pmm_ok ?pm" using inv by (simp add: pmm_inv_def)
    have meta: "but_order ((pm_pages pm)(n := None)) = but_order ((pm_pages ?pm)(n := None))"
      "\<exists>q. pm_pages ?pm n = Some q"
      using pmm_alloc_order_ok [OF ok, of 0] a(1) Some by (auto simp: BUDDY_ORDERS_def)
    obtain p where p: "pm_pages pm n = Some p" "pg_pfn p = n"
      using held_pfn [of pm n 0] a(2) n(2) by (auto simp: owned_pages_def pmm_inv_def)
    have n40: "n < 2 ^ 40" using meta(2) fit by (auto simp: frames_fit_def)
    have "m < 2 ^ 40" if "pm_pages pm m = Some q" for m q
    proof (cases "m = n")
      case False
      then have "but_order (pm_pages pm) m = but_order (pm_pages ?pm) m"
        using meta(1) by (metis (no_types) but_order_def fun_upd_other)
      then have "pm_pages ?pm m \<noteq> None" using that by (cases "pm_pages ?pm m") (auto simp: but_order_def)
      then show ?thesis using fit by (auto simp: frames_fit_def)
    qed (use n40 in simp)
    then have fit': "frames_fit pm" by (simp add: frames_fit_def)
    define ph where "ph = (vm_phys s)\<lparr>ph_pmm := pm, ph_mem := \<lambda>f. if n \<le> f \<and> f < n + 2 ^ 0 then (\<lambda>_. 0) else vm_mem s f\<rparr>"
    define s' where "s' = s\<lparr>vm_phys := ph, vm_tab := (vm_tab s)(n := (\<lambda>_. 0))\<rparr>"
    have "pmm_alloc_zeroed s = Inr (of_nat (n * 4096), s')"
      using a(1) Some p by (simp add: pmm_alloc_zeroed_def page_zero_def page_at_def set_pmm_def ph_def s'_def
          page_to_addr_def PAGE_SHIFT_def cong: if_cong)
    moreover have "pt_step s s'"
    proof -
      have "vm_mem s' m = vm_mem s m" "offset_of (vm_pmm s') m = offset_of (vm_pmm s) m"
        if "m \<in> owned_pages ?pm" for m
      proof -
        have "m \<noteq> n" using that n(1) by auto
        then show "vm_mem s' m = vm_mem s m" "offset_of (vm_pmm s') m = offset_of (vm_pmm s) m"
          using but_order_offset [OF meta(1), of m] by (auto simp: s'_def ph_def offset_of_def)
      qed
      then show ?thesis using n by (auto simp: pt_step_def s'_def ph_def)
    qed
    moreover have "managed s' = managed s" using dom by (simp add: managed_def s'_def ph_def BUDDY_ORDERS_def)
    moreover have "free_pages (vm_pmm s') + 1 = free_pages ?pm" using free Some by (simp add: s'_def ph_def)
    moreover have "n \<in> managed s" using meta(2) by (auto simp: managed_def)
    ultimately show ?thesis using n n40 a(2) fit' by (intro exI [of _ s'] disjI2 exI [of _ n]) (simp add: s'_def ph_def)
  qed
qed

text \<open>The tables on the way to \<open>va\<close> that do not exist yet. A walk that makes them needs that many pages; it
  also gives up when it is handed frame 0, whose address is the null pointer.\<close>

definition missing_tables :: "nat \<Rightarrow> u64 \<Rightarrow> (nat \<Rightarrow> nat \<Rightarrow> u64) \<Rightarrow> u64 \<Rightarrow> nat" where
  "missing_tables lv root tab va = length (filter (\<lambda>d. path lv root tab va d = None) [0..<lv])"

definition short_of_pages :: "nat \<Rightarrow> vm \<Rightarrow> bool" where
  "short_of_pages n s \<longleftrightarrow> free_pages (vm_pmm s) < n \<or> 0 \<in> managed s"

lemma missing_from:
  assumes "d < lv" "path lv root tab va d = Some t" "Suc d < lv \<Longrightarrow> path lv root tab va (Suc d) = None"
  shows "missing_tables lv root tab va = lv - Suc d"
proof -
  have "path lv root tab va k \<noteq> None" if "k \<le> d" for k
    using path_None [of lv root tab va k d] that assms(2) by auto
  then have "filter (\<lambda>d. path lv root tab va d = None) [0..<Suc d] = []" unfolding filter_empty_conv by auto
  moreover have "path lv root tab va k = None" if "d < k" "k < lv" for k
    using path_None [OF assms(3), of k] that by simp
  then have "filter (\<lambda>d. path lv root tab va d = None) [Suc d..<lv] = [Suc d..<lv]" by (simp add: filter_id_conv)
  moreover have "[0..<lv] = [0..<Suc d] @ [Suc d..<lv]"
    using upt_add_eq_append [of 0 "Suc d" "lv - Suc d"] assms(1) by simp
  ultimately show ?thesis unfolding missing_tables_def by (simp only: filter_append length_append length_upt list.size)
qed

lemma missing_tables_le: "0 < lv \<Longrightarrow> missing_tables lv root tab va \<le> lv - 1"
proof -
  assume "0 < lv"
  then have "[0..<lv] = 0 # [1..<lv]" by (simp add: upt_conv_Cons)
  then have "missing_tables lv root tab va = length (filter (\<lambda>d. path lv root tab va d = None) [1..<lv])"
    by (simp add: missing_tables_def)
  then show ?thesis using length_filter_le [of "\<lambda>d. path lv root tab va d = None" "[1..<lv]"] by simp
qed

text \<open>A walk that may allocate ends at the table of the wanted level on the path of \<open>va\<close>, with no
  translation changed; or there are too few pages for the tables.\<close>

lemma walk_alloc:
  assumes "pt_ok lv root s" "path lv root (vm_tab s) va d = Some t" "d < lv" "lvl = lv - 1 - d"
  shows "pte_walk va 0 True lvl t s = Inl AssertFail \<and> short_of_pages (missing_tables lv root (vm_tab s) va) s \<or>
    (\<exists>t' s'. pte_walk va 0 True lvl t s = Inr (Some (t', ix lv va (lv - 1)), s') \<and> pt_ok lv root s' \<and>
       path lv root (vm_tab s') va (lv - 1) = Some t' \<and> pt_step s s' \<and> managed s' = managed s \<and>
       free_pages (vm_pmm s') + missing_tables lv root (vm_tab s) va = free_pages (vm_pmm s) \<and>
       (\<forall>va'. leaf_pte lv root (vm_tab s') va' = leaf_pte lv root (vm_tab s) va'))"
  using assms
proof (induction lvl arbitrary: d t s)
  case 0
  then have d: "d = lv - 1" by simp
  then have "missing_tables lv root (vm_tab s) va = 0" using missing_from [OF 0(3,2)] 0(3) by simp
  with 0 d show ?case by (auto simp: ix_def)
next
  case (Suc lvl)
  have d: "Suc d < lv" "lvl = lv - 1 - Suc d" using Suc.prems by auto
  have i: "pt_index va (Suc lvl) = ix lv va d" using Suc.prems(4) by (simp add: ix_def)
  have tree: "tree_ok lv root (vm_tab s) (owned_pages (vm_pmm s))" using Suc.prems(1) by (simp add: pt_ok_def)
  show ?case
  proof (cases "vm_tab s t (ix lv va d) = 0")
    case False
    define t1 where "t1 = frame (pte_paddr (vm_tab s t (ix lv va d)))"
    have "\<not> pte_is_large (vm_tab s t (ix lv va d)) (Suc lvl)"
      using tree_okD(2) [OF tree Suc.prems(3,2) d(1)] Suc.prems(4) by simp
    then have "pte_walk va 0 True (Suc lvl) t s = pte_walk va 0 True lvl t1 s"
      using False by (simp add: i pte_next_def pte_is_zero_def t1_def)
    moreover have "path lv root (vm_tab s) va (Suc d) = Some t1" using Suc.prems(2) False by (simp add: t1_def)
    ultimately show ?thesis using Suc.IH [OF Suc.prems(1) _ d(1,2), of t1] by simp
  next
    case True
    have inv: "pmm_inv (vm_pmm s)" "frames_fit (vm_pmm s)" using Suc.prems(1) by (auto simp: pt_ok_def)
    have cost: "missing_tables lv root (vm_tab s) va = lv - Suc d"
      by (rule missing_from [OF Suc.prems(3,2)]) (use Suc.prems(2) True in simp)
    from pmm_alloc_zeroed_ok [OF inv] consider s1 where "pmm_alloc_zeroed s = Inr (0, s1)" "free_pages (vm_pmm s) = 0"
      | n s1 where "pmm_alloc_zeroed s = Inr (of_nat (n * 4096), s1)" "n \<notin> owned_pages (vm_pmm s)"
       "owned_pages (vm_pmm s1) = insert n (owned_pages (vm_pmm s))" "pmm_inv (vm_pmm s1)"
       "frames_fit (vm_pmm s1)" "n < 2 ^ 40" "vm_tab s1 = (vm_tab s)(n := (\<lambda>_. 0))" "pt_step s s1"
       "free_pages (vm_pmm s1) + 1 = free_pages (vm_pmm s)" "managed s1 = managed s" "n \<in> managed s" by blast
    then show ?thesis
    proof cases
      case (1 s1)
      then show ?thesis using True d(1) cost by (simp add: i pte_next_def pte_is_zero_def short_of_pages_def)
    next
      case (2 n s1)
      let ?dir = "pte_make_dir (of_nat (n * 4096))"
      show ?thesis
      proof (cases "n = 0")
        case zero: True
        then show ?thesis using True 2(1,11) by (simp add: i pte_next_def pte_is_zero_def short_of_pages_def)
      next
        case pos: False
        have False: "(of_nat (n * 4096) :: u64) \<noteq> 0"
        proof
          assume "(of_nat (n * 4096) :: u64) = 0"
          then have "frame (of_nat (n * 4096)) = 0" by (simp add: frame_def del: of_nat_mult)
          with pos show False using frame_of_pa [OF 2(6)] by simp
        qed
        define s2 where "s2 = set_tab t (ix lv va d) ?dir s1"
        have tn: "t \<noteq> n" using tree_okD(1) [OF tree Suc.prems(3,2)] 2(2) by auto
        then have tab2: "vm_tab s2 = ((vm_tab s)(n := (\<lambda>_. 0)))(t := (vm_tab s t)(ix lv va d := ?dir))"
          using 2(7) by (simp add: s2_def)
        note dw = dir_write [OF tree d(1) Suc.prems(2) True 2(2,6), folded tab2]
        have ok2: "pt_ok lv root s2"
          using dw(1) 2(3,4,5) Suc.prems(1) by (simp add: pt_ok_def) (simp add: s2_def)
        have "missing_tables lv root (vm_tab s2) va = lv - Suc (Suc d)"
          by (rule missing_from [OF d(1) dw(2)]) (use tn dw(2) in \<open>simp add: tab2\<close>)
        then have left: "free_pages (vm_pmm s2) = free_pages (vm_pmm s) - 1" "managed s2 = managed s"
            "missing_tables lv root (vm_tab s) va = missing_tables lv root (vm_tab s2) va + 1" "0 < free_pages (vm_pmm s)"
          using 2(9,10) cost d(1) by (simp_all add: s2_def)
        have "pte_walk va 0 True (Suc lvl) t s = pte_walk va 0 True lvl n s2"
          using True 2(1) False dir_facts(3) [OF 2(6)]
          by (simp add: i pte_next_def pte_is_zero_def s2_def del: of_nat_mult)
        moreover have st: "pt_step s s2" using 2(8) pt_step_trans [OF 2(8)] by (simp add: s2_def)
        moreover note Suc.IH [OF ok2 dw(2) d(1,2)]
        moreover have "short_of_pages (missing_tables lv root (vm_tab s2) va) s2 \<Longrightarrow>
            short_of_pages (missing_tables lv root (vm_tab s) va) s"
          using left by (auto simp: short_of_pages_def)
        ultimately show ?thesis using dw(3) pt_step_trans [OF st] left by auto
      qed
    qed
  qed
qed

text \<open>A walk that may not allocate changes nothing, and finds the table exactly when it is there.\<close>

lemma walk_find:
  assumes "tree_ok lv root (vm_tab s) S" "path lv root (vm_tab s) va d = Some t" "d < lv" "lvl = lv - 1 - d"
  shows "pte_walk va 0 False lvl t s =
     Inr (case path lv root (vm_tab s) va (lv - 1) of None \<Rightarrow> None | Some t' \<Rightarrow> Some (t', ix lv va (lv - 1)), s)"
  using assms
proof (induction lvl arbitrary: d t)
  case 0
  then have "d = lv - 1" by simp
  with 0 show ?case by (auto simp: ix_def)
next
  case (Suc lvl)
  have d: "Suc d < lv" "lvl = lv - 1 - Suc d" using Suc.prems by auto
  have i: "pt_index va (Suc lvl) = ix lv va d" using Suc.prems(4) by (simp add: ix_def)
  show ?case
  proof (cases "vm_tab s t (ix lv va d) = 0")
    case False
    define t1 where "t1 = frame (pte_paddr (vm_tab s t (ix lv va d)))"
    have "\<not> pte_is_large (vm_tab s t (ix lv va d)) (Suc lvl)"
      using tree_okD(2) [OF Suc.prems(1,3,2) d(1)] Suc.prems(4) by simp
    then have "pte_walk va 0 False (Suc lvl) t s = pte_walk va 0 False lvl t1 s"
      using False by (simp add: i pte_next_def pte_is_zero_def t1_def)
    moreover have "path lv root (vm_tab s) va (Suc d) = Some t1" using Suc.prems(2) False by (simp add: t1_def)
    ultimately show ?thesis using Suc.IH [OF Suc.prems(1) _ d(1,2), of t1] by simp
  next
    case True
    then have "path lv root (vm_tab s) va (Suc d) = None" using Suc.prems(2) by simp
    then have "path lv root (vm_tab s) va (lv - 1) = None" by (rule path_None) (use d in simp)
    with True show ?thesis by (simp add: i pte_next_def pte_is_zero_def)
  qed
qed

lemma fetch_find:
  assumes "pt_ok lv root s"
  shows "pte_fetch lv root va 0 False s =
     Inr (case path lv root (vm_tab s) va (lv - 1) of None \<Rightarrow> None | Some t' \<Rightarrow> Some (t', ix lv va (lv - 1)), s)"
  unfolding pte_fetch_def
  by (rule walk_find [where d = 0]) (use assms in \<open>auto simp: pt_ok_def\<close>)

text \<open>Writing the entry that translates \<open>va\<close>.\<close>

lemma set_leaf:
  fixes pte :: u64
  assumes ok: "pt_ok lv root s" and t: "path lv root (vm_tab s) va (lv - 1) = Some t"
  defines "s' \<equiv> set_tab t (ix lv va (lv - 1)) pte s"
  shows "pt_ok lv root s'" "leaf_pte lv root (vm_tab s') va = pte"
    and "\<And>va'. \<not> same_page lv va va' \<Longrightarrow> leaf_pte lv root (vm_tab s') va' = leaf_pte lv root (vm_tab s) va'"
proof -
  have tree: "tree_ok lv root (vm_tab s) (owned_pages (vm_pmm s))" and lv: "0 < lv"
    using ok by (auto simp: pt_ok_def)
  note w = leaf_write [OF tree lv t, where pte = pte]
  have tab: "vm_tab s' = (vm_tab s)(t := (vm_tab s t)(ix lv va (lv - 1) := pte))" by (simp add: s'_def)
  show "pt_ok lv root s'" using ok w(1) by (simp add: pt_ok_def tab) (simp add: s'_def)
  show "leaf_pte lv root (vm_tab s') va = pte" using w(2) by (simp add: tab)
  show "\<And>va'. \<not> same_page lv va va' \<Longrightarrow> leaf_pte lv root (vm_tab s') va' = leaf_pte lv root (vm_tab s) va'"
    using w(3) by (simp add: tab)
qed

lemma pmap_map_ok:
  assumes ok: "pt_ok lv root s" and prot: "prot AND VM_READ \<noteq> 0"
  shows "pmap_map lv root va pa 0 prot cache s = Inl AssertFail \<and> short_of_pages (missing_tables lv root (vm_tab s) va) s \<or>
    (\<exists>s'. pmap_map lv root va pa 0 prot cache s = Inr s' \<and> pt_ok lv root s' \<and> pt_step s s' \<and>
       free_pages (vm_pmm s') + missing_tables lv root (vm_tab s) va = free_pages (vm_pmm s) \<and>
       leaf_pte lv root (vm_tab s') va = pte_make 0 pa prot cache \<and>
       (\<forall>va'. \<not> same_page lv va va' \<longrightarrow>
          leaf_pte lv root (vm_tab s') va' = leaf_pte lv root (vm_tab s) va'))"
proof -
  let ?n = "missing_tables lv root (vm_tab s) va"
  have lv: "0 < lv" using ok by (simp add: pt_ok_def)
  have "pte_fetch lv root va 0 True s = Inl AssertFail \<and> short_of_pages ?n s \<or>
    (\<exists>t' s'. pte_fetch lv root va 0 True s = Inr (Some (t', ix lv va (lv - 1)), s') \<and> pt_ok lv root s' \<and>
       path lv root (vm_tab s') va (lv - 1) = Some t' \<and> pt_step s s' \<and> managed s' = managed s \<and>
       free_pages (vm_pmm s') + ?n = free_pages (vm_pmm s) \<and>
       (\<forall>va'. leaf_pte lv root (vm_tab s') va' = leaf_pte lv root (vm_tab s) va'))"
    unfolding pte_fetch_def by (rule walk_alloc [where d = 0, OF ok]) (use lv in simp_all)
  then show ?thesis
  proof (elim disjE exE conjE)
    assume "pte_fetch lv root va 0 True s = Inl AssertFail" "short_of_pages ?n s"
    with prot show ?thesis by (simp add: pmap_map_def)
  next
    fix t s1
    assume f: "pte_fetch lv root va 0 True s = Inr (Some (t, ix lv va (lv - 1)), s1)" "pt_ok lv root s1"
      "path lv root (vm_tab s1) va (lv - 1) = Some t" "pt_step s s1"
      "\<forall>va'. leaf_pte lv root (vm_tab s1) va' = leaf_pte lv root (vm_tab s) va'"
      "free_pages (vm_pmm s1) + ?n = free_pages (vm_pmm s)"
    have "pmap_map lv root va pa 0 prot cache s =
        Inr (set_tab t (ix lv va (lv - 1)) (pte_make 0 pa prot cache) s1)"
      using prot f(1) by (simp add: pmap_map_def)
    with set_leaf [OF f(2,3), where pte = "pte_make 0 pa prot cache"] pt_step_trans [OF f(4) set_tab_step] f(5,6)
    show ?thesis by auto
  qed
qed

lemma do_unmap_ok:
  assumes ok: "pt_ok lv root s"
  shows "\<exists>s'. do_unmap lv root va 0 s =
       Inr (if path lv root (vm_tab s) va (lv - 1) = None then UINTPTR_MAX
            else pte_paddr (leaf_pte lv root (vm_tab s) va), s') \<and>
     pt_ok lv root s' \<and> pt_step s s' \<and> vm_phys s' = vm_phys s \<and> leaf_pte lv root (vm_tab s') va = 0 \<and>
     (\<forall>va'. \<not> same_page lv va va' \<longrightarrow> leaf_pte lv root (vm_tab s') va' = leaf_pte lv root (vm_tab s) va')"
proof (cases "path lv root (vm_tab s) va (lv - 1)")
  case None
  with ok fetch_find [OF ok, of va] show ?thesis
    by (intro exI [of _ s]) (simp add: do_unmap_def leaf_pte_def)
next
  case (Some t)
  with set_leaf [OF ok Some, where pte = 0] fetch_find [OF ok, of va] show ?thesis
    by (intro exI [of _ "set_tab t (ix lv va (lv - 1)) 0 s"]) (simp add: do_unmap_def leaf_pte_def)
qed

lemma protect_one_ok:
  assumes ok: "pt_ok lv root s"
  shows "\<exists>s'. protect_one lv root prot cache 0 va s = Inr s' \<and> pt_ok lv root s' \<and> pt_step s s' \<and>
     vm_phys s' = vm_phys s \<and>
     leaf_pte lv root (vm_tab s') va =
       (if leaf_pte lv root (vm_tab s) va = 0 then 0
        else pte_make 0 (pte_paddr (leaf_pte lv root (vm_tab s) va)) prot cache) \<and>
     (\<forall>va'. \<not> same_page lv va va' \<longrightarrow> leaf_pte lv root (vm_tab s') va' = leaf_pte lv root (vm_tab s) va')"
proof (cases "path lv root (vm_tab s) va (lv - 1)")
  case None
  with ok fetch_find [OF ok, of va] show ?thesis
    by (intro exI [of _ s]) (simp add: protect_one_def leaf_pte_def)
next
  case (Some t)
  define pte where "pte = vm_tab s t (ix lv va (lv - 1))"
  have leaf: "leaf_pte lv root (vm_tab s) va = pte" using Some by (simp add: leaf_pte_def pte_def)
  show ?thesis
  proof (cases "pte = 0")
    case True
    with Some ok fetch_find [OF ok, of va] leaf show ?thesis
      by (intro exI [of _ s]) (simp add: protect_one_def pte_is_zero_def pte_def Let_def)
  next
    case False
    let ?s = "set_tab t (ix lv va (lv - 1)) (pte_make 0 (pte_paddr pte) prot cache) s"
    have "protect_one lv root prot cache 0 va s = Inr ?s"
      using False Some fetch_find [OF ok, of va] by (simp add: protect_one_def pte_is_zero_def pte_def Let_def)
    with set_leaf [OF ok Some, where pte = "pte_make 0 (pte_paddr pte) prot cache"] leaf False show ?thesis
      by (intro exI [of _ ?s]) simp
  qed
qed

lemma addr_apart:
  "ptePresent AND pteAddress = 0" "pteWrite AND pteAddress = 0" "pteUser AND pteAddress = 0"
  "pteGlobal AND pteAddress = 0" "pteNoExecute AND pteAddress = 0"
  by (simp_all add: pte_masks)

lemma addr_apart_pat: "pte_pat_bits 0 cache AND pteAddress = 0"
  by (cases cache) (simp_all add: pte_pat_bits_def pte_masks)

text \<open>A new protection leaves the frame of an entry alone.\<close>

lemma pte_make_frame: "pte_paddr (pte_make 0 (pte_paddr pte) prot cache) = pte_paddr pte"
proof (rule bit_eqI)
  fix n
  have "\<not> (bit ptePresent n \<and> bit pteAddress n)" "\<not> (bit pteWrite n \<and> bit pteAddress n)"
    "\<not> (bit pteUser n \<and> bit pteAddress n)" "\<not> (bit pteGlobal n \<and> bit pteAddress n)"
    "\<not> (bit pteNoExecute n \<and> bit pteAddress n)" "\<not> (bit (pte_pat_bits 0 cache) n \<and> bit pteAddress n)"
    using arg_cong [of _ _ "\<lambda>w. bit w n", OF addr_apart(1)] arg_cong [of _ _ "\<lambda>w. bit w n", OF addr_apart(2)]
      arg_cong [of _ _ "\<lambda>w. bit w n", OF addr_apart(3)] arg_cong [of _ _ "\<lambda>w. bit w n", OF addr_apart(4)]
      arg_cong [of _ _ "\<lambda>w. bit w n", OF addr_apart(5)]
      arg_cong [of _ _ "\<lambda>w. bit w n", OF addr_apart_pat]
    by (simp_all add: bit_and_iff)
  then show "bit (pte_paddr (pte_make 0 (pte_paddr pte) prot cache)) n = bit (pte_paddr pte) n"
    by (auto simp: pte_paddr_def pte_make_def Let_def bit_and_iff bit_or_iff)
qed

section \<open>Ranges\<close>

definition in_pages :: "nat \<Rightarrow> u64 \<Rightarrow> nat \<Rightarrow> u64 \<Rightarrow> bool" where
  "in_pages lv va n va' \<longleftrightarrow> (\<exists>k < n. same_page lv (va + of_nat k * 0x1000) va')"

lemma in_pages_Suc: "in_pages lv va (Suc n) va' \<longleftrightarrow> same_page lv va va' \<or> in_pages lv (va + 0x1000) n va'"
proof
  assume "in_pages lv va (Suc n) va'"
  then obtain k where k: "k < Suc n" "same_page lv (va + of_nat k * 0x1000) va'" by (auto simp: in_pages_def)
  then show "same_page lv va va' \<or> in_pages lv (va + 0x1000) n va'"
  proof (cases k)
    case (Suc j)
    with k show ?thesis by (auto simp: in_pages_def algebra_simps)
  qed simp
next
  assume "same_page lv va va' \<or> in_pages lv (va + 0x1000) n va'"
  then show "in_pages lv va (Suc n) va'"
  proof
    assume "same_page lv va va'"
    then show ?thesis by (auto simp: in_pages_def intro!: exI [of _ 0])
  next
    assume "in_pages lv (va + 0x1000) n va'"
    then obtain k where "k < n" "same_page lv (va + 0x1000 + of_nat k * 0x1000) va'" by (auto simp: in_pages_def)
    then show ?thesis by (auto simp: in_pages_def algebra_simps intro!: exI [of _ "Suc k"])
  qed
qed

lemma leaf_cong: "same_page lv va va' \<Longrightarrow> 0 < lv \<Longrightarrow> leaf_pte lv root tab va = leaf_pte lv root tab va'"
  using path_cong [of "lv - 1" lv va va' root tab]
  by (simp add: leaf_pte_def same_page_def del: One_nat_def split: option.split)

text \<open>A loop over pages whose step keeps the tables well formed, memory as it is, and translations
  of other pages.\<close>

lemma over_pages:
  assumes step: "\<And>a s. pt_ok lv root s \<Longrightarrow> \<exists>s'. f a s = Inr s' \<and> pt_ok lv root s' \<and> pt_step s s' \<and>
     vm_phys s' = vm_phys s \<and> Q (leaf_pte lv root (vm_tab s') a) \<and>
     (\<forall>va'. \<not> same_page lv a va' \<longrightarrow> leaf_pte lv root (vm_tab s') va' = leaf_pte lv root (vm_tab s) va')"
    and ok: "pt_ok lv root s"
  shows "\<exists>s'. over_range f va 0x1000 n s = Inr s' \<and> pt_ok lv root s' \<and> pt_step s s' \<and> vm_phys s' = vm_phys s \<and>
     (\<forall>va'. in_pages lv va n va' \<longrightarrow> Q (leaf_pte lv root (vm_tab s') va')) \<and>
     (\<forall>va'. \<not> in_pages lv va n va' \<longrightarrow> leaf_pte lv root (vm_tab s') va' = leaf_pte lv root (vm_tab s) va')"
  using ok
proof (induction n arbitrary: va s)
  case 0
  then show ?case by (simp add: in_pages_def)
next
  case (Suc n)
  obtain s1 where s1: "f va s = Inr s1" "pt_ok lv root s1" "pt_step s s1" "vm_phys s1 = vm_phys s"
      "Q (leaf_pte lv root (vm_tab s1) va)"
      "\<And>va'. \<not> same_page lv va va' \<Longrightarrow> leaf_pte lv root (vm_tab s1) va' = leaf_pte lv root (vm_tab s) va'"
    using step [OF Suc.prems] by blast
  obtain s2 where s2: "over_range f (va + 0x1000) 0x1000 n s1 = Inr s2" "pt_ok lv root s2" "pt_step s1 s2"
      "vm_phys s2 = vm_phys s1"
      "\<And>va'. in_pages lv (va + 0x1000) n va' \<Longrightarrow> Q (leaf_pte lv root (vm_tab s2) va')"
      "\<And>va'. \<not> in_pages lv (va + 0x1000) n va' \<Longrightarrow> leaf_pte lv root (vm_tab s2) va' = leaf_pte lv root (vm_tab s1) va'"
    using Suc.IH [OF s1(2), of "va + 0x1000"] by blast
  have lv: "0 < lv" using Suc.prems by (simp add: pt_ok_def)
  have "Q (leaf_pte lv root (vm_tab s2) va')" if "in_pages lv va (Suc n) va'" for va'
  proof (cases "in_pages lv (va + 0x1000) n va'")
    case False
    then have "same_page lv va va'" using that by (simp add: in_pages_Suc)
    then show ?thesis using s2(6) [OF False] s1(5) leaf_cong [OF _ lv] by metis
  qed (rule s2(5))
  then show ?case
    using s1 s2 pt_step_trans [OF s1(3) s2(3)] by (intro exI [of _ s2]) (simp add: in_pages_Suc)
qed

lemma over_pages_frames:
  assumes step: "\<And>a s. pt_ok lv root s \<Longrightarrow> \<exists>s'. f a s = Inr s' \<and> pt_ok lv root s' \<and>
     (\<forall>va'. pte_paddr (leaf_pte lv root (vm_tab s') va') = pte_paddr (leaf_pte lv root (vm_tab s) va'))"
  shows "pt_ok lv root s \<Longrightarrow> over_range f va 0x1000 n s = Inr s2 \<Longrightarrow>
     pte_paddr (leaf_pte lv root (vm_tab s2) va') = pte_paddr (leaf_pte lv root (vm_tab s) va')"
proof (induction n arbitrary: va s)
  case (Suc n)
  obtain s1 where s1: "f va s = Inr s1" "pt_ok lv root s1"
     "\<And>va'. pte_paddr (leaf_pte lv root (vm_tab s1) va') = pte_paddr (leaf_pte lv root (vm_tab s) va')"
    using step [OF Suc.prems(1)] by blast
  then show ?case using Suc.IH [OF s1(2), of "va + 0x1000"] Suc.prems(2) by simp
qed simp

lemma pmap_unmap_range_ok:
  assumes "pt_ok lv root s"
  shows "\<exists>s'. pmap_unmap_range lv root va len 0 s = Inr s' \<and> pt_ok lv root s' \<and> pt_step s s' \<and>
     vm_phys s' = vm_phys s \<and>
     (\<forall>va'. in_pages lv va (page_count len PAGE_SIZE) va' \<longrightarrow> leaf_pte lv root (vm_tab s') va' = 0) \<and>
     (\<forall>va'. \<not> in_pages lv va (page_count len PAGE_SIZE) va' \<longrightarrow>
        leaf_pte lv root (vm_tab s') va' = leaf_pte lv root (vm_tab s) va')"
proof -
  let ?f = "\<lambda>a s. bindR (do_unmap lv root a 0 s) (\<lambda>(_, s'). Inr s')"
  have step: "\<exists>s'. ?f a s = Inr s' \<and> pt_ok lv root s' \<and> pt_step s s' \<and> vm_phys s' = vm_phys s \<and>
     leaf_pte lv root (vm_tab s') a = 0 \<and>
     (\<forall>va'. \<not> same_page lv a va' \<longrightarrow> leaf_pte lv root (vm_tab s') va' = leaf_pte lv root (vm_tab s) va')"
    if "pt_ok lv root s" for a s
    using do_unmap_ok [OF that, of a] by auto
  from over_pages [where f = ?f and Q = "\<lambda>p. p = 0", OF step assms, of va "page_count len PAGE_SIZE"]
  show ?thesis by (simp add: pmap_unmap_range_def page_size_of_def PAGE_SIZE_def)
qed

lemma pmap_protect_range_ok:
  assumes "pt_ok lv root s"
  shows "\<exists>s'. pmap_protect_range lv root va len prot cache 0 s = Inr s' \<and> pt_ok lv root s' \<and> pt_step s s' \<and>
     vm_phys s' = vm_phys s \<and>
     (\<forall>va'. in_pages lv va (page_count len PAGE_SIZE) va' \<longrightarrow> leaf_pte lv root (vm_tab s') va' = 0 \<or>
        (\<exists>pa. leaf_pte lv root (vm_tab s') va' = pte_make 0 (pte_paddr pa) prot cache)) \<and>
     (\<forall>va'. \<not> in_pages lv va (page_count len PAGE_SIZE) va' \<longrightarrow>
        leaf_pte lv root (vm_tab s') va' = leaf_pte lv root (vm_tab s) va')"
proof -
  let ?f = "protect_one lv root prot cache 0"
  let ?Q = "\<lambda>p. p = 0 \<or> (\<exists>pa. p = pte_make 0 (pte_paddr pa) prot cache)"
  have step: "\<exists>s'. ?f a s = Inr s' \<and> pt_ok lv root s' \<and> pt_step s s' \<and> vm_phys s' = vm_phys s \<and>
     ?Q (leaf_pte lv root (vm_tab s') a) \<and>
     (\<forall>va'. \<not> same_page lv a va' \<longrightarrow> leaf_pte lv root (vm_tab s') va' = leaf_pte lv root (vm_tab s) va')"
    if "pt_ok lv root s" for a s
    using protect_one_ok [OF that, of prot cache a] by (auto split: if_splits)
  from over_pages [where f = ?f and Q = ?Q, OF step assms, of va "page_count len PAGE_SIZE"]
  show ?thesis by (simp add: pmap_protect_range_def page_size_of_def PAGE_SIZE_def)
qed

lemma pmap_protect_range_frames:
  assumes ok: "pt_ok lv root s" and run: "pmap_protect_range lv root va len prot cache 0 s = Inr s'"
  shows "pte_paddr (leaf_pte lv root (vm_tab s') va') = pte_paddr (leaf_pte lv root (vm_tab s) va')"
proof -
  let ?f = "protect_one lv root prot cache 0"
  have "\<exists>s'. ?f a s = Inr s' \<and> pt_ok lv root s' \<and>
     (\<forall>va'. pte_paddr (leaf_pte lv root (vm_tab s') va') = pte_paddr (leaf_pte lv root (vm_tab s) va'))"
    if pt: "pt_ok lv root s" for a s
  proof -
    obtain s' where s': "?f a s = Inr s'" "pt_ok lv root s'"
      "leaf_pte lv root (vm_tab s') a = (if leaf_pte lv root (vm_tab s) a = 0 then 0
         else pte_make 0 (pte_paddr (leaf_pte lv root (vm_tab s) a)) prot cache)"
      "\<forall>va'. \<not> same_page lv a va' \<longrightarrow> leaf_pte lv root (vm_tab s') va' = leaf_pte lv root (vm_tab s) va'"
      using protect_one_ok [OF pt, of prot cache a] by blast
    have lv: "0 < lv" using pt by (simp add: pt_ok_def)
    have "pte_paddr (leaf_pte lv root (vm_tab s') x) = pte_paddr (leaf_pte lv root (vm_tab s) x)" for x
    proof (cases "same_page lv a x")
      case True
      then show ?thesis using s'(3) pte_make_frame leaf_cong [OF True lv] by (auto split: if_splits)
    qed (use s'(4) in simp)
    then show ?thesis using s'(1,2) by blast
  qed
  from over_pages_frames [where f = ?f, OF this ok] run show ?thesis
    by (simp add: pmap_protect_range_def page_size_of_def PAGE_SIZE_def)
qed

text \<open>With the protection reduced to what lacks write, no page in the range stays writable.\<close>

lemma pte_make_write: "prot AND VM_WRITE = 0 \<Longrightarrow> pte_make 0 (pte_paddr pa) prot cache AND pteWrite = 0"
proof -
  assume w: "prot AND VM_WRITE = 0"
  have bits: "\<not> bit (pte_paddr pa) 1" by (simp add: pte_paddr_def bit_and_iff mask_bits)
  have eq: "x AND pteWrite = 0 \<longleftrightarrow> \<not> bit x 1" for x :: u64
  proof
    assume "x AND pteWrite = 0"
    then have "\<not> bit (x AND pteWrite) 1" by simp
    then show "\<not> bit x 1" unfolding bit_and_iff mask_bits by simp
  next
    assume "\<not> bit x 1"
    then show "x AND pteWrite = 0" by (intro bit_eqI) (auto simp: bit_and_iff mask_bits)
  qed
  have lows: "\<not> bit ptePresent 1" "\<not> bit pteNoExecute 1" "\<not> bit pteUser 1" "\<not> bit pteGlobal 1"
      "\<not> bit (pte_pat_bits 0 cache) 1"
    by (cases cache; simp add: pte_masks pte_pat_bits_def)+
  show ?thesis unfolding eq using w bits lows
    by (simp add: pte_make_def Let_def bit_or_iff)
qed

end
