(* ===== verification/RwLock.thy ===== *)
theory RwLock
  imports Kernel_Prelude
begin

text \<open>
  The reader-writer lock of \<^verbatim>\<open>kernel/core/rwlock.c\<close>, run by any number of threads: every load, store and
  read-modify-write of the lock word, the writer count and the owner is a step of its own, and steps
  of different threads interleave freely. Waiting on the lock's event may end at any time, with
  success or, where the caller gave a timeout, with an error.
\<close>

unbundle bit_operations_syntax

section \<open>Data\<close>

definition RWLOCK_EXCLUSIVE :: u32 where "RWLOCK_EXCLUSIVE = 0x80000000"
definition RWLOCK_READER_MASK :: u32 where "RWLOCK_READER_MASK = NOT RWLOCK_EXCLUSIVE"

record rwlock =
  rw_owner :: "nat option"
  rw_state :: u32
  rw_count :: u32

definition rwlock_init :: rwlock where
  "rwlock_init = \<lparr>rw_owner = None, rw_state = 0, rw_count = 0\<rparr>"

text \<open>Where a thread is: before the named access, or holding the lock, or stopped by a failed
  assertion. A loaded value is kept until it is used. \<open>ever\<close> says that the wait has no timeout.\<close>

datatype pc =
    Idle | Crashed
  | Sh_Load | Sh_Count u32 | Sh_Cas u32 | Sh_Wait | Sh_Held
  | Sh_Assert | Sh_Sub
  | Ex_Inc bool | Ex_Load bool | Ex_Cas bool | Ex_Wait bool | Ex_Dec | Ex_Assert | Ex_Own | Ex_Held
  | Rel_Assert | Rel_Count | Rel_Owner | Rel_State
  | Up_Load | Up_Inc u32 | Up_Cas | Up_Dec | Up_Assert | Up_Sub

section \<open>Steps\<close>

inductive rw_step :: "nat \<Rightarrow> rwlock \<Rightarrow> pc \<Rightarrow> rwlock \<Rightarrow> pc \<Rightarrow> bool" for t :: nat where
  \<comment> \<open>\<open>rwlock_acquire_shared\<close>\<close>
  sh_start: "rw_step t l Idle l Sh_Load"
| sh_load_wait: "rw_state l AND RWLOCK_EXCLUSIVE \<noteq> 0 \<Longrightarrow> rw_step t l Sh_Load l Sh_Wait"
| sh_load: "rw_state l AND RWLOCK_EXCLUSIVE = 0 \<Longrightarrow> rw_step t l Sh_Load l (Sh_Count (rw_state l))"
| sh_count_wait: "rw_count l \<noteq> 0 \<Longrightarrow> rw_step t l (Sh_Count s) l Sh_Wait"
| sh_count: "rw_count l = 0 \<Longrightarrow> rw_step t l (Sh_Count s) l (Sh_Cas s)"
| sh_cas: "rw_state l = s \<Longrightarrow> rw_step t l (Sh_Cas s) (l\<lparr>rw_state := s + 1\<rparr>) Sh_Held"
| sh_cas_fail: "rw_state l \<noteq> s \<Longrightarrow> rw_step t l (Sh_Cas s) l Sh_Wait"
| sh_wait: "rw_step t l Sh_Wait l Sh_Load"
| sh_wait_error: "rw_step t l Sh_Wait l Idle"
  \<comment> \<open>\<open>rwlock_release_shared\<close>\<close>
| sh_release: "rw_step t l Sh_Held l Sh_Assert"
| sh_assert: "rw_step t l Sh_Assert l (if rw_state l AND RWLOCK_READER_MASK > 0 then Sh_Sub else Crashed)"
| sh_sub: "rw_step t l Sh_Sub (l\<lparr>rw_state := rw_state l - 1\<rparr>)
     (if rw_state l AND RWLOCK_READER_MASK > 0 then Idle else Crashed)"
  \<comment> \<open>\<open>rwlock_acquire_exclusive\<close>\<close>
| ex_start: "rw_step t l Idle l (Ex_Inc ever)"
| ex_inc: "rw_step t l (Ex_Inc ever) (l\<lparr>rw_count := rw_count l + 1\<rparr>) (Ex_Load ever)"
| ex_load: "rw_step t l (Ex_Load ever) l (if rw_state l \<noteq> 0 then Ex_Wait ever else Ex_Cas ever)"
| ex_cas: "rw_state l = 0 \<Longrightarrow> rw_step t l (Ex_Cas ever) (l\<lparr>rw_state := RWLOCK_EXCLUSIVE\<rparr>) Ex_Assert"
| ex_cas_fail: "rw_state l \<noteq> 0 \<Longrightarrow> rw_step t l (Ex_Cas ever) l (Ex_Wait ever)"
| ex_wait: "rw_step t l (Ex_Wait ever) l (Ex_Load ever)"
| ex_wait_error: "rw_step t l (Ex_Wait False) l Ex_Dec"
| ex_dec: "rw_step t l Ex_Dec (l\<lparr>rw_count := rw_count l - 1\<rparr>) Idle"
| ex_assert: "rw_step t l Ex_Assert l (if rw_owner l = None then Ex_Own else Crashed)"
| ex_own: "rw_step t l Ex_Own (l\<lparr>rw_owner := Some t\<rparr>) Ex_Held"
  \<comment> \<open>\<open>rwlock_release_exclusive\<close>\<close>
| ex_release: "rw_step t l Ex_Held l Rel_Assert"
| rel_assert: "rw_step t l Rel_Assert l (if rw_owner l = Some t then Rel_Count else Crashed)"
| rel_count: "rw_step t l Rel_Count (l\<lparr>rw_count := rw_count l - 1\<rparr>) Rel_Owner"
| rel_owner: "rw_step t l Rel_Owner (l\<lparr>rw_owner := None\<rparr>) Rel_State"
| rel_state: "rw_step t l Rel_State (l\<lparr>rw_state := rw_state l AND NOT RWLOCK_EXCLUSIVE\<rparr>) Idle"
  \<comment> \<open>\<open>rwlock_upgrade_to_exclusive\<close>\<close>
| up_start: "rw_step t l Sh_Held l Up_Load"
| up_load: "rw_step t l Up_Load l (Up_Inc (rw_state l))"
| up_inc: "rw_step t l (Up_Inc s) (l\<lparr>rw_count := rw_count l + 1\<rparr>) (if s = 1 then Up_Cas else Up_Dec)"
| up_cas: "rw_state l = 1 \<Longrightarrow> rw_step t l Up_Cas (l\<lparr>rw_state := RWLOCK_EXCLUSIVE\<rparr>) Ex_Assert"
| up_cas_fail: "rw_state l \<noteq> 1 \<Longrightarrow> rw_step t l Up_Cas l Up_Dec"
| up_dec: "rw_step t l Up_Dec (l\<lparr>rw_count := rw_count l - 1\<rparr>) Up_Assert"
| up_assert: "rw_step t l Up_Assert l (if rw_state l AND RWLOCK_READER_MASK > 0 then Up_Sub else Crashed)"
| up_sub: "rw_step t l Up_Sub (l\<lparr>rw_state := rw_state l - 1\<rparr>)
     (if rw_state l AND RWLOCK_READER_MASK > 0 then Ex_Inc True else Crashed)"

inductive rw_run :: "nat set \<Rightarrow> rwlock \<Rightarrow> (nat \<Rightarrow> pc) \<Rightarrow> bool" for T :: "nat set" where
  init: "rw_run T rwlock_init (\<lambda>_. Idle)"
| step: "rw_run T l p \<Longrightarrow> t \<in> T \<Longrightarrow> rw_step t l (p t) l' q \<Longrightarrow> rw_run T l' (p(t := q))"

inductive_cases rw_stepE: "rw_step t l p l' q"

section \<open>The invariant\<close>

text \<open>The threads that hold a share, and those between winning the lock word and giving it back.\<close>

fun shares :: "pc \<Rightarrow> bool" where
  "shares Sh_Held = True" | "shares Sh_Assert = True" | "shares Sh_Sub = True"
| "shares Up_Load = True" | "shares (Up_Inc s) = True" | "shares Up_Cas = True" | "shares Up_Dec = True"
| "shares Up_Assert = True" | "shares Up_Sub = True" | "shares _ = False"

fun excludes :: "pc \<Rightarrow> bool" where
  "excludes Ex_Assert = True" | "excludes Ex_Own = True" | "excludes Ex_Held = True"
| "excludes Rel_Assert = True" | "excludes Rel_Count = True" | "excludes Rel_Owner = True"
| "excludes Rel_State = True" | "excludes _ = False"

fun owns :: "pc \<Rightarrow> bool" where
  "owns Ex_Held = True" | "owns Rel_Assert = True" | "owns Rel_Count = True" | "owns Rel_Owner = True"
| "owns _ = False"

fun pc_ok :: "pc \<Rightarrow> bool" where
  "pc_ok (Sh_Count s) \<longleftrightarrow> s AND RWLOCK_EXCLUSIVE = 0"
| "pc_ok (Sh_Cas s) \<longleftrightarrow> s AND RWLOCK_EXCLUSIVE = 0"
| "pc_ok Crashed \<longleftrightarrow> False"
| "pc_ok _ \<longleftrightarrow> True"

definition threads_at :: "nat set \<Rightarrow> (pc \<Rightarrow> bool) \<Rightarrow> (nat \<Rightarrow> pc) \<Rightarrow> nat" where
  "threads_at T P p = card {t \<in> T. P (p t)}"

lemma threads_at_update:
  assumes T: "finite T" "t \<in> T"
  shows "threads_at T P (p(t := q)) + of_bool (P (p t)) = threads_at T P p + of_bool (P q)"
proof -
  let ?A = "{u \<in> T - {t}. P (p u)}"
  have fin: "finite ?A" "t \<notin> ?A" using T by auto
  have "{u \<in> T. P ((p(t := q)) u)} = (if P q then insert t ?A else ?A)" using T by auto
  then have "threads_at T P (p(t := q)) = card ?A + of_bool (P q)" using fin by (simp add: threads_at_def)
  moreover have "{u \<in> T. P (p u)} = (if P (p t) then insert t ?A else ?A)" using T by auto
  then have "threads_at T P p = card ?A + of_bool (P (p t))" using fin by (simp add: threads_at_def)
  ultimately show ?thesis by simp
qed

lemma threads_at_pos: "finite T \<Longrightarrow> t \<in> T \<Longrightarrow> P (p t) \<Longrightarrow> 0 < threads_at T P p"
  by (auto simp: threads_at_def card_gt_0_iff)

lemma threads_at_one: "finite T \<Longrightarrow> threads_at T P p \<le> 1 \<Longrightarrow> t \<in> T \<Longrightarrow> u \<in> T \<Longrightarrow> P (p t) \<Longrightarrow> P (p u) \<Longrightarrow> t = u"
  using card_le_Suc0_iff_eq [of "{t \<in> T. P (p t)}"] by (auto simp: threads_at_def)

lemma threads_at_le: "finite T \<Longrightarrow> threads_at T P p \<le> card T"
  by (auto simp: threads_at_def intro: card_mono)

definition word_ok :: "nat set \<Rightarrow> rwlock \<Rightarrow> (nat \<Rightarrow> pc) \<Rightarrow> bool" where
  "word_ok T l p \<longleftrightarrow>
     (threads_at T excludes p = 0 \<and> rw_state l = of_nat (threads_at T shares p)) \<or>
     (threads_at T excludes p = 1 \<and> threads_at T shares p = 0 \<and> rw_state l = RWLOCK_EXCLUSIVE)"

definition rw_inv :: "nat set \<Rightarrow> rwlock \<Rightarrow> (nat \<Rightarrow> pc) \<Rightarrow> bool" where
  "rw_inv T l p \<longleftrightarrow> word_ok T l p \<and> (\<forall>t \<in> T. owns (p t) \<longleftrightarrow> rw_owner l = Some t) \<and>
     (\<forall>t. rw_owner l = Some t \<longrightarrow> t \<in> T) \<and> (\<forall>t. pc_ok (p t))"


section \<open>The lock word\<close>

lemma excl_bit: "bit RWLOCK_EXCLUSIVE j \<longleftrightarrow> j = 31" "bit RWLOCK_READER_MASK j \<longleftrightarrow> j < 31"
proof -
  have eq: "RWLOCK_EXCLUSIVE = push_bit 31 1" by (simp add: RWLOCK_EXCLUSIVE_def push_bit_eq_mult)
  show "bit RWLOCK_EXCLUSIVE j \<longleftrightarrow> j = 31" unfolding eq bit_push_bit_iff bit_1_iff by auto
  then show "bit RWLOCK_READER_MASK j \<longleftrightarrow> j < 31" by (auto simp: RWLOCK_READER_MASK_def bit_not_iff)
qed

lemma excl_word:
  "RWLOCK_EXCLUSIVE AND RWLOCK_EXCLUSIVE \<noteq> 0" "RWLOCK_EXCLUSIVE AND NOT RWLOCK_EXCLUSIVE = 0"
  "RWLOCK_EXCLUSIVE AND RWLOCK_READER_MASK = 0" "RWLOCK_EXCLUSIVE \<noteq> 0" "RWLOCK_EXCLUSIVE \<noteq> 1"
  by (simp_all add: RWLOCK_EXCLUSIVE_def RWLOCK_READER_MASK_def)

lemma reader_word:
  assumes "n < 2 ^ 31"
  shows "(of_nat n :: u32) AND RWLOCK_EXCLUSIVE = 0" "(of_nat n :: u32) AND RWLOCK_READER_MASK = of_nat n"
    "(of_nat n :: u32) = 0 \<longleftrightarrow> n = 0" "(of_nat n :: u32) = 1 \<longleftrightarrow> n = 1"
    "(of_nat n :: u32) \<noteq> RWLOCK_EXCLUSIVE" "0 < (of_nat n :: u32) \<longleftrightarrow> 0 < n"
proof -
  have hi: "bit n j \<Longrightarrow> j < 31" for j
    using assms by (metis bit_take_bit_iff take_bit_nat_eq_self)
  show "(of_nat n :: u32) AND RWLOCK_EXCLUSIVE = 0"
    by (rule bit_eqI) (auto simp: bit_and_iff excl_bit bit_of_nat_iff dest: hi)
  show "(of_nat n :: u32) AND RWLOCK_READER_MASK = of_nat n"
    by (rule bit_eqI) (auto simp: bit_and_iff excl_bit bit_of_nat_iff dest: hi)
  have u: "unat (of_nat n :: u32) = n" using assms by (simp add: unsigned_of_nat take_bit_nat_eq_self)
  then show "(of_nat n :: u32) = 0 \<longleftrightarrow> n = 0" "(of_nat n :: u32) = 1 \<longleftrightarrow> n = 1" "0 < (of_nat n :: u32) \<longleftrightarrow> 0 < n"
    by (auto simp: word_unat_eq_iff word_less_nat_alt)
  show "(of_nat n :: u32) \<noteq> RWLOCK_EXCLUSIVE"
    using u assms by (auto simp: RWLOCK_EXCLUSIVE_def word_unat_eq_iff)
qed

lemma owns_excludes: "owns c \<Longrightarrow> excludes c"
  by (cases c) auto

text \<open>The assertions about the owner hold.\<close>

lemma owner_facts:
  assumes T: "finite T" "t \<in> T" and inv: "rw_inv T l p"
  shows "p t = Ex_Assert \<Longrightarrow> rw_owner l = None" "p t = Ex_Own \<Longrightarrow> rw_owner l = None"
    "owns (p t) \<Longrightarrow> rw_owner l = Some t"
proof -
  have one: "threads_at T excludes p \<le> 1" using inv by (auto simp: rw_inv_def word_ok_def)
  have "rw_owner l = None" if "excludes (p t)" "\<not> owns (p t)"
  proof (rule ccontr)
    assume "rw_owner l \<noteq> None"
    then obtain u where u: "rw_owner l = Some u" "u \<in> T" using inv by (auto simp: rw_inv_def)
    then have "owns (p u)" using inv by (simp add: rw_inv_def)
    moreover from this have "u = t" using threads_at_one [OF T(1) one u(2) T(2)] owns_excludes that(1) by blast
    ultimately show False using that(2) by simp
  qed
  then show "p t = Ex_Assert \<Longrightarrow> rw_owner l = None" "p t = Ex_Own \<Longrightarrow> rw_owner l = None" by simp_all
  show "owns (p t) \<Longrightarrow> rw_owner l = Some t" using inv T(2) by (auto simp: rw_inv_def)
qed

lemma word_step:
  assumes T: "finite T" "card T < 2 ^ 31" "t \<in> T" and inv: "rw_inv T l p" and st: "rw_step t l (p t) l' q"
  shows "word_ok T l' (p(t := q))"
proof -
  define e s e' s' where "e = threads_at T excludes p" and "s = threads_at T shares p"
    and "e' = threads_at T excludes (p(t := q))" and "s' = threads_at T shares (p(t := q))"
  have w: "(e = 0 \<and> rw_state l = of_nat s) \<or> (e = 1 \<and> s = 0 \<and> rw_state l = RWLOCK_EXCLUSIVE)"
    using inv by (simp add: rw_inv_def word_ok_def e_def s_def)
  have u: "e' + of_bool (excludes (p t)) = e + of_bool (excludes q)" "s' + of_bool (shares (p t)) = s + of_bool (shares q)"
    unfolding e_def s_def e'_def s'_def using threads_at_update [OF T(1,3)] by simp_all
  have pos: "excludes (p t) \<Longrightarrow> 0 < e" "shares (p t) \<Longrightarrow> 0 < s"
    unfolding e_def s_def using threads_at_pos [OF T(1,3)] by blast+
  have lt: "s < 2 ^ 31" using threads_at_le [OF T(1), of shares p] T(2) by (simp add: s_def)
  note r = reader_word [OF lt]
  have ok: "pc_ok (p t)" using inv by (simp add: rw_inv_def)
  have "(e' = 0 \<and> rw_state l' = of_nat s') \<or> (e' = 1 \<and> s' = 0 \<and> rw_state l' = RWLOCK_EXCLUSIVE)"
    using st
  proof (cases rule: rw_step.cases)
    case (sh_cas v)
    then show ?thesis using u w ok excl_word by auto
  qed (use u w pos r excl_word owner_facts [OF T(1,3) inv] in \<open>auto split: if_splits\<close>)
  then show ?thesis by (simp add: word_ok_def e'_def s'_def)
qed

lemma step_inv:
  assumes T: "finite T" "card T < 2 ^ 31" "t \<in> T" and inv: "rw_inv T l p" and st: "rw_step t l (p t) l' q"
  shows "rw_inv T l' (p(t := q))"
proof -
  have owner: "(\<forall>u \<in> T. owns ((p(t := q)) u) \<longleftrightarrow> rw_owner l' = Some u) \<and> (\<forall>u. rw_owner l' = Some u \<longrightarrow> u \<in> T)"
  proof -
    have old: "\<forall>u \<in> T. owns (p u) \<longleftrightarrow> rw_owner l = Some u" "\<forall>u. rw_owner l = Some u \<longrightarrow> u \<in> T"
      using inv by (auto simp: rw_inv_def)
    show ?thesis using st
      by (cases rule: rw_step.cases)
         (use old T(3) owner_facts [OF T(1,3) inv] in \<open>auto split: if_splits\<close>)
  qed
  have "pc_ok q"
  proof -
    have w: "word_ok T l p" and old: "pc_ok (p t)" using inv by (auto simp: rw_inv_def)
    have pos: "shares (p t) \<Longrightarrow> 0 < threads_at T shares p" using threads_at_pos [OF T(1,3)] by blast
    have "threads_at T shares p < 2 ^ 31" using threads_at_le [OF T(1), of shares p] T(2) by simp
    note r = reader_word [OF this]
    show ?thesis using st
      by (cases rule: rw_step.cases)
         (use w old pos r owner_facts [OF T(1,3) inv] in \<open>auto simp: word_ok_def split: if_splits\<close>)
  qed
  then have "\<forall>u. pc_ok ((p(t := q)) u)" using inv by (simp add: rw_inv_def)
  then show ?thesis using word_step [OF assms] owner by (simp add: rw_inv_def)
qed

lemma run_inv:
  assumes T: "finite T" "card T < 2 ^ 31" and run: "rw_run T l p"
  shows "rw_inv T l p"
  using run
proof induction
  case init
  show ?case by (simp add: rw_inv_def word_ok_def threads_at_def rwlock_init_def)
next
  case (step l p t l' q)
  then show ?case by (intro step_inv [OF T])
qed

text \<open>While a thread has the lock exclusively no other has it at all, and no assertion of the
  lock fails.\<close>

lemma mutual_exclusion:
  assumes "finite T" "card T < 2 ^ 31" "rw_run T l p" "t \<in> T" "p t = Ex_Held" "u \<in> T" "u \<noteq> t"
  shows "\<not> excludes (p u) \<and> \<not> shares (p u)"
proof -
  have inv: "rw_inv T l p" using assms(1-3) by (rule run_inv)
  have "0 < threads_at T excludes p" using threads_at_pos [OF assms(1,4), of excludes p] assms(5) by simp
  then have w: "threads_at T excludes p = 1" "threads_at T shares p = 0" using inv by (auto simp: rw_inv_def word_ok_def)
  have "\<not> excludes (p u)"
    using threads_at_one [OF assms(1) _ assms(4,6), of excludes p] w(1) assms(5,7) by auto
  moreover have "\<not> shares (p u)" using threads_at_pos [OF assms(1,6), of shares p] w(2) by auto
  ultimately show ?thesis ..
qed

lemma never_crashes:
  assumes "finite T" "card T < 2 ^ 31" "rw_run T l p"
  shows "p t \<noteq> Crashed"
  using run_inv [OF assms] by (metis pc_ok.simps(3) rw_inv_def)

section \<open>The writer count\<close>

text \<open>The threads that have announced themselves as writers and not yet withdrawn.\<close>

fun counted :: "pc \<Rightarrow> bool" where
  "counted (Ex_Load _) = True" | "counted (Ex_Cas _) = True" | "counted (Ex_Wait _) = True" | "counted Ex_Dec = True"
| "counted Ex_Assert = True" | "counted Ex_Own = True" | "counted Ex_Held = True" | "counted Rel_Assert = True"
| "counted Rel_Count = True" | "counted Up_Cas = True" | "counted Up_Dec = True" | "counted _ = False"

lemma count_step:
  assumes T: "finite T" "card T < 2 ^ 31" "t \<in> T" and inv: "rw_inv T l p"
    and c: "rw_count l = of_nat (threads_at T counted p)" and st: "rw_step t l (p t) l' q"
  shows "rw_count l' = of_nat (threads_at T counted (p(t := q)))"
proof -
  define n n' where "n = threads_at T counted p" and "n' = threads_at T counted (p(t := q))"
  have u: "n' + of_bool (counted (p t)) = n + of_bool (counted q)"
    unfolding n_def n'_def using threads_at_update [OF T(1,3)] .
  have pos: "counted (p t) \<Longrightarrow> 0 < n" unfolding n_def using threads_at_pos [OF T(1,3)] by blast
  have q: "q \<noteq> Crashed" using step_inv [OF T inv st] by (metis fun_upd_same pc_ok.simps(3) rw_inv_def)
  have "rw_count l' = of_nat n'"
    using st by (cases rule: rw_step.cases) (use u pos c q in \<open>auto simp: n_def [symmetric] split: if_splits\<close>)
  then show ?thesis by (simp add: n'_def)
qed

lemma run_count:
  assumes T: "finite T" "card T < 2 ^ 31" and run: "rw_run T l p"
  shows "rw_count l = of_nat (threads_at T counted p)"
  using run
proof induction
  case init
  show ?case by (simp add: threads_at_def rwlock_init_def)
next
  case (step l p t l' q)
  then show ?case using count_step [OF T step.hyps(2) run_inv [OF T step.hyps(1)]] by blast
qed

section \<open>Nothing is left behind\<close>

text \<open>With no thread inside, the lock is as it was initialised.\<close>

lemma quiescent:
  assumes T: "finite T" "card T < 2 ^ 31" and run: "rw_run T l p" and idle: "\<forall>t \<in> T. p t = Idle"
  shows "l = rwlock_init"
proof -
  have none: "threads_at T P p = 0" if "\<not> P Idle" for P
  proof -
    have "{t \<in> T. P (p t)} = {}" using idle \<open>\<not> P Idle\<close> by auto
    then show ?thesis unfolding threads_at_def by (simp only: card.empty)
  qed
  have inv: "rw_inv T l p" by (rule run_inv [OF T run])
  have "rw_state l = 0" using inv none [of excludes] none [of shares] by (simp add: rw_inv_def word_ok_def)
  moreover have "rw_count l = 0" using run_count [OF T run] none [of counted] by simp
  moreover have "rw_owner l = None"
  proof (rule ccontr)
    assume "rw_owner l \<noteq> None"
    then obtain u where "rw_owner l = Some u" by blast
    then show False using inv idle by (auto simp: rw_inv_def)
  qed
  ultimately show ?thesis by (cases l) (simp add: rwlock_init_def)
qed

text \<open>From the initial state a thread can take the lock, in either mode.\<close>

lemma rw_run_step: "rw_run T l p \<Longrightarrow> t \<in> T \<Longrightarrow> p t = c \<Longrightarrow> rw_step t l c l' q \<Longrightarrow> rw_run T l' (p(t := q))"
  by (metis rw_run.step)

lemma take_exclusive:
  assumes run: "rw_run T rwlock_init p" and t: "t \<in> T" "p t = Idle"
  shows "rw_run T \<lparr>rw_owner = Some t, rw_state = RWLOCK_EXCLUSIVE, rw_count = 1\<rparr> (p(t := Ex_Held))"
proof -
  let ?l1 = "rwlock_init\<lparr>rw_count := 1\<rparr>" and ?l2 = "rwlock_init\<lparr>rw_count := 1, rw_state := RWLOCK_EXCLUSIVE\<rparr>"
  have "rw_run T rwlock_init (p(t := Ex_Inc True))" by (rule rw_run_step [OF run t]) (rule ex_start)
  from rw_run_step [OF this t(1), of "Ex_Inc True"] have "rw_run T ?l1 (p(t := Ex_Load True))"
    using ex_inc [of t rwlock_init True] by (simp add: rwlock_init_def)
  from rw_run_step [OF this t(1), of "Ex_Load True"] have "rw_run T ?l1 (p(t := Ex_Cas True))"
    using ex_load [of t ?l1 True] by (simp add: rwlock_init_def)
  from rw_run_step [OF this t(1), of "Ex_Cas True"] have "rw_run T ?l2 (p(t := Ex_Assert))"
    using ex_cas [of ?l1 t True] by (simp add: rwlock_init_def)
  from rw_run_step [OF this t(1), of Ex_Assert] have "rw_run T ?l2 (p(t := Ex_Own))"
    using ex_assert [of t ?l2] by (simp add: rwlock_init_def)
  from rw_run_step [OF this t(1), of Ex_Own] show ?thesis
    using ex_own [of t ?l2] by (simp add: rwlock_init_def)
qed

lemma take_shared:
  assumes run: "rw_run T rwlock_init p" and t: "t \<in> T" "p t = Idle"
  shows "rw_run T (rwlock_init\<lparr>rw_state := 1\<rparr>) (p(t := Sh_Held))"
proof -
  have "rw_run T rwlock_init (p(t := Sh_Load))" by (rule rw_run_step [OF run t]) (rule sh_start)
  from rw_run_step [OF this t(1), of Sh_Load] have "rw_run T rwlock_init (p(t := Sh_Count 0))"
    using sh_load [of rwlock_init t] by (simp add: rwlock_init_def)
  from rw_run_step [OF this t(1), of "Sh_Count 0"] have "rw_run T rwlock_init (p(t := Sh_Cas 0))"
    using sh_count [of rwlock_init t 0] by (simp add: rwlock_init_def)
  from rw_run_step [OF this t(1), of "Sh_Cas 0"] show ?thesis
    using sh_cas [of rwlock_init 0 t] by (simp add: rwlock_init_def)
qed

lemma never_wedged:
  assumes T: "finite T" "card T < 2 ^ 31" and run: "rw_run T l p" and idle: "\<forall>t \<in> T. p t = Idle" and t: "t \<in> T"
  shows "(\<exists>l'. rw_run T l' (p(t := Ex_Held))) \<and> (\<exists>l'. rw_run T l' (p(t := Sh_Held)))"
  using take_exclusive take_shared run idle t quiescent [OF T run idle] by blast

section \<open>The lock as its users see it\<close>

text \<open>What the rest of the kernel relies on: a lock that is free, shared by some number of threads or
  held by one.\<close>

datatype rwlock_state = Unlocked | Shared nat | Exclusive

inductive lock_step :: "rwlock_state \<Rightarrow> rwlock_state \<Rightarrow> bool" where
  first_share: "lock_step Unlocked (Shared 1)"
| next_share: "0 < n \<Longrightarrow> lock_step (Shared n) (Shared (Suc n))"
| drop_share: "0 < n \<Longrightarrow> lock_step (Shared (Suc n)) (Shared n)"
| last_share: "lock_step (Shared 1) Unlocked"
| take: "lock_step Unlocked Exclusive"
| upgrade: "lock_step (Shared 1) Exclusive"
| release: "lock_step Exclusive Unlocked"

inductive_simps lock_from_exclusive [simp]: "lock_step Exclusive s"

definition abs_lock :: "rwlock \<Rightarrow> rwlock_state" where
  "abs_lock l =
     (if rw_state l = 0 then Unlocked else if rw_state l = RWLOCK_EXCLUSIVE then Exclusive
      else Shared (unat (rw_state l)))"

lemma abs_of_nat:
  "n < 2 ^ 31 \<Longrightarrow> rw_state l = of_nat n \<Longrightarrow> abs_lock l = (if n = 0 then Unlocked else Shared n)"
  using reader_word(3,5) [of n] by (simp add: abs_lock_def unsigned_of_nat take_bit_nat_eq_self)

text \<open>Every step of every thread is a step of that lock, or leaves it as it is.\<close>

lemma lock_refinement:
  assumes T: "finite T" "card T < 2 ^ 31 - 1" "t \<in> T" and run: "rw_run T l p" and st: "rw_step t l (p t) l' q"
  shows "abs_lock l' = abs_lock l \<or> lock_step (abs_lock l) (abs_lock l')"
proof -
  have T2: "card T < 2 ^ 31" using T(2) by simp
  have inv: "rw_inv T l p" by (rule run_inv [OF T(1) T2 run])
  have inv': "rw_inv T l' (p(t := q))" by (rule step_inv [OF T(1) T2 T(3) inv st])
  define s where "s = threads_at T shares p"
  have lt: "s < 2 ^ 31 - 1" using threads_at_le [OF T(1), of shares p] T(2) by (simp add: s_def)
  have w: "(threads_at T excludes p = 0 \<and> rw_state l = of_nat s) \<or>
      (threads_at T excludes p = 1 \<and> s = 0 \<and> rw_state l = RWLOCK_EXCLUSIVE)"
    using inv by (simp add: rw_inv_def word_ok_def s_def)
  have pos: "shares (p t) \<Longrightarrow> 0 < s" "excludes (p t) \<Longrightarrow> 0 < threads_at T excludes p"
    unfolding s_def using threads_at_pos [OF T(1,3)] by blast+
  have ex: "abs_lock l = Exclusive" if "rw_state l = RWLOCK_EXCLUSIVE" for l
    using that excl_word by (simp add: abs_lock_def)
  have rd: "abs_lock l = (if n = 0 then Unlocked else Shared n)" if "rw_state l = of_nat n" "n < 2 ^ 31" for l n
    using abs_of_nat that by blast
  have ok: "pc_ok (p t)" using inv by (simp add: rw_inv_def)
  show ?thesis using st
  proof (cases rule: rw_step.cases)
    case (sh_cas v)
    then have "rw_state l = of_nat s" "rw_state l' = of_nat (Suc s)" using w ok excl_word by auto
    then have "abs_lock l = (if s = 0 then Unlocked else Shared s)" "abs_lock l' = Shared (Suc s)"
      using rd [of l s] rd [of l' "Suc s"] lt by simp_all
    then show ?thesis by (auto intro: lock_step.intros simp flip: One_nat_def)
  next
    case sh_sub
    then have "rw_state l = of_nat s" "0 < s" using w pos by auto
    moreover from this have "rw_state l' = of_nat (s - 1)" using sh_sub by (simp add: of_nat_diff)
    ultimately have "abs_lock l = Shared s" "abs_lock l' = (if s - 1 = 0 then Unlocked else Shared (s - 1))"
      using rd [of l s] rd [of l' "s - 1"] lt by simp_all
    then show ?thesis using \<open>0 < s\<close> by (cases s) (auto intro: lock_step.intros simp flip: One_nat_def)
  next
    case up_sub
    then have "rw_state l = of_nat s" "0 < s" using w pos by auto
    moreover from this have "rw_state l' = of_nat (s - 1)" using up_sub by (simp add: of_nat_diff)
    ultimately have "abs_lock l = Shared s" "abs_lock l' = (if s - 1 = 0 then Unlocked else Shared (s - 1))"
      using rd [of l s] rd [of l' "s - 1"] lt by simp_all
    then show ?thesis using \<open>0 < s\<close> by (cases s) (auto intro: lock_step.intros simp flip: One_nat_def)
  next
    case (ex_cas ever)
    then have "abs_lock l = Unlocked" "abs_lock l' = Exclusive" using ex [of l'] by (simp_all add: abs_lock_def)
    then show ?thesis using take by simp
  next
    case up_cas
    then have "abs_lock l = Shared 1" "abs_lock l' = Exclusive"
      using ex [of l'] excl_word by (simp_all add: abs_lock_def)
    then show ?thesis using upgrade by simp
  next
    case rel_state
    then have "rw_state l = RWLOCK_EXCLUSIVE" using w pos by auto
    then have "abs_lock l = Exclusive" "abs_lock l' = Unlocked"
      using ex [of l] rel_state excl_word by (simp_all add: abs_lock_def)
    then show ?thesis by simp
  qed (simp_all add: abs_lock_def)
qed

end
