(* ===== verification/VmMap.thy ===== *)
theory VmMap
  imports RbTree Amap Pmap RwLock
begin

text \<open>
  Address spaces: \<^verbatim>\<open>kernel/vm/map.c\<close>. A map keeps its entries in a red-black tree ordered by
  base address. A pointer to an entry of the tree is the entry's base; writing a field other than
  the base through such a pointer changes the element in place. Whether a map is the kernel's
  (\<open>map == kmap()\<close>) is a field. The map lock is a field too: an operation that would wait for a
  lock its own thread holds never returns.
\<close>

unbundle bit_operations_syntax

section \<open>Data\<close>

datatype entry_type = VM_MAP_ENT_MMIO | VM_MAP_ENT_OBJ | VM_MAP_ENT_RESERVED

datatype vm_inheritance = VM_INHERIT_NONE | VM_INHERIT_SHARED | VM_INHERIT_COPY

record map_entry =
  me_base :: u64
  me_end :: u64
  me_type :: entry_type
  me_mmio_addr :: u64
  me_object :: "nat option"
  me_offset :: u64
  me_is_cow :: bool
  me_amap :: "nat option"
  me_protection :: u32
  me_max_protection :: u32
  me_inheritance :: vm_inheritance
  me_cache :: vm_cache

record vm_map =
  map_lock :: rwlock_state
  map_tree :: "map_entry rbtree"
  map_pmap :: pmap
  is_kmap :: bool

definition KERNEL_VA_BASE :: u64 where "KERNEL_VA_BASE = 0xFFFFFFE000000000 + 32 * 0x40000000"
definition KERNEL_VA_END :: u64 where "KERNEL_VA_END = KERNEL_VA_BASE + 32 * 0x40000000"
definition USER_VA_BASE :: u64 where "USER_VA_BASE = 0x1000"
definition USER_VA_END :: u64 where "USER_VA_END = 128 * 0x10000000000"

definition VM_MAP_FIXED :: u32 where "VM_MAP_FIXED = 0x1"
definition VM_MAP_OVERWRITE :: u32 where "VM_MAP_OVERWRITE = 0x2"
definition VM_MAP_PREFILL :: u32 where "VM_MAP_PREFILL = 0x4"
definition VM_MAP_LOCK_HELD :: u32 where "VM_MAP_LOCK_HELD = 0x8"
definition VM_MAP_SETMAXPROT :: u32 where "VM_MAP_SETMAXPROT = 0x10"

definition vm_map_entry_cmp :: "map_entry \<Rightarrow> map_entry \<Rightarrow> int" where
  "vm_map_entry_cmp a b =
     (if me_base a = me_base b then 0 else if me_base a > me_base b then 1 else -1)"

interpretation mtree: keyed_compare vm_map_entry_cmp me_base
  by unfold_locales (auto simp: vm_map_entry_cmp_def)

text \<open>What \<open>kzalloc\<close> gives, and \<open>init_map_entry\<close>, which leaves the union alone.\<close>

definition zeroed_entry :: map_entry where
  "zeroed_entry = \<lparr>me_base = 0, me_end = 0, me_type = VM_MAP_ENT_RESERVED, me_mmio_addr = 0,
     me_object = None, me_offset = 0, me_is_cow = False, me_amap = None, me_protection = 0,
     me_max_protection = 0, me_inheritance = VM_INHERIT_NONE, me_cache = VM_UC\<rparr>"

definition init_map_entry :: "map_entry \<Rightarrow> u64 \<Rightarrow> u64 \<Rightarrow> u64 \<Rightarrow> u32 \<Rightarrow> vm_inheritance \<Rightarrow> vm_cache \<Rightarrow>
    entry_type \<Rightarrow> map_entry" where
  "init_map_entry e offset base stop prot inheritance cache entry_type =
     e\<lparr>me_base := base, me_end := stop, me_type := entry_type, me_offset := offset,
       me_is_cow := (inheritance = VM_INHERIT_COPY), me_amap := None,
       me_max_protection := prot, me_protection := prot, me_inheritance := inheritance,
       me_cache := cache\<rparr>"

section \<open>The tree of entries\<close>

fun update_entry :: "u64 \<Rightarrow> (map_entry \<Rightarrow> map_entry) \<Rightarrow> map_entry rbtree \<Rightarrow> map_entry rbtree" where
  "update_entry b f Null = Null"
| "update_entry b f (Node c l x r) =
     Node c (update_entry b f l) (if me_base x = b then f x else x) (update_entry b f r)"

fun lower_bound :: "u64 \<Rightarrow> map_entry rbtree \<Rightarrow> map_entry option \<Rightarrow> map_entry option" where
  "lower_bound addr Null res = res"
| "lower_bound addr (Node c l x r) res =
     (if addr > me_base x then lower_bound addr r res else lower_bound addr l (Some x))"

definition map_lower_bound :: "map_entry rbtree \<Rightarrow> u64 \<Rightarrow> map_entry option" where
  "map_lower_bound t addr = lower_bound addr t None"

fun lookup_from :: "u64 \<Rightarrow> map_entry rbtree \<Rightarrow> map_entry option" where
  "lookup_from address Null = None"
| "lookup_from address (Node c l x r) =
     (if address < me_base x then lookup_from address l
      else if address \<ge> me_end x then lookup_from address r
      else Some x)"

definition vm_map_lookup_entry_locked :: "vm_map \<Rightarrow> u64 \<Rightarrow> map_entry option" where
  "vm_map_lookup_entry_locked m address = lookup_from address (map_tree m)"

text \<open>\<open>RBT_NEXT\<close> and \<open>RBT_PREV\<close> of a null pointer read through it.\<close>

definition next_entry :: "map_entry rbtree \<Rightarrow> map_entry option \<Rightarrow> map_entry option res" where
  "next_entry t e = (case e of None \<Rightarrow> Inl NullDeref | Some x \<Rightarrow> rb_next vm_map_entry_cmp t x)"

definition prev_entry :: "map_entry rbtree \<Rightarrow> map_entry option \<Rightarrow> map_entry option res" where
  "prev_entry t e = (case e of None \<Rightarrow> Inl NullDeref | Some x \<Rightarrow> rb_prev vm_map_entry_cmp t x)"

definition insert_entry :: "map_entry \<Rightarrow> map_entry rbtree \<Rightarrow> map_entry rbtree res" where
  "insert_entry e t = bindR (rb_insert vm_map_entry_cmp t e) (\<lambda>(_, t'). Inr t')"

section \<open>Splitting an entry\<close>

text \<open>The references a piece of an object's entry takes.\<close>

definition ref_backing :: "map_entry \<Rightarrow> vm \<Rightarrow> vm res" where
  "ref_backing e s =
     (if me_type e \<noteq> VM_MAP_ENT_OBJ then Inr s
      else bindR (case me_object e of None \<Rightarrow> Inr s | Some obj \<Rightarrow> obj_ref obj s) (\<lambda>s1.
           case me_amap e of None \<Rightarrow> Inr s1 | Some amap \<Rightarrow> vm_amap_ref amap s1))"

definition piece :: "map_entry \<Rightarrow> u64 \<Rightarrow> u64 \<Rightarrow> u64 \<Rightarrow> map_entry" where
  "piece ent offset base stop =
     (let p = (init_map_entry zeroed_entry offset base stop (me_protection ent)
                 (me_inheritance ent) (me_cache ent) (me_type ent))
                 \<lparr>me_max_protection := me_max_protection ent\<rparr>
      in if me_type ent = VM_MAP_ENT_OBJ
         then p\<lparr>me_object := me_object ent, me_amap := me_amap ent\<rparr> else p)"

text \<open>The two halves of \<open>carve_entry\<close>: what is left of the cut and what is right of it. The result
  is the entry as changed so far and the tree, or nothing when an allocation fails.\<close>

definition carve_left :: "map_entry rbtree \<Rightarrow> map_entry \<Rightarrow> u64 \<Rightarrow> vm \<Rightarrow>
    ((map_entry \<times> map_entry rbtree) option \<times> vm) res" where
  "carve_left t ent split_base s =
     (case kalloc s of
        (None, s1) \<Rightarrow> Inr (None, s1)
      | (Some _, s1) \<Rightarrow>
          let left = piece ent (me_offset ent) (me_base ent) split_base in
          bindR (ref_backing left s1) (\<lambda>s2.
          bindR (insert_entry left t) (\<lambda>t'.
            Inr (Some (ent\<lparr>me_base := split_base,
                         me_offset := me_offset ent + (split_base - me_base ent)\<rparr>, t'), s2))))"

definition carve_right :: "map_entry rbtree \<Rightarrow> map_entry \<Rightarrow> u64 \<Rightarrow> u64 \<Rightarrow> vm \<Rightarrow>
    ((map_entry \<times> map_entry rbtree) option \<times> vm) res" where
  "carve_right t ent split_base split_end s =
     (case kalloc s of
        (None, s1) \<Rightarrow> Inr (None, s1)
      | (Some _, s1) \<Rightarrow>
          let right = piece ent (me_offset ent + (split_end - split_base)) split_end (me_end ent) in
          bindR (ref_backing right s1) (\<lambda>s2.
          bindR (insert_entry right t) (\<lambda>t'.
            Inr (Some (ent\<lparr>me_end := split_end\<rparr>, t'), s2))))"

text \<open>Returns the status and the tree; when an allocation fails the entry being split is in no
  tree any more.\<close>

definition carve_entry :: "map_entry rbtree \<Rightarrow> map_entry \<Rightarrow> u64 \<Rightarrow> u64 \<Rightarrow> vm \<Rightarrow>
    (status \<times> map_entry rbtree \<times> vm) res" where
  "carve_entry t ent split_base split_end s =
     ensure (split_base \<ge> me_base ent \<and> split_base < me_end ent) AssertFail (
     ensure (split_end \<ge> me_base ent \<and> split_end < me_end ent) AssertFail (
     let need_left = split_base > me_base ent;
         need_right = split_end < me_end ent in
     ensure (need_left \<or> need_right) AssertFail (
     bindR (rb_remove vm_map_entry_cmp t ent) (\<lambda>t1.
     bindR (if need_left then carve_left t1 ent split_base s else Inr (Some (ent, t1), s))
       (\<lambda>(r, s1). case r of None \<Rightarrow> Inr (YAK_OOM, t1, s1) | Some (ent1, t2) \<Rightarrow>
     bindR (if need_right then carve_right t2 ent1 split_base split_end s1
            else ensure (me_end ent1 = split_end) AssertFail (Inr (Some (ent1, t2), s1)))
       (\<lambda>(r, s2). case r of None \<Rightarrow> Inr (YAK_OOM, t2, s2) | Some (ent2, t3) \<Rightarrow>
     bindR (insert_entry ent2 t3) (\<lambda>t4. Inr (YAK_SUCCESS, t4, s2))))))))"

text \<open>The entry as \<open>carve_entry\<close> leaves it, which the caller reads again.\<close>

definition carved :: "map_entry \<Rightarrow> u64 \<Rightarrow> u64 \<Rightarrow> map_entry" where
  "carved ent split_base split_end =
     ent\<lparr>me_base := split_base, me_offset := me_offset ent + (split_base - me_base ent),
           me_end := split_end\<rparr>"

section \<open>Protection\<close>

definition vm_check_prot :: "u32 \<Rightarrow> u32 \<Rightarrow> bool" where
  "vm_check_prot max_prot new_prot =
     (if new_prot AND VM_WRITE \<noteq> 0 \<and> max_prot AND VM_WRITE = 0 then False
      else if new_prot AND VM_EXECUTE \<noteq> 0 \<and> max_prot AND (VM_EXECUTE OR VM_WRITE) = 0 then False
      else if new_prot AND VM_READ \<noteq> 0 \<and> max_prot AND (VM_READ OR VM_EXECUTE OR VM_WRITE) = 0 then False
      else True)"

definition page_aligned :: "u64 \<Rightarrow> bool" where
  "page_aligned a = (a AND 0xFFF = 0)"

definition first_overlap :: "map_entry rbtree \<Rightarrow> u64 \<Rightarrow> map_entry option res" where
  "first_overlap t start =
     (let current = (case map_lower_bound t start of None \<Rightarrow> rb_max t | Some x \<Rightarrow> Some x) in
      bindR (prev_entry t current) (\<lambda>prev.
        case prev of
          Some p \<Rightarrow> if me_end p > start then Inr prev else Inr current
        | None \<Rightarrow> Inr current))"

text \<open>The part of an entry inside the range \<open>[a, z)\<close> made an entry of its own, as both loops do it, and
  that entry.\<close>

definition isolate :: "map_entry rbtree \<Rightarrow> map_entry \<Rightarrow> u64 \<Rightarrow> u64 \<Rightarrow> vm \<Rightarrow> (status \<times> map_entry rbtree \<times> vm) res" where
  "isolate t c a z s =
     (let split_base = max (me_base c) a; split_end = min (me_end c) z in
      if me_base c \<noteq> split_base \<or> me_end c \<noteq> split_end
      then carve_entry t c split_base split_end s else Inr (YAK_SUCCESS, t, s))"

definition isolated :: "map_entry \<Rightarrow> u64 \<Rightarrow> u64 \<Rightarrow> map_entry" where
  "isolated c a z =
     (let split_base = max (me_base c) a; split_end = min (me_end c) z in
      if me_base c \<noteq> split_base \<or> me_end c \<noteq> split_end then carved c split_base split_end else c)"

definition reprotect :: "u32 \<Rightarrow> u32 \<Rightarrow> map_entry \<Rightarrow> map_entry" where
  "reprotect flags prot e =
     (if flags AND VM_MAP_SETMAXPROT \<noteq> 0 then e\<lparr>me_max_protection := prot\<rparr> else e)\<lparr>me_protection := prot\<rparr>"

text \<open>The loops of \<open>vm_protect\<close> and \<open>vm_unmap\<close>; the first argument bounds the iterations.\<close>

fun protect_loop :: "nat \<Rightarrow> nat \<Rightarrow> vm_map \<Rightarrow> u64 \<Rightarrow> u64 \<Rightarrow> u32 \<Rightarrow> u32 \<Rightarrow> map_entry option \<Rightarrow> vm \<Rightarrow>
    (status \<times> vm_map \<times> vm) res" where
  "protect_loop 0 lv m search_base search_end prot flags current s = Inl Diverges"
| "protect_loop (Suc fuel) lv m search_base search_end prot flags current s =
     (case current of
        None \<Rightarrow> Inr (YAK_SUCCESS, m, s)
      | Some cur \<Rightarrow>
          if \<not> me_base cur < search_end then Inr (YAK_SUCCESS, m, s)
          else
            bindR (next_entry (map_tree m) current) (\<lambda>nxt.
            if me_end cur \<le> search_base \<or> me_base cur \<ge> search_end
            then protect_loop fuel lv m search_base search_end prot flags nxt s
            else
              bindR (isolate (map_tree m) cur search_base search_end s) (\<lambda>(rv, t1, s1).
              if IS_ERR rv then Inr (rv, m\<lparr>map_tree := t1\<rparr>, s1)
              else
                let cur1 = isolated cur search_base search_end in
                if flags AND VM_MAP_SETMAXPROT = 0 \<and> \<not> vm_check_prot (me_max_protection cur1) prot
                then Inr (YAK_PERM_DENIED, m\<lparr>map_tree := t1\<rparr>, s1)
                else
                  bindR (pmap_protect_range lv (top_level (map_pmap m)) (me_base cur1)
                           (me_end cur1 - me_base cur1) prot (me_cache cur1) 0 s1) (\<lambda>s2.
                    protect_loop fuel lv
                      (m\<lparr>map_tree := update_entry (me_base cur1) (reprotect flags prot) t1\<rparr>)
                      search_base search_end prot flags nxt s2))))"

text \<open>\<open>guard(rwlock)\<close> with \<open>VM_MAP_LOCK_HELD\<close> (skip) or exclusive.\<close>

definition with_exclusive :: "bool \<Rightarrow> vm_map \<Rightarrow> (vm_map \<Rightarrow> ('a \<times> vm_map \<times> vm) res) \<Rightarrow>
    ('a \<times> vm_map \<times> vm) res" where
  "with_exclusive skip m f =
     (if skip then f m
      else if map_lock m \<noteq> Unlocked then Inl Diverges
      else bindR (f (m\<lparr>map_lock := Exclusive\<rparr>)) (\<lambda>(r, m', s'). Inr (r, m'\<lparr>map_lock := Unlocked\<rparr>, s')))"

definition loop_fuel :: "map_entry rbtree \<Rightarrow> nat" where
  "loop_fuel t = length (inorder t) + 2"

definition vm_protect :: "nat \<Rightarrow> vm_map \<Rightarrow> u64 \<Rightarrow> u64 \<Rightarrow> u32 \<Rightarrow> u32 \<Rightarrow> vm \<Rightarrow> (status \<times> vm_map \<times> vm) res" where
  "vm_protect lv m va len prot flags s =
     (if \<not> page_aligned va \<or> \<not> page_aligned len then Inr (YAK_INVALID_ARGS, m, s)
      else with_exclusive (flags AND VM_MAP_LOCK_HELD \<noteq> 0) m (\<lambda>m.
        if rb_empty (map_tree m) then Inr (YAK_SUCCESS, m, s)
        else bindR (first_overlap (map_tree m) va) (\<lambda>current.
          protect_loop (loop_fuel (map_tree m)) lv m va (va + len) prot flags current s)))"

section \<open>Unmapping\<close>

definition deref_backing :: "map_entry \<Rightarrow> vm \<Rightarrow> vm res" where
  "deref_backing e s =
     (if me_type e \<noteq> VM_MAP_ENT_OBJ then Inr s
      else case me_object e of
             None \<Rightarrow> Inl AssertFail
           | Some obj \<Rightarrow>
               bindR (case me_amap e of None \<Rightarrow> Inr s | Some amap \<Rightarrow> vm_amap_deref amap s) (obj_deref obj))"

fun unmap_loop :: "nat \<Rightarrow> nat \<Rightarrow> vm_map \<Rightarrow> u64 \<Rightarrow> u64 \<Rightarrow> map_entry option \<Rightarrow> vm \<Rightarrow>
    (status \<times> vm_map \<times> vm) res" where
  "unmap_loop 0 lv m start stop current s = Inl Diverges"
| "unmap_loop (Suc fuel) lv m start stop current s =
     (case current of
        None \<Rightarrow> Inr (YAK_SUCCESS, m, s)
      | Some cur \<Rightarrow>
          if \<not> me_base cur < stop then Inr (YAK_SUCCESS, m, s)
          else
            bindR (next_entry (map_tree m) current) (\<lambda>nxt.
            if me_end cur \<le> start \<or> me_base cur \<ge> stop
            then unmap_loop fuel lv m start stop nxt s
            else
              bindR (isolate (map_tree m) cur start stop s) (\<lambda>(rv, t1, s1).
              if IS_ERR rv then Inr (rv, m\<lparr>map_tree := t1\<rparr>, s1)
              else
                case (if isolated cur start stop \<noteq> cur then map_lower_bound t1 (max (me_base cur) start)
                      else Some cur) of
                  None \<Rightarrow> Inl NullDeref
                | Some cur1 \<Rightarrow>
                    bindR (pmap_unmap_range lv (top_level (map_pmap m)) (me_base cur1)
                             (me_end cur1 - me_base cur1) 0 s1) (\<lambda>s2.
                    bindR (deref_backing cur1 s2) (\<lambda>s3.
                    bindR (rb_remove vm_map_entry_cmp t1 cur1) (\<lambda>t2.
                      unmap_loop fuel lv (m\<lparr>map_tree := t2\<rparr>) start stop nxt s3))))))"

definition align_down_page :: "u64 \<Rightarrow> u64" where
  "align_down_page a = a AND NOT 0xFFF"

definition align_up_page :: "u64 \<Rightarrow> u64" where
  "align_up_page a = (a + 0xFFF) AND NOT 0xFFF"

definition vm_unmap :: "nat \<Rightarrow> vm_map \<Rightarrow> u64 \<Rightarrow> u64 \<Rightarrow> u32 \<Rightarrow> vm \<Rightarrow> (status \<times> vm_map \<times> vm) res" where
  "vm_unmap lv m va len flags s =
     (let va = align_down_page va; len = align_up_page len in
      with_exclusive (flags AND VM_MAP_LOCK_HELD \<noteq> 0) m (\<lambda>m.
        if rb_empty (map_tree m) then Inr (YAK_SUCCESS, m, s)
        else bindR (first_overlap (map_tree m) va) (\<lambda>current.
          unmap_loop (loop_fuel (map_tree m)) lv m va (va + len) current s)))"

section \<open>Allocating a range\<close>

definition gap_found :: "map_entry option \<Rightarrow> map_entry option \<Rightarrow> u64 \<Rightarrow> u64 \<Rightarrow> u64 \<Rightarrow> u64 \<Rightarrow> u64 option" where
  "gap_found prev nxt min_addr max_addr base len =
     (let gap_start = max (case prev of None \<Rightarrow> min_addr | Some p \<Rightarrow> me_end p) base;
          gap_end = (case nxt of None \<Rightarrow> max_addr | Some n \<Rightarrow> me_base n)
      in if gap_end - gap_start \<ge> len then Some gap_start else None)"

text \<open>The loop over the gaps: \<open>Some (Some base)\<close> is \<open>goto found\<close>, \<open>Some None\<close> returns
  \<open>YAK_NOSPACE\<close>.\<close>

fun gap_loop :: "nat \<Rightarrow> map_entry rbtree \<Rightarrow> u64 \<Rightarrow> u64 \<Rightarrow> u64 \<Rightarrow> u64 \<Rightarrow> bool \<Rightarrow> u64 \<Rightarrow>
    map_entry option \<Rightarrow> map_entry option \<Rightarrow> u64 option res" where
  "gap_loop 0 t hint len min_addr max_addr wrapped base prev nxt = Inl Diverges"
| "gap_loop (Suc fuel) t hint len min_addr max_addr wrapped base prev nxt =
     (case gap_found prev nxt min_addr max_addr base len of
        Some b \<Rightarrow> Inr (Some b)
      | None \<Rightarrow>
          bindR (next_entry t nxt) (\<lambda>nxt'.
          case nxt' of
            Some _ \<Rightarrow> gap_loop fuel t hint len min_addr max_addr wrapped base nxt nxt'
          | None \<Rightarrow>
              (case nxt of None \<Rightarrow> Inl NullDeref | Some p \<Rightarrow>
                 if me_end p + len \<le> max_addr then Inr (Some (me_end p))
                 else if hint = 0 \<or> wrapped then Inr None
                 else gap_loop fuel t hint len min_addr max_addr True min_addr None (rb_min t))))"

definition arena :: "bool \<Rightarrow> u64 \<times> u64" where
  "arena kern = (if kern then (KERNEL_VA_BASE, KERNEL_VA_END) else (USER_VA_BASE, USER_VA_END))"

definition clamp_hint :: "u64 \<Rightarrow> u64 \<Rightarrow> u64 \<Rightarrow> u64" where
  "clamp_hint hint min_addr max_addr =
     (let base = (if hint < min_addr then min_addr else hint)
      in if base > max_addr then max_addr else base)"

text \<open>A range for a request without \<open>VM_MAP_FIXED\<close>.\<close>

definition find_range :: "map_entry rbtree \<Rightarrow> u64 \<Rightarrow> u64 \<Rightarrow> u64 \<Rightarrow> u64 \<Rightarrow> u64 option res" where
  "find_range t hint len min_addr max_addr =
     (let base = clamp_hint hint min_addr max_addr in
      if rb_empty t then
        (if base + len > max_addr
         then (if min_addr + len > max_addr then Inr None else Inr (Some min_addr))
         else Inr (Some base))
      else
        let nxt = map_lower_bound t base in
        bindR (case nxt of None \<Rightarrow> Inr None | Some _ \<Rightarrow> prev_entry t nxt) (\<lambda>prev.
        case prev of
          Some _ \<Rightarrow> gap_loop (2 * loop_fuel t) t hint len min_addr max_addr False base prev nxt
        | None \<Rightarrow>
            (case nxt of None \<Rightarrow> Inl AssertFail | Some n \<Rightarrow>
               if me_base n \<ge> min_addr + len then Inr (Some min_addr)
               else bindR (next_entry t nxt) (\<lambda>nxt'.
                 gap_loop (2 * loop_fuel t) t hint len min_addr max_addr False base nxt nxt'))))"

definition overlaps :: "map_entry option \<Rightarrow> map_entry option \<Rightarrow> u64 \<Rightarrow> u64 \<Rightarrow> bool" where
  "overlaps prev nxt base len =
     ((case prev of None \<Rightarrow> False | Some p \<Rightarrow> me_end p > base) \<or>
      (case nxt of None \<Rightarrow> False | Some n \<Rightarrow> me_base n < base + len))"

text \<open>After \<open>found\<close>: the test for a failed allocation looks at the wrong pointer, so a failure is
  written through.\<close>

definition enter_range :: "vm_map \<Rightarrow> u64 \<Rightarrow> u64 \<Rightarrow> u32 \<Rightarrow> vm_inheritance \<Rightarrow> vm_cache \<Rightarrow> u64 \<Rightarrow> entry_type \<Rightarrow>
    vm \<Rightarrow> (status \<times> map_entry option \<times> vm_map \<times> vm) res" where
  "enter_range m base len prot inheritance cache offset entry_type s =
     (let (min_addr, max_addr) = arena (is_kmap m) in
      ensure (base \<ge> min_addr \<or> base + len < max_addr) AssertFail (
      bindR (kalloc_unchecked NullDeref s) (\<lambda>(_, s1).
      let ent = init_map_entry zeroed_entry offset base (base + len) prot inheritance cache entry_type in
      bindR (insert_entry ent (map_tree m)) (\<lambda>t.
        Inr (YAK_SUCCESS, Some ent, m\<lparr>map_tree := t\<rparr>, s1)))))"

definition alloc_map_range_locked :: "nat \<Rightarrow> vm_map \<Rightarrow> u64 \<Rightarrow> u64 \<Rightarrow> u32 \<Rightarrow> vm_inheritance \<Rightarrow> vm_cache \<Rightarrow> u64 \<Rightarrow>
    entry_type \<Rightarrow> u32 \<Rightarrow> vm \<Rightarrow> (status \<times> map_entry option \<times> vm_map \<times> vm) res" where
  "alloc_map_range_locked lv m hint len prot inheritance cache offset entry_type flags s =
     (let (min_addr, max_addr) = arena (is_kmap m); t = map_tree m in
      if len = 0 then Inr (YAK_INVALID_ARGS, None, m, s)
      else if len > max_addr - min_addr then Inr (YAK_NOSPACE, None, m, s)
      else if flags AND VM_MAP_FIXED \<noteq> 0 then
        if hint < min_addr \<or> hint + len < hint \<or> hint + len > max_addr
        then Inr (YAK_INVALID_ARGS, None, m, s)
        else
          let nxt = map_lower_bound t hint in
          bindR (case nxt of None \<Rightarrow> Inr (rb_max t) | Some _ \<Rightarrow> prev_entry t nxt) (\<lambda>prev.
          if overlaps prev nxt hint len then
            if flags AND VM_MAP_OVERWRITE = 0 then Inr (YAK_EXISTS, None, m, s)
            else bindR (vm_unmap lv m hint len VM_MAP_LOCK_HELD s) (\<lambda>(_, m1, s1).
                   enter_range m1 hint len prot inheritance cache offset entry_type s1)
          else enter_range m hint len prot inheritance cache offset entry_type s)
      else bindR (find_range t hint len min_addr max_addr) (\<lambda>b. case b of
             None \<Rightarrow> Inr (YAK_NOSPACE, None, m, s)
           | Some base \<Rightarrow> enter_range m base len prot inheritance cache offset entry_type s))"

definition vm_map_reserve :: "nat \<Rightarrow> vm_map \<Rightarrow> u64 \<Rightarrow> u64 \<Rightarrow> u32 \<Rightarrow> vm \<Rightarrow> ((status \<times> u64) \<times> vm_map \<times> vm) res" where
  "vm_map_reserve lv m hint len flags s =
     with_exclusive False m (\<lambda>m.
       bindR (alloc_map_range_locked lv m hint len 0 VM_INHERIT_NONE VM_UC 0 VM_MAP_ENT_RESERVED flags s)
         (\<lambda>(rv, ent, m1, s1).
           Inr ((rv, if IS_OK rv then (case ent of None \<Rightarrow> 0 | Some e \<Rightarrow> me_base e) else 0), m1, s1)))"

definition vm_map_mmio :: "nat \<Rightarrow> vm_map \<Rightarrow> u64 \<Rightarrow> u64 \<Rightarrow> u32 \<Rightarrow> vm_cache \<Rightarrow> vm \<Rightarrow>
    ((status \<times> u64 option) \<times> vm_map \<times> vm) res" where
  "vm_map_mmio lv m device_addr len prot cache s =
     with_exclusive False m (\<lambda>m.
       let rounded_addr = align_down_page device_addr;
           offset = device_addr - rounded_addr;
           len = align_up_page (offset + len) in
       bindR (alloc_map_range_locked lv m 0 len prot VM_INHERIT_NONE cache offset VM_MAP_ENT_MMIO 0 s)
         (\<lambda>(rv, ent, m1, s1). case ent of
            None \<Rightarrow> Inr ((rv, None), m1, s1)
          | Some e \<Rightarrow>
              Inr ((YAK_SUCCESS, Some (me_base e + offset)),
                   m1\<lparr>map_tree := update_entry (me_base e) (\<lambda>x. x\<lparr>me_mmio_addr := rounded_addr\<rparr>) (map_tree m1)\<rparr>,
                   s1)))"

section \<open>Whole maps\<close>

definition vm_map_init :: "nat \<Rightarrow> u64 \<Rightarrow> vm_map \<Rightarrow> vm \<Rightarrow> (status \<times> vm_map \<times> vm) res" where
  "vm_map_init lv kernel_top m s =
     bindR (if is_kmap m then pmap_kernel_bootstrap lv (map_pmap m) s
            else pmap_init lv kernel_top (map_pmap m) s) (\<lambda>(pm, s1).
       Inr (YAK_SUCCESS, m\<lparr>map_lock := Unlocked, map_tree := Null, map_pmap := pm\<rparr>, s1))"

fun destroy_loop :: "nat \<Rightarrow> map_entry rbtree \<Rightarrow> vm \<Rightarrow> (map_entry rbtree \<times> vm) res" where
  "destroy_loop fuel Null s = Inr (Null, s)"
| "destroy_loop 0 (Node c l x r) s = Inl Diverges"
| "destroy_loop (Suc fuel) (Node c l x r) s =
     bindR (rb_remove vm_map_entry_cmp (Node c l x r) x) (\<lambda>t1.
     bindR (if me_type x \<noteq> VM_MAP_ENT_OBJ then Inr s
            else bindR (case me_amap x of None \<Rightarrow> Inr s | Some amap \<Rightarrow> vm_amap_deref amap s) (\<lambda>s1.
                 case me_object x of None \<Rightarrow> Inl NullDeref | Some obj \<Rightarrow> obj_deref obj s1))
       (destroy_loop fuel t1))"

definition vm_map_destroy :: "nat \<Rightarrow> vm_map \<Rightarrow> vm \<Rightarrow> (vm_map \<times> vm) res" where
  "vm_map_destroy lv m s =
     (if map_lock m \<noteq> Unlocked then Inl Diverges
      else bindR (destroy_loop (loop_fuel (map_tree m)) (map_tree m) s) (\<lambda>(t, s1).
           bindR (pmap_destroy lv (is_kmap m) (map_pmap m) s1) (\<lambda>(pm, s2).
             Inr (m\<lparr>map_lock := Exclusive, map_tree := t, map_pmap := pm\<rparr>, s2))))"

text \<open>One entry of the parent entered in the child; the parent's tables lose write access where the
  pages become shared.\<close>

definition fork_entry :: "nat \<Rightarrow> u64 \<Rightarrow> map_entry \<Rightarrow> map_entry rbtree \<Rightarrow> vm \<Rightarrow> (map_entry rbtree \<times> vm) res" where
  "fork_entry lv from_top elm t s =
     (if me_inheritance elm = VM_INHERIT_NONE then Inr (t, s)
      else
        bindR (kalloc_unchecked NullDeref s) (\<lambda>(_, s1).
        let new = (init_map_entry zeroed_entry (me_offset elm) (me_base elm) (me_end elm)
                     (me_protection elm) (me_inheritance elm) (me_cache elm) (me_type elm))
                     \<lparr>me_max_protection := me_max_protection elm\<rparr> in
        bindR (case me_type elm of
                 VM_MAP_ENT_MMIO \<Rightarrow> Inr (new\<lparr>me_mmio_addr := me_mmio_addr elm\<rparr>, s1)
               | VM_MAP_ENT_RESERVED \<Rightarrow> Inr (new, s1)
               | VM_MAP_ENT_OBJ \<Rightarrow>
                   (case me_object elm of None \<Rightarrow> Inl AssertFail | Some obj \<Rightarrow>
                      bindR (obj_ref obj s1) (\<lambda>s2.
                      if me_inheritance elm = VM_INHERIT_COPY then
                        bindR (vm_amap_copy (me_amap elm) s2) (\<lambda>(amap, s3).
                        bindR (if me_protection elm AND VM_WRITE \<noteq> 0
                               then pmap_protect_range lv from_top (me_base elm) (me_end elm - me_base elm)
                                      (me_protection elm AND NOT VM_WRITE) (me_cache elm) 0 s3
                               else Inr s3) (\<lambda>s4.
                          Inr (new\<lparr>me_object := Some obj, me_amap := Some amap\<rparr>, s4)))
                      else ensure (\<not> me_is_cow elm) AssertFail (Inr (new\<lparr>me_object := Some obj\<rparr>, s2)))))
          (\<lambda>(new', s5).
        bindR (insert_entry new' t) (\<lambda>t'. Inr (t', s5)))))"

fun fork_loop :: "nat \<Rightarrow> u64 \<Rightarrow> map_entry list \<Rightarrow> map_entry rbtree \<Rightarrow> vm \<Rightarrow> (map_entry rbtree \<times> vm) res" where
  "fork_loop lv from_top [] t s = Inr (t, s)"
| "fork_loop lv from_top (elm # es) t s =
     bindR (fork_entry lv from_top elm t s) (\<lambda>(t', s'). fork_loop lv from_top es t' s')"

text \<open>Both locks are taken and given back, so neither map's lock differs afterwards.\<close>

definition vm_map_fork :: "nat \<Rightarrow> vm_map \<Rightarrow> vm_map \<Rightarrow> vm \<Rightarrow> (status \<times> vm_map \<times> vm) res" where
  "vm_map_fork lv from to s =
     (if map_lock from = Exclusive \<or> map_lock to \<noteq> Unlocked then Inl Diverges
      else bindR (fork_loop lv (top_level (map_pmap from)) (inorder (map_tree from)) (map_tree to) s)
             (\<lambda>(t, s'). Inr (YAK_SUCCESS, to\<lparr>map_tree := t\<rparr>, s')))"

end
