(* ===== verification/Fault.thy ===== *)
theory Fault
  imports VmMap
begin

text \<open>
  Page faults: \<open>vm_handle_fault\<close> of \<^verbatim>\<open>kernel/vm/fault.c\<close> and \<open>vm_map\<close> of \<^verbatim>\<open>kernel/vm/map.c\<close>, which
  can call it for every page of a new mapping. One handler runs at a time; where it would wait for a
  lock that it holds itself, or that another thread holds, the result is \<open>Diverges\<close>.
\<close>

unbundle bit_operations_syntax

section \<open>Locks as one thread sees them\<close>

definition acquire_shared :: "vm_map \<Rightarrow> vm_map res" where
  "acquire_shared m =
     (case map_lock m of
        Unlocked \<Rightarrow> Inr (m\<lparr>map_lock := Shared 1\<rparr>)
      | Shared n \<Rightarrow> Inr (m\<lparr>map_lock := Shared (n + 1)\<rparr>)
      | Exclusive \<Rightarrow> Inl Diverges)"

definition release_shared :: "vm_map \<Rightarrow> vm_map res" where
  "release_shared m =
     (case map_lock m of
        Shared n \<Rightarrow> ensure (n > 0) AssertFail (Inr (m\<lparr>map_lock := if n = 1 then Unlocked else Shared (n - 1)\<rparr>))
      | _ \<Rightarrow> Inl AssertFail)"

text \<open>With other readers the upgrade gives its own share back and waits for them.\<close>

definition upgrade_to_exclusive :: "vm_map \<Rightarrow> vm_map res" where
  "upgrade_to_exclusive m =
     (if map_lock m = Shared 1 then Inr (m\<lparr>map_lock := Exclusive\<rparr>) else Inl Diverges)"

definition release_exclusive :: "vm_map \<Rightarrow> vm_map res" where
  "release_exclusive m =
     ensure (map_lock m = Exclusive) AssertFail (Inr (m\<lparr>map_lock := Unlocked\<rparr>))"

definition unlock_anon :: "nat \<Rightarrow> vm \<Rightarrow> vm res" where
  "unlock_anon a s =
     bindR (anon_at a s) (\<lambda>an. ensure (an_locked an) AssertFail (Inr (put_anon a (an\<lparr>an_locked := False\<rparr>) s)))"

section \<open>Finding the page\<close>

definition VM_FAULT_READ :: u64 where "VM_FAULT_READ = 2"
definition VM_FAULT_WRITE :: u64 where "VM_FAULT_WRITE = 4"
definition VM_FAULT_PREFILL :: u64 where "VM_FAULT_PREFILL = 8"

text \<open>\<open>EXPECT (vm_lookuppage (obj, offset, 0, &page))\<close>.\<close>

definition expect_page :: "nat \<Rightarrow> u64 \<Rightarrow> vm \<Rightarrow> (nat option \<times> vm) res" where
  "expect_page oid offset s =
     bindR (object_at (vm_objs s) oid) (\<lambda>obj.
     bindR (vm_lookuppage oid obj offset 0 None (vm_phys s)) (\<lambda>(rv, page, obj', ph).
       if IS_ERR rv then Inl KPanic
       else Inr (page, s\<lparr>vm_objs := (vm_objs s)(oid \<mapsto> obj'), vm_phys := ph\<rparr>)))"

definition map_page :: "nat \<Rightarrow> u64 \<Rightarrow> u64 \<Rightarrow> nat option \<Rightarrow> u32 \<Rightarrow> vm_cache \<Rightarrow> vm \<Rightarrow> vm res" where
  "map_page lv root address page prot cache s =
     (case page of
        None \<Rightarrow> Inl NullDeref
      | Some pg \<Rightarrow>
          bindR (page_at (pm_pages (vm_pmm s)) pg) (\<lambda>p.
            pmap_map lv root address (of_nat (page_to_addr p)) 0 prot cache s))"

definition slot_value :: "nat \<Rightarrow> (nat \<times> nat \<times> nat) option \<Rightarrow> vm \<Rightarrow> nat option res" where
  "slot_value amap panon s =
     (case panon of
        None \<Rightarrow> Inr None
      | Some sl \<Rightarrow> bindR (amap_at amap s) (\<lambda>am. Inr (slot_get am sl)))"

text \<open>The anon is shared: a read maps it without write access, a write replaces it by a copy. Returns
  the anon to map and the rights.\<close>

definition unshare :: "nat \<Rightarrow> (nat \<times> nat \<times> nat) option \<Rightarrow> u64 \<Rightarrow> u32 \<Rightarrow> nat \<Rightarrow> vm \<Rightarrow> (nat \<times> u32 \<times> vm) res" where
  "unshare amap panon fault_flags prot anon s =
     (if fault_flags AND VM_FAULT_READ \<noteq> 0 then Inr (anon, prot AND NOT VM_WRITE, s)
      else if fault_flags AND VM_FAULT_WRITE \<noteq> 0 then
        bindR (vm_anon_copy anon s) (\<lambda>(copied, s1).
        case panon of
          None \<Rightarrow> Inl NullDeref
        | Some sl \<Rightarrow>
            bindR (amap_at amap s1) (\<lambda>am.
            bindR (vm_anon_deref anon (put_amap amap (slot_put am sl (Some copied)) s1)) (\<lambda>s2.
            bindR (unlock_anon anon s2) (\<lambda>s3.
            bindR (lock_anon copied s3) (\<lambda>s4.
              Inr (copied, prot, s4))))))
      else Inr (anon, prot, s))"

text \<open>From the anon (locked) on: unshare it when it has other references, map its page, unlock it.\<close>

definition map_anon :: "nat \<Rightarrow> u64 \<Rightarrow> u64 \<Rightarrow> map_entry \<Rightarrow> nat \<Rightarrow> (nat \<times> nat \<times> nat) option \<Rightarrow> u64 \<Rightarrow> nat \<Rightarrow> vm \<Rightarrow> vm res" where
  "map_anon lv root address ent amap panon fault_flags anon s =
     bindR (anon_at anon s) (\<lambda>an.
     bindR (if an_refcnt an > 1 then unshare amap panon fault_flags (me_protection ent) anon s
            else Inr (anon, me_protection ent, s)) (\<lambda>(anon', prot, s1).
     bindR (anon_at anon' s1) (\<lambda>an'.
     bindR (map_page lv root address (an_page an') prot (me_cache ent) s1) (unlock_anon anon'))))"

definition cow_fault :: "nat \<Rightarrow> u64 \<Rightarrow> u64 \<Rightarrow> map_entry \<Rightarrow> nat \<Rightarrow> u64 \<Rightarrow> u64 \<Rightarrow> vm \<Rightarrow> vm res" where
  "cow_fault lv root address ent oid backing_offset fault_flags s =
     (case me_amap ent of
        None \<Rightarrow> Inl AssertFail
      | Some amap \<Rightarrow>
          bindR (vm_amap_lookup amap backing_offset VM_AMAP_LOCKED s) (\<lambda>(panon, s1).
          bindR (slot_value amap panon s1) (\<lambda>v.
          case v of
            Some anon \<Rightarrow>
              bindR (anon_at anon s1) (\<lambda>an.
                ensure (an_page an \<noteq> None) AssertFail (
                  map_anon lv root address ent amap panon fault_flags anon s1))
          | None \<Rightarrow>
              bindR (expect_page oid backing_offset s1) (\<lambda>(backing_page, s2).
              if fault_flags AND VM_FAULT_WRITE \<noteq> 0 then
                bindR (vm_amap_fill_locked amap backing_offset backing_page VM_AMAP_LOCKED s2) (\<lambda>(anon, s3).
                bindR (lock_anon anon s3) (\<lambda>s4.
                bindR (anon_at anon s4) (\<lambda>an.
                  ensure (an_page an \<noteq> None) AssertFail (
                    map_anon lv root address ent amap panon fault_flags anon s4))))
              else map_page lv root address backing_page (me_protection ent AND NOT VM_WRITE) (me_cache ent) s2))))"

section \<open>The handler\<close>

text \<open>Faults taken by the processor are counted, prefills are not.\<close>

definition count_fault :: "u64 \<Rightarrow> vm \<Rightarrow> vm" where
  "count_fault fault_flags s =
     (if fault_flags AND VM_FAULT_PREFILL = 0 then s\<lparr>vm_pagefaults := vm_pagefaults s + 1\<rparr> else s)"

definition vm_handle_fault :: "nat \<Rightarrow> vm_map \<Rightarrow> u64 \<Rightarrow> u64 \<Rightarrow> vm \<Rightarrow> (status \<times> vm_map \<times> vm) res" where
  "vm_handle_fault lv m address fault_flags s =
     (let s = count_fault fault_flags s; address = align_down_page address;
          root = top_level (map_pmap m) in
      bindR (acquire_shared m) (\<lambda>m1.
      case vm_map_lookup_entry_locked m1 address of
        None \<Rightarrow>
          bindR (release_shared m1) (\<lambda>m2.
            Inr (if address < of_nat PAGE_SIZE then YAK_NULL_DEREF else YAK_NOENT, m2, s))
      | Some ent \<Rightarrow>
          if me_type ent = VM_MAP_ENT_RESERVED then
            bindR (release_shared m1) (\<lambda>m2.
              Inr (if address < of_nat PAGE_SIZE then YAK_NULL_DEREF else YAK_NOENT, m2, s))
          else if me_protection ent AND VM_WRITE = 0 \<and> fault_flags AND VM_FAULT_WRITE \<noteq> 0
          then Inr (YAK_PERM_DENIED, m1, s)
          else
            let backing_offset = (address - me_base ent) + me_offset ent in
            if me_type ent = VM_MAP_ENT_MMIO then
              bindR (pmap_map lv root address (me_mmio_addr ent + backing_offset) 0 (me_protection ent)
                       (me_cache ent) s) (\<lambda>s1.
              bindR (release_shared m1) (\<lambda>m2. Inr (YAK_SUCCESS, m2, s1)))
            else
              bindR (upgrade_to_exclusive m1) (\<lambda>m2.
              case me_object ent of
                None \<Rightarrow> Inl AssertFail
              | Some oid \<Rightarrow>
                  bindR (if me_is_cow ent
                         then cow_fault lv root address ent oid backing_offset fault_flags s
                         else bindR (expect_page oid backing_offset s) (\<lambda>(page, s1).
                                map_page lv root address page (me_protection ent) (me_cache ent) s1)) (\<lambda>s2.
                  bindR (release_exclusive m2) (\<lambda>m3. Inr (YAK_SUCCESS, m3, s2))))))"

section \<open>Making a mapping\<close>

fun prefill :: "nat \<Rightarrow> vm_map \<Rightarrow> u64 \<Rightarrow> nat \<Rightarrow> vm \<Rightarrow> (vm_map \<times> vm) res" where
  "prefill lv m addr 0 s = Inr (m, s)"
| "prefill lv m addr (Suc n) s =
     bindR (vm_handle_fault lv m addr VM_FAULT_PREFILL s) (\<lambda>(rv, m1, s1).
       if IS_ERR rv then Inl KPanic else prefill lv m1 (addr + 0x1000) n s1)"

definition vm_map :: "nat \<Rightarrow> vm_map \<Rightarrow> nat option \<Rightarrow> u64 \<Rightarrow> u64 \<Rightarrow> u32 \<Rightarrow> vm_inheritance \<Rightarrow> vm_cache \<Rightarrow> u64 \<Rightarrow>
    u32 \<Rightarrow> vm \<Rightarrow> ((status \<times> u64 option) \<times> vm_map \<times> vm) res" where
  "vm_map lv m obj len offset prot inheritance cache hint flags s =
     with_exclusive False m (\<lambda>m.
       bindR (alloc_map_range_locked lv m hint len prot inheritance cache offset VM_MAP_ENT_OBJ flags s)
         (\<lambda>(rv, ent, m1, s1). case ent of
            None \<Rightarrow> Inr ((rv, None), m1, s1)
          | Some e \<Rightarrow>
              bindR (case obj of
                       None \<Rightarrow> aobj_create s1
                     | Some oid \<Rightarrow> bindR (obj_ref oid s1) (\<lambda>s2. Inr (oid, s2))) (\<lambda>(oid, s2).
              bindR (if inheritance = VM_INHERIT_COPY
                     then bindR (vm_amap_create oid s2) (\<lambda>(a, s3). Inr (Some a, s3))
                     else Inr (None, s2)) (\<lambda>(amap, s3).
              let m2 = m1\<lparr>map_tree := update_entry (me_base e)
                       (\<lambda>x. x\<lparr>me_object := Some oid, me_is_cow := (inheritance = VM_INHERIT_COPY),
                              me_amap := amap\<rparr>) (map_tree m1)\<rparr> in
              bindR (if flags AND VM_MAP_PREFILL \<noteq> 0
                     then prefill lv m2 (me_base e) (page_count len PAGE_SIZE) s3
                     else Inr (m2, s3)) (\<lambda>(m3, s4).
                Inr ((YAK_SUCCESS, Some (me_base e)), m3, s4))))))"

end
