(* ===== verification/MapFacts.thy ===== *)
theory MapFacts
  imports VmMap
begin

text \<open>
  What the operations of \<^verbatim>\<open>kernel/vm/map.c\<close> do to an address space: the entries stay in order and
  apart, splitting an entry changes no translation, and a range that is allocated was free.
\<close>

section \<open>What the searches find\<close>

text \<open>The entries of a map in order of address, not empty and not overlapping.\<close>

definition entry_ok :: "map_entry \<Rightarrow> bool" where
  "entry_ok e \<longleftrightarrow> me_base e < me_end e \<and> (me_is_cow e \<longleftrightarrow> me_inheritance e = VM_INHERIT_COPY)"

definition map_inv :: "map_entry rbtree \<Rightarrow> bool" where
  "map_inv t \<longleftrightarrow> mtree.tree_ok t \<and> (\<forall>e \<in> set (inorder t). entry_ok e) \<and>
     sorted_wrt (\<lambda>x y. me_end x \<le> me_base y) (inorder t)"

definition contains :: "u64 \<Rightarrow> map_entry \<Rightarrow> bool" where
  "contains a e \<longleftrightarrow> me_base e \<le> a \<and> a < me_end e"

lemma sorted_middle:
  assumes "sorted_wrt P (l @ x # r)"
  shows "sorted_wrt P l" "sorted_wrt P r" "\<forall>y \<in> set l. P y x" "\<forall>y \<in> set r. P x y"
    "\<forall>y \<in> set l. \<forall>z \<in> set r. P y z"
  using assms by (auto simp: sorted_wrt_append)

lemma lower_bound_eq:
  "mtree.asc (inorder t) \<Longrightarrow> lower_bound a t res =
     (case hd_opt (filter (\<lambda>x. a \<le> me_base x) (inorder t)) of None \<Rightarrow> res | Some x \<Rightarrow> Some x)"
proof (induction t arbitrary: res)
  case (Node c l x r)
  note s = sorted_middle [OF Node.prems [unfolded inorder.simps]]
  show ?case
  proof (cases "a > me_base x")
    case True
    then have "filter (\<lambda>x. a \<le> me_base x) (inorder l) = []" using s(3) by (force simp: filter_empty_conv)
    moreover have "\<not> a \<le> me_base x" using True by simp
    ultimately show ?thesis using True Node.IH(2) [OF s(2)] by simp
  next
    case False
    then show ?thesis using Node.IH(1) [OF s(1)] by (auto split: option.splits)
  qed
qed simp

lemma map_lower_bound_eq:
  "mtree.tree_ok t \<Longrightarrow> map_lower_bound t a = hd_opt (filter (\<lambda>x. a \<le> me_base x) (inorder t))"
  by (auto simp: map_lower_bound_def lower_bound_eq mtree.tree_ok_def split: option.splits)

lemma lookup_eq:
  assumes "sorted_wrt (\<lambda>x y. me_end x \<le> me_base y) (inorder t)" "\<forall>e \<in> set (inorder t). me_base e < me_end e"
  shows "lookup_from a t = List.find (contains a) (inorder t)"
  using assms
proof (induction t)
  case (Node c l x r)
  note s = sorted_middle [OF Node.prems(1) [unfolded inorder.simps]]
  have find_app: "List.find P (xs @ ys) = (case List.find P xs of None \<Rightarrow> List.find P ys | Some y \<Rightarrow> Some y)"
    for P :: "map_entry \<Rightarrow> bool" and xs ys
    by (induction xs) auto
  have ne: "\<forall>e \<in> set (inorder l). me_base e < me_end e" "\<forall>e \<in> set (inorder r). me_base e < me_end e"
    "me_base x < me_end x"
    using Node.prems(2) by auto
  have l: "List.find (contains a) (inorder l) = None" if "me_base x \<le> a"
    using that s(3) by (force simp: find_None_iff contains_def)
  have r: "List.find (contains a) (inorder r) = None" if "a < me_end x"
    using that s(4) by (force simp: find_None_iff contains_def)
  have r': "List.find (contains a) (inorder r) = None" if "a < me_base x"
    using r that ne(3) by auto
  consider "a < me_base x" | "me_base x \<le> a" "a < me_end x" | "me_base x \<le> a" "me_end x \<le> a" by force
  then show ?case
  proof cases
    case 1
    moreover from 1 have "\<not> contains a x" by (auto simp: contains_def)
    ultimately show ?thesis using Node.IH(1) [OF s(1) ne(1)] r'
      by (simp add: find_app split: option.split)
  next
    case 2
    then have "\<not> a < me_base x" "\<not> me_end x \<le> a" "contains a x" by (auto simp: contains_def)
    then show ?thesis using 2 l by (simp add: find_app)
  next
    case 3
    then have "\<not> a < me_base x" "\<not> contains a x" by (auto simp: contains_def)
    then show ?thesis using 3 Node.IH(2) [OF s(2) ne(2)] l by (simp add: find_app)
  qed
qed simp

lemma map_inv_parts:
  assumes "map_inv t"
  shows "mtree.tree_ok t" "mtree.asc (inorder t)" "sorted_wrt (\<lambda>x y. me_end x \<le> me_base y) (inorder t)"
    "\<And>e. e \<in> set (inorder t) \<Longrightarrow> me_base e < me_end e" "\<And>e. e \<in> set (inorder t) \<Longrightarrow> entry_ok e"
  using assms by (auto simp: map_inv_def mtree.tree_ok_def entry_ok_def)

lemma sorted_wrt_two:
  assumes "sorted_wrt P xs" "x \<in> set xs" "y \<in> set xs" "x \<noteq> y"
  shows "P x y \<or> P y x"
  using assms by (induction xs) auto

lemma entries_apart:
  assumes "map_inv t" "x \<in> set (inorder t)" "y \<in> set (inorder t)" "x \<noteq> y"
  shows "me_end x \<le> me_base y \<or> me_end y \<le> me_base x"
  using sorted_wrt_two [OF map_inv_parts(3) [OF assms(1)] assms(2-4)] .

lemma contains_unique:
  "map_inv t \<Longrightarrow> x \<in> set (inorder t) \<Longrightarrow> y \<in> set (inorder t) \<Longrightarrow> contains a x \<Longrightarrow> contains a y \<Longrightarrow> x = y"
  using entries_apart [of t x y] by (fastforce simp: contains_def)

text \<open>The entry a lookup finds is the one that contains the address.\<close>

lemma lookup_iff:
  assumes "map_inv t"
  shows "lookup_from a t = Some e \<longleftrightarrow> e \<in> set (inorder t) \<and> contains a e"
proof -
  have "lookup_from a t = List.find (contains a) (inorder t)"
    using assms by (intro lookup_eq) (auto simp: map_inv_def entry_ok_def)
  moreover have "List.find (contains a) (inorder t) = Some e \<longleftrightarrow> e \<in> set (inorder t) \<and> contains a e"
  proof
    assume "List.find (contains a) (inorder t) = Some e"
    then show "e \<in> set (inorder t) \<and> contains a e" by (auto simp: find_Some_iff)
  next
    assume e: "e \<in> set (inorder t) \<and> contains a e"
    then have "List.find (contains a) (inorder t) \<noteq> None" by (auto simp: find_None_iff)
    then obtain e' where e': "List.find (contains a) (inorder t) = Some e'" by blast
    then have "e' \<in> set (inorder t)" "contains a e'" by (auto simp: find_Some_iff)
    with e e' contains_unique [OF assms] show "List.find (contains a) (inorder t) = Some e" by metis
  qed
  ultimately show ?thesis by simp
qed

lemma lookup_None_iff: "map_inv t \<Longrightarrow> lookup_from a t = None \<longleftrightarrow> (\<forall>e \<in> set (inorder t). \<not> contains a e)"
  using lookup_iff [of t a] by (metis not_None_eq option.discI)

lemma next_entry_eq:
  "mtree.tree_ok t \<Longrightarrow> x \<in> set (inorder t) \<Longrightarrow>
   next_entry t (Some x) = Inr (hd_opt (filter (\<lambda>y. me_base x < me_base y) (inorder t)))"
  by (simp add: next_entry_def mtree.next_eq)

lemma prev_entry_eq:
  "mtree.tree_ok t \<Longrightarrow> x \<in> set (inorder t) \<Longrightarrow>
   prev_entry t (Some x) = Inr (hd_opt (rev (filter (\<lambda>y. me_base y < me_base x) (inorder t))))"
  by (simp add: prev_entry_def mtree.prev_eq)

section \<open>Changing the tree\<close>

lemma map_invI:
  assumes "mtree.tree_ok t" "\<And>e. e \<in> set (inorder t) \<Longrightarrow> entry_ok e"
    "\<And>x y. x \<in> set (inorder t) \<Longrightarrow> y \<in> set (inorder t) \<Longrightarrow> me_base x < me_base y \<Longrightarrow> me_end x \<le> me_base y"
  shows "map_inv t"
proof -
  have "sorted_wrt (\<lambda>x y. me_end x \<le> me_base y) (inorder t)"
  proof (rule sorted_wrt_mono_rel [rotated])
    show "mtree.asc (inorder t)" using assms(1) by (simp add: mtree.tree_ok_def)
  qed (use assms(3) in auto)
  with assms show ?thesis by (simp add: map_inv_def)
qed

lemma insert_entry_ok:
  assumes t: "map_inv t" and eok: "entry_ok e"
    and apart: "\<And>x. x \<in> set (inorder t) \<Longrightarrow> me_end x \<le> me_base e \<or> me_end e \<le> me_base x"
  shows "\<exists>t'. insert_entry e t = Inr t' \<and> map_inv t' \<and> set (inorder t') = insert e (set (inorder t))"
proof -
  note p = map_inv_parts [OF t]
  have e: "me_base e < me_end e" using eok by (simp add: entry_ok_def)
  have ne: "me_base x \<noteq> me_base e" if "x \<in> set (inorder t)" for x
    using apart [OF that] p(4) [OF that] e by auto
  then obtain t' where t': "rb_insert vm_map_entry_cmp t e = Inr (None, t')" "mtree.tree_ok t'"
      "inorder t' = filter (\<lambda>x. me_base x < me_base e) (inorder t) @ e # filter (\<lambda>x. me_base e < me_base x) (inorder t)"
    using mtree.insert_new [OF p(1), of e] by fastforce
  have set: "set (inorder t') = insert e (set (inorder t))"
    using ne unfolding t'(3) by (auto simp: neq_iff)
  have "me_end x \<le> me_base y" if xy: "x \<in> set (inorder t')" "y \<in> set (inorder t')" "me_base x < me_base y" for x y
  proof -
    consider "x = e" "y \<in> set (inorder t)" | "y = e" "x \<in> set (inorder t)"
      | "x \<in> set (inorder t)" "y \<in> set (inorder t)" using xy set by auto
    then show ?thesis
    proof cases
      case 1 then show ?thesis using apart [of y] xy(3) p(4) [of y] by auto
    next
      case 2 then show ?thesis using apart [of x] xy(3) e by auto
    next
      case 3 then show ?thesis using entries_apart [OF t, of x y] xy(3) p(4) [of y] by fastforce
    qed
  qed
  then have "map_inv t'" using t'(2) p(5) eok set by (intro map_invI) auto
  with t'(1) set show ?thesis by (auto simp: insert_entry_def)
qed

lemma same_base:
  "map_inv t \<Longrightarrow> x \<in> set (inorder t) \<Longrightarrow> y \<in> set (inorder t) \<Longrightarrow> me_base x = me_base y \<Longrightarrow> x = y"
  using contains_unique [of t x y "me_base x"] map_inv_parts(4) [of t x] map_inv_parts(4) [of t y]
  by (simp add: contains_def)

lemma remove_entry_ok:
  assumes t: "map_inv t" and x: "x \<in> set (inorder t)"
  shows "\<exists>t'. rb_remove vm_map_entry_cmp t x = Inr t' \<and> map_inv t' \<and> set (inorder t') = set (inorder t) - {x}"
proof -
  note p = map_inv_parts [OF t]
  obtain t' where t': "rb_remove vm_map_entry_cmp t x = Inr t'" "mtree.tree_ok t'"
      "inorder t' = filter (\<lambda>y. me_base y \<noteq> me_base x) (inorder t)"
    using mtree.remove_present [OF p(1) x refl] by blast
  have "set (inorder t') = set (inorder t) - {x}"
    using same_base [OF t _ x] x unfolding t'(3) by auto
  moreover have "map_inv t'"
    using t'(2) p(3,5) unfolding map_inv_def t'(3) by (auto intro: sorted_wrt_filter)
  ultimately show ?thesis using t'(1) by blast
qed

lemma update_entry_inorder:
  "inorder (update_entry b f t) = map (\<lambda>x. if me_base x = b then f x else x) (inorder t)"
  by (induction t) auto

lemma update_entry_shape: "bheight (update_entry b f t) = bheight t" "invc (update_entry b f t) = invc t"
  "invh (update_entry b f t) = invh t" "null_or_black (update_entry b f t) = null_or_black t"
proof -
  have nb: "null_or_black (update_entry b f t) = null_or_black t" for t by (cases t) auto
  then show "null_or_black (update_entry b f t) = null_or_black t" .
  have bh: "bheight (update_entry b f t) = bheight t" for t by (induction t) auto
  then show "bheight (update_entry b f t) = bheight t" .
  show "invc (update_entry b f t) = invc t" by (induction t) (auto simp: nb)
  show "invh (update_entry b f t) = invh t" by (induction t) (auto simp: bh)
qed

lemma update_entry_ok:
  assumes t: "map_inv t" and f: "\<And>x. me_base (f x) = me_base x" "\<And>x. me_end (f x) = me_end x"
    "\<And>x. me_is_cow (f x) = me_is_cow x" "\<And>x. me_inheritance (f x) = me_inheritance x"
  shows "map_inv (update_entry b f t)"
    "set (inorder (update_entry b f t)) = (\<lambda>x. if me_base x = b then f x else x) ` set (inorder t)"
proof -
  let ?g = "\<lambda>x. if me_base x = b then f x else x"
  have g: "me_base (?g x) = me_base x" "me_end (?g x) = me_end x" "entry_ok (?g x) = entry_ok x" for x
    using f by (auto simp: entry_ok_def)
  show set: "set (inorder (update_entry b f t)) = ?g ` set (inorder t)" by (simp add: update_entry_inorder)
  have "sorted_wrt (\<lambda>x y. me_base x < me_base y) (inorder (update_entry b f t))"
    "sorted_wrt (\<lambda>x y. me_end x \<le> me_base y) (inorder (update_entry b f t))"
    using map_inv_parts [OF t] by (simp_all only: update_entry_inorder sorted_wrt_map g)
  moreover have "entry_ok e" if "e \<in> set (inorder (update_entry b f t))" for e
    using that map_inv_parts(5) [OF t] g unfolding set by (metis (no_types, lifting) imageE)
  ultimately show "map_inv (update_entry b f t)"
    using map_inv_parts(1) [OF t] by (auto simp: map_inv_def mtree.tree_ok_def rb_ok_def update_entry_shape)
qed

section \<open>Splitting an entry\<close>

text \<open>Taking the references of one more piece; the counts are assumed not to overflow.\<close>

lemma piece_simps [simp]:
  "me_base (piece e off b stop) = b" "me_end (piece e off b stop) = stop" "me_offset (piece e off b stop) = off"
  "me_type (piece e off b stop) = me_type e" "me_protection (piece e off b stop) = me_protection e"
  "me_max_protection (piece e off b stop) = me_max_protection e"
  "me_inheritance (piece e off b stop) = me_inheritance e" "me_cache (piece e off b stop) = me_cache e"
  "me_is_cow (piece e off b stop) = (me_inheritance e = VM_INHERIT_COPY)"
  "me_type e = VM_MAP_ENT_OBJ \<Longrightarrow> me_object (piece e off b stop) = me_object e"
  "me_type e = VM_MAP_ENT_OBJ \<Longrightarrow> me_amap (piece e off b stop) = me_amap e"
  by (simp_all add: piece_def init_map_entry_def zeroed_entry_def Let_def)

text \<open>What an address translates to through an entry.\<close>

record translation =
  tr_type :: entry_type
  tr_object :: "nat option"
  tr_amap :: "nat option"
  tr_mmio :: u64
  tr_offset :: u64
  tr_inheritance :: vm_inheritance
  tr_cache :: vm_cache
  tr_protection :: u32
  tr_max_protection :: u32

definition translate :: "map_entry \<Rightarrow> u64 \<Rightarrow> translation" where
  "translate e a =
     \<lparr>tr_type = me_type e,
      tr_object = (if me_type e = VM_MAP_ENT_OBJ then me_object e else None),
      tr_amap = (if me_type e = VM_MAP_ENT_OBJ then me_amap e else None),
      tr_mmio = (if me_type e = VM_MAP_ENT_MMIO then me_mmio_addr e else 0),
      tr_offset = me_offset e + (a - me_base e), tr_inheritance = me_inheritance e,
      tr_cache = me_cache e, tr_protection = me_protection e, tr_max_protection = me_max_protection e\<rparr>"

definition view :: "map_entry rbtree \<Rightarrow> u64 \<Rightarrow> translation option" where
  "view t a = map_option (\<lambda>e. translate e a) (lookup_from a t)"

text \<open>\<open>backed s e\<close>: the objects and amaps of an entry exist.\<close>

definition backed :: "vm \<Rightarrow> map_entry \<Rightarrow> bool" where
  "backed s e \<longleftrightarrow> (me_type e = VM_MAP_ENT_OBJ \<longrightarrow>
     (\<forall>obj. me_object e = Some obj \<longrightarrow> vm_objs s obj \<noteq> None) \<and>
     (\<forall>m. me_amap e = Some m \<longrightarrow> vm_amaps s m \<noteq> None))"

text \<open>\<open>refs_only s s'\<close>: only reference counts and the heap's counters differ.\<close>

definition refs_only :: "vm \<Rightarrow> vm \<Rightarrow> bool" where
  "refs_only s s' \<longleftrightarrow> vm_phys s' = vm_phys s \<and> vm_tab s' = vm_tab s \<and> vm_anons s' = vm_anons s \<and>
     vm_kz s' = vm_kz s \<and>
     (\<forall>i. map_option (vo_refcnt_update (\<lambda>_. 0)) (vm_objs s' i) = map_option (vo_refcnt_update (\<lambda>_. 0)) (vm_objs s i)) \<and>
     (\<forall>i. map_option (am_refcnt_update (\<lambda>_. 0)) (vm_amaps s' i) = map_option (am_refcnt_update (\<lambda>_. 0)) (vm_amaps s i))"

lemma refs_only_refl [simp]: "refs_only s s"
  by (simp add: refs_only_def)

lemma refs_only_trans: "refs_only s s1 \<Longrightarrow> refs_only s1 s2 \<Longrightarrow> refs_only s s2"
  by (simp add: refs_only_def)

lemma refs_only_backed: "refs_only s s' \<Longrightarrow> backed s' e \<longleftrightarrow> backed s e"
  unfolding refs_only_def backed_def by (metis option.map_disc_iff)

lemma ref_backing_ok:
  assumes "backed s e"
  shows "\<exists>s'. ref_backing e s = Inr s' \<and> refs_only s s'"
proof (cases "me_type e = VM_MAP_ENT_OBJ")
  case obj: True
  have o: "\<exists>s1. (case me_object e of None \<Rightarrow> Inr s | Some obj \<Rightarrow> obj_ref obj s) = Inr s1 \<and> refs_only s s1"
  proof (cases "me_object e")
    case (Some i)
    then obtain ob where "vm_objs s i = Some ob" using assms obj by (auto simp: backed_def)
    then show ?thesis using Some by (simp add: obj_ref_def vm_object_ref_def object_at_def refs_only_def)
  qed simp
  then obtain s1 where s1: "(case me_object e of None \<Rightarrow> Inr s | Some obj \<Rightarrow> obj_ref obj s) = Inr s1" "refs_only s s1"
    by blast
  have "\<exists>s2. (case me_amap e of None \<Rightarrow> Inr s1 | Some amap \<Rightarrow> vm_amap_ref amap s1) = Inr s2 \<and> refs_only s1 s2"
  proof (cases "me_amap e")
    case (Some m)
    then obtain am where "vm_amaps s1 m = Some am"
      using assms obj refs_only_backed [OF s1(2), of e] by (auto simp: backed_def)
    then show ?thesis using Some by (simp add: vm_amap_ref_def amap_at_def refs_only_def)
  qed simp
  with s1 obj show ?thesis by (auto simp: ref_backing_def dest: refs_only_trans)
qed (simp add: ref_backing_def)

lemma kalloc_refs_only: "vm_kz s = [] \<Longrightarrow> refs_only s (s\<lparr>vm_next := n\<rparr>)"
  by (simp add: refs_only_def)

lemma backed_next [simp]: "backed (s\<lparr>vm_next := n\<rparr>) e = backed s e"
  by (simp add: backed_def)

lemma piece_entry_ok [simp]: "entry_ok (piece e off b stop) \<longleftrightarrow> b < stop"
  by (simp add: entry_ok_def)

lemma carved_simps [simp]:
  "me_base (carved e b stop) = b" "me_end (carved e b stop) = stop"
  "entry_ok e \<Longrightarrow> entry_ok (carved e b stop) \<longleftrightarrow> b < stop"
  "me_max_protection (carved e b stop) = me_max_protection e" "me_cache (carved e b stop) = me_cache e"
  by (simp_all add: carved_def entry_ok_def)

definition carve_pieces :: "map_entry \<Rightarrow> u64 \<Rightarrow> u64 \<Rightarrow> map_entry set" where
  "carve_pieces e b stop =
     (if b > me_base e then {piece e (me_offset e) (me_base e) b} else {}) \<union>
     {carved e b stop, piece e (me_offset e + (stop - me_base e)) stop (me_end e)}"

lemma carve_entry_ok:
  assumes t: "map_inv t" and x: "x \<in> set (inorder t)" and kz: "vm_kz s = []" and ref: "backed s x"
    and cut: "me_base x \<le> b" "b < stop" "stop < me_end x"
  shows "\<exists>t' s'. carve_entry t x b stop s = Inr (YAK_SUCCESS, t', s') \<and> map_inv t' \<and> refs_only s s' \<and>
     set (inorder t') = set (inorder t) - {x} \<union> carve_pieces x b stop"
proof -
  note xs = map_inv_parts(4,5) [OF t x]
  obtain t1 where t1: "rb_remove vm_map_entry_cmp t x = Inr t1" "map_inv t1"
      "set (inorder t1) = set (inorder t) - {x}"
    using remove_entry_ok [OF t x] by blast
  have out: "me_end y \<le> me_base x \<or> me_end x \<le> me_base y" if "y \<in> set (inorder t1)" for y
    using entries_apart [OF t _ x, of y] that t1(3) by auto
  define L where "L = piece x (me_offset x) (me_base x) b"
  define e1 where "e1 = (if b > me_base x
      then x\<lparr>me_base := b, me_offset := me_offset x + (b - me_base x)\<rparr> else x)"
  define R where "R = piece e1 (me_offset e1 + (stop - b)) stop (me_end x)"
  have R: "R = piece x (me_offset x + (stop - me_base x)) stop (me_end x)"
    using cut(1) by (auto simp: R_def e1_def piece_def init_map_entry_def Let_def algebra_simps)
  have e2: "e1\<lparr>me_end := stop\<rparr> = carved x b stop"
    using cut(1) by (cases x) (auto simp: e1_def carved_def)
  have bL: "backed s' L" "backed s' R" if "refs_only s s'" for s'
    using ref that refs_only_backed [OF that] unfolding L_def R by (auto simp: backed_def)
  have left: "\<exists>t3 s3. (if me_base x < b then carve_left t1 x b s else Inr (Some (x, t1), s)) =
        Inr (Some (e1, t3), s3) \<and> refs_only s s3 \<and> map_inv t3 \<and>
          set (inorder t3) = set (inorder t1) \<union> (if b > me_base x then {L} else {})"
  proof (cases "b > me_base x")
    case True
    define s1 where "s1 = s\<lparr>vm_next := vm_next s + 1\<rparr>"
    have r1: "refs_only s s1" using kz unfolding s1_def by (rule kalloc_refs_only)
    obtain s2 where s2: "ref_backing L s1 = Inr s2" "refs_only s1 s2"
      using ref_backing_ok [OF bL(1) [OF r1]] by blast
    obtain t2 where t2: "insert_entry L t1 = Inr t2" "map_inv t2" "set (inorder t2) = insert L (set (inorder t1))"
      using insert_entry_ok [OF t1(2), of L] out True cut unfolding L_def by fastforce
    moreover have "kalloc s = (Some (vm_next s), s1)" using kz by (simp add: s1_def)
    ultimately show ?thesis using s2(1) True refs_only_trans [OF r1 s2(2)]
      by (simp add: e1_def carve_left_def L_def [symmetric])
  next
    case False
    then show ?thesis using t1(2) by (simp add: e1_def)
  qed
  then obtain t3 s3 where l: "(if me_base x < b then carve_left t1 x b s else Inr (Some (x, t1), s)) =
        Inr (Some (e1, t3), s3)" "refs_only s s3" "map_inv t3"
      "set (inorder t3) = set (inorder t1) \<union> (if b > me_base x then {L} else {})" by blast
  have out3: "me_end y \<le> b \<or> me_end x \<le> me_base y" if "y \<in> set (inorder t3)" for y
  proof (cases "y \<in> set (inorder t1)")
    case True
    then show ?thesis using out [OF True] cut(1) by auto
  next
    case False
    then have "y = L" using that l(4) by (auto split: if_splits)
    then show ?thesis by (simp add: L_def)
  qed
  define s4 where "s4 = s3\<lparr>vm_next := vm_next s3 + 1\<rparr>"
  have kz3: "vm_kz s3 = []" using l(2) kz by (simp add: refs_only_def)
  then have k4: "kalloc s3 = (Some (vm_next s3), s4)" by (simp add: s4_def)
  have r4: "refs_only s s4"
    using refs_only_trans [OF l(2) kalloc_refs_only [OF kz3]] by (simp add: s4_def)
  obtain s5 where s5: "ref_backing R s4 = Inr s5" "refs_only s4 s5"
    using ref_backing_ok [OF bL(2) [OF r4]] by blast
  obtain t4 where t4: "insert_entry R t3 = Inr t4" "map_inv t4" "set (inorder t4) = insert R (set (inorder t3))"
    using insert_entry_ok [OF l(3), of R] out3 cut unfolding R by fastforce
  obtain t6 where t6: "insert_entry (carved x b stop) t4 = Inr t6" "map_inv t6"
      "set (inorder t6) = insert (carved x b stop) (set (inorder t4))"
  proof -
    have "me_end y \<le> b \<or> stop \<le> me_base y" if "y \<in> set (inorder t4)" for y
      using that out3 [of y] cut unfolding t4(3) R by fastforce
    then show ?thesis using that insert_entry_ok [OF t4(2), of "carved x b stop"] xs cut by auto
  qed
  have "me_end e1 = me_end x" by (simp add: e1_def)
  then have "carve_right t3 e1 b stop s3 = Inr (Some (carved x b stop, t4), s5)"
    using k4 s5(1) t4(1) by (simp add: carve_right_def R_def [symmetric] e2)
  moreover have "b < me_end x" "me_base x \<le> stop" using cut by auto
  ultimately have "carve_entry t x b stop s = Inr (YAK_SUCCESS, t6, s5)"
    using cut t1(1) l(1) t6(1) by (simp add: carve_entry_def)
  moreover have "set (inorder t6) = set (inorder t) - {x} \<union> carve_pieces x b stop"
    unfolding t6(3) t4(3) l(4) t1(3) carve_pieces_def L_def R by auto
  ultimately show ?thesis using t6(2) refs_only_trans [OF r4 s5(2)] by blast
qed

text \<open>The pieces translate every address as the entry did.\<close>

lemma translate_piece:
  assumes "me_type x \<noteq> VM_MAP_ENT_MMIO" "off = me_offset x + (b' - me_base x)"
  shows "translate (piece x off b' stop) a = translate x a"
  using assms by (auto simp: translate_def)

lemma translate_carved: "translate (carved x b stop) a = translate x a"
  by (simp add: translate_def carved_def)

lemma carve_view:
  assumes t: "map_inv t" and x: "x \<in> set (inorder t)" and mmio: "me_type x \<noteq> VM_MAP_ENT_MMIO"
    and cut: "me_base x \<le> b" "b < stop" "stop < me_end x"
    and t': "map_inv t'" "set (inorder t') = set (inorder t) - {x} \<union> carve_pieces x b stop"
  shows "view t' a = view t a"
proof (cases "contains a x")
  case True
  have tr: "translate e a = translate x a" if "e \<in> carve_pieces x b stop" for e
    using that mmio by (auto simp: carve_pieces_def translate_piece translate_carved split: if_splits)
  have "\<exists>e \<in> carve_pieces x b stop. contains a e"
  proof -
    consider "a < b" | "b \<le> a" "a < stop" | "stop \<le> a" by force
    then show ?thesis
      using True cut by cases (auto simp: carve_pieces_def contains_def)
  qed
  then obtain e where e: "e \<in> carve_pieces x b stop" "contains a e" by blast
  then have "lookup_from a t' = Some e" using lookup_iff [OF t'(1)] t'(2) by blast
  moreover have "lookup_from a t = Some x" using lookup_iff [OF t] True x by blast
  ultimately show ?thesis using tr [OF e(1)] by (simp add: view_def)
next
  case False
  have "\<not> contains a e" if "e \<in> carve_pieces x b stop" for e
    using that False cut by (auto simp: carve_pieces_def contains_def split: if_splits)
  then have "lookup_from a t' = Some e \<longleftrightarrow> lookup_from a t = Some e" for e
    using lookup_iff [OF t'(1)] lookup_iff [OF t] t'(2) False by auto
  then have "lookup_from a t' = lookup_from a t" by (metis not_None_eq)
  then show ?thesis by (simp add: view_def)
qed

section \<open>Allocating a range\<close>

text \<open>The gap before the entry at position \<open>i\<close>, as numbers.\<close>

definition gap_lo :: "map_entry list \<Rightarrow> u64 \<Rightarrow> nat \<Rightarrow> nat" where
  "gap_lo es mn i = (if i = 0 then unat mn else unat (me_end (es ! (i - 1))))"

definition gap_hi :: "map_entry list \<Rightarrow> u64 \<Rightarrow> nat \<Rightarrow> nat" where
  "gap_hi es mx i = (if i < length es then unat (me_base (es ! i)) else unat mx)"

definition free_range :: "map_entry list \<Rightarrow> u64 \<Rightarrow> u64 \<Rightarrow> u64 \<Rightarrow> u64 \<Rightarrow> bool" where
  "free_range es mn mx len b \<longleftrightarrow> unat mn \<le> unat b \<and> unat b + unat len \<le> unat mx \<and>
     (\<forall>e \<in> set es. unat (me_end e) \<le> unat b \<or> unat b + unat len \<le> unat (me_base e))"

text \<open>The map's entries lie in the arena, and sums of its addresses and lengths do not wrap.\<close>

definition within :: "map_entry rbtree \<Rightarrow> u64 \<Rightarrow> u64 \<Rightarrow> bool" where
  "within t mn mx \<longleftrightarrow> map_inv t \<and> mn \<le> mx \<and> unat mx + unat (mx - mn) < 2 ^ 64 \<and>
     (\<forall>e \<in> set (inorder t). mn \<le> me_base e \<and> me_end e \<le> mx)"

lemma within_no_wrap: "within t mn mx \<Longrightarrow> unat mx + (unat mx - unat mn) < 2 ^ 64"
  by (auto simp: within_def unat_sub)

lemma entries_nth:
  assumes "map_inv t" "i < j" "j < length (inorder t)"
  shows "unat (me_end (inorder t ! i)) \<le> unat (me_base (inorder t ! j))"
    "unat (me_base (inorder t ! i)) < unat (me_end (inorder t ! i))"
    "unat (me_base (inorder t ! i)) < unat (me_base (inorder t ! j))"
proof -
  have "me_end (inorder t ! i) \<le> me_base (inorder t ! j)"
    using map_inv_parts(3) [OF assms(1)] assms(2,3) by (simp add: sorted_wrt_iff_nth_less)
  moreover have "me_base (inorder t ! i) < me_end (inorder t ! i)"
    using map_inv_parts(4) [OF assms(1)] assms(2,3) by simp
  ultimately show "unat (me_end (inorder t ! i)) \<le> unat (me_base (inorder t ! j))"
    "unat (me_base (inorder t ! i)) < unat (me_end (inorder t ! i))"
    "unat (me_base (inorder t ! i)) < unat (me_base (inorder t ! j))"
    by (auto simp: word_le_nat_alt word_less_nat_alt)
qed

lemma nth_bounds:
  assumes "within t mn mx" "i < length (inorder t)"
  shows "unat mn \<le> unat (me_base (inorder t ! i))" "unat (me_end (inorder t ! i)) \<le> unat mx"
    "unat (me_base (inorder t ! i)) < unat (me_end (inorder t ! i))"
  using assms map_inv_parts(4) [of t "inorder t ! i"]
  by (auto simp: within_def word_le_nat_alt word_less_nat_alt)

lemma sorted_filter_drop:
  assumes "sorted_wrt (\<lambda>x y. f x < f y) xs" "i < length xs"
  shows "filter (\<lambda>y. f (xs ! i) < (f y :: 'k :: linorder)) xs = drop (Suc i) xs"
    "filter (\<lambda>y. f y < f (xs ! i)) xs = take i xs"
proof -
  have split: "xs = take i xs @ xs ! i # drop (Suc i) xs" using assms(2) by (simp add: id_take_nth_drop)
  have s: "\<forall>y \<in> set (take i xs). f y < f (xs ! i)" "\<forall>y \<in> set (drop (Suc i) xs). f (xs ! i) < f y"
    using assms(1) by (subst (asm) split, auto simp: sorted_wrt_append)+
  have "filter (\<lambda>y. f (xs ! i) < f y) (take i xs @ xs ! i # drop (Suc i) xs) = drop (Suc i) xs"
    using s by (auto simp: filter_empty_conv intro!: filter_True)
  then show "filter (\<lambda>y. f (xs ! i) < f y) xs = drop (Suc i) xs" using split by simp
  have "filter (\<lambda>y. f y < f (xs ! i)) (take i xs @ xs ! i # drop (Suc i) xs) = take i xs"
    using s by (auto simp: filter_empty_conv intro!: filter_True)
  then show "filter (\<lambda>y. f y < f (xs ! i)) xs = take i xs" using split by simp
qed

definition at :: "'a list \<Rightarrow> nat \<Rightarrow> 'a option" where
  "at xs i = (if i < length xs then Some (xs ! i) else None)"

definition at_prev :: "'a list \<Rightarrow> nat \<Rightarrow> 'a option" where
  "at_prev xs i = (if i = 0 then None else Some (xs ! (i - 1)))"

lemma hd_opt_drop: "hd_opt (drop i xs) = at xs i"
proof (induction xs arbitrary: i)
  case (Cons x xs)
  then show ?case by (cases i) (auto simp: at_def)
qed (simp add: at_def)

lemma hd_opt_take: "i \<le> length xs \<Longrightarrow> hd_opt (rev (take i xs)) = at_prev xs i"
  by (cases i) (auto simp: at_prev_def take_Suc_conv_app_nth)

lemma next_at:
  assumes t: "mtree.tree_ok t" and i: "i < length (inorder t)"
  shows "next_entry t (at (inorder t) i) = Inr (at (inorder t) (Suc i))"
proof -
  have "mtree.asc (inorder t)" using t by (simp add: mtree.tree_ok_def)
  from sorted_filter_drop(1) [OF this i] show ?thesis
    using next_entry_eq [OF t nth_mem [OF i]] i hd_opt_drop [of "Suc i" "inorder t"] by (simp add: at_def)
qed

lemma prev_at:
  assumes t: "mtree.tree_ok t" and i: "i < length (inorder t)"
  shows "prev_entry t (at (inorder t) i) = Inr (at_prev (inorder t) i)"
proof -
  have "mtree.asc (inorder t)" using t by (simp add: mtree.tree_ok_def)
  from sorted_filter_drop(2) [OF this i] show ?thesis
    using prev_entry_eq [OF t nth_mem [OF i]] i hd_opt_take [of i "inorder t"] by (simp add: at_def)
qed

text \<open>A gap of the right size is free, and when every gap is too small nothing is.\<close>

lemma gap_lo_ge: "within t mn mx \<Longrightarrow> i \<le> length (inorder t) \<Longrightarrow> unat mn \<le> gap_lo (inorder t) mn i"
proof (cases "i = 0")
  case False
  assume t: "within t mn mx" and "i \<le> length (inorder t)"
  with False have "i - 1 < length (inorder t)" by simp
  from nth_bounds(1,3) [OF t this] have "unat mn \<le> unat (me_end (inorder t ! (i - 1)))" by linarith
  then show ?thesis using False by (simp add: gap_lo_def)
qed (simp add: gap_lo_def)

lemma gap_free:
  assumes t: "within t mn mx" and i: "i \<le> length (inorder t)"
    and b: "gap_lo (inorder t) mn i \<le> unat b" "unat b + unat len \<le> gap_hi (inorder t) mx i" "unat mn \<le> unat b"
  shows "free_range (inorder t) mn mx len b"
proof -
  let ?es = "inorder t"
  have inv: "map_inv t" using t by (simp add: within_def)
  have hi: "gap_hi ?es mx i \<le> unat mx"
    using nth_bounds [OF t, of i] by (auto simp: gap_hi_def)
  have "unat (me_end e) \<le> unat b \<or> unat b + unat len \<le> unat (me_base e)" if "e \<in> set ?es" for e
  proof -
    from that obtain j where j: "j < length ?es" "e = ?es ! j" by (metis in_set_conv_nth)
    show ?thesis
    proof (cases "j < i")
      case True
      have "unat (me_end (?es ! j)) \<le> unat (me_end (?es ! (i - 1)))"
      proof (cases "j = i - 1")
        case False
        then have "j < i - 1" "i - 1 < length ?es" using True i by auto
        then show ?thesis using entries_nth(1) [OF inv, of j "i - 1"] nth_bounds(3) [OF t, of "i - 1"] by linarith
      qed simp
      moreover have "unat (me_end (?es ! (i - 1))) \<le> unat b" using True b(1) by (simp add: gap_lo_def)
      ultimately show ?thesis using j(2) by simp
    next
      case False
      then have "unat (me_base (?es ! i)) \<le> unat (me_base (?es ! j))"
        using entries_nth(3) [OF inv, of i j] j by (cases "i = j") auto
      then have "unat b + unat len \<le> unat (me_base (?es ! j))"
        using False b(2) j(1) by (simp add: gap_hi_def)
      then show ?thesis using j(2) by simp
    qed
  qed
  then show ?thesis using b hi by (auto simp: free_range_def)
qed

lemma no_gap:
  assumes t: "within t mn mx" and full: "\<And>i. i \<le> length (inorder t) \<Longrightarrow>
      gap_hi (inorder t) mx i < gap_lo (inorder t) mn i + unat len"
    and len: "0 < unat len"
  shows "\<not> free_range (inorder t) mn mx len b"
proof
  let ?es = "inorder t"
  assume b: "free_range ?es mn mx len b"
  define i where "i = (LEAST i. length ?es \<le> i \<or> \<not> unat (me_end (?es ! i)) \<le> unat b)"
  have ex: "length ?es \<le> length ?es \<or> \<not> unat (me_end (?es ! length ?es)) \<le> unat b" by simp
  have i: "length ?es \<le> i \<or> \<not> unat (me_end (?es ! i)) \<le> unat b"
    unfolding i_def by (rule LeastI [of _ "length ?es"]) simp
  have le: "i \<le> length ?es" unfolding i_def by (rule Least_le) simp
  have before: "unat (me_end (?es ! j)) \<le> unat b" if "j < i" for j
    using not_less_Least [of j "\<lambda>i. length ?es \<le> i \<or> \<not> unat (me_end (?es ! i)) \<le> unat b"] that
    by (auto simp: i_def)
  have "gap_lo ?es mn i \<le> unat b" using before [of "i - 1"] b by (auto simp: gap_lo_def free_range_def)
  moreover have "unat b + unat len \<le> gap_hi ?es mx i"
  proof (cases "i < length ?es")
    case True
    then have "\<not> unat (me_end (?es ! i)) \<le> unat b" using i by simp
    then show ?thesis using b True by (auto simp: gap_hi_def free_range_def)
  next
    case False
    then show ?thesis using b by (simp add: gap_hi_def free_range_def)
  qed
  ultimately show False using full [OF le] by linarith
qed


text \<open>The test of the loop at position \<open>i\<close>, in numbers. The subtraction does not wrap because the
  hint is not past the gap.\<close>

lemma gap_found_at:
  assumes t: "within t mn mx" and i: "i \<le> length (inorder t)"
    and base: "unat mn \<le> unat base" "unat base \<le> gap_hi (inorder t) mx i"
  defines "b \<equiv> max (gap_lo (inorder t) mn i) (unat base)"
  shows "gap_found (at_prev (inorder t) i) (at (inorder t) i) mn mx base len =
     (if b + unat len \<le> gap_hi (inorder t) mx i then Some (of_nat b) else None)"
    "b < 2 ^ 64"
proof -
  let ?es = "inorder t"
  define lo where "lo = (case at_prev ?es i of None \<Rightarrow> mn | Some p \<Rightarrow> me_end p)"
  define hi where "hi = (case at ?es i of None \<Rightarrow> mx | Some n \<Rightarrow> me_base n)"
  have lo: "unat lo = gap_lo ?es mn i" by (simp add: lo_def gap_lo_def at_prev_def)
  have hi: "unat hi = gap_hi ?es mx i" by (simp add: hi_def gap_hi_def at_def)
  have inv: "map_inv t" using t by (simp add: within_def)
  have "gap_lo ?es mn i \<le> gap_hi ?es mx i"
  proof (cases "i = 0")
    case True
    then show ?thesis using nth_bounds(1) [OF t, of 0] t by (auto simp: gap_lo_def gap_hi_def within_def word_le_nat_alt)
  next
    case False
    then show ?thesis using nth_bounds(2) [OF t, of "i - 1"] entries_nth(1) [OF inv, of "i - 1" i] i
      by (auto simp: gap_lo_def gap_hi_def)
  qed
  then have le: "max lo base \<le> hi" using base lo hi by (simp add: word_le_nat_alt)
  have mx: "unat (max lo base) = b" using lo by (auto simp: b_def max_def word_le_nat_alt)
  have "len \<le> hi - max lo base \<longleftrightarrow> b + unat len \<le> gap_hi ?es mx i"
    using le hi mx by (auto simp: word_le_nat_alt unat_sub)
  moreover have "max lo base = of_nat b" using arg_cong [OF mx, of "of_nat :: nat \<Rightarrow> u64"] by simp
  ultimately show "gap_found (at_prev ?es i) (at ?es i) mn mx base len =
     (if b + unat len \<le> gap_hi ?es mx i then Some (of_nat b) else None)"
    unfolding gap_found_def lo_def hi_def Let_def by simp
  have "unat (max lo base) < 2 ^ LENGTH(64)" by (rule unsigned_less)
  then show "b < 2 ^ 64" using mx by simp
qed

text \<open>The loop ends, and either reads through a null pointer (started past the only entry), or
  returns a free range, or says there is none when there is none.\<close>

lemma gap_loop_ok:
  assumes t: "within t mn mx" and i: "i \<le> length (inorder t)" and len: "0 < unat len" "unat len \<le> unat mx - unat mn"
    and fuel: "(if wrapped then 0 else length (inorder t)) + (length (inorder t) - i) < fuel"
    and base: "unat mn \<le> unat base" "unat base \<le> gap_hi (inorder t) mx i"
    and small: "hint = 0 \<or> wrapped \<Longrightarrow> base = mn \<and>
      (\<forall>j < i. gap_hi (inorder t) mx j < gap_lo (inorder t) mn j + unat len)"
  shows "(i = length (inorder t) \<and>
        gap_loop fuel t hint len mn mx wrapped base (at_prev (inorder t) i) (at (inorder t) i) = Inl NullDeref) \<or>
     (\<exists>r. gap_loop fuel t hint len mn mx wrapped base (at_prev (inorder t) i) (at (inorder t) i) = Inr r \<and>
        (case r of None \<Rightarrow> \<forall>b. \<not> free_range (inorder t) mn mx len b
         | Some b \<Rightarrow> free_range (inorder t) mn mx len b))"
  using i fuel base small
proof (induction fuel arbitrary: i wrapped base)
  case (Suc fuel)
  let ?es = "inorder t"
  define b where "b = max (gap_lo ?es mn i) (unat base)"
  note found = gap_found_at(1) [OF t Suc.prems(1,3,4), where len = len, folded b_def]
    gap_found_at(2) [OF t Suc.prems(1,3,4), folded b_def]
  have tok: "mtree.tree_ok t" using t by (simp add: within_def map_inv_def)
  show ?case
  proof (cases "b + unat len \<le> gap_hi ?es mx i")
    case True
    have "unat (of_nat b :: u64) = b" using found(2) by (simp add: unsigned_of_nat take_bit_nat_eq_self)
    then have "free_range ?es mn mx len (of_nat b)"
      using True Suc.prems(3) by (intro gap_free [OF t Suc.prems(1)]) (auto simp: b_def)
    then show ?thesis using True found(1) by simp
  next
    case False
    note nf = found(1) [unfolded if_not_P [OF False]]
    have small': "gap_hi ?es mx i < gap_lo ?es mn i + unat len" if "hint = 0 \<or> wrapped"
      using False Suc.prems(5) [OF that] gap_lo_ge [OF t Suc.prems(1)] by (simp add: b_def max_def)
    consider "i = length ?es" | "Suc i < length ?es" | "Suc i = length ?es" using Suc.prems(1) by linarith
    then show ?thesis
    proof cases
      case 1
      then show ?thesis using nf by (simp add: at_def next_entry_def)
    next
      case 2
      then have i: "i < length ?es" by simp
      have "unat base \<le> gap_hi ?es mx (Suc i)"
        using Suc.prems(4) 2 entries_nth(3) [of t i "Suc i"] t by (simp add: gap_hi_def within_def)
      moreover have "(if wrapped then 0 else length ?es) + (length ?es - Suc i) < fuel" using Suc.prems(2) i by simp
      ultimately have IH: "\<exists>r. gap_loop fuel t hint len mn mx wrapped base (at_prev ?es (Suc i)) (at ?es (Suc i)) = Inr r \<and>
        (case r of None \<Rightarrow> \<forall>b. \<not> free_range ?es mn mx len b | Some b \<Rightarrow> free_range ?es mn mx len b)"
        using Suc.IH [of "Suc i" wrapped base] Suc.prems(3,5) small' 2 by (auto simp: less_Suc_eq)
      have "at ?es i = Some (?es ! i)" "at ?es (Suc i) = Some (?es ! Suc i)" "at_prev ?es (Suc i) = at ?es i"
        using 2 by (simp_all add: at_def at_prev_def)
      then show ?thesis using IH nf next_at [OF tok i] by simp
    next
      case 3
      then have i: "i < length ?es" by simp
      define p where "p = ?es ! i"
      have atp: "at ?es i = Some p" "at ?es (Suc i) = None" using 3 by (auto simp: at_def p_def)
      have step: "gap_loop (Suc fuel) t hint len mn mx wrapped base (at_prev ?es i) (at ?es i) =
          (if me_end p + len \<le> mx then Inr (Some (me_end p))
           else if hint = 0 \<or> wrapped then Inr None
           else gap_loop fuel t hint len mn mx True mn None (rb_min t))"
        using nf next_at [OF tok i] atp by simp
      have ple: "unat (me_end p) \<le> unat mx" "unat mn \<le> unat (me_end p)" using nth_bounds [OF t i] by (auto simp: p_def)
      have "unat (me_end p) + unat len < 2 ^ 64"
        using ple(1) len(2) within_no_wrap [OF t] by linarith
      then have sum: "me_end p + len \<le> mx \<longleftrightarrow> unat (me_end p) + unat len \<le> unat mx"
        by (simp add: word_le_nat_alt unat_word_ariths)
      have last: "gap_lo ?es mn (Suc i) = unat (me_end p)" "gap_hi ?es mx (Suc i) = unat mx"
        using 3 [symmetric] by (simp_all add: gap_lo_def gap_hi_def p_def)
      consider "me_end p + len \<le> mx" | "\<not> me_end p + len \<le> mx" "hint = 0 \<or> wrapped"
        | "\<not> me_end p + len \<le> mx" "\<not> (hint = 0 \<or> wrapped)" by blast
      then show ?thesis
      proof cases
        case 1
        then have "free_range ?es mn mx len (me_end p)"
          using sum last ple 3 by (intro gap_free [OF t, of "Suc i"]) auto
        then show ?thesis unfolding step using 1 by simp
      next
        case 2
        have "gap_hi ?es mx j < gap_lo ?es mn j + unat len" if j: "j \<le> length ?es" for j
        proof -
          consider "j < i" | "j = i" | "j = Suc i" using j 3 by linarith
          then show ?thesis using Suc.prems(5) [OF 2(2)] small' [OF 2(2)] last 2(1) sum by cases auto
        qed
        then have "\<not> free_range ?es mn mx len b" for b using no_gap [OF t _ len(1)] by blast
        then show ?thesis unfolding step using 2 by simp
      next
        case wrap: 3
        have ne: "?es \<noteq> []" using i by auto
        have "rb_min t = at ?es 0" using hd_opt_drop [of 0 ?es] by (simp add: rb_min_eq)
        moreover have "at_prev ?es 0 = None" by (simp add: at_prev_def)
        moreover have "0 + (length ?es - 0) < fuel" using Suc.prems(2) wrap(2) i by simp
        moreover have "unat mn \<le> gap_hi ?es mx 0" using nth_bounds(1) [OF t, of 0] i by (auto simp: gap_hi_def)
        ultimately have "\<exists>r. gap_loop fuel t hint len mn mx True mn None (rb_min t) = Inr r \<and>
            (case r of None \<Rightarrow> \<forall>b. \<not> free_range ?es mn mx len b | Some b \<Rightarrow> free_range ?es mn mx len b)"
          using Suc.IH [of 0 True mn] ne by simp
        then show ?thesis unfolding step using wrap by simp
      qed
    qed
  qed
qed simp

lemma lower_bound_at:
  assumes t: "map_inv t"
  obtains k where "k \<le> length (inorder t)" "map_lower_bound t a = at (inorder t) k"
    "\<And>j. j < k \<Longrightarrow> me_base (inorder t ! j) < a" "k < length (inorder t) \<Longrightarrow> a \<le> me_base (inorder t ! k)"
proof -
  let ?es = "inorder t"
  define k where "k = (LEAST k. length ?es \<le> k \<or> a \<le> me_base (?es ! k))"
  have k: "length ?es \<le> k \<or> a \<le> me_base (?es ! k)" unfolding k_def by (rule LeastI [of _ "length ?es"]) simp
  have le: "k \<le> length ?es" unfolding k_def by (rule Least_le) simp
  have before: "me_base (?es ! j) < a" if "j < k" for j
    using not_less_Least [of j "\<lambda>k. length ?es \<le> k \<or> a \<le> me_base (?es ! k)"] that by (auto simp: k_def)
  have after: "a \<le> me_base (?es ! j)" if "k \<le> j" "j < length ?es" for j
  proof (cases "j = k")
    case False
    then show ?thesis using entries_nth(3) [OF t, of k j] that k by (auto simp: word_less_nat_alt word_le_nat_alt)
  qed (use k that in auto)
  have "filter (\<lambda>x. a \<le> me_base x) (take k ?es) = []"
    using before le by (auto simp: filter_empty_conv in_set_conv_nth not_le)
  moreover have "filter (\<lambda>x. a \<le> me_base x) (drop k ?es) = drop k ?es"
    using after by (intro filter_True) (auto simp: in_set_conv_nth)
  ultimately have "filter (\<lambda>x. a \<le> me_base x) ?es = drop k ?es"
    by (metis append_take_drop_id filter_append append_Nil)
  then have "map_lower_bound t a = at ?es k"
    using map_lower_bound_eq [of t a] t by (simp add: map_inv_def hd_opt_drop)
  then show ?thesis using that [of k] le before after [of k] by simp
qed

lemma find_range_ok:
  fixes hint :: u64
  assumes t: "within t mn mx" and len: "0 < unat len" "unat len \<le> unat mx - unat mn"
  defines "base \<equiv> min (max hint mn) mx"
  shows "(find_range t hint len mn mx = Inl AssertFail \<and> t \<noteq> Null \<and> (\<forall>e \<in> set (inorder t). me_base e < base)) \<or>
     (find_range t hint len mn mx = Inl NullDeref \<and> length (inorder t) = 1) \<or>
     (\<exists>r. find_range t hint len mn mx = Inr r \<and>
        (case r of None \<Rightarrow> \<forall>b. \<not> free_range (inorder t) mn mx len b
         | Some b \<Rightarrow> free_range (inorder t) mn mx len b))"
proof -
  let ?es = "inorder t"
  have inv: "map_inv t" and mm: "mn \<le> mx" using t by (auto simp: within_def)
  then have tok: "mtree.tree_ok t" by (simp add: map_inv_def)
  have clamp: "clamp_hint hint mn mx = base"
    unfolding base_def clamp_hint_def max_def min_def Let_def by auto
  have b: "mn \<le> base" "base \<le> mx" using mm by (auto simp: base_def)
  have nat: "unat mn \<le> unat base" "unat base \<le> unat mx" using b by (simp_all add: word_le_nat_alt)
  have sum: "a + len \<le> c \<longleftrightarrow> unat a + unat len \<le> unat c" if "unat a \<le> unat mx" for a c :: u64
    using that len(2) within_no_wrap [OF t] by (simp add: word_le_nat_alt unat_word_ariths)
  have sum': "c < a + len \<longleftrightarrow> \<not> unat a + unat len \<le> unat c" if "unat a \<le> unat mx" for a c :: u64
    using sum [OF that, of c] by auto
  show ?thesis
  proof (cases "t = Null")
    case True
    have "\<exists>r. find_range t hint len mn mx = Inr r \<and>
        (case r of None \<Rightarrow> \<forall>b. \<not> free_range ?es mn mx len b | Some b \<Rightarrow> free_range ?es mn mx len b)"
      using True sum' [OF nat(2), of mx] sum' [of mn mx] nat len
      by (auto simp: find_range_def clamp rb_empty_def free_range_def Let_def)
    then show ?thesis by blast
  next
    case False
    then have ne: "0 < length ?es" by (cases t) auto
    obtain k where k: "k \<le> length ?es" "map_lower_bound t base = at ?es k"
      "\<And>j. j < k \<Longrightarrow> me_base (?es ! j) < base" "k < length ?es \<Longrightarrow> base \<le> me_base (?es ! k)"
      by (rule lower_bound_at [OF inv, of base]) blast
    have fr: "find_range t hint len mn mx =
        bindR (case at ?es k of None \<Rightarrow> Inr None | Some _ \<Rightarrow> prev_entry t (at ?es k)) (\<lambda>prev.
        case prev of
          Some _ \<Rightarrow> gap_loop (2 * loop_fuel t) t hint len mn mx False base prev (at ?es k)
        | None \<Rightarrow>
            (case at ?es k of None \<Rightarrow> Inl AssertFail | Some n \<Rightarrow>
               if me_base n \<ge> mn + len then Inr (Some mn)
               else bindR (next_entry t (at ?es k)) (gap_loop (2 * loop_fuel t) t hint len mn mx False base (at ?es k))))"
      using False unfolding find_range_def clamp k(2) Let_def rb_empty_def by simp
    have hint0: "base = mn" if "hint = 0"
      using that mm unfolding base_def by (simp add: max_def min_def)
    have fuel: "length ?es + (length ?es - i) < 2 * loop_fuel t" for i
      by (simp add: loop_fuel_def)
    consider "k = length ?es" | "0 < k" "k < length ?es" | "k = 0" using k(1) by linarith
    then show ?thesis
    proof cases
      case 1
      then have "find_range t hint len mn mx = Inl AssertFail" unfolding fr by (simp add: at_def)
      moreover have "\<forall>e \<in> set ?es. me_base e < base" using k(3) 1 by (auto simp: in_set_conv_nth)
      ultimately show ?thesis using False by blast
    next
      case 2
      then have "hint \<noteq> 0" using hint0 k(3) [of 0] nth_bounds(1) [OF t, of 0] ne by (auto simp: word_less_nat_alt)
      moreover have "unat base \<le> gap_hi ?es mx k" using k(4) 2 by (simp add: gap_hi_def word_le_nat_alt)
      ultimately have loop: "\<exists>r. gap_loop (2 * loop_fuel t) t hint len mn mx False base (at_prev ?es k) (at ?es k) = Inr r \<and>
        (case r of None \<Rightarrow> \<forall>b. \<not> free_range ?es mn mx len b | Some b \<Rightarrow> free_range ?es mn mx len b)"
        using gap_loop_ok [OF t k(1) len, of False "2 * loop_fuel t" base hint] fuel [of k] nat 2 by simp
      have "at ?es k = Some (?es ! k)" "at_prev ?es k = Some (?es ! (k - 1))" using 2 by (simp_all add: at_def at_prev_def)
      then have "find_range t hint len mn mx =
          gap_loop (2 * loop_fuel t) t hint len mn mx False base (at_prev ?es k) (at ?es k)"
        unfolding fr using prev_at [OF tok 2(2)] by simp
      then show ?thesis using loop by simp
    next
      case 3
      have at0: "at ?es 0 = Some (?es ! 0)" "at_prev ?es 0 = None" "at_prev ?es 1 = Some (?es ! 0)"
        using ne by (simp_all add: at_def at_prev_def)
      then have fr0: "find_range t hint len mn mx =
          (if me_base (?es ! 0) \<ge> mn + len then Inr (Some mn)
           else gap_loop (2 * loop_fuel t) t hint len mn mx False base (at_prev ?es 1) (at ?es 1))"
        unfolding fr using prev_at [OF tok ne] next_at [OF tok ne] 3 by simp
      show ?thesis
      proof (cases "me_base (?es ! 0) \<ge> mn + len")
        case True
        then have "free_range ?es mn mx len mn"
          using sum [of mn "me_base (?es ! 0)"] mm ne
          by (intro gap_free [OF t, of 0]) (auto simp: gap_lo_def gap_hi_def word_le_nat_alt sum)
        then show ?thesis using True fr0 by auto
      next
        case small: False
        have g0: "gap_hi ?es mx 0 < gap_lo ?es mn 0 + unat len"
          using small ne sum [of mn] mm by (auto simp: gap_lo_def gap_hi_def word_le_nat_alt)
        have hi1: "unat base \<le> gap_hi ?es mx 1"
          using k(4) 3 ne entries_nth(3) [OF inv, of 0 1] nat by (auto simp: gap_hi_def word_le_nat_alt)
        have one: "1 \<le> length ?es" using ne by linarith
        have "(1 = length ?es \<and> gap_loop (2 * loop_fuel t) t hint len mn mx False base (at_prev ?es 1) (at ?es 1) = Inl NullDeref) \<or>
          (\<exists>r. gap_loop (2 * loop_fuel t) t hint len mn mx False base (at_prev ?es 1) (at ?es 1) = Inr r \<and>
            (case r of None \<Rightarrow> \<forall>b. \<not> free_range ?es mn mx len b | Some b \<Rightarrow> free_range ?es mn mx len b))"
          using gap_loop_ok [OF t one len, of False "2 * loop_fuel t" base hint] fuel [of 1] nat(1) hi1 hint0 g0 by simp
        then show ?thesis unfolding fr0 using small by auto
      qed
    qed
  qed
qed

lemma not_free_if_long: "\<not> unat len \<le> unat mx - unat mn \<Longrightarrow> \<not> free_range es mn mx len b"
  by (auto simp: free_range_def)

lemma arena_bounds:
  assumes "arena kern = (mn, mx)"
  shows "mn \<le> mx" "unat mx + (unat mx - unat mn) < 2 ^ 64"
  using assms
  by (auto simp: arena_def KERNEL_VA_BASE_def KERNEL_VA_END_def USER_VA_BASE_def USER_VA_END_def
      word_le_nat_alt unat_word_ariths split: if_splits)

text \<open>Entering a free range.\<close>

lemma enter_range_ok:
  fixes prot :: u32 and inheritance :: vm_inheritance and cache :: vm_cache and offset :: u64 and ty :: entry_type
  assumes arena: "arena (is_kmap m) = (mn, mx)" and t: "within (map_tree m) mn mx" and kz: "vm_kz s = []"
    and free: "free_range (inorder (map_tree m)) mn mx len b" and len: "0 < unat len"
  defines "e \<equiv> init_map_entry zeroed_entry offset b (b + len) prot inheritance cache ty"
  shows "\<exists>t'. enter_range m b len prot inheritance cache offset ty s =
       Inr (YAK_SUCCESS, Some e, m\<lparr>map_tree := t'\<rparr>, s\<lparr>vm_next := vm_next s + 1\<rparr>) \<and>
     within t' mn mx \<and> set (inorder t') = insert e (set (inorder (map_tree m)))"
    "unat (b + len) = unat b + unat len"
proof -
  have f: "unat mn \<le> unat b" "unat b + unat len \<le> unat mx" using free by (auto simp: free_range_def)
  have "unat b + unat len < 2 ^ 64" using f arena_bounds(2) [OF arena] by linarith
  then show sum: "unat (b + len) = unat b + unat len" by (simp add: unat_word_ariths)
  have e: "me_base e = b" "me_end e = b + len" by (simp_all add: e_def init_map_entry_def)
  have eok: "entry_ok e" using len by (simp add: e_def init_map_entry_def entry_ok_def word_less_nat_alt sum)
  have apart: "me_end x \<le> me_base e \<or> me_end e \<le> me_base x" if "x \<in> set (inorder (map_tree m))" for x
    using free that sum unfolding e by (auto simp: free_range_def word_le_nat_alt)
  have inv: "map_inv (map_tree m)" using t by (simp add: within_def)
  obtain t' where t': "insert_entry e (map_tree m) = Inr t'" "map_inv t'"
      "set (inorder t') = insert e (set (inorder (map_tree m)))"
    using insert_entry_ok [OF inv eok apart] by blast
  have "mn \<le> b" using f by (simp add: word_le_nat_alt)
  then have "enter_range m b len prot inheritance cache offset ty s =
       Inr (YAK_SUCCESS, Some e, m\<lparr>map_tree := t'\<rparr>, s\<lparr>vm_next := vm_next s + 1\<rparr>)"
    using arena t'(1) kz by (simp add: enter_range_def kalloc_unchecked_def e_def [symmetric] Let_def)
  moreover have "within t' mn mx"
    using t t'(2,3) e f sum by (auto simp: within_def word_le_nat_alt)
  ultimately show "\<exists>t'. enter_range m b len prot inheritance cache offset ty s =
       Inr (YAK_SUCCESS, Some e, m\<lparr>map_tree := t'\<rparr>, s\<lparr>vm_next := vm_next s + 1\<rparr>) \<and>
     within t' mn mx \<and> set (inorder t') = insert e (set (inorder (map_tree m)))" using t'(3) by blast
qed

text \<open>A request without \<open>VM_MAP_FIXED\<close>. It faults only for a hint above every entry, or when the
  map has one entry and the space before it is too small.\<close>

lemma alloc_anywhere_ok:
  fixes hint :: u64 and lv :: nat
    and prot :: u32 and inheritance :: vm_inheritance and cache :: vm_cache and offset :: u64 and ty :: entry_type
  assumes arena: "arena (is_kmap m) = (mn, mx)" and t: "within (map_tree m) mn mx" and kz: "vm_kz s = []"
    and flags: "flags AND VM_MAP_FIXED = 0" and len: "len \<noteq> 0"
  defines "res \<equiv> alloc_map_range_locked lv m hint len prot inheritance cache offset ty flags s"
    and "es \<equiv> inorder (map_tree m)"
  shows "(res = Inl AssertFail \<and> es \<noteq> [] \<and> (\<forall>e \<in> set es. me_base e < min (max hint mn) mx)) \<or>
    (res = Inl NullDeref \<and> length es = 1) \<or>
    (res = Inr (YAK_NOSPACE, None, m, s) \<and> (\<forall>b. \<not> free_range es mn mx len b)) \<or>
    (\<exists>b t'. let e = init_map_entry zeroed_entry offset b (b + len) prot inheritance cache ty in
       res = Inr (YAK_SUCCESS, Some e, m\<lparr>map_tree := t'\<rparr>, s\<lparr>vm_next := vm_next s + 1\<rparr>) \<and>
       free_range es mn mx len b \<and> within t' mn mx \<and> set (inorder t') = insert e (set es))"
proof -
  have pos: "0 < unat len" using len by (simp add: unat_gt_0)
  have sub: "unat (mx - mn) = unat mx - unat mn" using arena_bounds(1) [OF arena] by (rule unat_sub)
  show ?thesis
  proof (cases "mx - mn < len")
    case True
    then have "res = Inr (YAK_NOSPACE, None, m, s)"
      using arena len by (simp add: res_def alloc_map_range_locked_def)
    moreover have "\<not> free_range es mn mx len b" for b
      using True sub by (intro not_free_if_long) (simp add: word_less_nat_alt)
    ultimately show ?thesis by blast
  next
    case False
    then have le: "unat len \<le> unat mx - unat mn" using sub by (simp add: word_less_nat_alt)
    have res: "res = bindR (find_range (map_tree m) hint len mn mx) (\<lambda>b. case b of
             None \<Rightarrow> Inr (YAK_NOSPACE, None, m, s)
           | Some base \<Rightarrow> enter_range m base len prot inheritance cache offset ty s)"
      using arena len flags False by (simp add: res_def alloc_map_range_locked_def)
    from find_range_ok [OF t pos le, of hint] consider
        "find_range (map_tree m) hint len mn mx = Inl AssertFail" "map_tree m \<noteq> Null"
          "\<forall>e \<in> set es. me_base e < min (max hint mn) mx"
      | "find_range (map_tree m) hint len mn mx = Inl NullDeref" "length es = 1"
      | "find_range (map_tree m) hint len mn mx = Inr None" "\<forall>b. \<not> free_range es mn mx len b"
      | b where "find_range (map_tree m) hint len mn mx = Inr (Some b)" "free_range es mn mx len b"
      unfolding es_def by (auto split: option.splits)
    then show ?thesis
    proof cases
      case 1
      then have "es \<noteq> []" by (cases "map_tree m") (auto simp: es_def)
      with 1 show ?thesis unfolding res by simp
    next
      case (4 b)
      from enter_range_ok(1) [OF arena t kz 4(2) [unfolded es_def] pos, where offset = offset and prot = prot and inheritance = inheritance and cache = cache and ty = ty] obtain t' where
        "enter_range m b len prot inheritance cache offset ty s = Inr (YAK_SUCCESS,
           Some (init_map_entry zeroed_entry offset b (b + len) prot inheritance cache ty),
           m\<lparr>map_tree := t'\<rparr>, s\<lparr>vm_next := vm_next s + 1\<rparr>)" "within t' mn mx"
        "set (inorder t') = insert (init_map_entry zeroed_entry offset b (b + len) prot inheritance cache ty) (set es)"
        by (auto simp: es_def)
      then show ?thesis unfolding res using 4 by (auto simp: Let_def)
    qed (simp_all add: res)
  qed
qed

text \<open>A request with \<open>VM_MAP_FIXED\<close> and without \<open>VM_MAP_OVERWRITE\<close>.\<close>

lemma overlaps_iff:
  assumes t: "map_inv t" and b: "b \<le> b + len" "len \<noteq> 0"
  shows "\<exists>prev. (case map_lower_bound t b of None \<Rightarrow> Inr (rb_max t) | Some _ \<Rightarrow> prev_entry t (map_lower_bound t b)) = Inr prev \<and>
    (overlaps prev (map_lower_bound t b) b len \<longleftrightarrow>
     (\<exists>e \<in> set (inorder t). \<not> (me_end e \<le> b \<or> b + len \<le> me_base e)))"
proof -
  let ?es = "inorder t"
  have tok: "mtree.tree_ok t" using t by (simp add: map_inv_def)
  have bl: "b < b + len" using b by (simp add: order.strict_iff_order)
  obtain k where k: "k \<le> length ?es" "map_lower_bound t b = at ?es k"
      "\<And>j. j < k \<Longrightarrow> me_base (?es ! j) < b" "k < length ?es \<Longrightarrow> b \<le> me_base (?es ! k)"
    by (rule lower_bound_at [OF t, of b]) blast
  have prev: "(case at ?es k of None \<Rightarrow> Inr (rb_max t) | Some _ \<Rightarrow> prev_entry t (at ?es k)) = Inr (at_prev ?es k)"
  proof (cases "k < length ?es")
    case True
    then show ?thesis using prev_at [OF tok True] by (simp add: at_def)
  next
    case False
    then show ?thesis using k(1) hd_opt_take [of "length ?es" ?es] by (simp add: at_def rb_max_eq)
  qed
  have "overlaps (at_prev ?es k) (at ?es k) b len \<longleftrightarrow>
      (0 < k \<and> b < me_end (?es ! (k - 1))) \<or> (k < length ?es \<and> me_base (?es ! k) < b + len)"
    by (auto simp: overlaps_def at_def at_prev_def)
  also have "\<dots> \<longleftrightarrow> (\<exists>j < length ?es. \<not> (me_end (?es ! j) \<le> b \<or> b + len \<le> me_base (?es ! j)))"
  proof
    assume "(0 < k \<and> b < me_end (?es ! (k - 1))) \<or> (k < length ?es \<and> me_base (?es ! k) < b + len)"
    then show "\<exists>j < length ?es. \<not> (me_end (?es ! j) \<le> b \<or> b + len \<le> me_base (?es ! j))"
    proof
      assume a: "0 < k \<and> b < me_end (?es ! (k - 1))"
      then show ?thesis using k(1) k(3) [of "k - 1"] bl by (intro exI [of _ "k - 1"]) auto
    next
      assume a: "k < length ?es \<and> me_base (?es ! k) < b + len"
      then have "me_base (?es ! k) < me_end (?es ! k)" using map_inv_parts(4) [OF t] by simp
      then show ?thesis using a k(4) by (intro exI [of _ k]) auto
    qed
  next
    assume "\<exists>j < length ?es. \<not> (me_end (?es ! j) \<le> b \<or> b + len \<le> me_base (?es ! j))"
    then obtain j where j: "j < length ?es" "b < me_end (?es ! j)" "me_base (?es ! j) < b + len" by (auto simp: not_le)
    show "(0 < k \<and> b < me_end (?es ! (k - 1))) \<or> (k < length ?es \<and> me_base (?es ! k) < b + len)"
    proof (cases "j < k")
      case True
      have "me_end (?es ! j) \<le> me_end (?es ! (k - 1))"
      proof (cases "j = k - 1")
        case False
        then have "j < k - 1" "k - 1 < length ?es" using True k(1) by auto
        then show ?thesis using entries_nth(1) [OF t, of j "k - 1"]
            map_inv_parts(4) [OF t, of "?es ! (k - 1)"] by (simp add: word_le_nat_alt word_less_nat_alt)
      qed simp
      then show ?thesis using True j(2) by auto
    next
      case False
      then have "me_base (?es ! k) \<le> me_base (?es ! j)"
        using entries_nth(3) [OF t, of k j] j(1) by (cases "k = j") (auto simp: word_le_nat_alt)
      then show ?thesis using False j by auto
    qed
  qed
  also have "\<dots> \<longleftrightarrow> (\<exists>e \<in> set ?es. \<not> (me_end e \<le> b \<or> b + len \<le> me_base e))"
    by (metis in_set_conv_nth)
  finally show ?thesis using prev unfolding k(2) by blast
qed

lemma alloc_fixed_ok:
  fixes lv :: nat
    and prot :: u32 and inheritance :: vm_inheritance and cache :: vm_cache and offset :: u64 and ty :: entry_type
  assumes arena: "arena (is_kmap m) = (mn, mx)" and t: "within (map_tree m) mn mx" and kz: "vm_kz s = []"
    and flags: "flags AND VM_MAP_FIXED \<noteq> 0" "flags AND VM_MAP_OVERWRITE = 0"
    and range: "unat mn \<le> unat b" "unat b + unat len \<le> unat mx" "len \<noteq> 0"
  defines "res \<equiv> alloc_map_range_locked lv m b len prot inheritance cache offset ty flags s"
    and "e \<equiv> init_map_entry zeroed_entry offset b (b + len) prot inheritance cache ty"
  shows "if free_range (inorder (map_tree m)) mn mx len b
    then \<exists>t'. res = Inr (YAK_SUCCESS, Some e, m\<lparr>map_tree := t'\<rparr>, s\<lparr>vm_next := vm_next s + 1\<rparr>) \<and>
      within t' mn mx \<and> set (inorder t') = insert e (set (inorder (map_tree m)))
    else res = Inr (YAK_EXISTS, None, m, s)"
proof -
  have pos: "0 < unat len" using range by (simp add: unat_gt_0)
  have "unat b + unat len < 2 ^ 64" using range arena_bounds(2) [OF arena] by linarith
  then have sum: "unat (b + len) = unat b + unat len" by (simp add: unat_word_ariths)
  have chk: "\<not> b < mn" "\<not> b + len < b" "\<not> mx < b + len" "b \<le> b + len"
    using range sum by (simp_all add: word_less_nat_alt word_le_nat_alt)
  have "unat (mx - mn) = unat mx - unat mn" using arena_bounds(1) [OF arena] by (rule unat_sub)
  then have big: "\<not> mx - mn < len" using range by (simp add: word_less_nat_alt)
  have inv: "map_inv (map_tree m)" using t by (simp add: within_def)
  obtain prev where prev: "(case map_lower_bound (map_tree m) b of None \<Rightarrow> Inr (rb_max (map_tree m))
      | Some _ \<Rightarrow> prev_entry (map_tree m) (map_lower_bound (map_tree m) b)) = Inr prev"
    "overlaps prev (map_lower_bound (map_tree m) b) b len \<longleftrightarrow>
     (\<exists>e \<in> set (inorder (map_tree m)). \<not> (me_end e \<le> b \<or> b + len \<le> me_base e))"
    using overlaps_iff [OF inv chk(4) range(3)] by blast
  have free: "free_range (inorder (map_tree m)) mn mx len b \<longleftrightarrow>
      \<not> overlaps prev (map_lower_bound (map_tree m) b) b len"
    using range sum unfolding prev(2) by (auto simp: free_range_def word_le_nat_alt)
  have res: "res = (if overlaps prev (map_lower_bound (map_tree m) b) b len then Inr (YAK_EXISTS, None, m, s)
      else enter_range m b len prot inheritance cache offset ty s)"
    unfolding res_def alloc_map_range_locked_def Let_def arena prod.case prev(1)
    using chk(1-3) big range(3) flags by simp
  show ?thesis
    using enter_range_ok(1) [OF arena t kz _ pos, where b = b and offset = offset and prot = prot and inheritance = inheritance and cache = cache and ty = ty] free
    unfolding res e_def by auto
qed
end
