(* ===== verification/MapProtect.thy ===== *)
theory MapProtect
  imports MapFacts
begin

text \<open>
  \<open>vm_protect\<close> of \<^verbatim>\<open>kernel/vm/map.c\<close>: the rights of exactly the addresses of the range change, in
  the map and in the page tables.
\<close>

section \<open>Pages of a range\<close>

lemma same_page_drop:
  assumes "lv \<le> 5" "drop_bit 12 va = drop_bit 12 va'"
  shows "same_page lv va va'"
proof -
  have idx: "pt_index va l = pt_index va' l" if "l < 5" for l
  proof -
    have "12 \<le> PMAP_LEVEL_SHIFTS ! l" using that by (auto simp: PMAP_LEVEL_SHIFTS_def less_Suc_eq numeral_eq_Suc)
    then obtain d where d: "PMAP_LEVEL_SHIFTS ! l = d + 12" by (metis add.commute le_Suc_ex)
    have "drop_bit (d + 12) va = drop_bit (d + 12) va'"
      using assms(2) by (metis drop_bit_drop_bit)
    then show ?thesis by (simp add: pt_index_def d)
  qed
  show ?thesis unfolding same_page_def ix_def using idx assms(1) by auto
qed

lemma page_aligned_dvd: "page_aligned a \<longleftrightarrow> 4096 dvd unat a"
proof -
  have "a AND 0xFFF = take_bit 12 a" by (simp add: take_bit_eq_mask mask_eq_exp_minus_1)
  then have "page_aligned a \<longleftrightarrow> unat (take_bit 12 a) = 0" by (simp add: page_aligned_def unsigned_eq_0_iff)
  also have "unat (take_bit 12 a) = unat a mod 4096" unfolding unsigned_take_bit_eq by (simp add: take_bit_eq_mod)
  finally show ?thesis by (simp add: mod_eq_0_iff_dvd)
qed

lemma range_in_pages:
  assumes lv: "lv \<le> 5" and al: "page_aligned base" and va: "base \<le> va" "unat va < unat base + unat len"
  shows "in_pages lv base (page_count len PAGE_SIZE) va"
proof -
  define k where "k = (unat va - unat base) div 4096"
  obtain q where q: "unat base = 4096 * q" using al by (auto simp: page_aligned_dvd elim: dvdE)
  have le: "unat base \<le> unat va" using va(1) by (simp add: word_le_nat_alt)
  have small: "4096 * q + 4096 * k \<le> unat va" using le by (simp add: q k_def)
  have "unat va < 2 ^ LENGTH(64)" by (rule unsigned_less)
  then have lt: "4096 * q + 4096 * k < 2 ^ 64" using small by simp
  define p where "p = base + of_nat k * 0x1000"
  have "p = of_nat (4096 * q + 4096 * k)"
    using arg_cong [OF q, of "of_nat :: nat \<Rightarrow> u64"] by (simp add: p_def mult.commute)
  then have "unat p = 4096 * q + 4096 * k" using lt by (simp add: unsigned_of_nat take_bit_nat_eq_self del: of_nat_add of_nat_mult)
  then have "unat (drop_bit 12 p) = unat (drop_bit 12 va)"
    unfolding unat_drop_bit_eq using le by (simp add: drop_bit_eq_div q k_def)
  then have "drop_bit 12 p = drop_bit 12 va" by (simp add: word_unat_eq_iff)
  then have "same_page lv p va" using lv by (simp add: same_page_drop)
  moreover have "k < page_count len PAGE_SIZE"
  proof -
    have "unat va - unat base < unat len" using va(2) le by simp
    then have "unat va - unat base \<le> unat len - 1" by simp
    then have "k \<le> (unat len - 1) div 4096" unfolding k_def by (rule div_le_mono)
    moreover have "page_count len PAGE_SIZE = (unat len - 1) div 4096 + 1"
    proof -
      have "unat len + 4096 - 1 = (unat len - 1) + 4096" using \<open>unat va - unat base < unat len\<close> by simp
      then show ?thesis by (simp add: page_count_def PAGE_SIZE_def PAGE_SHIFT_def)
    qed
    ultimately show ?thesis by simp
  qed
  ultimately show ?thesis unfolding in_pages_def p_def by blast
qed

lemma pages_in_range:
  fixes base len :: u64
  assumes k: "k < page_count len PAGE_SIZE" and fit: "unat base + unat len < 2 ^ 64"
  shows "base \<le> base + of_nat k * 0x1000" "unat (base + of_nat k * 0x1000) < unat base + unat len"
proof -
  have k': "k * 4096 < unat len"
  proof -
    have "Suc k \<le> (unat len + 4095) div 4096" using k by (simp add: page_count_def PAGE_SIZE_def Suc_le_eq)
    then have "Suc k * 4096 \<le> unat len + 4095"
      using mult_le_mono1 [of "Suc k" "(unat len + 4095) div 4096" 4096] div_times_less_eq_dividend [of "unat len + 4095" 4096]
      by linarith
    then show ?thesis by simp
  qed
  have "unat (of_nat k * 0x1000 :: u64) = k * 4096"
  proof -
    have "(of_nat k * 0x1000 :: u64) = of_nat (k * 4096)" by simp
    moreover have "k * 4096 < 2 ^ 64" using k' fit by linarith
    ultimately show ?thesis by (simp add: unsigned_of_nat take_bit_nat_eq_self del: of_nat_mult)
  qed
  moreover have "unat base + k * 4096 < 2 ^ 64" using k' fit by linarith
  ultimately have u: "unat (base + of_nat k * 0x1000) = unat base + k * 4096" by (simp add: unat_word_ariths)
  show "base \<le> base + of_nat k * 0x1000" unfolding word_le_nat_alt u by simp
  show "unat (base + of_nat k * 0x1000) < unat base + unat len" unfolding u using k' by simp
qed

section \<open>Changing the rights of a range\<close>

lemma update_view:
  assumes t: "map_inv t" and x: "x \<in> set (inorder t)"
    and f: "\<And>x. me_base (f x) = me_base x" "\<And>x. me_end (f x) = me_end x"
      "\<And>x. me_is_cow (f x) = me_is_cow x" "\<And>x. me_inheritance (f x) = me_inheritance x"
  shows "view (update_entry (me_base x) f t) a = (if contains a x then Some (translate (f x) a) else view t a)"
    "set (inorder (update_entry (me_base x) f t)) = insert (f x) (set (inorder t) - {x})"
    "map_inv (update_entry (me_base x) f t)"
proof -
  let ?t = "update_entry (me_base x) f t"
  note u = update_entry_ok [OF t f, where b = "me_base x"]
  show inv: "map_inv ?t" by (rule u)
  have "(\<lambda>y. if me_base y = me_base x then f y else y) ` set (inorder t) = insert (f x) (set (inorder t) - {x})"
  proof -
    have "(if me_base y = me_base x then f y else y) = (if y = x then f x else y)" if "y \<in> set (inorder t)" for y
      using same_base [OF t that x] by auto
    then have "(\<lambda>y. if me_base y = me_base x then f y else y) ` set (inorder t) =
        (\<lambda>y. if y = x then f x else y) ` set (inorder t)" by (intro image_cong) auto
    also have "\<dots> = insert (f x) (set (inorder t) - {x})" using x by auto
    finally show ?thesis .
  qed
  then show set: "set (inorder ?t) = insert (f x) (set (inorder t) - {x})" using u(2) by simp
  have cf: "contains a (f x) = contains a x" using f by (simp add: contains_def)
  show "view ?t a = (if contains a x then Some (translate (f x) a) else view t a)"
  proof (cases "contains a x")
    case True
    then have "lookup_from a ?t = Some (f x)" using lookup_iff [OF inv] set cf by simp
    then show ?thesis using True by (simp add: view_def)
  next
    case False
    then have "lookup_from a ?t = Some e \<longleftrightarrow> lookup_from a t = Some e" for e
      using lookup_iff [OF inv] lookup_iff [OF t] set cf by auto
    then have "lookup_from a ?t = lookup_from a t" by (metis not_None_eq)
    then show ?thesis using False by (simp add: view_def)
  qed
qed


definition retranslate :: "u32 \<Rightarrow> u32 \<Rightarrow> translation \<Rightarrow> translation" where
  "retranslate flags prot tr =
     (if flags AND VM_MAP_SETMAXPROT \<noteq> 0 then tr\<lparr>tr_max_protection := prot\<rparr> else tr)\<lparr>tr_protection := prot\<rparr>"

lemma reprotect_simps [simp]:
  "me_base (reprotect flags prot e) = me_base e" "me_end (reprotect flags prot e) = me_end e"
  "me_is_cow (reprotect flags prot e) = me_is_cow e" "me_inheritance (reprotect flags prot e) = me_inheritance e"
  "translate (reprotect flags prot e) a = retranslate flags prot (translate e a)"
  by (simp_all add: reprotect_def retranslate_def translate_def)

definition protected_pte :: "u32 \<Rightarrow> u64 \<Rightarrow> bool" where
  "protected_pte prot pte \<longleftrightarrow> pte = 0 \<or> (\<exists>pa cache. pte = pte_make 0 (pte_paddr pa) prot cache)"

text \<open>What \<open>vm_protect\<close> needs of an entry it meets: it is page aligned, may be given the rights, its
  objects exist, and it is not cut off at its end; and it is not a device mapping cut in the middle.\<close>

definition can_protect :: "u64 \<Rightarrow> u64 \<Rightarrow> u32 \<Rightarrow> u32 \<Rightarrow> vm \<Rightarrow> map_entry \<Rightarrow> bool" where
  "can_protect a z prot flags s e \<longleftrightarrow> me_base e < z \<longrightarrow> a < me_end e \<longrightarrow>
     page_aligned (me_base e) \<and> backed s e \<and>
     (flags AND VM_MAP_SETMAXPROT \<noteq> 0 \<or> vm_check_prot (me_max_protection e) prot) \<and>
     (me_base e < a \<longrightarrow> z < me_end e) \<and> (z < me_end e \<longrightarrow> me_type e \<noteq> VM_MAP_ENT_MMIO)"

text \<open>An address in the page of a mapped address of a set.\<close>

definition in_page_of :: "nat \<Rightarrow> map_entry rbtree \<Rightarrow> (u64 \<Rightarrow> bool) \<Rightarrow> u64 \<Rightarrow> bool" where
  "in_page_of lv t P d \<longleftrightarrow> (\<exists>d'. P d' \<and> view t d' \<noteq> None \<and> same_page lv d' d)"

text \<open>Giving the rights to the entry that covers the range exactly: the tail of one iteration.\<close>

definition protect_body :: "nat \<Rightarrow> u32 \<Rightarrow> u32 \<Rightarrow> u64 \<Rightarrow> map_entry \<Rightarrow> map_entry rbtree \<Rightarrow> vm \<Rightarrow> (map_entry rbtree \<times> vm) res" where
  "protect_body lv prot flags root x t s =
     bindR (pmap_protect_range lv root (me_base x) (me_end x - me_base x) prot (me_cache x) 0 s) (\<lambda>s2.
       Inr (update_entry (me_base x) (reprotect flags prot) t, s2))"

lemma protect_body_ok:
  assumes t: "map_inv t" and x: "x \<in> set (inorder t)" and s: "pt_ok lv root s" and lv: "lv \<le> 5"
    and al: "page_aligned (me_base x)"
  shows "\<exists>t' s'. protect_body lv prot flags root x t s = Inr (t', s') \<and> map_inv t' \<and>
     set (inorder t') = insert (reprotect flags prot x) (set (inorder t) - {x}) \<and>
     (\<forall>a. view t' a = (if contains a x then map_option (retranslate flags prot) (view t a) else view t a)) \<and>
     pt_ok lv root s' \<and> pt_step s s' \<and> vm_phys s' = vm_phys s \<and>
     (\<forall>a. contains a x \<longrightarrow> protected_pte prot (leaf_pte lv root (vm_tab s') a)) \<and>
     (\<forall>d. (\<forall>d'. contains d' x \<longrightarrow> \<not> same_page lv d' d) \<longrightarrow> leaf_pte lv root (vm_tab s') d = leaf_pte lv root (vm_tab s) d) \<and>
     (\<forall>a. leaf_pte lv root (vm_tab s') a = leaf_pte lv root (vm_tab s) a \<or>
          protected_pte prot (leaf_pte lv root (vm_tab s') a)) \<and>
     (\<forall>d. pte_paddr (leaf_pte lv root (vm_tab s') d) = pte_paddr (leaf_pte lv root (vm_tab s) d))"
proof -
  let ?n = "page_count (me_end x - me_base x) PAGE_SIZE"
  obtain s' where s': "pmap_protect_range lv root (me_base x) (me_end x - me_base x) prot (me_cache x) 0 s = Inr s'"
     "pt_ok lv root s'" "pt_step s s'" "vm_phys s' = vm_phys s"
     "\<forall>va'. in_pages lv (me_base x) ?n va' \<longrightarrow> leaf_pte lv root (vm_tab s') va' = 0 \<or>
        (\<exists>pa. leaf_pte lv root (vm_tab s') va' = pte_make 0 (pte_paddr pa) prot (me_cache x))"
     "\<forall>va'. \<not> in_pages lv (me_base x) ?n va' \<longrightarrow>
        leaf_pte lv root (vm_tab s') va' = leaf_pte lv root (vm_tab s) va'"
    using pmap_protect_range_ok [OF s, of "me_base x" "me_end x - me_base x" prot "me_cache x"] by blast
  have prot: "protected_pte prot (leaf_pte lv root (vm_tab s') a)" if "in_pages lv (me_base x) ?n a" for a
    using s'(5) that unfolding protected_pte_def by blast
  have lt: "me_base x < me_end x" using map_inv_parts(4) [OF t x] .
  have cov: "in_pages lv (me_base x) ?n a" if "contains a x" for a
  proof (rule range_in_pages [OF lv al])
    show "me_base x \<le> a" using that by (simp add: contains_def)
    have "unat (me_end x - me_base x) = unat (me_end x) - unat (me_base x)" using lt by (simp add: unat_sub less_imp_le)
    then show "unat a < unat (me_base x) + unat (me_end x - me_base x)"
      using that lt by (auto simp: contains_def word_less_nat_alt)
  qed
  have len: "unat (me_base x) + unat (me_end x - me_base x) = unat (me_end x)"
    using lt by (simp add: unat_sub less_imp_le word_less_nat_alt)
  have out: "leaf_pte lv root (vm_tab s') d = leaf_pte lv root (vm_tab s) d"
    if d: "\<forall>d'. contains d' x \<longrightarrow> \<not> same_page lv d' d" for d
  proof -
    have "unat (me_end x) < 2 ^ 64" using unsigned_less [of "me_end x", where ?'a = nat] by simp
    then have fit: "unat (me_base x) + unat (me_end x - me_base x) < 2 ^ 64" using len by simp
    have "contains (me_base x + of_nat k * 0x1000) x" if "k < ?n" for k
      using pages_in_range [OF that fit] unfolding len by (simp add: contains_def word_less_nat_alt)
    then show ?thesis using s'(6) d by (auto simp: in_pages_def)
  qed
  note u = update_view [OF t x, where f = "reprotect flags prot"]
  have v: "view (update_entry (me_base x) (reprotect flags prot) t) a =
      (if contains a x then map_option (retranslate flags prot) (view t a) else view t a)" for a
  proof (cases "contains a x")
    case True
    then have "lookup_from a t = Some x" using lookup_iff [OF t] x by blast
    then show ?thesis using True u(1) by (simp add: view_def)
  qed (use u(1) in simp)
  show ?thesis
    using s' prot cov out u(2,3) v pmap_protect_range_frames [OF s s'(1)]
    by (intro exI [of _ "update_entry (me_base x) (reprotect flags prot) t"] exI [of _ s'])
       (auto simp: protect_body_def)
qed

text \<open>After \<open>isolate\<close> some entry covers the part of \<open>c\<close> inside the range exactly, no translation has
  changed, and neither have the entries behind \<open>c\<close>.\<close>

lemma isolate_ok:
  assumes t: "map_inv t" and c: "c \<in> set (inorder t)" and kz: "vm_kz s = []" and ref: "backed s c"
    and az: "a < z" "me_base c < z" "a < me_end c"
    and tail: "me_base c < a \<Longrightarrow> z < me_end c" and mmio: "z < me_end c \<Longrightarrow> me_type c \<noteq> VM_MAP_ENT_MMIO"
  shows "\<exists>t' s'. isolate t c a z s = Inr (YAK_SUCCESS, t', s') \<and> map_inv t' \<and> refs_only s s' \<and>
     isolated c a z \<in> set (inorder t') \<and> (\<forall>d. view t' d = view t d) \<and>
     {e \<in> set (inorder t'). me_end c \<le> me_base e} = {e \<in> set (inorder t). me_end c \<le> me_base e}"
    "me_base (isolated c a z) = max (me_base c) a" "me_end (isolated c a z) = min (me_end c) z"
    "me_max_protection (isolated c a z) = me_max_protection c" "me_cache (isolated c a z) = me_cache c"
proof -
  let ?split = "me_base c \<noteq> max (me_base c) a \<or> me_end c \<noteq> min (me_end c) z"
  show "me_base (isolated c a z) = max (me_base c) a" "me_end (isolated c a z) = min (me_end c) z"
    "me_max_protection (isolated c a z) = me_max_protection c" "me_cache (isolated c a z) = me_cache c"
    by (auto simp: isolated_def Let_def)
  show "\<exists>t' s'. isolate t c a z s = Inr (YAK_SUCCESS, t', s') \<and> map_inv t' \<and> refs_only s s' \<and>
     isolated c a z \<in> set (inorder t') \<and> (\<forall>d. view t' d = view t d) \<and>
     {e \<in> set (inorder t'). me_end c \<le> me_base e} = {e \<in> set (inorder t). me_end c \<le> me_base e}"
  proof (cases ?split)
    case True
    have zc: "z < me_end c" using True tail by (auto simp: max_def min_def split: if_splits)
    have cut: "me_base c \<le> max (me_base c) a" "max (me_base c) a < min (me_end c) z" "min (me_end c) z < me_end c"
      using az zc map_inv_parts(4) [OF t c] by auto
    obtain t' s' where t': "carve_entry t c (max (me_base c) a) (min (me_end c) z) s = Inr (YAK_SUCCESS, t', s')"
        "map_inv t'" "refs_only s s'"
        "set (inorder t') = set (inorder t) - {c} \<union> carve_pieces c (max (me_base c) a) (min (me_end c) z)"
      using carve_entry_ok [OF t c kz ref cut] by blast
    have "isolated c a z \<in> set (inorder t')" using True by (simp add: t'(4) isolated_def Let_def carve_pieces_def)
    moreover have "view t' d = view t d" for d by (rule carve_view [OF t c mmio [OF zc] cut t'(2,4)])
    moreover have "{e \<in> set (inorder t'). me_end c \<le> me_base e} = {e \<in> set (inorder t). me_end c \<le> me_base e}"
    proof -
      have "\<not> me_end c \<le> me_base e" if "e \<in> carve_pieces c (max (me_base c) a) (min (me_end c) z)" for e
        using that cut leD [of "me_end c" "max (me_base c) a"] less_trans [OF cut(2,3)] map_inv_parts(4) [OF t c]
        by (auto simp: carve_pieces_def simp del: max_less_iff_conj split: if_splits)
      then show ?thesis using map_inv_parts(4) [OF t c] unfolding t'(4) by auto
    qed
    ultimately show ?thesis using True t' by (auto simp: isolate_def Let_def)
  next
    case False
    then show ?thesis using t c by (simp add: isolate_def isolated_def Let_def)
  qed
qed

lemma pt_ok_refs_only:
  assumes "refs_only s s'" "pt_ok lv root s"
  shows "pt_ok lv root s'"
  using assms by (simp add: pt_ok_def refs_only_def)

lemma pt_step_backed: "pt_step s s' \<Longrightarrow> backed s' e \<longleftrightarrow> backed s e"
  by (simp add: pt_step_def backed_def)

lemma can_protect_mono: "(\<And>e. backed s' e \<longleftrightarrow> backed s e) \<Longrightarrow> can_protect a z prot flags s' e \<longleftrightarrow> can_protect a z prot flags s e"
  by (simp add: can_protect_def)

lemma protect_iteration:
  assumes "me_base cur < z" "next_entry (map_tree m) (Some cur) = Inr nxt" "a < me_end cur"
    "isolate (map_tree m) cur a z s = Inr (YAK_SUCCESS, t1, s1)"
    "flags AND VM_MAP_SETMAXPROT \<noteq> 0 \<or> vm_check_prot (me_max_protection (isolated cur a z)) prot"
    "protect_body lv prot flags (top_level (map_pmap m)) (isolated cur a z) t1 s1 = Inr (t2, s2)"
  shows "protect_loop (Suc fuel) lv m a z prot flags (Some cur) s =
     protect_loop fuel lv (m\<lparr>map_tree := t2\<rparr>) a z prot flags nxt s2"
proof -
  have body: "pmap_protect_range lv (top_level (map_pmap m)) (me_base (isolated cur a z))
      (me_end (isolated cur a z) - me_base (isolated cur a z)) prot (me_cache (isolated cur a z)) 0 s1 = Inr s2"
    "t2 = update_entry (me_base (isolated cur a z)) (reprotect flags prot) t1"
    using assms(6) by (auto simp: protect_body_def bindR_Inr_iff)
  moreover have "\<not> me_end cur \<le> a" "\<not> z \<le> me_base cur" using assms(1,3) by auto
  ultimately show ?thesis using assms(1,2,4,5) by auto
qed

text \<open>The loop from \<open>cur\<close> on: every mapped address of the range at or after \<open>cur\<close> gets the rights, in
  the map and in the page tables, and nothing else changes.\<close>

definition from_entry :: "map_entry option \<Rightarrow> u64 \<Rightarrow> bool" where
  "from_entry c a = (case c of None \<Rightarrow> False | Some e \<Rightarrow> me_base e \<le> a)"

lemma view_Some: "map_inv t \<Longrightarrow> view t d \<noteq> None \<Longrightarrow> \<exists>e \<in> set (inorder t). contains d e"
  using lookup_iff [of t d] by (auto simp: view_def)

lemma first_above:
  "mtree.asc es \<Longrightarrow> e \<in> set es \<Longrightarrow> b < me_base e \<Longrightarrow>
   \<exists>n. hd_opt (filter (\<lambda>y. b < me_base y) es) = Some n \<and> me_base n \<le> me_base e"
  by (induction es) auto

text \<open>The entry behind \<open>c\<close>, and what lies before it.\<close>

lemma next_facts:
  assumes inv: "map_inv t" and c: "c \<in> set (inorder t)"
  obtains nxt where "next_entry t (Some c) = Inr nxt"
    "\<And>e. nxt = Some e \<Longrightarrow> e \<in> set (inorder t)"
    "\<And>d. from_entry nxt d \<Longrightarrow> me_end c \<le> d"
    "\<And>e d. e \<in> set (inorder t) \<Longrightarrow> contains d e \<Longrightarrow> me_end c \<le> d \<Longrightarrow> from_entry nxt d"
proof -
  note cl = map_inv_parts(4) [OF inv c]
  define nxt where "nxt = hd_opt (filter (\<lambda>y. me_base c < me_base y) (inorder t))"
  have "mtree.tree_ok t" using inv by (simp add: map_inv_def)
  then have "next_entry t (Some c) = Inr nxt" using next_entry_eq [OF _ c] by (simp add: nxt_def)
  moreover have nin: "e \<in> set (inorder t) \<and> me_end c \<le> me_base e" if "nxt = Some e" for e
  proof -
    have "e \<in> set (filter (\<lambda>y. me_base c < me_base y) (inorder t))"
      using that unfolding nxt_def hd_opt_def by (cases "filter (\<lambda>y. me_base c < me_base y) (inorder t)") (simp_all only: list.case option.inject list.set_intros, simp)
    then show ?thesis using entries_apart [OF inv c, of e] cl map_inv_parts(4) [OF inv, of e] by fastforce
  qed
  moreover have "from_entry nxt d \<Longrightarrow> me_end c \<le> d" for d
    using nin by (fastforce simp: from_entry_def split: option.splits)
  moreover have "from_entry nxt d" if e: "e \<in> set (inorder t)" "contains d e" and d: "me_end c \<le> d" for e d
  proof -
    have "e \<noteq> c" using e(2) d by (auto simp: contains_def)
    then have "me_base c < me_base e"
      using entries_apart [OF inv c e(1)] e(2) d cl by (fastforce simp: contains_def)
    from first_above [OF map_inv_parts(2) [OF inv] e(1) this] obtain n
      where "nxt = Some n" "me_base n \<le> me_base e" by (auto simp: nxt_def)
    then show ?thesis using e(2) by (auto simp: from_entry_def contains_def)
  qed
  ultimately show ?thesis using that [of nxt] by blast
qed

lemma protect_loop_ok:
  assumes az: "a < z" and lv: "lv \<le> 5" and al: "page_aligned a"
  shows "map_inv (map_tree m) \<Longrightarrow> pt_ok lv (top_level (map_pmap m)) s \<Longrightarrow> vm_kz s = [] \<Longrightarrow>
    \<forall>e. cur = Some e \<longrightarrow> e \<in> set (inorder (map_tree m)) \<Longrightarrow>
    \<forall>e \<in> set (inorder (map_tree m)). from_entry cur (me_base e) \<longrightarrow> can_protect a z prot flags s e \<Longrightarrow>
    card {e \<in> set (inorder (map_tree m)). from_entry cur (me_base e)} < fuel \<Longrightarrow>
    \<exists>t' s'. protect_loop fuel lv m a z prot flags cur s = Inr (YAK_SUCCESS, m\<lparr>map_tree := t'\<rparr>, s') \<and> map_inv t' \<and>
      pt_ok lv (top_level (map_pmap m)) s' \<and> vm_kz s' = [] \<and>
      (\<forall>d. view t' d = (if a \<le> d \<and> d < z \<and> from_entry cur d then map_option (retranslate flags prot) (view (map_tree m) d)
                        else view (map_tree m) d)) \<and>
      (\<forall>d. a \<le> d \<and> d < z \<and> from_entry cur d \<and> view (map_tree m) d \<noteq> None \<longrightarrow>
         protected_pte prot (leaf_pte lv (top_level (map_pmap m)) (vm_tab s') d)) \<and>
      (\<forall>d. \<not> in_page_of lv (map_tree m) (\<lambda>d. a \<le> d \<and> d < z \<and> from_entry cur d) d \<longrightarrow>
         leaf_pte lv (top_level (map_pmap m)) (vm_tab s') d = leaf_pte lv (top_level (map_pmap m)) (vm_tab s) d) \<and>
      (\<forall>d. leaf_pte lv (top_level (map_pmap m)) (vm_tab s') d = leaf_pte lv (top_level (map_pmap m)) (vm_tab s) d \<or>
         protected_pte prot (leaf_pte lv (top_level (map_pmap m)) (vm_tab s') d)) \<and>
      (\<forall>d. pte_paddr (leaf_pte lv (top_level (map_pmap m)) (vm_tab s') d) = pte_paddr (leaf_pte lv (top_level (map_pmap m)) (vm_tab s) d))"
proof (induction fuel arbitrary: m cur s)
  case (Suc fuel)
  let ?root = "top_level (map_pmap m)" and ?t = "map_tree m"
  note inv = Suc.prems(1) and ptok = Suc.prems(2) and kz = Suc.prems(3)
  show ?case
  proof (cases cur)
    case None
    then show ?thesis using inv ptok kz by (intro exI [of _ ?t] exI [of _ s]) (simp add: from_entry_def)
  next
    case (Some c)
    have c: "c \<in> set (inorder ?t)" using Suc.prems(4) Some by simp
    note cl = map_inv_parts(4) [OF inv c]
    have start: "from_entry cur = (\<lambda>d. me_base c \<le> d)" using Some by (simp add: from_entry_def fun_eq_iff)
    show ?thesis
    proof (cases "me_base c < z")
      case False
      then show ?thesis using inv ptok kz Some by (intro exI [of _ ?t] exI [of _ s]) (auto simp: from_entry_def)
    next
      case cz: True
      obtain nxt where nx: "next_entry ?t (Some c) = Inr nxt" "\<And>e. nxt = Some e \<Longrightarrow> e \<in> set (inorder ?t)"
        "\<And>d. from_entry nxt d \<Longrightarrow> me_end c \<le> d"
        "\<And>e d. e \<in> set (inorder ?t) \<Longrightarrow> contains d e \<Longrightarrow> me_end c \<le> d \<Longrightarrow> from_entry nxt d"
        by (rule next_facts [OF inv c]) blast
      have down: "me_base c \<le> d" if "from_entry nxt d" for d
        using nx(3) [OF that] cl by (simp add: order.strict_implies_order order.trans)
      have mapped: "from_entry nxt d" if "view ?t d \<noteq> None" "me_end c \<le> d" for d
        using view_Some [OF inv that(1)] nx(4) that(2) by blast
      have card: "card {e \<in> A. from_entry nxt (me_base e)} < fuel"
        if "\<And>e. e \<in> A \<Longrightarrow> from_entry nxt (me_base e) \<Longrightarrow> e \<in> set (inorder ?t)" for A
      proof -
        have "{e \<in> A. from_entry nxt (me_base e)} \<subset> {e \<in> set (inorder ?t). from_entry cur (me_base e)}"
        proof
          show "{e \<in> A. from_entry nxt (me_base e)} \<subseteq> {e \<in> set (inorder ?t). from_entry cur (me_base e)}"
            using that down by (auto simp: start)
          have "\<not> from_entry nxt (me_base c)" using nx(3) [of "me_base c"] cl by auto
          then show "{e \<in> A. from_entry nxt (me_base e)} \<noteq> {e \<in> set (inorder ?t). from_entry cur (me_base e)}"
            using c by (auto simp: start)
        qed
        then have "card {e \<in> A. from_entry nxt (me_base e)} < card {e \<in> set (inorder ?t). from_entry cur (me_base e)}"
          by (intro psubset_card_mono) auto
        then show ?thesis using Suc.prems(6) by simp
      qed
      show ?thesis
      proof (cases "a < me_end c")
        case False
        have skip: "protect_loop (Suc fuel) lv m a z prot flags cur s = protect_loop fuel lv m a z prot flags nxt s"
          using False cz nx(1) Some by (simp add: not_less)
        have low: "a \<le> d \<and> d < z \<and> from_entry nxt d \<longleftrightarrow> a \<le> d \<and> d < z \<and> from_entry cur d"
          if "view ?t d \<noteq> None" for d
          using mapped [OF that] down [of d] False by (auto simp: start)
        have nx2: "\<forall>e. nxt = Some e \<longrightarrow> e \<in> set (inorder ?t)" using nx(2) by blast
        have "\<forall>e \<in> set (inorder ?t). from_entry nxt (me_base e) \<longrightarrow> can_protect a z prot flags s e"
          using Suc.prems(5) down by (simp add: start)
        from Suc.IH [OF inv ptok kz nx2 this card [of "set (inorder ?t)"]] obtain t' s' where IH:
          "protect_loop fuel lv m a z prot flags nxt s = Inr (YAK_SUCCESS, m\<lparr>map_tree := t'\<rparr>, s')" "map_inv t'"
          "pt_ok lv ?root s'" "vm_kz s' = []"
          "\<forall>d. view t' d = (if a \<le> d \<and> d < z \<and> from_entry nxt d then map_option (retranslate flags prot) (view ?t d)
                            else view ?t d)"
          "\<forall>d. a \<le> d \<and> d < z \<and> from_entry nxt d \<and> view ?t d \<noteq> None \<longrightarrow>
             protected_pte prot (leaf_pte lv ?root (vm_tab s') d)"
          "\<forall>d. leaf_pte lv ?root (vm_tab s') d = leaf_pte lv ?root (vm_tab s) d \<or>
             protected_pte prot (leaf_pte lv ?root (vm_tab s') d)"
          "(\<forall>d. pte_paddr (leaf_pte lv ?root (vm_tab s') d) = pte_paddr (leaf_pte lv ?root (vm_tab s) d))"
          "\<forall>d. \<not> in_page_of lv ?t (\<lambda>d. a \<le> d \<and> d < z \<and> from_entry nxt d) d \<longrightarrow>
             leaf_pte lv ?root (vm_tab s') d = leaf_pte lv ?root (vm_tab s) d" by blast
        have "in_page_of lv ?t (\<lambda>d. a \<le> d \<and> d < z \<and> from_entry nxt d) d \<Longrightarrow>
            in_page_of lv ?t (\<lambda>d. a \<le> d \<and> d < z \<and> from_entry cur d) d" for d
          using low unfolding in_page_of_def by blast
        then have out: "\<forall>d. \<not> in_page_of lv ?t (\<lambda>d. a \<le> d \<and> d < z \<and> from_entry cur d) d \<longrightarrow>
             leaf_pte lv ?root (vm_tab s') d = leaf_pte lv ?root (vm_tab s) d" using IH(9) by blast
        have "view t' d = (if a \<le> d \<and> d < z \<and> from_entry cur d then map_option (retranslate flags prot) (view ?t d)
            else view ?t d)" for d
          using IH(5) low [of d] by (cases "view ?t d = None") auto
        moreover have "\<forall>d. a \<le> d \<and> d < z \<and> from_entry cur d \<and> view ?t d \<noteq> None \<longrightarrow>
             protected_pte prot (leaf_pte lv ?root (vm_tab s') d)"
          using IH(6) low by blast
        ultimately show ?thesis unfolding skip using IH(1-4,7,8) out by blast
      next
        case ac: True
        have can: "can_protect a z prot flags s c" using Suc.prems(5) c by (simp add: start)
        then have can': "page_aligned (me_base c)" "backed s c"
          "flags AND VM_MAP_SETMAXPROT \<noteq> 0 \<or> vm_check_prot (me_max_protection c) prot"
          "me_base c < a \<Longrightarrow> z < me_end c" "z < me_end c \<Longrightarrow> me_type c \<noteq> VM_MAP_ENT_MMIO"
          using cz ac by (auto simp: can_protect_def)
        define x where "x = isolated c a z"
        note iso = isolate_ok [OF inv c kz can'(2) az cz ac can'(4,5), folded x_def]
        from iso(1) obtain t1 s1 where i: "isolate ?t c a z s = Inr (YAK_SUCCESS, t1, s1)" "map_inv t1" "refs_only s s1"
          "x \<in> set (inorder t1)" "\<forall>d. view t1 d = view ?t d"
          "{e \<in> set (inorder t1). me_end c \<le> me_base e} = {e \<in> set (inorder ?t). me_end c \<le> me_base e}" by blast
        have xal: "page_aligned (me_base x)" using iso(2) can'(1) al by (simp add: max_def)
        note pt1 = pt_ok_refs_only [OF i(3) ptok]
        from protect_body_ok [OF i(2,4) pt1 lv xal, of prot flags] obtain t2 s2 where b:
          "protect_body lv prot flags ?root x t1 s1 = Inr (t2, s2)" "map_inv t2"
          "set (inorder t2) = insert (reprotect flags prot x) (set (inorder t1) - {x})"
          "\<forall>d. view t2 d = (if contains d x then map_option (retranslate flags prot) (view t1 d) else view t1 d)"
          "pt_ok lv ?root s2" "pt_step s1 s2"
          "\<forall>d. contains d x \<longrightarrow> protected_pte prot (leaf_pte lv ?root (vm_tab s2) d)"
          "\<forall>d. leaf_pte lv ?root (vm_tab s2) d = leaf_pte lv ?root (vm_tab s1) d \<or>
             protected_pte prot (leaf_pte lv ?root (vm_tab s2) d)"
          "(\<forall>d. pte_paddr (leaf_pte lv ?root (vm_tab s2) d) = pte_paddr (leaf_pte lv ?root (vm_tab s1) d))"
          "\<forall>d. (\<forall>d'. contains d' x \<longrightarrow> \<not> same_page lv d' d) \<longrightarrow>
             leaf_pte lv ?root (vm_tab s2) d = leaf_pte lv ?root (vm_tab s1) d" by blast
        have step: "protect_loop (Suc fuel) lv m a z prot flags cur s =
            protect_loop fuel lv (m\<lparr>map_tree := t2\<rparr>) a z prot flags nxt s2"
          unfolding Some
          by (rule protect_iteration [OF cz nx(1) ac i(1)]) (use can'(3) iso(4) b(1) in \<open>simp_all add: x_def\<close>)
        have xc: "contains d x \<longleftrightarrow> me_base c \<le> d \<and> a \<le> d \<and> d < me_end c \<and> d < z" for d
          using iso(2,3) by (auto simp: contains_def)
        have xlow: "me_base x < me_end c" using iso(2) cl ac by simp
        have same: "e \<in> set (inorder t2) \<longleftrightarrow> e \<in> set (inorder ?t)" if "me_end c \<le> me_base e" for e
        proof -
          have "e \<noteq> x" "e \<noteq> reprotect flags prot x" using that xlow by auto
          then show ?thesis using i(6) that unfolding b(3) by blast
        qed
        have kz2: "vm_kz s2 = []" using kz i(3) b(6) by (simp add: refs_only_def pt_step_def)
        have bk: "backed s2 e = backed s e" for e
          using refs_only_backed [OF i(3)] pt_step_backed [OF b(6)] by simp
        have nin: "e \<in> set (inorder t2)" if "nxt = Some e" for e
        proof -
          have "me_end c \<le> me_base e" using nx(3) [of "me_base e"] that by (simp add: from_entry_def)
          then show ?thesis using same nx(2) [OF that] by blast
        qed
        have can2: "can_protect a z prot flags s2 e" if e: "e \<in> set (inorder t2)" "from_entry nxt (me_base e)" for e
        proof -
          have "e \<in> set (inorder ?t)" using same nx(3) [OF e(2)] e(1) by blast
          then have "can_protect a z prot flags s e" using Suc.prems(5) down [OF e(2)] by (simp add: start)
          then show ?thesis using bk by (simp add: can_protect_def)
        qed
        have card2: "card {e \<in> set (inorder t2). from_entry nxt (me_base e)} < fuel"
          using same nx(3) by (intro card) blast
        have IHp: "map_inv (map_tree (m\<lparr>map_tree := t2\<rparr>))" "pt_ok lv (top_level (map_pmap (m\<lparr>map_tree := t2\<rparr>))) s2"
          using b(2,5) by simp_all
        have IHq: "\<forall>e. nxt = Some e \<longrightarrow> e \<in> set (inorder (map_tree (m\<lparr>map_tree := t2\<rparr>)))"
          "\<forall>e \<in> set (inorder (map_tree (m\<lparr>map_tree := t2\<rparr>))). from_entry nxt (me_base e) \<longrightarrow>
             can_protect a z prot flags s2 e"
          "card {e \<in> set (inorder (map_tree (m\<lparr>map_tree := t2\<rparr>))). from_entry nxt (me_base e)} < fuel"
          using nin can2 card2 by simp_all
        note IH0 = Suc.IH [OF IHp kz2 IHq]
        have eqs: "map_tree (m\<lparr>map_tree := t2\<rparr>) = t2" "map_pmap (m\<lparr>map_tree := t2\<rparr>) = map_pmap m"
          "m\<lparr>map_tree := t2, map_tree := t'\<rparr> = m\<lparr>map_tree := t'\<rparr>" for t'
          by simp_all
        from IH0 [unfolded eqs] obtain t' s' where IH:
          "protect_loop fuel lv (m\<lparr>map_tree := t2\<rparr>) a z prot flags nxt s2 =
             Inr (YAK_SUCCESS, m\<lparr>map_tree := t'\<rparr>, s')" "map_inv t'"
          "pt_ok lv ?root s'" "vm_kz s' = []"
          "\<forall>d. view t' d = (if a \<le> d \<and> d < z \<and> from_entry nxt d then map_option (retranslate flags prot) (view t2 d)
                            else view t2 d)"
          "\<forall>d. a \<le> d \<and> d < z \<and> from_entry nxt d \<and> view t2 d \<noteq> None \<longrightarrow>
             protected_pte prot (leaf_pte lv ?root (vm_tab s') d)"
          "\<forall>d. leaf_pte lv ?root (vm_tab s') d = leaf_pte lv ?root (vm_tab s2) d \<or>
             protected_pte prot (leaf_pte lv ?root (vm_tab s') d)"
          "(\<forall>d. pte_paddr (leaf_pte lv ?root (vm_tab s') d) = pte_paddr (leaf_pte lv ?root (vm_tab s2) d))"
          "\<forall>d. \<not> in_page_of lv t2 (\<lambda>d. a \<le> d \<and> d < z \<and> from_entry nxt d) d \<longrightarrow>
             leaf_pte lv ?root (vm_tab s') d = leaf_pte lv ?root (vm_tab s2) d" by blast
        have notx: "\<not> contains d x" if "from_entry nxt d" for d using nx(3) [OF that] by (simp add: xc not_less)
        have v2: "view t2 d = (if contains d x then map_option (retranslate flags prot) (view ?t d) else view ?t d)" for d
          using b(4) i(5) by simp
        have v: "view t' d = (if a \<le> d \<and> d < z \<and> from_entry cur d then map_option (retranslate flags prot) (view ?t d)
            else view ?t d)" for d
        proof (cases "view ?t d = None")
          case True
          then show ?thesis using IH(5) v2 by simp
        next
          case False
          show ?thesis
          proof (cases "contains d x")
            case True
            then have "a \<le> d \<and> d < z \<and> me_base c \<le> d" "\<not> from_entry nxt d" using notx by (auto simp: xc)
            then show ?thesis using IH(5) v2 True by (simp add: start)
          next
            case nx: False
            then have "a \<le> d \<and> d < z \<Longrightarrow> from_entry nxt d \<longleftrightarrow> me_base c \<le> d"
              using down [of d] mapped [OF False] by (auto simp: xc not_less)
            then show ?thesis using IH(5) v2 nx by (auto simp: start)
          qed
        qed
        have p: "protected_pte prot (leaf_pte lv ?root (vm_tab s') d)"
          if "a \<le> d \<and> d < z \<and> from_entry cur d \<and> view ?t d \<noteq> None" for d
        proof (cases "contains d x")
          case True
          then show ?thesis using b(7) IH(7) by metis
        next
          case False
          then have "me_end c \<le> d" using that by (auto simp: start xc not_less)
          then have "from_entry nxt d" using that mapped by blast
          then show ?thesis using IH(6) that v2 False by simp
        qed
        have "leaf_pte lv ?root (vm_tab s') d = leaf_pte lv ?root (vm_tab s) d \<or>
             protected_pte prot (leaf_pte lv ?root (vm_tab s') d)" for d
          using IH(7) b(8) i(3) unfolding refs_only_def by metis
        moreover have "(\<forall>d. pte_paddr (leaf_pte lv ?root (vm_tab s') d) = pte_paddr (leaf_pte lv ?root (vm_tab s) d))"
          using IH(8) b(9) i(3) by (simp add: refs_only_def)
        moreover have "leaf_pte lv ?root (vm_tab s') d = leaf_pte lv ?root (vm_tab s) d"
          if d: "\<not> in_page_of lv ?t (\<lambda>d. a \<le> d \<and> d < z \<and> from_entry cur d) d" for d
        proof -
          have "\<not> same_page lv d' d" if "contains d' x" for d'
          proof -
            have "contains d' c" "a \<le> d' \<and> d' < z \<and> from_entry cur d'"
              using that unfolding xc start by (simp_all add: contains_def)
            moreover from this(1) have "view ?t d' \<noteq> None" using lookup_iff [OF inv, of d' c] c by (simp add: view_def)
            ultimately show ?thesis using d unfolding in_page_of_def by blast
          qed
          then have "leaf_pte lv ?root (vm_tab s2) d = leaf_pte lv ?root (vm_tab s1) d" using b(10) by blast
          moreover have "\<not> in_page_of lv t2 (\<lambda>d. a \<le> d \<and> d < z \<and> from_entry nxt d) d"
          proof
            assume "in_page_of lv t2 (\<lambda>d. a \<le> d \<and> d < z \<and> from_entry nxt d) d"
            then obtain d' where d': "a \<le> d' \<and> d' < z" "from_entry nxt d'" "view t2 d' \<noteq> None" "same_page lv d' d"
              unfolding in_page_of_def by blast
            then have "view ?t d' \<noteq> None" "me_base c \<le> d'" using v2 [of d'] down by (auto split: if_splits)
            with d d'(1,4) show False unfolding in_page_of_def start by blast
          qed
          ultimately show ?thesis using IH(9) i(3) by (simp add: refs_only_def)
        qed
        ultimately show ?thesis unfolding step using v p IH(1-4) by blast
      qed
    qed
  qed
qed simp

text \<open>The search for the first entry that may overlap.\<close>

lemma first_overlap_ok:
  assumes t: "map_inv t" and ne: "t \<noteq> Null"
  obtains cur where "first_overlap t a = Inr cur" "\<forall>e. cur = Some e \<longrightarrow> e \<in> set (inorder t)"
    "\<forall>e \<in> set (inorder t). \<forall>d. contains d e \<and> a \<le> d \<longrightarrow> from_entry cur d"
proof -
  let ?es = "inorder t"
  have tok: "mtree.tree_ok t" using t by (simp add: map_inv_def)
  have len: "0 < length ?es" using ne by (cases t) auto
  obtain k where k: "k \<le> length ?es" "map_lower_bound t a = at ?es k"
      "\<And>j. j < k \<Longrightarrow> me_base (?es ! j) < a" "k < length ?es \<Longrightarrow> a \<le> me_base (?es ! k)"
    by (rule lower_bound_at [OF t, of a]) blast
  have low: "from_entry (Some (?es ! i)) d"
    if i: "i < length ?es" and before: "\<And>j. j < i \<Longrightarrow> me_end (?es ! j) \<le> a"
      and e: "e \<in> set ?es" "contains d e" "a \<le> d" for i e d
  proof -
    from e(1) obtain j where j: "j < length ?es" "e = ?es ! j" by (metis in_set_conv_nth)
    have "\<not> j < i" using before [of j] e(2,3) j(2) by (auto simp: contains_def)
    then have "me_base (?es ! i) \<le> me_base e"
      using entries_nth(3) [OF t, of i j] j by (cases "i = j") (auto simp: word_le_nat_alt)
    then show ?thesis using e(2) by (auto simp: from_entry_def contains_def)
  qed
  have ends: "me_end (?es ! j) \<le> a" if j: "Suc j < k" for j
  proof -
    have "me_end (?es ! j) \<le> me_base (?es ! Suc j)"
      using entries_nth(1) [OF t, of j "Suc j"] j k(1) by (simp add: word_le_nat_alt)
    then show ?thesis using k(3) [OF j] by simp
  qed
  show ?thesis
  proof (cases "k < length ?es")
    case True
    then have cur: "map_lower_bound t a = Some (?es ! k)" "at ?es k = Some (?es ! k)" using k(2) by (simp_all add: at_def)
    have pv: "prev_entry t (Some (?es ! k)) = Inr (at_prev ?es k)" using prev_at [OF tok True] by (simp add: at_def True)
    show ?thesis
    proof (cases "0 < k \<and> me_end (?es ! (k - 1)) > a")
      case behind: True
      then have f: "first_overlap t a = Inr (Some (?es ! (k - 1)))"
        using cur(1) pv by (simp add: first_overlap_def at_prev_def)
      have i: "k - 1 < length ?es" using True by simp
      show ?thesis
        by (rule that [OF f]) (use i low [OF i] ends in auto)
    next
      case False
      then have f: "first_overlap t a = Inr (Some (?es ! k))"
        using cur(1) pv by (auto simp: first_overlap_def at_prev_def)
      have "me_end (?es ! j) \<le> a" if "j < k" for j
        using ends [of j] that False by (cases "Suc j = k") (auto simp: not_less)
      then show ?thesis by (intro that [OF f]) (use True low [OF True] in auto)
    qed
  next
    case False
    then have kn: "k = length ?es" using k(1) by simp
    have last: "rb_max t = Some (?es ! (k - 1))" using hd_opt_take [of "length ?es" ?es] len kn
      by (simp add: rb_max_eq at_prev_def)
    have i: "k - 1 < length ?es" using kn len by simp
    have pv: "prev_entry t (Some (?es ! (k - 1))) = Inr (at_prev ?es (k - 1))"
      using prev_at [OF tok i] i by (simp add: at_def)
    have bound: "me_end (?es ! j) \<le> a" if "j < k - 1" for j using ends [of j] that by simp
    have f: "first_overlap t a = Inr (Some (?es ! (k - 1)))"
    proof (cases "k - 1 = 0")
      case True
      then show ?thesis using k(2) kn last pv by (simp add: first_overlap_def at_def at_prev_def)
    next
      case False
      then have "\<not> a < me_end (?es ! (k - 1 - 1))" using bound [of "k - 1 - 1"] by (simp add: not_less)
      then show ?thesis using False k(2) kn last pv by (simp add: first_overlap_def at_def at_prev_def)
    qed
    show ?thesis by (rule that [OF f]) (use i low [OF i bound] in auto)
  qed
qed

lemma vm_protect_ok:
  assumes inv: "map_inv (map_tree m)" and pt: "pt_ok lv (top_level (map_pmap m)) s" and lv: "lv \<le> 5"
    and kz: "vm_kz s = []" and lock: "map_lock m = Unlocked" "flags AND VM_MAP_LOCK_HELD = 0"
    and al: "page_aligned a" "page_aligned len" and len: "len \<noteq> 0" "unat a + unat len < 2 ^ 64"
    and can: "\<And>e. e \<in> set (inorder (map_tree m)) \<Longrightarrow> can_protect a (a + len) prot flags s e"
  shows "\<exists>t' s'. vm_protect lv m a len prot flags s = Inr (YAK_SUCCESS, m\<lparr>map_tree := t'\<rparr>, s') \<and> map_inv t' \<and>
      pt_ok lv (top_level (map_pmap m)) s' \<and>
      (\<forall>d. view t' d = (if a \<le> d \<and> d < a + len then map_option (retranslate flags prot) (view (map_tree m) d)
                        else view (map_tree m) d)) \<and>
      (\<forall>d. a \<le> d \<and> d < a + len \<and> view (map_tree m) d \<noteq> None \<longrightarrow>
         protected_pte prot (leaf_pte lv (top_level (map_pmap m)) (vm_tab s') d)) \<and>
      (\<forall>d. \<not> in_page_of lv (map_tree m) (\<lambda>d. a \<le> d \<and> d < a + len) d \<longrightarrow>
         leaf_pte lv (top_level (map_pmap m)) (vm_tab s') d = leaf_pte lv (top_level (map_pmap m)) (vm_tab s) d) \<and>
      (\<forall>d. pte_paddr (leaf_pte lv (top_level (map_pmap m)) (vm_tab s') d) = pte_paddr (leaf_pte lv (top_level (map_pmap m)) (vm_tab s) d))"
proof -
  let ?m = "m\<lparr>map_lock := Exclusive\<rparr>" and ?t = "map_tree m" and ?root = "top_level (map_pmap m)"
  have unlock: "m\<lparr>map_lock := Exclusive, map_tree := t, map_lock := Unlocked\<rparr> = m\<lparr>map_tree := t\<rparr>" for t
    using lock by (cases m) auto
  have az: "a < a + len" using len by (simp add: word_less_nat_alt unat_word_ariths unat_gt_0)
  show ?thesis
  proof (cases "?t = Null")
    case True
    have "m\<lparr>map_lock := Exclusive, map_lock := Unlocked\<rparr> = m\<lparr>map_tree := ?t\<rparr>"
      using lock by (cases m) auto
    then have "vm_protect lv m a len prot flags s = Inr (YAK_SUCCESS, m\<lparr>map_tree := ?t\<rparr>, s)"
      using True al lock by (simp add: vm_protect_def with_exclusive_def rb_empty_def)
    then show ?thesis using inv pt True by (auto simp: view_def)
  next
    case False
    obtain cur where cur: "first_overlap ?t a = Inr cur" "\<forall>e. cur = Some e \<longrightarrow> e \<in> set (inorder ?t)"
      "\<forall>e \<in> set (inorder ?t). \<forall>d. contains d e \<and> a \<le> d \<longrightarrow> from_entry cur d"
      by (rule first_overlap_ok [OF inv False, of a]) blast
    have "card {e \<in> set (inorder ?t). from_entry cur (me_base e)} \<le> card (set (inorder ?t))"
      by (intro card_mono) auto
    also have "\<dots> < loop_fuel ?t" using card_length [of "inorder ?t"] by (simp add: loop_fuel_def)
    finally have fuel: "card {e \<in> set (inorder (map_tree ?m)). from_entry cur (me_base e)} < loop_fuel ?t" by simp
    have prem: "map_inv (map_tree ?m)" "pt_ok lv (top_level (map_pmap ?m)) s"
      "\<forall>e. cur = Some e \<longrightarrow> e \<in> set (inorder (map_tree ?m))"
      "\<forall>e \<in> set (inorder (map_tree ?m)). from_entry cur (me_base e) \<longrightarrow> can_protect a (a + len) prot flags s e"
      using inv pt cur(2) can by simp_all
    have eqs: "map_tree ?m = ?t" "map_pmap ?m = map_pmap m" by simp_all
    from protect_loop_ok [OF az lv al(1) prem(1,2) kz prem(3,4) fuel, unfolded eqs] obtain t' s' where l:
      "protect_loop (loop_fuel ?t) lv ?m a (a + len) prot flags cur s = Inr (YAK_SUCCESS, ?m\<lparr>map_tree := t'\<rparr>, s')"
      "map_inv t'" "pt_ok lv ?root s'"
      "\<forall>d. view t' d = (if a \<le> d \<and> d < a + len \<and> from_entry cur d then map_option (retranslate flags prot) (view ?t d)
                        else view ?t d)"
      "\<forall>d. a \<le> d \<and> d < a + len \<and> from_entry cur d \<and> view ?t d \<noteq> None \<longrightarrow>
         protected_pte prot (leaf_pte lv ?root (vm_tab s') d)"
      "(\<forall>d. pte_paddr (leaf_pte lv ?root (vm_tab s') d) = pte_paddr (leaf_pte lv ?root (vm_tab s) d))"
      "\<forall>d. \<not> in_page_of lv ?t (\<lambda>d. a \<le> d \<and> d < a + len \<and> from_entry cur d) d \<longrightarrow>
         leaf_pte lv ?root (vm_tab s') d = leaf_pte lv ?root (vm_tab s) d" by blast
    have out: "\<forall>d. \<not> in_page_of lv ?t (\<lambda>d. a \<le> d \<and> d < a + len) d \<longrightarrow>
         leaf_pte lv ?root (vm_tab s') d = leaf_pte lv ?root (vm_tab s) d"
      using l(7) unfolding in_page_of_def by blast
    have start: "from_entry cur d" if "view ?t d \<noteq> None" "a \<le> d" for d
      using view_Some [OF inv that(1)] cur(3) that(2) by blast
    have "vm_protect lv m a len prot flags s = Inr (YAK_SUCCESS, m\<lparr>map_tree := t'\<rparr>, s')"
      using False al lock cur(1) l(1) by (simp add: vm_protect_def with_exclusive_def rb_empty_def unlock)
    moreover have "view t' d = (if a \<le> d \<and> d < a + len then map_option (retranslate flags prot) (view ?t d)
        else view ?t d)" for d
      using l(4) start [of d] by (cases "view ?t d = None") auto
    ultimately show ?thesis using l(2,3,5,6) start out by blast
  qed
qed
end
