(* ===== verification/FaultFacts.thy ===== *)
theory FaultFacts
  imports Fault MapProtect
begin

text \<open>
  Copy on write: what \<open>vm_handle_fault\<close> does to a page that is shared, and that no other address space
  notices it.
\<close>

section \<open>Pages\<close>

lemma owned_pfn:
  assumes "pmm_inv pm" "n \<in> owned_pages pm"
  shows "\<exists>p. pm_pages pm n = Some p \<and> pg_pfn p = n"
  using held_pfn [of pm n 0] assms by (auto simp: owned_pages_def pmm_inv_def)

lemma vm_pagealloc_known:
  assumes inv: "pmm_inv pm" and a: "vm_pagealloc owner off pm = Inr (Some n, pm')"
  shows "pm_pages pm n \<noteq> None"
proof -
  obtain r pm1 where r: "pmm_alloc_order 0 pm = Inr (r, pm1)" using pages.p_alloc [OF inv] by blast
  then have "r = Some n" using a by (auto simp: vm_pagealloc_def bindR_Inr_iff split: option.splits)
  then show ?thesis using pmm_alloc_order_ok [of pm 0] inv r by (auto simp: BUDDY_ORDERS_def pmm_inv_def)
qed

lemma tree_ok_mono: "tree_ok lv root tab S \<Longrightarrow> S \<subseteq> S' \<Longrightarrow> tree_ok lv root tab S'"
  unfolding tree_ok_def by blast

text \<open>\<open>same_but_pages s s'\<close>: only the page allocator and the bytes of memory differ.\<close>

lemma page_alloc_ok:
  assumes pt: "pt_ok lv root s"
  shows "\<exists>r s'. page_alloc owner off s = Inr (r, s') \<and> pt_ok lv root s' \<and> s' = set_pmm (vm_pmm s') s \<and>
     (r = None \<longleftrightarrow> free_pages (vm_pmm s) = 0) \<and> free_pages (vm_pmm s') = free_pages (vm_pmm s) - 1 \<and> managed s' = managed s \<and>
     (case r of None \<Rightarrow> True
      | Some n \<Rightarrow> n \<notin> owned_pages (vm_pmm s) \<and> owned_pages (vm_pmm s') = insert n (owned_pages (vm_pmm s)) \<and>
          (\<exists>p. pm_pages (vm_pmm s') n = Some p \<and> pg_pfn p = n) \<and>
          (\<forall>m \<in> owned_pages (vm_pmm s). offset_of (vm_pmm s') m = offset_of (vm_pmm s) m))"
proof -
  have inv: "pmm_inv (vm_pmm s)" and fit: "frames_fit (vm_pmm s)"
    and tree: "tree_ok lv root (vm_tab s) (owned_pages (vm_pmm s))" and lv: "0 < lv"
    using pt by (auto simp: pt_ok_def)
  obtain r pm' where a: "vm_pagealloc owner off (vm_pmm s) = Inr (r, pm')" "pmm_inv pm'"
     "case r of
        None \<Rightarrow> owned_pages pm' = owned_pages (vm_pmm s)
      | Some n \<Rightarrow> n \<notin> owned_pages (vm_pmm s) \<and> owned_pages pm' = insert n (owned_pages (vm_pmm s)) \<and>
          (\<exists>p. pm_pages pm' n = Some p \<and> pg_pfn p = n \<and> pg_offset p = off) \<and>
          (\<forall>m. m \<noteq> n \<longrightarrow> offset_of pm' m = offset_of (vm_pmm s) m)"
    using vm_pagealloc_ok [OF inv, of owner off] by blast
  note free = vm_pagealloc_free [OF a(1) inv]
  have dom: "managed (set_pmm pm' s) = managed s" using free(3) by (simp add: managed_def)
  show ?thesis
  proof (cases r)
    case None
    have "pm' = vm_pmm s \<or> frames_fit pm'"
    proof -
      obtain r1 pm1 where r1: "pmm_alloc_order 0 (vm_pmm s) = Inr (r1, pm1)" using pages.p_alloc [OF inv] by blast
      then have r: "r1 = None" "pm' = pm1"
        using a(1) None by (auto simp: vm_pagealloc_def bindR_Inr_iff split: option.splits)
      have "pm_pages pm1 = pm_pages (vm_pmm s)"
        using pmm_alloc_order_ok [of "vm_pmm s" 0] inv r1 r by (auto simp: BUDDY_ORDERS_def pmm_inv_def)
      then show ?thesis using r fit by (simp add: frames_fit_def)
    qed
    then have "pt_ok lv root (set_pmm pm' s)" using a None tree lv fit by (auto simp: pt_ok_def)
    then show ?thesis using a(1) None free(1,2) dom
      by (intro exI [of _ None] exI [of _ "set_pmm pm' s"]) (simp add: page_alloc_def)
  next
    case (Some n)
    then have n: "n \<notin> owned_pages (vm_pmm s)" "owned_pages pm' = insert n (owned_pages (vm_pmm s))"
      "\<exists>p. pm_pages pm' n = Some p \<and> pg_pfn p = n" "\<forall>m. m \<noteq> n \<longrightarrow> offset_of pm' m = offset_of (vm_pmm s) m"
      using a(3) by auto
    have n40: "n < 2 ^ 40" using vm_pagealloc_known [OF inv] a(1) Some fit by (auto simp: frames_fit_def)
    have "m < 2 ^ 40" if q: "pm_pages pm' m = Some q" for m q
    proof (cases "m = n")
      case False
      then have "offset_of (vm_pmm s) m = Some (pg_offset q)" using n(4) q by (metis offset_of_def option.map(2))
      then show ?thesis using fit by (auto simp: offset_of_def frames_fit_def)
    qed (use n40 in simp)
    then have "frames_fit pm'" by (simp add: frames_fit_def)
    then have "pt_ok lv root (set_pmm pm' s)"
      using a(2) lv n(2) tree_ok_mono [OF tree, of "owned_pages pm'"] by (auto simp: pt_ok_def)
    moreover have "\<forall>m \<in> owned_pages (vm_pmm s). offset_of pm' m = offset_of (vm_pmm s) m" using n(1,4) by metis
    ultimately show ?thesis using a(1) Some n free(1,2) dom
      by (intro exI [of _ "Some n"] exI [of _ "set_pmm pm' s"]) (simp add: page_alloc_def)
  qed
qed

text \<open>Copying into a fresh page.\<close>

definition fresh_copy :: "nat \<Rightarrow> nat \<Rightarrow> vm \<Rightarrow> vm \<Rightarrow> bool" where
  "fresh_copy n src s s' \<longleftrightarrow> n \<notin> owned_pages (vm_pmm s) \<and>
     owned_pages (vm_pmm s') = insert n (owned_pages (vm_pmm s)) \<and>
     vm_mem s' = (vm_mem s)(n := vm_mem s src) \<and> vm_tab s' = vm_tab s \<and> vm_objs s' = vm_objs s \<and>
     vm_amaps s' = vm_amaps s \<and> vm_kz s' = vm_kz s \<and>
     (\<forall>m \<in> owned_pages (vm_pmm s). offset_of (vm_pmm s') m = offset_of (vm_pmm s) m)"

lemma anon_of_copy:
  fixes owner :: "nat option" and off aoff :: u64
  assumes pt: "pt_ok lv root s" and src: "src \<in> owned_pages (vm_pmm s)" and kz: "vm_kz s = []"
  defines "res \<equiv> bindR (page_alloc owner off s) (\<lambda>(dest, s1).
     bindR (copy_page dest (Some src) s1) (vm_anon_create dest aoff))"
  shows "res = Inl NullDeref \<and> free_pages (vm_pmm s) = 0 \<or>
    (\<exists>n s'. res = Inr (vm_next s, s') \<and> pt_ok lv root s' \<and> fresh_copy n src s s' \<and> vm_next s' = vm_next s + 1 \<and>
       free_pages (vm_pmm s') + 1 = free_pages (vm_pmm s) \<and> managed s' = managed s \<and>
       vm_anons s' = (vm_anons s)(vm_next s \<mapsto>
         \<lparr>an_locked = False, an_page = Some n, an_offset = aoff, an_refcnt = 1\<rparr>))"
proof -
  obtain r s1 where a: "page_alloc owner off s = Inr (r, s1)" "pt_ok lv root s1" "s1 = set_pmm (vm_pmm s1) s"
     "case r of None \<Rightarrow> True
      | Some n \<Rightarrow> n \<notin> owned_pages (vm_pmm s) \<and> owned_pages (vm_pmm s1) = insert n (owned_pages (vm_pmm s)) \<and>
          (\<exists>p. pm_pages (vm_pmm s1) n = Some p \<and> pg_pfn p = n) \<and>
          (\<forall>m \<in> owned_pages (vm_pmm s). offset_of (vm_pmm s1) m = offset_of (vm_pmm s) m)"
     "r = None \<longleftrightarrow> free_pages (vm_pmm s) = 0" "free_pages (vm_pmm s1) = free_pages (vm_pmm s) - 1" "managed s1 = managed s"
    using page_alloc_ok [OF pt, of owner off] by (elim exE conjE) (rule that)
  have same: "vm_mem s1 = vm_mem s" "vm_tab s1 = vm_tab s" "vm_objs s1 = vm_objs s" "vm_anons s1 = vm_anons s"
    "vm_amaps s1 = vm_amaps s" "vm_next s1 = vm_next s" "vm_kz s1 = vm_kz s"
    by (subst a(3), simp add: set_pmm_def)+
  show ?thesis
  proof (cases r)
    case None
    then show ?thesis using a(1,5) by (simp add: res_def copy_page_def)
  next
    case (Some n)
    then have n: "n \<notin> owned_pages (vm_pmm s)" "owned_pages (vm_pmm s1) = insert n (owned_pages (vm_pmm s))"
      "\<forall>m \<in> owned_pages (vm_pmm s). offset_of (vm_pmm s1) m = offset_of (vm_pmm s) m"
      using a(4) by auto
    obtain p where p: "pm_pages (vm_pmm s1) n = Some p" "pg_pfn p = n" using a(4) Some by auto
    have "pmm_inv (vm_pmm s1)" "src \<in> owned_pages (vm_pmm s1)" using a(2) n(2) src by (auto simp: pt_ok_def)
    then obtain q where q: "pm_pages (vm_pmm s1) src = Some q" "pg_pfn q = src" using owned_pfn by blast
    define s2 where "s2 = s1\<lparr>vm_phys := vm_phys s1\<lparr>ph_mem := (vm_mem s1)(n := vm_mem s1 src)\<rparr>\<rparr>"
    have cp: "copy_page (Some n) (Some src) s1 = Inr s2"
      using p q by (simp add: copy_page_def page_at_def s2_def)
    define s3 where "s3 = put_anon (vm_next s) \<lparr>an_locked = False, an_page = Some n, an_offset = aoff, an_refcnt = 1\<rparr>
      (s2\<lparr>vm_next := vm_next s + 1\<rparr>)"
    have "vm_kz s2 = []" using kz same by (simp add: s2_def)
    then have "vm_anon_create (Some n) aoff s2 = Inr (vm_next s, s3)"
      using same by (simp add: vm_anon_create_def s3_def s2_def)
    then have "res = Inr (vm_next s, s3)" using a(1) Some cp by (simp add: res_def)
    moreover have "pt_ok lv root s3" using a(2) by (simp add: pt_ok_def s3_def s2_def)
    moreover have "fresh_copy n src s s3" using n same by (simp add: fresh_copy_def s3_def s2_def)
    moreover have "free_pages (vm_pmm s3) + 1 = free_pages (vm_pmm s)" "managed s3 = managed s"
      using a(5-7) Some by (simp_all add: s3_def s2_def managed_def)
    ultimately show ?thesis using same by (intro disjI2 exI [of _ n] exI [of _ s3]) (simp add: s3_def s2_def)
  qed
qed

lemma vm_anon_copy_ok:
  assumes pt: "pt_ok lv root s" and an: "vm_anons s a = Some an" "an_page an = Some src"
    and src: "src \<in> owned_pages (vm_pmm s)" and kz: "vm_kz s = []"
  shows "vm_anon_copy a s = Inl NullDeref \<and> free_pages (vm_pmm s) = 0 \<or>
    (\<exists>n s'. vm_anon_copy a s = Inr (vm_next s, s') \<and> pt_ok lv root s' \<and> fresh_copy n src s s' \<and>
       vm_next s' = vm_next s + 1 \<and> free_pages (vm_pmm s') + 1 = free_pages (vm_pmm s) \<and> managed s' = managed s \<and>
       vm_anons s' = (vm_anons s)(vm_next s \<mapsto>
         \<lparr>an_locked = False, an_page = Some n, an_offset = an_offset an, an_refcnt = 1\<rparr>))"
proof -
  obtain q where q: "pm_pages (vm_pmm s) src = Some q"
    using owned_pfn [of "vm_pmm s" src] src pt by (auto simp: pt_ok_def)
  have "vm_anon_copy a s = bindR (page_alloc (pg_vmobj q) (pg_offset q) s) (\<lambda>(dest, s1).
     bindR (copy_page dest (Some src) s1) (vm_anon_create dest (an_offset an)))"
    using an q by (simp add: vm_anon_copy_def page_at_def anon_at_def)
  then show ?thesis using anon_of_copy [OF pt src kz, of "pg_vmobj q" "pg_offset q" "an_offset an"] by simp
qed

section \<open>Mapping a page\<close>

lemma map_page_ok:
  assumes pt: "pt_ok lv root s" and n: "n \<in> owned_pages (vm_pmm s)" and prot: "prot AND VM_READ \<noteq> 0"
  shows "map_page lv root va (Some n) prot cache s = Inl AssertFail \<and> short_of_pages (missing_tables lv root (vm_tab s) va) s \<or>
    (\<exists>s'. map_page lv root va (Some n) prot cache s = Inr s' \<and> pt_ok lv root s' \<and> pt_step s s' \<and>
       free_pages (vm_pmm s') + missing_tables lv root (vm_tab s) va = free_pages (vm_pmm s) \<and>
       leaf_pte lv root (vm_tab s') va = pte_make 0 (of_nat (n * 4096)) prot cache \<and>
       (\<forall>va'. \<not> same_page lv va va' \<longrightarrow>
          leaf_pte lv root (vm_tab s') va' = leaf_pte lv root (vm_tab s) va'))"
proof -
  obtain p where p: "pm_pages (vm_pmm s) n = Some p" "pg_pfn p = n" using owned_pfn n pt by (auto simp: pt_ok_def)
  have "map_page lv root va (Some n) prot cache s = pmap_map lv root va (of_nat (n * 4096)) 0 prot cache s"
    using p by (simp add: map_page_def page_at_def page_to_addr_def PAGE_SHIFT_def)
  then show ?thesis using pmap_map_ok [OF pt prot, of va "of_nat (n * 4096)" cache] by simp
qed


section \<open>Copy on write\<close>

lemma amap_flags: "VM_AMAP_LOCKED AND VM_AMAP_CREATE = 0" "VM_AMAP_LOCKED AND VM_AMAP_DONT_LOCK_ANON = 0"
  "VM_AMAP_LOCKED AND VM_AMAP_LOCKED \<noteq> 0" "(VM_AMAP_CREATE OR VM_AMAP_LOCKED) AND VM_AMAP_CREATE \<noteq> 0"
  "(VM_AMAP_CREATE OR VM_AMAP_LOCKED) AND VM_AMAP_DONT_LOCK_ANON = 0"
  by (simp_all add: VM_AMAP_LOCKED_def VM_AMAP_CREATE_def VM_AMAP_DONT_LOCK_ANON_def)

text \<open>The slot of the faulting page holds anon \<open>a\<close>, whose page the amap's owners have.\<close>

definition holds_anon :: "vm \<Rightarrow> nat \<Rightarrow> u64 \<Rightarrow> vm_amap \<Rightarrow> nat \<Rightarrow> vm_anon \<Rightarrow> nat \<Rightarrow> bool" where
  "holds_anon s m off am a an pg \<longleftrightarrow> vm_amaps s m = Some am \<and> slot_get am (slot_of off) = Some a \<and>
     vm_anons s a = Some an \<and> \<not> an_locked an \<and> an_page an = Some pg \<and> pg \<in> owned_pages (vm_pmm s)"

lemma cow_fault_found:
  assumes h: "holds_anon s m off am a an pg" and ent: "me_amap ent = Some m"
  defines "s1 \<equiv> put_anon a (an\<lparr>an_locked := True\<rparr>) s"
  shows "cow_fault lv root va ent oid off fl s =
     map_anon lv root va ent m (Some (slot_of off)) fl a s1" "vm_anons s1 a = Some (an\<lparr>an_locked := True\<rparr>)"
proof -
  have h': "vm_amaps s m = Some am" "slot_get am (slot_of off) = Some a" "vm_anons s a = Some an"
    "\<not> an_locked an" "an_page an = Some pg" using h by (auto simp: holds_anon_def)
  have "vm_amap_lookup m off VM_AMAP_LOCKED s = Inr (Some (slot_of off), s1)"
    using lookup_existing [OF h'(1) amap_flags(1,2), of off] h' by (simp add: lock_anon_def anon_at_def s1_def)
  moreover have "slot_value m (Some (slot_of off)) s1 = Inr (Some a)"
    using h'(1,2) by (simp add: slot_value_def amap_at_def s1_def)
  moreover have "anon_at a s1 = Inr (an\<lparr>an_locked := True\<rparr>)" by (simp add: anon_at_def s1_def)
  ultimately show "cow_fault lv root va ent oid off fl s = map_anon lv root va ent m (Some (slot_of off)) fl a s1"
    using ent h'(5) by (simp add: cow_fault_def del: anon_at_Inr amap_at_Inr)
  show "vm_anons s1 a = Some (an\<lparr>an_locked := True\<rparr>)" by (simp add: s1_def)
qed

lemma put_anon_pt [simp]: "pt_ok lv root (put_anon a an s) = pt_ok lv root s"
  by (simp add: pt_ok_def)

lemma put_amap_pt [simp]: "pt_ok lv root (put_amap m am s) = pt_ok lv root s"
  by (simp add: pt_ok_def)

text \<open>A write to a page that other address spaces share: the writer gets a copy in a page of its own
  at that offset of its amap, mapped with the entry's rights; the shared page keeps its contents and
  loses the writer's reference.\<close>

lemma cow_write:
  assumes pt: "pt_ok lv root s" and h: "holds_anon s m off am a an pg" and ent: "me_amap ent = Some m"
    and shared: "1 < an_refcnt an" and kz: "vm_kz s = []" and new: "vm_anons s (vm_next s) = None"
    and fl: "fl AND VM_FAULT_READ = 0" "fl AND VM_FAULT_WRITE \<noteq> 0" and prot: "me_protection ent AND VM_READ \<noteq> 0"
  defines "c \<equiv> vm_next s"
  shows "cow_fault lv root va ent oid off fl s = Inl NullDeref \<and> free_pages (vm_pmm s) = 0 \<or>
    cow_fault lv root va ent oid off fl s = Inl AssertFail \<and>
      short_of_pages (1 + missing_tables lv root (vm_tab s) va) s \<or>
    (\<exists>n s' am'. cow_fault lv root va ent oid off fl s = Inr s' \<and> pt_ok lv root s' \<and>
       free_pages (vm_pmm s') + 1 + missing_tables lv root (vm_tab s) va = free_pages (vm_pmm s) \<and>
       n \<notin> owned_pages (vm_pmm s) \<and> n \<in> owned_pages (vm_pmm s') \<and> vm_mem s' n = vm_mem s pg \<and>
       (\<forall>q \<in> owned_pages (vm_pmm s). vm_mem s' q = vm_mem s q) \<and>
       vm_amaps s' = (vm_amaps s)(m \<mapsto> am') \<and>
       (\<forall>sl. slot_get am' sl = (if sl = slot_of off then Some c else slot_get am sl)) \<and>
       vm_anons s' = (vm_anons s)(a \<mapsto> an\<lparr>an_refcnt := an_refcnt an - 1\<rparr>,
         c \<mapsto> \<lparr>an_locked = False, an_page = Some n, an_offset = an_offset an, an_refcnt = 1\<rparr>) \<and>
       leaf_pte lv root (vm_tab s') va = pte_make 0 (of_nat (n * 4096)) (me_protection ent) (me_cache ent))"
proof -
  have h': "vm_amaps s m = Some am" "slot_get am (slot_of off) = Some a" "vm_anons s a = Some an"
    "\<not> an_locked an" "an_page an = Some pg" "pg \<in> owned_pages (vm_pmm s)" using h by (auto simp: holds_anon_def)
  define s1 where "s1 = put_anon a (an\<lparr>an_locked := True\<rparr>) s"
  have ca: "c \<noteq> a" using new h'(3) by (auto simp: c_def)
  note found = cow_fault_found(1) [OF h ent, folded s1_def, of lv root va oid fl]
    cow_fault_found(2) [OF h ent, folded s1_def]
  have s1: "pt_ok lv root s1" "pg \<in> owned_pages (vm_pmm s1)" "vm_kz s1 = []" "vm_next s1 = c"
    using pt h' kz by (simp_all add: s1_def c_def)
  have pg1: "an_page (an\<lparr>an_locked := True\<rparr>) = Some pg" using h' by simp
  have start: "cow_fault lv root va ent oid off fl s =
      bindR (unshare m (Some (slot_of off)) fl (me_protection ent) a s1) (\<lambda>(anon', prot, s1).
      bindR (anon_at anon' s1) (\<lambda>an'.
      bindR (map_page lv root va (an_page an') prot (me_cache ent) s1) (unlock_anon anon')))"
    using found shared by (simp add: map_anon_def anon_at_def)
  from vm_anon_copy_ok [OF s1(1) found(2) pg1 s1(2,3)] consider
      "vm_anon_copy a s1 = Inl NullDeref" "free_pages (vm_pmm s1) = 0"
    | n s2 where "vm_anon_copy a s1 = Inr (c, s2)" "pt_ok lv root s2" "fresh_copy n pg s1 s2" "vm_next s2 = c + 1"
      "free_pages (vm_pmm s2) + 1 = free_pages (vm_pmm s1)" "managed s2 = managed s1"
      "vm_anons s2 = (vm_anons s1)(c \<mapsto> \<lparr>an_locked = False, an_page = Some n, an_offset = an_offset an, an_refcnt = 1\<rparr>)"
    unfolding s1(4) by auto
  then show ?thesis
  proof cases
    case 1
    then show ?thesis using fl by (simp add: start unshare_def) (simp add: s1_def)
  next
    case (2 n s2)
    define am' where "am' = slot_put am (slot_of off) (Some c)"
    have fr: "n \<notin> owned_pages (vm_pmm s)" "owned_pages (vm_pmm s2) = insert n (owned_pages (vm_pmm s))"
      "vm_mem s2 = (vm_mem s)(n := vm_mem s pg)" "vm_amaps s2 = vm_amaps s"
      using 2(3) by (simp_all add: fresh_copy_def s1_def)
    define new_an where "new_an = \<lparr>an_locked = False, an_page = Some n, an_offset = an_offset an, an_refcnt = 1\<rparr>"
    define s3 where "s3 = put_anon a (an\<lparr>an_refcnt := an_refcnt an - 1\<rparr>) (put_amap m am' s2)"
    define s4 where "s4 = put_anon c (new_an\<lparr>an_locked := True\<rparr>) s3"
    have an2: "vm_anons s2 a = Some (an\<lparr>an_locked := True\<rparr>)" "vm_anons s2 c = Some new_an"
      using 2(7) ca found(2) by (simp_all add: new_an_def)
    have der: "vm_anon_deref a (put_amap m am' s2) =
        Inr (put_anon a (an\<lparr>an_locked := True, an_refcnt := an_refcnt an - 1\<rparr>) (put_amap m am' s2))"
      using an2(1) shared by (simp add: vm_anon_deref_def anon_at_def Let_def)
    have unl: "unlock_anon a (put_anon a (an\<lparr>an_locked := True, an_refcnt := an_refcnt an - 1\<rparr>) (put_amap m am' s2)) =
        Inr s3"
      using h'(4) by (cases an) (simp add: unlock_anon_def anon_at_def s3_def put_anon_def)
    have lck: "lock_anon c s3 = Inr s4"
      using an2(2) ca by (simp add: lock_anon_def anon_at_def s3_def s4_def new_an_def)
    have am2: "vm_amaps s2 m = Some am" using fr(4) h'(1) by simp
    have un: "unshare m (Some (slot_of off)) fl (me_protection ent) a s1 = Inr (c, me_protection ent, s4)"
      using fl 2(1) der unl lck am2 by (simp add: unshare_def am'_def amap_at_def)
    have at4: "vm_anons s4 c = Some (new_an\<lparr>an_locked := True\<rparr>)" by (simp add: s4_def)
    have pt4: "pt_ok lv root s4" using 2(2) by (simp add: s4_def s3_def)
    have n4: "n \<in> owned_pages (vm_pmm s4)" using fr(2) by (simp add: s4_def s3_def)
    have same4: "vm_tab s4 = vm_tab s" "managed s4 = managed s" "free_pages (vm_pmm s4) + 1 = free_pages (vm_pmm s)"
      using 2(3,5,6) by (simp_all add: s4_def s3_def s1_def fresh_copy_def managed_def)
    from map_page_ok [OF pt4 n4 prot, of va "me_cache ent"] show ?thesis
    proof (elim disjE exE conjE)
      assume "map_page lv root va (Some n) (me_protection ent) (me_cache ent) s4 = Inl AssertFail"
        "short_of_pages (missing_tables lv root (vm_tab s4) va) s4"
      then show ?thesis using un at4 same4 by (simp add: start new_an_def anon_at_def) (auto simp: short_of_pages_def)
    next
      fix s5
      assume mp: "map_page lv root va (Some n) (me_protection ent) (me_cache ent) s4 = Inr s5" "pt_ok lv root s5"
        "pt_step s4 s5" "leaf_pte lv root (vm_tab s5) va = pte_make 0 (of_nat (n * 4096)) (me_protection ent) (me_cache ent)"
        "free_pages (vm_pmm s5) + missing_tables lv root (vm_tab s4) va = free_pages (vm_pmm s4)"
      have an5: "vm_anons s5 = vm_anons s4" "vm_amaps s5 = vm_amaps s4" using mp(3) by (simp_all add: pt_step_def)
      define s6 where "s6 = put_anon c new_an s5"
      have "unlock_anon c s5 = Inr s6"
        using an5 by (simp add: unlock_anon_def anon_at_def s4_def s6_def new_an_def)
      then have "cow_fault lv root va ent oid off fl s = Inr s6"
        using un at4 mp(1) by (simp add: start new_an_def anon_at_def)
      moreover have "vm_mem s6 q = (if q = n then vm_mem s pg else vm_mem s q)" if "q \<in> owned_pages (vm_pmm s4)" for q
        using mp(3) that fr(3) by (auto simp: pt_step_def s6_def s4_def s3_def)
      then have "vm_mem s6 n = vm_mem s pg" "\<forall>q \<in> owned_pages (vm_pmm s). vm_mem s6 q = vm_mem s q"
        using n4 fr(1,2) by (auto simp: s4_def s3_def)
      moreover have "n \<in> owned_pages (vm_pmm s6)" using mp(3) n4 by (auto simp: pt_step_def s6_def)
      moreover have "slot_get am' sl = (if sl = slot_of off then Some c else slot_get am sl)" for sl
        using slot_put_get_has [OF slot_has [of am "slot_of off"]] h'(2) by (auto simp: am'_def)
      moreover have "vm_amaps s6 = (vm_amaps s)(m \<mapsto> am')" using an5 fr(4) by (simp add: s6_def s4_def s3_def)
      moreover have "vm_anons s6 = (vm_anons s)(a \<mapsto> an\<lparr>an_refcnt := an_refcnt an - 1\<rparr>, c \<mapsto> new_an)"
        using an5 2(7) by (auto simp: s6_def s4_def s3_def s1_def fun_eq_iff)
      moreover have "free_pages (vm_pmm s6) + 1 + missing_tables lv root (vm_tab s) va = free_pages (vm_pmm s)"
        using mp(5) same4 by (simp add: s6_def)
      ultimately show ?thesis using mp(2,4) fr(1)
        by (intro disjI2 exI [of _ n] exI [of _ s6] exI [of _ am']) (simp add: new_an_def s6_def)
    qed
  qed
qed

text \<open>A read of a shared page maps it without write access, whatever the entry's rights.\<close>

lemma cow_read:
  assumes pt: "pt_ok lv root s" and h: "holds_anon s m off am a an pg" and ent: "me_amap ent = Some m"
    and shared: "1 < an_refcnt an" and fl: "fl AND VM_FAULT_READ \<noteq> 0" and prot: "me_protection ent AND VM_READ \<noteq> 0"
  shows "cow_fault lv root va ent oid off fl s = Inl AssertFail \<and> short_of_pages (missing_tables lv root (vm_tab s) va) s \<or>
    (\<exists>s'. cow_fault lv root va ent oid off fl s = Inr s' \<and> pt_ok lv root s' \<and> pt_step s s' \<and>
       leaf_pte lv root (vm_tab s') va =
         pte_make 0 (of_nat (pg * 4096)) (me_protection ent AND NOT VM_WRITE) (me_cache ent))"
proof -
  have h': "vm_anons s a = Some an" "\<not> an_locked an" "an_page an = Some pg" "pg \<in> owned_pages (vm_pmm s)"
    using h by (auto simp: holds_anon_def)
  define s1 where "s1 = put_anon a (an\<lparr>an_locked := True\<rparr>) s"
  note found = cow_fault_found(1) [OF h ent, folded s1_def, of lv root va oid fl]
    cow_fault_found(2) [OF h ent, folded s1_def]
  let ?prot = "me_protection ent AND NOT VM_WRITE"
  have "VM_READ AND NOT VM_WRITE = VM_READ" by (simp add: VM_READ_def VM_WRITE_def)
  then have "?prot AND VM_READ = me_protection ent AND VM_READ" by (metis and.commute and.left_commute)
  then have pr: "?prot AND VM_READ \<noteq> 0" using prot by simp
  have start: "cow_fault lv root va ent oid off fl s =
      bindR (map_page lv root va (Some pg) ?prot (me_cache ent) s1) (unlock_anon a)"
    using found shared fl h'(3) by (simp add: map_anon_def anon_at_def unshare_def)
  have "pt_ok lv root s1" "pg \<in> owned_pages (vm_pmm s1)" using pt h' by (simp_all add: s1_def)
  from map_page_ok [OF this pr, of va "me_cache ent"] show ?thesis
  proof (elim disjE exE conjE)
    assume "map_page lv root va (Some pg) ?prot (me_cache ent) s1 = Inl AssertFail"
      "short_of_pages (missing_tables lv root (vm_tab s1) va) s1"
    then show ?thesis by (simp add: start) (simp add: short_of_pages_def managed_def s1_def)
  next
    fix s2
    assume mp: "map_page lv root va (Some pg) ?prot (me_cache ent) s1 = Inr s2" "pt_ok lv root s2" "pt_step s1 s2"
      "leaf_pte lv root (vm_tab s2) va = pte_make 0 (of_nat (pg * 4096)) ?prot (me_cache ent)"
    have an2: "vm_anons s2 = vm_anons s1" using mp(3) by (simp add: pt_step_def)
    then have unl: "unlock_anon a s2 = Inr (put_anon a an s2)"
      using h'(2) by (cases an) (simp add: unlock_anon_def anon_at_def s1_def)
    have "vm_anons (put_anon a an s2) = vm_anons s"
      using an2 h'(1) by (auto simp: s1_def fun_eq_iff)
    then have "pt_step s (put_anon a an s2)" using mp(3) by (auto simp: pt_step_def s1_def)
    then show ?thesis using mp(1,2,4) unl by (intro disjI2 exI [of _ "put_anon a an s2"]) (simp add: start)
  qed
qed

text \<open>The first write to a page that only the object has: the object's page is copied into a new anon
  and keeps its contents.\<close>

lemma cow_first_write:
  assumes pt: "pt_ok lv root s" and am: "vm_amaps s m = Some am" "slot_get am (slot_of off) = None"
    and ent: "me_amap ent = Some m" and kz: "vm_kz s = []"
    and new: "\<And>i. vm_next s \<le> i \<Longrightarrow> vm_anons s i = None"
    and obj: "vm_objs s oid = Some obj" "ptree.tree_ok (memq obj)" "(off, pg) \<in> set (inorder (memq obj))"
      "pg \<in> owned_pages (vm_pmm s)"
    and fl: "fl AND VM_FAULT_WRITE \<noteq> 0" and prot: "me_protection ent AND VM_READ \<noteq> 0"
  shows "cow_fault lv root va ent oid off fl s = Inl NullDeref \<and> free_pages (vm_pmm s) = 0 \<or>
    cow_fault lv root va ent oid off fl s = Inl AssertFail \<and>
      short_of_pages (1 + missing_tables lv root (vm_tab s) va) s \<or>
    (\<exists>n c s' am'. cow_fault lv root va ent oid off fl s = Inr s' \<and> pt_ok lv root s' \<and>
       free_pages (vm_pmm s') + 1 + missing_tables lv root (vm_tab s) va = free_pages (vm_pmm s) \<and>
       n \<notin> owned_pages (vm_pmm s) \<and> n \<in> owned_pages (vm_pmm s') \<and> vm_mem s' n = vm_mem s pg \<and>
       (\<forall>q \<in> owned_pages (vm_pmm s). vm_mem s' q = vm_mem s q) \<and> vm_objs s' = vm_objs s \<and>
       vm_amaps s' = (vm_amaps s)(m \<mapsto> am') \<and>
       (\<forall>sl. slot_get am' sl = (if sl = slot_of off then Some c else slot_get am sl)) \<and>
       vm_anons s' = (vm_anons s)(c \<mapsto> \<lparr>an_locked = False, an_page = Some n, an_offset = 0, an_refcnt = 1\<rparr>) \<and>
       leaf_pte lv root (vm_tab s') va = pte_make 0 (of_nat (n * 4096)) (me_protection ent) (me_cache ent))"
proof -
  have look: "vm_amap_lookup m off VM_AMAP_LOCKED s =
      Inr (if has_slot am (slot_of off) then Some (slot_of off) else None, s)"
    using lookup_existing [OF am(1) amap_flags(1,2), of off] am(2) by simp
  have sv: "slot_value m (if has_slot am (slot_of off) then Some (slot_of off) else None) s = Inr None"
    using am by (simp add: slot_value_def amap_at_def)
  have ep: "expect_page oid off s = Inr (Some pg, s)"
  proof -
    have "s\<lparr>vm_objs := (vm_objs s)(oid \<mapsto> obj), vm_phys := vm_phys s\<rparr> = s" using obj(1) by (simp add: fun_upd_idem)
    then show ?thesis using obj(1) lookup_present [OF obj(2,3), of oid 0 None "vm_phys s"]
      by (simp add: expect_page_def object_at_def)
  qed
  let ?panon = "if has_slot am (slot_of off) then Some (slot_of off) else None"
  have start: "cow_fault lv root va ent oid off fl s =
      bindR (vm_amap_fill_locked m off (Some pg) VM_AMAP_LOCKED s) (\<lambda>(anon, s3).
      bindR (lock_anon anon s3) (\<lambda>s4.
      bindR (anon_at anon s4) (\<lambda>an.
        ensure (an_page an \<noteq> None) AssertFail (map_anon lv root va ent m ?panon fl anon s4))))"
    unfolding cow_fault_def using ent look sv ep fl by simp
  obtain am1 k where cr: "vm_amap_lookup m off (VM_AMAP_CREATE OR VM_AMAP_LOCKED) s =
       Inr (Some (slot_of off), put_amap m am1 (s\<lparr>vm_next := k\<rparr>))" "vm_next s \<le> k"
     "has_slot am1 (slot_of off)" "slot_get am1 = slot_get am"
    using lookup_creating [OF am(1) kz amap_flags(4) am(2)] by blast
  define s1 where "s1 = put_amap m am1 (s\<lparr>vm_next := k\<rparr>)"
  have s1: "pt_ok lv root s1" "pg \<in> owned_pages (vm_pmm s1)" "vm_kz s1 = []" "vm_next s1 = k" "vm_amaps s1 m = Some am1"
    using pt obj(4) kz by (simp_all add: s1_def pt_ok_def)
  have ck: "slot_get am1 (slot_of off) = None" using cr(4) am(2) by simp
  have fill: "vm_amap_fill_locked m off (Some pg) VM_AMAP_LOCKED s =
      bindR (bindR (page_alloc None 0 s1) (\<lambda>(dest, s2). bindR (copy_page dest (Some pg) s2) (vm_anon_create dest 0)))
        (\<lambda>(anon, s4). bindR (amap_at m s4) (\<lambda>am. Inr (anon, put_amap m (slot_put am (slot_of off) (Some anon)) s4)))"
    unfolding vm_amap_fill_locked_def cr(1) s1_def [symmetric] using s1(5) ck
    by (simp add: amap_at_def bindR_assoc split_def)
  from anon_of_copy [OF s1(1-3), of None 0 0] consider
      "bindR (page_alloc None 0 s1) (\<lambda>(dest, s2). bindR (copy_page dest (Some pg) s2) (vm_anon_create dest 0)) = Inl NullDeref"
      "free_pages (vm_pmm s1) = 0"
    | n s2 where "bindR (page_alloc None 0 s1) (\<lambda>(dest, s2). bindR (copy_page dest (Some pg) s2) (vm_anon_create dest 0)) =
        Inr (k, s2)" "pt_ok lv root s2" "fresh_copy n pg s1 s2"
      "free_pages (vm_pmm s2) + 1 = free_pages (vm_pmm s1)" "managed s2 = managed s1"
      "vm_anons s2 = (vm_anons s1)(k \<mapsto> \<lparr>an_locked = False, an_page = Some n, an_offset = 0, an_refcnt = 1\<rparr>)"
    unfolding s1(4) by auto
  then show ?thesis
  proof cases
    case 1
    then show ?thesis by (simp add: start fill) (simp add: s1_def)
  next
    case (2 n s2)
    define new_an where "new_an = \<lparr>an_locked = False, an_page = Some n, an_offset = 0, an_refcnt = 1\<rparr>"
    define am' where "am' = slot_put am1 (slot_of off) (Some k)"
    define s4 where "s4 = put_anon k (new_an\<lparr>an_locked := True\<rparr>) (put_amap m am' s2)"
    have fr: "n \<notin> owned_pages (vm_pmm s)" "owned_pages (vm_pmm s2) = insert n (owned_pages (vm_pmm s))"
      "vm_mem s2 = (vm_mem s)(n := vm_mem s pg)" "vm_amaps s2 = vm_amaps s1" "vm_objs s2 = vm_objs s"
      using 2(3) by (simp_all add: fresh_copy_def s1_def)
    have fl2: "vm_amap_fill_locked m off (Some pg) VM_AMAP_LOCKED s = Inr (k, put_amap m am' s2)"
      using fr(4) s1(5) by (simp add: fill 2(1) amap_at_def am'_def)
    have lck: "lock_anon k (put_amap m am' s2) = Inr s4"
      using 2(6) by (simp add: lock_anon_def anon_at_def s4_def new_an_def)
    have "map_anon lv root va ent m ?panon fl k s4 =
        bindR (map_page lv root va (Some n) (me_protection ent) (me_cache ent) s4) (unlock_anon k)"
      by (simp add: map_anon_def anon_at_def s4_def new_an_def)
    then have st: "cow_fault lv root va ent oid off fl s =
        bindR (map_page lv root va (Some n) (me_protection ent) (me_cache ent) s4) (unlock_anon k)"
      using fl2 lck by (simp add: start anon_at_def) (simp add: s4_def new_an_def)
    have pt4: "pt_ok lv root s4" "n \<in> owned_pages (vm_pmm s4)" using 2(2) fr(2) by (simp_all add: s4_def)
    have same4: "vm_tab s4 = vm_tab s" "managed s4 = managed s" "free_pages (vm_pmm s4) + 1 = free_pages (vm_pmm s)"
      using 2(3,4,5) by (simp_all add: s4_def s1_def fresh_copy_def managed_def)
    from map_page_ok [OF pt4 prot, of va "me_cache ent"] show ?thesis
    proof (elim disjE exE conjE)
      assume "map_page lv root va (Some n) (me_protection ent) (me_cache ent) s4 = Inl AssertFail"
        "short_of_pages (missing_tables lv root (vm_tab s4) va) s4"
      then show ?thesis using same4 by (simp add: st) (auto simp: short_of_pages_def)
    next
      fix s5
      assume mp: "map_page lv root va (Some n) (me_protection ent) (me_cache ent) s4 = Inr s5" "pt_ok lv root s5"
        "pt_step s4 s5" "leaf_pte lv root (vm_tab s5) va = pte_make 0 (of_nat (n * 4096)) (me_protection ent) (me_cache ent)"
        "free_pages (vm_pmm s5) + missing_tables lv root (vm_tab s4) va = free_pages (vm_pmm s4)"
      have an5: "vm_anons s5 = vm_anons s4" "vm_amaps s5 = vm_amaps s4" "vm_objs s5 = vm_objs s4"
        using mp(3) by (simp_all add: pt_step_def)
      define s6 where "s6 = put_anon k new_an s5"
      have "unlock_anon k s5 = Inr s6"
        using an5 by (simp add: unlock_anon_def anon_at_def s4_def s6_def new_an_def)
      then have "cow_fault lv root va ent oid off fl s = Inr s6" using mp(1) by (simp add: st)
      moreover have "vm_mem s6 q = (if q = n then vm_mem s pg else vm_mem s q)" if "q \<in> owned_pages (vm_pmm s4)" for q
        using mp(3) that fr(3) by (auto simp: pt_step_def s6_def s4_def)
      then have "vm_mem s6 n = vm_mem s pg" "\<forall>q \<in> owned_pages (vm_pmm s). vm_mem s6 q = vm_mem s q"
        using pt4(2) fr(1,2) by (auto simp: s4_def)
      moreover have "n \<in> owned_pages (vm_pmm s6)" using mp(3) pt4(2) by (auto simp: pt_step_def s6_def)
      moreover have "slot_get am' sl = (if sl = slot_of off then Some k else slot_get am sl)" for sl
        using slot_put_get_has [OF cr(3)] cr(4) by (simp add: am'_def)
      moreover have "vm_amaps s6 = (vm_amaps s)(m \<mapsto> am')" using an5 fr(4) by (simp add: s6_def s4_def s1_def)
      moreover have "vm_anons s6 = (vm_anons s)(k \<mapsto> new_an)"
        using an5 2(6) by (auto simp: s6_def s4_def s1_def fun_eq_iff)
      moreover have "vm_objs s6 = vm_objs s" using an5(3) fr(5) by (simp add: s6_def s4_def)
      moreover have "free_pages (vm_pmm s6) + 1 + missing_tables lv root (vm_tab s) va = free_pages (vm_pmm s)"
        using mp(5) same4 by (simp add: s6_def)
      ultimately show ?thesis using mp(2,4) fr(1)
        by (intro disjI2 exI [of _ n] exI [of _ k] exI [of _ s6] exI [of _ am']) (simp add: new_an_def s6_def)
    qed
  qed
qed

section \<open>The handler around it\<close>

lemma fault_cow_entry:
  assumes "map_lock m = Unlocked" "vm_map_lookup_entry_locked m (align_down_page va) = Some ent"
    and "me_type ent = VM_MAP_ENT_OBJ" "me_object ent = Some oid" "me_is_cow ent"
    and "me_protection ent AND VM_WRITE \<noteq> 0 \<or> fl AND VM_FAULT_WRITE = 0"
  shows "vm_handle_fault lv m va fl s =
    bindR (cow_fault lv (top_level (map_pmap m)) (align_down_page va) ent oid
             (align_down_page va - me_base ent + me_offset ent) fl (count_fault fl s))
      (\<lambda>s'. Inr (YAK_SUCCESS, m, s'))"
proof -
  have m1: "acquire_shared m = Inr (m\<lparr>map_lock := Shared 1\<rparr>)" using assms(1) by (simp add: acquire_shared_def)
  have m2: "upgrade_to_exclusive (m\<lparr>map_lock := Shared 1\<rparr>) = Inr (m\<lparr>map_lock := Exclusive\<rparr>)"
    by (simp add: upgrade_to_exclusive_def)
  have m3: "release_exclusive (m\<lparr>map_lock := Exclusive\<rparr>) = Inr m"
    using assms(1) by (cases m) (simp add: release_exclusive_def)
  have l: "vm_map_lookup_entry_locked (m\<lparr>map_lock := Shared 1\<rparr>) (align_down_page va) = Some ent"
    using assms(2) by (simp add: vm_map_lookup_entry_locked_def)
  show ?thesis unfolding vm_handle_fault_def Let_def m1 bindR_simps
    using assms(3-6) l m2 m3 by (auto simp: bindR_assoc)
qed
end
