(* ===== verification/MapFaults.thy ===== *)
theory MapFaults
  imports FaultFacts
begin

text \<open>
  Inputs on which \<^verbatim>\<open>kernel/vm/map.c\<close> and \<^verbatim>\<open>kernel/vm/fault.c\<close> fail an assertion, read through a null
  pointer or wait for themselves.
\<close>

section \<open>Where the code stops\<close>

text \<open>A range that starts inside an entry: that entry is the first one the loops look at.\<close>

lemma first_overlap_inside:
  assumes t: "map_inv t" and c: "c \<in> set (inorder t)" "me_base c < a" "a < me_end c"
  shows "first_overlap t a = Inr (Some c)"
proof -
  let ?es = "inorder t"
  have tok: "mtree.tree_ok t" using t by (simp add: map_inv_def)
  obtain k where k: "k \<le> length ?es" "map_lower_bound t a = at ?es k"
      "\<And>j. j < k \<Longrightarrow> me_base (?es ! j) < a" "k < length ?es \<Longrightarrow> a \<le> me_base (?es ! k)"
    by (rule lower_bound_at [OF t, of a]) blast
  obtain i where i: "i < length ?es" "c = ?es ! i" using c(1) by (metis in_set_conv_nth)
  have "i < k"
  proof (rule ccontr)
    assume "\<not> i < k"
    then have "me_base (?es ! k) \<le> me_base (?es ! i)"
      using entries_nth(3) [OF t, of k i] i(1) by (cases "k = i") (auto simp: word_le_nat_alt)
    then show False using k(4) c(2) i \<open>\<not> i < k\<close> by auto
  qed
  moreover have "\<not> Suc i < k"
  proof
    assume s: "Suc i < k"
    then have "me_end (?es ! i) \<le> me_base (?es ! Suc i)"
      using entries_nth(1) [OF t, of i "Suc i"] k(1) by (simp add: word_le_nat_alt)
    then show False using k(3) [OF s] c(3) i by auto
  qed
  ultimately have ki: "k = Suc i" by simp
  show ?thesis
  proof (cases "k < length ?es")
    case True
    then have "prev_entry t (Some (?es ! k)) = Inr (Some c)"
      using prev_at [OF tok True] i ki by (simp add: at_def at_prev_def)
    then show ?thesis using True k(2) c(3) by (simp add: first_overlap_def at_def)
  next
    case False
    then have n: "length ?es = Suc i" using k(1) ki by simp
    have mx: "rb_max t = Some c" using hd_opt_take [of "length ?es" ?es] n i(2) by (simp add: rb_max_eq at_prev_def)
    have pv: "prev_entry t (Some c) = Inr (at_prev ?es i)" using prev_at [OF tok i(1)] i by (simp add: at_def)
    show ?thesis
    proof (cases "i = 0")
      case True
      then show ?thesis using k(2) False mx pv by (simp add: first_overlap_def at_def at_prev_def)
    next
      case nz: False
      then have "me_end (?es ! (i - 1)) \<le> me_base c"
        using entries_nth(1) [OF t, of "i - 1" i] i by (simp add: word_le_nat_alt)
      then have "\<not> a < me_end (?es ! (i - 1))" using c(2) by auto
      then show ?thesis using k(2) False nz mx pv by (simp add: first_overlap_def at_def at_prev_def)
    qed
  qed
qed

lemma carve_tail: "me_base c < b \<Longrightarrow> b < me_end c \<Longrightarrow> carve_entry t c b (me_end c) s = Inl AssertFail"
  by (simp add: carve_entry_def less_imp_le)

lemma isolate_tail:
  assumes "me_base c < a" "a < me_end c" "me_end c \<le> z"
  shows "isolate t c a z s = Inl AssertFail"
proof -
  have "max (me_base c) a = a" "min (me_end c) z = me_end c" "me_base c \<noteq> a" using assms by (auto simp: max_def min_def)
  then show ?thesis using carve_tail [OF assms(1,2)] by (simp add: isolate_def Let_def)
qed

lemma tail_range_fails:
  assumes inv: "map_inv (map_tree m)" and lock: "map_lock m = Unlocked" "flags AND VM_MAP_LOCK_HELD = 0"
    and al: "page_aligned a" "page_aligned len" and c: "c \<in> set (inorder (map_tree m))"
    and cut: "me_base c < a" "a < me_end c" "me_end c \<le> a + len"
  shows "vm_protect lv m a len prot flags s = Inl AssertFail" "vm_unmap lv m a len flags s = Inl AssertFail"
proof -
  let ?m = "m\<lparr>map_lock := Exclusive\<rparr>" and ?t = "map_tree m"
  have ne: "?t \<noteq> Null" using c by auto
  have tok: "mtree.tree_ok ?t" using inv by (simp add: map_inv_def)
  have f: "first_overlap ?t a = Inr (Some c)" by (rule first_overlap_inside [OF inv c cut(1,2)])
  have nx: "next_entry ?t (Some c) = Inr (hd_opt (filter (\<lambda>y. me_base c < me_base y) (inorder ?t)))"
    by (rule next_entry_eq [OF tok c])
  have in_range: "me_base c < a + len" "\<not> me_end c \<le> a" "\<not> a + len \<le> me_base c" using cut by auto
  note iso = isolate_tail [OF cut, of ?t s]
  have fuel: "loop_fuel ?t = Suc (length (inorder ?t) + 1)" by (simp add: loop_fuel_def)
  have "protect_loop (loop_fuel ?t) lv ?m a (a + len) prot flags (Some c) s = Inl AssertFail"
    unfolding fuel using in_range nx iso by simp
  then show "vm_protect lv m a len prot flags s = Inl AssertFail"
    using ne al lock f by (simp add: vm_protect_def with_exclusive_def rb_empty_def)
  have "unmap_loop (loop_fuel ?t) lv ?m a (a + len) (Some c) s = Inl AssertFail"
    unfolding fuel using in_range nx iso by simp
  moreover have "align_down_page a = a" "align_up_page len = len"
  proof -
    have m: "x AND NOT 0xFFF = x" if "x AND 0xFFF = 0" for x :: u64
    proof -
      have "x = (x AND 0xFFF) OR (x AND NOT 0xFFF)" by (metis bit.conj_disj_distrib bit.conj_one_right bit.disj_cancel_right)
      then show ?thesis using that by simp
    qed
    show "align_down_page a = a" using al m by (simp add: align_down_page_def page_aligned_def)
    have "len + 0xFFF = len OR 0xFFF" using al(2) by (intro disjunctive_add_eq_or) (simp add: page_aligned_def)
    then have "align_up_page len = (len AND NOT 0xFFF) OR (0xFFF AND NOT 0xFFF)"
      unfolding align_up_page_def by (simp only: bit.conj_disj_distrib2)
    also have "\<dots> = len" using al(2) m [of len] by (simp add: page_aligned_def)
    finally show "align_up_page len = len" .
  qed
  ultimately show "vm_unmap lv m a len flags s = Inl AssertFail"
    using ne lock f by (simp add: vm_unmap_def with_exclusive_def rb_empty_def Let_def)
qed


text \<open>A hint above every entry.\<close>

lemma hint_above_fails:
  assumes t: "map_inv (map_tree m)" and ne: "map_tree m \<noteq> Null" and flags: "flags AND VM_MAP_FIXED = 0"
    and arena: "arena (is_kmap m) = (mn, mx)" and len: "len \<noteq> 0" "len \<le> mx - mn"
    and hint: "\<And>e. e \<in> set (inorder (map_tree m)) \<Longrightarrow> me_base e < clamp_hint hint mn mx"
  shows "alloc_map_range_locked lv m hint len prot inheritance cache offset ty flags s = Inl AssertFail"
proof -
  have "filter (\<lambda>x. clamp_hint hint mn mx \<le> me_base x) (inorder (map_tree m)) = []"
    using hint by (auto simp: filter_empty_conv not_le)
  then have "map_lower_bound (map_tree m) (clamp_hint hint mn mx) = None"
    using map_lower_bound_eq [of "map_tree m"] t by (simp add: map_inv_def)
  then have "find_range (map_tree m) hint len mn mx = Inl AssertFail"
    using ne by (simp add: find_range_def rb_empty_def Let_def)
  moreover have "\<not> mx - mn < len" using len(2) by simp
  ultimately show ?thesis using arena len(1) flags by (simp add: alloc_map_range_locked_def)
qed

text \<open>A map with one entry that leaves no space: the search steps past the end of the tree.\<close>

lemma single_entry_fails:
  assumes t: "within (map_tree m) mn mx" and arena: "arena (is_kmap m) = (mn, mx)"
    and one: "inorder (map_tree m) = [e]" and flags: "flags AND VM_MAP_FIXED = 0"
    and len: "len \<noteq> 0" "len \<le> mx - mn" and hint: "clamp_hint hint mn mx \<le> me_base e"
    and full: "unat (me_base e) < unat mn + unat len" "unat mx < unat (me_end e) + unat len"
  shows "alloc_map_range_locked lv m hint len prot inheritance cache offset ty flags s = Inl NullDeref"
proof -
  let ?t = "map_tree m" and ?base = "clamp_hint hint mn mx"
  have inv: "map_inv ?t" using t by (simp add: within_def)
  then have tok: "mtree.tree_ok ?t" by (simp add: map_inv_def)
  have ne: "?t \<noteq> Null" using one by auto
  have at0: "at (inorder ?t) 0 = Some e" "at (inorder ?t) 1 = None" "at_prev (inorder ?t) 0 = None" "0 < length (inorder ?t)"
    using one by (simp_all add: at_def at_prev_def)
  have lb: "map_lower_bound ?t ?base = Some e"
    using map_lower_bound_eq [OF tok, of ?base] one hint by simp
  have pv: "prev_entry ?t (Some e) = Inr None" "next_entry ?t (Some e) = Inr None"
    using prev_at [OF tok at0(4)] next_at [OF tok at0(4)] at0 by simp_all
  have b: "unat mn \<le> unat (me_base e)" "unat (me_end e) \<le> unat mx" "me_base e < me_end e"
    using nth_bounds [OF t at0(4)] one map_inv_parts(4) [OF inv, of e] by simp_all
  have mm: "mn \<le> mx" using t by (simp add: within_def)
  have sub: "unat (mx - mn) = unat mx - unat mn" using mm by (rule unat_sub)
  have "unat mn + unat len < 2 ^ 64"
  proof -
    have "unat len \<le> unat mx - unat mn" "unat mn \<le> unat mx" using len(2) sub mm by (simp_all add: word_le_nat_alt)
    then show ?thesis using within_no_wrap [OF t] by linarith
  qed
  then have "unat (mn + len) = unat mn + unat len" by (simp add: unat_word_ariths)
  then have g0: "\<not> mn + len \<le> me_base e" using full(1) by (simp add: word_le_nat_alt)
  have "unat (mx - me_end e) = unat mx - unat (me_end e)"
    using b(2) by (intro unat_sub) (simp add: word_le_nat_alt)
  moreover have "max (me_end e) ?base = me_end e" using hint b(3) by (metis less_imp_le max.absorb1 order.trans)
  ultimately have g1: "gap_found (Some e) None mn mx ?base len = None"
    using full(2) b(2) by (simp add: gap_found_def Let_def word_le_nat_alt)
  have "gap_loop (2 * loop_fuel ?t) ?t hint len mn mx False ?base (Some e) None = Inl NullDeref"
  proof -
    have "2 * loop_fuel ?t = Suc (2 * loop_fuel ?t - 1)" by (simp add: loop_fuel_def)
    then obtain f where "2 * loop_fuel ?t = Suc f" by blast
    then show ?thesis using g1 by (simp add: next_entry_def)
  qed
  then have "find_range ?t hint len mn mx = Inl NullDeref"
    using ne lb pv g0 by (simp add: find_range_def rb_empty_def Let_def)
  moreover have "\<not> mx - mn < len" using len(2) by simp
  ultimately show ?thesis using arena len(1) flags by (simp add: alloc_map_range_locked_def)
qed

text \<open>Nothing that runs under the map lock gives it up.\<close>

lemma unmap_loop_lock:
  "unmap_loop fuel lv m start stop cur s = Inr (rv, m', s') \<Longrightarrow> map_lock m' = map_lock m"
proof (induction fuel arbitrary: m cur s)
  case (Suc fuel)
  note run = Suc.prems
  show ?case
  proof (cases cur)
    case (Some c)
    show ?thesis
    proof (cases "me_base c < stop")
      case low: True
      obtain nxt where nx: "next_entry (map_tree m) (Some c) = Inr nxt"
        using run Some low by (auto simp: bindR_Inr_iff)
      show ?thesis
      proof (cases "me_end c \<le> start \<or> me_base c \<ge> stop")
        case skip: True
        then have "unmap_loop fuel lv m start stop nxt s = Inr (rv, m', s')" using run Some low nx by simp
        then show ?thesis by (rule Suc.IH)
      next
        case False
        then obtain st t1 s1 where iso: "isolate (map_tree m) c start stop s = Inr (st, t1, s1)"
          using run Some low nx by (auto simp: bindR_Inr_iff)
        show ?thesis
        proof (cases "IS_ERR st")
          case True
          then show ?thesis using run Some low nx False iso by auto
        next
          case ok: False
          then obtain s3 t2 where "unmap_loop fuel lv (m\<lparr>map_tree := t2\<rparr>) start stop nxt s3 = Inr (rv, m', s')"
            using run Some low nx False iso by (auto simp: bindR_Inr_iff split: option.splits)
          then show ?thesis using Suc.IH by fastforce
        qed
      qed
    next
      case False
      then show ?thesis using run Some by simp
    qed
  qed (use run in simp)
qed simp

lemma alloc_keeps_lock:
  assumes "alloc_map_range_locked lv m hint len prot inheritance cache offset ty flags s = Inr (rv, ent, m', s')"
  shows "map_lock m' = map_lock m"
proof -
  have enter: "enter_range m1 b len prot inheritance cache offset ty s1 = Inr (rv, ent, m', s') \<Longrightarrow> map_lock m' = map_lock m1"
    for m1 b s1
    by (auto simp: enter_range_def Let_def bindR_Inr_iff ensure_Inr_iff split: prod.splits)
  have unmap: "vm_unmap lv m b len VM_MAP_LOCK_HELD s = Inr (st, m1, s1) \<Longrightarrow> map_lock m1 = map_lock m" for b st m1 s1
    by (auto simp: vm_unmap_def with_exclusive_def VM_MAP_LOCK_HELD_def Let_def bindR_Inr_iff
        dest: unmap_loop_lock split: if_splits)
  show ?thesis
    using assms enter unmap
    by (auto simp: alloc_map_range_locked_def Let_def bindR_Inr_iff split: prod.splits if_splits option.splits)
qed

lemma alloc_status:
  assumes "alloc_map_range_locked lv m hint len prot inheritance cache offset ty flags s = Inr (rv, None, m', s')"
  shows "rv \<noteq> YAK_SUCCESS"
proof -
  have enter: "enter_range m1 b len prot inheritance cache offset ty s1 \<noteq> Inr (rv, None, m', s')" for m1 b s1
    by (auto simp: enter_range_def Let_def bindR_Inr_iff ensure_Inr_iff split: prod.splits)
  show ?thesis
    using assms enter
    by (auto simp: alloc_map_range_locked_def Let_def bindR_Inr_iff split: prod.splits if_splits option.splits)
qed

text \<open>\<open>VM_MAP_PREFILL\<close> faults the pages in while the map lock is held exclusively, and the fault handler
  asks for the same lock: no such call succeeds.\<close>

lemma prefill_never_succeeds:
  assumes flags: "flags AND VM_MAP_PREFILL \<noteq> 0" and len: "len \<noteq> 0"
  shows "vm_map lv m obj len offset prot inheritance cache hint flags s \<noteq> Inr ((YAK_SUCCESS, addr), m', s')"
proof
  assume run: "vm_map lv m obj len offset prot inheritance cache hint flags s = Inr ((YAK_SUCCESS, addr), m', s')"
  let ?m = "m\<lparr>map_lock := Exclusive\<rparr>"
  have "0 < page_count len PAGE_SIZE"
  proof -
    have "0 < unat len" using len by (simp add: unat_gt_0)
    then have "PAGE_SIZE \<le> unat len + PAGE_SIZE - 1" by simp
    then show ?thesis by (simp add: page_count_def PAGE_SIZE_def PAGE_SHIFT_def div_greater_zero_iff)
  qed
  then obtain n where n: "page_count len PAGE_SIZE = Suc n" using gr0_implies_Suc by blast
  have stuck: "prefill lv m1 b (Suc n) s1 = Inl Diverges" if "map_lock m1 = Exclusive" for m1 b s1
    using that by (simp add: vm_handle_fault_def acquire_shared_def Let_def)
  obtain rv ent m1 s1 where a: "alloc_map_range_locked lv ?m hint len prot inheritance cache offset VM_MAP_ENT_OBJ flags s =
      Inr (rv, ent, m1, s1)"
    using run by (auto simp: vm_map_def with_exclusive_def bindR_Inr_iff split: if_splits)
  have lock: "map_lock m1 = Exclusive" using alloc_keeps_lock [OF a] by simp
  show False
  proof (cases ent)
    case None
    have "rv \<noteq> YAK_SUCCESS" using a None by (auto dest: alloc_status)
    then show ?thesis using run a None by (auto simp: vm_map_def with_exclusive_def split: if_splits)
  next
    case (Some e)
    then show ?thesis using run a flags n stuck lock
      by (auto simp: vm_map_def with_exclusive_def bindR_Inr_iff simp del: prefill.simps split: if_splits)
  qed
qed

text \<open>A write that is refused returns with the map lock still shared: nothing that takes it exclusively
  returns afterwards.\<close>

lemma refused_write:
  assumes lock: "map_lock m = Unlocked" and e: "vm_map_lookup_entry_locked m (align_down_page va) = Some e"
    and ty: "me_type e \<noteq> VM_MAP_ENT_RESERVED" and ro: "me_protection e AND VM_WRITE = 0"
    and fl: "fl AND VM_FAULT_WRITE \<noteq> 0"
  shows "vm_handle_fault lv m va fl s = Inr (YAK_PERM_DENIED, m\<lparr>map_lock := Shared 1\<rparr>, count_fault fl s)"
    "flags AND VM_MAP_LOCK_HELD = 0 \<Longrightarrow> vm_unmap lv (m\<lparr>map_lock := Shared 1\<rparr>) a len flags s' = Inl Diverges"
proof -
  have "vm_map_lookup_entry_locked (m\<lparr>map_lock := Shared 1\<rparr>) (align_down_page va) = Some e"
    using e by (simp add: vm_map_lookup_entry_locked_def)
  then show "vm_handle_fault lv m va fl s = Inr (YAK_PERM_DENIED, m\<lparr>map_lock := Shared 1\<rparr>, count_fault fl s)"
    using lock ty ro fl by (simp add: vm_handle_fault_def acquire_shared_def Let_def)
  show "flags AND VM_MAP_LOCK_HELD = 0 \<Longrightarrow> vm_unmap lv (m\<lparr>map_lock := Shared 1\<rparr>) a len flags s' = Inl Diverges"
    by (simp add: vm_unmap_def with_exclusive_def Let_def)
qed

text \<open>A touch of a page mapped without read permission fails an assertion of \<open>pmap_map\<close>.\<close>

lemma unreadable_touch:
  assumes lock: "map_lock m = Unlocked" and e: "vm_map_lookup_entry_locked m (align_down_page va) = Some e"
    and ty: "me_type e = VM_MAP_ENT_OBJ" "\<not> me_is_cow e" and obj: "me_object e = Some oid" "vm_objs s oid = Some ob"
      "ptree.tree_ok (memq ob)" "(align_down_page va - me_base e + me_offset e, pg) \<in> set (inorder (memq ob))"
    and pg: "pm_pages (vm_pmm s) pg \<noteq> None"
    and prot: "me_protection e AND VM_READ = 0" and fl: "fl AND VM_FAULT_WRITE = 0"
  shows "vm_handle_fault lv m va fl s = Inl AssertFail"
proof -
  let ?s = "count_fault fl s"
  have s: "vm_objs ?s = vm_objs s" "vm_phys ?s = vm_phys s" by (simp_all add: count_fault_def)
  have l: "vm_map_lookup_entry_locked (m\<lparr>map_lock := Shared 1\<rparr>) (align_down_page va) = Some e"
    using e by (simp add: vm_map_lookup_entry_locked_def)
  obtain s1 where ep: "expect_page oid (align_down_page va - me_base e + me_offset e) ?s = Inr (Some pg, s1)"
      "vm_phys s1 = vm_phys s"
    using obj(2) lookup_present [OF obj(3,4), of oid 0 None "vm_phys s"] s
    by (auto simp: expect_page_def object_at_def)
  have "map_page lv root x (Some pg) (me_protection e) (me_cache e) s1 = Inl AssertFail" for root x
    using pg prot ep(2) by (auto simp: map_page_def page_at_def pmap_map_def)
  then show ?thesis using lock l ty obj(1) fl ep(1)
    by (simp add: vm_handle_fault_def acquire_shared_def upgrade_to_exclusive_def Let_def)
qed
end
