(* ===== verification/MapFork.thy ===== *)
theory MapFork
  imports MapFaults
begin

text \<open>
  \<open>vm_map_fork\<close>: the child sees every inherited page where the parent sees it.  A copy-on-write
  entry gets an amap of its own that refers to the same anons, each of which gains exactly the
  references the new amap holds, and the pages it covers lose the write bit in the parent's tables.
\<close>

section \<open>One entry\<close>

definition cow_entry :: "map_entry \<Rightarrow> bool" where
  "cow_entry e \<longleftrightarrow> me_type e = VM_MAP_ENT_OBJ \<and> me_inheritance e = VM_INHERIT_COPY"

text \<open>The references entry \<open>e\<close> of the parent holds on each anon.\<close>

definition entry_refs :: "vm \<Rightarrow> map_entry \<Rightarrow> nat \<Rightarrow> nat" where
  "entry_refs s e a =
     (if cow_entry e then (case me_amap e of None \<Rightarrow> 0 | Some m \<Rightarrow>
        (case vm_amaps s m of None \<Rightarrow> 0 | Some am \<Rightarrow> amap_refs am a)) else 0)"

text \<open>What an entry needs to be copied.\<close>

definition forkable :: "vm \<Rightarrow> map_entry \<Rightarrow> bool" where
  "forkable s e \<longleftrightarrow> entry_ok e \<and> page_aligned (me_base e) \<and>
     (me_type e = VM_MAP_ENT_OBJ \<and> me_inheritance e \<noteq> VM_INHERIT_NONE \<longrightarrow>
        (\<exists>obj. me_object e = Some obj \<and> vm_objs s obj \<noteq> None)) \<and>
     (cow_entry e \<longrightarrow> (\<exists>m am. me_amap e = Some m \<and> m < vm_next s \<and> vm_amaps s m = Some am \<and> vm_objs s (am_obj am) \<noteq> None))"

text \<open>What copying the entries \<open>es\<close> changes: each anon gains the references they hold, new amaps are
  made, reference counts of objects grow, and shared pages become read-only in the parent's tables.\<close>

definition fork_effect :: "nat \<Rightarrow> u64 \<Rightarrow> map_entry list \<Rightarrow> vm \<Rightarrow> vm \<Rightarrow> bool" where
  "fork_effect lv root es s s' \<longleftrightarrow> vm_phys s' = vm_phys s \<and> vm_kz s' = [] \<and> vm_next s \<le> vm_next s' \<and>
     (\<forall>i < vm_next s. vm_amaps s' i = vm_amaps s i) \<and> (\<forall>i \<ge> vm_next s'. vm_amaps s' i = None) \<and>
     (\<forall>i. vm_objs s' i = None \<longleftrightarrow> vm_objs s i = None) \<and>
     vm_anons s' = (\<lambda>a. map_option (\<lambda>an. an\<lparr>an_refcnt := an_refcnt an + (\<Sum>e\<leftarrow>es. entry_refs s e a)\<rparr>) (vm_anons s a)) \<and>
     pt_ok lv root s' \<and>
     (\<forall>e \<in> set es. \<forall>d. cow_entry e \<and> me_protection e AND VM_WRITE \<noteq> 0 \<and> contains d e \<longrightarrow>
        leaf_pte lv root (vm_tab s') d AND pteWrite = 0) \<and>
     (\<forall>d. leaf_pte lv root (vm_tab s') d = leaf_pte lv root (vm_tab s) d \<or>
        leaf_pte lv root (vm_tab s') d AND pteWrite = 0) \<and>
     (\<forall>d. pte_paddr (leaf_pte lv root (vm_tab s') d) = pte_paddr (leaf_pte lv root (vm_tab s) d))"

text \<open>How the child's entry relates to the parent's: the same translation, through an amap of its own
  that holds the same anons.\<close>

definition child_of :: "vm \<Rightarrow> vm \<Rightarrow> map_entry \<Rightarrow> map_entry \<Rightarrow> bool" where
  "child_of s s' e ce \<longleftrightarrow> me_base ce = me_base e \<and> me_end ce = me_end e \<and> entry_ok ce \<and>
     (if cow_entry e
      then \<exists>m am m' am'. me_amap e = Some m \<and> vm_amaps s m = Some am \<and> vm_amaps s' m' = Some am' \<and> m' < vm_next s' \<and>
        vm_amaps s m' = None \<and> am_refcnt am' = 1 \<and> (\<forall>off. slot_get am' (slot_of off) = slot_get am (slot_of off)) \<and>
        (\<forall>d. translate ce d = (translate e d)\<lparr>tr_amap := Some m'\<rparr>)
      else \<forall>d. translate ce d = (translate e d)\<lparr>tr_amap := None\<rparr>)"

lemma refs_zero: "vm_anons s = (\<lambda>a. map_option (\<lambda>an. an\<lparr>an_refcnt := an_refcnt an + 0\<rparr>) (vm_anons s a))"
  by (simp add: option.map_ident)

lemma protect_read_only:
  assumes pt: "pt_ok lv root s" and lv: "lv \<le> 5" and al: "page_aligned (me_base e)" and e: "entry_ok e"
    and w: "prot AND VM_WRITE = 0"
  shows "\<exists>s'. pmap_protect_range lv root (me_base e) (me_end e - me_base e) prot cache 0 s = Inr s' \<and>
     pt_ok lv root s' \<and> pt_step s s' \<and> vm_phys s' = vm_phys s \<and>
     (\<forall>d. contains d e \<longrightarrow> leaf_pte lv root (vm_tab s') d AND pteWrite = 0) \<and>
     (\<forall>d. leaf_pte lv root (vm_tab s') d = leaf_pte lv root (vm_tab s) d \<or>
        leaf_pte lv root (vm_tab s') d AND pteWrite = 0) \<and>
     (\<forall>d. pte_paddr (leaf_pte lv root (vm_tab s') d) = pte_paddr (leaf_pte lv root (vm_tab s) d))"
proof -
  let ?n = "page_count (me_end e - me_base e) PAGE_SIZE"
  obtain s' where s': "pmap_protect_range lv root (me_base e) (me_end e - me_base e) prot cache 0 s = Inr s'"
     "pt_ok lv root s'" "pt_step s s'" "vm_phys s' = vm_phys s"
     "\<forall>va'. in_pages lv (me_base e) ?n va' \<longrightarrow> leaf_pte lv root (vm_tab s') va' = 0 \<or>
        (\<exists>pa. leaf_pte lv root (vm_tab s') va' = pte_make 0 (pte_paddr pa) prot cache)"
     "\<forall>va'. \<not> in_pages lv (me_base e) ?n va' \<longrightarrow>
        leaf_pte lv root (vm_tab s') va' = leaf_pte lv root (vm_tab s) va'"
    using pmap_protect_range_ok [OF pt, of "me_base e" "me_end e - me_base e" prot cache] by blast
  have ro: "leaf_pte lv root (vm_tab s') d AND pteWrite = 0" if "in_pages lv (me_base e) ?n d" for d
    using s'(5) that pte_make_write [OF w] by (metis and_zero_eq zero_and_eq)
  have lt: "me_base e < me_end e" using e by (simp add: entry_ok_def)
  have cov: "in_pages lv (me_base e) ?n d" if "contains d e" for d
  proof (rule range_in_pages [OF lv al])
    show "me_base e \<le> d" using that by (simp add: contains_def)
    have "unat (me_end e - me_base e) = unat (me_end e) - unat (me_base e)" using lt by (simp add: unat_sub less_imp_le)
    then show "unat d < unat (me_base e) + unat (me_end e - me_base e)"
      using that lt by (auto simp: contains_def word_less_nat_alt)
  qed
  show ?thesis using s' ro cov pmap_protect_range_frames [OF pt s'(1)] by (intro exI [of _ s']) auto
qed

lemma fork_entry_ok:
  assumes pt: "pt_ok lv root s" and lv: "lv \<le> 5" and f: "forkable s e" and inherit: "me_inheritance e \<noteq> VM_INHERIT_NONE"
    and t: "map_inv t" and apart: "\<And>x. x \<in> set (inorder t) \<Longrightarrow> me_end x \<le> me_base e"
    and kz: "vm_kz s = []" and fresh: "\<forall>i \<ge> vm_next s. vm_amaps s i = None" and room: "room s (entry_refs s e)"
  shows "\<exists>t' s' ce. fork_entry lv root e t s = Inr (t', s') \<and> map_inv t' \<and> set (inorder t') = insert ce (set (inorder t)) \<and>
     child_of s s' e ce \<and> fork_effect lv root [e] s s'"
proof -
  define s1 where "s1 = s\<lparr>vm_next := vm_next s + 1\<rparr>"
  define new where "new = (init_map_entry zeroed_entry (me_offset e) (me_base e) (me_end e)
                     (me_protection e) (me_inheritance e) (me_cache e) (me_type e))
                     \<lparr>me_max_protection := me_max_protection e\<rparr>"
  have eok: "entry_ok e" "page_aligned (me_base e)" using f by (auto simp: forkable_def)
  have ka: "kalloc_unchecked NullDeref s = Inr (vm_next s, s1)" using kz by (simp add: s1_def)
  have pt1: "pt_ok lv root s1" using pt by (simp add: pt_ok_def s1_def)
  have new: "me_base new = me_base e" "me_end new = me_end e" "entry_ok new" "me_type new = me_type e"
    using eok by (simp_all add: new_def init_map_entry_def entry_ok_def)
  have tr: "translate new d = (translate e d)\<lparr>tr_object := None, tr_amap := None, tr_mmio := 0\<rparr>" for d
    by (simp add: translate_def new_def init_map_entry_def zeroed_entry_def)
  have ins: "\<exists>t'. insert_entry ce t = Inr t' \<and> map_inv t' \<and> set (inorder t') = insert ce (set (inorder t))"
    if "me_base ce = me_base e" "entry_ok ce" for ce
    using insert_entry_ok [OF t that(2)] apart that(1) by simp
  let ?mid = "case me_type e of
                 VM_MAP_ENT_MMIO \<Rightarrow> Inr (new\<lparr>me_mmio_addr := me_mmio_addr e\<rparr>, s1)
               | VM_MAP_ENT_RESERVED \<Rightarrow> Inr (new, s1)
               | VM_MAP_ENT_OBJ \<Rightarrow>
                   (case me_object e of None \<Rightarrow> Inl AssertFail | Some obj \<Rightarrow>
                      bindR (obj_ref obj s1) (\<lambda>s2.
                      if me_inheritance e = VM_INHERIT_COPY then
                        bindR (vm_amap_copy (me_amap e) s2) (\<lambda>(amap, s3).
                        bindR (if me_protection e AND VM_WRITE \<noteq> 0
                               then pmap_protect_range lv root (me_base e) (me_end e - me_base e)
                                      (me_protection e AND NOT VM_WRITE) (me_cache e) 0 s3
                               else Inr s3) (\<lambda>s4.
                          Inr (new\<lparr>me_object := Some obj, me_amap := Some amap\<rparr>, s4)))
                      else ensure (\<not> me_is_cow e) AssertFail (Inr (new\<lparr>me_object := Some obj\<rparr>, s2))))"
  have fe: "fork_entry lv root e t s = bindR ?mid (\<lambda>(ce, s5). bindR (insert_entry ce t) (\<lambda>t'. Inr (t', s5)))"
    unfolding fork_entry_def ka bindR_simps prod.case Let_def new_def [symmetric] using inherit by simp
  have "\<exists>ce s'. ?mid = Inr (ce, s') \<and> child_of s s' e ce \<and> fork_effect lv root [e] s s'"
  proof (cases "me_type e")
    case VM_MAP_ENT_MMIO
    have "child_of s s1 e (new\<lparr>me_mmio_addr := me_mmio_addr e\<rparr>)"
      using VM_MAP_ENT_MMIO new eok by (auto simp: child_of_def cow_entry_def entry_ok_def translate_def new_def
          init_map_entry_def zeroed_entry_def)
    moreover have "fork_effect lv root [e] s s1"
      using VM_MAP_ENT_MMIO fresh pt1 kz by (simp add: fork_effect_def cow_entry_def entry_refs_def s1_def option.map_ident)
    ultimately show ?thesis using VM_MAP_ENT_MMIO by auto
  next
    case VM_MAP_ENT_RESERVED
    have "child_of s s1 e new"
      using VM_MAP_ENT_RESERVED new eok by (auto simp: child_of_def cow_entry_def entry_ok_def translate_def new_def
          init_map_entry_def zeroed_entry_def)
    moreover have "fork_effect lv root [e] s s1"
      using VM_MAP_ENT_RESERVED fresh pt1 kz by (simp add: fork_effect_def cow_entry_def entry_refs_def s1_def option.map_ident)
    ultimately show ?thesis using VM_MAP_ENT_RESERVED by auto
  next
    case obj: VM_MAP_ENT_OBJ
    obtain oid ob where o: "me_object e = Some oid" "vm_objs s oid = Some ob"
      using f inherit obj by (auto simp: forkable_def)
    define s2 where "s2 = s1\<lparr>vm_objs := (vm_objs s1)(oid \<mapsto> ob\<lparr>vo_refcnt := (vo_refcnt ob + 1) mod 2 ^ 64\<rparr>)\<rparr>"
    have ref: "obj_ref oid s1 = Inr s2"
      using o by (simp add: obj_ref_def vm_object_ref_def object_at_def s1_def s2_def)
    show ?thesis
    proof (cases "me_inheritance e = VM_INHERIT_COPY")
      case False
      then have "\<not> me_is_cow e" using eok by (simp add: entry_ok_def)
      then have "?mid = Inr (new\<lparr>me_object := Some oid\<rparr>, s2)" using obj o False ref by simp
      moreover have "child_of s s2 e (new\<lparr>me_object := Some oid\<rparr>)"
        using obj o False new eok by (auto simp: child_of_def cow_entry_def entry_ok_def translate_def new_def
            init_map_entry_def zeroed_entry_def)
      moreover have "fork_effect lv root [e] s s2"
        using False fresh pt1 kz o
        by (simp add: fork_effect_def cow_entry_def entry_refs_def s1_def s2_def option.map_ident pt_ok_def)
      ultimately show ?thesis by blast
    next
      case copy: True
      have ce: "cow_entry e" using obj copy by (simp add: cow_entry_def)
      then obtain m am where m: "me_amap e = Some m" "m < vm_next s" "vm_amaps s m = Some am" "vm_objs s (am_obj am) \<noteq> None"
        using f by (auto simp: forkable_def)
      have refs: "entry_refs s e = amap_refs am" using ce m by (simp add: entry_refs_def fun_eq_iff)
      have s2: "vm_amaps s2 m = Some am" "vm_kz s2 = []" "vm_next s2 = vm_next s + 1" "vm_anons s2 = vm_anons s"
        "vm_amaps s2 = vm_amaps s" "vm_phys s2 = vm_phys s" "vm_tab s2 = vm_tab s"
        using m kz by (simp_all add: s2_def s1_def)
      have r2: "room s2 (amap_refs am)" using room unfolding refs by (simp add: room_def s2(4))
      have "vm_amaps s2 (vm_next s2) = None" using fresh s2 by simp
      moreover obtain ob2 where ob2: "vm_objs s2 (am_obj am) = Some ob2" using m(4) by (cases "am_obj am = oid") (auto simp: s2_def s1_def)
      ultimately obtain s3 am' where c: "vm_amap_copy (Some m) s2 = Inr (vm_next s2, s3)"
          "vm_amaps s3 = (vm_amaps s2)(vm_next s2 \<mapsto> am')" "am_refcnt am' = 1"
          "\<forall>off. slot_get am' (slot_of off) = slot_get am (slot_of off)"
          "vm_anons s3 = (\<lambda>a. map_option (\<lambda>an. an\<lparr>an_refcnt := an_refcnt an + amap_refs am a\<rparr>) (vm_anons s2 a))"
          "vm_phys s3 = vm_phys s2" "vm_tab s3 = vm_tab s2" "vm_kz s3 = []" "vm_next s2 < vm_next s3"
          "vm_objs s3 = (vm_objs s2)(am_obj am \<mapsto> ob2\<lparr>vo_refcnt := (vo_refcnt ob2 + 1) mod 2 ^ 64\<rparr>)"
        using amap_copy_ok [OF s2(1,2) r2] by blast
      have pt3: "pt_ok lv root s3" using pt c(6,7) s2 by (simp add: pt_ok_def)
      have "(me_protection e AND NOT VM_WRITE) AND VM_WRITE = 0"
        by (simp add: and.assoc)
      from protect_read_only [OF pt3 lv eok(2,1) this, of "me_cache e"] obtain s4 where
        "(if me_protection e AND VM_WRITE \<noteq> 0
          then pmap_protect_range lv root (me_base e) (me_end e - me_base e) (me_protection e AND NOT VM_WRITE) (me_cache e) 0 s3
          else Inr s3) = Inr s4" "pt_ok lv root s4" "pt_step s3 s4" "vm_phys s4 = vm_phys s3"
        "me_protection e AND VM_WRITE \<noteq> 0 \<Longrightarrow> \<forall>d. contains d e \<longrightarrow> leaf_pte lv root (vm_tab s4) d AND pteWrite = 0"
        "\<forall>d. leaf_pte lv root (vm_tab s4) d = leaf_pte lv root (vm_tab s3) d \<or> leaf_pte lv root (vm_tab s4) d AND pteWrite = 0"
        "(\<forall>d. pte_paddr (leaf_pte lv root (vm_tab s4) d) = pte_paddr (leaf_pte lv root (vm_tab s3) d))"
        using pt3 by (cases "me_protection e AND VM_WRITE \<noteq> 0") auto
      note p = this
      let ?ce = "new\<lparr>me_object := Some oid, me_amap := Some (vm_next s2)\<rparr>"
      have "?mid = Inr (?ce, s4)" using obj o copy ref m(1) c(1) p(1) by simp
      moreover have same: "vm_amaps s4 = vm_amaps s3" "vm_next s4 = vm_next s3" "vm_objs s4 = vm_objs s3"
          "vm_anons s4 = vm_anons s3" "vm_kz s4 = vm_kz s3" using p(3) by (simp_all add: pt_step_def)
      moreover have "child_of s s4 e ?ce"
      proof -
        have "translate ?ce d = (translate e d)\<lparr>tr_amap := Some (vm_next s2)\<rparr>" for d
          using obj o by (simp add: translate_def new_def init_map_entry_def zeroed_entry_def)
        moreover have "entry_ok ?ce" using new by (simp add: entry_ok_def)
        moreover have "vm_amaps s4 (vm_next s2) = Some am'" "vm_next s2 < vm_next s4" "vm_amaps s (vm_next s2) = None"
          using c(2,9) same fresh s2(3) by simp_all
        ultimately have "\<exists>m am m' am'. me_amap e = Some m \<and> vm_amaps s m = Some am \<and> vm_amaps s4 m' = Some am' \<and> m' < vm_next s4 \<and>
            vm_amaps s m' = None \<and> am_refcnt am' = 1 \<and> (\<forall>off. slot_get am' (slot_of off) = slot_get am (slot_of off)) \<and>
            (\<forall>d. translate ?ce d = (translate e d)\<lparr>tr_amap := Some m'\<rparr>)"
          using m c(3,4) by (intro exI [of _ m] exI [of _ am] exI [of _ "vm_next s2"] exI [of _ am']) blast
        then show ?thesis using ce new \<open>entry_ok ?ce\<close> by (simp add: child_of_def)
      qed
      moreover have "fork_effect lv root [e] s s4"
      proof -
        have "\<forall>i \<ge> vm_next s4. vm_amaps s4 i = None" "\<forall>i < vm_next s. vm_amaps s4 i = vm_amaps s i"
          using c(2,9) same fresh s2 by auto
        moreover have "vm_objs s4 i = None \<longleftrightarrow> vm_objs s i = None" for i
          using same c(10) ob2 o by (auto simp: s2_def s1_def)
        moreover have "vm_anons s4 = (\<lambda>a. map_option (\<lambda>an. an\<lparr>an_refcnt := an_refcnt an + (\<Sum>e\<leftarrow>[e]. entry_refs s e a)\<rparr>) (vm_anons s a))"
          using same c(5) s2(4) by (simp add: refs)
        ultimately show ?thesis using p c same s2 by (simp add: fork_effect_def)
      qed
      ultimately show ?thesis by blast
    qed
  qed
  then obtain ce s' where mid: "?mid = Inr (ce, s')" "child_of s s' e ce" "fork_effect lv root [e] s s'" by blast
  then obtain t' where "insert_entry ce t = Inr t'" "map_inv t'" "set (inorder t') = insert ce (set (inorder t))"
    using ins [of ce] by (auto simp: child_of_def)
  then show ?thesis using mid fe by auto
qed

section \<open>The whole map\<close>

lemma fork_effect_refl:
  assumes "pt_ok lv root s" "vm_kz s = []" "\<forall>i \<ge> vm_next s. vm_amaps s i = None"
  shows "fork_effect lv root [] s s"
  using assms by (simp add: fork_effect_def option.map_ident)

lemma fork_effect_trans:
  assumes f: "fork_effect lv root es s s1" and g: "fork_effect lv root es' s1 s2"
    and refs: "\<And>e. e \<in> set es' \<Longrightarrow> entry_refs s1 e = entry_refs s e"
  shows "fork_effect lv root (es @ es') s s2"
proof -
  have "(\<Sum>e\<leftarrow>es'. entry_refs s1 e a) = (\<Sum>e\<leftarrow>es'. entry_refs s e a)" for a
    using refs by (simp cong: map_cong)
  then have "vm_anons s2 = (\<lambda>a. map_option (\<lambda>an. an\<lparr>an_refcnt := an_refcnt an + (\<Sum>e\<leftarrow>es @ es'. entry_refs s e a)\<rparr>) (vm_anons s a))"
    using f g by (simp add: fork_effect_def option.map_comp comp_def add.assoc)
  moreover have "\<forall>i < vm_next s. vm_amaps s2 i = vm_amaps s i" using f g by (simp add: fork_effect_def)
  moreover have "\<forall>e \<in> set (es @ es'). \<forall>d. cow_entry e \<and> me_protection e AND VM_WRITE \<noteq> 0 \<and> contains d e \<longrightarrow>
        leaf_pte lv root (vm_tab s2) d AND pteWrite = 0"
  proof (intro ballI allI impI)
    fix e d assume e: "e \<in> set (es @ es')" and d: "cow_entry e \<and> me_protection e AND VM_WRITE \<noteq> 0 \<and> contains d e"
    have "leaf_pte lv root (vm_tab s1) d AND pteWrite = 0 \<or> leaf_pte lv root (vm_tab s2) d AND pteWrite = 0"
      using e d f g by (auto simp: fork_effect_def)
    moreover have "leaf_pte lv root (vm_tab s2) d = leaf_pte lv root (vm_tab s1) d \<or> leaf_pte lv root (vm_tab s2) d AND pteWrite = 0"
      using g by (simp add: fork_effect_def)
    ultimately show "leaf_pte lv root (vm_tab s2) d AND pteWrite = 0" by auto
  qed
  moreover have "\<forall>d. leaf_pte lv root (vm_tab s2) d = leaf_pte lv root (vm_tab s) d \<or>
        leaf_pte lv root (vm_tab s2) d AND pteWrite = 0"
    using f g unfolding fork_effect_def by metis
  ultimately show ?thesis using f g by (simp add: fork_effect_def)
qed

lemma entry_refs_later:
  assumes "fork_effect lv root es s s1" "forkable s e"
  shows "entry_refs s1 e = entry_refs s e" "forkable s1 e"
proof -
  show "entry_refs s1 e = entry_refs s e"
    using assms by (auto simp: fork_effect_def forkable_def entry_refs_def fun_eq_iff)
  have "vm_next s \<le> vm_next s1" "\<And>i. i < vm_next s \<Longrightarrow> vm_amaps s1 i = vm_amaps s i"
     "\<And>i. vm_objs s1 i = None \<longleftrightarrow> vm_objs s i = None" using assms(1) by (simp_all add: fork_effect_def)
  note same = this
  have "\<exists>m am. me_amap e = Some m \<and> m < vm_next s1 \<and> vm_amaps s1 m = Some am \<and> vm_objs s1 (am_obj am) \<noteq> None"
    if "cow_entry e"
  proof -
    obtain m am where "me_amap e = Some m" "m < vm_next s" "vm_amaps s m = Some am" "vm_objs s (am_obj am) \<noteq> None"
      using assms(2) \<open>cow_entry e\<close> by (auto simp: forkable_def)
    then show ?thesis using same by (intro exI [of _ m] exI [of _ am]) simp
  qed
  then show "forkable s1 e" using assms(2) by (simp add: forkable_def same(3))
qed

lemma child_of_later:
  assumes "child_of s s1 e ce" "fork_effect lv root es s1 s2"
  shows "child_of s s2 e ce"
proof -
  have "vm_next s1 \<le> vm_next s2" "\<And>i. i < vm_next s1 \<Longrightarrow> vm_amaps s2 i = vm_amaps s1 i"
    using assms(2) by (simp_all add: fork_effect_def)
  then show ?thesis using assms(1) unfolding child_of_def by (smt (verit) less_le_trans)
qed

lemma child_of_earlier:
  assumes c: "child_of s1 s2 e ce" and f: "fork_effect lv root es s s1" and e: "forkable s e"
    and fresh: "\<forall>i \<ge> vm_next s. vm_amaps s i = None"
  shows "child_of s s2 e ce"
proof -
  have "\<And>i. i < vm_next s \<Longrightarrow> vm_amaps s1 i = vm_amaps s i" using f by (simp add: fork_effect_def)
  then have "vm_amaps s1 i = None \<Longrightarrow> vm_amaps s i = None" for i using fresh by (metis linorder_not_less)
  moreover have "cow_entry e \<Longrightarrow> me_amap e = Some m \<Longrightarrow> vm_amaps s1 m = vm_amaps s m" for m
    using e f by (auto simp: forkable_def fork_effect_def)
  ultimately show ?thesis using c unfolding child_of_def by (smt (verit))
qed

lemma room_later:
  assumes f: "fork_effect lv root es s s1" and room: "room s (\<lambda>a. (\<Sum>e\<leftarrow>es @ es'. entry_refs s e a))"
  shows "room s1 (\<lambda>a. (\<Sum>e\<leftarrow>es'. entry_refs s e a))"
  unfolding room_def
proof (intro allI impI)
  fix a assume "0 < (\<Sum>e\<leftarrow>es'. entry_refs s e a)"
  then have "0 < (\<Sum>e\<leftarrow>es @ es'. entry_refs s e a)" by simp
  then obtain an where an: "vm_anons s a = Some an" "an_refcnt an + (\<Sum>e\<leftarrow>es @ es'. entry_refs s e a) < 2 ^ 64"
    using room unfolding room_def by blast
  then have "vm_anons s1 a = Some (an\<lparr>an_refcnt := an_refcnt an + (\<Sum>e\<leftarrow>es. entry_refs s e a)\<rparr>)"
    using f by (simp add: fork_effect_def)
  then show "\<exists>an. vm_anons s1 a = Some an \<and> an_refcnt an + (\<Sum>e\<leftarrow>es'. entry_refs s e a) < 2 ^ 64"
    using an(2) by simp
qed

text \<open>The entries a child gets.\<close>

definition inherited :: "map_entry \<Rightarrow> bool" where
  "inherited e \<longleftrightarrow> me_inheritance e \<noteq> VM_INHERIT_NONE"

definition children :: "vm \<Rightarrow> vm \<Rightarrow> map_entry list \<Rightarrow> map_entry set \<Rightarrow> bool" where
  "children s s' es C \<longleftrightarrow>
     (\<forall>e \<in> set es. inherited e \<longrightarrow> (\<exists>ce \<in> C. child_of s s' e ce)) \<and>
     (\<forall>ce \<in> C. \<exists>e \<in> set es. inherited e \<and> child_of s s' e ce)"

lemma not_inherited:
  assumes "\<not> inherited e"
  shows "fork_entry lv root e t s = Inr (t, s)" "entry_refs s e = (\<lambda>_. 0)" "\<not> cow_entry e"
  using assms by (auto simp: inherited_def fork_entry_def entry_refs_def cow_entry_def fun_eq_iff)

lemma fork_loop_ok:
  assumes "pt_ok lv root s" "lv \<le> 5" "\<forall>e \<in> set es. forkable s e" "sorted_wrt (\<lambda>x y. me_end x \<le> me_base y) es"
    "map_inv t" "\<forall>x \<in> set (inorder t). \<forall>e \<in> set es. me_end x \<le> me_base e"
    "vm_kz s = []" "\<forall>i \<ge> vm_next s. vm_amaps s i = None" "room s (\<lambda>a. (\<Sum>e\<leftarrow>es. entry_refs s e a))"
  shows "\<exists>t' s' C. fork_loop lv root es t s = Inr (t', s') \<and> map_inv t' \<and>
     set (inorder t') = set (inorder t) \<union> C \<and> children s s' es C \<and> fork_effect lv root es s s'"
  using assms
proof (induction es arbitrary: t s)
  case Nil
  then show ?case using fork_effect_refl by (intro exI [of _ t] exI [of _ s] exI [of _ "{}"]) (simp add: children_def)
next
  case (Cons e es)
  obtain t1 s1 C1 where step: "fork_entry lv root e t s = Inr (t1, s1)" "map_inv t1"
     "set (inorder t1) = set (inorder t) \<union> C1" "children s s1 [e] C1" "fork_effect lv root [e] s s1"
     "\<forall>ce \<in> C1. me_end ce = me_end e"
  proof (cases "inherited e")
    case True
    have "room s (entry_refs s e)" by (rule room_mono [OF Cons.prems(9)]) simp
    moreover have "\<forall>x \<in> set (inorder t). me_end x \<le> me_base e" using Cons.prems(6) by simp
    moreover have "forkable s e" using Cons.prems(3) by simp
    moreover have "me_inheritance e \<noteq> VM_INHERIT_NONE" using True by (simp add: inherited_def)
    ultimately obtain t' s' ce where "fork_entry lv root e t s = Inr (t', s')" "map_inv t'"
       "set (inorder t') = insert ce (set (inorder t))" "child_of s s' e ce" "fork_effect lv root [e] s s'"
      using fork_entry_ok [OF Cons.prems(1,2) _ _ Cons.prems(5) _ Cons.prems(7,8)] by blast
    note step = this
    have "children s s' [e] {ce}" "me_end ce = me_end e"
      using True step(4) by (simp add: children_def, simp add: child_of_def)
    then show thesis using step by (intro that [of t' s' "{ce}"]) simp_all
  next
    case False
    then have "fork_effect lv root [e] s s" using fork_effect_refl [OF Cons.prems(1,7,8)] not_inherited [OF False]
      by (simp add: fork_effect_def)
    then show thesis using that [of t s "{}"] not_inherited [OF False] Cons.prems(5) False by (simp add: children_def)
  qed
  have fk: "\<And>x. x \<in> set es \<Longrightarrow> forkable s x" using Cons.prems(3) by simp
  have later: "\<And>x. x \<in> set es \<Longrightarrow> entry_refs s1 x = entry_refs s x" "\<And>x. x \<in> set es \<Longrightarrow> forkable s1 x"
    using entry_refs_later [OF step(5)] fk by auto
  have room1: "room s1 (\<lambda>a. (\<Sum>e\<leftarrow>es. entry_refs s1 e a))"
    using room_later [OF step(5), of es] Cons.prems(9) later(1) by (simp cong: map_cong)
  have "\<forall>x \<in> set (inorder t1). \<forall>y \<in> set es. me_end x \<le> me_base y"
    using step(3,6) Cons.prems(4,6) by auto
  moreover have "pt_ok lv root s1" "vm_kz s1 = []" "\<forall>i \<ge> vm_next s1. vm_amaps s1 i = None"
    using step(5) by (auto simp: fork_effect_def)
  ultimately obtain t' s' C where r: "fork_loop lv root es t1 s1 = Inr (t', s')" "map_inv t'"
     "set (inorder t') = set (inorder t1) \<union> C" "children s1 s' es C" "fork_effect lv root es s1 s'"
    using Cons.IH [of s1 t1] later(2) Cons.prems(2,4) step(2) room1 by auto
  have "children s s' (e # es) (C1 \<union> C)"
  proof -
    have "\<forall>ce \<in> C1. inherited e \<and> child_of s s' e ce" "inherited e \<longrightarrow> (\<exists>ce \<in> C1. child_of s s' e ce)"
      using step(4) child_of_later [OF _ r(5)] by (auto simp: children_def)
    moreover have "child_of s s' x ce" if "x \<in> set es" "child_of s1 s' x ce" for x ce
      using child_of_earlier [OF that(2) step(5) fk [OF that(1)] Cons.prems(8)] .
    then have "\<forall>ce \<in> C. \<exists>x \<in> set es. inherited x \<and> child_of s s' x ce"
        "\<forall>x \<in> set es. inherited x \<longrightarrow> (\<exists>ce \<in> C. child_of s s' x ce)"
      using r(4) unfolding children_def by blast+
    ultimately show ?thesis by (simp add: children_def) blast
  qed
  moreover have "fork_effect lv root (e # es) s s'"
    using fork_effect_trans [OF step(5) r(5) later(1)] by simp
  ultimately show ?case using step(1,3) r(1-3) by (intro exI [of _ t'] exI [of _ s'] exI [of _ "C1 \<union> C"]) auto
qed

text \<open>What the child's map shows at each address.\<close>

definition inherits :: "vm \<Rightarrow> vm \<Rightarrow> translation option \<Rightarrow> translation option \<Rightarrow> bool" where
  "inherits s s' p c \<longleftrightarrow>
     (case p of
        None \<Rightarrow> c = None
      | Some tr \<Rightarrow>
          if tr_inheritance tr = VM_INHERIT_NONE then c = None
          else if tr_type tr = VM_MAP_ENT_OBJ \<and> tr_inheritance tr = VM_INHERIT_COPY
          then \<exists>m am m' am'. tr_amap tr = Some m \<and> vm_amaps s m = Some am \<and> vm_amaps s' m' = Some am' \<and>
             vm_amaps s m' = None \<and> (\<forall>off. slot_get am' (slot_of off) = slot_get am (slot_of off)) \<and>
             c = Some (tr\<lparr>tr_amap := Some m'\<rparr>)
          else c = Some (tr\<lparr>tr_amap := None\<rparr>))"

lemma child_inherits:
  assumes "child_of s s' e ce" "inherited e"
  shows "inherits s s' (Some (translate e d)) (Some (translate ce d))"
proof -
  have tr: "tr_inheritance (translate e d) = me_inheritance e" "tr_type (translate e d) = me_type e"
    by (simp_all add: translate_def)
  have am: "me_type e = VM_MAP_ENT_OBJ \<Longrightarrow> tr_amap (translate e d) = me_amap e" by (simp add: translate_def)
  show ?thesis
  proof (cases "cow_entry e")
    case True
    then obtain m am' m' am where "me_amap e = Some m" "vm_amaps s m = Some am" "vm_amaps s' m' = Some am'"
      "vm_amaps s m' = None" "\<forall>off. slot_get am' (slot_of off) = slot_get am (slot_of off)"
      "translate ce d = (translate e d)\<lparr>tr_amap := Some m'\<rparr>"
      using assms(1) by (auto simp: child_of_def)
    then show ?thesis using True assms(2) tr am
      unfolding inherits_def cow_entry_def inherited_def by (simp add: tr) blast
  next
    case False
    then have "translate ce d = (translate e d)\<lparr>tr_amap := None\<rparr>" using assms(1) by (simp add: child_of_def)
    moreover have "\<not> (tr_type (translate e d) = VM_MAP_ENT_OBJ \<and> tr_inheritance (translate e d) = VM_INHERIT_COPY)"
      using False unfolding tr cow_entry_def .
    ultimately show ?thesis using assms(2) tr(1) unfolding inherits_def inherited_def by simp blast
  qed
qed

lemma vm_map_fork_ok:
  assumes pt: "pt_ok lv (top_level (map_pmap p)) s" "lv \<le> 5" and inv: "map_inv (map_tree p)"
    and f: "\<forall>e \<in> set (inorder (map_tree p)). forkable s e"
    and c: "map_tree c = Null" "map_lock c = Unlocked" "map_lock p \<noteq> Exclusive"
    and s: "vm_kz s = []" "\<forall>i \<ge> vm_next s. vm_amaps s i = None"
    and room: "room s (\<lambda>a. (\<Sum>e\<leftarrow>inorder (map_tree p). entry_refs s e a))"
  shows "\<exists>c' s'. vm_map_fork lv p c s = Inr (YAK_SUCCESS, c', s') \<and> map_inv (map_tree c') \<and>
     (\<forall>d. inherits s s' (view (map_tree p) d) (view (map_tree c') d)) \<and>
     fork_effect lv (top_level (map_pmap p)) (inorder (map_tree p)) s s'"
proof -
  let ?es = "inorder (map_tree p)"
  have "sorted_wrt (\<lambda>x y. me_end x \<le> me_base y) ?es" using inv by (simp add: map_inv_def)
  moreover have "map_inv Null" by (simp add: map_inv_def mtree.tree_ok_def rb_ok_def)
  ultimately obtain t' s' C where r: "fork_loop lv (top_level (map_pmap p)) ?es Null s = Inr (t', s')" "map_inv t'"
     "set (inorder t') = set (inorder Null) \<union> C" "children s s' ?es C"
     "fork_effect lv (top_level (map_pmap p)) ?es s s'"
    using fork_loop_ok [OF pt f _ _ _ s room, of Null] by auto
  have inC: "set (inorder t') = C" using r(3) by simp
  have "inherits s s' (view (map_tree p) d) (view t' d)" for d
  proof (cases "lookup_from d (map_tree p)")
    case None
    have "lookup_from d t' = None"
      unfolding lookup_None_iff [OF r(2)]
    proof
      fix x assume "x \<in> set (inorder t')"
      then obtain e where "e \<in> set ?es" "child_of s s' e x" using r(4) inC by (auto simp: children_def)
      then show "\<not> contains d x" using None unfolding lookup_None_iff [OF inv] by (auto simp: contains_def child_of_def)
    qed
    then show ?thesis using None by (simp add: view_def inherits_def)
  next
    case (Some e)
    then have e: "e \<in> set ?es" "contains d e" using lookup_iff [OF inv] by auto
    show ?thesis
    proof (cases "inherited e")
      case True
      then obtain x where x: "x \<in> C" "child_of s s' e x" using r(4) e(1) by (auto simp: children_def)
      then have "lookup_from d t' = Some x" using e(2) inC lookup_iff [OF r(2)] by (auto simp: contains_def child_of_def)
      then show ?thesis using child_inherits [OF x(2) True] Some by (simp add: view_def)
    next
      case False
      have "lookup_from d t' = None"
        unfolding lookup_None_iff [OF r(2)]
      proof
        fix x assume "x \<in> set (inorder t')"
        then obtain y where y: "y \<in> set ?es" "child_of s s' y x" "inherited y" using r(4) inC by (auto simp: children_def)
        show "\<not> contains d x"
        proof
          assume "contains d x"
          then have "contains d y" using y(2) by (auto simp: contains_def child_of_def)
          then have "lookup_from d (map_tree p) = Some y" using y(1) lookup_iff [OF inv] by auto
          then show False using Some y(3) False by simp
        qed
      qed
      then show ?thesis using Some False by (simp add: view_def inherits_def inherited_def translate_def)
    qed
  qed
  then show ?thesis using r c by (simp add: vm_map_fork_def)
qed
section \<open>Giving write back\<close>

text \<open>\<open>vm_protect\<close> writes the rights it is given into the tables, whatever the entry: a page of a
  copy-on-write entry that is present becomes writable, still in the frame that others share.\<close>

lemma made_write: "prot AND VM_WRITE \<noteq> 0 \<Longrightarrow> pte_make 0 pa prot cache AND pteWrite \<noteq> 0"
proof -
  assume "prot AND VM_WRITE \<noteq> 0"
  then have "bit (pte_make 0 pa prot cache) 1"
    by (simp add: pte_make_def Let_def bit_or_iff mask_bits)
  then have "bit (pte_make 0 pa prot cache AND pteWrite) 1" by (simp add: bit_and_iff mask_bits)
  then show ?thesis by (metis bit_0_eq bot_apply bot_bool_def)
qed

lemma protect_writable:
  assumes run: "vm_protect lv m a len prot flags s = Inr (YAK_SUCCESS, m', s')"
    and pte: "protected_pte prot (leaf_pte lv root (vm_tab s') d)"
      "pte_paddr (leaf_pte lv root (vm_tab s') d) = pte_paddr (leaf_pte lv root (vm_tab s) d)"
    and there: "pte_paddr (leaf_pte lv root (vm_tab s) d) \<noteq> 0" and w: "prot AND VM_WRITE \<noteq> 0"
  shows "leaf_pte lv root (vm_tab s') d AND pteWrite \<noteq> 0"
proof -
  have "leaf_pte lv root (vm_tab s') d \<noteq> 0" using pte(2) there by (auto simp: pte_paddr_def)
  then show ?thesis using pte(1) made_write [OF w] by (auto simp: protected_pte_def)
qed

lemma protect_after_fork:
  assumes pt: "pt_ok lv (top_level (map_pmap p)) s" "lv \<le> 5" and inv: "map_inv (map_tree p)"
    and f: "\<forall>e \<in> set (inorder (map_tree p)). forkable s e"
    and c: "map_tree c = Null" "map_lock c = Unlocked" "map_lock p = Unlocked"
    and s: "vm_kz s = []" "\<forall>i \<ge> vm_next s. vm_amaps s i = None"
    and room: "room s (\<lambda>a. (\<Sum>e\<leftarrow>inorder (map_tree p). entry_refs s e a))"
    and e: "e \<in> set (inorder (map_tree p))" "cow_entry e" "contains d e" "page_aligned (me_end e)"
    and prot: "prot AND VM_WRITE \<noteq> 0" "vm_check_prot (me_max_protection e) prot" "me_protection e AND VM_WRITE \<noteq> 0"
    and there: "pte_paddr (leaf_pte lv (top_level (map_pmap p)) (vm_tab s) d) \<noteq> 0"
  shows "\<exists>c' p' s1 s2. vm_map_fork lv p c s = Inr (YAK_SUCCESS, c', s1) \<and>
     vm_protect lv p (me_base e) (me_end e - me_base e) prot 0 s1 = Inr (YAK_SUCCESS, p', s2) \<and>
     leaf_pte lv (top_level (map_pmap p)) (vm_tab s1) d AND pteWrite = 0 \<and>
     leaf_pte lv (top_level (map_pmap p)) (vm_tab s2) d AND pteWrite \<noteq> 0 \<and>
     pte_paddr (leaf_pte lv (top_level (map_pmap p)) (vm_tab s2) d) =
       pte_paddr (leaf_pte lv (top_level (map_pmap p)) (vm_tab s1) d)"
proof -
  let ?root = "top_level (map_pmap p)" and ?a = "me_base e"
  obtain c' s1 where fork: "vm_map_fork lv p c s = Inr (YAK_SUCCESS, c', s1)"
      "fork_effect lv ?root (inorder (map_tree p)) s s1"
    using vm_map_fork_ok [OF pt inv f c(1,2) _ s room] c(3) by auto
  then have s1: "pt_ok lv ?root s1" "vm_kz s1 = []" "leaf_pte lv ?root (vm_tab s1) d AND pteWrite = 0"
      "pte_paddr (leaf_pte lv ?root (vm_tab s1) d) = pte_paddr (leaf_pte lv ?root (vm_tab s) d)"
    using e prot(3) by (simp_all add: fork_effect_def)
  have fe: "forkable s e" using f e(1) by blast
  have lt: "?a < me_end e" and al: "page_aligned ?a" using fe by (simp_all add: forkable_def entry_ok_def)
  have stop: "?a + (me_end e - ?a) = me_end e" by simp
  have "unat ?a + unat (me_end e - ?a) < 2 ^ 64"
    using lt unsigned_less [of "me_end e"] by (simp add: unat_sub less_imp_le word_less_nat_alt)
  moreover have "page_aligned (me_end e - ?a)"
    using al e(4) lt by (simp add: page_aligned_dvd unat_sub less_imp_le dvd_diff_nat)
  moreover have "can_protect ?a (?a + (me_end e - ?a)) prot 0 s1 x" if x: "x \<in> set (inorder (map_tree p))" for x
  proof (cases "x = e")
    case True
    have "backed s1 e"
    proof -
      have "forkable s1 e" using entry_refs_later [OF fork(2) fe] by simp
      then show ?thesis using e(2) by (auto simp: forkable_def backed_def cow_entry_def)
    qed
    then show ?thesis using True al prot(2) by (simp add: can_protect_def)
  next
    case False
    then have "me_end x \<le> ?a \<or> me_end e \<le> me_base x" using entries_apart [OF inv x e(1)] by auto
    then show ?thesis unfolding can_protect_def stop by (auto simp: not_less [symmetric])
  qed
  moreover have "me_end e - ?a \<noteq> 0" using lt by simp
  ultimately obtain t' s2 where run:
      "vm_protect lv p ?a (me_end e - ?a) prot 0 s1 = Inr (YAK_SUCCESS, p\<lparr>map_tree := t'\<rparr>, s2)"
      "\<forall>x. ?a \<le> x \<and> x < me_end e \<and> view (map_tree p) x \<noteq> None \<longrightarrow> protected_pte prot (leaf_pte lv ?root (vm_tab s2) x)"
      "\<forall>x. pte_paddr (leaf_pte lv ?root (vm_tab s2) x) = pte_paddr (leaf_pte lv ?root (vm_tab s1) x)"
    using vm_protect_ok [OF inv s1(1) pt(2) s1(2) c(3) _ al, of 0 "me_end e - ?a" prot] stop by auto
  have "view (map_tree p) d \<noteq> None" using lookup_iff [OF inv, of d e] e(1,3) by (simp add: view_def)
  then have "protected_pte prot (leaf_pte lv ?root (vm_tab s2) d)" using run(2) e(3) by (simp add: contains_def)
  from protect_writable [OF run(1) this] run(3) there s1(4) prot(1)
  have "leaf_pte lv ?root (vm_tab s2) d AND pteWrite \<noteq> 0" by simp
  then show ?thesis using fork(1) run(1,3) s1(3) by blast
qed

end
