(* ===== verification/Samples.thy ===== *)
theory Samples
  imports VmObject RingBuffer HashTable
begin

text \<open>
  Small concrete states, each shown to satisfy its component's invariant: the inputs on which the
  properties of the root theory are applied.
\<close>

section \<open>The page allocator\<close>

text \<open>Three free frames: a block of order 1 and one of order 0.\<close>

definition sample_page :: "nat \<Rightarrow> nat \<Rightarrow> page" where
  "sample_page n k = \<lparr>pg_pfn = n, pg_shares = 0, pg_vmobj = None, pg_offset = 0, pg_flags = 0,
     pg_order = k, pg_max_order = k\<rparr>"

definition sample_zone :: zone where
  "sample_zone = \<lparr>zone_id = 1, zone_name = ''low'', max_zone_order = 1, zn_base = 0, zn_end = 0x10000,
     may_alloc = True, zn_orders = [[4], [2], [], [], [], [], []], zn_npages = [1, 1, 0, 0, 0, 0, 0]\<rparr>"

definition sample_pmm :: pmm where
  "sample_pmm = \<lparr>region_list = [\<lparr>rg_base = 0x2000, rg_end = 0x5000\<rparr>],
     pm_pages = [2 \<mapsto> sample_page 2 1, 3 \<mapsto> sample_page 3 1, 4 \<mapsto> sample_page 4 0],
     zone_list = [sample_zone], static_zones_pos = 1,
     total_pagecnt = 3, usable_pagecnt = 3, free_pagecnt = 3\<rparr>"

lemma below7: "(k::nat) < 7 \<longleftrightarrow> k = 0 \<or> k = 1 \<or> k = 2 \<or> k = 3 \<or> k = 4 \<or> k = 5 \<or> k = 6"
  by auto

lemmas pmm_consts = PAGE_SHIFT_def PAGE_SIZE_def BUDDY_ORDERS_def MAX_ZONES_def UINT_MAX_def

lemma sample_frames: "frames_of sample_zone (pm_pages sample_pmm) = {2, 3, 4}"
  by (auto simp: frames_of_def sample_zone_def sample_pmm_def sample_page_def pmm_consts split: if_splits)

lemma sample_blocks: "free_blocks sample_zone = {(2, 1), (4, 0)}"
  "held_blocks sample_zone (pm_pages sample_pmm) = {}" "queues_ok sample_zone"
  unfolding held_blocks_def sample_frames
  by (auto simp: free_blocks_def queues_ok_def sample_zone_def below7 pmm_consts sample_pmm_def sample_page_def)

lemma sample_mxo: "mxo (pm_pages sample_pmm) 2 = 1" "mxo (pm_pages sample_pmm) 3 = 1"
  "mxo (pm_pages sample_pmm) 4 = 0"
  by (simp_all add: mxo_def sample_pmm_def sample_page_def)

lemma sample_pmm_ok: "pmm_ok sample_pmm"
proof -
  have blks: "blk (2, Suc 0) = {2, 3}" "blk (4, 0) = {4}" by (auto simp: blk_def)
  have "pmm_lookup_page (region_list sample_pmm) 8192 = Some (Pg 2)"
     "pmm_lookup_page (region_list sample_pmm) 12288 = Some (Pg 3)"
     "pmm_lookup_page (region_list sample_pmm) 16384 = Some (Pg 4)"
     by (simp_all add: pmm_lookup_page_def sample_pmm_def pmm_consts)
  moreover have "max_blocks {2, 3, 4} (mxo (pm_pages sample_pmm))"
    by (simp add: max_blocks_def sample_mxo blks)
  moreover have "tiling {2, 3, 4} (mxo (pm_pages sample_pmm)) {(2, 1), (4, 0)}"
    by (simp add: tiling_def sample_mxo blks)
  ultimately have "zone_inv (region_list sample_pmm) sample_zone (pm_pages sample_pmm) {}"
    unfolding zone_inv_def sample_frames sample_blocks
    by (simp add: sample_blocks pmm_consts) (simp add: sample_pmm_def sample_page_def)
  then show ?thesis by (simp add: pmm_ok_def) (simp add: sample_pmm_def)
qed

lemma sample_pmm_held: "held sample_pmm = {}"
  using sample_blocks(2) by (simp add: held_def sample_pmm_def)

lemma sample_pmm_inv: "pmm_inv sample_pmm"
  using sample_pmm_ok by (auto simp: pmm_inv_def sample_pmm_def sample_page_def split: if_splits)

lemma sample_free_pages: "free_pages sample_pmm = 3"
  by (simp add: free_pages_def zone_free_pages_def sample_pmm_def sample_zone_def BUDDY_ORDERS_def
      lessThan_nat_numeral lessThan_Suc)

lemma sample_free_frames: "free_frames sample_pmm = {2, 3, 4}"
proof -
  have blks: "blk (2, Suc 0) = {2, 3}" "blk (4, 0) = {4}" by (auto simp: blk_def)
  have "zone_list sample_pmm = [sample_zone]" by (simp add: sample_pmm_def)
  then show ?thesis by (simp add: free_frames_def zone_free_frames_def sample_blocks blks) auto
qed

lemma all7: "(\<forall>k < 7. P (k::nat)) \<longleftrightarrow> P 0 \<and> P 1 \<and> P 2 \<and> P 3 \<and> P 4 \<and> P 5 \<and> P 6"
  unfolding below7 by blast

lemmas alloc_eval = pmm_alloc_order_def sample_pmm_def sample_zone_def zone_alloc_def pmm_consts Let_def
  zone_take_def sample_page_def charge_def zone_validate_def all7 page_at_def

definition sample_alloc :: "nat \<Rightarrow> pmm" where
  "sample_alloc k = (case pmm_alloc_order k sample_pmm of Inl _ \<Rightarrow> sample_pmm | Inr (_, pm) \<Rightarrow> pm)"

lemma sample_alloc: "pmm_alloc_order 0 sample_pmm = Inr (Some 4, sample_alloc 0)"
  "pmm_alloc_order 1 sample_pmm = Inr (Some 2, sample_alloc 1)"
  by (simp_all add: alloc_eval sample_alloc_def)
lemma sample_owned: "pmm_inv (sample_alloc 0)" "4 \<in> owned_pages (sample_alloc 0)"
  using pages.p_alloc [OF sample_pmm_inv] sample_alloc(1) by auto

lemma sample_held: "pmm_ok (sample_alloc 1)" "held (sample_alloc 1) = {(2, 1)}"
  "\<exists>p. pm_pages (sample_alloc 1) 2 = Some p \<and> pg_shares p = 1 \<and> pg_flags p = 0"
  using pmm_alloc_order_ok [OF sample_pmm_ok, of 1] sample_alloc(2) sample_pmm_held
  by (auto simp: BUDDY_ORDERS_def) (auto simp: sample_pmm_def sample_page_def)

definition sample_phys :: phys where
  "sample_phys = \<lparr>ph_pmm = sample_pmm, ph_mem = \<lambda>_ _. 7\<rparr>"

section \<open>Objects\<close>

definition sample_object :: vm_object where
  "sample_object = vm_object_common_init anon_pagerops"

text \<open>Page 4 belongs to an object, at offset \<open>0x1000\<close>.\<close>

definition filled_pmm :: pmm where
  "filled_pmm = (case vm_pagealloc (Some 1) 0x1000 sample_pmm of Inl _ \<Rightarrow> sample_pmm | Inr (_, pm) \<Rightarrow> pm)"

definition filled_object :: vm_object where
  "filled_object = \<lparr>memq = Node RB_BLACK Null (0x1000, 4) Null, pg_ops = anon_pagerops, vo_refcnt = 1\<rparr>"

lemma filled_pmm: "vm_pagealloc (Some 1) 0x1000 sample_pmm = Inr (Some 4, filled_pmm)"
proof -
  obtain r pm where r: "vm_pagealloc (Some 1) 0x1000 sample_pmm = Inr (r, pm)"
    using vm_pagealloc_ok [OF sample_pmm_inv] by blast
  moreover from r have "r = Some 4"
    using sample_alloc(1) by (auto simp: vm_pagealloc_def bindR_Inr_iff)
  ultimately show ?thesis by (simp add: filled_pmm_def)
qed

lemma filled_object_ok: "obj_ok filled_object filled_pmm" "pmm_inv filled_pmm"
  using vm_pagealloc_ok [OF sample_pmm_inv, of "Some 1" "0x1000"] filled_pmm
  by (auto simp: obj_ok_def filled_object_def ptree.tree_ok_def rb_ok_def)

section \<open>Trees of pages\<close>

definition sample_tree :: "opage rbtree" where
  "sample_tree = Node RB_BLACK (Node RB_RED Null (0x1000, 9) Null) (0x3000, 8) Null"

lemma sample_tree_ok: "ptree.tree_ok sample_tree"
  by (simp add: ptree.tree_ok_def rb_ok_def sample_tree_def)

section \<open>Queues and tables\<close>

definition sample_ring :: ringbuffer where
  "sample_ring = \<lparr>rb_data = [0, 0, 1, 2], rb_capacity = 4, rb_size = 2, rb_head = 0, rb_tail = 2\<rparr>"

lemma sample_ring_ok: "rb_inv sample_ring" "rb_capacity sample_ring = 4" "rb_list sample_ring = [1, 2]"
  by (simp_all add: sample_ring_def rb_inv_def rb_list_def upt_rec)

definition sample_table :: hashtable where
  "sample_table = ht_init ht_hash_str ht_eq_str"

lemma sample_table_ok: "ht_inv sample_table" "ht_map sample_table k = None" "ht_count sample_table = 0"
  using ht_init_ok [OF eq_ok_str, of ht_hash_str] by (auto simp: sample_table_def ht_init_def)

end
