(* ===== verification/VmSamples.thy ===== *)
theory VmSamples
  imports MapFork Samples
begin

text \<open>
  A small machine and address space on which the properties of the virtual-memory code are applied:
  twelve frames, four levels of page tables, one object, one shared anon and its amap, and a map with
  a guard range and a copy-on-write mapping.
\<close>

section \<open>Memory\<close>

text \<open>Frames 8 to 15 are in use as single pages, frames 16 to 19 are one free block.\<close>

definition vm_page :: "nat \<Rightarrow> page" where
  "vm_page n = \<lparr>pg_pfn = n, pg_shares = (if n < 16 then 1 else 0), pg_vmobj = None,
     pg_offset = (if n = 13 then 0x1000 else 0), pg_flags = 0,
     pg_order = (if n < 16 then 0 else 2), pg_max_order = (if n < 16 then 0 else 2)\<rparr>"

definition vm_zone :: zone where
  "vm_zone = \<lparr>zone_id = 1, zone_name = ''low'', max_zone_order = 6, zn_base = 0, zn_end = 0x100000,
     may_alloc = True, zn_orders = [[], [], [16], [], [], [], []], zn_npages = [0, 0, 1, 0, 0, 0, 0]\<rparr>"

definition vm_pm :: pmm where
  "vm_pm = \<lparr>region_list = [\<lparr>rg_base = 0x8000, rg_end = 0x14000\<rparr>],
     pm_pages = (\<lambda>n. if 8 \<le> n \<and> n < 20 then Some (vm_page n) else None),
     zone_list = [vm_zone], static_zones_pos = 1,
     total_pagecnt = 12, usable_pagecnt = 12, free_pagecnt = 4\<rparr>"

lemma vm_frames: "frames_of vm_zone (pm_pages vm_pm) = {8..<20}"
  by (auto simp: frames_of_def vm_zone_def vm_pm_def vm_page_def pmm_consts)

lemma vm_blocks: "free_blocks vm_zone = {(16, 2)}"
  "held_blocks vm_zone (pm_pages vm_pm) = {8..<16} \<times> {0}" "queues_ok vm_zone"
  unfolding held_blocks_def vm_frames
  by (auto simp: free_blocks_def queues_ok_def vm_zone_def below7 pmm_consts vm_pm_def vm_page_def split: if_splits)

lemma vm_mxo: "8 \<le> x \<Longrightarrow> x < 20 \<Longrightarrow> mxo (pm_pages vm_pm) x = (if x < 16 then 0 else 2)"
  by (simp add: mxo_def vm_pm_def vm_page_def)

lemma vm_pm_ok: "pmm_ok vm_pm"
proof -
  have "pmm_lookup_page (region_list vm_pm) (x * 4096) = Some (Pg x)" if "8 \<le> x" "x < 20" for x
    using that by (simp add: pmm_lookup_page_def vm_pm_def pmm_consts Let_def)
  moreover have "max_blocks {8..<20} (mxo (pm_pages vm_pm))"
    unfolding max_blocks_def
  proof (intro ballI)
    fix x y assume x: "x \<in> {8..<20}"
      and y: "y \<in> blk (x div 2 ^ mxo (pm_pages vm_pm) x * 2 ^ mxo (pm_pages vm_pm) x, mxo (pm_pages vm_pm) x)"
    show "y \<in> {8..<20} \<and> mxo (pm_pages vm_pm) y = mxo (pm_pages vm_pm) x"
    proof (cases "x < 16")
      case False
      then have "x div 4 = 4" using x by simp
      then have "16 \<le> y" "y < 20" using x y False by (simp_all add: vm_mxo blk_def)
      then show ?thesis using x False by (simp add: vm_mxo)
    qed (use x y in \<open>simp add: vm_mxo blk_def\<close>)
  qed
  moreover have "tiling {8..<20} (mxo (pm_pages vm_pm)) ({(16, 2)} \<union> {8..<16} \<times> {0})"
    by (auto simp: tiling_def vm_mxo blk_def)
  ultimately have "zone_inv (region_list vm_pm) vm_zone (pm_pages vm_pm) {}"
    unfolding zone_inv_def vm_frames vm_blocks
    by (simp add: vm_blocks pmm_consts) (simp add: vm_pm_def vm_page_def)
  then show ?thesis by (simp add: pmm_ok_def) (simp add: vm_pm_def)
qed

lemma vm_pm_inv: "pmm_inv vm_pm" "owned_pages vm_pm = {8..<16}" "frames_fit vm_pm"
proof -
  have at: "pm_pages vm_pm n = (if 8 \<le> n \<and> n < 20 then Some (vm_page n) else None)" for n by (simp add: vm_pm_def)
  have fl: "pg_flags (vm_page n) = 0" for n by (simp add: vm_page_def)
  show "pmm_inv vm_pm" using vm_pm_ok by (simp add: pmm_inv_def at fl)
  have "held vm_pm = {8..<16} \<times> {0}" using vm_blocks(2) by (simp add: held_def) (simp add: vm_pm_def)
  moreover have "page_unshared (pm_pages vm_pm) n" if "8 \<le> n" "n < 16" for n
    using that by (simp add: page_unshared_def at vm_page_def)
  ultimately show "owned_pages vm_pm = {8..<16}" by (auto simp: owned_pages_def)
  show "frames_fit vm_pm" by (simp add: frames_fit_def at)
qed

section \<open>Tables, an object, an anon and its amap\<close>

text \<open>Four levels of tables in frames 8 to 11 translate address \<open>0x400000\<close> to frame 12.\<close>

definition vm_tables :: "nat \<Rightarrow> nat \<Rightarrow> u64" where
  "vm_tables t i =
     (if (t, i) = (8, 0) then pte_make_dir 0x9000
      else if (t, i) = (9, 0) then pte_make_dir 0xA000
      else if (t, i) = (10, 2) then pte_make_dir 0xB000
      else if (t, i) = (11, 0) then pte_make 0 0xC000 VM_READ VM_WB
      else 0)"

text \<open>Anon 3, referenced twice, holds frame 12 and is at offset 0 of amap 2; object 1 has frame 13 at
  offset \<open>0x1000\<close>.\<close>

definition vm_sample :: vm where
  "vm_sample = \<lparr>vm_phys = \<lparr>ph_pmm = vm_pm, ph_mem = \<lambda>_ _. 7\<rparr>, vm_tab = vm_tables,
     vm_objs = [1 \<mapsto> \<lparr>memq = Node RB_BLACK Null (0x1000, 13) Null, pg_ops = anon_pagerops, vo_refcnt = 2\<rparr>],
     vm_anons = [3 \<mapsto> \<lparr>an_locked = False, an_page = Some 12, an_offset = 0, an_refcnt = 2\<rparr>],
     vm_amaps = [2 \<mapsto> \<lparr>am_refcnt = 1, am_obj = 1, am_l3 = Some [0 \<mapsto> [0 \<mapsto> [0 \<mapsto> 3]]]\<rparr>],
     vm_next = 4, vm_kz = [], vm_pagefaults = 0\<rparr>"

text \<open>Four pages are left, and frame 0 is not one of them, whatever page is to be mapped.\<close>

lemma vm_sample_pages: "free_pages (vm_pmm vm_sample) = 4" "\<not> short_of_pages (1 + missing_tables 4 root tab va) vm_sample"
  "\<not> short_of_pages (missing_tables 4 root tab va) vm_sample"
proof -
  show f: "free_pages (vm_pmm vm_sample) = 4"
    by (simp add: vm_sample_def free_pages_def zone_free_pages_def vm_pm_def vm_zone_def BUDDY_ORDERS_def
        lessThan_nat_numeral lessThan_Suc)
  have "0 \<notin> managed vm_sample" by (simp add: managed_def vm_sample_def vm_pm_def dom_def)
  then show "\<not> short_of_pages (1 + missing_tables 4 root tab va) vm_sample" "\<not> short_of_pages (missing_tables 4 root tab va) vm_sample"
    using missing_tables_le [of 4 root tab va] f by (simp_all add: short_of_pages_def)
qed

lemma vm_sample_tables: "pt_ok 4 0x8000 vm_sample"
proof -
  have dirs: "vm_tables 8 i = (if i = 0 then pte_make_dir 0x9000 else 0)"
    "vm_tables 9 i = (if i = 0 then pte_make_dir 0xA000 else 0)"
    "vm_tables 10 i = (if i = 2 then pte_make_dir 0xB000 else 0)" for i
    by (simp_all add: vm_tables_def)
  have d: "pte_make_dir (of_nat (n * 4096)) \<noteq> 0" "frame (pte_paddr (pte_make_dir (of_nat (n * 4096)))) = n"
    "\<not> pte_is_large (pte_make_dir (of_nat (n * 4096))) l" if "n \<in> {9, 10, 11}" for n l
    using dir_facts [of n] that by auto
  note d9 = d [of 9, simplified] and d10 = d [of 10, simplified] and d11 = d [of 11, simplified]
  have nz: "\<not> pte_is_large 0 l" for l by (simp add: pte_is_large_def)
  let ?p = "path 4 0x8000 vm_tables"
  have p0: "?p va 0 = Some 8" for va by (simp add: frame_def)
  have p1: "?p va (Suc 0) = (if ix 4 va 0 = 0 then Some 9 else None)" for va
    using d9 by (simp add: p0 [simplified] dirs frame_def)
  have p2: "?p va (Suc (Suc 0)) = (if ix 4 va 0 = 0 \<and> ix 4 va 1 = 0 then Some 10 else None)" for va
    using d10 by (subst path.simps(2), subst p1) (simp add: dirs)
  have p3: "?p va (Suc (Suc (Suc 0))) = (if ix 4 va 0 = 0 \<and> ix 4 va 1 = 0 \<and> ix 4 va 2 = 2 then Some 11 else None)" for va
    using d11 by (subst path.simps(2), subst p2) (simp add: dirs numeral_2_eq_2)
  have "tree_ok 4 0x8000 vm_tables {8..<16}"
  proof -
    have at: "t = 8 + d \<and> (\<forall>k < d. ix 4 va k = (if k = 2 then 2 else 0))" if "d < 4" "?p va d = Some t" for va d t
    proof -
      consider "d = 0" | "d = Suc 0" | "d = Suc (Suc 0)" | "d = Suc (Suc (Suc 0))" using \<open>d < 4\<close> by linarith
      then show ?thesis
        by cases (use that(2) in \<open>simp_all add: p0 p1 p2 p3 numeral_2_eq_2 less_Suc_eq del: path.simps split: if_splits\<close>)
    qed
    have small: "\<not> pte_is_large (vm_tables (8 + d) i) l" if "Suc d < 4" for d i l
    proof -
      consider "d = 0" | "d = Suc 0" | "d = Suc (Suc 0)" using \<open>Suc d < 4\<close> by linarith
      then show ?thesis by cases (use d9(3) d10(3) d11(3) nz in \<open>simp_all add: dirs\<close>)
    qed
    show ?thesis
      unfolding tree_ok_def
    proof (intro conjI allI impI)
      fix va d t assume "d < 4" "?p va d = Some t"
      then show "t \<in> {8..<16}" using at [of d va t] by simp
    next
      fix va d t assume "d < 4" "?p va d = Some t" "Suc d < 4"
      then show "\<not> pte_is_large (vm_tables t (ix 4 va d)) (4 - 1 - d)" using at [of d va t] small [of d] by simp
    next
      fix va va' d d' t assume "d < 4" "d' < 4" "?p va d = Some t" "?p va' d' = Some t"
      then show "d = d'" using at [of d va t] at [of d' va' t] by simp
    next
      fix va va' d d' t k assume "d < 4" "d' < 4" "?p va d = Some t" "?p va' d' = Some t" "k < d"
      then show "ix 4 va k = ix 4 va' k" using at [of d va t] at [of d' va' t] by simp
    qed
  qed
  then show ?thesis by (simp add: pt_ok_def vm_sample_def vm_pm_inv)
qed


lemma vm_sample_leaf: "leaf_pte 4 0x8000 vm_tables 0x400000 = pte_make 0 0xC000 VM_READ VM_WB"
  by (simp add: leaf_pte_def vm_tables_def ix_def pt_index_def frame_def numeral_3_eq_3 PMAP_LEVEL_SHIFTS_def
      PMAP_LEVEL_BITS_def pte_paddr_def pte_make_dir_def pte_masks)

section \<open>An address space\<close>

definition cow_sample :: map_entry where
  "cow_sample = \<lparr>me_base = 0x400000, me_end = 0x404000, me_type = VM_MAP_ENT_OBJ, me_mmio_addr = 0,
     me_object = Some 1, me_offset = 0, me_is_cow = True, me_amap = Some 2,
     me_protection = 3, me_max_protection = 7, me_inheritance = VM_INHERIT_COPY, me_cache = VM_WB\<rparr>"

text \<open>A guard range and the copy-on-write mapping above it.\<close>

definition guard_sample :: map_entry where
  "guard_sample = \<lparr>me_base = 0x200000, me_end = 0x210000, me_type = VM_MAP_ENT_RESERVED, me_mmio_addr = 0,
     me_object = None, me_offset = 0, me_is_cow = False, me_amap = None,
     me_protection = 0, me_max_protection = 0, me_inheritance = VM_INHERIT_SHARED, me_cache = VM_WB\<rparr>"

definition sample_map :: vm_map where
  "sample_map = \<lparr>map_lock = Unlocked,
     map_tree = Node RB_BLACK (Node RB_RED Null guard_sample Null) cow_sample Null,
     map_pmap = \<lparr>mapped_on = [], top_level = 0x8000\<rparr>, is_kmap = False\<rparr>"

definition empty_map :: vm_map where
  "empty_map = \<lparr>map_lock = Unlocked, map_tree = Null, map_pmap = \<lparr>mapped_on = [], top_level = 0xE000\<rparr>, is_kmap = False\<rparr>"

lemmas entry_samples = cow_sample_def guard_sample_def

lemma sample_map_simps [simp]:
  "map_lock sample_map = Unlocked" "map_pmap sample_map = \<lparr>mapped_on = [], top_level = 0x8000\<rparr>"
  "is_kmap sample_map = False" "inorder (map_tree sample_map) = [guard_sample, cow_sample]"
  "map_tree sample_map \<noteq> Null" "map_lock empty_map = Unlocked" "map_tree empty_map = Null"
  by (simp_all add: sample_map_def empty_map_def)

lemma sample_map_inv: "map_inv (map_tree sample_map)"
  by (simp add: map_inv_def mtree.tree_ok_def rb_ok_def entry_ok_def sample_map_def entry_samples)

lemma sample_within: "within (map_tree sample_map) USER_VA_BASE USER_VA_END" "arena False = (USER_VA_BASE, USER_VA_END)"
  using sample_map_inv
  by (simp_all add: within_def arena_def USER_VA_BASE_def USER_VA_END_def entry_samples)

lemma vm_sample_holds: "holds_anon vm_sample 2 0 (the (vm_amaps vm_sample 2)) 3 (the (vm_anons vm_sample 3)) 12"
  by (simp add: holds_anon_def vm_sample_def slot_get_def amap_indexes_def vm_pm_inv)

lemma sample_forkable: "\<forall>e \<in> set (inorder (map_tree sample_map)). forkable vm_sample e"
  by (simp add: forkable_def entry_ok_def page_aligned_def cow_entry_def entry_samples vm_sample_def)

lemma indexes_Cons: "[0..<AMAP_ENTRIES] = 0 # [1..<AMAP_ENTRIES]"
proof -
  have "0 < AMAP_ENTRIES" by (simp add: AMAP_ENTRIES_def)
  then show ?thesis by (simp add: upt_conv_Cons)
qed

lemma single_refs: "(\<Sum>i\<leftarrow>[0..<AMAP_ENTRIES]. if i = 0 then n else 0) = (n::nat)"
proof -
  have "(\<Sum>i\<leftarrow>[1..<AMAP_ENTRIES]. if i = 0 then n else 0) = 0" by (simp add: sum_list_eq_0_iff)
  then show ?thesis by (simp add: indexes_Cons)
qed

lemma sample_refs: "entry_refs vm_sample cow_sample a = (if a = 3 then 1 else 0)" "entry_refs vm_sample guard_sample a = 0"
proof -
  have f: "filter (\<lambda>i. i = 0 \<and> a = 3) [0..<AMAP_ENTRIES] = (if a = 3 then [0] else [])"
  proof -
    have "filter (\<lambda>i. i = 0 \<and> a = 3) [1..<AMAP_ENTRIES] = []" by (simp add: filter_empty_conv)
    then show ?thesis by (simp add: indexes_Cons)
  qed
  have "refs1 [0 \<mapsto> 3] [0..<AMAP_ENTRIES] a = (if a = 3 then 1 else 0)"
  proof -
    have "(\<lambda>i. [0 \<mapsto> 3] i = Some a) = (\<lambda>i::nat. i = 0 \<and> a = (3::nat))" by (auto simp: fun_eq_iff)
    then show ?thesis using f by (simp only: refs1_def) simp
  qed
  note r1 = this
  have "refs2 [0 \<mapsto> [0 \<mapsto> 3]] [0..<AMAP_ENTRIES] a = (\<Sum>i\<leftarrow>[0..<AMAP_ENTRIES]. if i = 0 then (if a = 3 then 1 else 0) else 0)"
    unfolding refs2_def by (rule arg_cong [of _ _ sum_list], rule map_cong) (simp_all add: r1)
  note r2 = this [unfolded single_refs]
  have "refs3 [0 \<mapsto> [0 \<mapsto> [0 \<mapsto> 3]]] [0..<AMAP_ENTRIES] a = (\<Sum>i\<leftarrow>[0..<AMAP_ENTRIES]. if i = 0 then (if a = 3 then 1 else 0) else 0)"
    unfolding refs3_def by (rule arg_cong [of _ _ sum_list], rule map_cong) (simp_all add: r2)
  then show "entry_refs vm_sample cow_sample a = (if a = 3 then 1 else 0)"
    unfolding single_refs by (simp add: entry_refs_def cow_entry_def cow_sample_def vm_sample_def amap_refs_def)
  show "entry_refs vm_sample guard_sample a = 0" by (simp add: entry_refs_def cow_entry_def guard_sample_def)
qed

lemma sample_room: "room vm_sample (\<lambda>a. (\<Sum>e\<leftarrow>inorder (map_tree sample_map). entry_refs vm_sample e a))"
  by (simp add: room_def sample_refs) (simp add: vm_sample_def)

lemma vm_sample_simps [simp]:
  "vm_kz vm_sample = []" "vm_next vm_sample = 4" "vm_pmm vm_sample = vm_pm"
  "\<forall>i \<ge> 4. vm_amaps vm_sample i = None" "\<forall>i \<ge> 4. vm_anons vm_sample i = None"
  "vm_tab vm_sample = vm_tables"
  by (simp_all add: vm_sample_def)

end
