(* ===== verification/VmProperties.thy ===== *)
theory VmProperties
  imports VmSamples
begin

text \<open>
  The properties of the virtual-memory code: page tables, address spaces, page faults and fork, and
  of the lock that guards an address space.
\<close>

section \<open>Page tables\<close>

text \<open>C22: Mapping a page makes exactly that page translate to the given frame with the given rights; every
  other translation and the tree of tables are as before, and the allocator has lost one page for each table
  that was missing. It fails an assertion instead only when fewer pages are left than tables are missing on the
  way (or when frame 0, whose address the code takes for a null pointer, belongs to the allocator).\<close>

theorem map_translates:
  assumes "pt_ok lv root s" "prot AND VM_READ \<noteq> 0"
  shows "pmap_map lv root va pa 0 prot cache s = Inl AssertFail \<and> short_of_pages (missing_tables lv root (vm_tab s) va) s \<or>
    (\<exists>s'. pmap_map lv root va pa 0 prot cache s = Inr s' \<and> pt_ok lv root s' \<and> pt_step s s' \<and>
       free_pages (vm_pmm s') + missing_tables lv root (vm_tab s) va = free_pages (vm_pmm s) \<and>
       leaf_pte lv root (vm_tab s') va = pte_make 0 pa prot cache \<and>
       (\<forall>va'. \<not> same_page lv va va' \<longrightarrow>
          leaf_pte lv root (vm_tab s') va' = leaf_pte lv root (vm_tab s) va'))"
  using assms by (rule pmap_map_ok)

lemma map_translates_witness:
  "\<exists>s'. pmap_map 4 0x8000 0x8000000000 0xD000 0 VM_READ VM_WB vm_sample = Inr s' \<and> pt_ok 4 0x8000 s' \<and>
     leaf_pte 4 0x8000 (vm_tab s') 0x8000000000 = pte_make 0 0xD000 VM_READ VM_WB"
  using map_translates [OF vm_sample_tables, of VM_READ "0x8000000000" "0xD000" VM_WB] vm_sample_pages
  by (auto simp: VM_READ_def)



section \<open>Address spaces\<close>

text \<open>C21: A request for memory anywhere takes a free range of the arena, enters it and changes no
  other entry; it reports that there is no space only when no range is free. Two more outcomes exist:
  the assertion that fails when the hint lies above every entry, and the null dereference when the map
  has a single entry.\<close>

theorem find_free_range:
  assumes "arena (is_kmap m) = (mn, mx)" "within (map_tree m) mn mx" "vm_kz s = []"
    and "flags AND VM_MAP_FIXED = 0" "len \<noteq> 0"
  shows "(alloc_map_range_locked lv m hint len prot inheritance cache offset ty flags s = Inl AssertFail \<and>
      inorder (map_tree m) \<noteq> [] \<and> (\<forall>e \<in> set (inorder (map_tree m)). me_base e < min (max hint mn) mx)) \<or>
    (alloc_map_range_locked lv m hint len prot inheritance cache offset ty flags s = Inl NullDeref \<and>
      length (inorder (map_tree m)) = 1) \<or>
    (alloc_map_range_locked lv m hint len prot inheritance cache offset ty flags s = Inr (YAK_NOSPACE, None, m, s) \<and>
      (\<forall>b. \<not> free_range (inorder (map_tree m)) mn mx len b)) \<or>
    (\<exists>b t'. let e = init_map_entry zeroed_entry offset b (b + len) prot inheritance cache ty in
       alloc_map_range_locked lv m hint len prot inheritance cache offset ty flags s =
         Inr (YAK_SUCCESS, Some e, m\<lparr>map_tree := t'\<rparr>, s\<lparr>vm_next := vm_next s + 1\<rparr>) \<and>
       free_range (inorder (map_tree m)) mn mx len b \<and> within t' mn mx \<and>
       set (inorder t') = insert e (set (inorder (map_tree m))))"
  using assms by (rule alloc_anywhere_ok)

lemma find_free_range_witness:
  "\<exists>b t' e. alloc_map_range_locked 4 sample_map 0x100000 0x4000 VM_READ VM_INHERIT_SHARED VM_WB 0 VM_MAP_ENT_RESERVED 0 vm_sample =
       Inr (YAK_SUCCESS, Some e, sample_map\<lparr>map_tree := t'\<rparr>, vm_sample\<lparr>vm_next := 5\<rparr>) \<and>
     free_range [guard_sample, cow_sample] USER_VA_BASE USER_VA_END 0x4000 b \<and>
     set (inorder t') = {e, guard_sample, cow_sample}"
proof -
  have low: "\<not> (me_base cow_sample < min (max 0x100000 USER_VA_BASE) USER_VA_END)"
    by (simp add: cow_sample_def USER_VA_BASE_def USER_VA_END_def)
  have free: "free_range [guard_sample, cow_sample] USER_VA_BASE USER_VA_END 0x4000 0x500000"
    by (simp add: free_range_def entry_samples USER_VA_BASE_def USER_VA_END_def)
  show ?thesis
    using find_free_range [of sample_map USER_VA_BASE USER_VA_END vm_sample 0 "0x4000" 4 "0x100000" VM_READ
        VM_INHERIT_SHARED VM_WB 0 VM_MAP_ENT_RESERVED] sample_within low free
    by (auto simp: Let_def)
qed

text \<open>A request for a fixed range is refused exactly when the range overlaps an entry, and
  otherwise enters exactly that range.\<close>

theorem fixed_range:
  assumes "arena (is_kmap m) = (mn, mx)" "within (map_tree m) mn mx" "vm_kz s = []"
    and "flags AND VM_MAP_FIXED \<noteq> 0" "flags AND VM_MAP_OVERWRITE = 0"
    and "unat mn \<le> unat b" "unat b + unat len \<le> unat mx" "len \<noteq> 0"
  shows "if free_range (inorder (map_tree m)) mn mx len b
    then \<exists>t'. alloc_map_range_locked lv m b len prot inheritance cache offset ty flags s =
        Inr (YAK_SUCCESS, Some (init_map_entry zeroed_entry offset b (b + len) prot inheritance cache ty),
             m\<lparr>map_tree := t'\<rparr>, s\<lparr>vm_next := vm_next s + 1\<rparr>) \<and>
      within t' mn mx \<and>
      set (inorder t') = insert (init_map_entry zeroed_entry offset b (b + len) prot inheritance cache ty) (set (inorder (map_tree m)))
    else alloc_map_range_locked lv m b len prot inheritance cache offset ty flags s = Inr (YAK_EXISTS, None, m, s)"
  using assms by (rule alloc_fixed_ok)

lemma fixed_range_witness:
  "alloc_map_range_locked 4 sample_map 0x3FF000 0x4000 VM_READ VM_INHERIT_SHARED VM_WB 0 VM_MAP_ENT_RESERVED VM_MAP_FIXED vm_sample =
     Inr (YAK_EXISTS, None, sample_map, vm_sample)"
proof -
  have "\<not> free_range [guard_sample, cow_sample] USER_VA_BASE USER_VA_END 0x4000 0x3FF000"
    by (simp add: free_range_def entry_samples)
  then show ?thesis
    using fixed_range [of sample_map USER_VA_BASE USER_VA_END vm_sample VM_MAP_FIXED "0x3FF000" "0x4000" 4 VM_READ
        VM_INHERIT_SHARED VM_WB 0 VM_MAP_ENT_RESERVED] sample_within
    by (simp add: VM_MAP_FIXED_def VM_MAP_OVERWRITE_def USER_VA_BASE_def USER_VA_END_def)
qed


text \<open>C19: Changing the protection of a range succeeds, gives every mapped page of the range the new
  rights, in the map and in the page tables, and leaves every entry of the page tables that belongs to no
  mapped page of the range exactly as it was; no page moves to another frame. Every entry of the map that
  overlaps the range must allow it (\<open>can_protect\<close>): it starts on a page, its maximal rights include the new
  ones (unless these are set too), the range does not take away its tail without its start, and the range does
  not end inside a device mapping.\<close>

theorem protect_range:
  assumes "map_inv (map_tree m)" "pt_ok lv (top_level (map_pmap m)) s" "lv \<le> 5" "vm_kz s = []"
    and "map_lock m = Unlocked" "flags AND VM_MAP_LOCK_HELD = 0" "page_aligned a" "page_aligned len"
    and "len \<noteq> 0" "unat a + unat len < 2 ^ 64"
    and "\<And>e. e \<in> set (inorder (map_tree m)) \<Longrightarrow> can_protect a (a + len) prot flags s e"
  shows "\<exists>t' s'. vm_protect lv m a len prot flags s = Inr (YAK_SUCCESS, m\<lparr>map_tree := t'\<rparr>, s') \<and> map_inv t' \<and>
      pt_ok lv (top_level (map_pmap m)) s' \<and>
      (\<forall>d. view t' d = (if a \<le> d \<and> d < a + len then map_option (retranslate flags prot) (view (map_tree m) d)
                        else view (map_tree m) d)) \<and>
      (\<forall>d. a \<le> d \<and> d < a + len \<and> view (map_tree m) d \<noteq> None \<longrightarrow>
         protected_pte prot (leaf_pte lv (top_level (map_pmap m)) (vm_tab s') d)) \<and>
      (\<forall>d. \<not> in_page_of lv (map_tree m) (\<lambda>d. a \<le> d \<and> d < a + len) d \<longrightarrow>
         leaf_pte lv (top_level (map_pmap m)) (vm_tab s') d = leaf_pte lv (top_level (map_pmap m)) (vm_tab s) d) \<and>
      (\<forall>d. pte_paddr (leaf_pte lv (top_level (map_pmap m)) (vm_tab s') d) =
           pte_paddr (leaf_pte lv (top_level (map_pmap m)) (vm_tab s) d))"
  using assms by (rule vm_protect_ok)

lemma protect_range_witness:
  "\<exists>t' s'. vm_protect 4 sample_map 0x401000 0x1000 VM_READ 0 vm_sample = Inr (YAK_SUCCESS, sample_map\<lparr>map_tree := t'\<rparr>, s') \<and>
     map_inv t' \<and> view t' 0x401000 = Some ((translate cow_sample 0x401000)\<lparr>tr_protection := VM_READ\<rparr>) \<and>
     view t' 0x403000 = Some (translate cow_sample 0x403000) \<and>
     leaf_pte 4 0x8000 (vm_tab s') 0x400000 = leaf_pte 4 0x8000 vm_tables 0x400000"
proof -
  have v: "view (map_tree sample_map) d = Some (translate cow_sample d)" if "contains d cow_sample" for d
    using that lookup_iff [OF sample_map_inv, of d cow_sample] by (simp add: view_def)
  have "view (map_tree sample_map) 0x401000 = Some (translate cow_sample 0x401000)"
    "view (map_tree sample_map) 0x403000 = Some (translate cow_sample 0x403000)"
    by (rule v, simp add: contains_def cow_sample_def)+
  note views = this
  have "can_protect 0x401000 (0x401000 + 0x1000) VM_READ 0 vm_sample e" if e: "e \<in> set (inorder (map_tree sample_map))" for e
    using e by (auto simp: can_protect_def backed_def page_aligned_def entry_samples vm_check_prot_def VM_READ_def
        VM_WRITE_def VM_EXECUTE_def) (simp_all add: vm_sample_def)
  moreover have "\<not> in_page_of 4 (map_tree sample_map) (\<lambda>d. 0x401000 \<le> d \<and> d < 0x402000) 0x400000"
  proof -
    have "pt_index d 0 = 1" if "0x401000 \<le> d" "d < 0x402000" for d
    proof -
      have "unat (drop_bit 12 d) = unat d div 4096" unfolding unat_drop_bit_eq by (simp add: drop_bit_eq_div)
      also have "\<dots> = 0x401" using that by (simp add: word_le_nat_alt word_less_nat_alt)
      finally have "drop_bit 12 d = 0x401" by (simp add: word_unat_eq_iff)
      then show ?thesis by (simp add: pt_index_def PMAP_LEVEL_SHIFTS_def PMAP_LEVEL_BITS_def)
    qed
    moreover have "pt_index 0x400000 0 = 0" by (simp add: pt_index_def PMAP_LEVEL_SHIFTS_def PMAP_LEVEL_BITS_def)
    ultimately have "\<not> same_page 4 d 0x400000" if "0x401000 \<le> d" "d < 0x402000" for d
      using that by (auto simp: same_page_def ix_def intro!: exI [of _ 3])
    then show ?thesis by (auto simp: in_page_of_def)
  qed
  ultimately obtain t' s' where
    "vm_protect 4 sample_map 0x401000 0x1000 VM_READ 0 vm_sample = Inr (YAK_SUCCESS, sample_map\<lparr>map_tree := t'\<rparr>, s')"
    "leaf_pte 4 0x8000 (vm_tab s') 0x400000 = leaf_pte 4 0x8000 vm_tables 0x400000"
    "map_inv t'" "\<forall>d. view t' d = (if 0x401000 \<le> d \<and> d < 0x402000 then map_option (retranslate 0 VM_READ) (view (map_tree sample_map) d)
                        else view (map_tree sample_map) d)"
    using protect_range [OF sample_map_inv, of 4 vm_sample 0 "0x401000" "0x1000" VM_READ] vm_sample_tables
    by (auto simp: page_aligned_def)
  then show ?thesis using views by (intro exI [of _ t'] exI [of _ s']) (simp add: retranslate_def)
qed

text \<open>C17: \<open>vm_map_fork\<close> succeeds and the child's map shows at every address what the parent's shows
  and the entry lets it inherit: a copy-on-write mapping through a new amap with the same anons, a
  shared one with the same object. Every anon gains exactly the references the new amaps hold, and
  the copy-on-write pages the parent could write lose the write bit in its page tables.\<close>

theorem fork_inherits:
  assumes "pt_ok lv (top_level (map_pmap p)) s" "lv \<le> 5" "map_inv (map_tree p)"
    and "\<forall>e \<in> set (inorder (map_tree p)). forkable s e"
    and "map_tree c = Null" "map_lock c = Unlocked" "map_lock p \<noteq> Exclusive"
    and "vm_kz s = []" "\<forall>i \<ge> vm_next s. vm_amaps s i = None"
    and "room s (\<lambda>a. (\<Sum>e\<leftarrow>inorder (map_tree p). entry_refs s e a))"
  shows "\<exists>c' s'. vm_map_fork lv p c s = Inr (YAK_SUCCESS, c', s') \<and> map_inv (map_tree c') \<and>
     (\<forall>d. inherits s s' (view (map_tree p) d) (view (map_tree c') d)) \<and>
     fork_effect lv (top_level (map_pmap p)) (inorder (map_tree p)) s s'"
  using assms by (rule vm_map_fork_ok)

lemma fork_inherits_witness:
  "\<exists>c' s'. vm_map_fork 4 sample_map empty_map vm_sample = Inr (YAK_SUCCESS, c', s') \<and> map_inv (map_tree c') \<and>
     vm_anons s' 3 = Some \<lparr>an_locked = False, an_page = Some 12, an_offset = 0, an_refcnt = 3\<rparr>"
  using fork_inherits [OF _ _ sample_map_inv sample_forkable _ _ _ _ _ sample_room, of 4 empty_map] vm_sample_tables
  by (simp add: fork_effect_def sample_refs) (force simp: vm_sample_def)

text \<open>C34: Raising the protection of a copy-on-write mapping after a fork gives a page that parent and
  child share back its write bit, in the same frame: the parent can then write into the child's memory.\<close>

theorem protect_undoes_copy_on_write:
  assumes "pt_ok lv (top_level (map_pmap p)) s" "lv \<le> 5" "map_inv (map_tree p)"
    and "\<forall>e \<in> set (inorder (map_tree p)). forkable s e"
    and "map_tree c = Null" "map_lock c = Unlocked" "map_lock p = Unlocked"
    and "vm_kz s = []" "\<forall>i \<ge> vm_next s. vm_amaps s i = None"
    and "room s (\<lambda>a. (\<Sum>e\<leftarrow>inorder (map_tree p). entry_refs s e a))"
    and "e \<in> set (inorder (map_tree p))" "cow_entry e" "contains d e" "page_aligned (me_end e)"
    and "prot AND VM_WRITE \<noteq> 0" "vm_check_prot (me_max_protection e) prot" "me_protection e AND VM_WRITE \<noteq> 0"
    and "pte_paddr (leaf_pte lv (top_level (map_pmap p)) (vm_tab s) d) \<noteq> 0"
  shows "\<exists>c' p' s1 s2. vm_map_fork lv p c s = Inr (YAK_SUCCESS, c', s1) \<and>
     vm_protect lv p (me_base e) (me_end e - me_base e) prot 0 s1 = Inr (YAK_SUCCESS, p', s2) \<and>
     leaf_pte lv (top_level (map_pmap p)) (vm_tab s1) d AND pteWrite = 0 \<and>
     leaf_pte lv (top_level (map_pmap p)) (vm_tab s2) d AND pteWrite \<noteq> 0 \<and>
     pte_paddr (leaf_pte lv (top_level (map_pmap p)) (vm_tab s2) d) =
       pte_paddr (leaf_pte lv (top_level (map_pmap p)) (vm_tab s1) d)"
  using assms by (rule protect_after_fork)

lemma protect_undoes_copy_on_write_witness:
  "\<exists>c' p' s1 s2. vm_map_fork 4 sample_map empty_map vm_sample = Inr (YAK_SUCCESS, c', s1) \<and>
     vm_protect 4 sample_map 0x400000 0x4000 3 0 s1 = Inr (YAK_SUCCESS, p', s2) \<and>
     leaf_pte 4 0x8000 (vm_tab s1) 0x400000 AND pteWrite = 0 \<and>
     leaf_pte 4 0x8000 (vm_tab s2) 0x400000 AND pteWrite \<noteq> 0"
proof -
  have frame: "pte_paddr (leaf_pte 4 0x8000 vm_tables 0x400000) \<noteq> 0"
    unfolding vm_sample_leaf by (simp add: pte_make_def pte_paddr_def pte_masks pte_pat_bits_def VM_READ_def
        VM_WRITE_def VM_EXECUTE_def VM_USER_def VM_GLOBAL_def)
  have e: "cow_entry cow_sample" "contains 0x400000 cow_sample" "page_aligned (me_end cow_sample)"
    "vm_check_prot (me_max_protection cow_sample) 3" "me_protection cow_sample AND VM_WRITE \<noteq> 0"
    "(3 :: u32) AND VM_WRITE \<noteq> 0" "me_base cow_sample = 0x400000" "me_end cow_sample = 0x404000"
    by (simp_all add: cow_entry_def contains_def page_aligned_def vm_check_prot_def cow_sample_def VM_WRITE_def VM_READ_def VM_EXECUTE_def)
  show ?thesis
    using protect_undoes_copy_on_write [OF _ _ sample_map_inv sample_forkable _ _ _ _ _ sample_room _ e(1-3) e(6,4,5),
        of 4 empty_map] vm_sample_tables frame
    by (simp add: e(7,8)) blast
qed

section \<open>Page faults\<close>

text \<open>C18: A write fault on a shared anon gives the faulting map a private copy: a new page with the
  same bytes, a new anon with one reference in the amap's slot, one reference less on the old anon, and
  the new page mapped with the entry's rights. No other page changes. The new page and the tables missing on
  the way to the address are taken from the free pages; the other outcomes are the null dereference when no
  page is left and the failed assertion when there are too few for the tables (or frame 0 is one of them).
  The small structures of the kernel heap are taken to be there.\<close>

theorem write_fault_copies:
  assumes "pt_ok lv root s" "holds_anon s m off am a an pg" "me_amap ent = Some m"
    and "1 < an_refcnt an" "vm_kz s = []" "vm_anons s (vm_next s) = None"
    and "fl AND VM_FAULT_READ = 0" "fl AND VM_FAULT_WRITE \<noteq> 0" "me_protection ent AND VM_READ \<noteq> 0"
  shows "cow_fault lv root va ent oid off fl s = Inl NullDeref \<and> free_pages (vm_pmm s) = 0 \<or>
    cow_fault lv root va ent oid off fl s = Inl AssertFail \<and>
      short_of_pages (1 + missing_tables lv root (vm_tab s) va) s \<or>
    (\<exists>n s' am'. cow_fault lv root va ent oid off fl s = Inr s' \<and> pt_ok lv root s' \<and>
       free_pages (vm_pmm s') + 1 + missing_tables lv root (vm_tab s) va = free_pages (vm_pmm s) \<and>
       n \<notin> owned_pages (vm_pmm s) \<and> n \<in> owned_pages (vm_pmm s') \<and> vm_mem s' n = vm_mem s pg \<and>
       (\<forall>q \<in> owned_pages (vm_pmm s). vm_mem s' q = vm_mem s q) \<and>
       vm_amaps s' = (vm_amaps s)(m \<mapsto> am') \<and>
       (\<forall>sl. slot_get am' sl = (if sl = slot_of off then Some (vm_next s) else slot_get am sl)) \<and>
       vm_anons s' = (vm_anons s)(a \<mapsto> an\<lparr>an_refcnt := an_refcnt an - 1\<rparr>,
         vm_next s \<mapsto> \<lparr>an_locked = False, an_page = Some n, an_offset = an_offset an, an_refcnt = 1\<rparr>) \<and>
       leaf_pte lv root (vm_tab s') va = pte_make 0 (of_nat (n * 4096)) (me_protection ent) (me_cache ent))"
  using assms by (rule cow_write)

lemma write_fault_copies_witness:
  "\<exists>n s'. cow_fault 4 0x8000 0x400000 cow_sample 1 0 VM_FAULT_WRITE vm_sample = Inr s' \<and>
     n \<notin> owned_pages vm_pm \<and> vm_mem s' n = vm_mem vm_sample 12 \<and>
     leaf_pte 4 0x8000 (vm_tab s') 0x400000 = pte_make 0 (of_nat (n * 4096)) 3 VM_WB"
proof -
  have "me_amap cow_sample = Some 2" "me_protection cow_sample = 3" "me_cache cow_sample = VM_WB"
    "1 < an_refcnt (the (vm_anons vm_sample 3))" "vm_anons vm_sample 4 = None"
    by (simp_all add: cow_sample_def) (simp_all add: vm_sample_def)
  then show ?thesis
    using write_fault_copies [OF vm_sample_tables vm_sample_holds, of cow_sample VM_FAULT_WRITE "0x400000" 1] vm_sample_pages
    by (auto simp: VM_FAULT_READ_def VM_FAULT_WRITE_def VM_READ_def)
qed

text \<open>C23: The first write to a page that only the object holds gives the faulting map a private copy
  in a new anon, and leaves the object and every page in use as they were. As for a shared anon, it faults
  only when the free pages are too few for the copy and the missing tables (or include frame 0).\<close>

theorem first_write_copies:
  assumes "pt_ok lv root s" "vm_amaps s m = Some am" "slot_get am (slot_of off) = None"
    and "me_amap ent = Some m" "vm_kz s = []" "\<And>i. vm_next s \<le> i \<Longrightarrow> vm_anons s i = None"
    and "vm_objs s oid = Some obj" "ptree.tree_ok (memq obj)" "(off, pg) \<in> set (inorder (memq obj))"
      "pg \<in> owned_pages (vm_pmm s)"
    and "fl AND VM_FAULT_WRITE \<noteq> 0" "me_protection ent AND VM_READ \<noteq> 0"
  shows "cow_fault lv root va ent oid off fl s = Inl NullDeref \<and> free_pages (vm_pmm s) = 0 \<or>
    cow_fault lv root va ent oid off fl s = Inl AssertFail \<and>
      short_of_pages (1 + missing_tables lv root (vm_tab s) va) s \<or>
    (\<exists>n c s' am'. cow_fault lv root va ent oid off fl s = Inr s' \<and> pt_ok lv root s' \<and>
       free_pages (vm_pmm s') + 1 + missing_tables lv root (vm_tab s) va = free_pages (vm_pmm s) \<and>
       n \<notin> owned_pages (vm_pmm s) \<and> n \<in> owned_pages (vm_pmm s') \<and> vm_mem s' n = vm_mem s pg \<and>
       (\<forall>q \<in> owned_pages (vm_pmm s). vm_mem s' q = vm_mem s q) \<and> vm_objs s' = vm_objs s \<and>
       vm_amaps s' = (vm_amaps s)(m \<mapsto> am') \<and>
       (\<forall>sl. slot_get am' sl = (if sl = slot_of off then Some c else slot_get am sl)) \<and>
       vm_anons s' = (vm_anons s)(c \<mapsto> \<lparr>an_locked = False, an_page = Some n, an_offset = 0, an_refcnt = 1\<rparr>) \<and>
       leaf_pte lv root (vm_tab s') va = pte_make 0 (of_nat (n * 4096)) (me_protection ent) (me_cache ent))"
  using assms by (rule cow_first_write)

lemma first_write_copies_witness:
  "\<exists>n s'. cow_fault 4 0x8000 0x401000 cow_sample 1 0x1000 VM_FAULT_WRITE vm_sample = Inr s' \<and>
     n \<notin> owned_pages vm_pm \<and> vm_mem s' n = vm_mem vm_sample 13 \<and> vm_objs s' = vm_objs vm_sample"
proof -
  have "slot_get (the (vm_amaps vm_sample 2)) (slot_of 0x1000) = None" "me_amap cow_sample = Some 2"
    "vm_amaps vm_sample 2 = Some (the (vm_amaps vm_sample 2))" "me_protection cow_sample = 3"
    "vm_objs vm_sample 1 = Some (the (vm_objs vm_sample 1))"
    "(0x1000, 13) \<in> set (inorder (memq (the (vm_objs vm_sample 1))))" "13 \<in> owned_pages (vm_pmm vm_sample)"
    "ptree.tree_ok (memq (the (vm_objs vm_sample 1)))"
    by (simp_all add: vm_sample_def slot_get_def amap_indexes_def cow_sample_def vm_pm_inv ptree.tree_ok_def rb_ok_def)
  then show ?thesis
    using first_write_copies [OF vm_sample_tables, of 2 "the (vm_amaps vm_sample 2)" "0x1000" cow_sample 1
        "the (vm_objs vm_sample 1)" 13 VM_FAULT_WRITE "0x401000"] vm_sample_pages
    by (auto simp: VM_FAULT_WRITE_def VM_READ_def)
qed


section \<open>What fails\<close>

text \<open>C35: Protecting or unmapping a range that starts inside an entry and reaches its end or
  goes beyond always stops on a failed assertion: the entry's tail cannot be cut off.\<close>

theorem tail_of_an_entry:
  assumes "map_inv (map_tree m)" "map_lock m = Unlocked" "flags AND VM_MAP_LOCK_HELD = 0"
    and "page_aligned a" "page_aligned len" "c \<in> set (inorder (map_tree m))"
    and "me_base c < a" "a < me_end c" "me_end c \<le> a + len"
  shows "vm_protect lv m a len prot flags s = Inl AssertFail \<and> vm_unmap lv m a len flags s = Inl AssertFail"
  using tail_range_fails [OF assms] by blast

lemma tail_of_an_entry_witness:
  "vm_protect 4 sample_map 0x402000 0x2000 VM_READ 0 vm_sample = Inl AssertFail \<and>
   vm_unmap 4 sample_map 0x402000 0x2000 0 vm_sample = Inl AssertFail"
  by (rule tail_of_an_entry [OF sample_map_inv, of _ _ _ cow_sample]) (simp_all add: page_aligned_def cow_sample_def)

text \<open>When the hint lies above the base of every entry, a request for memory anywhere stops on a
  failed assertion, however much of the arena is free.\<close>

theorem hint_above_all:
  assumes "map_inv (map_tree m)" "map_tree m \<noteq> Null" "flags AND VM_MAP_FIXED = 0"
    and "arena (is_kmap m) = (mn, mx)" "len \<noteq> 0" "len \<le> mx - mn"
    and "\<And>e. e \<in> set (inorder (map_tree m)) \<Longrightarrow> me_base e < clamp_hint hint mn mx"
  shows "alloc_map_range_locked lv m hint len prot inheritance cache offset ty flags s = Inl AssertFail"
  using assms by (rule hint_above_fails)

lemma hint_above_all_witness:
  "alloc_map_range_locked 4 sample_map 0x500000 0x1000 VM_READ VM_INHERIT_SHARED VM_WB 0 VM_MAP_ENT_RESERVED 0 vm_sample = Inl AssertFail"
  by (rule hint_above_all [OF sample_map_inv _ _ _, of _ USER_VA_BASE USER_VA_END])
     (auto simp: sample_within clamp_hint_def USER_VA_BASE_def USER_VA_END_def entry_samples)

text \<open>C36: \<open>vm_map\<close> with \<open>VM_MAP_PREFILL\<close> never succeeds: it holds the map lock while it calls the
  fault handler, which waits for the same lock.\<close>

theorem prefill_deadlocks:
  assumes "flags AND VM_MAP_PREFILL \<noteq> 0" "len \<noteq> 0"
  shows "vm_map lv m obj len offset prot inheritance cache hint flags s \<noteq> Inr ((YAK_SUCCESS, addr), m', s')"
  using assms by (rule prefill_never_succeeds)

lemma prefill_deadlocks_witness:
  "\<nexists>addr m' s'. vm_map 4 sample_map (Some 1) 0x1000 0 VM_READ VM_INHERIT_SHARED VM_WB 0x300000 VM_MAP_PREFILL vm_sample =
     Inr ((YAK_SUCCESS, addr), m', s')"
  using prefill_deadlocks [of VM_MAP_PREFILL "0x1000"] by (simp add: VM_MAP_PREFILL_def)

text \<open>A write fault on a mapping without write permission is refused with the map lock still held
  shared, so that the next unmap waits for ever.\<close>

theorem refused_write_keeps_lock:
  assumes "map_lock m = Unlocked" "vm_map_lookup_entry_locked m (align_down_page va) = Some e"
    and "me_type e \<noteq> VM_MAP_ENT_RESERVED" "me_protection e AND VM_WRITE = 0"
    and "fl AND VM_FAULT_WRITE \<noteq> 0" "flags AND VM_MAP_LOCK_HELD = 0"
  shows "vm_handle_fault lv m va fl s = Inr (YAK_PERM_DENIED, m\<lparr>map_lock := Shared 1\<rparr>, count_fault fl s) \<and>
    vm_unmap lv (m\<lparr>map_lock := Shared 1\<rparr>) a len flags s' = Inl Diverges"
  using refused_write [OF assms(1-5)] assms(6) by blast

text \<open>A read fault on a page that is present in the object of a mapping without read permission
  stops on a failed assertion instead of being refused.\<close>

theorem unreadable_page:
  assumes "map_lock m = Unlocked" "vm_map_lookup_entry_locked m (align_down_page va) = Some e"
    and "me_type e = VM_MAP_ENT_OBJ" "\<not> me_is_cow e" "me_object e = Some oid" "vm_objs s oid = Some ob"
      "ptree.tree_ok (memq ob)" "(align_down_page va - me_base e + me_offset e, pg) \<in> set (inorder (memq ob))"
    and "pm_pages (vm_pmm s) pg \<noteq> None" "me_protection e AND VM_READ = 0" "fl AND VM_FAULT_WRITE = 0"
  shows "vm_handle_fault lv m va fl s = Inl AssertFail"
  using assms by (rule unreadable_touch)

text \<open>One more mapping, of the object and without rights.\<close>

definition hidden_sample :: map_entry where
  "hidden_sample = cow_sample\<lparr>me_is_cow := False, me_amap := None, me_inheritance := VM_INHERIT_SHARED, me_protection := 0\<rparr>"

definition hidden_map :: vm_map where
  "hidden_map = sample_map\<lparr>map_tree := Node RB_BLACK Null hidden_sample Null\<rparr>"

lemma hidden_lookup:
  "map_lock hidden_map = Unlocked"
  "vm_map_lookup_entry_locked hidden_map (align_down_page 0x401234) = Some hidden_sample"
  "align_down_page 0x401234 - me_base hidden_sample + me_offset hidden_sample = 0x1000"
  by (simp_all add: hidden_map_def hidden_sample_def cow_sample_def vm_map_lookup_entry_locked_def align_down_page_def)

lemma refused_write_keeps_lock_witness:
  "vm_handle_fault 4 hidden_map 0x401234 VM_FAULT_WRITE vm_sample =
     Inr (YAK_PERM_DENIED, hidden_map\<lparr>map_lock := Shared 1\<rparr>, count_fault VM_FAULT_WRITE vm_sample)"
  using refused_write_keeps_lock [OF hidden_lookup(1,2), of VM_FAULT_WRITE 0]
  by (simp add: hidden_sample_def cow_sample_def VM_FAULT_WRITE_def)

lemma unreadable_page_witness: "vm_handle_fault 4 hidden_map 0x401234 VM_FAULT_READ vm_sample = Inl AssertFail"
proof (rule unreadable_page [OF hidden_lookup(1,2)])
  show "(align_down_page 0x401234 - me_base hidden_sample + me_offset hidden_sample, 13)
      \<in> set (inorder (memq (the (vm_objs vm_sample 1))))"
    unfolding hidden_lookup(3) by (simp add: vm_sample_def)
  show "vm_objs vm_sample 1 = Some (the (vm_objs vm_sample 1))" "ptree.tree_ok (memq (the (vm_objs vm_sample 1)))"
    by (simp_all add: vm_sample_def ptree.tree_ok_def rb_ok_def)
  show "pm_pages (vm_pmm vm_sample) 13 \<noteq> None" by (simp add: vm_pm_def)
qed (simp_all add: hidden_sample_def cow_sample_def VM_FAULT_READ_def VM_FAULT_WRITE_def)

section \<open>The reader-writer lock\<close>

text \<open>C20: Over every interleaving of any number of threads (fewer than \<open>2 ^ 31\<close>) that acquire, upgrade
  and release the lock, no assertion of the lock's code ever fails in any thread, a thread that holds it
  exclusively is its recorded owner, and no other thread holds it then in either mode.\<close>

theorem rwlock_excludes:
  assumes "finite T" "card T < 2 ^ 31" "rw_run T l p"
  shows "(\<forall>t. p t \<noteq> Crashed) \<and>
    (\<forall>t \<in> T. p t = Ex_Held \<longrightarrow> rw_owner l = Some t \<and> (\<forall>u \<in> T. u \<noteq> t \<longrightarrow> \<not> excludes (p u) \<and> \<not> shares (p u)))"
  using mutual_exclusion [OF assms] never_crashes [OF assms] owner_facts(3) [OF assms(1) _ run_inv [OF assms]] by simp


text \<open>Two threads; the first takes the lock.\<close>

lemma two_threads:
  "rw_run {0, 1} rwlock_init (\<lambda>_. Idle)"
  "rw_run {0, 1} \<lparr>rw_owner = Some 0, rw_state = RWLOCK_EXCLUSIVE, rw_count = 1\<rparr> ((\<lambda>_. Idle)(0 := Ex_Held))"
  using take_exclusive [OF rw_run.init, of 0 "{0, 1}"] rw_run.init by simp_all

lemma rwlock_excludes_witness:
  "(\<forall>t. ((\<lambda>_. Idle)(0 := Ex_Held)) t \<noteq> Crashed) \<and> \<not> excludes (((\<lambda>_. Idle)(0 := Ex_Held)) (1 :: nat)) \<and>
     \<not> shares (((\<lambda>_. Idle)(0 := Ex_Held)) (1 :: nat))"
  using rwlock_excludes [OF _ _ two_threads(2)] by simp


text \<open>C33: Once no thread is inside the lock, whatever happened before, timeouts and failed upgrades
  included, it is as it was initialised, and any thread can take it in either mode.\<close>

theorem rwlock_never_wedged:
  assumes "finite T" "card T < 2 ^ 31" "rw_run T l p" "\<forall>t \<in> T. p t = Idle" "t \<in> T"
  shows "l = rwlock_init \<and> (\<exists>l'. rw_run T l' (p(t := Ex_Held))) \<and> (\<exists>l'. rw_run T l' (p(t := Sh_Held)))"
  using never_wedged [OF assms] quiescent [OF assms(1-4)] by simp

lemma rwlock_never_wedged_witness: "\<exists>l'. rw_run {0, 1} l' ((\<lambda>_. Idle)(1 := Sh_Held))"
  using rwlock_never_wedged [OF _ _ two_threads(1), of 1] by simp


end
