(* ===== verification/Vnode.thy ===== *)
theory Vnode
  imports HashTable
begin

text \<open>
  Vnodes: \<^verbatim>\<open>struct vnode\<close> of \<^verbatim>\<open>kernel/include/yak/fs/vfs.h\<close> with the tmpfs node it is the first
  member of (\<^verbatim>\<open>kernel/fs/tmpfs.h\<close>), in a store of numbered nodes. The operations table of a vnode is
  named, not a pointer: \<open>root_ops\<close> has three members only, the others inherit all of theirs. Every
  \<open>vn_inactive\<close> of the source returns without changing anything, so dropping the last reference of a
  vnode only lowers its count.
\<close>

section \<open>Data\<close>

datatype vtype = VREG | VBLK | VDIR | VCHR | VFIFO | VLNK | VSOCK

datatype vn_ops = root_ops | tmpfs_vn_op

text \<open>The attributes the code computes with; times are numbers.\<close>

record vattr =
  va_mode :: u32
  va_inode :: u64
  va_nlinks :: u64
  va_uid :: u32
  va_gid :: u32
  va_atime :: nat
  va_mtime :: nat
  va_ctime :: nat
  va_btime :: nat
  va_block_size :: u64
  va_block_count :: u64

record vnode =
  vn_ops :: vn_ops
  vn_type :: vtype
  vn_refcnt :: nat
  vn_locked :: bool
  vn_vfs :: "nat option"
  vn_mounted_vfs :: "nat option"
  vn_node_covered :: "nat option"
  vn_filesize :: u64
  vn_vobj :: "nat option"
  tn_vattr :: vattr
  tn_name :: "buf option"
  tn_name_len :: nat
  tn_link_path :: "buf option"
  tn_children :: hashtable

type_synonym vnodes = "nat \<Rightarrow> vnode option"

section \<open>References\<close>

definition vnode_at :: "vnodes \<Rightarrow> nat option \<Rightarrow> (nat \<times> vnode) res" where
  "vnode_at vns v = (case v of None \<Rightarrow> Inl NullDeref | Some i \<Rightarrow>
     (case vns i of None \<Rightarrow> Inl NullDeref | Some vn \<Rightarrow> Inr (i, vn)))"

definition vnode_ref :: "nat option \<Rightarrow> vnodes \<Rightarrow> vnodes res" where
  "vnode_ref v vns =
     bindR (vnode_at vns v) (\<lambda>(i, vn). Inr (vns(i \<mapsto> vn\<lparr>vn_refcnt := (vn_refcnt vn + 1) mod 2 ^ 64\<rparr>)))"

definition vnode_deref :: "nat option \<Rightarrow> vnodes \<Rightarrow> vnodes res" where
  "vnode_deref v vns =
     bindR (vnode_at vns v) (\<lambda>(i, vn).
       Inr (vns(i \<mapsto> vn\<lparr>vn_refcnt := (if vn_refcnt vn = 0 then 2 ^ 64 - 1 else vn_refcnt vn - 1)\<rparr>)))"

lemma vnode_at_Some [simp]: "vns i = Some vn \<Longrightarrow> vnode_at vns (Some i) = Inr (i, vn)"
  by (simp add: vnode_at_def)

lemma vnode_at_None [simp]: "vnode_at vns None = Inl NullDeref"
  by (simp add: vnode_at_def)

end
