(* ===== verification/FileDesc.thy ===== *)
theory FileDesc
  imports Vnode
begin

text \<open>
  Open files and the descriptor table of a process: \<^verbatim>\<open>kernel/core/file.c\<close>. The table is the array
  \<open>fds\<close> (null when there is none) and its capacity; a \<^verbatim>\<open>struct fd\<close> belongs to one slot, so the slot
  holds its fields. Open files are shared between descriptors and counted; they live in a store of
  numbered files. A C \<open>int\<close> is an \<open>int\<close> with the wrap-around of its 32 bits written out (the build
  reports signed overflow and goes on). \<open>fs_kz\<close> lists which of the next heap allocations succeed.
\<close>

unbundle bit_operations_syntax

section \<open>Data\<close>

definition FD_LIMIT :: int where "FD_LIMIT = 65535"
definition FD_GROW_BY :: int where "FD_GROW_BY = 4"
definition FD_CLOEXEC :: u32 where "FD_CLOEXEC = 1"
definition FD_DUPE_NOCLOEXEC :: u32 where "FD_DUPE_NOCLOEXEC = 1"
definition FD_DUPE_CLOEXEC :: u32 where "FD_DUPE_CLOEXEC = 2"
definition FD_DUPE_MINIMUM :: u32 where "FD_DUPE_MINIMUM = 4"

definition int32 :: "int \<Rightarrow> int" where
  "int32 x = signed_take_bit 31 x"

record open_file =
  file_vnode :: "nat option"
  file_refcnt :: nat
  file_offset :: int
  file_flags :: u32

record fd =
  fd_file :: "nat option"
  fd_flags :: u32

record fdtable =
  fds :: "fd option list option"
  fd_cap :: int

record files =
  fs_vnodes :: vnodes
  fs_files :: "nat \<Rightarrow> open_file option"
  fs_next :: nat
  fs_kz :: "bool list"

section \<open>Slots\<close>

text \<open>Access to the array at a C index.\<close>

definition fd_get :: "fdtable \<Rightarrow> int \<Rightarrow> fd option res" where
  "fd_get p i = (case fds p of None \<Rightarrow> Inl NullDeref | Some xs \<Rightarrow>
     if i < 0 then Inl OutOfBounds else ld xs (nat i))"

definition fd_put :: "fdtable \<Rightarrow> int \<Rightarrow> fd option \<Rightarrow> fdtable res" where
  "fd_put p i d = (case fds p of None \<Rightarrow> Inl NullDeref | Some xs \<Rightarrow>
     if i < 0 then Inl OutOfBounds else bindR (st xs (nat i) d) (\<lambda>xs'. Inr (p\<lparr>fds := Some xs'\<rparr>)))"

definition falloc :: "files \<Rightarrow> bool \<times> files" where
  "falloc s = (case fs_kz s of [] \<Rightarrow> (True, s) | b # bs \<Rightarrow> (b, s\<lparr>fs_kz := bs\<rparr>))"

text \<open>\<open>proc->fds[fd] = kzalloc (sizeof (struct fd))\<close>; whether it got memory.\<close>

definition new_fd :: "fdtable \<Rightarrow> int \<Rightarrow> files \<Rightarrow> (bool \<times> fdtable \<times> files) res" where
  "new_fd p i s =
     (case falloc s of (ok, s') \<Rightarrow>
        bindR (fd_put p i (if ok then Some \<lparr>fd_file = None, fd_flags = 0\<rparr> else None)) (\<lambda>p'. Inr (ok, p', s')))"

section \<open>Open files\<close>

definition file_at :: "files \<Rightarrow> nat option \<Rightarrow> (nat \<times> open_file) res" where
  "file_at s f = (case f of None \<Rightarrow> Inl NullDeref | Some i \<Rightarrow>
     (case fs_files s i of None \<Rightarrow> Inl NullDeref | Some x \<Rightarrow> Inr (i, x)))"

definition put_file :: "nat \<Rightarrow> open_file option \<Rightarrow> files \<Rightarrow> files" where
  "put_file i x s = s\<lparr>fs_files := (fs_files s)(i := x)\<rparr>"

definition file_init :: open_file where
  "file_init = \<lparr>file_vnode = None, file_refcnt = 1, file_offset = 0, file_flags = 0\<rparr>"

definition file_ref :: "nat option \<Rightarrow> files \<Rightarrow> files res" where
  "file_ref f s =
     bindR (file_at s f) (\<lambda>(i, x). Inr (put_file i (Some (x\<lparr>file_refcnt := (file_refcnt x + 1) mod 2 ^ 64\<rparr>)) s))"

definition file_cleanup :: "nat \<Rightarrow> open_file \<Rightarrow> files \<Rightarrow> files res" where
  "file_cleanup i x s =
     bindR (vnode_deref (file_vnode x) (fs_vnodes s)) (\<lambda>vns. Inr (put_file i None (s\<lparr>fs_vnodes := vns\<rparr>)))"

definition file_deref :: "nat option \<Rightarrow> files \<Rightarrow> files res" where
  "file_deref f s =
     bindR (file_at s f) (\<lambda>(i, x).
       let x' = x\<lparr>file_refcnt := (if file_refcnt x = 0 then 2 ^ 64 - 1 else file_refcnt x - 1)\<rparr>;
           s' = put_file i (Some x') s
       in if file_refcnt x = 1 then file_cleanup i x' s' else Inr s')"

section \<open>The table\<close>

definition fd_grow :: "fdtable \<Rightarrow> int \<Rightarrow> files \<Rightarrow> (status \<times> fdtable \<times> files) res" where
  "fd_grow p new_cap s =
     (if new_cap < fd_cap p then Inr (YAK_SUCCESS, p, s)
      else if new_cap > FD_LIMIT then Inr (YAK_MFILE, p, s)
      else case falloc s of
        (False, s') \<Rightarrow> Inr (YAK_OOM, p, s')
      | (True, s') \<Rightarrow>
          bindR (if fd_cap p \<le> 0 then Inr []
                 else case fds p of None \<Rightarrow> Inl NullDeref
                      | Some xs \<Rightarrow> ensure (nat (fd_cap p) \<le> length xs) OutOfBounds (Inr (take (nat (fd_cap p)) xs))) (\<lambda>old.
            Inr (YAK_SUCCESS, \<lparr>fds = Some (old @ replicate (nat new_cap - length old) None), fd_cap = new_cap\<rparr>, s')))"

definition fd_safe_get :: "fdtable \<Rightarrow> int \<Rightarrow> fd option res" where
  "fd_safe_get p i = (if fds p = None \<or> i \<ge> fd_cap p then Inr None else fd_get p i)"

text \<open>The first free slot from \<open>i\<close> on.\<close>

fun free_slot :: "fd option list \<Rightarrow> nat \<Rightarrow> nat option" where
  "free_slot [] i = None"
| "free_slot (x # xs) i = (if x = None then Some i else free_slot xs (i + 1))"

definition search_free :: "fdtable \<Rightarrow> int \<Rightarrow> int option res" where
  "search_free p start =
     (if start \<ge> fd_cap p then Inr None
      else case fds p of None \<Rightarrow> Inl NullDeref
      | Some xs \<Rightarrow>
          if start < 0 then Inl OutOfBounds
          else case free_slot (drop (nat start) (take (nat (fd_cap p)) xs)) (nat start) of
            Some i \<Rightarrow> Inr (Some (int i))
          | None \<Rightarrow> if length xs < nat (fd_cap p) then Inl OutOfBounds else Inr None)"

definition fd_allocate_next :: "fdtable \<Rightarrow> files \<Rightarrow> (status \<times> int \<times> fdtable \<times> files) res" where
  "fd_allocate_next p s =
     bindR (search_free p 0) (\<lambda>slot.
       case slot of
         Some i \<Rightarrow>
           bindR (new_fd p i s) (\<lambda>(ok, p', s'). Inr (if ok then YAK_SUCCESS else YAK_OOM, i, p', s'))
       | None \<Rightarrow>
           bindR (fd_grow p (int32 (fd_cap p + FD_GROW_BY)) s) (\<lambda>(rv, p', s').
             if IS_ERR rv then Inr (rv, 0, p', s')
             else let i = fd_cap p' - FD_GROW_BY in
                  bindR (new_fd p' i s') (\<lambda>(_, p'', s''). Inr (YAK_SUCCESS, i, p'', s''))))"

text \<open>The search grows the table until a slot is found or growing fails; \<open>fuel\<close> bounds the rounds.\<close>

fun fd_allocate_min :: "nat \<Rightarrow> fdtable \<Rightarrow> int \<Rightarrow> files \<Rightarrow> (status \<times> int \<times> fdtable \<times> files) res" where
  "fd_allocate_min 0 p start s = Inl Diverges"
| "fd_allocate_min (Suc fuel) p start s =
     bindR (search_free p start) (\<lambda>slot.
       case slot of
         Some i \<Rightarrow> bindR (new_fd p i s) (\<lambda>(_, p', s'). Inr (YAK_SUCCESS, i, p', s'))
       | None \<Rightarrow>
           bindR (fd_grow p (int32 (fd_cap p + FD_GROW_BY)) s) (\<lambda>(rv, p', s').
             if IS_ERR rv then Inr (rv, 0, p', s')
             else fd_allocate_min fuel p' (fd_cap p' - FD_GROW_BY) s'))"

definition fd_close :: "fdtable \<Rightarrow> int \<Rightarrow> files \<Rightarrow> (fdtable \<times> files) res" where
  "fd_close p i s =
     bindR (fd_get p i) (\<lambda>desc.
       case desc of
         None \<Rightarrow> Inl AssertFail
       | Some d \<Rightarrow>
           bindR (if fd_file d = None then Inr s else file_deref (fd_file d) s) (\<lambda>s'.
           bindR (fd_put p i None) (\<lambda>p'. Inr (p', s'))))"

definition fd_allocate_at :: "fdtable \<Rightarrow> int \<Rightarrow> files \<Rightarrow> (status \<times> int \<times> fdtable \<times> files) res" where
  "fd_allocate_at p i s =
     bindR (if i \<ge> fd_cap p then fd_grow p (int32 (i + FD_GROW_BY)) s else Inr (YAK_SUCCESS, p, s)) (\<lambda>(rv, p1, s1).
       if IS_ERR rv then Inr (rv, 0, p1, s1)
       else
         bindR (fd_get p1 i) (\<lambda>old.
         bindR (if old \<noteq> None then fd_close p1 i s1 else Inr (p1, s1)) (\<lambda>(p2, s2).
         bindR (fd_get p2 i) (\<lambda>now.
         ensure (now = None) AssertFail
           (bindR (new_fd p2 i s2) (\<lambda>(ok, p3, s3).
              if ok then Inr (YAK_SUCCESS, i, p3, s3) else Inr (YAK_OOM, 0, p3, s3)))))))"

definition dup_flags :: "u32 \<Rightarrow> u32 \<Rightarrow> u32" where
  "dup_flags flags src =
     (if flags AND FD_DUPE_NOCLOEXEC \<noteq> 0 then src AND NOT FD_CLOEXEC
      else if flags AND FD_DUPE_CLOEXEC \<noteq> 0 then src OR FD_CLOEXEC else src)"

definition fd_assign :: "fdtable \<Rightarrow> int \<Rightarrow> fd \<Rightarrow> u32 \<Rightarrow> files \<Rightarrow> (status \<times> fdtable \<times> files) res" where
  "fd_assign p i src flags s =
     bindR (fd_get p i) (\<lambda>dest.
     ensure (dest \<noteq> None) AssertFail
       (bindR (file_ref (fd_file src) s) (\<lambda>s'.
        bindR (fd_put p i (Some \<lparr>fd_file = fd_file src, fd_flags = dup_flags flags (fd_flags src)\<rparr>)) (\<lambda>p'.
          Inr (YAK_SUCCESS, p', s')))))"

text \<open>The source descriptor is read through its pointer after the allocation: when the allocation
  closed that very slot the pointer dangles. That needs \<open>oldfd = newfd\<close>, which returns before.\<close>

definition fd_duplicate :: "nat \<Rightarrow> fdtable \<Rightarrow> int \<Rightarrow> int \<Rightarrow> u32 \<Rightarrow> int \<Rightarrow> files \<Rightarrow> (status \<times> int \<times> fdtable \<times> files) res" where
  "fd_duplicate fuel p oldfd newfd flags outfd s =
     bindR (fd_safe_get p oldfd) (\<lambda>src.
       case src of
         None \<Rightarrow> Inr (YAK_BADF, outfd, p, s)
       | Some src_fd \<Rightarrow>
           if flags AND FD_DUPE_MINIMUM = 0 \<and> oldfd = newfd then Inr (YAK_SUCCESS, outfd, p, s)
           else
             bindR (if newfd = - 1 then fd_allocate_next p s
                    else if flags AND FD_DUPE_MINIMUM \<noteq> 0 then fd_allocate_min fuel p newfd s
                    else fd_allocate_at p newfd s) (\<lambda>(rv, i, p1, s1).
               if IS_ERR rv then Inr (rv, outfd, p1, s1)
               else bindR (fd_assign p1 i src_fd flags s1) (\<lambda>(rv', p2, s2).
                 if IS_ERR rv' then Inr (rv', outfd, p2, s2) else Inr (YAK_SUCCESS, i, p2, s2))))"

definition fd_alloc_file :: "fdtable \<Rightarrow> int \<Rightarrow> files \<Rightarrow> (status \<times> int \<times> fdtable \<times> files) res" where
  "fd_alloc_file p outfd s =
     bindR (fd_allocate_next p s) (\<lambda>(rv, i, p1, s1).
       if IS_ERR rv then Inr (rv, outfd, p1, s1)
       else
         bindR (fd_get p1 i) (\<lambda>desc.
           case desc of
             None \<Rightarrow> Inl NullDeref
           | Some d \<Rightarrow>
               (case falloc s1 of
                  (False, s2) \<Rightarrow> bindR (fd_close p1 i s2) (\<lambda>(p2, s3). Inr (YAK_OOM, outfd, p2, s3))
                | (True, s2) \<Rightarrow>
                    bindR (fd_put p1 i (Some (d\<lparr>fd_file := Some (fs_next s2)\<rparr>))) (\<lambda>p2.
                      Inr (YAK_SUCCESS, i, p2, put_file (fs_next s2) (Some file_init) (s2\<lparr>fs_next := fs_next s2 + 1\<rparr>))))))"

text \<open>The copy a forked process gets: every descriptor refers to the same open file.\<close>

fun clone_slots :: "fd option list \<Rightarrow> files \<Rightarrow> (fd option list \<times> files) res" where
  "clone_slots [] s = Inr ([], s)"
| "clone_slots (None # xs) s = bindR (clone_slots xs s) (\<lambda>(ys, s'). Inr (None # ys, s'))"
| "clone_slots (Some d # xs) s =
     (case falloc s of
        (False, _) \<Rightarrow> Inl KPanic
      | (True, s1) \<Rightarrow>
          bindR (file_ref (fd_file d) s1) (\<lambda>s2.
          bindR (clone_slots xs s2) (\<lambda>(ys, s3). Inr (Some d # ys, s3))))"

definition fd_clone :: "fdtable \<Rightarrow> files \<Rightarrow> (fdtable \<times> files) res" where
  "fd_clone old s =
     (case falloc s of
        (False, _) \<Rightarrow> Inl KPanic
      | (True, s1) \<Rightarrow>
          bindR (if fd_cap old \<le> 0 then Inr []
                 else case fds old of None \<Rightarrow> Inl NullDeref
                      | Some xs \<Rightarrow> ensure (nat (fd_cap old) \<le> length xs) OutOfBounds (Inr (take (nat (fd_cap old)) xs))) (\<lambda>slots.
          bindR (clone_slots slots s1) (\<lambda>(ys, s2). Inr (\<lparr>fds = Some ys, fd_cap = fd_cap old\<rparr>, s2))))"

end
