(* ===== verification/FileFacts.thy ===== *)
theory FileFacts
  imports FileDesc
begin

text \<open>
  What the descriptor table keeps and what its operations do. A table is read as a map from descriptor
  numbers; every open file's reference count is the number of descriptors that refer to it plus the
  references held elsewhere (\<open>extra\<close>: other processes' tables, system calls in progress).
\<close>

unbundle bit_operations_syntax

section \<open>Tables as lists\<close>

definition slots :: "fdtable \<Rightarrow> fd option list" where
  "slots p = (case fds p of None \<Rightarrow> [] | Some xs \<Rightarrow> xs)"

definition table_ok :: "fdtable \<Rightarrow> bool" where
  "table_ok p \<longleftrightarrow> fd_cap p = int (length (slots p)) \<and> length (slots p) \<le> 65535"

definition fd_at :: "fdtable \<Rightarrow> nat \<Rightarrow> fd option" where
  "fd_at p i = (if i < length (slots p) then slots p ! i else None)"

definition with_slots :: "fd option list \<Rightarrow> fdtable" where
  "with_slots xs = \<lparr>fds = Some xs, fd_cap = int (length xs)\<rparr>"

lemma with_slots_simps [simp]:
  "slots (with_slots xs) = xs" "fd_cap (with_slots xs) = int (length xs)" "fds (with_slots xs) = Some xs"
  "table_ok (with_slots xs) \<longleftrightarrow> length xs \<le> 65535"
  by (simp_all add: with_slots_def slots_def table_ok_def)

lemma table_cases:
  assumes "table_ok p" "i < length (slots p)"
  shows "p = with_slots (slots p)"
  using assms by (cases p) (auto simp: table_ok_def slots_def with_slots_def split: option.splits)

lemma fd_get_ok: "table_ok p \<Longrightarrow> i < length (slots p) \<Longrightarrow> fd_get p (int i) = Inr (slots p ! i)"
  using table_cases [of p i] by (cases p) (auto simp: fd_get_def slots_def split: option.splits)

lemma fd_put_ok:
  assumes "table_ok p" "i < length (slots p)"
  shows "fd_put p (int i) d = Inr (with_slots ((slots p)[i := d]))"
proof -
  have "fd_put (with_slots (slots p)) (int i) d = Inr (with_slots ((slots p)[i := d]))"
    using assms(2) by (simp add: fd_put_def with_slots_def)
  then show ?thesis using table_cases [OF assms] by simp
qed

section \<open>The search for a slot\<close>

lemma free_slot_None: "free_slot xs i = None \<longleftrightarrow> None \<notin> set xs"
  by (induction xs arbitrary: i) auto

lemma free_slot_Some:
  "free_slot xs i = Some j \<Longrightarrow> i \<le> j \<and> j < i + length xs \<and> xs ! (j - i) = None \<and> (\<forall>k < j - i. xs ! k \<noteq> None)"
proof (induction xs arbitrary: i)
  case (Cons x xs)
  show ?case
  proof (cases x)
    case None
    then show ?thesis using Cons.prems by simp
  next
    case (Some y)
    then have IH: "Suc i \<le> j \<and> j < Suc i + length xs \<and> xs ! (j - Suc i) = None \<and> (\<forall>k < j - Suc i. xs ! k \<noteq> None)"
      using Cons.IH [of "Suc i"] Cons.prems by simp
    then have "Suc i \<le> j" by blast
    then have "j - i = Suc (j - Suc i)" using Suc_diff_Suc [of i j] by simp
    moreover have "(x # xs) ! k \<noteq> None" if "k < j - i" for k
      using IH Some that by (cases k) auto
    ultimately show ?thesis using IH by simp
  qed
qed simp

lemma search_free_ok:
  assumes "table_ok p"
  shows "search_free p (int i) = Inr (map_option int (free_slot (drop i (slots p)) i))"
proof (cases "length (slots p) \<le> i")
  case True
  then show ?thesis using assms by (simp add: search_free_def table_ok_def)
next
  case False
  then have i: "i < length (slots p)" by simp
  have "search_free (with_slots (slots p)) (int i) = Inr (map_option int (free_slot (drop i (slots p)) i))"
    using i by (simp add: search_free_def split: option.splits)
  then show ?thesis using table_cases [OF assms i] by simp
qed

lemma fd_grow_ok:
  assumes p: "table_ok p" and c: "fd_cap p \<le> c" "c \<le> FD_LIMIT" and kz: "fs_kz s = []"
  shows "fd_grow p c s = Inr (YAK_SUCCESS, with_slots (slots p @ replicate (nat c - length (slots p)) None), s)"
proof -
  have old: "(if fd_cap p \<le> 0 then Inr []
      else case fds p of None \<Rightarrow> Inl NullDeref
        | Some xs \<Rightarrow> ensure (nat (fd_cap p) \<le> length xs) OutOfBounds (Inr (take (nat (fd_cap p)) xs))) = Inr (slots p)"
    using p by (auto simp: table_ok_def slots_def split: option.splits)
  have "int (length (slots p @ replicate (nat c - length (slots p)) None)) = c"
    using p c by (simp add: table_ok_def)
  then show ?thesis using c kz unfolding fd_grow_def falloc_def old by (simp add: with_slots_def)
qed

lemma fd_grow_full: "FD_LIMIT < c \<Longrightarrow> fd_cap p \<le> c \<Longrightarrow> fd_grow p c s = Inr (YAK_MFILE, p, s)"
  by (simp add: fd_grow_def)

lemma int32_small: "- 2147483648 \<le> x \<Longrightarrow> x < 2147483648 \<Longrightarrow> int32 x = x"
  by (simp add: int32_def signed_take_bit_int_eq_self)

lemma grow_by_4: "table_ok p \<Longrightarrow> int32 (fd_cap p + FD_GROW_BY) = fd_cap p + 4"
  by (simp add: int32_small table_ok_def FD_GROW_BY_def)

text \<open>Where \<open>fd_allocate_next\<close> looks and what it leaves.\<close>

definition next_fd :: "fdtable \<Rightarrow> nat" where
  "next_fd p = (case free_slot (slots p) 0 of Some i \<Rightarrow> i | None \<Rightarrow> length (slots p))"

definition has_slot :: "fdtable \<Rightarrow> bool" where
  "has_slot p \<longleftrightarrow> None \<in> set (slots p) \<or> length (slots p) + 4 \<le> 65535"

lemma next_fd_free: "fd_at p (next_fd p) = None" "i < next_fd p \<Longrightarrow> fd_at p i \<noteq> None"
proof -
  show "fd_at p (next_fd p) = None"
    using free_slot_Some [of "slots p" 0] by (auto simp: next_fd_def fd_at_def split: option.splits)
  show "i < next_fd p \<Longrightarrow> fd_at p i \<noteq> None"
  proof (cases "free_slot (slots p) 0")
    case None
    moreover assume "i < next_fd p"
    ultimately have "i < length (slots p)" by (simp add: next_fd_def)
    moreover have "None \<notin> set (slots p)" using None by (simp add: free_slot_None)
    ultimately show ?thesis using nth_mem [of i "slots p"] by (cases "slots p ! i") (simp_all add: fd_at_def)
  next
    case (Some j)
    moreover assume "i < next_fd p"
    ultimately show ?thesis using free_slot_Some [OF Some] by (simp add: fd_at_def next_fd_def)
  qed
qed

lemma fd_at_with: "fd_at (with_slots ((slots p @ replicate n None)[i := d])) j =
   (if j = i \<and> i < length (slots p) + n then d else fd_at p j)"
  by (auto simp: fd_at_def nth_list_update nth_append)

lemma allocate_next_ok:
  assumes p: "table_ok p" and kz: "fs_kz s = []"
  shows "if has_slot p
    then \<exists>p'. fd_allocate_next p s = Inr (YAK_SUCCESS, int (next_fd p), p', s) \<and> table_ok p' \<and>
      next_fd p < length (slots p') \<and>
      fd_at p' = (fd_at p)(next_fd p \<mapsto> \<lparr>fd_file = None, fd_flags = 0\<rparr>)
    else fd_allocate_next p s = Inr (YAK_MFILE, 0, p, s)"
proof (cases "free_slot (slots p) 0")
  case (Some i)
  then have i: "i < length (slots p)" "None \<in> set (slots p)" using free_slot_Some [OF Some] by (auto simp: in_set_conv_nth)
  let ?p = "with_slots ((slots p)[i := Some \<lparr>fd_file = None, fd_flags = 0\<rparr>])"
  have "fd_allocate_next p s = Inr (YAK_SUCCESS, int i, ?p, s)"
    using search_free_ok [OF p, of 0] Some kz fd_put_ok [OF p i(1)]
    by (simp add: fd_allocate_next_def new_fd_def falloc_def)
  moreover have "fd_at ?p = (fd_at p)(i \<mapsto> \<lparr>fd_file = None, fd_flags = 0\<rparr>)"
    using i(1) fd_at_with [of p 0 i] by (simp add: fun_eq_iff)
  ultimately show ?thesis using i p Some by (simp add: has_slot_def next_fd_def table_ok_def)
next
  case None
  let ?n = "length (slots p)"
  have full: "None \<notin> set (slots p)" using None by (simp add: free_slot_None)
  have none: "search_free p 0 = Inr None" using search_free_ok [OF p, of 0] None by simp
  note grow = grow_by_4 [OF p]
  show ?thesis
  proof (cases "?n + 4 \<le> 65535")
    case True
    let ?q = "with_slots (slots p @ replicate 4 None)"
    have g: "fd_grow p (fd_cap p + 4) s = Inr (YAK_SUCCESS, ?q, s)"
      using fd_grow_ok [OF p, of "fd_cap p + 4" s] True kz p by (simp add: FD_LIMIT_def table_ok_def nat_add_distrib)
    have q: "table_ok ?q" "?n < length (slots ?q)" using True by simp_all
    let ?p = "with_slots ((slots p @ replicate 4 None)[?n := Some \<lparr>fd_file = None, fd_flags = 0\<rparr>])"
    have "fd_allocate_next p s = Inr (YAK_SUCCESS, int ?n, ?p, s)"
      using none g kz fd_put_ok [OF q] unfolding fd_allocate_next_def grow by (simp add: new_fd_def falloc_def FD_GROW_BY_def)
    moreover have "fd_at ?p = (fd_at p)(?n \<mapsto> \<lparr>fd_file = None, fd_flags = 0\<rparr>)"
      using fd_at_with [of p 4 ?n] by (simp add: fun_eq_iff)
    ultimately show ?thesis using True None by (simp add: has_slot_def next_fd_def)
  next
    case False
    have "fd_grow p (fd_cap p + 4) s = Inr (YAK_MFILE, p, s)"
      using fd_grow_full [of "fd_cap p + 4" p s] False p by (simp add: FD_LIMIT_def table_ok_def)
    then show ?thesis using none full False unfolding fd_allocate_next_def grow by (simp add: has_slot_def)
  qed
qed


section \<open>References to open files\<close>

definition slot_refs :: "nat \<Rightarrow> fd option \<Rightarrow> nat" where
  "slot_refs f d = (case d of None \<Rightarrow> 0 | Some x \<Rightarrow> if fd_file x = Some f then 1 else 0)"

definition table_refs :: "fdtable \<Rightarrow> nat \<Rightarrow> nat" where
  "table_refs p f = (\<Sum>d\<leftarrow>slots p. slot_refs f d)"

definition counts :: "open_file \<Rightarrow> nat \<Rightarrow> bool" where
  "counts x n \<longleftrightarrow> 0 < n \<and> n < 2 ^ 64 \<and> file_refcnt x = n"

definition files_ok :: "(nat \<Rightarrow> nat) \<Rightarrow> fdtable \<Rightarrow> files \<Rightarrow> bool" where
  "files_ok extra p s \<longleftrightarrow>
     (\<forall>d f. Some d \<in> set (slots p) \<longrightarrow> fd_file d = Some f \<longrightarrow> fs_files s f \<noteq> None) \<and>
     (\<forall>f x. fs_files s f = Some x \<longrightarrow> counts x (table_refs p f + extra f)) \<and>
     (\<forall>f \<ge> fs_next s. fs_files s f = None)"

lemma sum_list_update:
  "i < length xs \<Longrightarrow> (\<Sum>d\<leftarrow>xs[i := y]. g d) + g (xs ! i) = (\<Sum>d\<leftarrow>xs. g d) + (g y :: nat)"
proof (induction xs arbitrary: i)
  case (Cons x xs)
  then show ?case by (cases i) (auto simp: add.commute add.left_commute)
qed simp

text \<open>Tables that agree as maps hold the same references.\<close>

lemma table_refs_map:
  "table_refs p f = card {i. \<exists>d. fd_at p i = Some d \<and> fd_file d = Some f}"
proof -
  have "(\<Sum>d\<leftarrow>xs. slot_refs f d) = card {i. i < length xs \<and> (\<exists>d. xs ! i = Some d \<and> fd_file d = Some f)}" for xs
  proof (induction xs rule: rev_induct)
    case (snoc y ys)
    let ?A = "{i. i < length ys \<and> (\<exists>d. ys ! i = Some d \<and> fd_file d = Some f)}"
    have "{i. i < length (ys @ [y]) \<and> (\<exists>d. (ys @ [y]) ! i = Some d \<and> fd_file d = Some f)} =
        (if \<exists>d. y = Some d \<and> fd_file d = Some f then insert (length ys) ?A else ?A)"
      by (auto simp: nth_append less_Suc_eq)
    moreover have "finite ?A" "length ys \<notin> ?A" by simp_all
    ultimately show ?case using snoc by (auto simp: slot_refs_def split: option.splits)
  qed simp
  moreover have "{i. \<exists>d. fd_at p i = Some d \<and> fd_file d = Some f} =
      {i. i < length (slots p) \<and> (\<exists>d. slots p ! i = Some d \<and> fd_file d = Some f)}"
    by (auto simp: fd_at_def split: if_splits)
  ultimately show ?thesis by (simp add: table_refs_def)
qed

lemma slots_map: "Some d \<in> set (slots p) \<longleftrightarrow> (\<exists>i. fd_at p i = Some d)"
  by (auto simp: fd_at_def in_set_conv_nth split: if_splits)

lemma finite_map: "finite {i. \<exists>d. fd_at p i = Some d \<and> P d}"
  by (rule finite_subset [of _ "{..< length (slots p)}"]) (auto simp: fd_at_def split: if_splits)

lemma table_refs_upd:
  assumes "fd_at p' = (fd_at p)(i := d)"
  shows "table_refs p' f + slot_refs f (fd_at p i) = table_refs p f + slot_refs f d"
proof -
  let ?A = "\<lambda>m. {j. \<exists>x. m j = Some x \<and> fd_file x = Some f}" and ?R = "{j. j \<noteq> i \<and> (\<exists>x. fd_at p j = Some x \<and> fd_file x = Some f)}"
  have fin: "finite ?R" using finite_subset [OF _ finite_map [of p "\<lambda>x. fd_file x = Some f"], of ?R] by auto
  have "card (?A m) = card ?R + slot_refs f (m i)" if "\<And>j. j \<noteq> i \<Longrightarrow> m j = fd_at p j" for m
  proof -
    have eq: "m j = fd_at p j" if "j \<noteq> i" for j using \<open>\<And>j. j \<noteq> i \<Longrightarrow> m j = fd_at p j\<close> that .
    have "?A m = (if \<exists>x. m i = Some x \<and> fd_file x = Some f then insert i ?R else ?R)"
      using eq by (auto split: if_splits) (metis eq)+
    then show ?thesis using fin by (auto simp: slot_refs_def split: option.splits)
  qed
  from this [of "fd_at p"] this [of "fd_at p'"] show ?thesis by (simp add: table_refs_map assms)
qed

lemma table_refs_same: "fd_at p' = fd_at p \<Longrightarrow> table_refs p' = table_refs p"
  by (simp add: fun_eq_iff table_refs_map)

lemma no_file_refs: "table_refs p f = 0 \<longleftrightarrow> (\<forall>i d. fd_at p i = Some d \<longrightarrow> fd_file d \<noteq> Some f)"
  unfolding table_refs_map using finite_map [of p "\<lambda>d. fd_file d = Some f"] by auto

lemma files_ok_map: "files_ok extra p s \<longleftrightarrow>
     (\<forall>i d f. fd_at p i = Some d \<longrightarrow> fd_file d = Some f \<longrightarrow> fs_files s f \<noteq> None) \<and>
     (\<forall>f x. fs_files s f = Some x \<longrightarrow> counts x (table_refs p f + extra f)) \<and>
     (\<forall>f \<ge> fs_next s. fs_files s f = None)"
  unfolding files_ok_def slots_map by blast

lemma files_okD:
  assumes "files_ok extra p s" "fs_files s f = Some x"
  shows "0 < file_refcnt x" "file_refcnt x < 2 ^ 64" "file_refcnt x = table_refs p f + extra f"
proof -
  have "counts x (table_refs p f + extra f)" using assms unfolding files_ok_def by blast
  then show "0 < file_refcnt x" "file_refcnt x < 2 ^ 64" "file_refcnt x = table_refs p f + extra f"
    by (simp_all add: counts_def)
qed

text \<open>One slot and one file change together.\<close>

lemma files_ok_upd:
  assumes f: "files_ok extra p s" and m: "fd_at p' = (fd_at p)(i := d)"
    and s': "fs_files s' = (fs_files s)(g := y)" "fs_next s \<le> fs_next s'" "g < fs_next s'"
    and other: "\<And>h. h \<noteq> g \<Longrightarrow> slot_refs h (fd_at p i) = slot_refs h d"
    and new: "\<And>x. y = Some x \<Longrightarrow> counts x (table_refs p' g + extra g)"
    and gone: "y = None \<Longrightarrow> table_refs p' g = 0"
  shows "files_ok extra p' s'"
  unfolding files_ok_map
proof (intro conjI allI impI)
  have same: "table_refs p' h = table_refs p h" if "h \<noteq> g" for h
    using table_refs_upd [OF m, of h] other [OF that] by simp
  fix j e h assume e: "fd_at p' j = Some e" "fd_file e = Some h"
  show "fs_files s' h \<noteq> None"
  proof (cases "h = g")
    case True
    then have "table_refs p' g \<noteq> 0" using e no_file_refs by blast
    then show ?thesis using True s'(1) gone by auto
  next
    case False
    then have "table_refs p h \<noteq> 0" using e no_file_refs same by metis
    then have "fs_files s h \<noteq> None" using f unfolding files_ok_map no_file_refs by blast
    then show ?thesis using False s'(1) by simp
  qed
next
  fix h x assume x: "fs_files s' h = Some x"
  show "counts x (table_refs p' h + extra h)"
  proof (cases "h = g")
    case True
    then show ?thesis using x s'(1) new by simp
  next
    case False
    then have "table_refs p' h = table_refs p h" using table_refs_upd [OF m, of h] other [of h] by simp
    moreover have "fs_files s h = Some x" using x s'(1) False by simp
    ultimately show ?thesis using f by (simp add: files_ok_def)
  qed
next
  fix h assume "fs_next s' \<le> h"
  then show "fs_files s' h = None" using f s' by (auto simp: files_ok_def)
qed

section \<open>Operations\<close>

text \<open>\<open>open\<close>: a new file in the lowest free descriptor.\<close>

lemma fd_alloc_file_ok:
  assumes p: "table_ok p" and f: "files_ok extra p s" and kz: "fs_kz s = []" and e: "extra (fs_next s) = 0"
  shows "if has_slot p
    then \<exists>p' s'. fd_alloc_file p outfd s = Inr (YAK_SUCCESS, int (next_fd p), p', s') \<and> table_ok p' \<and>
      files_ok extra p' s' \<and> fd_at p' = (fd_at p)(next_fd p \<mapsto> \<lparr>fd_file = Some (fs_next s), fd_flags = 0\<rparr>) \<and>
      s' = put_file (fs_next s) (Some file_init) (s\<lparr>fs_next := fs_next s + 1\<rparr>)
    else fd_alloc_file p outfd s = Inr (YAK_MFILE, outfd, p, s)"
proof (cases "has_slot p")
  case True
  let ?i = "next_fd p" and ?n = "fs_next s"
  obtain p1 where p1: "fd_allocate_next p s = Inr (YAK_SUCCESS, int ?i, p1, s)" "table_ok p1" "?i < length (slots p1)"
      "fd_at p1 = (fd_at p)(?i \<mapsto> \<lparr>fd_file = None, fd_flags = 0\<rparr>)"
    using allocate_next_ok [OF p kz] True by auto
  have at: "slots p1 ! ?i = Some \<lparr>fd_file = None, fd_flags = 0\<rparr>"
    using p1(3) fun_cong [OF p1(4), of ?i] by (simp add: fd_at_def)
  let ?p = "with_slots ((slots p1)[?i := Some \<lparr>fd_file = Some ?n, fd_flags = 0\<rparr>])"
  let ?s = "put_file ?n (Some file_init) (s\<lparr>fs_next := ?n + 1\<rparr>)"
  have run: "fd_alloc_file p outfd s = Inr (YAK_SUCCESS, int ?i, ?p, ?s)"
    using p1(1) fd_get_ok [OF p1(2,3)] at fd_put_ok [OF p1(2,3)] kz by (simp add: fd_alloc_file_def falloc_def)
  have tp: "table_ok ?p" using p1(2) by (simp add: table_ok_def)
  have map: "fd_at ?p = (fd_at p)(?i \<mapsto> \<lparr>fd_file = Some ?n, fd_flags = 0\<rparr>)"
    using fd_at_with [of p1 0 ?i] p1(3,4) by (simp add: fun_eq_iff)
  have fresh: "fs_files s ?n = None" using f by (simp add: files_ok_def)
  have none: "table_refs p ?n = 0"
  proof -
    have "{i. \<exists>d. fd_at p i = Some d \<and> fd_file d = Some ?n} = {}"
      using f fresh slots_map [of _ p] unfolding files_ok_def by blast
    then show ?thesis unfolding table_refs_map by (simp only: card.empty)
  qed
  have upd: "table_refs ?p g + slot_refs g None = table_refs p g + (if g = ?n then 1 else 0)" for g
    using table_refs_upd [OF map, of g] next_fd_free(1) [of p] by (simp add: slot_refs_def)
  have "files_ok extra ?p ?s"
    by (rule files_ok_upd [OF f map, of _ ?n "Some file_init"])
       (use next_fd_free(1) [of p] none e upd [of ?n] in \<open>auto simp: put_file_def file_init_def slot_refs_def counts_def\<close>)
  then show ?thesis using True run tp map by auto
next
  case False
  then show ?thesis using allocate_next_ok [OF p kz] by (simp add: fd_alloc_file_def)
qed


text \<open>What closing needs of the files: each has its vnode.\<close>

definition have_vnodes :: "files \<Rightarrow> bool" where
  "have_vnodes s \<longleftrightarrow> (\<forall>f x. fs_files s f = Some x \<longrightarrow> (\<exists>v vn. file_vnode x = Some v \<and> fs_vnodes s v = Some vn))"

definition drop_ref :: "nat \<Rightarrow> open_file \<Rightarrow> files \<Rightarrow> files" where
  "drop_ref f x s = put_file f (if file_refcnt x = 1 then None else Some (x\<lparr>file_refcnt := file_refcnt x - 1\<rparr>))
     (if file_refcnt x = 1
      then s\<lparr>fs_vnodes := (case vnode_deref (file_vnode x) (fs_vnodes s) of Inl _ \<Rightarrow> fs_vnodes s | Inr vns \<Rightarrow> vns)\<rparr> else s)"

lemma file_deref_ok:
  assumes f: "fs_files s f = Some x" "0 < file_refcnt x" and v: "have_vnodes s"
  shows "file_deref (Some f) s = Inr (drop_ref f x s)"
proof -
  obtain v vn where "file_vnode x = Some v" "fs_vnodes s v = Some vn" using v f(1) unfolding have_vnodes_def by blast
  then show ?thesis
    using f by (auto simp: file_deref_def file_at_def drop_ref_def Let_def file_cleanup_def put_file_def vnode_deref_def)
qed

lemma drop_ref_simps [simp]:
  "fs_files (drop_ref f x s) = (fs_files s)(f := if file_refcnt x = 1 then None else Some (x\<lparr>file_refcnt := file_refcnt x - 1\<rparr>))"
  "fs_next (drop_ref f x s) = fs_next s" "fs_kz (drop_ref f x s) = fs_kz s"
  by (simp_all add: drop_ref_def put_file_def)

lemma drop_ref_vnodes:
  assumes v: "have_vnodes s" and f: "fs_files s f = Some x"
  shows "have_vnodes (drop_ref f x s)"
  unfolding have_vnodes_def
proof (intro allI impI)
  fix g y assume "fs_files (drop_ref f x s) g = Some y"
  then obtain y0 where "fs_files s g = Some y0" "file_vnode y = file_vnode y0"
    using f by (auto split: if_splits)
  then obtain u un where "file_vnode y = Some u" "fs_vnodes s u = Some un" using v unfolding have_vnodes_def by metis
  moreover from this(2) have "\<exists>un'. fs_vnodes (drop_ref f x s) u = Some un'"
    by (auto simp: drop_ref_def put_file_def vnode_deref_def vnode_at_def split: option.splits)
  ultimately show "\<exists>v vn. file_vnode y = Some v \<and> fs_vnodes (drop_ref f x s) v = Some vn" by blast
qed

text \<open>\<open>close\<close>: the descriptor is free, its reference is gone, and with the last one the file.\<close>

lemma fd_close_ok:
  assumes p: "table_ok p" and f: "files_ok extra p s" and v: "have_vnodes s"
    and d: "fd_at p i = Some d" "fd_file d = Some g" and x: "fs_files s g = Some x"
  shows "\<exists>p'. fd_close p (int i) s = Inr (p', drop_ref g x s) \<and> table_ok p' \<and> length (slots p') = length (slots p) \<and>
     fd_at p' = (fd_at p)(i := None) \<and> files_ok extra p' (drop_ref g x s)"
proof -
  have i: "i < length (slots p)" "slots p ! i = Some d" using d(1) by (auto simp: fd_at_def split: if_splits)
  note fx = files_okD [OF f x]
  let ?p = "with_slots ((slots p)[i := None])"
  have run: "fd_close p (int i) s = Inr (?p, drop_ref g x s)"
    using fd_get_ok [OF p i(1)] fd_put_ok [OF p i(1)] i(2) d(2) file_deref_ok [OF x fx(1) v] by (simp add: fd_close_def)
  have map: "fd_at ?p = (fd_at p)(i := None)" using fd_at_with [of p 0 i None] i(1) by (simp add: fun_eq_iff)
  have upd: "table_refs ?p g + 1 = table_refs p g"
    using table_refs_upd [OF map, of g] d by (simp add: slot_refs_def)
  have "files_ok extra ?p (drop_ref g x s)"
  proof (rule files_ok_upd [OF f map])
    show "fs_files (drop_ref g x s) = (fs_files s)(g := if file_refcnt x = 1 then None else Some (x\<lparr>file_refcnt := file_refcnt x - 1\<rparr>))"
      by simp
    show "g < fs_next (drop_ref g x s)" using f x by (auto simp: files_ok_def not_less [symmetric])
  qed (use d fx upd in \<open>auto simp: slot_refs_def counts_def split: if_splits\<close>)
  then show ?thesis using run map p by (auto simp: table_ok_def)
qed


text \<open>A given slot, made free first.\<close>

definition freed :: "fdtable \<Rightarrow> nat \<Rightarrow> files \<Rightarrow> files" where
  "freed p i s = (case fd_at p i of None \<Rightarrow> s | Some d \<Rightarrow>
     (case fd_file d of None \<Rightarrow> s | Some g \<Rightarrow>
        (case fs_files s g of None \<Rightarrow> s | Some x \<Rightarrow> drop_ref g x s)))"

definition all_open :: "fdtable \<Rightarrow> bool" where
  "all_open p \<longleftrightarrow> (\<forall>j d. fd_at p j = Some d \<longrightarrow> fd_file d \<noteq> None)"

definition in_reach :: "fdtable \<Rightarrow> nat \<Rightarrow> bool" where
  "in_reach p i \<longleftrightarrow> i < length (slots p) \<or> i + 4 \<le> 65535"

lemma allocate_at_ok:
  assumes p: "table_ok p" and f: "files_ok extra p s" and v: "have_vnodes s" and kz: "fs_kz s = []"
    and all: "all_open p" and i: "in_reach p i"
  shows "\<exists>p'. fd_allocate_at p (int i) s = Inr (YAK_SUCCESS, int i, p', freed p i s) \<and> table_ok p' \<and> i < length (slots p') \<and>
     fd_at p' = (fd_at p)(i \<mapsto> \<lparr>fd_file = None, fd_flags = 0\<rparr>) \<and> files_ok extra p' (freed p i s) \<and>
     have_vnodes (freed p i s) \<and> fs_kz (freed p i s) = []"
proof -
  let ?new = "Some \<lparr>fd_file = None, fd_flags = 0\<rparr>"
  obtain p1 where p1: "(if int i \<ge> fd_cap p then fd_grow p (int32 (int i + FD_GROW_BY)) s else Inr (YAK_SUCCESS, p, s)) =
      Inr (YAK_SUCCESS, p1, s)" "table_ok p1" "i < length (slots p1)" "fd_at p1 = fd_at p"
  proof (cases "i < length (slots p)")
    case True
    then show thesis using that [of p] p by (simp add: table_ok_def)
  next
    case False
    then have i4: "i + 4 \<le> 65535" using i by (simp add: in_reach_def)
    let ?p = "with_slots (slots p @ replicate (i + 4 - length (slots p)) None)"
    have "fd_grow p (int i + 4) s = Inr (YAK_SUCCESS, ?p, s)"
      using fd_grow_ok [OF p, of "int i + 4" s] False i4 p kz by (simp add: FD_LIMIT_def table_ok_def nat_add_distrib)
    moreover have "int32 (int i + FD_GROW_BY) = int i + 4" using i4 by (simp add: int32_small FD_GROW_BY_def)
    moreover have same: "fd_at ?p = fd_at p" by (auto simp: fd_at_def nth_append fun_eq_iff)
    moreover have "int i \<ge> fd_cap p" using False p by (simp add: table_ok_def)
    ultimately have "(if int i \<ge> fd_cap p then fd_grow p (int32 (int i + FD_GROW_BY)) s else Inr (YAK_SUCCESS, p, s)) =
      Inr (YAK_SUCCESS, ?p, s)" by simp
    moreover have "table_ok ?p" "i < length (slots ?p)" using i4 False by simp_all
    ultimately show thesis using same by (rule that)
  qed
  have f1: "files_ok extra p1 s" using f unfolding files_ok_map p1(4) table_refs_same [OF p1(4)] .
  obtain p2 where p2: "(if slots p1 ! i \<noteq> None then fd_close p1 (int i) s else Inr (p1, s)) = Inr (p2, freed p i s)"
      "table_ok p2" "i < length (slots p2)" "fd_at p2 = (fd_at p)(i := None)" "files_ok extra p2 (freed p i s)"
      "have_vnodes (freed p i s)" "fs_kz (freed p i s) = []"
  proof (cases "fd_at p i")
    case None
    then have "fd_at p = (fd_at p)(i := None)" "slots p1 ! i = None" "freed p i s = s"
      using p1(3) fun_cong [OF p1(4), of i] by (auto simp: freed_def fd_at_def [of p1])
    then show thesis using that [of p1] p1 f1 v kz by simp
  next
    case (Some d)
    then obtain g where g: "fd_file d = Some g" using all Some unfolding all_open_def by blast
    then obtain x where x: "fs_files s g = Some x" using f Some unfolding files_ok_map by blast
    have d: "fd_at p1 i = Some d" using Some p1(4) by simp
    then have "slots p1 ! i = Some d" using p1(3) by (simp add: fd_at_def)
    moreover have "freed p i s = drop_ref g x s" using Some g x by (simp add: freed_def)
    moreover obtain p' where "fd_close p1 (int i) s = Inr (p', drop_ref g x s)" "table_ok p'"
       "length (slots p') = length (slots p1)" "fd_at p' = (fd_at p1)(i := None)" "files_ok extra p' (drop_ref g x s)"
      using fd_close_ok [OF p1(2) f1 v d g x] by blast
    ultimately show thesis using that [of p'] drop_ref_vnodes [OF v x] p1(3,4) kz by simp
  qed
  have now: "slots p2 ! i = None" using p2(3) fun_cong [OF p2(4), of i] by (simp add: fd_at_def [of p2])
  let ?p = "with_slots ((slots p2)[i := ?new])"
  have run: "fd_allocate_at p (int i) s = Inr (YAK_SUCCESS, int i, ?p, freed p i s)"
    unfolding fd_allocate_at_def p1(1)
    using fd_get_ok [OF p1(2,3)] p2(1,7) fd_get_ok [OF p2(2,3)] now fd_put_ok [OF p2(2,3)]
    by (simp add: new_fd_def falloc_def)
  have map: "fd_at ?p = (fd_at p)(i := ?new)" using fd_at_with [of p2 0 i] p2(3,4) by (simp add: fun_eq_iff)
  have map2: "fd_at ?p = (fd_at p2)(i := ?new)" using map p2(4) by simp
  have "files_ok extra ?p (freed p i s)"
  proof -
    have "table_refs ?p = table_refs p2"
    proof
      fix h show "table_refs ?p h = table_refs p2 h"
        using table_refs_upd [OF map2, of h] p2(4) by (simp add: slot_refs_def)
    qed
    then show ?thesis using p2(5) map2 unfolding files_ok_map by auto
  qed
  then show ?thesis using run map p2 by (auto simp: table_ok_def)
qed

text \<open>The new descriptor takes the file of the old one.\<close>

lemma fd_assign_ok:
  assumes p: "table_ok p" and f: "files_ok extra p s" and i: "i < length (slots p)"
    and d: "fd_at p i = Some \<lparr>fd_file = None, fd_flags = 0\<rparr>"
    and src: "fd_file src = Some g" "fs_files s g = Some x" "file_refcnt x + 1 < 2 ^ 64"
  defines "s' \<equiv> put_file g (Some (x\<lparr>file_refcnt := file_refcnt x + 1\<rparr>)) s"
  shows "\<exists>p'. fd_assign p (int i) src flags s = Inr (YAK_SUCCESS, p', s') \<and> table_ok p' \<and> files_ok extra p' s' \<and>
     fd_at p' = (fd_at p)(i \<mapsto> \<lparr>fd_file = Some g, fd_flags = dup_flags flags (fd_flags src)\<rparr>)"
proof -
  let ?d = "Some \<lparr>fd_file = Some g, fd_flags = dup_flags flags (fd_flags src)\<rparr>"
  let ?p = "with_slots ((slots p)[i := ?d])"
  have at: "slots p ! i = Some \<lparr>fd_file = None, fd_flags = 0\<rparr>" using d i by (simp add: fd_at_def)
  have run: "fd_assign p (int i) src flags s = Inr (YAK_SUCCESS, ?p, s')"
    using fd_get_ok [OF p i] fd_put_ok [OF p i] at src
    by (simp add: fd_assign_def file_ref_def file_at_def s'_def)
  have map: "fd_at ?p = (fd_at p)(i := ?d)" using fd_at_with [of p 0 i] i by (simp add: fun_eq_iff)
  have upd: "table_refs ?p g = table_refs p g + 1" using table_refs_upd [OF map, of g] d by (simp add: slot_refs_def)
  have "files_ok extra ?p s'"
  proof (rule files_ok_upd [OF f map])
    show "fs_files s' = (fs_files s)(g := Some (x\<lparr>file_refcnt := file_refcnt x + 1\<rparr>))" "fs_next s \<le> fs_next s'"
      by (simp_all add: s'_def put_file_def)
    show "g < fs_next s'" using f src(2) by (auto simp: files_ok_def s'_def put_file_def not_less [symmetric])
  qed (use d upd files_okD [OF f src(2)] src(3) in \<open>auto simp: slot_refs_def counts_def\<close>)
  then show ?thesis using run map p by (auto simp: table_ok_def)
qed

text \<open>\<open>dup2\<close>.\<close>

lemma freed_other:
  assumes f: "files_ok extra p s" and src: "fd_at p j = Some d" "fd_file d = Some g" "fs_files s g = Some x" and ij: "i \<noteq> j"
  shows "\<exists>y. fs_files (freed p i s) g = Some y \<and> file_refcnt y \<le> file_refcnt x"
proof (cases "\<exists>e. fd_at p i = Some e \<and> fd_file e = Some g")
  case True
  then obtain e where e: "fd_at p i = Some e" "fd_file e = Some g" by blast
  have "card {i, j} \<le> table_refs p g"
    unfolding table_refs_map by (rule card_mono) (use finite_map [of p] e src in auto)
  then have "file_refcnt x \<noteq> 1" using files_okD(3) [OF f src(3)] ij by simp
  then show ?thesis using e src(3) by (simp add: freed_def)
next
  case False
  then have "fs_files (freed p i s) g = fs_files s g"
    by (auto simp: freed_def split: option.splits)
  then show ?thesis using src(3) by simp
qed

lemma fd_duplicate_ok:
  assumes p: "table_ok p" and f: "files_ok extra p s" and v: "have_vnodes s" and kz: "fs_kz s = []"
    and all: "all_open p" and i: "in_reach p new" "old \<noteq> new"
    and flags: "flags AND FD_DUPE_MINIMUM = 0"
    and src: "fd_at p old = Some d" "fd_file d = Some g" "fs_files s g = Some x" "file_refcnt x + 1 < 2 ^ 64"
  shows "\<exists>p' s'. fd_duplicate fuel p (int old) (int new) flags outfd s = Inr (YAK_SUCCESS, int new, p', s') \<and>
     table_ok p' \<and> files_ok extra p' s' \<and>
     fd_at p' = (fd_at p)(new \<mapsto> \<lparr>fd_file = Some g, fd_flags = dup_flags flags (fd_flags d)\<rparr>)"
proof -
  obtain p1 where a: "fd_allocate_at p (int new) s = Inr (YAK_SUCCESS, int new, p1, freed p new s)" "table_ok p1"
      "new < length (slots p1)" "fd_at p1 = (fd_at p)(new \<mapsto> \<lparr>fd_file = None, fd_flags = 0\<rparr>)"
      "files_ok extra p1 (freed p new s)"
    using allocate_at_ok [OF p f v kz all i(1)] by blast
  obtain y where y: "fs_files (freed p new s) g = Some y" "file_refcnt y + 1 < 2 ^ 64"
    using freed_other [OF f src(1-3), of new] i(2) src(4) by fastforce
  have "fd_at p1 new = Some \<lparr>fd_file = None, fd_flags = 0\<rparr>" using a(4) by simp
  then obtain p2 where b: "fd_assign p1 (int new) d flags (freed p new s) =
      Inr (YAK_SUCCESS, p2, put_file g (Some (y\<lparr>file_refcnt := file_refcnt y + 1\<rparr>)) (freed p new s))"
      "table_ok p2" "files_ok extra p2 (put_file g (Some (y\<lparr>file_refcnt := file_refcnt y + 1\<rparr>)) (freed p new s))"
      "fd_at p2 = (fd_at p1)(new \<mapsto> \<lparr>fd_file = Some g, fd_flags = dup_flags flags (fd_flags d)\<rparr>)"
    using fd_assign_ok [OF a(2,5,3) _ src(2) y] by blast
  have old: "old < length (slots p)" "slots p ! old = Some d" using src(1) by (auto simp: fd_at_def split: if_splits)
  then have "fds p \<noteq> None" by (cases "fds p") (simp_all add: slots_def)
  then have "fd_safe_get p (int old) = Inr (Some d)"
    using fd_get_ok [OF p old(1)] old p by (simp add: fd_safe_get_def table_ok_def)
  then have "fd_duplicate fuel p (int old) (int new) flags outfd s =
      Inr (YAK_SUCCESS, int new, p2, put_file g (Some (y\<lparr>file_refcnt := file_refcnt y + 1\<rparr>)) (freed p new s))"
    using i(2) flags a(1) b(1) by (simp add: fd_duplicate_def)
  then show ?thesis using b a(4) by auto
qed


section \<open>Fork\<close>

definition bump :: "(nat \<Rightarrow> nat) \<Rightarrow> files \<Rightarrow> files" where
  "bump g s = s\<lparr>fs_files := (\<lambda>f. map_option (\<lambda>x. x\<lparr>file_refcnt := file_refcnt x + g f\<rparr>) (fs_files s f))\<rparr>"

lemma clone_slots_ok:
  assumes "fs_kz s = []" "\<And>d. Some d \<in> set xs \<Longrightarrow> \<exists>f. fd_file d = Some f \<and> fs_files s f \<noteq> None"
    "\<And>f x. fs_files s f = Some x \<Longrightarrow> file_refcnt x + (\<Sum>d\<leftarrow>xs. slot_refs f d) < 2 ^ 64"
  shows "clone_slots xs s = Inr (xs, bump (\<lambda>f. \<Sum>d\<leftarrow>xs. slot_refs f d) s)"
  using assms
proof (induction xs arbitrary: s)
  case Nil
  have "(\<lambda>f. map_option (\<lambda>x. x) (fs_files s f)) = fs_files s" by (simp add: option.map_ident)
  then show ?case by (simp add: bump_def)
next
  case (Cons y xs)
  show ?case
  proof (cases y)
    case None
    have "clone_slots xs s = Inr (xs, bump (\<lambda>f. \<Sum>d\<leftarrow>xs. slot_refs f d) s)"
      by (rule Cons.IH) (use Cons.prems in \<open>auto simp: None slot_refs_def\<close>)
    then show ?thesis by (simp add: None slot_refs_def)
  next
    case (Some d)
    obtain f x where f: "fd_file d = Some f" "fs_files s f = Some x" using Cons.prems(2) Some by force
    let ?s = "put_file f (Some (x\<lparr>file_refcnt := file_refcnt x + 1\<rparr>)) s"
    have one: "slot_refs h y = (if h = f then 1 else 0)" for h using Some f by (simp add: slot_refs_def)
    have ref: "file_ref (Some f) s = Inr ?s"
      using f(2) Cons.prems(3) [OF f(2)] by (simp add: file_ref_def file_at_def one)
    have "clone_slots xs ?s = Inr (xs, bump (\<lambda>h. \<Sum>d\<leftarrow>xs. slot_refs h d) ?s)"
    proof (rule Cons.IH)
      show "\<exists>h. fd_file e = Some h \<and> fs_files ?s h \<noteq> None" if "Some e \<in> set xs" for e
      proof -
        obtain h where "fd_file e = Some h" "fs_files s h \<noteq> None" using Cons.prems(2) [of e] \<open>Some e \<in> set xs\<close> by auto
        then show ?thesis by (auto simp: put_file_def)
      qed
      show "file_refcnt z + (\<Sum>d\<leftarrow>xs. slot_refs h d) < 2 ^ 64" if "fs_files ?s h = Some z" for h z
        using that Cons.prems(3) [of h] f(2) by (auto simp: put_file_def one split: if_splits)
    qed (use Cons.prems in \<open>simp add: put_file_def\<close>)
    moreover have "bump (\<lambda>h. \<Sum>d\<leftarrow>xs. slot_refs h d) ?s = bump (\<lambda>h. \<Sum>d\<leftarrow>y # xs. slot_refs h d) s"
      using f(2) by (auto simp: bump_def put_file_def one fun_eq_iff)
    ultimately show ?thesis using Cons.prems(1) Some f ref by (simp add: falloc_def)
  qed
qed

text \<open>The child's table shows the same files, and every file gains exactly the references of that
  table.\<close>

lemma fd_clone_ok:
  assumes p: "table_ok p" and f: "files_ok extra p s" and all: "all_open p" and kz: "fs_kz s = []"
    and room: "\<And>f x. fs_files s f = Some x \<Longrightarrow> file_refcnt x + table_refs p f < 2 ^ 64"
  shows "\<exists>q. fd_clone p s = Inr (q, bump (table_refs p) s) \<and> table_ok q \<and> fd_at q = fd_at p \<and>
     files_ok (\<lambda>f. extra f + table_refs q f) p (bump (table_refs p) s)"
proof -
  have old: "(if fd_cap p \<le> 0 then Inr []
      else case fds p of None \<Rightarrow> Inl NullDeref
        | Some xs \<Rightarrow> ensure (nat (fd_cap p) \<le> length xs) OutOfBounds (Inr (take (nat (fd_cap p)) xs))) = Inr (slots p)"
    using p by (auto simp: table_ok_def slots_def split: option.splits)
  have "\<exists>f. fd_file d = Some f \<and> fs_files s f \<noteq> None" if "Some d \<in> set (slots p)" for d
    using that all f slots_map [of d p] unfolding all_open_def files_ok_def by blast
  then have "clone_slots (slots p) s = Inr (slots p, bump (table_refs p) s)"
    using clone_slots_ok [OF kz, of "slots p"] room by (simp add: table_refs_def [abs_def])
  then have run: "fd_clone p s = Inr (with_slots (slots p), bump (table_refs p) s)"
    using p kz unfolding fd_clone_def falloc_def old by (simp add: with_slots_def table_ok_def)
  have same: "fd_at (with_slots (slots p)) = fd_at p" by (simp add: fd_at_def fun_eq_iff)
  have "files_ok (\<lambda>f. extra f + table_refs p f) p (bump (table_refs p) s)"
    unfolding files_ok_def
  proof (intro conjI allI impI)
    fix g x assume "fs_files (bump (table_refs p) s) g = Some x"
    then obtain y where y: "fs_files s g = Some y" "x = y\<lparr>file_refcnt := file_refcnt y + table_refs p g\<rparr>"
      by (auto simp: bump_def)
    then show "counts x (table_refs p g + (extra g + table_refs p g))"
      using files_okD [OF f y(1)] room [OF y(1)] by (auto simp: counts_def)
  qed (use f in \<open>auto simp: files_ok_def bump_def\<close>)
  then show ?thesis using run same p table_refs_same [OF same] by (auto simp: table_ok_def)
qed

section \<open>Descriptors out of range\<close>

text \<open>A negative descriptor passes the check against the capacity and is used as an index.\<close>

lemma negative_fd: "fds p \<noteq> None \<Longrightarrow> 0 \<le> fd_cap p \<Longrightarrow> i < 0 \<Longrightarrow> fd_safe_get p i = Inl OutOfBounds"
  by (auto simp: fd_safe_get_def fd_get_def)

text \<open>Near the largest \<open>int\<close> the new capacity wraps below the old one, growing succeeds without doing
  anything, and the table is read far past its end.\<close>

lemma huge_fd:
  assumes p: "table_ok p" and src: "fd_at p old = Some d" and new: "2147483643 < new" "new \<le> 2147483647"
    and flags: "flags AND FD_DUPE_MINIMUM = 0"
  shows "fd_duplicate fuel p (int old) new flags outfd s = Inl OutOfBounds"
proof -
  have old: "old < length (slots p)" "slots p ! old = Some d" using src by (auto simp: fd_at_def split: if_splits)
  then have xs: "fds p = Some (slots p)" by (cases "fds p") (simp_all add: slots_def)
  have "fd_safe_get p (int old) = Inr (Some d)"
    using fd_get_ok [OF p old(1)] old p xs by (simp add: fd_safe_get_def table_ok_def)
  moreover have "int32 (new + FD_GROW_BY) < 0"
  proof -
    have "int32 (new + FD_GROW_BY) = new + 4 - 4294967296"
    proof -
      have "take_bit 32 (new + 4 + 2147483648) = new + 4 + 2147483648 - 4294967296"
        using new by (subst take_bit_eq_mod, subst minus_mod_self2 [symmetric], subst mod_pos_pos_trivial) simp_all
      then show ?thesis by (simp add: int32_def signed_take_bit_eq_take_bit_shift FD_GROW_BY_def)
    qed
    then show ?thesis using new by simp
  qed
  then have "fd_grow p (int32 (new + FD_GROW_BY)) s = Inr (YAK_SUCCESS, p, s)"
    using p by (simp add: fd_grow_def table_ok_def)
  moreover have "fd_cap p \<le> new" "new \<noteq> - 1" "int old \<noteq> new" "length (slots p) \<le> nat new"
    using p new old(1) by (auto simp: table_ok_def)
  ultimately show ?thesis
    using flags xs new by (simp add: fd_duplicate_def fd_allocate_at_def fd_get_def)
qed

text \<open>A minimum beyond the capacity is forgotten when the table grows.\<close>

lemma minimum_forgotten:
  assumes p: "table_ok p" and kz: "fs_kz s = []" and low: "int (length (slots p)) < start" and room: "length (slots p) + 4 \<le> 65535"
  shows "\<exists>p'. fd_allocate_min (Suc (Suc fuel)) p start s = Inr (YAK_SUCCESS, int (length (slots p)), p', s) \<and>
     int (length (slots p)) < start"
proof -
  let ?n = "length (slots p)" and ?q = "with_slots (slots p @ replicate 4 None)"
  have none: "search_free p start = Inr None" using p low by (simp add: search_free_def table_ok_def)
  have g: "fd_grow p (fd_cap p + 4) s = Inr (YAK_SUCCESS, ?q, s)"
    using fd_grow_ok [OF p, of "fd_cap p + 4" s] room kz p by (simp add: FD_LIMIT_def table_ok_def nat_add_distrib)
  have q: "table_ok ?q" "?n < length (slots ?q)" using room by simp_all
  have found: "search_free ?q (int ?n) = Inr (Some (int ?n))"
    using search_free_ok [OF q(1), of ?n] by (simp add: eval_nat_numeral)
  have "fd_allocate_min (Suc fuel) ?q (int ?n) s =
      Inr (YAK_SUCCESS, int ?n, with_slots ((slots p @ replicate 4 None)[?n := Some \<lparr>fd_file = None, fd_flags = 0\<rparr>]), s)"
    using found fd_put_ok [OF q] kz by (simp add: new_fd_def falloc_def)
  then show ?thesis using none g low grow_by_4 [OF p] by (simp add: FD_GROW_BY_def)
qed

end
