(* ===== verification/FsState.thy ===== *)
theory FsState
  imports Vnode VmObject
begin

text \<open>
  The state the file-system code works on: the vnodes, the objects that hold the contents of files,
  physical memory, and the mounted instances of the in-memory file system (\<^verbatim>\<open>kernel/fs/tmpfs.h\<close>).
  Vnodes and instances are numbered; \<open>w_next\<close> is the next number a heap allocation returns and \<open>w_kz\<close>
  lists which of the next allocations succeed (those after its end do). A heap block is as long as
  \<^verbatim>\<open>kmalloc\<close> of \<^verbatim>\<open>kernel/vm/heap.c\<close> makes it; \<open>w_junk\<close> is what it holds at first.
\<close>

unbundle bit_operations_syntax

section \<open>Data\<close>

record tmpfs =
  fs_root :: "nat option"
  seq_ino :: u64

record world =
  w_vns :: vnodes
  w_objs :: objects
  w_phys :: phys
  w_fss :: "nat \<Rightarrow> tmpfs option"
  w_next :: nat
  w_kz :: "bool list"
  w_junk :: u8
  w_now :: nat
  w_root :: nat
  w_cwd :: "nat option"
  w_filesystems :: hashtable

definition put_vnode :: "nat \<Rightarrow> vnode \<Rightarrow> world \<Rightarrow> world" where
  "put_vnode v vn w = w\<lparr>w_vns := (w_vns w)(v \<mapsto> vn)\<rparr>"

lemma put_vnode_simps [simp]:
  "w_vns (put_vnode v vn w) = (w_vns w)(v \<mapsto> vn)" "w_objs (put_vnode v vn w) = w_objs w"
  "w_phys (put_vnode v vn w) = w_phys w" "w_fss (put_vnode v vn w) = w_fss w"
  "w_next (put_vnode v vn w) = w_next w" "w_kz (put_vnode v vn w) = w_kz w"
  "w_junk (put_vnode v vn w) = w_junk w" "w_now (put_vnode v vn w) = w_now w"
  "w_root (put_vnode v vn w) = w_root w" "w_cwd (put_vnode v vn w) = w_cwd w"
  "w_filesystems (put_vnode v vn w) = w_filesystems w"
  by (simp_all add: put_vnode_def)

section \<open>The heap\<close>

definition kmalloc_sizes :: "nat list" where
  "kmalloc_sizes = [16, 32, 64, 128, 160, 256, 512, 640, 768, 1024, 2048, 3072, 4096, 5120, 8192]"

text \<open>The bytes a caller of \<open>kmalloc (size)\<close> can use: its size class less the header of 16 bytes.\<close>

definition kmalloc_usable :: "nat \<Rightarrow> nat" where
  "kmalloc_usable sz =
     (case List.find (\<lambda>c. sz + 16 \<le> c) kmalloc_sizes of
        Some c \<Rightarrow> c - 16
      | None \<Rightarrow> (sz + 16 + 4095) div 4096 * 4096 - 16)"

lemma find_least: "List.find P xs = Some c \<Longrightarrow> P c"
  by (auto simp: find_Some_iff)

lemma kmalloc_usable_le: "sz \<le> kmalloc_usable sz"
proof (cases "List.find (\<lambda>c. sz + 16 \<le> c) kmalloc_sizes")
  case None
  have "n \<le> (n + 4095) div 4096 * 4096" for n :: nat
    using div_mult_mod_eq [of "n + 4095" 4096] mod_less_divisor [of 4096 "n + 4095"] by linarith
  from this [of "sz + 16"] show ?thesis unfolding kmalloc_usable_def None option.case by linarith
next
  case (Some c)
  show ?thesis using find_least [OF Some] unfolding kmalloc_usable_def Some option.case by linarith
qed

text \<open>Sixteen characters fill a block exactly.\<close>

lemma kmalloc_tight: "kmalloc_usable 16 = 16" "kmalloc_usable 8 = 16"
  by (simp_all add: kmalloc_usable_def kmalloc_sizes_def)

definition next_alloc :: "world \<Rightarrow> bool \<times> world" where
  "next_alloc w = (case w_kz w of [] \<Rightarrow> (True, w) | b # bs \<Rightarrow> (b, w\<lparr>w_kz := bs\<rparr>))"

lemma next_alloc_plenty [simp]: "w_kz w = [] \<Longrightarrow> next_alloc w = (True, w)"
  by (simp add: next_alloc_def)

definition kmalloc :: "nat \<Rightarrow> world \<Rightarrow> buf option \<times> world" where
  "kmalloc sz w =
     (case next_alloc w of (ok, w') \<Rightarrow> (if ok then Some (replicate (kmalloc_usable sz) (w_junk w)) else None, w'))"

lemma kmalloc_plenty [simp]:
  "w_kz w = [] \<Longrightarrow> kmalloc sz w = (Some (replicate (kmalloc_usable sz) (w_junk w)), w)"
  by (simp add: kmalloc_def)

section \<open>Locks and references of vnodes\<close>

text \<open>A mutex is not recursive: acquiring one's own and releasing another's fail assertions.\<close>

definition vfs_generic_lock :: "nat \<Rightarrow> vnode \<Rightarrow> world \<Rightarrow> world res" where
  "vfs_generic_lock v vn w = ensure (\<not> vn_locked vn) AssertFail (Inr (put_vnode v (vn\<lparr>vn_locked := True\<rparr>) w))"

definition vfs_generic_unlock :: "nat \<Rightarrow> vnode \<Rightarrow> world \<Rightarrow> world res" where
  "vfs_generic_unlock v vn w = ensure (vn_locked vn) AssertFail (Inr (put_vnode v (vn\<lparr>vn_locked := False\<rparr>) w))"

definition VOP_LOCK :: "nat option \<Rightarrow> world \<Rightarrow> world res" where
  "VOP_LOCK vp w =
     bindR (vnode_at (w_vns w) vp) (\<lambda>(v, vn).
       case vn_ops vn of root_ops \<Rightarrow> Inr w | tmpfs_vn_op \<Rightarrow> vfs_generic_lock v vn w)"

definition VOP_UNLOCK :: "nat option \<Rightarrow> world \<Rightarrow> world res" where
  "VOP_UNLOCK vp w =
     bindR (vnode_at (w_vns w) vp) (\<lambda>(v, vn).
       case vn_ops vn of root_ops \<Rightarrow> Inr w | tmpfs_vn_op \<Rightarrow> vfs_generic_unlock v vn w)"

definition vn_ref :: "nat option \<Rightarrow> world \<Rightarrow> world res" where
  "vn_ref vp w = bindR (vnode_ref vp (w_vns w)) (\<lambda>vns. Inr (w\<lparr>w_vns := vns\<rparr>))"

definition vn_deref :: "nat option \<Rightarrow> world \<Rightarrow> world res" where
  "vn_deref vp w = bindR (vnode_deref vp (w_vns w)) (\<lambda>vns. Inr (w\<lparr>w_vns := vns\<rparr>))"

text \<open>Unlock and dereference, as callers do on the way out.\<close>

definition vn_put :: "nat option \<Rightarrow> world \<Rightarrow> world res" where
  "vn_put vp w = bindR (VOP_UNLOCK vp w) (vn_deref vp)"

end
