(* ===== verification/FileData.thy ===== *)
theory FileData
  imports FsState
begin

text \<open>
  Reading and writing the contents of a file: \<open>vfs_vobj_write\<close> and \<open>vfs_vobj_read\<close> of
  \<^verbatim>\<open>kernel/fs/generic.c\<close>. Offsets and lengths are \<open>size_t\<close>, so an offset near the end of the range
  wraps around as it does in the code. The caller's result variable is \<open>None\<close> when its pointer is null.
  The contents of a file are read off the pages of its object: a byte of a page the object does not
  have is zero.
\<close>

unbundle bit_operations_syntax

section \<open>The code\<close>

definition page_chunk :: "u64 \<Rightarrow> u64 \<Rightarrow> u64" where
  "page_chunk start_off end_off = min (4096 - (start_off AND 0xFFF)) (end_off - start_off)"

text \<open>\<open>memcpy\<close> into and out of a mapped page.\<close>

definition poke :: "(nat \<Rightarrow> u8) \<Rightarrow> nat \<Rightarrow> buf \<Rightarrow> nat \<Rightarrow> u8" where
  "poke m off bs = (\<lambda>i. if off \<le> i \<and> i < off + length bs then bs ! (i - off) else m i)"

definition copy_in :: "nat \<Rightarrow> nat \<Rightarrow> buf \<Rightarrow> nat \<Rightarrow> nat \<Rightarrow> phys \<Rightarrow> phys res" where
  "copy_in pg off src s n ph =
     bindR (page_at (pm_pages (ph_pmm ph)) pg) (\<lambda>p.
       ensure (s + n \<le> length src \<and> off + n \<le> 4096) OutOfBounds
         (Inr (ph\<lparr>ph_mem := (ph_mem ph)(pg_pfn p := poke (ph_mem ph (pg_pfn p)) off (take n (drop s src)))\<rparr>)))"

definition copy_out :: "nat \<Rightarrow> nat \<Rightarrow> buf \<Rightarrow> nat \<Rightarrow> nat \<Rightarrow> phys \<Rightarrow> buf res" where
  "copy_out pg off dst d n ph =
     bindR (page_at (pm_pages (ph_pmm ph)) pg) (\<lambda>p.
       ensure (d + n \<le> length dst \<and> off + n \<le> 4096) OutOfBounds
         (Inr (take d dst @ map (ph_mem ph (pg_pfn p)) [off..<off + n] @ drop (d + n) dst)))"

lemma unat_low_bits: "unat (x AND 0xFFF) = unat (x :: u64) mod 4096"
proof -
  have "x AND 0xFFF = take_bit 12 x" by (simp add: take_bit_eq_mask mask_eq_exp_minus_1)
  then have "unat (x AND 0xFFF) = take_bit 12 (unat x)" by (simp add: unsigned_take_bit_eq)
  then show ?thesis by (simp add: take_bit_eq_mod)
qed

lemma page_chunk_bounds:
  assumes "start_off < end_off"
  shows "0 < page_chunk start_off end_off" "unat (page_chunk start_off end_off) = min (4096 - unat start_off mod 4096) (unat end_off - unat start_off)"
    "unat (start_off + page_chunk start_off end_off) = unat start_off + unat (page_chunk start_off end_off)"
    "unat (page_chunk start_off end_off) \<le> unat end_off - unat start_off" "unat start_off mod 4096 + unat (page_chunk start_off end_off) \<le> 4096"
proof -
  have low: "unat (start_off AND 0xFFF) = unat start_off mod 4096"
    by (rule unat_low_bits)
  have lt: "unat start_off < unat end_off" using assms by (simp add: word_less_nat_alt)
  have a: "unat (4096 - (start_off AND 0xFFF)) = 4096 - unat start_off mod 4096"
    using low by (subst unat_sub) (auto simp: word_le_nat_alt)
  have b: "unat (end_off - start_off) = unat end_off - unat start_off"
    using assms by (subst unat_sub) auto
  show u: "unat (page_chunk start_off end_off) = min (4096 - unat start_off mod 4096) (unat end_off - unat start_off)"
    by (simp add: page_chunk_def min_def word_le_nat_alt a b)
  have pos: "0 < unat (page_chunk start_off end_off)" unfolding u using lt by (simp add: min_def)
  then show "0 < page_chunk start_off end_off" by (simp add: unat_gt_0 word_neq_0_conv)
  show le: "unat (page_chunk start_off end_off) \<le> unat end_off - unat start_off" unfolding u by simp
  show "unat start_off mod 4096 + unat (page_chunk start_off end_off) \<le> 4096"
    unfolding u using mod_less_divisor [of 4096 "unat start_off"] by (simp only: min_def split: if_splits) linarith
  have "unat start_off + unat (page_chunk start_off end_off) < 2 ^ 64"
    using le lt unsigned_less [of end_off, where ?'a = nat] by (simp del: unsigned_less)
  then show "unat (start_off + page_chunk start_off end_off) = unat start_off + unat (page_chunk start_off end_off)"
    by (simp add: unat_word_ariths)
qed

lemma page_chunk_less:
  assumes "s < e"
  shows "unat e - unat (s + page_chunk s e) < unat e - unat s"
proof -
  have "unat s < unat e" "0 < unat (page_chunk s e)"
    using assms page_chunk_bounds(1) [OF assms] by (simp_all add: word_less_nat_alt)
  then show ?thesis unfolding page_chunk_bounds(3) [OF assms] by linarith
qed

function vobj_write_loop :: "nat \<Rightarrow> u64 \<Rightarrow> u64 \<Rightarrow> buf \<Rightarrow> nat \<Rightarrow> vm_object \<Rightarrow> phys \<Rightarrow> (status \<times> nat \<times> vm_object \<times> phys) res" where
  "vobj_write_loop oid start_off end_off src written obj ph =
     (if start_off < end_off then
        bindR (vm_lookuppage oid obj (start_off AND NOT 0xFFF) 0 None ph) (\<lambda>(res, pg, obj', ph1).
          if IS_ERR res then Inr (res, written, obj', ph1)
          else case pg of
            None \<Rightarrow> Inl NullDeref
          | Some n \<Rightarrow>
              let chunk = page_chunk start_off end_off in
              bindR (copy_in n (unat (start_off AND 0xFFF)) src written (unat chunk) ph1) (\<lambda>ph2.
                vobj_write_loop oid (start_off + chunk) end_off src (written + unat chunk) obj' ph2))
      else Inr (YAK_SUCCESS, written, obj, ph))"
  by auto

termination
proof (relation "measure (\<lambda>(oid, s, e, _). unat e - unat s)")
  fix oid :: nat and s e :: u64 and src :: buf and written :: nat and obj :: vm_object and ph :: phys
    and x res pg obj' ph1 y z n chunk ph2
  assume "s < e" "chunk = page_chunk s e"
  then have "unat e - unat (s + chunk) < unat e - unat s" by (simp add: page_chunk_less)
  then show "((oid, s + chunk, e, src, written + unat chunk, obj', ph2), oid, s, e, src, written, obj, ph)
    \<in> measure (\<lambda>(oid, s, e, _). unat e - unat s)"
    by simp
qed simp

function vobj_read_loop :: "nat \<Rightarrow> u64 \<Rightarrow> u64 \<Rightarrow> buf \<Rightarrow> nat \<Rightarrow> vm_object \<Rightarrow> phys \<Rightarrow> (status \<times> nat \<times> buf \<times> vm_object \<times> phys) res" where
  "vobj_read_loop oid start_off end_off dst nread obj ph =
     (if start_off < end_off then
        bindR (vm_lookuppage oid obj (start_off AND NOT 0xFFF) 0 None ph) (\<lambda>(res, pg, obj', ph1).
          if IS_ERR res then Inr (res, nread, dst, obj', ph1)
          else case pg of
            None \<Rightarrow> Inl NullDeref
          | Some n \<Rightarrow>
              let chunk = page_chunk start_off end_off in
              bindR (copy_out n (unat (start_off AND 0xFFF)) dst nread (unat chunk) ph1) (\<lambda>dst'.
                vobj_read_loop oid (start_off + chunk) end_off dst' (nread + unat chunk) obj' ph1))
      else Inr (YAK_SUCCESS, nread, dst, obj, ph))"
  by auto

termination
proof (relation "measure (\<lambda>(oid, s, e, _). unat e - unat s)")
  fix oid :: nat and s e :: u64 and dst :: buf and nread :: nat and obj :: vm_object and ph :: phys
    and x res pg obj' ph1 y z n chunk dst'
  assume "s < e" "chunk = page_chunk s e"
  then have "unat e - unat (s + chunk) < unat e - unat s" by (simp add: page_chunk_less)
  then show "((oid, s + chunk, e, dst', nread + unat chunk, obj', ph1), oid, s, e, dst, nread, obj, ph)
    \<in> measure (\<lambda>(oid, s, e, _). unat e - unat s)"
    by simp
qed simp

declare vobj_write_loop.simps [simp del] vobj_read_loop.simps [simp del]

definition vfs_vobj_write :: "nat option \<Rightarrow> u64 \<Rightarrow> buf \<Rightarrow> u64 \<Rightarrow> nat option \<Rightarrow> world \<Rightarrow> (status \<times> nat option \<times> world) res" where
  "vfs_vobj_write vp offset src len writtenp w =
     (case writtenp of None \<Rightarrow> Inr (YAK_INVALID_ARGS, writtenp, w) | Some _ \<Rightarrow>
      bindR (vnode_at (w_vns w) vp) (\<lambda>(v, vn).
        if vn_type vn \<noteq> VREG then Inr (YAK_NOT_SUPPORTED, writtenp, w)
        else case vn_vobj vn of None \<Rightarrow> Inl AssertFail | Some oid \<Rightarrow>
          if len = 0 then Inr (YAK_SUCCESS, writtenp, w)
          else
            let end_off = offset + len in
            bindR (VOP_LOCK vp w) (\<lambda>w1.
            bindR (vnode_at (w_vns w1) vp) (\<lambda>(_, vn1).
            bindR (VOP_UNLOCK vp (if end_off > vn_filesize vn1 then put_vnode v (vn1\<lparr>vn_filesize := end_off\<rparr>) w1 else w1)) (\<lambda>w2.
            bindR (object_at (w_objs w2) oid) (\<lambda>obj.
            bindR (vobj_write_loop oid offset end_off src 0 obj (w_phys w2)) (\<lambda>(res, written, obj', ph).
              Inr (res, if IS_ERR res then writtenp else Some written, w2\<lparr>w_objs := (w_objs w2)(oid \<mapsto> obj'), w_phys := ph\<rparr>))))))))"

definition vfs_vobj_read :: "nat option \<Rightarrow> u64 \<Rightarrow> buf \<Rightarrow> u64 \<Rightarrow> nat option \<Rightarrow> world \<Rightarrow> (status \<times> nat option \<times> buf \<times> world) res" where
  "vfs_vobj_read vp offset dst len readp w =
     (case readp of None \<Rightarrow> Inr (YAK_INVALID_ARGS, readp, dst, w) | Some _ \<Rightarrow>
      bindR (vnode_at (w_vns w) vp) (\<lambda>(v, vn).
        if vn_type vn \<noteq> VREG then Inr (YAK_NOT_SUPPORTED, readp, dst, w)
        else case vn_vobj vn of None \<Rightarrow> Inl AssertFail | Some oid \<Rightarrow>
          if len = 0 then Inr (YAK_SUCCESS, readp, dst, w)
          else if offset \<ge> vn_filesize vn then Inr (YAK_EOF, Some 0, dst, w)
          else
            let len' = (if offset + len > vn_filesize vn then vn_filesize vn - offset else len) in
            bindR (object_at (w_objs w) oid) (\<lambda>obj.
            bindR (vobj_read_loop oid offset (offset + len') dst 0 obj (w_phys w)) (\<lambda>(res, nread, dst', obj', ph).
              Inr (res, if IS_ERR res then readp else Some nread, dst', w\<lparr>w_objs := (w_objs w)(oid \<mapsto> obj'), w_phys := ph\<rparr>)))))"

end
