(* ===== verification/FileContents.thy ===== *)
theory FileContents
  imports FileData
begin

text \<open>
  A file is a byte string: the contents of a file read off the pages of its object, and the proofs that
  \<open>vfs_vobj_write\<close> and \<open>vfs_vobj_read\<close> implement writing into and reading from that string, page by page.
\<close>

unbundle bit_operations_syntax

section \<open>Contents\<close>

definition file_byte :: "vm_object \<Rightarrow> phys \<Rightarrow> u64 \<Rightarrow> u8" where
  "file_byte obj ph x =
     (case map_of (inorder (memq obj)) (x AND NOT 0xFFF) of
        None \<Rightarrow> 0
      | Some n \<Rightarrow> ph_mem ph n (unat (x AND 0xFFF)))"

definition frames :: "vm_object \<Rightarrow> nat set" where
  "frames obj = snd ` set (inorder (memq obj))"

text \<open>Work on a file keeps the object well formed and leaves every other page in use.\<close>

definition file_step :: "vm_object \<Rightarrow> phys \<Rightarrow> vm_object \<Rightarrow> phys \<Rightarrow> bool" where
  "file_step obj ph obj' ph' \<longleftrightarrow> obj_ok obj' (ph_pmm ph') \<and> pmm_inv (ph_pmm ph') \<and>
     set (inorder (memq obj)) \<subseteq> set (inorder (memq obj')) \<and>
     (\<forall>m \<in> owned_pages (ph_pmm ph) - frames obj.
        m \<in> owned_pages (ph_pmm ph') - frames obj' \<and> ph_mem ph' m = ph_mem ph m \<and>
        offset_of (ph_pmm ph') m = offset_of (ph_pmm ph) m)"

lemma file_step_refl: "obj_ok obj (ph_pmm ph) \<Longrightarrow> pmm_inv (ph_pmm ph) \<Longrightarrow> file_step obj ph obj ph"
  by (simp add: file_step_def)

lemma file_step_trans: "file_step a p b q \<Longrightarrow> file_step b q c r \<Longrightarrow> file_step a p c r"
  unfolding file_step_def by (simp add: Ball_def) blast

section \<open>Pages and offsets\<close>

lemma page_part: "x AND NOT 0xFFF = push_bit 12 (drop_bit 12 x)" for x :: u64
proof -
  have m: "(0xFFF :: u64) = mask 12" by (simp add: mask_eq_exp_minus_1)
  show ?thesis unfolding m by (simp add: bit_eq_iff bit_simps) auto
qed

lemma page_aligned_part: "(x AND NOT 0xFFF) AND 0xFFF = 0" for x :: u64
  by (simp add: and.assoc)

lemma same_page_iff: "x AND NOT 0xFFF = y AND NOT 0xFFF \<longleftrightarrow> unat x div 4096 = unat (y :: u64) div 4096"
proof -
  have "drop_bit 12 (push_bit 12 (drop_bit 12 z)) = drop_bit 12 z" for z :: u64
    by (simp add: bit_eq_iff bit_simps) (auto dest: bit_imp_le_length)
  then have "x AND NOT 0xFFF = y AND NOT 0xFFF \<longleftrightarrow> drop_bit 12 x = drop_bit 12 y"
    unfolding page_part by metis
  also have "\<dots> \<longleftrightarrow> unat (drop_bit 12 x) = unat (drop_bit 12 y)" by (rule word_unat_eq_iff)
  also have "\<dots> \<longleftrightarrow> unat x div 4096 = unat y div 4096" by (simp add: drop_bit_eq_div unat_div)
  finally show ?thesis .
qed

text \<open>A byte lies in the chunk of a page exactly when its page and its place in it say so.\<close>

lemma chunk_bytes:
  fixes x s c :: nat
  assumes "s mod 4096 + c \<le> 4096"
  shows "(x div 4096 = s div 4096 \<and> s mod 4096 \<le> x mod 4096 \<and> x mod 4096 < s mod 4096 + c) \<longleftrightarrow> s \<le> x \<and> x < s + c"
proof
  assume a: "x div 4096 = s div 4096 \<and> s mod 4096 \<le> x mod 4096 \<and> x mod 4096 < s mod 4096 + c"
  have "x = s div 4096 * 4096 + x mod 4096" using a div_mult_mod_eq [of x 4096] by simp
  then show "s \<le> x \<and> x < s + c" using a div_mult_mod_eq [of s 4096] by linarith
next
  assume a: "s \<le> x \<and> x < s + c"
  let ?d = "x - s"
  have x: "x = s div 4096 * 4096 + (s mod 4096 + ?d)" using a div_mult_mod_eq [of s 4096] by linarith
  have d: "s mod 4096 + ?d < 4096" using a assms by linarith
  have qr: "(q * 4096 + r) div 4096 = q" "(q * 4096 + r) mod 4096 = r" if "r < 4096" for q r :: nat
    using that by simp_all
  have "x div 4096 = s div 4096" using arg_cong [OF x, of "\<lambda>z. z div 4096"] unfolding qr(1) [OF d] .
  moreover have "x mod 4096 = s mod 4096 + ?d" using arg_cong [OF x, of "\<lambda>z. z mod 4096"] unfolding qr(2) [OF d] .
  ultimately show "x div 4096 = s div 4096 \<and> s mod 4096 \<le> x mod 4096 \<and> x mod 4096 < s mod 4096 + c"
    using a by linarith
qed

section \<open>One page\<close>

lemma obj_page:
  assumes "obj_ok obj pm" "pmm_inv pm" "(off, n) \<in> set (inorder (memq obj))"
  shows "\<exists>p. pm_pages pm n = Some p \<and> pg_pfn p = n" "n \<in> owned_pages pm" "map_of (inorder (memq obj)) off = Some n"
proof -
  show n: "n \<in> owned_pages pm" using assms by (auto simp: obj_ok_def)
  show "\<exists>p. pm_pages pm n = Some p \<and> pg_pfn p = n"
    using held_pfn [of pm n 0] n assms(2) by (auto simp: owned_pages_def pmm_inv_def)
  have "distinct (map fst (inorder (memq obj)))" using assms(1) tree_keys_distinct by (auto simp: obj_ok_def)
  then show "map_of (inorder (memq obj)) off = Some n" using assms(3) by simp
qed

lemma map_of_pages:
  assumes "ptree.tree_ok t" "ptree.tree_ok t'" "set (inorder t') = insert (off, n) (set (inorder t))" "off \<notin> fst ` set (inorder t)"
  shows "map_of (inorder t') = (map_of (inorder t))(off \<mapsto> n)"
proof
  fix x
  note d = tree_keys_distinct [OF assms(1)] tree_keys_distinct [OF assms(2)]
  have new: "map_of (inorder t') y = Some m \<longleftrightarrow> (y, m) = (off, n) \<or> map_of (inorder t) y = Some m" for y m
    using d assms(3) by simp
  have old: "map_of (inorder t) off = None" using assms(4) by (simp add: map_of_eq_None_iff)
  show "map_of (inorder t') x = ((map_of (inorder t))(off \<mapsto> n)) x"
    using new [of x] old by (cases "map_of (inorder t') x"; cases "map_of (inorder t) x") auto
qed

lemma lookup_offsets:
  assumes run: "vm_lookuppage oid obj off 0 None ph = Inr (YAK_SUCCESS, Some n, obj', ph')"
    and ok: "obj_ok obj (ph_pmm ph)" and inv: "pmm_inv (ph_pmm ph)"
    and off: "off AND 0xFFF = 0" "off \<notin> fst ` set (inorder (memq obj))" and m: "m \<noteq> n"
  shows "offset_of (ph_pmm ph') m = offset_of (ph_pmm ph) m"
proof -
  have tok: "ptree.tree_ok (memq obj)" and ops: "pg_ops obj = anon_pagerops" using ok by (auto simp: obj_ok_def)
  obtain r pm where a: "vm_pagealloc (Some oid) off (ph_pmm ph) = Inr (r, pm)"
     "\<forall>k. r = Some k \<longrightarrow> (\<forall>m. m \<noteq> k \<longrightarrow> offset_of pm m = offset_of (ph_pmm ph) m)"
  proof -
    obtain r pm where x: "vm_pagealloc (Some oid) off (ph_pmm ph) = Inr (r, pm)" "case r of
        None \<Rightarrow> owned_pages pm = owned_pages (ph_pmm ph)
      | Some n \<Rightarrow> n \<notin> owned_pages (ph_pmm ph) \<and> owned_pages pm = insert n (owned_pages (ph_pmm ph)) \<and>
          (\<exists>p. pm_pages pm n = Some p \<and> pg_pfn p = n \<and> pg_offset p = off) \<and>
          (\<forall>m. m \<noteq> n \<longrightarrow> offset_of pm m = offset_of (ph_pmm ph) m)"
      using vm_pagealloc_ok [OF inv] by blast
    show thesis by (rule that [OF x(1)]) (use x(2) in auto)
  qed
  show ?thesis
    using run lookup_absent [OF tok off(2)] ops anon_one_page [OF off(1) a(1)] a(2) m
    by (auto simp: vm_lookuppage_def anon_pagerops_def bindR_Inr_iff split: option.splits)
qed

text \<open>The pages an object has.\<close>

definition offsets :: "vm_object \<Rightarrow> u64 set" where
  "offsets obj = fst ` set (inorder (memq obj))"

text \<open>Looking up any page of a file leaves its contents, and takes a page of memory exactly when the object
  does not have it.\<close>

lemma lookup_any:
  assumes ok: "obj_ok obj (ph_pmm ph)" and inv: "pmm_inv (ph_pmm ph)" and off: "off = a AND NOT 0xFFF"
  shows "if off \<notin> offsets obj \<and> free_pages (ph_pmm ph) = 0 then vm_lookuppage oid obj off 0 None ph = Inl NullDeref
    else (\<exists>n obj' ph'. vm_lookuppage oid obj off 0 None ph = Inr (YAK_SUCCESS, Some n, obj', ph') \<and>
       file_step obj ph obj' ph' \<and> (off, n) \<in> set (inorder (memq obj')) \<and>
       offsets obj' = insert off (offsets obj) \<and>
       free_pages (ph_pmm ph') + (if off \<in> offsets obj then 0 else 1) = free_pages (ph_pmm ph) \<and>
       file_byte obj' ph' = file_byte obj ph)"
proof (cases "off \<in> fst ` set (inorder (memq obj))")
  case True
  then obtain n where n: "(off, n) \<in> set (inorder (memq obj))" by force
  have "ptree.tree_ok (memq obj)" using ok by (simp add: obj_ok_def)
  from lookup_present [OF this n] show ?thesis using n file_step_refl [OF ok inv] True
    by (auto simp: offsets_def insert_absorb)
next
  case False
  have al: "off AND 0xFFF = 0" unfolding off by (rule page_aligned_part)
  consider "vm_lookuppage oid obj off 0 None ph = Inl NullDeref" "free_pages (ph_pmm ph) = 0"
    | n obj' ph' where "vm_lookuppage oid obj off 0 None ph = Inr (YAK_SUCCESS, Some n, obj', ph')"
        "obj_ok obj' (ph_pmm ph')" "pmm_inv (ph_pmm ph')"
        "n \<notin> owned_pages (ph_pmm ph)" "owned_pages (ph_pmm ph') = insert n (owned_pages (ph_pmm ph))"
        "set (inorder (memq obj')) = insert (off, n) (set (inorder (memq obj)))"
        "ph_mem ph' n = (\<lambda>_. 0)" "\<forall>m. m \<noteq> n \<longrightarrow> ph_mem ph' m = ph_mem ph m"
        "free_pages (ph_pmm ph') + 1 = free_pages (ph_pmm ph)"
    using lookup_fill [OF ok inv al False, of 0 oid None] by (auto split: if_splits)
  then show ?thesis
  proof cases
    case 1
    with False show ?thesis by (simp add: offsets_def)
  next
    case (2 n obj' ph')
    have t: "ptree.tree_ok (memq obj)" "ptree.tree_ok (memq obj')" using ok 2(2) by (simp_all add: obj_ok_def)
    note map = map_of_pages [OF t 2(6) False]
    have fr: "frames obj' = insert n (frames obj)" using 2(6) by (simp add: frames_def)
    have "file_step obj ph obj' ph'"
    proof -
      have "m \<noteq> n" if "m \<in> owned_pages (ph_pmm ph)" for m using that 2(4) by blast
      then show ?thesis
        using 2(2,3,5,6,8) fr lookup_offsets [OF 2(1) ok inv al False] by (simp add: file_step_def subset_insertI)
    qed
    moreover have "file_byte obj' ph' = file_byte obj ph"
    proof
      fix x
      have "m \<noteq> n" if "map_of (inorder (memq obj)) y = Some m" for y m
        using obj_page(2) [OF ok inv, of y m] map_of_SomeD [OF that] 2(4) by blast
      moreover have "map_of (inorder (memq obj)) off = None" using False by (simp add: map_of_eq_None_iff)
      ultimately show "file_byte obj' ph' x = file_byte obj ph x"
        using 2(7,8) by (auto simp: file_byte_def map split: option.splits)
    qed
    moreover have "offsets obj' = insert off (offsets obj)" using 2(6) by (simp add: offsets_def)
    moreover have "off \<notin> offsets obj" using False by (simp add: offsets_def)
    ultimately show ?thesis using 2(1,6,9) by auto
  qed
qed

text \<open>Copying into a page changes the bytes of the chunk.\<close>

lemma copy_in_ok:
  assumes ok: "obj_ok obj (ph_pmm ph)" and inv: "pmm_inv (ph_pmm ph)"
    and n: "(s AND NOT 0xFFF, n) \<in> set (inorder (memq obj))"
    and c: "unat s mod 4096 + c \<le> 4096" "from + c \<le> length src"
  shows "\<exists>ph'. copy_in n (unat (s AND 0xFFF)) src from c ph = Inr ph' \<and> file_step obj ph obj ph' \<and>
     ph_pmm ph' = ph_pmm ph \<and>
     (\<forall>x. file_byte obj ph' x =
        (if unat s \<le> unat x \<and> unat x < unat s + c then src ! (from + (unat x - unat s)) else file_byte obj ph x))"
proof -
  obtain p where p: "pm_pages (ph_pmm ph) n = Some p" "pg_pfn p = n" using obj_page(1) [OF ok inv n] by blast
  let ?o = "unat s mod 4096"
  let ?m = "poke (ph_mem ph n) ?o (take c (drop from src))"
  let ?ph = "ph\<lparr>ph_mem := (ph_mem ph)(n := ?m)\<rparr>"
  have run: "copy_in n (unat (s AND 0xFFF)) src from c ph = Inr ?ph"
    using p c by (simp add: copy_in_def page_at_def unat_low_bits)
  have "file_step obj ph obj ?ph"
  proof -
    have "n \<in> frames obj" using n by (force simp: frames_def)
    then show ?thesis using ok inv by (auto simp: file_step_def)
  qed
  moreover have "file_byte obj ?ph x =
      (if unat s \<le> unat x \<and> unat x < unat s + c then src ! (from + (unat x - unat s)) else file_byte obj ph x)" for x
  proof (cases "x AND NOT 0xFFF = s AND NOT 0xFFF")
    case True
    then have pg: "map_of (inorder (memq obj)) (x AND NOT 0xFFF) = Some n" using obj_page(3) [OF ok inv n] by simp
    have same: "unat x div 4096 = unat s div 4096" using True same_page_iff by blast
    have len: "length (take c (drop from src)) = c" using c by simp
    have iff: "?o \<le> unat x mod 4096 \<and> unat x mod 4096 < ?o + c \<longleftrightarrow> unat s \<le> unat x \<and> unat x < unat s + c"
      using chunk_bytes [OF c(1), of "unat x"] same by blast
    have at: "take c (drop from src) ! (unat x mod 4096 - ?o) = src ! (from + (unat x - unat s))"
      if "unat s \<le> unat x \<and> unat x < unat s + c"
    proof -
      have "unat x mod 4096 - ?o = unat x - unat s"
        using same div_mult_mod_eq [of "unat x" 4096] div_mult_mod_eq [of "unat s" 4096] by linarith
      moreover have "unat x - unat s < c" using that by linarith
      ultimately show ?thesis using c(2) by (simp only: nth_take) (subst nth_drop, simp_all)
    qed
    have "?m (unat x mod 4096) = (if unat s \<le> unat x \<and> unat x < unat s + c then src ! (from + (unat x - unat s))
        else ph_mem ph n (unat x mod 4096))"
      unfolding poke_def len iff using at by simp
    then show ?thesis by (simp only: file_byte_def pg option.case unat_low_bits) simp
  next
    case False
    then have out: "\<not> (unat s \<le> unat x \<and> unat x < unat s + c)"
      using chunk_bytes [OF c(1), of "unat x"] same_page_iff [of x s] by blast
    have "m \<noteq> n" if m: "map_of (inorder (memq obj)) (x AND NOT 0xFFF) = Some m" for m
    proof
      assume "m = n"
      moreover have "inj_on snd (set (inorder (memq obj)))" using ok by (simp add: obj_ok_def distinct_map)
      ultimately show False using map_of_SomeD [OF m] n False by (auto dest: inj_onD [of snd _ "(x AND NOT 0xFFF, n)" "(s AND NOT 0xFFF, n)"])
    qed
    then show ?thesis using out by (auto simp: file_byte_def split: option.splits)
  qed
  ultimately show ?thesis using run by (intro exI [of _ ?ph]) simp
qed

text \<open>Copying out of a page reads the bytes of the chunk.\<close>

lemma copy_out_ok:
  assumes ok: "obj_ok obj (ph_pmm ph)" and inv: "pmm_inv (ph_pmm ph)"
    and n: "(s AND NOT 0xFFF, n) \<in> set (inorder (memq obj))"
    and c: "unat s mod 4096 + c \<le> 4096" "to + c \<le> length dst" "unat s + c < 2 ^ 64"
  shows "copy_out n (unat (s AND 0xFFF)) dst to c ph =
    Inr (take to dst @ map (\<lambda>i. file_byte obj ph (word_of_nat i)) [unat s..<unat s + c] @ drop (to + c) dst)"
proof -
  obtain p where p: "pm_pages (ph_pmm ph) n = Some p" "pg_pfn p = n" using obj_page(1) [OF ok inv n] by blast
  let ?o = "unat s mod 4096"
  have "map (ph_mem ph n) [?o..<?o + c] = map (\<lambda>i. file_byte obj ph (word_of_nat i)) [unat s..<unat s + c]"
  proof (rule nth_equalityI)
    fix i assume "i < length (map (ph_mem ph n) [?o..<?o + c])"
    then have i: "i < c" by simp
    let ?x = "word_of_nat (unat s + i) :: u64"
    have x: "unat ?x = unat s + i" 
    proof -
      have "unat s + i < 2 ^ 64" using i c(3) by linarith
      then have "(unat s + i) mod 2 ^ 64 = unat s + i" by (rule mod_less)
      then show ?thesis by (simp add: unat_of_nat del: of_nat_add)
    qed
    have b: "unat ?x div 4096 = unat s div 4096 \<and> ?o \<le> unat ?x mod 4096 \<and> unat ?x mod 4096 < ?o + c"
      using chunk_bytes [OF c(1), of "unat ?x"] x i by simp
    have "?x AND NOT 0xFFF = s AND NOT 0xFFF" using b same_page_iff by blast
    then have pg: "map_of (inorder (memq obj)) (?x AND NOT 0xFFF) = Some n" using obj_page(3) [OF ok inv n] by simp
    have "unat ?x mod 4096 = ?o + i"
      using b x div_mult_mod_eq [of "unat ?x" 4096] div_mult_mod_eq [of "unat s" 4096] by linarith
    then have "file_byte obj ph ?x = ph_mem ph n (?o + i)"
      by (simp only: file_byte_def pg option.case unat_low_bits)
    then show "map (ph_mem ph n) [?o..<?o + c] ! i = map (\<lambda>i. file_byte obj ph (word_of_nat i)) [unat s..<unat s + c] ! i"
      using i by simp
  qed simp
  then show ?thesis using p c by (simp add: copy_out_def page_at_def unat_low_bits)
qed

section \<open>The loops\<close>

text \<open>The object has every page of a range.\<close>

definition backed :: "u64 \<Rightarrow> u64 \<Rightarrow> vm_object \<Rightarrow> bool" where
  "backed s e obj \<longleftrightarrow> (\<forall>x. s \<le> x \<longrightarrow> x < e \<longrightarrow> (x AND NOT 0xFFF) \<in> fst ` set (inorder (memq obj)))"

lemma backed_mono: "backed s e obj \<Longrightarrow> file_step obj ph obj' ph' \<Longrightarrow> backed s e obj'"
  unfolding backed_def file_step_def by blast

lemma chunk_page:
  assumes "s < e" "s \<le> x" "x < s + page_chunk s e"
  shows "x AND NOT 0xFFF = s AND NOT 0xFFF"
  using chunk_bytes [OF page_chunk_bounds(5) [OF assms(1)], of "unat x"] page_chunk_bounds(3) [OF assms(1)] assms(2,3)
  unfolding same_page_iff by (simp add: word_le_nat_alt word_less_nat_alt)

text \<open>The pages of a range the object does not have yet.\<close>

definition missing :: "u64 \<Rightarrow> u64 \<Rightarrow> vm_object \<Rightarrow> u64 set" where
  "missing s e obj = (\<lambda>x. x AND NOT 0xFFF) ` {s..<e} - offsets obj"

lemma missing_finite [simp]: "finite (missing s e obj)"
  by (simp add: missing_def)

lemma missing_empty [simp]: "e \<le> s \<Longrightarrow> missing s e obj = {}"
  by (simp add: missing_def)

lemma missing_backed: "backed s e obj \<Longrightarrow> missing s e obj = {}"
  by (auto simp: missing_def backed_def offsets_def)

lemma image_less: "(\<And>x. x \<in> A \<Longrightarrow> f x = p \<or> x \<in> B) \<Longrightarrow> B \<subseteq> A \<Longrightarrow> f ` A - K - {p} = f ` B - insert p K"
  by auto

lemma missing_step:
  assumes "s < e" "offsets obj' = insert (s AND NOT 0xFFF) (offsets obj)"
  shows "card (missing s e obj) =
    card (missing (s + page_chunk s e) e obj') + (if s AND NOT 0xFFF \<in> offsets obj then 0 else 1)"
proof -
  let ?c = "page_chunk s e" and ?p = "s AND NOT 0xFFF" and ?f = "\<lambda>x :: u64. x AND NOT 0xFFF"
  note c = page_chunk_bounds [OF assms(1)]
  have le: "s \<le> s + ?c" using c(3) by (simp add: word_le_nat_alt)
  have "missing s e obj - {?p} = missing (s + ?c) e obj'"
  proof -
    have "?f x = ?p \<or> x \<in> {s + ?c..<e}" if "x \<in> {s..<e}" for x
      using chunk_page [OF assms(1), of x] that by (cases "x < s + ?c") auto
    moreover have "{s + ?c..<e} \<subseteq> {s..<e}" using le by auto
    ultimately show ?thesis unfolding missing_def assms(2)
      by (rule image_less [of "{s..<e}" ?f ?p "{s + ?c..<e}" "offsets obj"])
  qed
  moreover have "?p \<in> missing s e obj \<longleftrightarrow> ?p \<notin> offsets obj" using assms(1) by (auto simp: missing_def)
  moreover have "card A = card (A - {x}) + (if x \<in> A then 1 else 0)" if "finite A" for A :: "u64 set" and x
    using card_Suc_Diff1 [OF that, of x] by (cases "x \<in> A") auto
  from this [OF missing_finite, of s e obj ?p] show ?thesis unfolding calculation by simp
qed

lemma one_page:
  assumes "e \<le> 4096"
  shows "card (missing s e obj) \<le> 1"
proof -
  have "x AND NOT 0xFFF = 0" if "x < e" for x :: u64
    using that assms same_page_iff [of x 0] by (simp add: word_less_nat_alt word_le_nat_alt)
  then have "missing s e obj \<subseteq> {0}" by (auto simp: missing_def)
  then show ?thesis using card_mono [of "{0}" "missing s e obj"] by simp
qed

lemma write_loop_ok:
  "obj_ok obj (ph_pmm ph) \<Longrightarrow> pmm_inv (ph_pmm ph) \<Longrightarrow> s \<le> e \<Longrightarrow> written + (unat e - unat s) \<le> length src \<Longrightarrow>
   if free_pages (ph_pmm ph) < card (missing s e obj) then vobj_write_loop oid s e src written obj ph = Inl NullDeref
   else (\<exists>obj' ph'. vobj_write_loop oid s e src written obj ph = Inr (YAK_SUCCESS, written + (unat e - unat s), obj', ph') \<and>
      file_step obj ph obj' ph' \<and> backed s e obj' \<and>
      free_pages (ph_pmm ph') + card (missing s e obj) = free_pages (ph_pmm ph) \<and>
      (\<forall>x. file_byte obj' ph' x =
         (if s \<le> x \<and> x < e then src ! (written + (unat x - unat s)) else file_byte obj ph x)))"
proof (induction oid s e src written obj ph rule: vobj_write_loop.induct)
  case (1 oid s e src written obj ph)
  show ?case
  proof (cases "s < e")
    case False
    then have "s = e" using 1(4) by simp
    then show ?thesis using file_step_refl [OF 1(2,3)] by (auto simp: vobj_write_loop.simps backed_def)
  next
    case True
    let ?c = "page_chunk s e"
    note c = page_chunk_bounds [OF True]
    have room: "written + unat ?c \<le> length src" using c(4) 1(5) by linarith
    consider "vobj_write_loop oid s e src written obj ph = Inl NullDeref" "s AND NOT 0xFFF \<notin> offsets obj" "free_pages (ph_pmm ph) = 0"
      | n obj1 ph1 where "vm_lookuppage oid obj (s AND NOT 0xFFF) 0 None ph = Inr (YAK_SUCCESS, Some n, obj1, ph1)"
          "file_step obj ph obj1 ph1" "(s AND NOT 0xFFF, n) \<in> set (inorder (memq obj1))"
          "file_byte obj1 ph1 = file_byte obj ph" "offsets obj1 = insert (s AND NOT 0xFFF) (offsets obj)"
          "free_pages (ph_pmm ph1) + (if s AND NOT 0xFFF \<in> offsets obj then 0 else 1) = free_pages (ph_pmm ph)"
      using lookup_any [OF 1(2,3) refl, where oid = oid and a = s] True by (auto simp: vobj_write_loop.simps split: if_splits)
    then show ?thesis
    proof cases
      case 1
      then show ?thesis using missing_step [OF True, where obj = obj
            and obj' = "obj\<lparr>memq := Node RB_RED (memq obj) (s AND NOT 0xFFF, 0) Null\<rparr>"]
        by (simp add: offsets_def)
    next
      case (2 n obj1 ph1)
      note cost = missing_step [OF True 2(5)]
      have ok1: "obj_ok obj1 (ph_pmm ph1)" "pmm_inv (ph_pmm ph1)" using 2(2) by (simp_all add: file_step_def)
      obtain ph2 where ph2: "copy_in n (unat (s AND 0xFFF)) src written (unat ?c) ph1 = Inr ph2" "file_step obj1 ph1 obj1 ph2"
          "ph_pmm ph2 = ph_pmm ph1" "\<forall>x. file_byte obj1 ph2 x = (if unat s \<le> unat x \<and> unat x < unat s + unat ?c
             then src ! (written + (unat x - unat s)) else file_byte obj1 ph1 x)"
        using copy_in_ok [OF ok1 2(3) c(5) room] by blast
      have run: "vobj_write_loop oid s e src written obj ph =
          vobj_write_loop oid (s + ?c) e src (written + unat ?c) obj1 ph2"
        using True 2(1) ph2(1) by (subst vobj_write_loop.simps) (simp add: Let_def)
      have le: "s + ?c \<le> e" using c(3,4) True by (simp add: word_le_nat_alt word_less_nat_alt)
      have left: "unat ?c + (unat e - unat (s + ?c)) = unat e - unat s" using c(3,4) True by (simp add: word_less_nat_alt)
      have ok2: "obj_ok obj1 (ph_pmm ph2)" "pmm_inv (ph_pmm ph2)" using ph2(2) by (simp_all add: file_step_def)
      have step: "file_step obj ph obj1 ph2" using file_step_trans [OF 2(2) ph2(2)] .
      have IH: "if free_pages (ph_pmm ph2) < card (missing (s + ?c) e obj1)
         then vobj_write_loop oid (s + ?c) e src (written + unat ?c) obj1 ph2 = Inl NullDeref
         else (\<exists>obj' ph'. vobj_write_loop oid (s + ?c) e src (written + unat ?c) obj1 ph2 =
             Inr (YAK_SUCCESS, written + unat ?c + (unat e - unat (s + ?c)), obj', ph') \<and> file_step obj1 ph2 obj' ph' \<and> backed (s + ?c) e obj' \<and>
            free_pages (ph_pmm ph') + card (missing (s + ?c) e obj1) = free_pages (ph_pmm ph2) \<and>
            (\<forall>x. file_byte obj' ph' x = (if s + ?c \<le> x \<and> x < e
               then src ! (written + unat ?c + (unat x - unat (s + ?c))) else file_byte obj1 ph2 x)))"
        by (rule "1.IH" [OF True 2(1) refl refl refl _ refl refl ph2(1) ok2 le]) (use left 1(5) in simp_all)
      have enough: "free_pages (ph_pmm ph) < card (missing s e obj) \<longleftrightarrow> free_pages (ph_pmm ph2) < card (missing (s + ?c) e obj1)"
        using cost 2(6) ph2(3) by (auto split: if_splits)
      show ?thesis
      proof (cases "free_pages (ph_pmm ph) < card (missing s e obj)")
        case True
        then show ?thesis using IH run enough by simp
      next
        case more: False
        then obtain obj' ph' where a: "vobj_write_loop oid (s + ?c) e src (written + unat ?c) obj1 ph2 =
             Inr (YAK_SUCCESS, written + unat ?c + (unat e - unat (s + ?c)), obj', ph')" "file_step obj1 ph2 obj' ph'" "backed (s + ?c) e obj'"
          "\<forall>x. file_byte obj' ph' x = (if s + ?c \<le> x \<and> x < e
             then src ! (written + unat ?c + (unat x - unat (s + ?c))) else file_byte obj1 ph2 x)"
          "free_pages (ph_pmm ph') + card (missing (s + ?c) e obj1) = free_pages (ph_pmm ph2)"
          using IH enough by auto
        have "file_byte obj' ph' x = (if s \<le> x \<and> x < e then src ! (written + (unat x - unat s)) else file_byte obj ph x)" for x
          using a(4) [rule_format, of x] ph2(4) [rule_format, of x] 2(4) c(3) le True
          by (auto simp: word_le_nat_alt word_less_nat_alt)
        moreover have "backed s e obj'"
          unfolding backed_def
        proof (intro allI impI)
          fix x assume x: "s \<le> x" "x < e"
          have "(s AND NOT 0xFFF) \<in> fst ` set (inorder (memq obj'))" using 2(3) a(2) by (force simp: file_step_def)
          then show "(x AND NOT 0xFFF) \<in> fst ` set (inorder (memq obj'))"
            using a(3) x chunk_page [OF True x(1)] unfolding backed_def by (cases "x < s + ?c") auto
        qed
        moreover have "free_pages (ph_pmm ph') + card (missing s e obj) = free_pages (ph_pmm ph)"
          using a(5) cost 2(6) ph2(3) by (simp split: if_splits)
        ultimately show ?thesis using run a(1) left file_step_trans [OF step a(2)] more by (auto simp: add.assoc)
      qed
    qed
  qed
qed

lemma read_loop_ok:
  "obj_ok obj (ph_pmm ph) \<Longrightarrow> pmm_inv (ph_pmm ph) \<Longrightarrow> s \<le> e \<Longrightarrow> nread + (unat e - unat s) \<le> length dst \<Longrightarrow>
   if free_pages (ph_pmm ph) < card (missing s e obj) then vobj_read_loop oid s e dst nread obj ph = Inl NullDeref
   else (\<exists>obj' ph'. vobj_read_loop oid s e dst nread obj ph = Inr (YAK_SUCCESS, nread + (unat e - unat s),
        take nread dst @ map (\<lambda>i. file_byte obj ph (word_of_nat i)) [unat s..<unat e] @ drop (nread + (unat e - unat s)) dst, obj', ph') \<and>
      file_step obj ph obj' ph' \<and> free_pages (ph_pmm ph') + card (missing s e obj) = free_pages (ph_pmm ph) \<and>
      file_byte obj' ph' = file_byte obj ph)"
proof (induction oid s e dst nread obj ph rule: vobj_read_loop.induct)
  case (1 oid s e dst nread obj ph)
  show ?case
  proof (cases "s < e")
    case False
    then have "s = e" using 1(4) by simp
    then show ?thesis using file_step_refl [OF 1(2,3)] by (auto simp: vobj_read_loop.simps)
  next
    case True
    let ?c = "page_chunk s e"
    let ?b = "\<lambda>i. file_byte obj ph (word_of_nat i)"
    note c = page_chunk_bounds [OF True]
    have room: "nread + unat ?c \<le> length dst" using c(4) 1(5) by linarith
    consider "vobj_read_loop oid s e dst nread obj ph = Inl NullDeref" "s AND NOT 0xFFF \<notin> offsets obj" "free_pages (ph_pmm ph) = 0"
      | n obj1 ph1 where "vm_lookuppage oid obj (s AND NOT 0xFFF) 0 None ph = Inr (YAK_SUCCESS, Some n, obj1, ph1)"
          "file_step obj ph obj1 ph1" "(s AND NOT 0xFFF, n) \<in> set (inorder (memq obj1))"
          "file_byte obj1 ph1 = file_byte obj ph" "offsets obj1 = insert (s AND NOT 0xFFF) (offsets obj)"
          "free_pages (ph_pmm ph1) + (if s AND NOT 0xFFF \<in> offsets obj then 0 else 1) = free_pages (ph_pmm ph)"
      using lookup_any [OF 1(2,3) refl, where oid = oid and a = s] True by (auto simp: vobj_read_loop.simps split: if_splits)
    then show ?thesis
    proof cases
      case 1
      then show ?thesis using missing_step [OF True, where obj = obj
            and obj' = "obj\<lparr>memq := Node RB_RED (memq obj) (s AND NOT 0xFFF, 0) Null\<rparr>"]
        by (simp add: offsets_def)
    next
      case (2 n obj1 ph1)
      note cost = missing_step [OF True 2(5)]
      have ok1: "obj_ok obj1 (ph_pmm ph1)" "pmm_inv (ph_pmm ph1)" using 2(2) by (simp_all add: file_step_def)
      let ?dst = "take nread dst @ map ?b [unat s..<unat s + unat ?c] @ drop (nread + unat ?c) dst"
      have small: "unat s + unat ?c < 2 ^ 64" using unsigned_less [of "s + ?c", where ?'a = nat] unfolding c(3) by simp
      have out: "copy_out n (unat (s AND 0xFFF)) dst nread (unat ?c) ph1 = Inr ?dst"
        using copy_out_ok [OF ok1 2(3) c(5) room small] 2(4) by simp
      have run: "vobj_read_loop oid s e dst nread obj ph =
          vobj_read_loop oid (s + ?c) e ?dst (nread + unat ?c) obj1 ph1"
        using True 2(1) out by (subst vobj_read_loop.simps) (simp add: Let_def)
      have le: "s + ?c \<le> e" using c(3,4) True by (simp add: word_le_nat_alt word_less_nat_alt)
      have left: "unat ?c + (unat e - unat (s + ?c)) = unat e - unat s" using c(3,4) True by (simp add: word_less_nat_alt)
      have len: "length ?dst = length dst" using room by simp
      have IH: "if free_pages (ph_pmm ph1) < card (missing (s + ?c) e obj1)
         then vobj_read_loop oid (s + ?c) e ?dst (nread + unat ?c) obj1 ph1 = Inl NullDeref
         else (\<exists>obj' ph'. vobj_read_loop oid (s + ?c) e ?dst (nread + unat ?c) obj1 ph1 =
             Inr (YAK_SUCCESS, nread + unat ?c + (unat e - unat (s + ?c)),
               take (nread + unat ?c) ?dst @ map (\<lambda>i. file_byte obj1 ph1 (word_of_nat i)) [unat (s + ?c)..<unat e] @
                 drop (nread + unat ?c + (unat e - unat (s + ?c))) ?dst, obj', ph') \<and>
             file_step obj1 ph1 obj' ph' \<and> free_pages (ph_pmm ph') + card (missing (s + ?c) e obj1) = free_pages (ph_pmm ph1) \<and>
             file_byte obj' ph' = file_byte obj1 ph1)"
        by (rule "1.IH" [OF True 2(1) refl refl refl _ refl refl out ok1 le]) (use left 1(5) len in simp_all)
      have whole: "take (nread + unat ?c) ?dst @ map (\<lambda>i. file_byte obj1 ph1 (word_of_nat i)) [unat (s + ?c)..<unat e] @
          drop (nread + unat ?c + (unat e - unat (s + ?c))) ?dst =
          take nread dst @ map ?b [unat s..<unat e] @ drop (nread + (unat e - unat s)) dst"
      proof -
        have "[unat s..<unat e] = [unat s..<unat s + unat ?c] @ [unat s + unat ?c..<unat e]"
          
          using upt_add_eq_append [of "unat s" "unat s + unat ?c" "unat e - unat s - unat ?c"] c(4) True
          by (simp add: word_less_nat_alt)
        moreover have D: "unat e - unat s = unat ?c + (unat e - (unat s + unat ?c))" using left unfolding c(3) by simp
        ultimately show ?thesis using room by (simp add: 2(4) c(3)) (simp add: D ac_simps)
      qed
      have enough: "free_pages (ph_pmm ph) < card (missing s e obj) \<longleftrightarrow> free_pages (ph_pmm ph1) < card (missing (s + ?c) e obj1)"
        using cost 2(6) by (auto split: if_splits)
      have same: "free_pages (ph_pmm ph') + card (missing (s + ?c) e obj1) = free_pages (ph_pmm ph1) \<Longrightarrow>
          free_pages (ph_pmm ph') + card (missing s e obj) = free_pages (ph_pmm ph)" for ph'
        using cost 2(6) by (simp split: if_splits)
      show ?thesis using IH unfolding run whole enough unfolding add.assoc left
        using file_step_trans [OF 2(2)] 2(4) same by (metis (no_types, lifting))
    qed
  qed
qed

section \<open>Files as byte strings\<close>

text \<open>\<open>file_ok v c w\<close>: vnode \<open>v\<close> is an unlocked regular file with contents \<open>c\<close>. Past its end the pages
  of its object are zero.\<close>

definition contents :: "u64 \<Rightarrow> vm_object \<Rightarrow> phys \<Rightarrow> buf" where
  "contents sz obj ph = map (\<lambda>i. file_byte obj ph (word_of_nat i)) [0..<unat sz]"

definition file_of :: "nat \<Rightarrow> vnode \<Rightarrow> nat \<Rightarrow> vm_object \<Rightarrow> world \<Rightarrow> bool" where
  "file_of v vn oid obj w \<longleftrightarrow> w_vns w v = Some vn \<and> vn_type vn = VREG \<and> vn_ops vn = tmpfs_vn_op \<and> \<not> vn_locked vn \<and>
     vn_vobj vn = Some oid \<and> w_objs w oid = Some obj \<and> obj_ok obj (ph_pmm (w_phys w)) \<and>
     pmm_inv (ph_pmm (w_phys w)) \<and> (\<forall>x \<ge> vn_filesize vn. file_byte obj (w_phys w) x = 0)"

definition file_ok :: "nat \<Rightarrow> buf \<Rightarrow> world \<Rightarrow> bool" where
  "file_ok v c w \<longleftrightarrow> (\<exists>vn oid obj. file_of v vn oid obj w \<and> c = contents (vn_filesize vn) obj (w_phys w))"

definition backed_file :: "nat \<Rightarrow> u64 \<Rightarrow> u64 \<Rightarrow> world \<Rightarrow> bool" where
  "backed_file v s e w \<longleftrightarrow> (\<exists>vn oid obj. file_of v vn oid obj w \<and> backed s e obj)"

lemma file_okI: "file_of v vn oid obj w \<Longrightarrow> c = contents (vn_filesize vn) obj (w_phys w) \<Longrightarrow> file_ok v c w"
  unfolding file_ok_def by blast

text \<open>The pages of a range that the object of a file does not have, and the pages left to allocate.\<close>

definition lacking :: "nat \<Rightarrow> u64 \<Rightarrow> u64 \<Rightarrow> world \<Rightarrow> nat" where
  "lacking v s e w =
     (case w_vns w v of None \<Rightarrow> 0 | Some vn \<Rightarrow> (case vn_vobj vn of None \<Rightarrow> 0 | Some oid \<Rightarrow>
       (case w_objs w oid of None \<Rightarrow> 0 | Some obj \<Rightarrow> card (missing s e obj))))"

definition pages_left :: "world \<Rightarrow> nat" where
  "pages_left w = free_pages (ph_pmm (w_phys w))"

lemma lacking_of: "file_of v vn oid obj w \<Longrightarrow> lacking v s e w = card (missing s e obj)"
  by (simp add: lacking_def file_of_def)

lemma lacking_one: "e \<le> 4096 \<Longrightarrow> lacking v s e w \<le> 1"
  using one_page [of e s] by (auto simp: lacking_def split: option.splits)

text \<open>Two files whose objects have no page in common.\<close>

definition apart :: "nat \<Rightarrow> nat \<Rightarrow> world \<Rightarrow> bool" where
  "apart u v w \<longleftrightarrow> (\<forall>un uo uobj vn vo vobj. file_of u un uo uobj w \<longrightarrow> file_of v vn vo vobj w \<longrightarrow>
     u \<noteq> v \<and> uo \<noteq> vo \<and> frames uobj \<inter> frames vobj = {})"

text \<open>The abstract write: zeros fill the gap when it starts past the end.\<close>

definition put_bytes :: "buf \<Rightarrow> nat \<Rightarrow> buf \<Rightarrow> buf" where
  "put_bytes c off d = map (\<lambda>i. if off \<le> i \<and> i < off + length d then d ! (i - off) else if i < length c then c ! i else 0)
     [0..<max (length c) (off + length d)]"

lemma put_bytes_nth: "take (length d) (drop off (put_bytes c off d)) = d"
  by (rule nth_equalityI) (auto simp: put_bytes_def)

lemma put_bytes_other: "i < length c \<Longrightarrow> i < off \<or> off + length d \<le> i \<Longrightarrow> put_bytes c off d ! i = c ! i"
  by (auto simp: put_bytes_def)

lemma word_nat: "i < 2 ^ 64 \<Longrightarrow> unat (word_of_nat i :: u64) = i"
proof -
  assume "i < 2 ^ 64"
  then have "i mod 2 ^ 64 = i" by (rule mod_less)
  then show ?thesis by (simp add: unat_of_nat)
qed

lemma no_wrap: "unat off + unat len < 2 ^ 64 \<Longrightarrow> unat (off + len) = unat off + unat len" for off len :: u64
  by (simp add: unat_word_ariths)

lemma file_of_frame:
  assumes u: "file_of u un uo uobj w" and step: "file_step obj (w_phys w) obj' ph'"
    and apart: "frames uobj \<inter> frames obj = {}"
    and w': "w_vns w' u = w_vns w u" "w_objs w' uo = w_objs w uo" "w_phys w' = ph'"
  shows "file_of u un uo uobj w'" "file_byte uobj ph' = file_byte uobj (w_phys w)"
proof -
  let ?pm = "ph_pmm (w_phys w)"
  have uok: "obj_ok uobj ?pm" using u by (simp add: file_of_def)
  have kept: "m \<in> owned_pages (ph_pmm ph') \<and> ph_mem ph' m = ph_mem (w_phys w) m \<and> offset_of (ph_pmm ph') m = offset_of ?pm m"
    if "(off, m) \<in> set (inorder (memq uobj))" for off m
  proof -
    have "m \<in> owned_pages ?pm - frames obj" using that uok apart by (force simp: obj_ok_def frames_def)
    then show ?thesis using step by (simp add: file_step_def)
  qed
  have "(\<exists>p. pm_pages (ph_pmm ph') m = Some p \<and> pg_offset p = off)" if "(off, m) \<in> set (inorder (memq uobj))" for off m
  proof -
    have "offset_of ?pm m = Some off" using uok that by (force simp: obj_ok_def offset_of_def)
    then show ?thesis using kept [OF that] by (auto simp: offset_of_def)
  qed
  then have "obj_ok uobj (ph_pmm ph')" using uok kept by (auto simp: obj_ok_def)
  moreover show "file_byte uobj ph' = file_byte uobj (w_phys w)"
    by (rule ext) (auto simp: file_byte_def split: option.splits dest!: map_of_SomeD dest: kept)
  moreover have "pmm_inv (ph_pmm ph')" using step by (simp add: file_step_def)
  ultimately show "file_of u un uo uobj w'" using u w' by (simp add: file_of_def)
qed

lemma vobj_write_ok:
  assumes f: "file_ok v c w" and len: "len \<noteq> 0" "unat off + unat len < 2 ^ 64" "unat len \<le> length src"
  shows "if pages_left w < lacking v off (off + len) w then vfs_vobj_write (Some v) off src len (Some z) w = Inl NullDeref
    else (\<exists>w'. vfs_vobj_write (Some v) off src len (Some z) w = Inr (YAK_SUCCESS, Some (unat len), w') \<and>
       file_ok v (put_bytes c (unat off) (take (unat len) src)) w' \<and> backed_file v off (off + len) w' \<and>
       pages_left w' + lacking v off (off + len) w = pages_left w \<and>
       (\<forall>u c2. apart u v w \<longrightarrow> file_ok u c2 w \<longrightarrow> file_ok u c2 w'))"
proof -
  obtain vn oid obj where fo: "file_of v vn oid obj w" and c: "c = contents (vn_filesize vn) obj (w_phys w)"
    using f by (auto simp: file_ok_def)
  then have fx: "w_vns w v = Some vn" "vn_type vn = VREG" "vn_ops vn = tmpfs_vn_op" "\<not> vn_locked vn" "vn_vobj vn = Some oid"
      "w_objs w oid = Some obj" "obj_ok obj (ph_pmm (w_phys w))" "pmm_inv (ph_pmm (w_phys w))"
      "\<And>x. vn_filesize vn \<le> x \<Longrightarrow> file_byte obj (w_phys w) x = 0"
    by (auto simp: file_of_def)
  let ?e = "off + len" and ?sz = "max (vn_filesize vn) (off + len)"
  note e = no_wrap [OF len(2)]
  have lt: "off \<le> ?e" "0 + (unat ?e - unat off) \<le> length src" using e len(3) by (simp_all add: word_le_nat_alt)
  let ?vn = "vn\<lparr>vn_filesize := ?sz\<rparr>"
  let ?w1 = "\<lambda>obj' ph'. w\<lparr>w_vns := (w_vns w)(v \<mapsto> ?vn), w_objs := (w_objs w)(oid \<mapsto> obj'), w_phys := ph'\<rparr>"
  let ?lk = "put_vnode v (vn\<lparr>vn_locked := True\<rparr>) w"
  have lock: "VOP_LOCK (Some v) w = Inr ?lk"
    using fx(1,3,4) by (simp add: VOP_LOCK_def vfs_generic_lock_def)
  have unlock: "VOP_UNLOCK (Some v) (if ?e > vn_filesize vn then put_vnode v (vn\<lparr>vn_locked := True, vn_filesize := ?e\<rparr>) ?lk else ?lk) =
      Inr (w\<lparr>w_vns := (w_vns w)(v \<mapsto> ?vn)\<rparr>)"
    using fx(3,4) by (cases vn) (simp add: VOP_UNLOCK_def vfs_generic_unlock_def put_vnode_def max_def)
  have run: "vfs_vobj_write (Some v) off src len (Some z) w =
      bindR (vobj_write_loop oid off ?e src 0 obj (w_phys w)) (\<lambda>(res, written, obj', ph).
        Inr (res, if IS_ERR res then Some z else Some written, ?w1 obj' ph))"
    using fx(1,2,5,6) len(1) unlock by (simp add: vfs_vobj_write_def Let_def lock object_at_def)
  note cost = lacking_of [OF fo, of off ?e]
  show ?thesis
  proof (cases "pages_left w < lacking v off ?e w")
    case True
    then show ?thesis using write_loop_ok [OF fx(7,8) lt, of oid] run cost by (simp add: pages_left_def)
  next
    case more: False
    then obtain obj' ph' where a:
      "vobj_write_loop oid off ?e src 0 obj (w_phys w) = Inr (YAK_SUCCESS, 0 + (unat ?e - unat off), obj', ph')"
      "file_step obj (w_phys w) obj' ph'" "backed off ?e obj'"
      "\<forall>x. file_byte obj' ph' x = (if off \<le> x \<and> x < ?e then src ! (0 + (unat x - unat off)) else file_byte obj (w_phys w) x)"
      "free_pages (ph_pmm ph') + card (missing off ?e obj) = free_pages (ph_pmm (w_phys w))"
      using write_loop_ok [OF fx(7,8) lt, of oid] cost by (auto simp: pages_left_def)
    let ?w = "?w1 obj' ph'"
    have fin: "vfs_vobj_write (Some v) off src len (Some z) w = Inr (YAK_SUCCESS, Some (unat len), ?w)"
      using run a(1) e by simp
    have step: "obj_ok obj' (ph_pmm ph')" "pmm_inv (ph_pmm ph')" using a(2) by (simp_all add: file_step_def)
    have "file_byte obj' ph' x = 0" if "?sz \<le> x" for x using that a(4) fx(9) [of x] by (auto dest: leD)
    then have new: "file_of v ?vn oid obj' ?w" using fx step by (simp add: file_of_def)
    have "contents ?sz obj' ph' = put_bytes c (unat off) (take (unat len) src)"
    proof (rule nth_equalityI)
      have "unat ?sz = max (unat (vn_filesize vn)) (unat off + unat len)"
        by (simp add: max_def word_le_nat_alt e)
      then show l: "length (contents ?sz obj' ph') = length (put_bytes c (unat off) (take (unat len) src))"
        using len(3) by (simp add: put_bytes_def contents_def c)
      fix i assume "i < length (contents ?sz obj' ph')"
      then have i: "i < unat ?sz" by (simp add: contents_def)
      let ?x = "word_of_nat i :: u64"
      have x: "unat ?x = i" by (rule word_nat) (use i unsigned_less [of ?sz, where ?'a = nat] in simp)
      have "i < length (put_bytes c (unat off) (take (unat len) src))" using i l by (simp add: contents_def)
      then have R: "put_bytes c (unat off) (take (unat len) src) ! i =
          (if unat off \<le> i \<and> i < unat off + unat len then src ! (i - unat off) else
           if i < unat (vn_filesize vn) then file_byte obj (w_phys w) ?x else 0)"
      proof -
        have "take (unat len) src ! (i - unat off) = src ! (i - unat off)" if "unat off \<le> i \<and> i < unat off + unat len"
          by (rule nth_take) (use that in linarith)
        then show ?thesis using \<open>i < length (put_bytes _ _ _)\<close> len(3) by (simp add: put_bytes_def contents_def c)
      qed
      have L: "contents ?sz obj' ph' ! i = (if unat off \<le> i \<and> i < unat off + unat len then src ! (i - unat off)
          else file_byte obj (w_phys w) ?x)"
        using i a(4) [rule_format, of ?x] x e by (simp add: contents_def word_le_nat_alt word_less_nat_alt)
      have "file_byte obj (w_phys w) ?x = 0" if "\<not> i < unat (vn_filesize vn)"
        using fx(9) [of ?x] x that by (simp add: word_le_nat_alt)
      then show "contents ?sz obj' ph' ! i = put_bytes c (unat off) (take (unat len) src) ! i" unfolding L R by simp
    qed
    then have "file_ok v (put_bytes c (unat off) (take (unat len) src)) ?w"
      by (intro file_okI [OF new]) simp
    moreover have "file_ok u c2 ?w" if ap: "apart u v w" and u: "file_ok u c2 w" for u c2
    proof -
      obtain un uo uobj where u: "file_of u un uo uobj w" "c2 = contents (vn_filesize un) uobj (w_phys w)"
        using u by (auto simp: file_ok_def)
      then have "u \<noteq> v" "uo \<noteq> oid" "frames uobj \<inter> frames obj = {}" using ap fo by (auto simp: apart_def)
      then have k: "file_of u un uo uobj ?w" "file_byte uobj ph' = file_byte uobj (w_phys w)"
        using file_of_frame [OF u(1) a(2), of ?w] by simp_all
      show ?thesis by (rule file_okI [OF k(1)]) (simp add: u(2) contents_def k(2))
    qed
    moreover have "backed_file v off ?e ?w" using new a(3) unfolding backed_file_def by blast
    moreover have "pages_left ?w + lacking v off ?e w = pages_left w" using a(5) cost by (simp add: pages_left_def)
    ultimately show ?thesis using fin more by auto
  qed
qed

lemma read_run:
  assumes "file_of v vn oid obj w" "len \<noteq> 0" "off < vn_filesize vn"
  shows "vfs_vobj_read (Some v) off dst len (Some z) w =
     bindR (vobj_read_loop oid off (off + (if off + len > vn_filesize vn then vn_filesize vn - off else len)) dst 0 obj (w_phys w))
       (\<lambda>(res, nread, dst', obj', ph).
          Inr (res, if IS_ERR res then Some z else Some nread, dst', w\<lparr>w_objs := (w_objs w)(oid \<mapsto> obj'), w_phys := ph\<rparr>))"
  using assms by (simp add: vfs_vobj_read_def Let_def object_at_def not_le [symmetric] file_of_def)

lemma lacking_backed: "backed_file v s e w \<Longrightarrow> s \<le> e' \<Longrightarrow> e' \<le> e \<Longrightarrow> lacking v s e' w = 0"
  by (auto simp: backed_file_def lacking_of missing_def backed_def offsets_def)

text \<open>Where a read stops.\<close>

definition read_end :: "u64 \<Rightarrow> u64 \<Rightarrow> buf \<Rightarrow> u64" where
  "read_end off len c = (if unat off < length c then word_of_nat (min (unat off + unat len) (length c)) else off)"

lemma vobj_read_ok:
  assumes f: "file_ok v c w" and len: "len \<noteq> 0" "unat off + unat len < 2 ^ 64" "unat len \<le> length dst"
  shows "if pages_left w < lacking v off (read_end off len c) w then vfs_vobj_read (Some v) off dst len (Some z) w = Inl NullDeref
    else (\<exists>w'. vfs_vobj_read (Some v) off dst len (Some z) w =
       (let d = take (unat len) (drop (unat off) c)
        in Inr (if unat off < length c then YAK_SUCCESS else YAK_EOF, Some (length d), d @ drop (length d) dst, w')) \<and>
       file_ok v c w' \<and> pages_left w' + lacking v off (read_end off len c) w = pages_left w)"
proof -
  obtain vn oid obj where fo: "file_of v vn oid obj w" and c: "c = contents (vn_filesize vn) obj (w_phys w)"
    using f by (auto simp: file_ok_def)
  then have fx: "w_vns w v = Some vn" "vn_type vn = VREG" "vn_ops vn = tmpfs_vn_op" "\<not> vn_locked vn" "vn_vobj vn = Some oid"
      "w_objs w oid = Some obj" "obj_ok obj (ph_pmm (w_phys w))" "pmm_inv (ph_pmm (w_phys w))"
      "\<And>x. vn_filesize vn \<le> x \<Longrightarrow> file_byte obj (w_phys w) x = 0"
    by (auto simp: file_of_def)
  have lc: "length c = unat (vn_filesize vn)" by (simp add: c contents_def)
  show ?thesis
  proof (cases "off < vn_filesize vn")
    case False
    then have "drop (unat off) c = []" using lc by (simp add: word_less_nat_alt)
    moreover have "lacking v off (read_end off len c) w = 0"
      using False lc by (simp add: lacking_of [OF fo] read_end_def word_less_nat_alt)
    ultimately show ?thesis using False fx len(1) lc f by (simp add: vfs_vobj_read_def Let_def not_less word_le_nat_alt)
  next
    case True
    let ?n = "min (unat len) (unat (vn_filesize vn) - unat off)"
    let ?l = "if off + len > vn_filesize vn then vn_filesize vn - off else len"
    have l: "unat ?l = ?n"
      using True no_wrap [OF len(2)] by (auto simp: word_less_nat_alt unat_sub word_le_nat_alt)
    have e: "unat (off + ?l) = unat off + ?n" using no_wrap [of off ?l] len(2) unfolding l by simp
    have lt: "off \<le> off + ?l" "0 + (unat (off + ?l) - unat off) \<le> length dst"
      using e len(3) by (simp_all add: word_le_nat_alt)
    let ?d = "take (unat len) (drop (unat off) c)"
    have d: "map (\<lambda>i. file_byte obj (w_phys w) (word_of_nat i)) [unat off..<unat (off + ?l)] = ?d" "length ?d = ?n"
      unfolding e using True by (auto simp: c contents_def take_map drop_map word_less_nat_alt min_def)
    note run = read_run [OF fo len(1) True, of dst z]
    have stop: "read_end off len c = off + ?l"
    proof -
      have "unat off + ?n = min (unat off + unat len) (length c)" using True lc by (auto simp: word_less_nat_alt)
      then have "unat (off + ?l) = min (unat off + unat len) (length c)" using e by simp
      moreover have "unat (word_of_nat (min (unat off + unat len) (length c)) :: u64) = min (unat off + unat len) (length c)"
        by (rule word_nat) (use len(2) in linarith)
      ultimately show ?thesis using True lc by (simp add: read_end_def word_unat_eq_iff word_less_nat_alt)
    qed
    note cost = lacking_of [OF fo, of off "off + ?l"]
    show ?thesis
    proof (cases "pages_left w < lacking v off (off + ?l) w")
      case True
      then show ?thesis using read_loop_ok [OF fx(7,8) lt, of oid] run cost stop by (simp add: pages_left_def)
    next
      case more: False
      then obtain obj' ph' where a: "vobj_read_loop oid off (off + ?l) dst 0 obj (w_phys w) = Inr (YAK_SUCCESS, 0 + (unat (off + ?l) - unat off),
          take 0 dst @ map (\<lambda>i. file_byte obj (w_phys w) (word_of_nat i)) [unat off..<unat (off + ?l)] @
            drop (0 + (unat (off + ?l) - unat off)) dst, obj', ph')"
        "file_step obj (w_phys w) obj' ph'" "file_byte obj' ph' = file_byte obj (w_phys w)"
        "free_pages (ph_pmm ph') + card (missing off (off + ?l) obj) = free_pages (ph_pmm (w_phys w))"
        using read_loop_ok [OF fx(7,8) lt, of oid] cost by (auto simp: pages_left_def)
      let ?w = "w\<lparr>w_objs := (w_objs w)(oid \<mapsto> obj'), w_phys := ph'\<rparr>"
      have "vfs_vobj_read (Some v) off dst len (Some z) w = Inr (YAK_SUCCESS, Some (length ?d), ?d @ drop (length ?d) dst, ?w)"
        unfolding run a(1) d using e d(2) by simp
      moreover have "file_of v vn oid obj' ?w" using fx a(2,3) by (simp add: file_of_def file_step_def)
      then have "file_ok v c ?w" by (rule file_okI) (simp add: c contents_def a(3))
      moreover have "pages_left ?w + lacking v off (off + ?l) w = pages_left w" using a(4) cost by (simp add: pages_left_def)
      ultimately show ?thesis using True lc more unfolding stop by (auto simp: Let_def word_less_nat_alt)
    qed
  qed
qed

end
