(* ===== verification/FileProperties.thy ===== *)
theory FileProperties
  imports FileFacts FileContents Samples
begin

text \<open>
  The properties of the descriptor table and of the contents of files, with a concrete process: descriptor 0 is free, 1 and 2 refer
  to the same open file, and the table has one more free slot.
\<close>

unbundle bit_operations_syntax

section \<open>A sample process\<close>

definition sample_vnode :: vnode where
  "sample_vnode = \<lparr>vn_ops = tmpfs_vn_op, vn_type = VREG, vn_refcnt = 1, vn_locked = False, vn_vfs = Some 0,
     vn_mounted_vfs = None, vn_node_covered = None, vn_filesize = 0, vn_vobj = None,
     tn_vattr = \<lparr>va_mode = 0, va_inode = 1, va_nlinks = 1, va_uid = 0, va_gid = 0, va_atime = 0, va_mtime = 0,
       va_ctime = 0, va_btime = 0, va_block_size = 4096, va_block_count = 0\<rparr>,
     tn_name = None, tn_name_len = 0, tn_link_path = None, tn_children = ht_init ht_hash_str ht_eq_str\<rparr>"

definition sample_fd :: fd where "sample_fd = \<lparr>fd_file = Some 7, fd_flags = FD_CLOEXEC\<rparr>"

definition sample_fds :: fdtable where
  "sample_fds = with_slots [None, Some sample_fd, Some sample_fd, None]"

definition sample_file :: open_file where
  "sample_file = \<lparr>file_vnode = Some 3, file_refcnt = 2, file_offset = 0, file_flags = 0\<rparr>"

definition sample_files :: files where
  "sample_files = \<lparr>fs_vnodes = [3 \<mapsto> sample_vnode], fs_files = [7 \<mapsto> sample_file], fs_next = 8, fs_kz = []\<rparr>"

lemma sample_fd_at: "fd_at sample_fds i = (if i = 1 \<or> i = 2 then Some sample_fd else None)"
  by (auto simp: fd_at_def sample_fds_def nth_Cons split: nat.splits)

lemma sample_fd_refs: "table_refs sample_fds f = (if f = 7 then 2 else 0)"
  by (simp add: table_refs_def sample_fds_def slot_refs_def sample_fd_def)

lemma sample_process:
  "table_ok sample_fds" "files_ok (\<lambda>_. 0) sample_fds sample_files" "have_vnodes sample_files"
  "all_open sample_fds" "fs_kz sample_files = []" "has_slot sample_fds" "next_fd sample_fds = 0" "fs_next sample_files = 8"
proof -
  show "table_ok sample_fds" "fs_kz sample_files = []" "fs_next sample_files = 8"
    by (simp_all add: sample_fds_def sample_files_def)
  show "files_ok (\<lambda>_. 0) sample_fds sample_files"
    unfolding files_ok_def sample_fd_refs
    by (auto simp: sample_files_def sample_fds_def sample_fd_def counts_def sample_file_def split: if_splits)
  show "have_vnodes sample_files" by (simp add: have_vnodes_def sample_files_def sample_file_def)
  show "all_open sample_fds" by (simp add: all_open_def sample_fd_at sample_fd_def)
  have "fd_at sample_fds 0 = None" by (simp add: sample_fd_at)
  then show "next_fd sample_fds = 0" using next_fd_free(2) [of 0 sample_fds] by (cases "next_fd sample_fds") auto
  then show "has_slot sample_fds" by (simp add: has_slot_def sample_fds_def)
qed

section \<open>Opening and closing\<close>

text \<open>C27: Opening takes the lowest free descriptor, grows the table when it is full, and gives up with
  \<open>YAK_MFILE\<close>, changing nothing, at the limit; the other descriptors stay as they are and every file's
  count is still the number of references to it.\<close>

theorem open_takes_lowest:
  assumes "table_ok p" "files_ok extra p s" "fs_kz s = []" "extra (fs_next s) = 0"
  shows "if has_slot p
    then \<exists>p' s'. fd_alloc_file p outfd s = Inr (YAK_SUCCESS, int (next_fd p), p', s') \<and> table_ok p' \<and>
      files_ok extra p' s' \<and> fd_at p' = (fd_at p)(next_fd p \<mapsto> \<lparr>fd_file = Some (fs_next s), fd_flags = 0\<rparr>) \<and>
      fs_files s' = (fs_files s)(fs_next s \<mapsto> file_init) \<and>
      fd_at p (next_fd p) = None \<and> (\<forall>i < next_fd p. fd_at p i \<noteq> None)
    else fd_alloc_file p outfd s = Inr (YAK_MFILE, outfd, p, s)"
proof (cases "has_slot p")
  case True
  let ?s = "put_file (fs_next s) (Some file_init) (s\<lparr>fs_next := fs_next s + 1\<rparr>)"
  obtain p' where "fd_alloc_file p outfd s = Inr (YAK_SUCCESS, int (next_fd p), p', ?s)" "table_ok p'"
      "files_ok extra p' ?s" "fd_at p' = (fd_at p)(next_fd p \<mapsto> \<lparr>fd_file = Some (fs_next s), fd_flags = 0\<rparr>)"
    using fd_alloc_file_ok [OF assms] True by auto
  moreover have "fs_files ?s = (fs_files s)(fs_next s \<mapsto> file_init)" by (simp add: put_file_def)
  ultimately show ?thesis using True next_fd_free(1) [of p] next_fd_free(2) [of _ p] by (metis option.distinct(1))
qed (use fd_alloc_file_ok [OF assms] in auto)

lemma open_takes_lowest_witness:
  "\<exists>p' s'. fd_alloc_file sample_fds (- 1) sample_files = Inr (YAK_SUCCESS, 0, p', s') \<and>
     files_ok (\<lambda>_. 0) p' s' \<and> fd_at p' 0 = Some \<lparr>fd_file = Some 8, fd_flags = 0\<rparr>"
  using open_takes_lowest [OF sample_process(1,2,5), of "- 1"] sample_process(6-8) by auto

text \<open>C30: Closing frees the descriptor and drops its reference; with the last reference the file goes.\<close>

theorem close_drops_reference:
  assumes "table_ok p" "files_ok extra p s" "have_vnodes s"
    and "fd_at p i = Some d" "fd_file d = Some g" "fs_files s g = Some x"
  shows "\<exists>p' s'. fd_close p (int i) s = Inr (p', s') \<and> table_ok p' \<and> fd_at p' = (fd_at p)(i := None) \<and>
     files_ok extra p' s' \<and> have_vnodes s' \<and>
     fs_files s' = (fs_files s)(g := if file_refcnt x = 1 then None else Some (x\<lparr>file_refcnt := file_refcnt x - 1\<rparr>))"
  using fd_close_ok [OF assms] drop_ref_vnodes [OF assms(3,6)] by auto

lemma close_drops_reference_witness:
  "\<exists>p' s'. fd_close sample_fds 1 sample_files = Inr (p', s') \<and> fd_at p' 1 = None \<and>
     fs_files s' 7 = Some (sample_file\<lparr>file_refcnt := 1\<rparr>)"
proof -
  have "fd_at sample_fds 1 = Some sample_fd" "fd_file sample_fd = Some 7" "fs_files sample_files 7 = Some sample_file"
    by (simp_all add: sample_fd_at sample_fd_def sample_files_def)
  from close_drops_reference [OF sample_process(1-3) this] show ?thesis by (auto simp: sample_file_def)
qed

text \<open>C28: \<open>dup2\<close> makes the new descriptor refer to the file of the old one, whatever it referred to
  before, and leaves every other descriptor; the counts stay exact, so a file whose last descriptor was
  replaced is closed.\<close>

theorem dup_replaces:
  assumes "table_ok p" "files_ok extra p s" "have_vnodes s" "fs_kz s = []" "all_open p" "in_reach p new" "old \<noteq> new"
    and "flags AND FD_DUPE_MINIMUM = 0"
    and "fd_at p old = Some d" "fd_file d = Some g" "fs_files s g = Some x" "file_refcnt x + 1 < 2 ^ 64"
  shows "\<exists>p' s'. fd_duplicate fuel p (int old) (int new) flags outfd s = Inr (YAK_SUCCESS, int new, p', s') \<and>
     table_ok p' \<and> files_ok extra p' s' \<and>
     fd_at p' = (fd_at p)(new \<mapsto> \<lparr>fd_file = Some g, fd_flags = dup_flags flags (fd_flags d)\<rparr>)"
  using assms by (rule fd_duplicate_ok)

lemma dup_replaces_witness:
  "\<exists>p' s'. fd_duplicate 0 sample_fds 1 9 FD_DUPE_NOCLOEXEC (- 1) sample_files = Inr (YAK_SUCCESS, 9, p', s') \<and>
     files_ok (\<lambda>_. 0) p' s' \<and> fd_at p' 9 = Some \<lparr>fd_file = Some 7, fd_flags = 0\<rparr>"
proof -
  have a: "fd_at sample_fds 1 = Some sample_fd" "fd_file sample_fd = Some 7" "fs_files sample_files 7 = Some sample_file"
    "file_refcnt sample_file + 1 < 2 ^ 64" "in_reach sample_fds 9" "(1 :: nat) \<noteq> 9" "FD_DUPE_NOCLOEXEC AND FD_DUPE_MINIMUM = 0"
    by (simp_all add: sample_fd_at sample_fd_def sample_files_def sample_file_def in_reach_def FD_DUPE_NOCLOEXEC_def FD_DUPE_MINIMUM_def)
  have "dup_flags FD_DUPE_NOCLOEXEC (fd_flags sample_fd) = 0"
    by (simp add: dup_flags_def FD_DUPE_NOCLOEXEC_def sample_fd_def FD_CLOEXEC_def)
  then show ?thesis
    using dup_replaces [OF sample_process(1-3,5,4) a(5-7,1-4), of 0 "- 1"] by auto
qed

text \<open>C29: The table a forked process gets shows the same descriptors, and every file gains exactly the
  references of the new table.\<close>

theorem fork_shares_files:
  assumes "table_ok p" "files_ok extra p s" "all_open p" "fs_kz s = []"
    and "\<forall>f x. fs_files s f = Some x \<longrightarrow> file_refcnt x + table_refs p f < 2 ^ 64"
  shows "\<exists>q s'. fd_clone p s = Inr (q, s') \<and> table_ok q \<and> fd_at q = fd_at p \<and>
     files_ok (\<lambda>f. extra f + table_refs q f) p s' \<and> files_ok (\<lambda>f. extra f + table_refs p f) q s'"
proof -
  obtain q s' where q: "fd_clone p s = Inr (q, s')" "table_ok q" "fd_at q = fd_at p"
      "files_ok (\<lambda>f. extra f + table_refs q f) p s'"
    using fd_clone_ok [OF assms(1-4)] assms(5) by blast
  have "files_ok (\<lambda>f. extra f + table_refs p f) q s'"
    using q(4) unfolding files_ok_map q(3) table_refs_same [OF q(3)] .
  then show ?thesis using q by blast
qed

lemma fork_shares_files_witness:
  "\<exists>q s'. fd_clone sample_fds sample_files = Inr (q, s') \<and> fd_at q 1 = Some sample_fd \<and>
     files_ok (\<lambda>f. 0 + table_refs q f) sample_fds s'"
proof -
  have "\<forall>f x. fs_files sample_files f = Some x \<longrightarrow> file_refcnt x + table_refs sample_fds f < 2 ^ 64"
    by (simp add: sample_files_def sample_fd_refs sample_file_def)
  from fork_shares_files [OF sample_process(1,2,4,5) this] show ?thesis by (auto simp: sample_fd_at)
qed

section \<open>Bad descriptors\<close>

text \<open>A descriptor is only checked against the upper end of the table: every negative one is used as
  an index into the array, and one close to the largest \<open>int\<close> makes \<open>dup2\<close> index past its end, the grown
  capacity having wrapped around.\<close>

theorem bad_descriptor:
  assumes "table_ok p" "fd_at p old = Some d" "flags AND FD_DUPE_MINIMUM = 0"
  shows "(i < 0 \<longrightarrow> fd_safe_get p i = Inl OutOfBounds) \<and>
     (2147483643 < i \<and> i \<le> 2147483647 \<longrightarrow> fd_duplicate fuel p (int old) i flags outfd s = Inl OutOfBounds)"
proof -
  have "fds p \<noteq> None" using assms(2) by (cases "fds p") (simp_all add: fd_at_def slots_def)
  then show ?thesis using negative_fd [of p i] huge_fd [OF assms(1,2) _ _ assms(3)] assms(1) by (simp add: table_ok_def)
qed

lemma bad_descriptor_witness:
  "fd_safe_get sample_fds (- 1) = Inl OutOfBounds \<and>
   fd_duplicate 0 sample_fds 1 2147483647 0 (- 1) sample_files = Inl OutOfBounds"
  using bad_descriptor [OF sample_process(1), of 1 sample_fd 0 "- 1" 0 "- 1" sample_files]
    bad_descriptor [OF sample_process(1), of 1 sample_fd 0 2147483647 0 "- 1" sample_files]
  by (simp add: sample_fd_at)

text \<open>Duplicating with a minimum at or beyond the end of a full table returns the first descriptor
  that growing added, below the minimum.\<close>

theorem minimum_is_forgotten:
  assumes "table_ok p" "fs_kz s = []" "int (length (slots p)) < start" "length (slots p) + 4 \<le> 65535"
  shows "\<exists>i p'. fd_allocate_min (Suc (Suc fuel)) p start s = Inr (YAK_SUCCESS, i, p', s) \<and> i < start"
  using minimum_forgotten [OF assms] by blast

lemma minimum_is_forgotten_witness:
  "\<exists>i p'. fd_allocate_min 2 sample_fds 10 sample_files = Inr (YAK_SUCCESS, i, p', sample_files) \<and> i < 10"
proof -
  have "int (length (slots sample_fds)) < 10" "length (slots sample_fds) + 4 \<le> 65535" by (simp_all add: sample_fds_def)
  from minimum_is_forgotten [OF sample_process(1,5) this, of 0] show ?thesis by (simp only: numeral_2_eq_2)
qed

section \<open>Contents of files\<close>

text \<open>Vnode 3 is an empty file.\<close>

definition sample_world :: world where
  "sample_world = \<lparr>w_vns = [3 \<mapsto> sample_vnode\<lparr>vn_vobj := Some 1\<rparr>], w_objs = [1 \<mapsto> sample_object], w_phys = sample_phys,
     w_fss = (\<lambda>_. None), w_next = 8, w_kz = [], w_junk = 0xCC, w_now = 5, w_root = 0, w_cwd = None,
     w_filesystems = ht_init ht_hash_str ht_eq_str\<rparr>"

lemma sample_world_file: "file_ok 3 [] sample_world"
proof (rule file_okI)
  have "obj_ok sample_object sample_pmm" unfolding sample_object_def by (rule object_create_ok)
  then show "file_of 3 (sample_vnode\<lparr>vn_vobj := Some 1\<rparr>) 1 sample_object sample_world"
    by (simp add: file_of_def sample_world_def sample_vnode_def sample_phys_def sample_pmm_inv file_byte_def
        sample_object_def vm_object_common_init_def)
  show "[] = contents (vn_filesize (sample_vnode\<lparr>vn_vobj := Some 1\<rparr>)) sample_object (w_phys sample_world)"
    by (simp add: contents_def sample_vnode_def)
qed

lemma sample_world_left: "pages_left sample_world = 3"
  by (simp add: pages_left_def sample_world_def sample_phys_def sample_free_pages)

text \<open>C25: Writing to a file replaces exactly the bytes of the range, filling any gap before it with zeros, and
  extends the file when the range passes its end; files that share no page with it keep their contents. Every
  page of the range the file's object does not have takes one page of memory; when fewer pages are left, and
  only then, the pager writes through a null pointer.\<close>

theorem write_updates_file:
  assumes "file_ok v c w" "len \<noteq> 0" "unat off + unat len < 2 ^ 64" "unat len \<le> length src"
  shows "if pages_left w < lacking v off (off + len) w then vfs_vobj_write (Some v) off src len (Some z) w = Inl NullDeref
    else (\<exists>w'. vfs_vobj_write (Some v) off src len (Some z) w = Inr (YAK_SUCCESS, Some (unat len), w') \<and>
       file_ok v (put_bytes c (unat off) (take (unat len) src)) w' \<and>
       pages_left w' + lacking v off (off + len) w = pages_left w \<and>
       (\<forall>u c2. apart u v w \<longrightarrow> file_ok u c2 w \<longrightarrow> file_ok u c2 w'))"
  using vobj_write_ok [OF assms, of z] by (auto split: if_splits)

lemma write_updates_file_witness:
  "\<exists>w'. vfs_vobj_write (Some 3) 2 [65, 66] 2 (Some 0) sample_world = Inr (YAK_SUCCESS, Some 2, w') \<and>
     file_ok 3 [0, 0, 65, 66] w' \<and> 2 \<le> pages_left w'"
proof -
  have "put_bytes [] 2 [65, 66] = [0, 0, 65, 66]" by (simp add: put_bytes_def upt_rec)
  moreover have "lacking 3 2 4 sample_world \<le> 1" by (rule lacking_one) simp
  ultimately show ?thesis using write_updates_file [OF sample_world_file, of 2 2 "[65, 66]" 0] sample_world_left
    by (auto split: if_splits)
qed

text \<open>The file after that write.\<close>

definition written_world :: world where
  "written_world = (case vfs_vobj_write (Some 3) 2 [65, 66] 2 (Some 0) sample_world of
     Inl _ \<Rightarrow> sample_world | Inr (_, _, w) \<Rightarrow> w)"

lemma written_world: "file_ok 3 [0, 0, 65, 66] written_world" "2 \<le> pages_left written_world"
proof -
  have "put_bytes [] 2 [65, 66] = [0, 0, 65, 66]" by (simp add: put_bytes_def upt_rec)
  moreover have "lacking 3 2 4 sample_world \<le> 1" by (rule lacking_one) simp
  ultimately show "file_ok 3 [0, 0, 65, 66] written_world" "2 \<le> pages_left written_world"
    using vobj_write_ok [OF sample_world_file, of 2 2 "[65, 66]" 0] sample_world_left
    by (auto simp: written_world_def split: if_splits)
qed

text \<open>C26: Reading a file copies the bytes of the range that lie in the file, tells how many, and reports the
  end of the file when there are none; the contents stay. Every page of the part in the file that its object
  does not have takes one page of memory; when fewer pages are left, and only then, the pager writes through a
  null pointer, so a read at or past the end never does.\<close>

theorem read_returns_contents:
  assumes "file_ok v c w" "len \<noteq> 0" "unat off + unat len < 2 ^ 64" "unat len \<le> length dst"
  shows "if pages_left w < lacking v off (read_end off len c) w then vfs_vobj_read (Some v) off dst len (Some z) w = Inl NullDeref
    else (\<exists>w'. vfs_vobj_read (Some v) off dst len (Some z) w =
       (let d = take (unat len) (drop (unat off) c)
        in Inr (if unat off < length c then YAK_SUCCESS else YAK_EOF, Some (length d), d @ drop (length d) dst, w')) \<and>
       file_ok v c w' \<and> pages_left w' + lacking v off (read_end off len c) w = pages_left w)"
  using assms by (rule vobj_read_ok)

lemma read_returns_contents_witness:
  "(\<exists>w'. vfs_vobj_read (Some 3) 1 [9, 9, 9] 2 (Some 7) written_world = Inr (YAK_SUCCESS, Some 2, [0, 65, 9], w') \<and>
      file_ok 3 [0, 0, 65, 66] w') \<and>
   (\<exists>w'. vfs_vobj_read (Some 3) 4 [9, 9] 2 (Some 7) written_world = Inr (YAK_EOF, Some 0, [9, 9], w'))"
proof -
  have "lacking 3 1 (read_end 1 2 [0, 0, 65, 66]) written_world \<le> 1" "lacking 3 4 (read_end 4 2 [0, 0, 65, 66]) written_world \<le> 1"
    by (rule lacking_one, simp add: read_end_def)+
  then show ?thesis
    using read_returns_contents [OF written_world(1), of 2 1 "[9, 9, 9]" 7]
      read_returns_contents [OF written_world(1), of 2 4 "[9, 9]" 7] written_world(2)
    by (auto split: if_splits)
qed

text \<open>C24: What was written is read back: reading the range a write returned from finds all its pages, so it
  needs no memory, and yields the bytes. The write itself needs a page of memory for every page of the range
  the file does not have; when fewer are left, and only then, it faults.\<close>

theorem written_is_read:
  assumes "file_ok v c w" "len \<noteq> 0" "unat off + unat len < 2 ^ 64" "unat len \<le> length src" "unat len \<le> length dst"
  shows "if pages_left w < lacking v off (off + len) w then vfs_vobj_write (Some v) off src len (Some y) w = Inl NullDeref
    else (\<exists>w1 w2. vfs_vobj_write (Some v) off src len (Some y) w = Inr (YAK_SUCCESS, Some (unat len), w1) \<and>
       vfs_vobj_read (Some v) off dst len (Some z) w1 =
         Inr (YAK_SUCCESS, Some (unat len), take (unat len) src @ drop (unat len) dst, w2))"
proof (cases "pages_left w < lacking v off (off + len) w")
  case True
  then show ?thesis using vobj_write_ok [OF assms(1-4), of y] by simp
next
  case False
  let ?d = "take (unat len) src" and ?o = "unat off"
  let ?c = "put_bytes c ?o ?d"
  obtain w1 where w: "vfs_vobj_write (Some v) off src len (Some y) w = Inr (YAK_SUCCESS, Some (unat len), w1)"
      "file_ok v ?c w1" "backed_file v off (off + len) w1"
    using False vobj_write_ok [OF assms(1-4), of y] by auto
  have d: "take (unat len) (drop ?o ?c) = ?d" "length ?d = unat len"
    using put_bytes_nth [of ?d ?o c] assms(4) by simp_all
  have "0 < unat len" using assms(2) by (simp add: unat_gt_0)
  then have in_file: "?o < length ?c" "?o + unat len \<le> length ?c" using d(2) by (simp_all add: put_bytes_def)
  then have "read_end off len ?c = off + len" by (simp add: read_end_def)
  moreover have "lacking v off (off + len) w1 = 0"
    by (rule lacking_backed [OF w(3)]) (use no_wrap [OF assms(3)] in \<open>simp_all add: word_le_nat_alt\<close>)
  ultimately show ?thesis
    using False vobj_read_ok [OF w(2) assms(2,3,5), of z] w(1) d in_file(1) by (auto simp: Let_def)
qed

lemma written_is_read_witness:
  "\<exists>w1 w2. vfs_vobj_write (Some 3) 2 [65, 66] 2 (Some 0) sample_world = Inr (YAK_SUCCESS, Some 2, w1) \<and>
     vfs_vobj_read (Some 3) 2 [0, 0, 0] 2 (Some 7) w1 = Inr (YAK_SUCCESS, Some 2, [65, 66, 0], w2)"
proof -
  have "lacking 3 2 4 sample_world \<le> 1" by (rule lacking_one) simp
  then show ?thesis
    using written_is_read [OF sample_world_file, of 2 2 "[65, 66]" "[0, 0, 0]" 0 7] sample_world_left
    by (auto split: if_splits)
qed

end
