(* ===== verification/Tmpfs.thy ===== *)
theory Tmpfs
  imports FsState
begin

text \<open>
  The in-memory file system: \<^verbatim>\<open>kernel/fs/tmpfs.c\<close>. A directory is the hash table of its children, whose
  values are pointers to nodes: the number of a vnode, null being 0. A name is a C string, a buffer and a
  position in it; the table is given the bytes \<open>strlen\<close> counts.
\<close>

unbundle bit_operations_syntax

section \<open>Attributes\<close>

definition SETATTR_MODE :: u32 where "SETATTR_MODE = 1"
definition SETATTR_UID :: u32 where "SETATTR_UID = 2"
definition SETATTR_GID :: u32 where "SETATTR_GID = 4"
definition SETATTR_ATIME :: u32 where "SETATTR_ATIME = 8"
definition SETATTR_MTIME :: u32 where "SETATTR_MTIME = 16"
definition SETATTR_BTIME :: u32 where "SETATTR_BTIME = 32"

definition SETATTR_ALL :: u32 where
  "SETATTR_ALL = SETATTR_MODE OR SETATTR_UID OR SETATTR_GID OR SETATTR_ATIME OR SETATTR_MTIME"

text \<open>The macro \<open>SETATTR_ALL\<close> has no parentheses: in \<open>what & SETATTR_ALL\<close> the mask applies to its first
  member only.\<close>

definition what_and_all :: "u32 \<Rightarrow> u32" where
  "what_and_all what = (what AND SETATTR_MODE) OR SETATTR_UID OR SETATTR_GID OR SETATTR_ATIME OR SETATTR_MTIME"

definition set_attr :: "nat \<Rightarrow> u32 \<Rightarrow> vattr \<Rightarrow> vattr \<Rightarrow> vattr" where
  "set_attr now what attr a0 =
     (let a1 = (if what AND SETATTR_ATIME \<noteq> 0 then a0\<lparr>va_atime := va_atime attr\<rparr> else a0);
          a2 = (if what AND SETATTR_MTIME \<noteq> 0 then a1\<lparr>va_mtime := va_mtime attr\<rparr> else a1);
          a3 = (if what AND SETATTR_BTIME \<noteq> 0 then a2\<lparr>va_btime := va_btime attr\<rparr> else a2);
          a4 = (if what AND SETATTR_GID \<noteq> 0 then a3\<lparr>va_gid := va_gid attr\<rparr> else a3);
          a5 = (if what AND SETATTR_UID \<noteq> 0 then a4\<lparr>va_uid := va_uid attr\<rparr> else a4);
          a6 = (if what AND SETATTR_MODE \<noteq> 0 then a5\<lparr>va_mode := va_mode attr\<rparr> else a5)
      in if what_and_all what \<noteq> 0 then a6\<lparr>va_ctime := now\<rparr> else a6)"

definition tmpfs_setattr :: "nat option \<Rightarrow> u32 \<Rightarrow> vattr \<Rightarrow> world \<Rightarrow> (status \<times> world) res" where
  "tmpfs_setattr vp what attr w =
     bindR (vnode_at (w_vns w) vp) (\<lambda>(v, vn).
       Inr (YAK_SUCCESS, put_vnode v (vn\<lparr>tn_vattr := set_attr (w_now w) what attr (tn_vattr vn)\<rparr>) w))"

definition tmpfs_getattr :: "nat option \<Rightarrow> world \<Rightarrow> (status \<times> vattr) res" where
  "tmpfs_getattr vp w =
     bindR (vnode_at (w_vns w) vp) (\<lambda>(v, vn).
       Inr (YAK_SUCCESS, (tn_vattr vn)\<lparr>va_block_count := (vn_filesize vn + 511) div 512\<rparr>))"

section \<open>Nodes\<close>

definition zero_vattr :: vattr where
  "zero_vattr = \<lparr>va_mode = 0, va_inode = 0, va_nlinks = 0, va_uid = 0, va_gid = 0, va_atime = 0, va_mtime = 0,
     va_ctime = 0, va_btime = 0, va_block_size = 0, va_block_count = 0\<rparr>"

text \<open>\<open>vnode_init\<close> of a cleared node; \<open>blank\<close> is the cleared table, whose function pointers are null.\<close>

definition vnode_init :: "nat option \<Rightarrow> vn_ops \<Rightarrow> vtype \<Rightarrow> hashtable \<Rightarrow> vnode" where
  "vnode_init vfs ops type blank =
     \<lparr>vn_ops = ops, vn_type = type, vn_refcnt = 1, vn_locked = False, vn_vfs = vfs, vn_mounted_vfs = None,
      vn_node_covered = None, vn_filesize = 0, vn_vobj = None, tn_vattr = zero_vattr, tn_name = None,
      tn_name_len = 0, tn_link_path = None, tn_children = blank\<rparr>"

text \<open>The entry \<open>key\<close> of a directory. \<open>ht_set\<close> is offered two answers of the allocator, for a larger array and
  for its copy of the key.\<close>

definition children_set :: "nat \<Rightarrow> buf \<Rightarrow> nat \<Rightarrow> bool \<Rightarrow> world \<Rightarrow> (status \<times> world) res" where
  "children_set dir key child overwrite w =
     bindR (vnode_at (w_vns w) (Some dir)) (\<lambda>(v, vn).
       case next_alloc w of (m1, w1) \<Rightarrow> case next_alloc w1 of (m2, w2) \<Rightarrow>
         bindR (ht_set m1 m2 (tn_children vn) key (length key) (word_of_nat child) overwrite) (\<lambda>(rv, t).
           Inr (rv, put_vnode v (vn\<lparr>tn_children := t\<rparr>) w2)))"

definition children_get :: "vnode \<Rightarrow> buf \<Rightarrow> nat option res" where
  "children_get vn key =
     bindR (ht_get (tn_children vn) key (length key)) (\<lambda>p. Inr (if p = 0 then None else Some (unat p)))"

definition tmpfs_init_node :: "nat option \<Rightarrow> nat \<Rightarrow> vtype \<Rightarrow> world \<Rightarrow> (status \<times> world) res" where
  "tmpfs_init_node vfs v type w =
     (case vfs of None \<Rightarrow> Inl NullDeref | Some fs \<Rightarrow>
      case w_fss w fs of None \<Rightarrow> Inl NullDeref | Some _ \<Rightarrow>
      let w1 = put_vnode v (vnode_init vfs tmpfs_vn_op type (ht_init ht_hash_str ht_eq_str)) w in
      bindR (if type = VDIR then children_set v [0x2E] v True w1
             else if type = VREG then
               (case next_alloc w1 of (ok, w2) \<Rightarrow>
                  bindR (vm_aobj_create (if ok then Some (w_next w2) else None) (w_objs w2)) (\<lambda>(oid, objs).
                  bindR (vnode_at (w_vns w2) (Some v)) (\<lambda>(_, vn).
                    Inr (YAK_SUCCESS, put_vnode v (vn\<lparr>vn_filesize := 0, vn_vobj := Some oid\<rparr>)
                          (w2\<lparr>w_objs := objs, w_next := w_next w2 + 1\<rparr>)))))
             else Inr (YAK_SUCCESS, w1)) (\<lambda>(rv, w3).
        if IS_ERR rv then Inr (rv, w3)
        else bindR (vnode_at (w_vns w3) (Some v)) (\<lambda>(_, vn).
             case w_fss w3 fs of None \<Rightarrow> Inl NullDeref | Some t \<Rightarrow>
               Inr (YAK_SUCCESS,
                 (put_vnode v (vn\<lparr>tn_name := None, tn_name_len := 0,
                    tn_vattr := (tn_vattr vn)\<lparr>va_inode := seq_ino t, va_block_size := 4096\<rparr>\<rparr>) w3)
                   \<lparr>w_fss := (w_fss w3)(fs \<mapsto> t\<lparr>seq_ino := seq_ino t + 1\<rparr>)\<rparr>))))"

definition alloc_node :: "nat option \<Rightarrow> vtype \<Rightarrow> world \<Rightarrow> (status \<times> nat option \<times> world) res" where
  "alloc_node vfs type w =
     (case next_alloc w of (ok, w1) \<Rightarrow>
        if \<not> ok then Inr (YAK_OOM, None, w1)
        else let v = w_next w1 in
          bindR (tmpfs_init_node vfs v type (w1\<lparr>w_next := v + 1\<rparr>)) (\<lambda>(rv, w2).
            if IS_ERR rv then Inr (rv, None, w2\<lparr>w_vns := (w_vns w2)(v := None)\<rparr>)
            else Inr (YAK_SUCCESS, Some v, w2)))"

definition tmpfs_deinit_node :: "nat \<Rightarrow> world \<Rightarrow> world res" where
  "tmpfs_deinit_node v w =
     bindR (vnode_at (w_vns w) (Some v)) (\<lambda>(_, vn).
       if vn_type vn = VDIR then
         Inr (put_vnode v (vn\<lparr>tn_children := snd (ht_destroy ht_hash_str ht_eq_str (tn_children vn))\<rparr>) w)
       else if vn_type vn = VREG then
         (case vn_vobj vn of None \<Rightarrow> Inl NullDeref | Some oid \<Rightarrow>
            bindR (vm_object_deref oid (w_objs w) (w_phys w)) (\<lambda>(objs, ph).
              Inr (put_vnode v (vn\<lparr>vn_vobj := None\<rparr>) (w\<lparr>w_objs := objs, w_phys := ph\<rparr>))))
       else Inr w)"

definition free_node :: "nat \<Rightarrow> world \<Rightarrow> world res" where
  "free_node v w = bindR (tmpfs_deinit_node v w) (\<lambda>w'. Inr (w'\<lparr>w_vns := (w_vns w')(v := None)\<rparr>))"

section \<open>Creating names\<close>

definition add_nlinks :: "nat \<Rightarrow> u64 \<Rightarrow> world \<Rightarrow> world res" where
  "add_nlinks v k w =
     bindR (vnode_at (w_vns w) (Some v)) (\<lambda>(_, vn).
       Inr (put_vnode v (vn\<lparr>tn_vattr := (tn_vattr vn)\<lparr>va_nlinks := va_nlinks (tn_vattr vn) + k\<rparr>\<rparr>) w))"

definition tmpfs_create :: "nat option \<Rightarrow> vtype \<Rightarrow> buf \<Rightarrow> nat \<Rightarrow> vattr \<Rightarrow> nat option \<Rightarrow> world \<Rightarrow> (status \<times> nat option \<times> world) res" where
  "tmpfs_create parent type b p attr out w =
     bindR (strlen b p) (\<lambda>name_len.
     let name = take name_len (drop p b) in
     bindR (vnode_at (w_vns w) parent) (\<lambda>(pv, pn).
     bindR (children_get pn name) (\<lambda>n.
       if n \<noteq> None then Inr (YAK_EXISTS, out, w)
       else
         bindR (alloc_node (vn_vfs pn) type w) (\<lambda>(rv, node, w1).
           if IS_ERR rv then Inr (rv, out, w1)
           else case node of None \<Rightarrow> Inl NullDeref | Some v \<Rightarrow>
             case kmalloc name_len w1 of (got, w2) \<Rightarrow>
             bindR (strndup (\<lambda>_. got) b p name_len) (\<lambda>copy.
             bindR (vnode_at (w_vns w2) (Some v)) (\<lambda>(_, vn).
             let w3 = put_vnode v (vn\<lparr>tn_name_len := name_len, tn_name := copy,
                        tn_vattr := (tn_vattr vn)\<lparr>va_nlinks := (if type = VDIR then 2 else 1)\<rparr>\<rparr>) w2 in
             bindR (tmpfs_setattr (Some v) (SETATTR_ALL OR SETATTR_BTIME) attr w3) (\<lambda>(_, w4).
             bindR (if type = VDIR then
                      bindR (children_set v [0x2E, 0x2E] pv True w4) (\<lambda>(rv2, w5).
                        if IS_ERR rv2 then bindR (free_node v w5) (\<lambda>w6. Inr (rv2, w6))
                        else bindR (add_nlinks pv 1 w5) (\<lambda>w6. Inr (YAK_SUCCESS, w6)))
                    else Inr (YAK_SUCCESS, w4)) (\<lambda>(rv3, w7).
               if IS_ERR rv3 then Inr (rv3, out, w7)
               else
                 bindR (children_set pv name v False w7) (\<lambda>(rv4, w8).
                   if IS_ERR rv4 then
                     bindR (free_node v w8) (\<lambda>w9. bindR (add_nlinks pv (- 1) w9) (\<lambda>w10. Inr (rv4, out, w10)))
                   else Inr (YAK_SUCCESS, Some v, w8))))))))))"

definition tmpfs_symlink :: "nat option \<Rightarrow> buf \<Rightarrow> nat \<Rightarrow> buf \<Rightarrow> nat \<Rightarrow> vattr \<Rightarrow> nat option \<Rightarrow> world \<Rightarrow> (status \<times> nat option \<times> world) res" where
  "tmpfs_symlink parent nb np pb pp attr out w =
     bindR (strlen pb pp) (\<lambda>l.
     case kmalloc (l + 1) w of (got, w1) \<Rightarrow>
     bindR (strdup (\<lambda>_. got) pb pp) (\<lambda>path_copy.
     bindR (tmpfs_create parent VLNK nb np attr None w1) (\<lambda>(rv, linkvn, w2).
       if IS_ERR rv then Inr (rv, out, w2)
       else bindR (vnode_at (w_vns w2) linkvn) (\<lambda>(v, vn).
              Inr (YAK_SUCCESS, linkvn, put_vnode v (vn\<lparr>tn_link_path := path_copy\<rparr>) w2)))))"

definition tmpfs_link :: "nat option \<Rightarrow> nat option \<Rightarrow> buf \<Rightarrow> nat \<Rightarrow> world \<Rightarrow> (status \<times> world) res" where
  "tmpfs_link node dir b p w =
     bindR (vnode_at (w_vns w) node) (\<lambda>(nv, nn).
     bindR (vnode_at (w_vns w) dir) (\<lambda>(dv, dn).
       if vn_vfs nn \<noteq> vn_vfs dn then Inr (YAK_CROSS_DEVICE, w)
       else if vn_type dn \<noteq> VDIR then Inr (YAK_NODIR, w)
       else if vn_type nn = VDIR then Inr (YAK_ISDIR, w)
       else
         bindR (strlen b p) (\<lambda>namelen.
         let name = take namelen (drop p b) in
         bindR (children_get dn name) (\<lambda>old.
           if old \<noteq> None then Inr (YAK_EXISTS, w)
           else
             bindR (children_set dv name nv True w) (\<lambda>(rv, w1).
               if IS_ERR rv then Inr (rv, w1)
               else bindR (vn_ref node w1) (\<lambda>w2. bindR (add_nlinks nv 1 w2) (\<lambda>w3. Inr (YAK_SUCCESS, w3))))))))"

section \<open>Reading directories and links\<close>

definition tmpfs_lookup :: "nat option \<Rightarrow> buf \<Rightarrow> nat \<Rightarrow> nat option \<Rightarrow> world \<Rightarrow> (status \<times> nat option) res" where
  "tmpfs_lookup vp b p out w =
     bindR (vnode_at (w_vns w) vp) (\<lambda>(v, vn).
       if vn_type vn \<noteq> VDIR then Inr (YAK_NODIR, out)
       else
         bindR (strlen b p) (\<lambda>n.
         bindR (children_get vn (take n (drop p b))) (\<lambda>entry.
           case entry of None \<Rightarrow> Inr (YAK_NOENT, out) | Some c \<Rightarrow> Inr (YAK_SUCCESS, Some c))))"

text \<open>\<open>path = None\<close> stands for a null result pointer; the result is the copy.\<close>

definition tmpfs_readlink :: "nat option \<Rightarrow> bool \<Rightarrow> world \<Rightarrow> (status \<times> buf option \<times> world) res" where
  "tmpfs_readlink vp has_path w =
     bindR (vnode_at (w_vns w) vp) (\<lambda>(v, vn).
       if vn_type vn \<noteq> VLNK \<or> \<not> has_path then Inr (YAK_INVALID_ARGS, None, w)
       else case tn_link_path vn of None \<Rightarrow> Inl NullDeref | Some lp \<Rightarrow>
         bindR (strlen lp 0) (\<lambda>l.
         case kmalloc (l + 1) w of
           (None, w1) \<Rightarrow> Inr (YAK_OOM, None, w1)
         | (Some got, w1) \<Rightarrow> bindR (strcpy (Some got) 0 lp 0) (\<lambda>copy. Inr (YAK_SUCCESS, copy, w1))))"

record dirent =
  d_ino :: u64
  d_reclen :: nat
  d_type :: nat
  d_name :: buf

fun vtype_to_dtype :: "vtype \<Rightarrow> nat" where
  "vtype_to_dtype VREG = 8"
| "vtype_to_dtype VBLK = 6"
| "vtype_to_dtype VDIR = 4"
| "vtype_to_dtype VCHR = 2"
| "vtype_to_dtype VFIFO = 1"
| "vtype_to_dtype VLNK = 10"
| "vtype_to_dtype VSOCK = 12"

text \<open>\<open>d_name\<close> starts at byte 19 of an entry; entries are padded to eight bytes.\<close>

definition dirent_len :: "nat \<Rightarrow> nat" where
  "dirent_len namelen = (19 + namelen + 1 + 7) div 8 * 8"

text \<open>The loop over the slots of the table: \<open>skip\<close> is what \<open>offset\<close> holds; the entries read, their bytes and
  the index reached.\<close>

fun dirents_from :: "world \<Rightarrow> nat \<Rightarrow> nat \<Rightarrow> ht_entry list \<Rightarrow> nat \<Rightarrow> nat \<Rightarrow> (dirent list \<times> nat \<times> nat) res" where
  "dirents_from w bufsize skip [] idx bytes = Inr ([], bytes, idx)"
| "dirents_from w bufsize skip (e # es) idx bytes =
     (case he_key e of
        None \<Rightarrow> dirents_from w bufsize skip es idx bytes
      | Some name \<Rightarrow>
          if skip > idx then dirents_from w bufsize skip es (idx + 1) bytes
          else
            let reclen = dirent_len (he_key_len e) in
            if bytes + reclen > bufsize then Inr ([], bytes, idx)
            else
              bindR (vnode_at (w_vns w) (if he_value e = 0 then None else Some (unat (he_value e)))) (\<lambda>(_, child).
              bindR (dirents_from w bufsize skip es (idx + 1) (bytes + reclen)) (\<lambda>(ds, t, c).
                Inr (\<lparr>d_ino = va_inode (tn_vattr child), d_reclen = reclen mod 65536,
                       d_type = vtype_to_dtype (vn_type child), d_name = take (he_key_len e) name\<rparr> # ds, t, c))))"

definition tmpfs_getdirents :: "nat option \<Rightarrow> nat \<Rightarrow> nat \<Rightarrow> world \<Rightarrow> (status \<times> dirent list \<times> nat \<times> nat) res" where
  "tmpfs_getdirents vp bufsize offset w =
     bindR (vnode_at (w_vns w) vp) (\<lambda>(v, vn).
       if vn_type vn \<noteq> VDIR then Inr (YAK_NODIR, [], offset, 0)
       else
         bindR (dirents_from w bufsize offset (take (ht_capacity (tn_children vn)) (ht_entries (tn_children vn))) 0 0) (\<lambda>(ds, bytes, idx).
           Inr (YAK_SUCCESS, ds, idx, bytes)))"

section \<open>The rest\<close>

text \<open>\<open>off_t\<close> is signed; the sum is compared as \<open>size_t\<close>.\<close>

definition tmpfs_fallocate :: "nat option \<Rightarrow> int \<Rightarrow> u64 \<Rightarrow> u64 \<Rightarrow> world \<Rightarrow> (status \<times> world) res" where
  "tmpfs_fallocate vp mode offset len w =
     (if mode \<noteq> 0 then Inr (YAK_NOT_SUPPORTED, w)
      else bindR (vnode_at (w_vns w) vp) (\<lambda>(v, vn).
        Inr (YAK_SUCCESS, if offset + len > vn_filesize vn then put_vnode v (vn\<lparr>vn_filesize := offset + len\<rparr>) w else w)))"

definition POLLIN :: "16 word" where "POLLIN = 1"
definition POLLOUT :: "16 word" where "POLLOUT = 4"

definition tmpfs_poll :: "16 word \<Rightarrow> 16 word \<Rightarrow> 16 word" where
  "tmpfs_poll events revents =
     (let r1 = (if events AND POLLOUT \<noteq> 0 then revents OR POLLOUT else revents)
      in if events AND POLLIN \<noteq> 0 then r1 OR POLLIN else r1)"

definition tmpfs_getroot :: "nat option \<Rightarrow> world \<Rightarrow> nat option res" where
  "tmpfs_getroot vfs w =
     (case vfs of None \<Rightarrow> Inl NullDeref | Some fs \<Rightarrow>
      case w_fss w fs of None \<Rightarrow> Inl NullDeref | Some t \<Rightarrow> Inr (fs_root t))"

text \<open>The root of a new instance covers the vnode it is mounted on. \<open>kzalloc\<close> is not checked.\<close>

definition tmpfs_mount :: "nat option \<Rightarrow> world \<Rightarrow> (status \<times> world) res" where
  "tmpfs_mount vp w =
     (case next_alloc w of (ok, w1) \<Rightarrow>
      if \<not> ok then Inl NullDeref
      else
        let fs = w_next w1;
            w2 = w1\<lparr>w_next := fs + 1, w_fss := (w_fss w1)(fs \<mapsto> \<lparr>fs_root = None, seq_ino = 1\<rparr>)\<rparr> in
        bindR (alloc_node (Some fs) VDIR w2) (\<lambda>(rv, root, w3).
          case w_fss w3 fs of None \<Rightarrow> Inl NullDeref | Some t \<Rightarrow>
          let w4 = w3\<lparr>w_fss := (w_fss w3)(fs \<mapsto> t\<lparr>fs_root := root\<rparr>)\<rparr> in
          if IS_ERR rv then Inr (rv, w4)
          else
            bindR (vn_ref vp w4) (\<lambda>w5.
            bindR (vnode_at (w_vns w5) vp) (\<lambda>(v, vn).
            let w6 = put_vnode v (vn\<lparr>vn_mounted_vfs := Some fs\<rparr>) w5 in
            bindR (vnode_at (w_vns w6) root) (\<lambda>(r, rn).
              Inr (YAK_SUCCESS, put_vnode r (rn\<lparr>vn_node_covered := vp\<rparr>) w6))))))"

end
