(* ===== verification/Vfs.thy ===== *)
theory Vfs
  imports Tmpfs
begin

text \<open>
  Names and paths: \<^verbatim>\<open>kernel/fs/vfs.c\<close>. Mounted file systems and symbolic links are followed by
  recursion, which nothing in the code bounds: \<open>fuel\<close> counts the levels, and running out is \<open>Diverges\<close>.
  Result variables of the caller are passed with the value they hold and returned. A path is a C string in
  a buffer; the copy the lookup works on is cut into components in place.
\<close>

unbundle bit_operations_syntax

section \<open>Operations of a vnode\<close>

definition VOP_LOOKUP :: "nat option \<Rightarrow> buf \<Rightarrow> nat \<Rightarrow> nat option \<Rightarrow> world \<Rightarrow> (status \<times> nat option) res" where
  "VOP_LOOKUP vp b p out w =
     bindR (vnode_at (w_vns w) vp) (\<lambda>(_, vn).
       case vn_ops vn of root_ops \<Rightarrow> Inl NullDeref | tmpfs_vn_op \<Rightarrow> tmpfs_lookup vp b p out w)"

definition VOP_CREATE :: "nat option \<Rightarrow> vtype \<Rightarrow> buf \<Rightarrow> nat \<Rightarrow> vattr \<Rightarrow> nat option \<Rightarrow> world \<Rightarrow> (status \<times> nat option \<times> world) res" where
  "VOP_CREATE vp type b p attr out w =
     bindR (vnode_at (w_vns w) vp) (\<lambda>(_, vn).
       case vn_ops vn of root_ops \<Rightarrow> Inl NullDeref | tmpfs_vn_op \<Rightarrow> tmpfs_create vp type b p attr out w)"

definition VOP_SYMLINK :: "nat option \<Rightarrow> buf \<Rightarrow> nat \<Rightarrow> buf \<Rightarrow> nat \<Rightarrow> vattr \<Rightarrow> nat option \<Rightarrow> world \<Rightarrow> (status \<times> nat option \<times> world) res" where
  "VOP_SYMLINK vp nb np db dp attr out w =
     bindR (vnode_at (w_vns w) vp) (\<lambda>(_, vn).
       case vn_ops vn of root_ops \<Rightarrow> Inl NullDeref | tmpfs_vn_op \<Rightarrow> tmpfs_symlink vp nb np db dp attr out w)"

definition VOP_LINK :: "nat option \<Rightarrow> nat option \<Rightarrow> buf \<Rightarrow> nat \<Rightarrow> world \<Rightarrow> (status \<times> world) res" where
  "VOP_LINK vp dir b p w =
     bindR (vnode_at (w_vns w) vp) (\<lambda>(_, vn).
       case vn_ops vn of root_ops \<Rightarrow> Inl NullDeref | tmpfs_vn_op \<Rightarrow> tmpfs_link vp dir b p w)"

definition VOP_READLINK :: "nat option \<Rightarrow> world \<Rightarrow> (status \<times> buf option \<times> world) res" where
  "VOP_READLINK vp w =
     bindR (vnode_at (w_vns w) vp) (\<lambda>(_, vn).
       case vn_ops vn of root_ops \<Rightarrow> Inl NullDeref | tmpfs_vn_op \<Rightarrow> tmpfs_readlink vp True w)"

text \<open>\<open>tmpfs\<close> inherits \<open>vfs_generic_open\<close>, which only succeeds.\<close>

definition VOP_OPEN :: "nat option \<Rightarrow> world \<Rightarrow> status res" where
  "VOP_OPEN vp w =
     bindR (vnode_at (w_vns w) vp) (\<lambda>(_, vn).
       case vn_ops vn of root_ops \<Rightarrow> Inl NullDeref | tmpfs_vn_op \<Rightarrow> Inr YAK_SUCCESS)"

section \<open>Mounted file systems\<close>

fun resolve :: "nat \<Rightarrow> nat option \<Rightarrow> world \<Rightarrow> nat res" where
  "resolve 0 vp w = Inl Diverges"
| "resolve (Suc fuel) vp w =
     ensure (vp \<noteq> None) AssertFail
       (bindR (vnode_at (w_vns w) vp) (\<lambda>(v, vn).
          if vn_mounted_vfs vn \<noteq> None then bindR (tmpfs_getroot (vn_mounted_vfs vn) w) (\<lambda>r. resolve fuel r w)
          else Inr v))"

fun resolve_upward :: "nat \<Rightarrow> nat \<Rightarrow> world \<Rightarrow> nat res" where
  "resolve_upward 0 v w = Inl Diverges"
| "resolve_upward (Suc fuel) v w =
     bindR (vnode_at (w_vns w) (Some v)) (\<lambda>(_, vn).
       case vn_node_covered vn of None \<Rightarrow> Inr v | Some u \<Rightarrow> resolve_upward fuel u w)"

definition vfs_getroot :: "nat \<Rightarrow> world \<Rightarrow> (nat \<times> world) res" where
  "vfs_getroot fuel w =
     bindR (resolve fuel (Some (w_root w)) w) (\<lambda>v. bindR (vn_ref (Some v) w) (\<lambda>w'. Inr (v, w')))"

definition process_getcwd :: "world \<Rightarrow> (nat \<times> world) res" where
  "process_getcwd w =
     (case w_cwd w of None \<Rightarrow> Inl AssertFail | Some v \<Rightarrow> bindR (vn_ref (Some v) w) (\<lambda>w'. Inr (v, w')))"

section \<open>Cutting a path into components\<close>

definition SLASH :: u8 where "SLASH = 0x2F"
definition DOT :: u8 where "DOT = 0x2E"

function skip_slashes :: "buf \<Rightarrow> nat \<Rightarrow> nat res" where
  "skip_slashes b src = bindR (ld b src) (\<lambda>c. if c = SLASH then skip_slashes b (src + 1) else Inr src)"
  by auto

termination
  by (relation "measure (\<lambda>(b, src). length b - src)") (auto simp: ld_def split: if_splits)

declare skip_slashes.simps [simp del]

lemma skip_slashes_bounds:
  "skip_slashes b src = Inr k \<Longrightarrow> src \<le> k \<and> k < length b \<and> b ! k \<noteq> SLASH \<and> (\<forall>i. src \<le> i \<longrightarrow> i < k \<longrightarrow> b ! i = SLASH)"
proof (induction b src rule: skip_slashes.induct)
  case (1 b src)
  have l: "src < length b" using 1(2) by (subst (asm) skip_slashes.simps) (auto simp: ld_def split: if_splits)
  show ?case
  proof (cases "b ! src = SLASH")
    case True
    then have "skip_slashes b (src + 1) = Inr k" using 1(2) l by (subst (asm) skip_slashes.simps) simp
    then have "src + 1 \<le> k \<and> k < length b \<and> b ! k \<noteq> SLASH \<and> (\<forall>i. src + 1 \<le> i \<longrightarrow> i < k \<longrightarrow> b ! i = SLASH)"
      using 1(1) [of "b ! src"] True l by simp
    moreover from this have "b ! i = SLASH" if "src \<le> i" "i < k" for i using that True by (cases "i = src") auto
    ultimately show ?thesis by simp
  next
    case False
    then have "k = src" using 1(2) l by (subst (asm) skip_slashes.simps) simp
    then show ?thesis using False l by simp
  qed
qed

lemma skip_moves: "skip_slashes b src = Inr k \<Longrightarrow> b ! src = SLASH \<Longrightarrow> src < k \<and> k < length b"
  using skip_slashes_bounds [of b src k] by (cases "k = src") auto

function split_from :: "buf \<Rightarrow> nat \<Rightarrow> nat \<Rightarrow> bool \<Rightarrow> nat \<Rightarrow> (nat \<times> buf) res" where
  "split_from b dst src in_comp count =
     bindR (ld b src) (\<lambda>c.
       if c = 0 then bindR (st b dst 0) (\<lambda>b'. Inr (count, b'))
       else if c = SLASH then
         bindR (skip_slashes b src) (\<lambda>src'.
           if in_comp then bindR (st b dst 0) (\<lambda>b'. split_from b' (dst + 1) src' False count)
           else split_from b dst src' False count)
       else
         bindR (st b dst c) (\<lambda>b'.
           split_from b' (dst + 1) (src + 1) True (if in_comp then count else count + 1)))"
  by auto

termination
proof (relation "measure (\<lambda>(b, dst, src, _). length b - src)", goal_cases)
  case (2 b dst src in_comp count c k b')
  then have "c = b ! src" "length b' = length b" by (auto simp: ld_def st_def split: if_splits)
  then show ?case using skip_moves [of b src k] 2 by (simp add: diff_less_mono2)
next
  case (3 b dst src in_comp count c k)
  then have "c = b ! src" by (auto simp: ld_def split: if_splits)
  then show ?case using skip_moves [of b src k] 3 by (simp add: diff_less_mono2)
next
  case (4 b dst src in_comp count c b')
  then show ?case by (auto simp: ld_def st_def split: if_splits)
qed simp

declare split_from.simps [simp del]

definition split_path :: "buf \<Rightarrow> (nat \<times> buf) res" where
  "split_path path = split_from path 0 0 False 0"

section \<open>Walking a path\<close>

text \<open>What one component leads to: the end of the lookup, or the next vnode, locked and referenced.\<close>

datatype walk = Stop status "nat option" "buf option" world | Go nat world

type_synonym lookup = "buf option \<Rightarrow> nat option \<Rightarrow> u32 \<Rightarrow> bool \<Rightarrow> nat option \<Rightarrow> world \<Rightarrow>
  (status \<times> nat option \<times> buf option \<times> world) res"

definition VFS_LOOKUP_PARENT :: u32 where "VFS_LOOKUP_PARENT = 1"
definition VFS_LOOKUP_NOFOLLOW :: u32 where "VFS_LOOKUP_NOFOLLOW = 2"

text \<open>\<open>*last_comp = strndup (comp, strlen (comp) + 1)\<close>, when asked for.\<close>

definition last_name :: "bool \<Rightarrow> buf \<Rightarrow> nat \<Rightarrow> world \<Rightarrow> (buf option \<times> world) res" where
  "last_name want b p w =
     (if \<not> want then Inr (None, w)
      else bindR (strlen b p) (\<lambda>n.
           case kmalloc (n + 1) w of (got, w') \<Rightarrow>
             bindR (strndup (\<lambda>_. got) b p (n + 1)) (\<lambda>copy. Inr (copy, w'))))"

text \<open>For \<open>..\<close> in the root of a mounted file system: on to the vnode it covers.\<close>

definition leave_mount :: "nat \<Rightarrow> nat \<Rightarrow> world \<Rightarrow> (nat \<times> world) res" where
  "leave_mount fuel current w =
     bindR (vnode_at (w_vns w) (Some current)) (\<lambda>(_, cn).
       if vn_node_covered cn = None then Inr (current, w)
       else bindR (resolve_upward fuel current w) (\<lambda>vn.
         if vn = current then Inr (current, w)
         else bindR (vn_put (Some current) w) (\<lambda>w1.
              bindR (vn_ref (Some vn) w1) (\<lambda>w2.
              bindR (VOP_LOCK (Some vn) w2) (\<lambda>w3. Inr (vn, w3))))))"

definition take_next :: "nat \<Rightarrow> nat \<Rightarrow> world \<Rightarrow> world res" where
  "take_next current next w =
     (if current = next then Inr w
      else bindR (vn_ref (Some next) w) (\<lambda>w1.
           bindR (VOP_LOCK (Some next) w1) (\<lambda>w2. VOP_UNLOCK (Some current) w2)))"

definition enter_mount :: "nat \<Rightarrow> nat \<Rightarrow> world \<Rightarrow> (nat \<times> world) res" where
  "enter_mount fuel next w =
     bindR (resolve fuel (Some next) w) (\<lambda>resolved.
       if next = resolved then Inr (next, w)
       else bindR (vn_ref (Some resolved) w) (\<lambda>w1.
            bindR (vn_put (Some next) w1) (\<lambda>w2.
            bindR (VOP_LOCK (Some resolved) w2) (\<lambda>w3. Inr (resolved, w3)))))"

definition follow_link :: "nat \<Rightarrow> lookup \<Rightarrow> nat \<Rightarrow> nat \<Rightarrow> world \<Rightarrow> (status \<times> nat option \<times> world) res" where
  "follow_link fuel lookup current next w =
     bindR (VOP_READLINK (Some next) w) (\<lambda>(rv, dest, w1).
     bindR (VOP_UNLOCK (Some next) w1) (\<lambda>w2.
       if IS_ERR rv then bindR (vn_deref (Some next) w2) (\<lambda>w3. Inr (rv, None, w3))
       else case dest of None \<Rightarrow> Inl NullDeref | Some d \<Rightarrow>
         bindR (ld d 0) (\<lambda>c.
         bindR (if c = SLASH then resolve fuel (Some (w_root w2)) w2 else Inr current) (\<lambda>cwd.
         bindR (vn_ref (Some cwd) w2) (\<lambda>w3.
         bindR (lookup (Some d) (Some cwd) 0 False None w3) (\<lambda>(rv2, destvn, _, w4).
         bindR (vn_deref (Some next) w4) (\<lambda>w5. Inr (rv2, destvn, w5))))))))"

definition finish_comp :: "bool \<Rightarrow> bool \<Rightarrow> bool \<Rightarrow> buf \<Rightarrow> nat \<Rightarrow> nat \<Rightarrow> world \<Rightarrow> walk res" where
  "finish_comp want_dir want_last is_last b p next w =
     (if \<not> is_last then Inr (Go next w)
      else bindR (vnode_at (w_vns w) (Some next)) (\<lambda>(_, nn).
        if want_dir \<and> vn_type nn \<noteq> VDIR then bindR (vn_put (Some next) w) (\<lambda>w'. Inr (Stop YAK_NODIR None None w'))
        else bindR (last_name want_last b p w) (\<lambda>(last, w'). Inr (Stop YAK_SUCCESS (Some next) last w'))))"

definition lookup_child :: "nat \<Rightarrow> lookup \<Rightarrow> u32 \<Rightarrow> bool \<Rightarrow> bool \<Rightarrow> bool \<Rightarrow> buf \<Rightarrow> nat \<Rightarrow> nat \<Rightarrow> world \<Rightarrow> walk res" where
  "lookup_child fuel lookup flags want_dir want_last is_last b p current w =
     bindR (VOP_LOOKUP (Some current) b p None w) (\<lambda>(res, found).
       if IS_ERR res then bindR (vn_put (Some current) w) (\<lambda>w'. Inr (Stop res None None w'))
       else case found of None \<Rightarrow> Inl NullDeref | Some child \<Rightarrow>
         bindR (take_next current child w) (\<lambda>w1.
         bindR (enter_mount fuel child w1) (\<lambda>(next, w2).
         bindR (vnode_at (w_vns w2) (Some next)) (\<lambda>(_, nn).
         bindR (if vn_type nn = VLNK \<and> \<not> (is_last \<and> flags AND VFS_LOOKUP_NOFOLLOW \<noteq> 0)
                then follow_link fuel lookup current next w2
                else Inr (YAK_SUCCESS, Some next, w2)) (\<lambda>(rv, dest, w3).
           if IS_ERR rv then Inr (Stop rv None None w3)
           else case dest of None \<Rightarrow> Inl NullDeref | Some next' \<Rightarrow>
             bindR (if current \<noteq> next' then vn_deref (Some current) w3 else Inr w3) (\<lambda>w4.
               finish_comp want_dir want_last is_last b p next' w4))))))"

definition lookup_comp :: "nat \<Rightarrow> lookup \<Rightarrow> u32 \<Rightarrow> bool \<Rightarrow> bool \<Rightarrow> bool \<Rightarrow> buf \<Rightarrow> nat \<Rightarrow> nat \<Rightarrow> world \<Rightarrow> walk res" where
  "lookup_comp fuel lookup flags want_dir want_last is_last b p current w =
     bindR (vnode_at (w_vns w) (Some current)) (\<lambda>(_, cn).
       if vn_type cn \<noteq> VDIR then bindR (vn_put (Some current) w) (\<lambda>w'. Inr (Stop YAK_NODIR None None w'))
       else if is_last \<and> flags AND VFS_LOOKUP_PARENT \<noteq> 0 then
         bindR (last_name want_last b p w) (\<lambda>(last, w'). Inr (Stop YAK_SUCCESS (Some current) last w'))
       else
         bindR (strcmp b p [DOT, DOT, 0] 0) (\<lambda>cmp.
           if cmp = 0 then
             bindR (resolve fuel (Some (w_root w)) w) (\<lambda>root.
               if root = current then finish_comp want_dir want_last is_last b p current w
               else bindR (leave_mount fuel current w) (\<lambda>(current', w').
                      lookup_child fuel lookup flags want_dir want_last is_last b p current' w'))
           else lookup_child fuel lookup flags want_dir want_last is_last b p current w))"

fun lookup_comps :: "nat \<Rightarrow> lookup \<Rightarrow> u32 \<Rightarrow> bool \<Rightarrow> bool \<Rightarrow> buf \<Rightarrow> nat \<Rightarrow> nat \<Rightarrow> nat \<Rightarrow> world \<Rightarrow>
    (status \<times> nat option \<times> buf option \<times> world) res" where
  "lookup_comps fuel lookup flags want_dir want_last b 0 p current w =
     bindR (vn_put (Some current) w) (\<lambda>w'. Inr (YAK_NOENT, None, None, w'))"
| "lookup_comps fuel lookup flags want_dir want_last b (Suc n) p current w =
     bindR (lookup_comp fuel lookup flags want_dir want_last (n = 0) b p current w) (\<lambda>r.
       case r of
         Stop res found lname w1 \<Rightarrow> Inr (res, found, lname, w1)
       | Go next w' \<Rightarrow>
           bindR (strlen b p) (\<lambda>l. lookup_comps fuel lookup flags want_dir want_last b n (p + l + 1) next w'))"

text \<open>Where the walk starts; \<open>cwd\<close> is passed with a reference.\<close>

definition lookup_start :: "nat \<Rightarrow> bool \<Rightarrow> nat option \<Rightarrow> world \<Rightarrow> (nat \<times> world) res" where
  "lookup_start fuel absolute cwd w =
     (if absolute then
        bindR (vfs_getroot fuel w) (\<lambda>(v, w1).
          if cwd = None then Inr (v, w1) else bindR (vn_deref cwd w1) (\<lambda>w2. Inr (v, w2)))
      else case cwd of None \<Rightarrow> process_getcwd w | Some v \<Rightarrow> Inr (v, w))"

text \<open>The last name is returned when \<open>want_last\<close>; on an early error the caller's variable keeps its value.\<close>

fun vfs_lookup_path :: "nat \<Rightarrow> lookup" where
  "vfs_lookup_path 0 path cwd flags want_last out w = Inl Diverges"
| "vfs_lookup_path (Suc fuel) path cwd flags want_last out w =
     (case path of None \<Rightarrow> Inr (YAK_INVALID_ARGS, out, None, w) | Some b \<Rightarrow>
      bindR (ld b 0) (\<lambda>c0.
        if c0 = 0 then Inr (YAK_INVALID_ARGS, out, None, w)
        else
          bindR (strlen b 0) (\<lambda>pathlen.
          bindR (ld b (pathlen - 1)) (\<lambda>c1.
          bindR (lookup_start fuel (c0 = SLASH) cwd w) (\<lambda>(current, w1).
          case kmalloc (pathlen + 1) w1 of (None, w2) \<Rightarrow> Inl NullDeref | (Some got, w2) \<Rightarrow>
          bindR (memcpy got 0 b 0 (pathlen + 1)) (\<lambda>copy.
          bindR (split_path copy) (\<lambda>(n_comps, comps).
          bindR (VOP_LOCK (Some current) w2) (\<lambda>w3.
          bindR (vnode_at (w_vns w3) (Some current)) (\<lambda>(_, cn).
            if pathlen = 1 \<and> c0 = SLASH then
              bindR (last_name want_last [SLASH, 0] 0 w3) (\<lambda>(last, w4).
                ensure (vn_type cn = VDIR) AssertFail (Inr (YAK_SUCCESS, Some current, last, w4)))
            else if pathlen = 1 \<and> c0 = DOT then
              (if vn_type cn \<noteq> VDIR then bindR (vn_put (Some current) w3) (\<lambda>w4. Inr (YAK_NODIR, None, None, w4))
               else bindR (last_name want_last [DOT, 0] 0 w3) (\<lambda>(last, w4). Inr (YAK_SUCCESS, Some current, last, w4)))
            else
              lookup_comps fuel (vfs_lookup_path fuel) flags (c1 = SLASH) want_last comps n_comps 0 current w3)))))))))"

section \<open>What callers use\<close>

definition vfs_open :: "nat \<Rightarrow> buf option \<Rightarrow> nat option \<Rightarrow> u32 \<Rightarrow> nat option \<Rightarrow> world \<Rightarrow> (status \<times> nat option \<times> world) res" where
  "vfs_open fuel path cwd flags out w =
     bindR (vfs_lookup_path fuel path cwd flags False None w) (\<lambda>(rv, vn, _, w1).
       if IS_ERR rv then Inr (rv, out, w1)
       else bindR (VOP_OPEN vn w1) (\<lambda>res.
         if IS_ERR res then bindR (vn_put vn w1) (\<lambda>w2. Inr (res, out, w2))
         else bindR (VOP_UNLOCK vn w1) (\<lambda>w2. Inr (YAK_SUCCESS, vn, w2))))"

text \<open>\<open>parent\<close> of \<open>vfs_create\<close> is not initialised; it is read on success only.\<close>

definition vfs_create :: "nat \<Rightarrow> buf option \<Rightarrow> vtype \<Rightarrow> vattr \<Rightarrow> nat option \<Rightarrow> world \<Rightarrow> (status \<times> nat option \<times> world) res" where
  "vfs_create fuel path type attr out w =
     bindR (vfs_lookup_path fuel path None VFS_LOOKUP_PARENT True None w) (\<lambda>(rv, parent, last, w1).
       if IS_ERR rv then ensure (last = None) AssertFail (Inr (rv, out, w1))
       else case last of None \<Rightarrow> Inl NullDeref | Some name \<Rightarrow>
         bindR (strlen name 0) (\<lambda>_.
         ensure (parent \<noteq> None) AssertFail
           (bindR (VOP_CREATE parent type name 0 attr None w1) (\<lambda>(res, vn, w2).
            bindR (vn_put parent w2) (\<lambda>w3. Inr (res, if IS_OK res then vn else out, w3))))))"

definition vfs_link :: "nat \<Rightarrow> nat option \<Rightarrow> buf option \<Rightarrow> nat option \<Rightarrow> world \<Rightarrow> (status \<times> world) res" where
  "vfs_link fuel old_vn path cwd w =
     bindR (vfs_lookup_path fuel path cwd VFS_LOOKUP_PARENT True None w) (\<lambda>(rv, parent, last, w1).
       if IS_ERR rv then Inr (rv, w1)
       else case last of None \<Rightarrow> Inl NullDeref | Some name \<Rightarrow>
         bindR (strlen name 0) (\<lambda>_.
         bindR (VOP_LINK old_vn parent name 0 w1) (\<lambda>(res, w2).
         bindR (vn_put parent w2) (\<lambda>w3. Inr (res, w3)))))"

definition vfs_symlink :: "nat \<Rightarrow> buf option \<Rightarrow> buf \<Rightarrow> vattr \<Rightarrow> nat option \<Rightarrow> bool \<Rightarrow> nat option \<Rightarrow> world \<Rightarrow>
    (status \<times> nat option \<times> world) res" where
  "vfs_symlink fuel path dest attr cwd has_out out w =
     bindR (vfs_lookup_path fuel path cwd VFS_LOOKUP_PARENT True None w) (\<lambda>(rv, parent, last, w1).
       if IS_ERR rv then Inr (rv, out, w1)
       else case last of None \<Rightarrow> Inl NullDeref | Some name \<Rightarrow>
         bindR (strlen name 0) (\<lambda>_.
         ensure (parent \<noteq> None) AssertFail
           (bindR (VOP_SYMLINK parent name 0 dest 0 attr None w1) (\<lambda>(res, vn, w2).
            bindR (vn_put parent w2) (\<lambda>w3.
              if \<not> IS_OK res then Inr (res, out, w3)
              else if has_out then Inr (res, vn, w3)
              else bindR (vn_deref vn w3) (\<lambda>w4. Inr (res, out, w4)))))))"

section \<open>File systems by name\<close>

definition MAX_FS_NAME :: nat where "MAX_FS_NAME = 16"

text \<open>The operations of \<open>tmpfs\<close>, as a pointer.\<close>

definition tmpfs_op :: u64 where "tmpfs_op = 1"

definition vfs_register :: "buf \<Rightarrow> u64 \<Rightarrow> world \<Rightarrow> (status \<times> world) res" where
  "vfs_register name ops w =
     bindR (strlen name 0) (\<lambda>namelen.
     ensure (namelen < MAX_FS_NAME) AssertFail
       (case next_alloc w of (m1, w1) \<Rightarrow> case next_alloc w1 of (m2, w2) \<Rightarrow>
          bindR (ht_set m1 m2 (w_filesystems w) (take namelen name) namelen ops False) (\<lambda>(rv, t).
            Inr (rv, w2\<lparr>w_filesystems := t\<rparr>))))"

definition lookup_fs :: "buf \<Rightarrow> world \<Rightarrow> u64 res" where
  "lookup_fs name w = bindR (strlen name 0) (\<lambda>n. ht_get (w_filesystems w) (take n name) n)"

text \<open>\<open>vn\<close> is what the uninitialised variable of \<open>vfs_mount\<close> holds; \<open>mount\<close> is the \<open>vfs_mount\<close> member of
  other file systems.\<close>

definition vfs_mount :: "nat \<Rightarrow> (u64 \<Rightarrow> nat option \<Rightarrow> world \<Rightarrow> (status \<times> world) res) \<Rightarrow> nat option \<Rightarrow>
    buf option \<Rightarrow> buf \<Rightarrow> world \<Rightarrow> (status \<times> world) res" where
  "vfs_mount fuel mount vn path fsname w =
     bindR (lookup_fs fsname w) (\<lambda>ops.
       if ops = 0 then Inr (YAK_UNKNOWN_FS, w)
       else
         bindR (vfs_lookup_path fuel path None 0 False vn w) (\<lambda>(rv, vn', _, w1).
         bindR (if IS_ERR rv then Inr (rv, w1)
                else if ops = tmpfs_op then tmpfs_mount vn' w1 else mount ops vn' w1) (\<lambda>(res, w2).
           if vn' = None then Inr (res, w2) else bindR (vn_put vn' w2) (\<lambda>w3. Inr (res, w3)))))"

text \<open>\<open>vfs_init\<close>: the table of file systems and the root node, a directory of no file system.\<close>

definition vfs_init :: "hashtable \<Rightarrow> world \<Rightarrow> world res" where
  "vfs_init blank w =
     (case next_alloc w of (ok, w1) \<Rightarrow>
        if ok then
          let v = w_next w1 in
          Inr (put_vnode v (vnode_init None root_ops VDIR blank)
                (w1\<lparr>w_filesystems := ht_init ht_hash_str ht_eq_str, w_next := v + 1, w_root := v\<rparr>))
        else Inl NullDeref)"

end
