(* ===== verification/PathSplit.thy ===== *)
theory PathSplit
  imports Vfs
begin

text \<open>
  Cutting a path into components, in place: the buffer after \<open>split_path\<close> holds the components one after
  the other, each with its terminator.
\<close>

unbundle bit_operations_syntax

section \<open>Components\<close>

function components :: "buf \<Rightarrow> buf list" where
  "components s =
     (let t = dropWhile (\<lambda>c. c = SLASH) s
      in if t = [] then [] else takeWhile (\<lambda>c. c \<noteq> SLASH) t # components (dropWhile (\<lambda>c. c \<noteq> SLASH) t))"
  by auto

termination
proof (relation "measure length", goal_cases)
  case (2 s t)
  then have "t \<noteq> []" "hd t \<noteq> SLASH" "length t \<le> length s"
    using hd_dropWhile [of "\<lambda>c. c = SLASH" s] length_dropWhile_le [of "\<lambda>c. c = SLASH" s] by simp_all
  then have "length (dropWhile (\<lambda>c. c \<noteq> SLASH) t) < length s"
    using length_dropWhile_le [of "\<lambda>c. c \<noteq> SLASH" "tl t"] by (cases t) auto
  then show ?case by simp
qed simp

declare components.simps [simp del]

lemma components_Nil [simp]: "components [] = []"
  by (simp add: components.simps)

lemma components_slash [simp]: "components (SLASH # s) = components s"
  by (subst (1 2) components.simps) simp

lemma components_name:
  "c \<noteq> SLASH \<Longrightarrow> components (c # s) = (c # takeWhile (\<lambda>c. c \<noteq> SLASH) s) # components (dropWhile (\<lambda>c. c \<noteq> SLASH) s)"
  by (subst components.simps) simp

lemma components_chars: "n \<in> set (components s) \<Longrightarrow> set n \<subseteq> set s - {SLASH} \<and> n \<noteq> []"
proof (induction s arbitrary: n rule: components.induct)
  case (1 s)
  let ?t = "dropWhile (\<lambda>c. c = SLASH) s"
  have sub: "set ?t \<subseteq> set s" by (auto dest: set_dropWhileD)
  show ?case
  proof (cases "?t = []")
    case True
    then show ?thesis using 1(2) by (subst (asm) components.simps) simp
  next
    case False
    then have "n = takeWhile (\<lambda>c. c \<noteq> SLASH) ?t \<or> n \<in> set (components (dropWhile (\<lambda>c. c \<noteq> SLASH) ?t))"
      using 1(2) unfolding components.simps [of s] Let_def if_not_P [OF False] by simp
    then show ?thesis
    proof
      assume n: "n = takeWhile (\<lambda>c. c \<noteq> SLASH) ?t"
      have "hd ?t \<noteq> SLASH" using hd_dropWhile [OF False] .
      then have "n \<noteq> []" using n False by (cases ?t) auto
      moreover have "set n \<subseteq> set s - {SLASH}" using n sub by (auto dest: set_takeWhileD)
      ultimately show ?thesis by simp
    next
      assume "n \<in> set (components (dropWhile (\<lambda>c. c \<noteq> SLASH) ?t))"
      then have "set n \<subseteq> set (dropWhile (\<lambda>c. c \<noteq> SLASH) ?t) - {SLASH} \<and> n \<noteq> []" using 1(1) [OF refl False] by simp
      then show ?thesis using sub by (auto dest: set_dropWhileD)
    qed
  qed
qed

text \<open>The components one after the other, each with its terminator.\<close>

definition layout :: "buf list \<Rightarrow> buf" where
  "layout cs = concat (map (\<lambda>c. c @ [0]) cs)"

lemma layout_simps [simp]: "layout [] = []" "layout (c # cs) = c @ 0 # layout cs"
  by (simp_all add: layout_def)

section \<open>The cut in place\<close>

lemma cstr_update: "dst < k \<Longrightarrow> cstr (b[dst := x]) k = cstr b k \<and> (terminated (b[dst := x]) k \<longleftrightarrow> terminated b k)"
  by (simp add: cstr_def terminated_def)

lemma skip_slashes_ok:
  "terminated b src \<Longrightarrow> \<exists>k. skip_slashes b src = Inr k \<and> src \<le> k \<and> terminated b k \<and>
     components (cstr b k) = components (cstr b src) \<and> (b ! src = SLASH \<longrightarrow> src < k) \<and> b ! k \<noteq> SLASH"
proof (induction b src rule: skip_slashes.induct)
  case (1 b src)
  have l: "src < length b" using 1(2) by (rule terminated_less)
  show ?case
  proof (cases "b ! src = SLASH")
    case True
    then have t: "terminated b (src + 1)" "cstr b src = SLASH # cstr b (src + 1)"
      using terminated_Suc [OF 1(2)] cstr_unfold [OF 1(2)] by (simp_all add: SLASH_def)
    obtain k where "skip_slashes b (src + 1) = Inr k" "src + 1 \<le> k" "terminated b k"
        "components (cstr b k) = components (cstr b (src + 1))" "b ! k \<noteq> SLASH"
      using 1(1) [of "b ! src"] True l t by auto
    then show ?thesis using True l t(2) by (intro exI [of _ k]) (subst skip_slashes.simps, simp)
  next
    case False
    then show ?thesis using l 1(2) by (intro exI [of _ src]) (subst skip_slashes.simps, simp)
  qed
qed

lemma split_from_ok:
  "terminated b src \<Longrightarrow> dst \<le> src \<Longrightarrow>
   \<exists>b' X. split_from b dst src in_comp count =
      Inr (count + length (components (if in_comp then dropWhile (\<lambda>c. c \<noteq> SLASH) (cstr b src) else cstr b src)), b') \<and>
     length b' = length b \<and>
     b' = take dst b @ (if in_comp then takeWhile (\<lambda>c. c \<noteq> SLASH) (cstr b src) @ [0] else []) @
       layout (components (if in_comp then dropWhile (\<lambda>c. c \<noteq> SLASH) (cstr b src) else cstr b src)) @ X"
proof (induction b dst src in_comp count rule: split_from.induct)
  case (1 b dst src in_comp count)
  have l: "src < length b" "dst < length b" using terminated_less [OF 1(4)] 1(5) by simp_all
  have tk: "take (Suc dst) (b[dst := x]) = take dst b @ [x]" for x using l by (simp add: take_Suc_update)
  have ld: "ld b src = Inr (b ! src)" using l by simp
  consider (nul) "b ! src = 0" | (slash) "b ! src = SLASH" "b ! src \<noteq> 0" | (char) "b ! src \<noteq> 0" "b ! src \<noteq> SLASH" by blast
  then show ?case
  proof cases
    case nul
    then have "cstr b src = []" using cstr_unfold [OF 1(4)] by simp
    moreover have "b[dst := 0] = take dst b @ [0] @ drop (Suc dst) b" using l by (simp add: upd_conv_take_nth_drop)
    ultimately show ?thesis using nul l by (subst split_from.simps) (auto intro!: exI [of _ "b[dst := 0]"])
  next
    case slash
    obtain k where k: "skip_slashes b src = Inr k" "terminated b k" "components (cstr b k) = components (cstr b src)" "src < k"
      using skip_slashes_ok [OF 1(4)] slash by auto
    have s: "cstr b src = SLASH # cstr b (src + 1)" using cstr_unfold [OF 1(4)] slash by simp
    show ?thesis
    proof (cases in_comp)
      case True
      let ?b = "b[dst := 0]"
      have u: "cstr ?b k = cstr b k" "terminated ?b k" using cstr_update [of dst k b 0] 1(5) k by simp_all
      obtain b' X where "split_from ?b (dst + 1) k False count = Inr (count + length (components (cstr b k)), b')"
          "length b' = length b" "b' = take (dst + 1) ?b @ layout (components (cstr b k)) @ X"
        using 1(1) [OF ld _ _ k(1) True, of ?b] slash l u 1(5) k(4) by auto
      then show ?thesis using True slash l k(1,3) s tk [of 0]
        by (subst split_from.simps) (auto intro!: exI [of _ b'] exI [of _ X])
    next
      case False
      obtain b' X where "split_from b dst k False count = Inr (count + length (components (cstr b k)), b')"
          "length b' = length b" "b' = take dst b @ layout (components (cstr b k)) @ X"
        using 1(2) [OF ld _ _ k(1) False] slash k(2,4) 1(5) by auto
      then show ?thesis using False slash l k(1,3)
        by (subst split_from.simps) (auto intro!: exI [of _ b'] exI [of _ X])
    qed
  next
    case char
    let ?b = "b[dst := b ! src]"
    have s: "cstr b src = b ! src # cstr b (src + 1)" using cstr_unfold [OF 1(4)] char by simp
    have u: "cstr ?b (src + 1) = cstr b (src + 1)" "terminated ?b (src + 1)"
      using cstr_update [of dst "src + 1" b "b ! src"] 1(5) terminated_Suc [OF 1(4)] char by simp_all
    let ?n = "if in_comp then count else count + 1"
    obtain b' X where "split_from ?b (dst + 1) (src + 1) True ?n =
          Inr (?n + length (components (dropWhile (\<lambda>c. c \<noteq> SLASH) (cstr b (src + 1)))), b')"
        "length b' = length b" "b' = take (dst + 1) ?b @ (takeWhile (\<lambda>c. c \<noteq> SLASH) (cstr b (src + 1)) @ [0]) @
           layout (components (dropWhile (\<lambda>c. c \<noteq> SLASH) (cstr b (src + 1)))) @ X"
      using 1(3) [OF ld char, of ?b] l u 1(5) by auto
    then show ?thesis using char l s tk [of "b ! src"] components_name [OF char(2), of "cstr b (src + 1)"]
      by (subst split_from.simps) (auto intro!: exI [of _ b'] exI [of _ X])
  qed
qed

lemma split_path_ok:
  assumes "terminated b 0"
  shows "\<exists>X. split_path b = Inr (length (components (cstr b 0)), layout (components (cstr b 0)) @ X)"
  using split_from_ok [OF assms, of 0 False 0] by (auto simp: split_path_def)

end
