(* ===== verification/VnodeFacts.thy ===== *)
theory VnodeFacts
  imports PathSplit
begin

text \<open>
  Locks and references of vnodes, for the proofs about paths: a vnode that is \<open>hold\<close> is locked and has one
  reference more than before, and giving it back restores the state. Mounts are followed alike in states
  that differ in locks and counts only.
\<close>

unbundle bit_operations_syntax

section \<open>Changing locks and counts of vnodes\<close>

definition upd :: "nat \<Rightarrow> (vnode \<Rightarrow> vnode) \<Rightarrow> world \<Rightarrow> world" where
  "upd v f w = w\<lparr>w_vns := (w_vns w)(v := map_option f (w_vns w v))\<rparr>"

abbreviation inc :: "vnode \<Rightarrow> vnode" where "inc vn \<equiv> vn\<lparr>vn_refcnt := vn_refcnt vn + 1\<rparr>"
abbreviation dec :: "vnode \<Rightarrow> vnode" where "dec vn \<equiv> vn\<lparr>vn_refcnt := vn_refcnt vn - 1\<rparr>"
abbreviation lck :: "vnode \<Rightarrow> vnode" where "lck vn \<equiv> vn\<lparr>vn_locked := True\<rparr>"
abbreviation unl :: "vnode \<Rightarrow> vnode" where "unl vn \<equiv> vn\<lparr>vn_locked := False\<rparr>"

lemma upd_simps [simp]:
  "w_vns (upd v f w) u = (if u = v then map_option f (w_vns w v) else w_vns w u)"
  "w_objs (upd v f w) = w_objs w" "w_phys (upd v f w) = w_phys w" "w_fss (upd v f w) = w_fss w"
  "w_next (upd v f w) = w_next w" "w_kz (upd v f w) = w_kz w" "w_junk (upd v f w) = w_junk w"
  "w_root (upd v f w) = w_root w" "w_cwd (upd v f w) = w_cwd w"
  by (simp_all add: upd_def)

lemma upd_upd: "upd v f (upd v g w) = upd v (\<lambda>x. f (g x)) w"
  by (simp add: upd_def option.map_comp comp_def)

lemma upd_commute: "u \<noteq> v \<Longrightarrow> upd u f (upd v g w) = upd v g (upd u f w)"
  by (simp add: upd_def fun_upd_twist)

lemma upd_same: "(\<And>vn. w_vns w v = Some vn \<Longrightarrow> f vn = vn) \<Longrightarrow> upd v f w = w"
  by (cases "w_vns w v") (simp_all add: upd_def fun_upd_idem)

lemma upd_cong: "(\<And>vn. w_vns w v = Some vn \<Longrightarrow> f vn = g vn) \<Longrightarrow> upd v f w = upd v g w"
  by (cases "w_vns w v") (simp_all add: upd_def)

text \<open>\<open>ready v w\<close>: a node of \<open>tmpfs\<close> with room in its count.\<close>

definition ready :: "nat \<Rightarrow> world \<Rightarrow> bool" where
  "ready v w \<longleftrightarrow> (\<exists>vn. w_vns w v = Some vn \<and> vn_ops vn = tmpfs_vn_op \<and> \<not> vn_locked vn \<and> vn_refcnt vn + 3 < 2 ^ 64)"

definition hold :: "nat \<Rightarrow> world \<Rightarrow> world" where
  "hold v w = upd v (\<lambda>vn. lck (inc vn)) w"

lemma ref_ok: "w_vns w v = Some vn \<Longrightarrow> vn_refcnt vn + 1 < 2 ^ 64 \<Longrightarrow> vn_ref (Some v) w = Inr (upd v inc w)"
  by (simp add: vn_ref_def vnode_ref_def upd_def)

lemma deref_ok: "w_vns w v = Some vn \<Longrightarrow> 0 < vn_refcnt vn \<Longrightarrow> vn_deref (Some v) w = Inr (upd v dec w)"
  by (simp add: vn_deref_def vnode_deref_def upd_def)

lemma lock_ok: "w_vns w v = Some vn \<Longrightarrow> vn_ops vn = tmpfs_vn_op \<Longrightarrow> \<not> vn_locked vn \<Longrightarrow>
   VOP_LOCK (Some v) w = Inr (upd v lck w)"
  by (simp add: VOP_LOCK_def vfs_generic_lock_def upd_def put_vnode_def)

lemma unlock_ok: "w_vns w v = Some vn \<Longrightarrow> vn_ops vn = tmpfs_vn_op \<Longrightarrow> vn_locked vn \<Longrightarrow>
   VOP_UNLOCK (Some v) w = Inr (upd v unl w)"
  by (simp add: VOP_UNLOCK_def vfs_generic_unlock_def upd_def put_vnode_def)

text \<open>A held vnode is put back.\<close>

lemma put_hold:
  assumes "ready v w"
  shows "vn_put (Some v) (hold v w) = Inr w"
proof -
  obtain vn where vn: "w_vns w v = Some vn" "vn_ops vn = tmpfs_vn_op" "\<not> vn_locked vn" using assms by (auto simp: ready_def)
  have "VOP_UNLOCK (Some v) (hold v w) = Inr (upd v inc w)"
  proof -
    have "VOP_UNLOCK (Some v) (hold v w) = Inr (upd v unl (hold v w))"
      by (rule unlock_ok [of _ _ "lck (inc vn)"]) (use vn in \<open>simp_all add: hold_def\<close>)
    also have "upd v unl (hold v w) = upd v inc w"
      unfolding hold_def upd_upd by (rule upd_cong) (use vn in simp)
    finally show ?thesis .
  qed
  moreover have "vn_deref (Some v) (upd v inc w) = Inr (upd v dec (upd v inc w))"
    by (rule deref_ok [of _ _ "inc vn"]) (use vn in simp_all)
  moreover have "upd v dec (upd v inc w) = w" unfolding upd_upd by (rule upd_same) simp
  ultimately show ?thesis by (simp add: vn_put_def)
qed

lemma ref_lock:
  assumes "ready v w"
  shows "bindR (vn_ref (Some v) w) (VOP_LOCK (Some v)) = Inr (hold v w)"
proof -
  obtain vn where vn: "w_vns w v = Some vn" "vn_ops vn = tmpfs_vn_op" "\<not> vn_locked vn" "vn_refcnt vn + 3 < 2 ^ 64"
    using assms by (auto simp: ready_def)
  have "vn_ref (Some v) w = Inr (upd v inc w)" by (rule ref_ok [OF vn(1)]) (use vn(4) in simp)
  moreover have "VOP_LOCK (Some v) (upd v inc w) = Inr (upd v lck (upd v inc w))"
    by (rule lock_ok [of _ _ "inc vn"]) (use vn in simp_all)
  ultimately show ?thesis by (simp add: hold_def upd_upd)
qed

lemma ready_upd: "u \<noteq> v \<Longrightarrow> ready u (upd v f w) \<longleftrightarrow> ready u w"
  by (simp add: ready_def)

lemma ready_hold: "u \<noteq> v \<Longrightarrow> ready u (hold v w) \<longleftrightarrow> ready u w"
  by (simp add: hold_def ready_upd)

text \<open>From one held vnode to the next, in the two orders of the code.\<close>

lemma take_next_ok:
  assumes "ready v w" "ready u w" "u \<noteq> v"
  shows "take_next v u (hold v w) = Inr (upd v inc (hold u w))"
proof -
  have "bindR (vn_ref (Some u) (hold v w)) (VOP_LOCK (Some u)) = Inr (hold u (hold v w))"
    by (rule ref_lock) (use assms in \<open>simp add: ready_hold\<close>)
  moreover have "VOP_UNLOCK (Some v) (hold u (hold v w)) = Inr (upd v inc (hold u w))"
  proof -
    obtain vn where vn: "w_vns w v = Some vn" "vn_ops vn = tmpfs_vn_op" "\<not> vn_locked vn"
      using assms(1) by (auto simp: ready_def)
    have "VOP_UNLOCK (Some v) (hold u (hold v w)) = Inr (upd v unl (hold u (hold v w)))"
      by (rule unlock_ok [of _ _ "lck (inc vn)"]) (use vn assms(3) in \<open>simp_all add: hold_def\<close>)
    also have "upd v unl (hold u (hold v w)) = hold u (upd v inc w)"
    proof -
      have "upd v unl (hold u (hold v w)) = hold u (upd v unl (hold v w))"
        unfolding hold_def by (rule upd_commute) (use assms(3) in simp)
      also have "upd v unl (hold v w) = upd v inc w"
        unfolding hold_def upd_upd by (rule upd_cong) (use vn in simp)
      finally show ?thesis .
    qed
    also have "hold u (upd v inc w) = upd v inc (hold u w)" unfolding hold_def by (rule upd_commute) (rule assms(3))
    finally show ?thesis .
  qed
  ultimately show ?thesis using assms(3) by (simp add: take_next_def bindR_assoc [symmetric])
qed

lemma deref_inc:
  assumes "w_vns w v = Some vn"
  shows "vn_deref (Some v) (upd v inc w) = Inr w"
proof -
  have "vn_deref (Some v) (upd v inc w) = Inr (upd v dec (upd v inc w))"
    by (rule deref_ok [of _ _ "inc vn"]) (use assms in simp_all)
  moreover have "upd v dec (upd v inc w) = w" unfolding upd_upd by (rule upd_same) simp
  ultimately show ?thesis by simp
qed

section \<open>What the walk reads\<close>

text \<open>Two worlds that differ in the locks and counts of their vnodes only.\<close>

definition still :: "vnode \<Rightarrow> vnode" where
  "still vn = vn\<lparr>vn_refcnt := 0, vn_locked := False\<rparr>"

definition alike :: "world \<Rightarrow> world \<Rightarrow> bool" where
  "alike w w' \<longleftrightarrow> (\<forall>v. map_option still (w_vns w' v) = map_option still (w_vns w v)) \<and> w_fss w' = w_fss w \<and>
     w_root w' = w_root w \<and> w_kz w' = w_kz w \<and> w_junk w' = w_junk w"

lemma alike_refl: "alike w w" by (simp add: alike_def)

lemma alike_upd: "(\<And>vn. still (f vn) = still vn) \<Longrightarrow> alike w w' \<Longrightarrow> alike w (upd v f w')"
  by (auto simp: alike_def option.map_comp comp_def)

lemma alike_hold: "alike w (hold v w)" "alike w (upd u inc (hold v w))"
  unfolding hold_def by (intro alike_upd alike_refl; simp add: still_def)+

lemma still_fields:
  assumes "still a = still b"
  shows "vn_ops a = vn_ops b" "vn_type a = vn_type b" "vn_mounted_vfs a = vn_mounted_vfs b"
    "vn_node_covered a = vn_node_covered b" "tn_children a = tn_children b" "tn_link_path a = tn_link_path b"
  using assms by (cases a; cases b; simp add: still_def)+

lemma alike_vnode:
  assumes "alike w w'" "w_vns w v = Some vn"
  shows "\<exists>vn'. w_vns w' v = Some vn' \<and> still vn' = still vn"
  using assms unfolding alike_def by (metis map_option_eq_Some option.map(2))

lemma alike_none: "alike w w' \<Longrightarrow> w_vns w v = None \<Longrightarrow> w_vns w' v = None"
  unfolding alike_def by (metis map_option_is_None)

lemma resolve_alike: "alike w w' \<Longrightarrow> resolve fuel vp w' = resolve fuel vp w"
proof (induction fuel arbitrary: vp)
  case (Suc fuel)
  have g: "tmpfs_getroot m w' = tmpfs_getroot m w" for m
    using Suc.prems by (cases m) (simp_all add: tmpfs_getroot_def alike_def)
  show ?case
  proof (cases vp)
    case (Some v)
    show ?thesis
    proof (cases "w_vns w v")
      case None
      then show ?thesis using alike_none [OF Suc.prems None] Some by (simp add: vnode_at_def)
    next
      case vn: (Some vn)
      obtain vn' where vn': "w_vns w' v = Some vn'" "still vn' = still vn" using alike_vnode [OF Suc.prems vn] by blast
      have "vn_mounted_vfs vn' = vn_mounted_vfs vn" using still_fields [OF vn'(2)] by simp
      then show ?thesis using Some vn vn'(1) Suc by (simp add: g)
    qed
  qed simp
qed simp

lemma resolve_upward_alike: "alike w w' \<Longrightarrow> resolve_upward fuel v w' = resolve_upward fuel v w"
proof (induction fuel arbitrary: v)
  case (Suc fuel)
  show ?case
  proof (cases "w_vns w v")
    case None
    then show ?thesis using alike_none [OF Suc.prems None] by (simp add: vnode_at_def)
  next
    case (Some vn)
    obtain vn' where vn': "w_vns w' v = Some vn'" "still vn' = still vn" using alike_vnode [OF Suc.prems Some] by blast
    have "vn_node_covered vn' = vn_node_covered vn" using still_fields [OF vn'(2)] by simp
    then show ?thesis using Some vn'(1) Suc by (simp split: option.splits)
  qed
qed simp

end
