(* ===== verification/PathWalk.thy ===== *)
theory PathWalk
  imports VnodeFacts
begin

text \<open>
  One component of a path. \<open>entry\<close>, \<open>mounted\<close> and \<open>top\<close> read the directory tree, \<open>walk_to\<close> is the walk of a list of
  components over it, without locks or references; the lemmas show that the code's steps for a component
  follow it, and that each takes one lock and one reference of the next vnode and gives back those of the
  last.
\<close>

unbundle bit_operations_syntax

section \<open>The specification of a walk\<close>

definition entry :: "world \<Rightarrow> nat \<Rightarrow> buf \<Rightarrow> nat option" where
  "entry w v c = (case w_vns w v of None \<Rightarrow> None | Some vn \<Rightarrow> map_option unat (ht_map (tn_children vn) c))"

definition type_of :: "world \<Rightarrow> nat \<Rightarrow> vtype option" where
  "type_of w v = map_option vn_type (w_vns w v)"

definition top :: "nat \<Rightarrow> world \<Rightarrow> nat \<Rightarrow> nat" where
  "top fuel w v = (case resolve_upward fuel v w of Inr u \<Rightarrow> u | Inl _ \<Rightarrow> v)"

definition mounted :: "nat \<Rightarrow> world \<Rightarrow> nat \<Rightarrow> nat" where
  "mounted fuel w v = (case resolve fuel (Some v) w of Inr r \<Rightarrow> r | Inl _ \<Rightarrow> v)"

text \<open>What the walk relies on: the directories are well-formed tables of nodes, no node is locked, mounts
  lead somewhere, memory is not exhausted. \<open>root\<close> is the root of the name space.\<close>

definition fs_ok :: "nat \<Rightarrow> nat \<Rightarrow> world \<Rightarrow> bool" where
  "fs_ok fuel root w \<longleftrightarrow> w_kz w = [] \<and> resolve fuel (Some (w_root w)) w = Inr root \<and>
     (\<forall>v vn. w_vns w v = Some vn \<longrightarrow> vn_ops vn = tmpfs_vn_op \<longrightarrow>
        ready v w \<and> (\<exists>r. resolve fuel (Some v) w = Inr r \<and> ready r w) \<and>
        (v \<noteq> root \<longrightarrow> vn_node_covered vn \<noteq> None \<longrightarrow> (\<exists>u. resolve_upward fuel v w = Inr u \<and> ready u w)) \<and>
        (vn_type vn = VDIR \<longrightarrow> ht_inv (tn_children vn) \<and>
          (\<forall>c p. ht_map (tn_children vn) c = Some p \<longrightarrow> p \<noteq> 0 \<and>
             (\<exists>un. w_vns w (unat p) = Some un \<and> vn_ops un = tmpfs_vn_op))))"

datatype outcome = Found nat | Failed status | Odd

text \<open>The directory in which a component is looked up.\<close>

definition base_of :: "nat \<Rightarrow> world \<Rightarrow> nat \<Rightarrow> buf \<Rightarrow> nat" where
  "base_of fuel w v c =
     (if c = [DOT, DOT] \<and> (\<exists>vn. w_vns w v = Some vn \<and> vn_node_covered vn \<noteq> None) then top fuel w v else v)"

text \<open>\<open>Odd\<close>: the walk leaves the paths whose references the code counts right. It meets a symbolic link
  and follows it; or a component leads to the directory itself before mounts are followed and not after, or
  the other way round (\<open>.\<close> in a directory that was mounted over); or what a mounted root covers is not a directory.\<close>

fun walk_to :: "nat \<Rightarrow> world \<Rightarrow> nat \<Rightarrow> u32 \<Rightarrow> bool \<Rightarrow> nat \<Rightarrow> buf list \<Rightarrow> outcome" where
  "walk_to fuel w root flags want_dir v [] = Failed YAK_NOENT"
| "walk_to fuel w root flags want_dir v (c # cs) =
     (let dest = (\<lambda>r. if cs \<noteq> [] then walk_to fuel w root flags want_dir r cs
                      else if want_dir \<and> type_of w r \<noteq> Some VDIR then Failed YAK_NODIR else Found r)
      in if type_of w v \<noteq> Some VDIR then Failed YAK_NODIR
         else if cs = [] \<and> flags AND VFS_LOOKUP_PARENT \<noteq> 0 then Found v
         else if c = [DOT, DOT] \<and> v = root then dest v
         else
           let d = base_of fuel w v c in
           if type_of w d \<noteq> Some VDIR then Odd
           else case entry w d c of
             None \<Rightarrow> Failed YAK_NOENT
           | Some u \<Rightarrow>
               let r = mounted fuel w u in
               if (u = d) \<noteq> (r = d) \<or> (type_of w r = Some VLNK \<and> \<not> (cs = [] \<and> flags AND VFS_LOOKUP_NOFOLLOW \<noteq> 0)) then Odd
               else dest r)"

lemma fs_okD:
  assumes "fs_ok fuel root w" "w_vns w v = Some vn" "vn_ops vn = tmpfs_vn_op"
  shows "ready v w" "\<exists>r. resolve fuel (Some v) w = Inr r \<and> ready r w"
    "v \<noteq> root \<Longrightarrow> vn_node_covered vn \<noteq> None \<Longrightarrow> \<exists>u. resolve_upward fuel v w = Inr u \<and> ready u w"
    "vn_type vn = VDIR \<Longrightarrow> ht_inv (tn_children vn)"
    "vn_type vn = VDIR \<Longrightarrow> ht_map (tn_children vn) c = Some p \<Longrightarrow>
       p \<noteq> 0 \<and> (\<exists>un. w_vns w (unat p) = Some un \<and> vn_ops un = tmpfs_vn_op)"
  using assms unfolding fs_ok_def by blast+

lemma ready_vnode: "ready v w \<Longrightarrow> \<exists>vn. w_vns w v = Some vn \<and> vn_ops vn = tmpfs_vn_op \<and> \<not> vn_locked vn"
  by (auto simp: ready_def)

section \<open>The last name\<close>

definition fits :: "buf \<Rightarrow> bool" where
  "fits c \<longleftrightarrow> length c + 1 < kmalloc_usable (length c + 1)"

definition name_copy :: "world \<Rightarrow> buf \<Rightarrow> buf" where
  "name_copy w c = c @ [0, 0] @ replicate (kmalloc_usable (length c + 1) - (length c + 2)) (w_junk w)"

lemma last_name_ok:
  assumes "terminated b p" "want \<longrightarrow> fits (cstr b p)" "w_kz w = []"
  shows "last_name want b p w = Inr (if want then Some (name_copy w (cstr b p)) else None, w)"
proof (cases want)
  case True
  let ?c = "cstr b p" and ?u = "kmalloc_usable (length (cstr b p) + 1)"
  have u: "length ?c + 1 < ?u" using assms(2) True by (simp add: fits_def)
  have "strndup (\<lambda>_. Some (replicate ?u (w_junk w))) b p (length ?c + 1) = Inr (Some (name_copy w ?c))"
  proof -
    have cp: "memcpy (replicate ?u (w_junk w)) 0 b p (length ?c + 1) = Inr (?c @ [0] @ replicate (?u - (length ?c + 1)) (w_junk w))"
      using u cstr_fits [OF assms(1)] cstr_take_drop [OF assms(1)] by (simp add: mem_simps)
    obtain k where k: "?u - (length ?c + 1) = Suc k" using u by (cases "?u - (length ?c + 1)") auto
    then have "?u - (length ?c + 2) = k" by simp
    then show ?thesis unfolding strndup_def name_copy_def option.case cp bindR_simps k
      by (simp add: list_update_append)
  qed
  then show ?thesis using True assms(1,3) by (simp add: last_name_def mem_simps)
qed (simp add: last_name_def)

lemma name_copy_cstr: "0 \<notin> set c \<Longrightarrow> cstr (name_copy w c) 0 = c \<and> terminated (name_copy w c) 0"
  unfolding name_copy_def cstr_def terminated_def by (simp, subst takeWhile_append2, auto)

section \<open>One component\<close>

definition last_of :: "bool \<Rightarrow> world \<Rightarrow> buf \<Rightarrow> buf option" where
  "last_of want w c = (if want then Some (name_copy w c) else None)"

definition arrive :: "bool \<Rightarrow> bool \<Rightarrow> bool \<Rightarrow> world \<Rightarrow> buf \<Rightarrow> nat \<Rightarrow> walk" where
  "arrive want_dir want_last is_last w c r =
     (if \<not> is_last then Go r (hold r w)
      else if want_dir \<and> type_of w r \<noteq> Some VDIR then Stop YAK_NODIR None None w
      else Stop YAK_SUCCESS (Some r) (last_of want_last w c) (hold r w))"

lemma hold_vnode: "w_vns w r = Some rn \<Longrightarrow> w_vns (hold r w) r = Some (lck (inc rn))"
  by (simp add: hold_def)

lemma finish_ok:
  assumes "ready r w" "terminated b p" "is_last \<longrightarrow> want_last \<longrightarrow> fits (cstr b p)" "w_kz w = []"
  shows "finish_comp want_dir want_last is_last b p r (hold r w) = Inr (arrive want_dir want_last is_last w (cstr b p) r)"
proof -
  obtain rn where rn: "w_vns w r = Some rn" using ready_vnode [OF assms(1)] by blast
  have "last_name want_last b p (hold r w) = Inr (last_of want_last w (cstr b p), hold r w)" if is_last
    using last_name_ok [OF assms(2), of want_last "hold r w"] assms(3,4) that by (simp add: last_of_def name_copy_def hold_def)
  then show ?thesis
    using rn put_hold [OF assms(1)] by (simp add: finish_comp_def arrive_def hold_vnode type_of_def)
qed

lemma lookup_name:
  assumes ok: "fs_ok fuel root w" and v: "w_vns w v = Some vn" "vn_ops vn = tmpfs_vn_op" "vn_type vn = VDIR"
    and b: "terminated b p"
  shows "VOP_LOOKUP (Some v) b p None (hold v w) =
     Inr (case entry w v (cstr b p) of None \<Rightarrow> (YAK_NOENT, None) | Some u \<Rightarrow> (YAK_SUCCESS, Some u))"
proof -
  have inv: "ht_inv (tn_children vn)" using fs_okD(4) [OF ok v(1,2)] v(3) by simp
  have "take (length (cstr b p)) (drop p b) = cstr b p" unfolding cstr_def by (simp add: takeWhile_eq_take [symmetric])
  moreover have "children_get (lck (inc vn)) (cstr b p) = Inr (entry w v (cstr b p))"
    using ht_get_ok [OF inv, of "cstr b p"] fs_okD(5) [OF ok v(1,2,3), of "cstr b p"] v(1)
    by (auto simp: children_get_def entry_def split: option.splits)
  ultimately show ?thesis
    using v b by (simp add: VOP_LOOKUP_def tmpfs_lookup_def hold_vnode mem_simps split: option.splits)
qed

lemma with_result: "bindR m (\<lambda>a. bindR (f a) g) = Inr x \<Longrightarrow> bindR m (\<lambda>a. bindR (f a) (\<lambda>b. bindR (g b) (\<lambda>y. Inr (r, y)))) = Inr (r, x)"
  by (auto simp: bindR_def split: sum.splits)

lemma enter_mount_ok:
  assumes ok: "fs_ok fuel root w" and u: "ready u w" and v: "v = u \<or> ready v w"
    and apart: "mounted fuel w u \<noteq> u \<Longrightarrow> mounted fuel w u \<noteq> v \<and> u \<noteq> v"
  shows "enter_mount fuel u (if u = v then hold v w else upd v inc (hold u w)) =
     Inr (mounted fuel w u, if u = v then hold v w else upd v inc (hold (mounted fuel w u) w)) \<and> ready (mounted fuel w u) w"
proof -
  obtain un where un: "w_vns w u = Some un" "vn_ops un = tmpfs_vn_op" using ready_vnode [OF u] by blast
  obtain r where r: "resolve fuel (Some u) w = Inr r" "ready r w" using fs_okD(2) [OF ok un] by blast
  have m: "mounted fuel w u = r" using r(1) by (simp add: mounted_def)
  let ?w = "if u = v then hold v w else upd v inc (hold u w)"
  have al: "alike w ?w" using alike_hold by simp
  have res: "resolve fuel (Some u) ?w = Inr r" unfolding resolve_alike [OF al] by (rule r(1))
  show ?thesis
  proof (cases "r = u")
    case True
    then show ?thesis using res r m by (simp add: enter_mount_def)
  next
    case False
    then have uv: "u \<noteq> v" "r \<noteq> v" using apart m by simp_all
    let ?h = "upd v inc"
    have c: "?h (hold x y) = hold x (?h y)" if "x \<noteq> v" for x y
      unfolding hold_def by (rule upd_commute) (use that in simp)
    have ru: "ready u (?h w)" "ready r (?h w)" using u r(2) uv by (simp_all add: ready_upd)
    have a: "bindR (vn_ref (Some r) (hold u (?h w))) (\<lambda>w1. bindR (vn_put (Some u) w1) (VOP_LOCK (Some r))) = Inr (hold r (?h w))"
    proof -
      obtain rn where rn: "w_vns w r = Some rn" "vn_refcnt rn + 3 < 2 ^ 64" using r(2) by (auto simp: ready_def)
      have "vn_ref (Some r) (hold u (?h w)) = Inr (upd r inc (hold u (?h w)))"
        by (rule ref_ok [of _ _ rn]) (use rn uv False in \<open>simp_all add: hold_def\<close>)
      also have "upd r inc (hold u (?h w)) = hold u (upd r inc (?h w))"
        unfolding hold_def by (rule upd_commute) (use False in simp)
      finally have "vn_ref (Some r) (hold u (?h w)) = Inr (hold u (upd r inc (?h w)))" .
      moreover have "vn_put (Some u) (hold u (upd r inc (?h w))) = Inr (upd r inc (?h w))"
        by (rule put_hold) (use ru(1) False in \<open>simp add: ready_upd\<close>)
      moreover have "vn_ref (Some r) (?h w) = Inr (upd r inc (?h w))"
        by (rule ref_ok [of _ _ rn]) (use rn uv in simp_all)
      ultimately show ?thesis using ref_lock [OF ru(2)] by simp
    qed
    have "enter_mount fuel u (hold u (?h w)) = Inr (r, hold r (?h w))"
    proof -
      have res': "resolve fuel (Some u) (hold u (?h w)) = Inr r" 
        unfolding c [OF uv(1), symmetric] using res uv(1) by simp
      show ?thesis unfolding enter_mount_def res' bindR_simps using False with_result [OF a] by simp
    qed
    then show ?thesis unfolding m c [OF uv(1), symmetric] c [OF uv(2), symmetric] using uv r(2) by simp
  qed
qed

lemma lookup_child_ok:
  assumes ok: "fs_ok fuel root w" and d: "w_vns w d = Some vn" "vn_ops vn = tmpfs_vn_op" "vn_type vn = VDIR"
    and b: "terminated b p" "is_last \<longrightarrow> want_last \<longrightarrow> fits (cstr b p)"
  defines "c \<equiv> cstr b p"
  shows "case entry w d c of
      None \<Rightarrow> lookup_child fuel lookup flags want_dir want_last is_last b p d (hold d w) = Inr (Stop YAK_NOENT None None w)
    | Some u \<Rightarrow>
        (u = d) = (mounted fuel w u = d) \<longrightarrow>
        \<not> (type_of w (mounted fuel w u) = Some VLNK \<and> \<not> (is_last \<and> flags AND VFS_LOOKUP_NOFOLLOW \<noteq> 0)) \<longrightarrow>
        lookup_child fuel lookup flags want_dir want_last is_last b p d (hold d w) =
          Inr (arrive want_dir want_last is_last w c (mounted fuel w u)) \<and> ready (mounted fuel w u) w"
proof (cases "entry w d c")
  case None
  then show ?thesis
    using lookup_name [OF ok d b(1)] put_hold [OF fs_okD(1) [OF ok d(1,2)]] by (simp add: lookup_child_def c_def)
next
  case (Some u)
  let ?r = "mounted fuel w u"
  have kz: "w_kz w = []" using ok by (simp add: fs_ok_def)
  obtain un where un: "w_vns w u = Some un" "vn_ops un = tmpfs_vn_op"
    using fs_okD(5) [OF ok d(1,2,3)] Some d(1) by (auto simp: entry_def)
  have rd: "ready d w" "ready u w" using fs_okD(1) [OF ok d(1,2)] fs_okD(1) [OF ok un] by simp_all
  have look: "VOP_LOOKUP (Some d) b p None (hold d w) = Inr (YAK_SUCCESS, Some u)"
    using lookup_name [OF ok d b(1)] Some by (simp add: c_def)
  show ?thesis
    unfolding Some option.case
  proof (intro impI)
    assume tame: "(u = d) = (?r = d)" and nl: "\<not> (type_of w ?r = Some VLNK \<and> \<not> (is_last \<and> flags AND VFS_LOOKUP_NOFOLLOW \<noteq> 0))"
    let ?w1 = "if u = d then hold d w else upd d inc (hold u w)"
    let ?w2 = "if u = d then hold d w else upd d inc (hold ?r w)"
    have t: "take_next d u (hold d w) = Inr ?w1"
      using take_next_ok [OF rd] by (cases "u = d") (simp_all add: take_next_def)
    have e: "enter_mount fuel u ?w1 = Inr (?r, ?w2)" "ready ?r w"
      using enter_mount_ok [OF ok rd(2), of d] rd(1) tame by auto
    obtain rn where rn: "w_vns w ?r = Some rn" using ready_vnode [OF e(2)] by blast
    obtain rn2 where rn2: "w_vns ?w2 ?r = Some rn2" "vn_type rn2 = vn_type rn"
      using rn tame by (cases "u = d") (auto simp: hold_def)
    have skip: "\<not> (vn_type rn2 = VLNK \<and> \<not> (is_last \<and> flags AND VFS_LOOKUP_NOFOLLOW \<noteq> 0))"
      using nl rn rn2(2) by (simp add: type_of_def)
    have drop: "(if d \<noteq> ?r then vn_deref (Some d) ?w2 else Inr ?w2) = Inr (hold ?r w)"
    proof (cases "u = d")
      case True
      then show ?thesis using tame by simp
    next
      case False
      then have "w_vns (hold ?r w) d = Some vn" using tame d(1) by (simp add: hold_def)
      then show ?thesis using False tame deref_inc by auto
    qed
    have "lookup_child fuel lookup flags want_dir want_last is_last b p d (hold d w) =
        finish_comp want_dir want_last is_last b p ?r (hold ?r w)"
      unfolding lookup_child_def look bindR_simps prod.case using skip drop t e(1) rn2(1)
      by (simp only: IS_ERR_def if_False option.case bindR_simps prod.case vnode_at_Some simp_thms)
    then show "lookup_child fuel lookup flags want_dir want_last is_last b p d (hold d w) =
        Inr (arrive want_dir want_last is_last w c ?r) \<and> ready ?r w"
      using finish_ok [OF e(2) b kz] e(2) by (simp add: c_def)
  qed
qed

text \<open>The specification of one component.\<close>

definition comp_to :: "nat \<Rightarrow> world \<Rightarrow> nat \<Rightarrow> u32 \<Rightarrow> bool \<Rightarrow> bool \<Rightarrow> bool \<Rightarrow> buf \<Rightarrow> nat \<Rightarrow> walk option" where
  "comp_to fuel w root flags want_dir want_last is_last c v =
     (if type_of w v \<noteq> Some VDIR then Some (Stop YAK_NODIR None None w)
      else if is_last \<and> flags AND VFS_LOOKUP_PARENT \<noteq> 0 then Some (Stop YAK_SUCCESS (Some v) (last_of want_last w c) (hold v w))
      else if c = [DOT, DOT] \<and> v = root then Some (arrive want_dir want_last is_last w c v)
      else
        let d = base_of fuel w v c in
        if type_of w d \<noteq> Some VDIR then None
        else case entry w d c of
          None \<Rightarrow> Some (Stop YAK_NOENT None None w)
        | Some u \<Rightarrow>
            let r = mounted fuel w u in
            if (u = d) \<noteq> (r = d) \<or> (type_of w r = Some VLNK \<and> \<not> (is_last \<and> flags AND VFS_LOOKUP_NOFOLLOW \<noteq> 0)) then None
            else Some (arrive want_dir want_last is_last w c r))"

lemma dots: "cstr [DOT, DOT, 0] 0 = [DOT, DOT]" "terminated [DOT, DOT, 0] 0"
  by (simp_all add: cstr_def terminated_def DOT_def)

lemma with_result2: "bindR m g = Inr x \<Longrightarrow> bindR m (\<lambda>a. bindR (g a) (\<lambda>y. Inr (r, y))) = Inr (r, x)"
  by (auto simp: bindR_def split: sum.splits)

lemma leave_mount_ok:
  assumes ok: "fs_ok fuel root w" and v: "ready v w" "v \<noteq> root"
  shows "leave_mount fuel v (hold v w) = Inr (base_of fuel w v [DOT, DOT], hold (base_of fuel w v [DOT, DOT]) w) \<and>
     ready (base_of fuel w v [DOT, DOT]) w"
proof -
  obtain vn where vn: "w_vns w v = Some vn" "vn_ops vn = tmpfs_vn_op" using ready_vnode [OF v(1)] by blast
  show ?thesis
  proof (cases "vn_node_covered vn")
    case None
    then show ?thesis using vn v(1) by (simp add: leave_mount_def base_of_def hold_vnode)
  next
    case (Some x)
    obtain u where u: "resolve_upward fuel v w = Inr u" "ready u w" using fs_okD(3) [OF ok vn v(2)] Some by auto
    have b: "base_of fuel w v [DOT, DOT] = u" using vn Some u(1) by (simp add: base_of_def top_def)
    have "resolve_upward fuel v (hold v w) = Inr u" using u(1) resolve_upward_alike [OF alike_hold(1)] by simp
    then show ?thesis
      using Some vn u(2) b put_hold [OF v(1)] with_result2 [OF ref_lock [OF u(2)], of u]
      by (simp add: leave_mount_def hold_vnode)
  qed
qed

lemma lookup_comp_ok:
  assumes ok: "fs_ok fuel root w" and v: "ready v w"
    and b: "terminated b p" "is_last \<longrightarrow> want_last \<longrightarrow> fits (cstr b p)"
    and spec: "comp_to fuel w root flags want_dir want_last is_last (cstr b p) v = Some out"
  shows "lookup_comp fuel lookup flags want_dir want_last is_last b p v (hold v w) = Inr out"
    "out = Go next w' \<Longrightarrow> ready next w \<and> w' = hold next w"
proof -
  obtain vn where vn: "w_vns w v = Some vn" "vn_ops vn = tmpfs_vn_op" using ready_vnode [OF v] by blast
  have kz: "w_kz w = []" and root: "resolve fuel (Some (w_root w)) w = Inr root" using ok by (simp_all add: fs_ok_def)
  have root': "resolve fuel (Some (w_root (hold v w))) (hold v w) = Inr root"
    using root resolve_alike [OF alike_hold(1)] by (simp add: hold_def)
  let ?c = "cstr b p"
  obtain k where k: "strcmp b p [DOT, DOT, 0] 0 = Inr k" "k = 0 \<longleftrightarrow> ?c = [DOT, DOT]"
    using strcmp_eq [OF b(1) dots(2)] unfolding dots(1) by blast
  have goal: "lookup_comp fuel lookup flags want_dir want_last is_last b p v (hold v w) = Inr out \<and>
      (\<forall>next w'. out = Go next w' \<longrightarrow> ready next w \<and> w' = hold next w)"
  proof (cases "vn_type vn = VDIR")
    case False
    then show ?thesis using spec vn put_hold [OF v] by (auto simp: lookup_comp_def comp_to_def type_of_def hold_vnode)
  next
    case dir: True
    show ?thesis
    proof (cases "is_last \<and> flags AND VFS_LOOKUP_PARENT \<noteq> 0")
      case True
      have "last_name want_last b p (hold v w) = Inr (last_of want_last w ?c, hold v w)"
        using last_name_ok [OF b(1), of want_last "hold v w"] b(2) True kz by (simp add: last_of_def name_copy_def hold_def)
      then show ?thesis using spec vn dir True by (auto simp: lookup_comp_def comp_to_def type_of_def hold_vnode)
    next
      case np: False
      show ?thesis
      proof (cases "?c = [DOT, DOT] \<and> v = root")
        case True
        then show ?thesis
          using spec vn dir np k root' v finish_ok [OF v b kz]
          by (auto simp: lookup_comp_def comp_to_def type_of_def hold_vnode arrive_def)
      next
        case nr: False
        let ?d = "base_of fuel w v ?c"
        have d: "lookup_comp fuel lookup flags want_dir want_last is_last b p v (hold v w) =
            lookup_child fuel lookup flags want_dir want_last is_last b p ?d (hold ?d w) \<and> ready ?d w"
        proof (cases "?c = [DOT, DOT]")
          case True
          then show ?thesis
            using leave_mount_ok [OF ok v] vn dir np k root' nr by (auto simp: lookup_comp_def hold_vnode)
        next
          case False
          then show ?thesis using vn dir np k v by (auto simp: lookup_comp_def hold_vnode base_of_def)
        qed
        obtain dn where dn: "w_vns w ?d = Some dn" "vn_ops dn = tmpfs_vn_op" using ready_vnode d by blast
        have dd: "vn_type dn = VDIR" using spec dir np nr vn dn by (auto simp: comp_to_def Let_def type_of_def split: if_splits)
        note child = lookup_child_ok [OF ok dn dd b, of lookup flags want_dir]
        show ?thesis
        proof (cases "entry w ?d ?c")
          case None
          then show ?thesis using child d spec dir np nr vn dn dd by (auto simp: comp_to_def Let_def type_of_def)
        next
          case (Some u)
          let ?r = "mounted fuel w u"
          have t: "(u = ?d) = (?r = ?d)" "\<not> (type_of w ?r = Some VLNK \<and> \<not> (is_last \<and> flags AND VFS_LOOKUP_NOFOLLOW \<noteq> 0))"
            and out: "out = arrive want_dir want_last is_last w ?c ?r"
            using spec dir np nr vn dn dd Some by (auto simp: comp_to_def Let_def type_of_def split: if_splits)
          then show ?thesis using child d Some by (auto simp: arrive_def split: if_splits)
        qed
      qed
    qed
  qed
  then show "lookup_comp fuel lookup flags want_dir want_last is_last b p v (hold v w) = Inr out" by blast
  show "out = Go next w' \<Longrightarrow> ready next w \<and> w' = hold next w" using goal by blast
qed

end
