(* ===== verification/PathLookup.thy ===== *)
theory PathLookup
  imports PathWalk
begin

text \<open>
  Whole paths: the loop of \<open>vfs_lookup_path\<close> over the components, where it starts, and the paths it treats
  apart.
\<close>

unbundle bit_operations_syntax

section \<open>A path\<close>

definition lookup_result :: "bool \<Rightarrow> world \<Rightarrow> buf \<Rightarrow> outcome \<Rightarrow> status \<times> nat option \<times> buf option \<times> world" where
  "lookup_result want_last w c out =
     (case out of
        Found u \<Rightarrow> (YAK_SUCCESS, Some u, last_of want_last w c, hold u w)
      | Failed e \<Rightarrow> (e, None, None, w)
      | Odd \<Rightarrow> (YAK_IO, None, None, w))"

lemma walk_comp:
  assumes "walk_to fuel w root flags want_dir v (c # cs) \<noteq> Odd"
  shows "\<exists>out. comp_to fuel w root flags want_dir want_last (cs = []) c v = Some out \<and>
     (case out of
        Stop e u l w' \<Rightarrow> (e, u, l, w') = lookup_result want_last w (last (c # cs)) (walk_to fuel w root flags want_dir v (c # cs))
      | Go r w' \<Rightarrow> cs \<noteq> [] \<and> walk_to fuel w root flags want_dir v (c # cs) = walk_to fuel w root flags want_dir r cs)"
proof (cases "type_of w v = Some VDIR \<and> \<not> (cs = [] \<and> flags AND VFS_LOOKUP_PARENT \<noteq> 0)")
  case False
  then show ?thesis by (auto simp: comp_to_def lookup_result_def)
next
  case go: True
  show ?thesis
  proof (cases "c = [DOT, DOT] \<and> v = root")
    case True
    then show ?thesis using go by (auto simp: comp_to_def lookup_result_def arrive_def)
  next
    case nr: False
    let ?d = "base_of fuel w v c"
    have d: "type_of w ?d = Some VDIR" using assms go nr by (auto simp: Let_def split: if_splits)
    show ?thesis
    proof (cases "entry w ?d c")
      case None
      then show ?thesis using go nr d by (auto simp: comp_to_def lookup_result_def)
    next
      case (Some u)
      let ?r = "mounted fuel w u"
      have t: "\<not> ((u = ?d) \<noteq> (?r = ?d) \<or> (type_of w ?r = Some VLNK \<and> \<not> (cs = [] \<and> flags AND VFS_LOOKUP_NOFOLLOW \<noteq> 0)))"
      proof (rule notI)
        assume "(u = ?d) \<noteq> (?r = ?d) \<or> (type_of w ?r = Some VLNK \<and> \<not> (cs = [] \<and> flags AND VFS_LOOKUP_NOFOLLOW \<noteq> 0))"
        then have "walk_to fuel w root flags want_dir v (c # cs) = Odd"
          using go nr d unfolding walk_to.simps Let_def by (auto simp: Some)
        then show False using assms by simp
      qed
      have c: "comp_to fuel w root flags want_dir want_last (cs = []) c v = Some (arrive want_dir want_last (cs = []) w c ?r)"
        using go nr d t by (auto simp: comp_to_def Let_def Some)
      have wt: "walk_to fuel w root flags want_dir v (c # cs) =
          (if cs \<noteq> [] then walk_to fuel w root flags want_dir ?r cs
           else if want_dir \<and> type_of w ?r \<noteq> Some VDIR then Failed YAK_NODIR else Found ?r)"
        using go nr d t by (auto simp: Let_def Some)
      show ?thesis unfolding c wt by (auto simp: arrive_def lookup_result_def simp del: walk_to.simps)
    qed
  qed
qed

lemma cstr_middle: "0 \<notin> set c \<Longrightarrow> cstr (pre @ c @ 0 # Y) (length pre) = c \<and> terminated (pre @ c @ 0 # Y) (length pre)"
  unfolding cstr_def terminated_def by (simp, subst takeWhile_append2, auto)

lemma lookup_comps_ok:
  assumes ok: "fs_ok fuel root w"
  shows "ready v w \<Longrightarrow> \<forall>c \<in> set cs. 0 \<notin> set c \<Longrightarrow> cs \<noteq> [] \<longrightarrow> want_last \<longrightarrow> fits (last cs) \<Longrightarrow>
     walk_to fuel w root flags want_dir v cs \<noteq> Odd \<Longrightarrow>
     lookup_comps fuel lookup flags want_dir want_last (pre @ layout cs @ X) (length cs) (length pre) v (hold v w) =
       Inr (lookup_result want_last w (last cs) (walk_to fuel w root flags want_dir v cs))"
proof (induction cs arbitrary: v pre)
  case Nil
  then show ?case using put_hold [OF Nil(1)] by (simp add: lookup_result_def)
next
  case (Cons c cs)
  let ?b = "pre @ layout (c # cs) @ X"
  have b: "cstr ?b (length pre) = c" "terminated ?b (length pre)"
    using cstr_middle [of c pre "layout cs @ X"] Cons.prems(2) by simp_all
  obtain out where out: "comp_to fuel w root flags want_dir want_last (cs = []) c v = Some out"
     "case out of
        Stop e u l w' \<Rightarrow> (e, u, l, w') = lookup_result want_last w (last (c # cs)) (walk_to fuel w root flags want_dir v (c # cs))
      | Go r w' \<Rightarrow> cs \<noteq> [] \<and> walk_to fuel w root flags want_dir v (c # cs) = walk_to fuel w root flags want_dir r cs"
    using walk_comp [OF Cons.prems(4)] by blast
  have "cs = [] \<longrightarrow> want_last \<longrightarrow> fits (cstr ?b (length pre))" using Cons.prems(3) unfolding b(1) by auto
  note comp = lookup_comp_ok [OF ok Cons.prems(1) b(2) this, of flags want_dir out, unfolded b(1), OF out(1)]
  have len: "(length cs = 0) = (cs = [])" by simp
  show ?case
  proof (cases out)
    case (Stop e u l w')
    then show ?thesis using comp(1) out(2) by (simp add: len del: walk_to.simps)
  next
    case (Go r w')
    have r: "ready r w" "w' = hold r w" using comp(2) [OF Go] by simp_all
    have cs: "cs \<noteq> []" "walk_to fuel w root flags want_dir v (c # cs) = walk_to fuel w root flags want_dir r cs"
      using out(2) Go by (simp_all del: walk_to.simps)
    have "lookup_comps fuel lookup flags want_dir want_last ((pre @ c @ [0]) @ layout cs @ X) (length cs) (length (pre @ c @ [0])) r (hold r w) =
       Inr (lookup_result want_last w (last cs) (walk_to fuel w root flags want_dir r cs))"
      by (rule Cons.IH [OF r(1)]) (use Cons.prems(2-4) cs in \<open>simp_all del: walk_to.simps\<close>)
    then show ?thesis
      using comp(1) Go r(2) cs b strlen_eq [OF b(2)] by (simp add: len del: walk_to.simps)
  qed
qed

section \<open>The whole lookup\<close>

definition handed :: "nat option \<Rightarrow> world \<Rightarrow> world" where
  "handed cwd w = (case cwd of None \<Rightarrow> w | Some c \<Rightarrow> upd c inc w)"

definition start_of :: "nat \<Rightarrow> world \<Rightarrow> buf \<Rightarrow> nat option \<Rightarrow> nat" where
  "start_of root w s cwd = (if s ! 0 = SLASH then root else case cwd of Some c \<Rightarrow> c | None \<Rightarrow> the (w_cwd w))"

definition path_to :: "nat \<Rightarrow> world \<Rightarrow> nat \<Rightarrow> u32 \<Rightarrow> nat \<Rightarrow> buf \<Rightarrow> outcome" where
  "path_to fuel w root flags v s =
     (if s = [SLASH] then Found v
      else if s = [DOT] then (if type_of w v = Some VDIR then Found v else Failed YAK_NODIR)
      else walk_to fuel w root flags (last s = SLASH) v (components s))"

definition last_comp :: "buf \<Rightarrow> buf" where
  "last_comp s = (if s = [SLASH] \<or> s = [DOT] then s else last (components s))"

text \<open>The caller may start somewhere.\<close>

definition may_start :: "nat \<Rightarrow> world \<Rightarrow> buf \<Rightarrow> nat option \<Rightarrow> bool" where
  "may_start root w s cwd \<longleftrightarrow> type_of w root = Some VDIR \<and> ready root w \<and>
     (case cwd of Some c \<Rightarrow> ready c w | None \<Rightarrow> s ! 0 = SLASH \<or> (\<exists>c. w_cwd w = Some c \<and> ready c w))"

lemma inc_ref: "ready v w \<Longrightarrow> vn_ref (Some v) w = Inr (upd v inc w)"
  unfolding ready_def by (elim exE conjE, rule ref_ok, assumption, simp)

lemma lookup_start_ok:
  assumes ok: "fs_ok fuel root w" and st: "may_start root w s cwd"
  shows "lookup_start fuel (s ! 0 = SLASH) cwd (handed cwd w) = Inr (start_of root w s cwd, upd (start_of root w s cwd) inc w)"
    "ready (start_of root w s cwd) w"
proof -
  have root: "resolve fuel (Some (w_root w)) w = Inr root" using ok by (simp add: fs_ok_def)
  show "ready (start_of root w s cwd) w"
    using st by (auto simp: may_start_def start_of_def split: option.splits if_splits)
  show "lookup_start fuel (s ! 0 = SLASH) cwd (handed cwd w) = Inr (start_of root w s cwd, upd (start_of root w s cwd) inc w)"
  proof (cases "s ! 0 = SLASH")
    case False
    then show ?thesis
      using st inc_ref by (auto simp: lookup_start_def start_of_def may_start_def handed_def process_getcwd_def split: option.splits)
  next
    case abs: True
    have rr: "ready root w" using st by (simp add: may_start_def)
    show ?thesis
    proof (cases cwd)
      case None
      then show ?thesis using abs root inc_ref [OF rr] by (simp add: lookup_start_def start_of_def handed_def vfs_getroot_def)
    next
      case (Some c)
      have rc: "ready c w" using st Some by (simp add: may_start_def)
      let ?w = "upd c inc w"
      have al: "alike w ?w" by (intro alike_upd alike_refl) (simp add: still_def)
      have res: "resolve fuel (Some (w_root ?w)) ?w = Inr root" using root resolve_alike [OF al] by simp
      obtain rn where rn: "w_vns w root = Some rn" "vn_refcnt rn + 3 < 2 ^ 64" using rr by (auto simp: ready_def)
      obtain cn where cn: "w_vns w c = Some cn" using rc by (auto simp: ready_def)
      have ref: "vn_ref (Some root) ?w = Inr (upd root inc ?w)"
        by (rule ref_ok [of _ _ "if root = c then inc rn else rn"]) (use rn in auto)
      have swap: "upd root inc ?w = upd c inc (upd root inc w)"
        by (cases "root = c") (simp_all add: upd_commute)
      have "vn_deref (Some c) (upd c inc (upd root inc w)) = Inr (upd root inc w)"
        by (rule deref_inc [of _ _ "if c = root then inc cn else cn"]) (use cn in auto)
      then show ?thesis using Some abs res ref swap by (simp add: lookup_start_def start_of_def handed_def vfs_getroot_def)
    qed
  qed
qed

lemma lock_inc:
  assumes "ready v w"
  shows "VOP_LOCK (Some v) (upd v inc w) = Inr (hold v w)"
  using ref_lock [OF assms] inc_ref [OF assms] by simp

lemma short_fits: "fits [c]"
  by (simp add: fits_def kmalloc_usable_def kmalloc_sizes_def)

lemma vfs_lookup_ok:
  assumes ok: "fs_ok fuel root w" and st: "may_start root w s cwd"
    and b: "terminated b 0" "cstr b 0 = s" "s \<noteq> []"
    and plain: "path_to fuel w root flags (start_of root w s cwd) s \<noteq> Odd"
    and last: "want_last \<longrightarrow> components s \<noteq> [] \<longrightarrow> fits (last (components s))"
  shows "vfs_lookup_path (Suc fuel) (Some b) cwd flags want_last out (handed cwd w) =
     Inr (lookup_result want_last w (last_comp s) (path_to fuel w root flags (start_of root w s cwd) s))"
proof -
  let ?v = "start_of root w s cwd" and ?n = "length s"
  note start = lookup_start_ok [OF ok st]
  have kz: "w_kz w = []" using ok by (simp add: fs_ok_def)
  have b0: "ld b 0 = Inr (s ! 0)" "s ! 0 \<noteq> 0"
  proof -
    have "s = b ! 0 # cstr b (Suc 0)" "b ! 0 \<noteq> 0" using cstr_unfold [OF b(1)] b(2,3) by (auto split: if_splits)
    then have "s ! 0 = b ! 0" "b ! 0 \<noteq> 0" by simp_all
    then show "ld b 0 = Inr (s ! 0)" "s ! 0 \<noteq> 0" using terminated_less [OF b(1)] by simp_all
  qed
  have len: "strlen b 0 = Inr ?n" using strlen_eq [OF b(1)] b(2) by simp
  have fit: "?n + 1 \<le> length b" using cstr_fits [OF b(1)] b(2) by simp
  have pre: "take (?n + 1) b = s @ [0]" using cstr_take_drop [OF b(1)] b(2) by simp
  have b1: "ld b (?n - 1) = Inr (last s)"
  proof -
    have "b ! (?n - 1) = take (?n + 1) b ! (?n - 1)" using b(3) by simp
    also have "\<dots> = last s" unfolding pre using b(3) by (simp add: nth_append last_conv_nth)
    finally show ?thesis using fit by simp
  qed
  let ?blk = "replicate (kmalloc_usable (?n + 1)) (w_junk w)"
  obtain J where cp: "memcpy ?blk 0 b 0 (?n + 1) = Inr (s @ [0] @ J)"
    using fit kmalloc_usable_le [of "?n + 1"] pre by (auto simp: mem_simps)
  have s0: "0 \<notin> set s" using b(2) unfolding cstr_def by (auto dest: set_takeWhileD)
  have cc: "cstr (s @ [0] @ J) 0 = s" "terminated (s @ [0] @ J) 0" using cstr_middle [OF s0, of "[]" J] by simp_all
  obtain X where sp: "split_path (s @ [0] @ J) = Inr (length (components s), layout (components s) @ X)"
    using split_path_ok [OF cc(2)] cc(1) by auto
  obtain vn where vn: "w_vns w ?v = Some vn" using ready_vnode [OF start(2)] by blast
  note hv = hold_vnode [OF vn]
  have one: "?n = 1 \<and> s ! 0 = x \<longleftrightarrow> s = [x]" for x by (cases s) auto
  have ln: "last_name want_last [x, 0] 0 (hold ?v w) = Inr (last_of want_last w [x], hold ?v w)" if "x \<noteq> 0" for x
    using last_name_ok [of "[x, 0]" 0 want_last "hold ?v w"] that kz short_fits [of x]
    by (simp add: cstr_def terminated_def last_of_def name_copy_def hold_def)
  have run: "vfs_lookup_path (Suc fuel) (Some b) cwd flags want_last out (handed cwd w) =
      (if s = [SLASH] then
         bindR (last_name want_last [SLASH, 0] 0 (hold ?v w)) (\<lambda>(last, w4).
           ensure (vn_type vn = VDIR) AssertFail (Inr (YAK_SUCCESS, Some ?v, last, w4)))
       else if s = [DOT] then
         (if vn_type vn \<noteq> VDIR then bindR (vn_put (Some ?v) (hold ?v w)) (\<lambda>w4. Inr (YAK_NODIR, None, None, w4))
          else bindR (last_name want_last [DOT, 0] 0 (hold ?v w)) (\<lambda>(last, w4). Inr (YAK_SUCCESS, Some ?v, last, w4)))
       else lookup_comps fuel (vfs_lookup_path fuel) flags (last s = SLASH) want_last (layout (components s) @ X)
              (length (components s)) 0 ?v (hold ?v w))"
    using b0 len b1 start(1) kz cp sp lock_inc [OF start(2)] hv
    by (simp add: one [symmetric] del: One_nat_def)
  show ?thesis
  proof (cases "s = [SLASH]")
    case True
    then have "?v = root" by (simp add: start_of_def)
    then have "vn_type vn = VDIR" using st vn by (simp add: may_start_def type_of_def)
    then show ?thesis using run True ln [of SLASH] by (simp add: path_to_def lookup_result_def last_comp_def SLASH_def)
  next
    case ns: False
    show ?thesis
    proof (cases "s = [DOT]")
      case True
      then show ?thesis
        using run ns ln [of DOT] put_hold [OF start(2)] vn
        by (auto simp: path_to_def lookup_result_def last_comp_def type_of_def DOT_def SLASH_def)
    next
      case False
      have chars: "\<forall>c \<in> set (components s). 0 \<notin> set c" using components_chars s0 by blast
      have odd: "walk_to fuel w root flags (last s = SLASH) ?v (components s) \<noteq> Odd"
        using plain ns False by (simp add: path_to_def)
      have "components s \<noteq> [] \<longrightarrow> want_last \<longrightarrow> fits (last (components s))" using last by blast
      note comps = lookup_comps_ok [OF ok start(2) chars this odd, of "vfs_lookup_path fuel" "[]" X]
      show ?thesis using run ns False comps by (simp add: path_to_def last_comp_def)
    qed
  qed
qed

end
