(* ===== verification/TmpfsFacts.thy ===== *)
theory TmpfsFacts
  imports PathLookup
begin

text \<open>
  What the in-memory file system does when memory suffices: \<open>alloc_node\<close> makes a node and nothing else,
  \<open>tmpfs_create\<close> enters it under a new name and changes nothing when the name exists.
\<close>

unbundle bit_operations_syntax

section \<open>Tables of children\<close>

lemma children_set_ok:
  assumes "w_vns w v = Some vn" "ht_inv (tn_children vn)" "w_kz w = []"
  shows "\<exists>t. children_set v key u ov w =
      Inr (if ht_map (tn_children vn) key \<noteq> None \<and> \<not> ov then YAK_EXISTS else YAK_SUCCESS, put_vnode v (vn\<lparr>tn_children := t\<rparr>) w) \<and>
     ht_inv t \<and>
     ht_map t = (if ht_map (tn_children vn) key \<noteq> None \<and> \<not> ov then ht_map (tn_children vn)
                 else (ht_map (tn_children vn))(key \<mapsto> word_of_nat u))"
proof -
  obtain t where "ht_set True True (tn_children vn) key (length key) (word_of_nat u) ov =
      Inr (if ht_map (tn_children vn) key \<noteq> None \<and> \<not> ov then YAK_EXISTS else YAK_SUCCESS, t)" "ht_inv t"
     "ht_map t = (if ht_map (tn_children vn) key \<noteq> None \<and> \<not> ov then ht_map (tn_children vn)
                 else (ht_map (tn_children vn))(key \<mapsto> word_of_nat u))"
    using ht_set_ok [OF assms(2), of True key "word_of_nat u" ov] by auto
  then show ?thesis using assms by (intro exI [of _ t]) (simp add: children_set_def)
qed

lemma children_get_ok:
  assumes "ht_inv (tn_children vn)" "ht_map (tn_children vn) key \<noteq> Some 0"
  shows "children_get vn key = Inr (map_option unat (ht_map (tn_children vn) key))"
  using ht_get_ok [OF assms(1), of key] assms(2) by (auto simp: children_get_def split: option.splits)

lemma put_put [simp]: "put_vnode v a (put_vnode v b w) = put_vnode v a w"
  by (simp add: put_vnode_def)

lemma fresh_children: "ht_inv (ht_init ht_hash_str ht_eq_str)" "ht_map (ht_init ht_hash_str ht_eq_str) k = None"
  using ht_init_ok [OF eq_ok_str] by simp_all

section \<open>A new node\<close>

definition children_map :: "vnode \<Rightarrow> buf \<Rightarrow> nat option" where
  "children_map vn c = map_option unat (ht_map (tn_children vn) c)"

text \<open>What \<open>alloc_node\<close> leaves: everything but the new node, the instance's counter and the new object.\<close>

definition only_new :: "nat \<Rightarrow> world \<Rightarrow> world \<Rightarrow> bool" where
  "only_new v w w' \<longleftrightarrow> (\<forall>u. u \<noteq> v \<longrightarrow> w_vns w' u = w_vns w u) \<and> w_kz w' = w_kz w \<and> w_junk w' = w_junk w \<and>
     w_now w' = w_now w \<and> w_root w' = w_root w \<and> w_cwd w' = w_cwd w \<and> w_phys w' = w_phys w \<and> w_filesystems w' = w_filesystems w \<and>
     v < w_next w'"

lemma alloc_node_ok:
  assumes fs: "w_fss w fs = Some t" and kz: "w_kz w = []" and small: "w_next w < 2 ^ 64"
  shows "\<exists>vn w'. alloc_node (Some fs) type w = Inr (YAK_SUCCESS, Some (w_next w), w') \<and> only_new (w_next w) w w' \<and>
     w_vns w' (w_next w) = Some vn \<and> vn_ops vn = tmpfs_vn_op \<and> vn_type vn = type \<and> vn_refcnt vn = 1 \<and> \<not> vn_locked vn \<and>
     vn_vfs vn = Some fs \<and> vn_mounted_vfs vn = None \<and> vn_node_covered vn = None \<and> vn_filesize vn = 0 \<and>
     va_inode (tn_vattr vn) = seq_ino t \<and> ht_inv (tn_children vn) \<and>
     ht_map (tn_children vn) = (if type = VDIR then [[0x2E] \<mapsto> word_of_nat (w_next w)] else Map.empty) \<and>
     w_fss w' = (w_fss w)(fs \<mapsto> t\<lparr>seq_ino := seq_ino t + 1\<rparr>) \<and>
     (if type = VREG then \<exists>oid. vn_vobj vn = Some oid \<and> w_next w < oid \<and> oid < w_next w' \<and>
         w_objs w' = (w_objs w)(oid \<mapsto> vm_object_common_init anon_pagerops)
      else vn_vobj vn = None \<and> w_objs w' = w_objs w)"
proof -
  let ?v = "w_next w"
  let ?blank = "vnode_init (Some fs) tmpfs_vn_op type (ht_init ht_hash_str ht_eq_str)"
  let ?w1 = "put_vnode ?v ?blank (w\<lparr>w_next := ?v + 1\<rparr>)"
  have b: "w_vns ?w1 ?v = Some ?blank" "tn_children ?blank = ht_init ht_hash_str ht_eq_str" "w_kz ?w1 = []"
    using kz by (simp_all add: vnode_init_def)
  have inv: "ht_inv (tn_children ?blank)" "ht_map (tn_children ?blank) = Map.empty"
    using fresh_children by (simp_all add: vnode_init_def ext)
  show ?thesis
  proof (cases "type = VDIR")
    case True
    obtain tb where tb: "children_set ?v [0x2E] ?v True ?w1 = Inr (YAK_SUCCESS, put_vnode ?v (?blank\<lparr>tn_children := tb\<rparr>) ?w1)"
        "ht_inv tb" "ht_map tb = [[0x2E] \<mapsto> word_of_nat ?v]"
      using children_set_ok [OF b(1) inv(1) b(3), of "[0x2E]" ?v True] unfolding inv(2) by auto
    let ?vn = "?blank\<lparr>tn_children := tb, tn_name := None, tn_name_len := 0,
      tn_vattr := (tn_vattr ?blank)\<lparr>va_inode := seq_ino t, va_block_size := 4096\<rparr>\<rparr>"
    let ?w = "(put_vnode ?v ?vn ?w1)\<lparr>w_fss := (w_fss ?w1)(fs \<mapsto> t\<lparr>seq_ino := seq_ino t + 1\<rparr>)\<rparr>"
    have "tmpfs_init_node (Some fs) ?v type (w\<lparr>w_next := ?v + 1\<rparr>) = Inr (YAK_SUCCESS, ?w)"
      unfolding tmpfs_init_node_def using tb(1) fs True by (simp add: Let_def)
    then have "alloc_node (Some fs) type w = Inr (YAK_SUCCESS, Some ?v, ?w)" using kz by (simp add: alloc_node_def Let_def)
    moreover have "only_new ?v w ?w" by (simp add: only_new_def)
    ultimately show ?thesis using True tb(2,3)
      by (intro exI [of _ ?vn] exI [of _ ?w]) (simp add: vnode_init_def)
  next
    case nd: False
    show ?thesis
    proof (cases "type = VREG")
      case True
      let ?o = "?v + 1"
      let ?vn = "?blank\<lparr>vn_filesize := 0, vn_vobj := Some ?o, tn_name := None, tn_name_len := 0,
        tn_vattr := (tn_vattr ?blank)\<lparr>va_inode := seq_ino t, va_block_size := 4096\<rparr>\<rparr>"
      let ?w = "(put_vnode ?v ?vn (?w1\<lparr>w_objs := (w_objs w)(?o \<mapsto> vm_object_common_init anon_pagerops), w_next := ?o + 1\<rparr>))
        \<lparr>w_fss := (w_fss ?w1)(fs \<mapsto> t\<lparr>seq_ino := seq_ino t + 1\<rparr>)\<rparr>"
      have "tmpfs_init_node (Some fs) ?v type (w\<lparr>w_next := ?v + 1\<rparr>) = Inr (YAK_SUCCESS, ?w)"
        using fs True kz by (simp add: tmpfs_init_node_def Let_def vm_aobj_create_def put_vnode_def)
      then have "alloc_node (Some fs) type w = Inr (YAK_SUCCESS, Some ?v, ?w)" using kz by (simp add: alloc_node_def Let_def)
      moreover have "only_new ?v w ?w" by (simp add: only_new_def)
      ultimately show ?thesis using True inv
        by (intro exI [of _ ?vn] exI [of _ ?w]) (simp add: vnode_init_def)
    next
      case False
      let ?vn = "?blank\<lparr>tn_name := None, tn_name_len := 0,
        tn_vattr := (tn_vattr ?blank)\<lparr>va_inode := seq_ino t, va_block_size := 4096\<rparr>\<rparr>"
      let ?w = "(put_vnode ?v ?vn ?w1)\<lparr>w_fss := (w_fss ?w1)(fs \<mapsto> t\<lparr>seq_ino := seq_ino t + 1\<rparr>)\<rparr>"
      have "tmpfs_init_node (Some fs) ?v type (w\<lparr>w_next := ?v + 1\<rparr>) = Inr (YAK_SUCCESS, ?w)"
        using fs nd False by (simp add: tmpfs_init_node_def Let_def)
      then have "alloc_node (Some fs) type w = Inr (YAK_SUCCESS, Some ?v, ?w)" using kz by (simp add: alloc_node_def Let_def)
      moreover have "only_new ?v w ?w" by (simp add: only_new_def)
      ultimately show ?thesis using nd False inv
        by (intro exI [of _ ?vn] exI [of _ ?w]) (simp add: vnode_init_def)
    qed
  qed
qed

section \<open>A new name\<close>

lemma name_of: "terminated b p \<Longrightarrow> take (length (cstr b p)) (drop p b) = cstr b p"
  unfolding cstr_def by (simp add: takeWhile_eq_take [symmetric])

lemma strndup_room:
  assumes "terminated b p" "length (cstr b p) < n"
  shows "\<exists>c. strndup (\<lambda>_. Some (replicate n j)) b p (length (cstr b p)) = Inr (Some c)"
  using assms cstr_fits [OF assms(1)] by (simp add: strndup_def mem_simps)

lemma unat_nat: "n < 2 ^ 64 \<Longrightarrow> unat (word_of_nat n :: u64) = n"
  by (simp add: unsigned_of_nat take_bit_nat_eq_self)

text \<open>A name the copy of which stays in its block.\<close>

definition name_fits :: "buf \<Rightarrow> bool" where
  "name_fits c \<longleftrightarrow> length c < kmalloc_usable (length c)"

text \<open>A directory a name can be entered in: a node of an instance, room for the new node.\<close>

definition can_create :: "world \<Rightarrow> nat \<Rightarrow> vnode \<Rightarrow> bool" where
  "can_create w pv pn \<longleftrightarrow> w_vns w pv = Some pn \<and> pv < 2 ^ 64 \<and> ht_inv (tn_children pn) \<and>
     (\<forall>c. ht_map (tn_children pn) c \<noteq> Some 0) \<and> (\<exists>fs t. vn_vfs pn = Some fs \<and> w_fss w fs = Some t) \<and>
     w_kz w = [] \<and> w_next w < 2 ^ 64 \<and> w_vns w (w_next w) = None"

text \<open>\<open>created\<close>: the new node and its entry are the only difference.\<close>

definition created_nodes :: "world \<Rightarrow> nat \<Rightarrow> vtype \<Rightarrow> buf \<Rightarrow> vnode \<Rightarrow> vnode \<Rightarrow> vnode \<Rightarrow> world \<Rightarrow> bool" where
  "created_nodes w pv type c pn pn' vn w' \<longleftrightarrow> w_vns w pv = Some pn \<and> w_vns w' pv = Some pn' \<and> w_vns w' (w_next w) = Some vn \<and>
     (\<forall>u. u \<noteq> pv \<longrightarrow> u \<noteq> w_next w \<longrightarrow> w_vns w' u = w_vns w u) \<and>
     ht_inv (tn_children pn') \<and> children_map pn' = (children_map pn)(c \<mapsto> w_next w) \<and>
     pn' = pn\<lparr>tn_children := tn_children pn', tn_vattr := (tn_vattr pn)
       \<lparr>va_nlinks := va_nlinks (tn_vattr pn) + (if type = VDIR then 1 else 0)\<rparr>\<rparr> \<and>
     vn_ops vn = tmpfs_vn_op \<and> vn_type vn = type \<and> vn_vfs vn = vn_vfs pn \<and> vn_refcnt vn = 1 \<and> \<not> vn_locked vn \<and>
     vn_mounted_vfs vn = None \<and> vn_filesize vn = 0 \<and> va_nlinks (tn_vattr vn) = (if type = VDIR then 2 else 1) \<and>
     ht_inv (tn_children vn) \<and>
     children_map vn = (if type = VDIR then [[DOT] \<mapsto> w_next w, [DOT, DOT] \<mapsto> pv] else Map.empty) \<and>
     vn_node_covered vn = None \<and> w_root w' = w_root w \<and> w_cwd w' = w_cwd w \<and> w_junk w' = w_junk w \<and> w_kz w' = [] \<and>
     w_next w < w_next w' \<and> (\<forall>f. map_option fs_root (w_fss w' f) = map_option fs_root (w_fss w f))"

definition created :: "world \<Rightarrow> nat \<Rightarrow> vtype \<Rightarrow> buf \<Rightarrow> world \<Rightarrow> bool" where
  "created w pv type c w' \<longleftrightarrow> (\<exists>pn pn' vn. created_nodes w pv type c pn pn' vn w')"

lemma tmpfs_create_exists:
  assumes "can_create w pv pn" "terminated b p" "children_map pn (cstr b p) \<noteq> None"
  shows "tmpfs_create (Some pv) type b p attr out w = Inr (YAK_EXISTS, out, w)"
  using assms children_get_ok [of pn "cstr b p"]
  by (auto simp: tmpfs_create_def can_create_def children_map_def name_of mem_simps)

lemma setattr_fields:
  "va_nlinks (set_attr now what attr a) = va_nlinks a" "va_inode (set_attr now what attr a) = va_inode a"
  by (simp_all add: set_attr_def Let_def)

lemma tmpfs_create_new:
  assumes can: "can_create w pv pn" and b: "terminated b p" "name_fits (cstr b p)"
    and new: "children_map pn (cstr b p) = None"
  shows "\<exists>w'. tmpfs_create (Some pv) type b p attr out w = Inr (YAK_SUCCESS, Some (w_next w), w') \<and>
     created w pv type (cstr b p) w'"
proof -
  let ?v = "w_next w" and ?c = "cstr b p"
  obtain fs t where fs: "vn_vfs pn = Some fs" "w_fss w fs = Some t" using can by (auto simp: can_create_def)
  have pn: "w_vns w pv = Some pn" "pv < 2 ^ 64" "ht_inv (tn_children pn)" "w_kz w = []" "?v < 2 ^ 64" "w_vns w ?v = None"
    using can by (auto simp: can_create_def)
  then have ne: "pv \<noteq> ?v" by auto
  have none: "ht_map (tn_children pn) ?c = None" using new by (simp add: children_map_def)
  have get: "children_get pn ?c = Inr None" using children_get_ok [OF pn(3), of ?c] none by simp
  obtain vn w1 where al: "alloc_node (Some fs) type w = Inr (YAK_SUCCESS, Some ?v, w1)" and on: "only_new ?v w w1"
    and vn: "w_vns w1 ?v = Some vn" "vn_ops vn = tmpfs_vn_op" "vn_type vn = type" "vn_refcnt vn = 1" "\<not> vn_locked vn"
      "vn_vfs vn = Some fs" "vn_mounted_vfs vn = None" "vn_filesize vn = 0" "ht_inv (tn_children vn)"
      "ht_map (tn_children vn) = (if type = VDIR then [[0x2E] \<mapsto> word_of_nat ?v] else Map.empty)"
      "vn_node_covered vn = None" "w_fss w1 = (w_fss w)(fs \<mapsto> t\<lparr>seq_ino := seq_ino t + 1\<rparr>)"
    using alloc_node_ok [OF fs(2) pn(4,5), of type] by blast
  have w1: "w_kz w1 = []" "w_vns w1 pv = Some pn" using on pn ne by (simp_all add: only_new_def)
  obtain copy where copy: "strndup (\<lambda>_. Some (replicate (kmalloc_usable (length ?c)) (w_junk w1))) b p (length ?c) = Inr (Some copy)"
    using strndup_room [OF b(1)] b(2) unfolding name_fits_def by blast
  let ?vn = "vn\<lparr>tn_name_len := length ?c, tn_name := Some copy,
     tn_vattr := set_attr (w_now w1) (SETATTR_ALL OR SETATTR_BTIME) attr ((tn_vattr vn)\<lparr>va_nlinks := (if type = VDIR then 2 else 1)\<rparr>)\<rparr>"
  let ?w4 = "put_vnode ?v ?vn w1"
  define rest where "rest w4 = bindR (if type = VDIR then
                      bindR (children_set ?v [0x2E, 0x2E] pv True w4) (\<lambda>(rv2, w5).
                        if IS_ERR rv2 then bindR (free_node ?v w5) (\<lambda>w6. Inr (rv2, w6))
                        else bindR (add_nlinks pv 1 w5) (\<lambda>w6. Inr (YAK_SUCCESS, w6)))
                    else Inr (YAK_SUCCESS, w4)) (\<lambda>(rv3, w7).
               if IS_ERR rv3 then Inr (rv3, out, w7)
               else
                 bindR (children_set pv ?c ?v False w7) (\<lambda>(rv4, w8).
                   if IS_ERR rv4 then
                     bindR (free_node ?v w8) (\<lambda>w9. bindR (add_nlinks pv (- 1) w9) (\<lambda>w10. Inr (rv4, out, w10)))
                   else Inr (YAK_SUCCESS, Some ?v, w8)))" for w4
  have run: "tmpfs_create (Some pv) type b p attr out w = rest ?w4"
    using pn(1) get al copy fs w1 vn(1) b(1)
    by (simp add: tmpfs_create_def rest_def name_of mem_simps tmpfs_setattr_def Let_def cong: if_cong)
  obtain vn' pn1 w7 where mid: "bindR (if type = VDIR then
                      bindR (children_set ?v [0x2E, 0x2E] pv True ?w4) (\<lambda>(rv2, w5).
                        if IS_ERR rv2 then bindR (free_node ?v w5) (\<lambda>w6. Inr (rv2, w6))
                        else bindR (add_nlinks pv 1 w5) (\<lambda>w6. Inr (YAK_SUCCESS, w6)))
                    else Inr (YAK_SUCCESS, ?w4)) k = k (YAK_SUCCESS, w7)"
      "w7 = put_vnode pv pn1 (put_vnode ?v vn' w1)" "vn' = ?vn\<lparr>tn_children := tn_children vn'\<rparr>" "ht_inv (tn_children vn')"
      "children_map vn' = (if type = VDIR then [[DOT] \<mapsto> w_next w, [DOT, DOT] \<mapsto> pv] else Map.empty)"
      "pn1 = pn\<lparr>tn_vattr := (tn_vattr pn)\<lparr>va_nlinks := va_nlinks (tn_vattr pn) + (if type = VDIR then 1 else 0)\<rparr>\<rparr>"
      for k :: "status \<times> world \<Rightarrow> (status \<times> nat option \<times> world) res"
  proof (cases "type = VDIR")
    case True
    have "w_vns ?w4 ?v = Some ?vn" "ht_inv (tn_children ?vn)" "w_kz ?w4 = []" using vn w1 by simp_all
    from children_set_ok [OF this, of "[0x2E, 0x2E]" pv True]
    obtain tb where tb: "children_set ?v [0x2E, 0x2E] pv True ?w4 = Inr (YAK_SUCCESS, put_vnode ?v (?vn\<lparr>tn_children := tb\<rparr>) w1)"
        "ht_inv tb" "ht_map tb = (ht_map (tn_children vn))([0x2E, 0x2E] \<mapsto> word_of_nat pv)" by auto
    show ?thesis
      by (rule that [of _ _ "?vn\<lparr>tn_children := tb\<rparr>"])
        (use True tb w1 ne vn(10) pn in \<open>auto simp: add_nlinks_def children_map_def unat_nat DOT_def fun_eq_iff simp del: One_nat_def\<close>)
  next
    case False
    have "put_vnode pv pn ?w4 = ?w4" using w1(2) ne by (simp add: put_vnode_def fun_upd_idem fun_upd_twist)
    then show ?thesis
      by (intro that [of _ _ ?vn]) (use False vn(9,10) in \<open>auto simp: children_map_def fun_eq_iff\<close>)
  qed
  have w7: "w_vns w7 pv = Some pn1" "ht_inv (tn_children pn1)" "w_kz w7 = []" and same: "tn_children pn1 = tn_children pn"
    using mid(2,6) pn(3) w1(1) by simp_all
  obtain tb where tb: "children_set pv ?c ?v False w7 = Inr (YAK_SUCCESS, put_vnode pv (pn1\<lparr>tn_children := tb\<rparr>) w7)" "ht_inv tb"
      "ht_map tb = (ht_map (tn_children pn))(?c \<mapsto> word_of_nat ?v)"
    using children_set_ok [OF w7, of ?c ?v False] none unfolding same by auto
  let ?w8 = "put_vnode pv (pn1\<lparr>tn_children := tb\<rparr>) w7"
  have "rest ?w4 = Inr (YAK_SUCCESS, Some ?v, ?w8)" unfolding rest_def mid(1) using tb(1) by simp
  moreover have "created w pv type ?c ?w8"
    unfolding created_def created_nodes_def
  proof (intro exI conjI)
    show "w_vns w pv = Some pn" by (rule pn(1))
    show "w_vns ?w8 pv = Some (pn1\<lparr>tn_children := tb\<rparr>)" by simp
    show "w_vns ?w8 ?v = Some vn'" using mid(2) ne by simp
    show "\<forall>u. u \<noteq> pv \<longrightarrow> u \<noteq> ?v \<longrightarrow> w_vns ?w8 u = w_vns w u" using mid(2) on by (simp add: only_new_def)
    show "children_map (pn1\<lparr>tn_children := tb\<rparr>) = (children_map pn)(?c \<mapsto> ?v)"
      using tb(3) pn(5) by (auto simp: children_map_def unat_nat fun_eq_iff)
  qed (use mid(2,4,5,6) tb(2) vn fs on pn(4) in \<open>simp_all add: only_new_def mid(3) [THEN arg_cong, of vn_ops]
     mid(3) [THEN arg_cong, of vn_type] mid(3) [THEN arg_cong, of vn_vfs] mid(3) [THEN arg_cong, of vn_refcnt]
     mid(3) [THEN arg_cong, of vn_locked] mid(3) [THEN arg_cong, of vn_mounted_vfs] mid(3) [THEN arg_cong, of vn_filesize]
     mid(3) [THEN arg_cong, of tn_vattr] mid(3) [THEN arg_cong, of vn_node_covered] setattr_fields\<close>)
  ultimately show ?thesis using run by auto
qed

end
