(* ===== verification/PathCreate.thy ===== *)
theory PathCreate
  imports TmpfsFacts
begin

text \<open>
  \<open>vfs_create\<close>: the directory is found by the walk of \<open>PathWalk\<close>, the name is entered, the locks and
  references are as before; the tree is still in order and the walk of the same path now finds the node.
\<close>

unbundle bit_operations_syntax

section \<open>Creating a file by its path\<close>

lemma fits_name: "terminated (name_copy w c) 0 \<Longrightarrow> cstr (name_copy w c) 0 = c \<Longrightarrow> strlen (name_copy w c) 0 = Inr (length c)"
  by (simp add: mem_simps)

lemma can_create_hold:
  "can_create w d pn \<Longrightarrow> can_create (hold d w) d (lck (inc pn))"
  by (auto simp: can_create_def hold_def)

lemma children_map_hold: "children_map (lck (inc pn)) = children_map pn"
  by (simp add: children_map_def fun_eq_iff)

lemma last_comp_chars: "0 \<notin> set s \<Longrightarrow> s \<noteq> [] \<Longrightarrow> components s \<noteq> [] \<or> s = [SLASH] \<or> s = [DOT] \<Longrightarrow> 0 \<notin> set (last_comp s)"
  using components_chars [OF last_in_set, of s] by (auto simp: last_comp_def SLASH_def DOT_def)

lemma components_dot: "components [DOT] = [[DOT]]"
  by (simp add: components_name DOT_def SLASH_def)

lemma created_put:
  assumes can: "can_create w d pn" and cr: "created (hold d w) d type c w1" and dv: "ready d w"
  shows "\<exists>w'. vn_put (Some d) w1 = Inr w' \<and> created w d type c w'"
proof -
  let ?h = "lck (inc pn)"
  have pn: "w_vns w d = Some pn" "w_vns w (w_next w) = None" using can by (simp_all add: can_create_def)
  then have ne: "d \<noteq> w_next w" by auto
  have ops: "vn_ops pn = tmpfs_vn_op" "\<not> vn_locked pn" using dv pn by (auto simp: ready_def)
  have hd: "w_vns (hold d w) d = Some ?h" "w_next (hold d w) = w_next w" using pn(1) by (simp_all add: hold_def)
  obtain pn0 pn' vn where "created_nodes (hold d w) d type c pn0 pn' vn w1" using cr unfolding created_def by blast
  note all = this [unfolded created_nodes_def]
  then have pn0: "pn0 = ?h" using hd(1) by simp
  have c: "w_vns w1 d = Some pn'" "w_vns w1 (w_next w) = Some vn"
      "\<forall>u. u \<noteq> d \<longrightarrow> u \<noteq> w_next w \<longrightarrow> w_vns w1 u = w_vns w u"
      "pn' = ?h\<lparr>tn_children := tn_children pn', tn_vattr := (tn_vattr pn)
       \<lparr>va_nlinks := va_nlinks (tn_vattr pn) + (if type = VDIR then 1 else 0)\<rparr>\<rparr>"
    using all unfolding pn0 hd(2) by (simp_all add: hold_def)
  note cc = all [unfolded pn0 hd(2) children_map_hold]
  have p: "vn_ops pn' = tmpfs_vn_op" "vn_locked pn'" "vn_refcnt pn' = vn_refcnt pn + 1"
    using c(4) [THEN arg_cong, of vn_ops] c(4) [THEN arg_cong, of vn_locked] c(4) [THEN arg_cong, of vn_refcnt] ops by simp_all
  let ?w = "upd d dec (upd d unl w1)"
  have "VOP_UNLOCK (Some d) w1 = Inr (upd d unl w1)" by (rule unlock_ok [OF c(1) p(1,2)])
  moreover have "vn_deref (Some d) (upd d unl w1) = Inr ?w"
    by (rule deref_ok [of _ _ "unl pn'"]) (use c(1) p(3) in simp_all)
  ultimately have "vn_put (Some d) w1 = Inr ?w" by (simp add: vn_put_def)
  moreover have "created w d type c ?w"
    unfolding created_def created_nodes_def
  proof (intro exI conjI)
    show "w_vns w d = Some pn" by (rule pn(1))
    show "w_vns ?w d = Some (dec (unl pn'))" using c(1) by simp
    show "w_vns ?w (w_next w) = Some vn" using c(2) ne by simp
    have "dec (unl pn') = dec (unl (?h\<lparr>tn_children := tn_children pn', tn_vattr := (tn_vattr pn)
       \<lparr>va_nlinks := va_nlinks (tn_vattr pn) + (if type = VDIR then 1 else 0)\<rparr>\<rparr>))" using c(4) by metis
    then show "dec (unl pn') = pn\<lparr>tn_children := tn_children (dec (unl pn')), tn_vattr := (tn_vattr pn)
       \<lparr>va_nlinks := va_nlinks (tn_vattr pn) + (if type = VDIR then 1 else 0)\<rparr>\<rparr>" using ops by simp
    show "children_map (dec (unl pn')) = (children_map pn)(c \<mapsto> w_next w)"
      using cc by (simp add: children_map_def fun_eq_iff)
  qed (use c(3) cc in \<open>simp_all add: hold_def\<close>)
  ultimately show ?thesis by blast
qed

lemma vfs_create_ok:
  assumes ok: "fs_ok fuel root w" and st: "may_start root w s None"
    and b: "terminated b 0" "cstr b 0 = s" "s \<noteq> []"
    and found: "path_to fuel w root VFS_LOOKUP_PARENT (start_of root w s None) s = Found d"
    and c: "last_comp s = c" "fits c" "name_fits c" and can: "can_create w d pn" and ready: "ready d w"
  shows "if children_map pn c \<noteq> None then vfs_create (Suc fuel) (Some b) type attr out w = Inr (YAK_EXISTS, out, w)
    else \<exists>w'. vfs_create (Suc fuel) (Some b) type attr out w = Inr (YAK_SUCCESS, Some (w_next w), w') \<and> created w d type c w'"
proof -
  have s0: "0 \<notin> set s" using b(2) unfolding cstr_def by (auto dest: set_takeWhileD)
  have cs: "components s \<noteq> [] \<or> s = [SLASH] \<or> s = [DOT]" using found by (cases "components s") (auto simp: path_to_def split: if_splits)
  have c0: "0 \<notin> set c" using last_comp_chars [OF s0 b(3) cs] c(1) by simp
  note nc = name_copy_cstr [OF c0, of w, THEN conjunct1] name_copy_cstr [OF c0, of w, THEN conjunct2]
  have "components s \<noteq> [] \<longrightarrow> fits (last (components s))"
    using c short_fits components_dot by (auto simp: last_comp_def split: if_splits)
  then have look: "vfs_lookup_path (Suc fuel) (Some b) None VFS_LOOKUP_PARENT True None w =
      Inr (YAK_SUCCESS, Some d, Some (name_copy w c), hold d w)"
    using vfs_lookup_ok [OF ok st b, of VFS_LOOKUP_PARENT True None] found c(1)
    by (simp add: handed_def lookup_result_def last_of_def del: vfs_lookup_path.simps)
  have pn: "w_vns w d = Some pn" "vn_ops pn = tmpfs_vn_op" using can ready by (auto simp: can_create_def ready_def)
  note canh = can_create_hold [OF can]
  have vop: "VOP_CREATE (Some d) type (name_copy w c) 0 attr None (hold d w) = tmpfs_create (Some d) type (name_copy w c) 0 attr None (hold d w)"
    using pn by (simp add: VOP_CREATE_def hold_vnode)
  show ?thesis
  proof (cases "children_map pn c")
    case (Some u)
    have "tmpfs_create (Some d) type (name_copy w c) 0 attr None (hold d w) = Inr (YAK_EXISTS, None, hold d w)"
      by (rule tmpfs_create_exists [OF canh nc(2)]) (use Some nc(1) children_map_hold in simp)
    then show ?thesis
      using Some look vop put_hold [OF ready] nc by (simp add: vfs_create_def mem_simps del: vfs_lookup_path.simps)
  next
    case None
    obtain w1 where "tmpfs_create (Some d) type (name_copy w c) 0 attr None (hold d w) = Inr (YAK_SUCCESS, Some (w_next w), w1)"
      "created (hold d w) d type c w1"
      using tmpfs_create_new [OF canh nc(2), of type attr None] None nc(1) children_map_hold c(3) by (auto simp: hold_def)
    moreover obtain w' where "vn_put (Some d) w1 = Inr w'" "created w d type c w'"
      using created_put [OF can calculation(2) ready] by blast
    ultimately show ?thesis
      using None look vop nc by (auto simp: vfs_create_def mem_simps simp del: vfs_lookup_path.simps)
  qed
qed

section \<open>The tree with one more entry\<close>

text \<open>\<open>w'\<close> has the nodes and mounts of \<open>w\<close>.\<close>

definition extends :: "world \<Rightarrow> world \<Rightarrow> bool" where
  "extends w w' \<longleftrightarrow> (\<forall>v vn. w_vns w v = Some vn \<longrightarrow> (\<exists>vn'. w_vns w' v = Some vn' \<and> vn_ops vn' = vn_ops vn \<and>
       vn_type vn' = vn_type vn \<and> vn_mounted_vfs vn' = vn_mounted_vfs vn \<and> vn_node_covered vn' = vn_node_covered vn \<and>
       vn_locked vn' = vn_locked vn \<and> vn_refcnt vn' = vn_refcnt vn)) \<and>
     (\<forall>f. map_option fs_root (w_fss w' f) = map_option fs_root (w_fss w f)) \<and> w_root w' = w_root w"

lemma extendsD:
  assumes "extends w w'" "w_vns w v = Some vn"
  obtains vn' where "w_vns w' v = Some vn'" "vn_ops vn' = vn_ops vn" "vn_type vn' = vn_type vn"
    "vn_mounted_vfs vn' = vn_mounted_vfs vn" "vn_node_covered vn' = vn_node_covered vn" "vn_locked vn' = vn_locked vn"
    "vn_refcnt vn' = vn_refcnt vn"
  using assms unfolding extends_def by blast

lemma created_extends:
  assumes "created w d type c w'" "w_vns w (w_next w) = None"
  shows "extends w w'"
proof -
  obtain pn pn' vn where "created_nodes w d type c pn pn' vn w'" using assms(1) by (auto simp: created_def)
  note all = this [unfolded created_nodes_def]
  have p: "vn_ops pn' = vn_ops pn" "vn_type pn' = vn_type pn" "vn_mounted_vfs pn' = vn_mounted_vfs pn"
     "vn_node_covered pn' = vn_node_covered pn" "vn_locked pn' = vn_locked pn" "vn_refcnt pn' = vn_refcnt pn"
  proof -
    have e: "pn' = pn\<lparr>tn_children := tn_children pn', tn_vattr := (tn_vattr pn)
       \<lparr>va_nlinks := va_nlinks (tn_vattr pn) + (if type = VDIR then 1 else 0)\<rparr>\<rparr>" using all by blast
    show "vn_ops pn' = vn_ops pn" "vn_type pn' = vn_type pn" "vn_mounted_vfs pn' = vn_mounted_vfs pn"
     "vn_node_covered pn' = vn_node_covered pn" "vn_locked pn' = vn_locked pn" "vn_refcnt pn' = vn_refcnt pn"
      by (subst e, simp)+
  qed
  show ?thesis
    unfolding extends_def
  proof (intro conjI allI impI)
    fix v un assume v: "w_vns w v = Some un"
    show "\<exists>vn'. w_vns w' v = Some vn' \<and> vn_ops vn' = vn_ops un \<and> vn_type vn' = vn_type un \<and>
       vn_mounted_vfs vn' = vn_mounted_vfs un \<and> vn_node_covered vn' = vn_node_covered un \<and> vn_locked vn' = vn_locked un \<and>
       vn_refcnt vn' = vn_refcnt un"
    proof (cases "v = d")
      case True
      then show ?thesis using all v p by auto
    next
      case False
      have "v \<noteq> w_next w" using v assms(2) by auto
      then show ?thesis using False all v by auto
    qed
  qed (use all in simp_all)
qed

lemma resolve_extends: "extends w w' \<Longrightarrow> resolve fuel vp w = Inr r \<Longrightarrow> resolve fuel vp w' = Inr r"
proof (induction fuel arbitrary: vp)
  case (Suc fuel)
  from Suc.prems(2) obtain v where vp: "vp = Some v" by (cases vp) auto
  obtain vn where vn: "w_vns w v = Some vn" using Suc.prems(2) vp by (cases "w_vns w v") (auto simp: vnode_at_def)
  obtain vn' where vn': "w_vns w' v = Some vn'" "vn_mounted_vfs vn' = vn_mounted_vfs vn"
    using extendsD [OF Suc.prems(1) vn] by metis
  have fr: "map_option fs_root (w_fss w' f) = map_option fs_root (w_fss w f)" for f
    using Suc.prems(1) by (simp add: extends_def)
  have g: "tmpfs_getroot m w' = tmpfs_getroot m w" for m
    using fr [of "the m"] by (cases m; cases "w_fss w (the m)"; cases "w_fss w' (the m)") (auto simp: tmpfs_getroot_def)
  show ?case
  proof (cases "vn_mounted_vfs vn")
    case None
    then show ?thesis using Suc.prems(2) vp vn vn' by simp
  next
    case (Some m)
    then obtain q where "tmpfs_getroot (Some m) w = Inr q" "resolve fuel q w = Inr r"
      using Suc.prems(2) vp vn by (auto simp: bindR_Inr_iff)
    then show ?thesis using Suc.IH [OF Suc.prems(1)] vp vn' Some g by simp
  qed
qed simp

lemma resolve_upward_extends: "extends w w' \<Longrightarrow> resolve_upward fuel v w = Inr r \<Longrightarrow> resolve_upward fuel v w' = Inr r"
proof (induction fuel arbitrary: v)
  case (Suc fuel)
  obtain vn where vn: "w_vns w v = Some vn" using Suc.prems(2) by (cases "w_vns w v") (auto simp: vnode_at_def)
  obtain vn' where vn': "w_vns w' v = Some vn'" "vn_node_covered vn' = vn_node_covered vn"
    using extendsD [OF Suc.prems(1) vn] by metis
  show ?case using Suc vn vn' by (auto split: option.splits)
qed simp

lemma ready_extends: "extends w w' \<Longrightarrow> ready v w \<Longrightarrow> ready v w'"
  unfolding ready_def by (elim exE conjE, erule extendsD, assumption) auto

lemma created_fs_ok:
  assumes ok: "fs_ok fuel root w" and cr: "created w d type c w'" and d: "ready d w" "type_of w d = Some VDIR"
    and num: "w_vns w 0 = None" "0 < w_next w" "w_vns w (w_next w) = None" 
  shows "fs_ok fuel root w'"
proof -
  note ext = created_extends [OF cr num(3)]
  obtain pn pn' vn where "created_nodes w d type c pn pn' vn w'" using cr by (auto simp: created_def)
  note all = this [unfolded created_nodes_def]
  have pn: "w_vns w d = Some pn" "vn_ops pn = tmpfs_vn_op" "vn_type pn = VDIR" "d \<noteq> 0"
    using all d num(1) by (auto simp: ready_def type_of_def intro: ccontr)
  have fuel: "fuel \<noteq> 0" using ok by (cases fuel) (simp_all add: fs_ok_def)
  have new: "w_vns w' (w_next w) = Some vn" "ready (w_next w) w'" "resolve fuel (Some (w_next w)) w' = Inr (w_next w)"
    using all fuel by (auto simp: ready_def gr0_conv_Suc)
  have node: "\<exists>un. w_vns w' u = Some un \<and> vn_ops un = tmpfs_vn_op" if "w_vns w u = Some un" "vn_ops un = tmpfs_vn_op" for u un
    using extendsD [OF ext that(1)] that(2) by metis
  show ?thesis
    unfolding fs_ok_def
  proof (intro conjI allI impI)
    show "w_kz w' = []" using all by simp
    show "resolve fuel (Some (w_root w')) w' = Inr root"
      using resolve_extends [OF ext] ok all by (simp add: fs_ok_def)
  next
    fix v un assume v: "w_vns w' v = Some un" "vn_ops un = tmpfs_vn_op"
    have old: "\<exists>on. w_vns w v = Some on \<and> vn_ops on = tmpfs_vn_op \<and> vn_type on = vn_type un \<and> vn_node_covered on = vn_node_covered un"
      if "v \<noteq> w_next w"
    proof (cases "w_vns w v")
      case None
      then show ?thesis using all that v pn by (cases "v = d") auto
    next
      case (Some on)
      then show ?thesis using extendsD [OF ext Some] v by (metis option.inject)
    qed
    show "ready v w'"
      using new(2) old fs_okD(1) [OF ok] ready_extends [OF ext] by blast
    show "\<exists>r. resolve fuel (Some v) w' = Inr r \<and> ready r w'"
      using new(2,3) old fs_okD(2) [OF ok] ready_extends [OF ext] resolve_extends [OF ext] by blast
    show "\<exists>u. resolve_upward fuel v w' = Inr u \<and> ready u w'" if c: "v \<noteq> root" "vn_node_covered un \<noteq> None"
    proof (cases "v = w_next w")
      case True
      then show ?thesis using v(1) new(1) c(2) all by simp
    next
      case False
      then show ?thesis using old fs_okD(3) [OF ok _ _ c(1)] c(2) ready_extends [OF ext] resolve_upward_extends [OF ext] by metis
    qed
    show "ht_inv (tn_children un)" if "vn_type un = VDIR"
    proof -
      have "v = w_next w \<or> v = d \<or> w_vns w v = Some un" using all v by auto
      then show ?thesis using all v fs_okD(4) [OF ok _ v(2) that] by auto
    qed
    fix k p assume dir: "vn_type un = VDIR" and p: "ht_map (tn_children un) k = Some p"
    have ent: "children_map un k = Some (unat p)" using p by (simp add: children_map_def)
    have zero: "p \<noteq> 0 \<longleftrightarrow> unat p \<noteq> 0" by (simp add: unat_eq_0)
    have rest: "v \<noteq> w_next w \<Longrightarrow> v \<noteq> d \<Longrightarrow> w_vns w v = Some un" using all v(1) by simp
    consider "v = w_next w" | "v \<noteq> w_next w" "v = d" | "v \<noteq> w_next w" "w_vns w v = Some un" using rest by blast
    then have "p \<noteq> 0 \<and> (\<exists>cn. w_vns w' (unat p) = Some cn \<and> vn_ops cn = tmpfs_vn_op)"
    proof cases
      case 1
      have "un = vn" using 1 v(1) new(1) by simp
      then have "type = VDIR" "children_map vn = [[DOT] \<mapsto> w_next w, [DOT, DOT] \<mapsto> d]" using all dir by auto
      then have "unat p = w_next w \<or> unat p = d" using ent \<open>un = vn\<close> by (auto split: if_splits)
      then show ?thesis unfolding zero using num pn(4) all node [OF pn(1,2)] by auto
    next
      case 2
      have "un = pn'" using 2 v(1) all by simp
      then have "children_map un = (children_map pn)(c \<mapsto> w_next w)" using all by blast
      then have "((children_map pn)(c \<mapsto> w_next w)) k = Some (unat p)" using ent by simp
      then consider "unat p = w_next w" | "children_map pn k = Some (unat p)" by (cases "k = c") simp_all
      then show ?thesis
      proof cases
        case 1
        then show ?thesis unfolding zero using num all by auto
      next
        case 2
        then obtain q where "ht_map (tn_children pn) k = Some q" "unat q = unat p" by (auto simp: children_map_def)
        then show ?thesis using fs_okD(5) [OF ok pn(1-3)] node zero by (metis unat_eq_0)
      qed
    next
      case 3
      then show ?thesis using fs_okD(5) [OF ok 3(2) v(2) dir p] node by blast
    qed
    then show "p \<noteq> 0" "\<exists>cn. w_vns w' (unat p) = Some cn \<and> vn_ops cn = tmpfs_vn_op" by blast+
  qed
qed

section \<open>Finding what was created\<close>

lemma entry_children: "w_vns w v = Some vn \<Longrightarrow> entry w v c = children_map vn c"
  by (simp add: entry_def children_map_def)

lemma type_of_extends: "extends w w' \<Longrightarrow> w_vns w v \<noteq> None \<Longrightarrow> type_of w' v = type_of w v"
  by (auto simp: type_of_def elim!: extendsD)

lemma mounted_extends:
  assumes "fs_ok fuel root w" "extends w w'" "ready v w"
  shows "mounted fuel w' v = mounted fuel w v"
proof -
  obtain vn where "w_vns w v = Some vn" "vn_ops vn = tmpfs_vn_op" using ready_vnode [OF assms(3)] by blast
  then obtain r where "resolve fuel (Some v) w = Inr r" using fs_okD(2) [OF assms(1)] by blast
  then show ?thesis using resolve_extends [OF assms(2)] by (simp add: mounted_def)
qed

lemma ready_mounted:
  assumes "fs_ok fuel root w" "ready v w"
  shows "ready (mounted fuel w v) w"
proof -
  obtain vn where vn: "w_vns w v = Some vn" "vn_ops vn = tmpfs_vn_op" using ready_vnode [OF assms(2)] by blast
  show ?thesis using fs_okD(2) [OF assms(1) vn] by (auto simp: mounted_def)
qed

lemma base_of_extends:
  assumes ok: "fs_ok fuel root w" and ext: "extends w w'" and v: "ready v w" "\<not> (c = [DOT, DOT] \<and> v = root)"
  shows "base_of fuel w' v c = base_of fuel w v c \<and> ready (base_of fuel w v c) w"
proof -
  obtain vn where vn: "w_vns w v = Some vn" "vn_ops vn = tmpfs_vn_op" using ready_vnode [OF v(1)] by blast
  obtain vn' where vn': "w_vns w' v = Some vn'" "vn_node_covered vn' = vn_node_covered vn" using extendsD [OF ext vn(1)] by metis
  show ?thesis
  proof (cases "c = [DOT, DOT] \<and> vn_node_covered vn \<noteq> None")
    case True
    then obtain u where "resolve_upward fuel v w = Inr u" "ready u w" using fs_okD(3) [OF ok vn] v(2) by blast
    then show ?thesis using True vn vn' resolve_upward_extends [OF ext] by (simp add: base_of_def top_def)
  next
    case False
    then show ?thesis using vn vn' v(1) by (auto simp: base_of_def)
  qed
qed

lemma entry_ready:
  assumes "fs_ok fuel root w" "ready d w" "type_of w d = Some VDIR" "entry w d c = Some u"
  shows "ready u w"
proof -
  obtain vn where vn: "w_vns w d = Some vn" "vn_ops vn = tmpfs_vn_op" using ready_vnode [OF assms(2)] by blast
  then have "vn_type vn = VDIR" using assms(3) by (simp add: type_of_def)
  then show ?thesis using fs_okD(5) [OF assms(1) vn] fs_okD(1) [OF assms(1)] assms(4) vn by (auto simp: entry_def)
qed

text \<open>Before and after a name was entered in a tree that is in order.\<close>

definition entered :: "nat \<Rightarrow> nat \<Rightarrow> world \<Rightarrow> nat \<Rightarrow> vtype \<Rightarrow> buf \<Rightarrow> world \<Rightarrow> bool" where
  "entered fuel root w d type c w' \<longleftrightarrow> fs_ok fuel root w \<and> created w d type c w' \<and> ready d w \<and> type_of w d = Some VDIR \<and>
     w_vns w 0 = None \<and> 0 < w_next w \<and> w_vns w (w_next w) = None \<and> entry w d c = None"

lemma enteredD:
  assumes "entered fuel root w d type c w'"
  shows "fs_ok fuel root w" "created w d type c w'" "ready d w" "type_of w d = Some VDIR" "w_vns w (w_next w) = None"
    "entry w d c = None" "extends w w'" "fs_ok fuel root w'"
  using assms created_extends created_fs_ok unfolding entered_def by blast+

lemma new_node:
  assumes e: "entered fuel root w d type c w'"
  shows "type_of w' (w_next w) = Some type" "mounted fuel w' (w_next w) = w_next w" "w_next w \<noteq> d" "ready (w_next w) w'"
proof -
  obtain pn pn' vn where "created_nodes w d type c pn pn' vn w'" using enteredD(2) [OF e] by (auto simp: created_def)
  note all = this [unfolded created_nodes_def]
  have "fuel \<noteq> 0" using enteredD(1) [OF e] by (cases fuel) (simp_all add: fs_ok_def)
  then have "resolve fuel (Some (w_next w)) w' = Inr (w_next w)" using all by (cases fuel) simp_all
  then show "type_of w' (w_next w) = Some type" "mounted fuel w' (w_next w) = w_next w" "w_next w \<noteq> d" "ready (w_next w) w'"
    using all enteredD(5) [OF e] by (auto simp: type_of_def mounted_def ready_def)
qed

lemma entry_new:
  assumes e: "entered fuel root w d type c w'" and v: "ready v w"
  shows "entry w' v k = (if v = d \<and> k = c then Some (w_next w) else entry w v k)"
proof -
  from v obtain vn where v: "w_vns w v = Some vn" using ready_vnode by blast
  obtain pn pn' nn where "created_nodes w d type c pn pn' nn w'" using enteredD(2) [OF e] by (auto simp: created_def)
  note all = this [unfolded created_nodes_def]
  show ?thesis
  proof (cases "v = d")
    case True
    have "w_vns w' d = Some pn'" "w_vns w d = Some pn" "children_map pn' = (children_map pn)(c \<mapsto> w_next w)" using all by blast+
    then show ?thesis using True by (simp add: entry_children)
  next
    case False
    then have "w_vns w' v = Some vn" using v enteredD(5) [OF e] all by (metis option.distinct(1))
    then show ?thesis using False v by (simp add: entry_children)
  qed
qed

lemma walk_new:
  assumes e: "entered fuel root w d type c w'" and plain: "type \<noteq> VLNK" "c \<noteq> [DOT, DOT]"
  shows "ready v w \<Longrightarrow> walk_to fuel w root VFS_LOOKUP_PARENT wd v cs = Found d \<Longrightarrow> cs \<noteq> [] \<Longrightarrow> last cs = c \<Longrightarrow>
     walk_to fuel w' root 0 wd v cs = (if wd \<and> type \<noteq> VDIR then Failed YAK_NODIR else Found (w_next w))"
proof (induction cs arbitrary: v)
  case (Cons k cs)
  note ok = enteredD(1) [OF e] and ext = enteredD(7) [OF e]
  have tv: "type_of w v = Some VDIR" using Cons.prems(2) by (auto split: if_splits)
  have "w_vns w v \<noteq> None" using ready_vnode [OF Cons.prems(1)] by auto
  then have tv': "type_of w' v = Some VDIR" using type_of_extends [OF ext] tv by simp
  show ?case
  proof (cases "cs = []")
    case True
    then have "v = d" "k = c" using Cons.prems(2,4) tv by (simp_all add: VFS_LOOKUP_PARENT_def)
    moreover have "base_of fuel w' d c = d" using plain(2) by (simp add: base_of_def)
    ultimately show ?thesis
      using True tv' entry_new [OF e enteredD(3) [OF e], of c] new_node [OF e] plain by simp
  next
    case more: False
    show ?thesis
    proof (cases "k = [DOT, DOT] \<and> v = root")
      case True
      then have "walk_to fuel w root VFS_LOOKUP_PARENT wd v cs = Found d" using Cons.prems(2) more tv by simp
      then show ?thesis using Cons.IH [OF Cons.prems(1)] True more Cons.prems(4) tv' by simp
    next
      case False
      let ?d = "base_of fuel w v k"
      note base = base_of_extends [OF ok ext Cons.prems(1) False]
      have td: "type_of w ?d = Some VDIR" using Cons.prems(2) more False tv by (auto simp: Let_def split: if_splits)
      have "w_vns w ?d \<noteq> None" using base ready_vnode by fastforce
      then have td': "type_of w' ?d = Some VDIR" using type_of_extends [OF ext] td by simp
      obtain u where u: "entry w ?d k = Some u"
        using Cons.prems(2) more False tv td by (cases "entry w ?d k") (auto simp: Let_def)
      let ?r = "mounted fuel w u"
      have pl: "(u = ?d) = (?r = ?d)" "type_of w ?r \<noteq> Some VLNK" "walk_to fuel w root VFS_LOOKUP_PARENT wd ?r cs = Found d"
        using Cons.prems(2) more False tv td u by (auto simp: Let_def split: if_splits)
      have ru: "ready u w" by (rule entry_ready [OF ok _ td u]) (use base in blast)
      have rr: "ready ?r w" by (rule ready_mounted [OF ok ru])
      have m: "mounted fuel w' u = ?r" by (rule mounted_extends [OF ok ext ru])
      have "w_vns w ?r \<noteq> None" using rr ready_vnode by fastforce
      then have tr: "type_of w' ?r = type_of w ?r" using type_of_extends [OF ext] by simp
      have u': "entry w' ?d k = Some u" using entry_new [OF e, of ?d k] base u enteredD(6) [OF e] by auto
      have "walk_to fuel w' root 0 wd v (k # cs) = walk_to fuel w' root 0 wd ?r cs"
        using tv' more False base td' u' m tr pl(1,2) by (auto simp: Let_def)
      then show ?thesis using Cons.IH [OF rr pl(3) more] Cons.prems(4) more by simp
    qed
  qed
qed simp

lemma may_start_extends:
  assumes "may_start root w s None" "extends w w'" "w_cwd w' = w_cwd w"
  shows "may_start root w' s None" "start_of root w' s None = start_of root w s None"
    "ready (start_of root w s None) w"
proof -
  have "w_vns w root \<noteq> None" using assms(1) ready_vnode by (fastforce simp: may_start_def)
  then show "may_start root w' s None" "start_of root w' s None = start_of root w s None" "ready (start_of root w s None) w"
    using assms type_of_extends [OF assms(2)] ready_extends [OF assms(2)] by (auto simp: may_start_def start_of_def)
qed

lemma create_then_find:
  assumes ok: "fs_ok fuel root w" and st: "may_start root w s None"
    and b: "terminated b 0" "cstr b 0 = s" "s \<noteq> []" "s \<noteq> [SLASH]" "s \<noteq> [DOT]"
    and found: "path_to fuel w root VFS_LOOKUP_PARENT (start_of root w s None) s = Found d"
    and c: "last (components s) = c" "c \<noteq> [DOT, DOT]" "fits c" "name_fits c"
    and can: "can_create w d pn" "vn_ops pn = tmpfs_vn_op" "vn_type pn = VDIR" "children_map pn c = None"
    and num: "w_vns w 0 = None" "0 < w_next w"
    and type: "type \<noteq> VLNK" "last s = SLASH \<longrightarrow> type = VDIR"
  shows "\<exists>w'. vfs_create (Suc fuel) (Some b) type attr out w = Inr (YAK_SUCCESS, Some (w_next w), w') \<and>
     created w d type c w' \<and> fs_ok fuel root w' \<and>
     vfs_lookup_path (Suc fuel) (Some b) None 0 False out w' = Inr (YAK_SUCCESS, Some (w_next w), None, hold (w_next w) w')"
proof -
  have pn: "w_vns w d = Some pn" "w_vns w (w_next w) = None" using can(1) by (simp_all add: can_create_def)
  have d: "ready d w" "type_of w d = Some VDIR" using fs_okD(1) [OF ok pn(1) can(2)] pn(1) can(3) by (simp_all add: type_of_def)
  have lc: "last_comp s = c" using b c by (simp add: last_comp_def)
  obtain w' where w': "vfs_create (Suc fuel) (Some b) type attr out w = Inr (YAK_SUCCESS, Some (w_next w), w')" "created w d type c w'"
    using vfs_create_ok [OF ok st b(1-3) found lc c(3,4) can(1) d(1), of type attr out] can(4) by auto
  have e: "entered fuel root w d type c w'"
    using ok w'(2) d num pn can(4) by (simp add: entered_def entry_children)
  have cwd: "w_cwd w' = w_cwd w" using w'(2) by (auto simp: created_def created_nodes_def)
  note start = may_start_extends [OF st enteredD(7) [OF e] cwd]
  have walk: "walk_to fuel w root VFS_LOOKUP_PARENT (last s = SLASH) (start_of root w s None) (components s) = Found d"
    using found b by (simp add: path_to_def)
  then have cs: "components s \<noteq> []" by auto
  have "path_to fuel w' root 0 (start_of root w' s None) s = Found (w_next w)"
    using walk_new [OF e type(1) c(2) start(3) walk cs c(1)] b type(2) by (simp add: path_to_def start(2))
  then have "vfs_lookup_path (Suc fuel) (Some b) None 0 False out w' = Inr (YAK_SUCCESS, Some (w_next w), None, hold (w_next w) w')"
    using vfs_lookup_ok [OF enteredD(8) [OF e] start(1) b(1-3), of 0 False out]
    by (simp add: handed_def lookup_result_def last_of_def del: vfs_lookup_path.simps)
  then show ?thesis using w' enteredD(8) [OF e] by blast
qed

end
