(* ===== verification/PathFaults.thy ===== *)
theory PathFaults
  imports PathCreate
begin

text \<open>
  Paths that go wrong, and mounts: a symbolic link to itself, a name that fills its block, a directory that
  was mounted over while it was held.
\<close>

unbundle bit_operations_syntax

section \<open>Copying strings\<close>

lemma strcpy_from_eq:
  "terminated src s \<Longrightarrow> d + length (cstr src s) + 1 \<le> length dest \<Longrightarrow>
   strcpy_from dest d src s = Inr (take d dest @ cstr src s @ [0] @ drop (d + length (cstr src s) + 1) dest)"
proof (induction dest d src s rule: strcpy_from.induct)
  case (1 dest d src s)
  have s: "s < length src" using 1(2) by (rule terminated_less)
  show ?case
  proof (cases "src ! s = 0")
    case True
    then have "cstr src s = []" using cstr_unfold [OF 1(2)] by simp
    then show ?thesis using True s 1(3) by (subst strcpy_from.simps) (simp add: upd_conv_take_nth_drop)
  next
    case False
    have c: "cstr src s = src ! s # cstr src (Suc s)" using cstr_unfold [OF 1(2)] False by simp
    have t: "terminated src (Suc s)" using 1(2) False s unfolding terminated_def by (simp add: drop_nth_Cons)
    have d: "d < length dest" using 1(3) by simp
    have "strcpy_from (dest[d := src ! s]) (Suc d) src (Suc s) =
        Inr (take (Suc d) (dest[d := src ! s]) @ cstr src (Suc s) @ [0] @ drop (Suc d + length (cstr src (Suc s)) + 1) (dest[d := src ! s]))"
      by (rule 1(1) [of "src ! s"]) (use s False d t 1(3) c in simp_all)
    then show ?thesis using False s d c by (subst strcpy_from.simps) (simp add: take_Suc_update)
  qed
qed

section \<open>A symbolic link to itself\<close>

text \<open>\<open>link\<close> is an entry \<open>c\<close> of the root directory, a symbolic link whose path is \<open>/c\<close>.\<close>

definition self_link :: "world \<Rightarrow> nat \<Rightarrow> buf \<Rightarrow> nat \<Rightarrow> bool" where
  "self_link w root c link \<longleftrightarrow> w_kz w = [] \<and> link \<noteq> root \<and>
     (\<forall>f. resolve f (Some (w_root w)) w = Inr root \<or> resolve f (Some (w_root w)) w = Inl Diverges) \<and>
     (\<exists>rn. w_vns w root = Some rn \<and> vn_ops rn = tmpfs_vn_op \<and> vn_type rn = VDIR \<and> \<not> vn_locked rn \<and>
        ht_inv (tn_children rn) \<and> ht_map (tn_children rn) c = Some (word_of_nat link)) \<and> 0 < link \<and> link < 2 ^ 64 \<and>
     (\<exists>un lp. w_vns w link = Some un \<and> vn_ops un = tmpfs_vn_op \<and> vn_type un = VLNK \<and> \<not> vn_locked un \<and>
        vn_mounted_vfs un = None \<and> tn_link_path un = Some lp \<and> terminated lp 0 \<and> cstr lp 0 = SLASH # c)"

text \<open>Counts do not matter.\<close>

definition counts_only :: "(vnode \<Rightarrow> vnode) \<Rightarrow> bool" where
  "counts_only f \<longleftrightarrow> (\<forall>vn. still (f vn) = still vn \<and> vn_locked (f vn) = vn_locked vn)"

lemma self_link_upd:
  assumes "self_link w root c link" "counts_only f"
  shows "self_link (upd v f w) root c link"
proof -
  have al: "alike w (upd v f w)" by (intro alike_upd alike_refl) (use assms(2) in \<open>simp add: counts_only_def\<close>)
  have f: "vn_ops (f vn) = vn_ops vn" "vn_type (f vn) = vn_type vn" "vn_mounted_vfs (f vn) = vn_mounted_vfs vn"
     "tn_children (f vn) = tn_children vn" "tn_link_path (f vn) = tn_link_path vn" "vn_locked (f vn) = vn_locked vn" for vn
    using still_fields [of "f vn" vn] assms(2) by (simp_all add: counts_only_def)
  show ?thesis
    using assms(1) unfolding self_link_def resolve_alike [OF al] by (auto simp: f)
qed

text \<open>References taken and dropped, also past the bounds of the count.\<close>

definition ref1 :: "vnode \<Rightarrow> vnode" where "ref1 vn = vn\<lparr>vn_refcnt := (vn_refcnt vn + 1) mod 2 ^ 64\<rparr>"
definition unref1 :: "vnode \<Rightarrow> vnode" where
  "unref1 vn = vn\<lparr>vn_refcnt := (if vn_refcnt vn = 0 then 2 ^ 64 - 1 else vn_refcnt vn - 1)\<rparr>"

lemma counts_only_refs: "counts_only ref1" "counts_only unref1"
  by (simp_all add: counts_only_def still_def ref1_def unref1_def)

lemma ref1_ok: "w_vns w v \<noteq> None \<Longrightarrow> vn_ref (Some v) w = Inr (upd v ref1 w)"
  by (auto simp: vn_ref_def vnode_ref_def upd_def ref1_def)

lemma unref1_ok: "w_vns w v \<noteq> None \<Longrightarrow> vn_deref (Some v) w = Inr (upd v unref1 w)"
  by (auto simp: vn_deref_def vnode_deref_def upd_def unref1_def)

lemma self_link_root:
  assumes "self_link w root c link"
  shows "resolve f (Some (w_root w)) w = Inr root \<or> resolve f (Some (w_root w)) w = Inl Diverges"
  using assms unfolding self_link_def by blast

lemma self_link_start:
  assumes "self_link w root c link" "cwd = None \<or> w_vns w (the cwd) \<noteq> None"
  shows "lookup_start f True cwd w = Inl Diverges \<or> (\<exists>w'. lookup_start f True cwd w = Inr (root, w') \<and> self_link w' root c link)"
proof (cases "resolve f (Some (w_root w)) w")
  case (Inl e)
  then have "e = Diverges" using self_link_root [OF assms(1), of f] by simp
  then show ?thesis using Inl by (simp add: lookup_start_def vfs_getroot_def)
next
  case (Inr r)
  then have r: "r = root" using self_link_root [OF assms(1), of f] by simp
  have "w_vns w root \<noteq> None" using assms(1) by (auto simp: self_link_def)
  note ref = ref1_ok [OF this]
  note s1 = self_link_upd [OF assms(1) counts_only_refs(1), of root]
  show ?thesis
  proof (cases cwd)
    case None
    then show ?thesis using Inr r ref s1 by (simp add: lookup_start_def vfs_getroot_def)
  next
    case (Some v)
    then have "w_vns (upd root ref1 w) v \<noteq> None" using assms(2) by (auto)
    then show ?thesis
      using Some Inr r ref unref1_ok self_link_upd [OF s1 counts_only_refs(2)] by (simp add: lookup_start_def vfs_getroot_def)
  qed
qed

lemma self_link_lookup:
  assumes s: "self_link w root c link" and w: "w' = upd root lck w" and b: "terminated b p" "cstr b p = c"
  shows "VOP_LOOKUP (Some root) b p None w' = Inr (YAK_SUCCESS, Some link)"
proof -
  obtain rn where rn: "w_vns w root = Some rn" "vn_ops rn = tmpfs_vn_op" "vn_type rn = VDIR" "ht_inv (tn_children rn)"
      "ht_map (tn_children rn) c = Some (word_of_nat link)" and l: "0 < link" "link < 2 ^ 64"
    using s by (auto simp: self_link_def)
  have "(word_of_nat link :: u64) \<noteq> 0" using unat_nat [OF l(2)] l(1) by auto
  then have "children_get (lck rn) c = Inr (Some link)"
    using children_get_ok [of "lck rn" c] rn(4,5) l by (simp add: unat_nat)
  moreover have "take (length c) (drop p b) = c" using name_of [OF b(1)] b(2) by simp
  ultimately show ?thesis using rn w b by (simp add: VOP_LOOKUP_def tmpfs_lookup_def mem_simps)
qed

lemma self_link_child:
  assumes s: "self_link w root c link" and b: "terminated b p" "cstr b p = c"
    and IH: "\<And>d w'. terminated d 0 \<Longrightarrow> cstr d 0 = SLASH # c \<Longrightarrow> self_link w' root c link \<Longrightarrow>
       lookup (Some d) (Some root) 0 False None w' = Inl Diverges"
  shows "lookup_child f lookup 0 wd wl il b p root (upd root lck w) = Inl Diverges"
proof -
  obtain rn where rn: "w_vns w root = Some rn" "vn_ops rn = tmpfs_vn_op" "\<not> vn_locked rn" "vn_type rn = VDIR" and l: "link \<noteq> root" and kz: "w_kz w = []"
    using s by (auto simp: self_link_def)
  obtain un lp where un: "w_vns w link = Some un" "vn_ops un = tmpfs_vn_op" "vn_type un = VLNK" "\<not> vn_locked un"
      "vn_mounted_vfs un = None" "tn_link_path un = Some lp" "terminated lp 0" "cstr lp 0 = SLASH # c"
    using s by (auto simp: self_link_def)
  let ?w1 = "upd link (\<lambda>vn. lck (ref1 vn)) w"
  have t: "take_next root link (upd root lck w) = Inr ?w1"
  proof -
    have "vn_ref (Some link) (upd root lck w) = Inr (upd link ref1 (upd root lck w))" by (rule ref1_ok) (use un l in simp)
    moreover have "VOP_LOCK (Some link) (upd link ref1 (upd root lck w)) = Inr (upd link lck (upd link ref1 (upd root lck w)))"
      by (rule lock_ok [of _ _ "ref1 un"]) (use un l in \<open>simp_all add: ref1_def\<close>)
    moreover have "VOP_UNLOCK (Some root) (upd link lck (upd link ref1 (upd root lck w))) =
        Inr (upd root unl (upd link lck (upd link ref1 (upd root lck w))))"
      by (rule unlock_ok [of _ _ "lck rn"]) (use rn l in simp_all)
    moreover have "upd root unl (upd link lck (upd link ref1 (upd root lck w))) = ?w1"
    proof -
      have "upd root unl (upd link lck (upd link ref1 (upd root lck w))) = upd link (\<lambda>vn. lck (ref1 vn)) (upd root unl (upd root lck w))"
        unfolding upd_upd [of link] by (rule upd_commute) (use l in simp)
      also have "upd root unl (upd root lck w) = w" unfolding upd_upd by (rule upd_same) (use rn in simp)
      finally show ?thesis .
    qed
    ultimately show ?thesis using l by (simp add: take_next_def)
  qed
  have lk: "w_vns ?w1 link = Some (lck (ref1 un))" using un by simp
  have res: "enter_mount f link ?w1 = Inl Diverges \<or> enter_mount f link ?w1 = Inr (link, ?w1)"
    using un by (cases f) (simp_all add: enter_mount_def ref1_def)
  let ?w2 = "upd link ref1 w"
  have ul: "VOP_UNLOCK (Some link) ?w1 = Inr ?w2"
  proof -
    have "VOP_UNLOCK (Some link) ?w1 = Inr (upd link unl ?w1)"
      by (rule unlock_ok [OF lk]) (use un in \<open>simp_all add: ref1_def\<close>)
    also have "upd link unl ?w1 = ?w2" unfolding upd_upd by (rule upd_cong) (use un in \<open>simp add: ref1_def\<close>)
    finally show ?thesis .
  qed
  note s2 = self_link_upd [OF s counts_only_refs(1), of link]
  define n where "n = kmalloc_usable (length (SLASH # c) + 1)"
  have fit: "length (SLASH # c) + 1 \<le> n" unfolding n_def by (rule kmalloc_usable_le)
  let ?d = "(SLASH # c) @ [0] @ drop (length (SLASH # c) + 1) (replicate n (w_junk w))"
  have c0: "0 \<notin> set (SLASH # c)" using un(8) unfolding cstr_def by (metis (mono_tags, lifting) set_takeWhileD)
  have read: "VOP_READLINK (Some link) ?w1 = Inr (YAK_SUCCESS, Some ?d, ?w1)"
  proof -
    have "strcpy (Some (replicate n (w_junk w))) 0 lp 0 = Inr (Some ?d)"
      using un(7,8) fit strcpy_from_eq [OF un(7), of 0 "replicate n (w_junk w)"] by (simp add: strcpy_def)
    then show ?thesis using lk un kz by (simp add: VOP_READLINK_def tmpfs_readlink_def ref1_def mem_simps n_def)
  qed
  have d: "terminated ?d 0" "cstr ?d 0 = SLASH # c"
    using cstr_middle [OF c0, of "[]"] by auto
  have "follow_link f lookup root link ?w1 = Inl Diverges"
  proof (cases "resolve f (Some (w_root ?w2)) ?w2")
    case (Inl e)
    then have "e = Diverges" using self_link_root [OF s2, of f] by simp
    then show ?thesis using read ul Inl by (simp add: follow_link_def)
  next
    case (Inr r)
    then have r: "r = root" using self_link_root [OF s2, of f] by simp
    have "vn_ref (Some root) ?w2 = Inr (upd root ref1 ?w2)" by (rule ref1_ok) (use rn l in simp)
    then show ?thesis
      using read ul Inr r IH [OF d self_link_upd [OF s2 counts_only_refs(1), of root]] by (simp add: follow_link_def)
  qed
  then show ?thesis
    using self_link_lookup [OF s refl b] t res lk un by (auto simp: lookup_child_def ref1_def)
qed

lemma components_absolute: "SLASH \<notin> set c \<Longrightarrow> c \<noteq> [] \<Longrightarrow> components (SLASH # c) = [c]"
proof (cases c)
  case (Cons x xs)
  moreover assume "SLASH \<notin> set c"
  ultimately have x: "takeWhile (\<lambda>c. c \<noteq> SLASH) xs = xs" "dropWhile (\<lambda>c. c \<noteq> SLASH) xs = []" "x \<noteq> SLASH" by auto
  show ?thesis unfolding Cons components_slash components_name [OF x(3)] x(1,2) by simp
qed simp

lemma self_link_comp:
  assumes s: "self_link w root c link" and b: "terminated b p" "cstr b p = c" "c \<noteq> [DOT, DOT]"
    and IH: "\<And>d w'. terminated d 0 \<Longrightarrow> cstr d 0 = SLASH # c \<Longrightarrow> self_link w' root c link \<Longrightarrow>
       lookup (Some d) (Some root) 0 False None w' = Inl Diverges"
  shows "lookup_comps f lookup 0 wd wl b (Suc 0) p root (upd root lck w) = Inl Diverges"
proof -
  obtain rn where rn: "w_vns w root = Some rn" "vn_type rn = VDIR" using s by (auto simp: self_link_def)
  obtain k where k: "strcmp b p [DOT, DOT, 0] 0 = Inr k" "k = 0 \<longleftrightarrow> c = [DOT, DOT]"
    using strcmp_eq [OF b(1) dots(2)] unfolding dots(1) b(2) by blast
  show ?thesis
    using rn k b(3) self_link_child [where lookup = lookup and f = f and wd = wd and wl = wl and il = True, OF s b(1,2) IH] by (simp add: lookup_comp_def)
qed

lemma self_link_diverges:
  assumes c: "SLASH \<notin> set c" "c \<noteq> []" "c \<noteq> [DOT, DOT]"
  shows "self_link w root c link \<Longrightarrow> terminated b 0 \<Longrightarrow> cstr b 0 = SLASH # c \<Longrightarrow>
     cwd = None \<or> w_vns w (the cwd) \<noteq> None \<Longrightarrow>
     vfs_lookup_path fuel (Some b) cwd 0 want out w = Inl Diverges"
proof (induction fuel arbitrary: b cwd w want out)
  case (Suc f)
  note b = Suc.prems(2,3)
  let ?n = "length (SLASH # c)"
  have b0: "ld b 0 = Inr SLASH" using cstr_unfold [OF b(1)] b(2) terminated_less [OF b(1)] by (auto split: if_splits)
  have len: "strlen b 0 = Inr ?n" using strlen_eq [OF b(1)] b(2) by simp
  have fit: "?n + 1 \<le> length b" using cstr_fits [OF b(1)] b(2) by simp
  have b1: "ld b (?n - 1) = Inr (b ! (?n - 1))" using fit by simp
  have pre: "take (?n + 1) b = (SLASH # c) @ [0]" using cstr_take_drop [OF b(1)] b(2) by simp
  have c0: "0 \<notin> set (SLASH # c)" using b(2) unfolding cstr_def by (metis (mono_tags, lifting) set_takeWhileD)
  have SZ: "SLASH \<noteq> 0" by (simp add: SLASH_def)
  show ?case
  proof (cases "lookup_start f True cwd w")
    case (Inl e)
    then have "e = Diverges" using self_link_start [OF Suc.prems(1,4), of f] by simp
    then show ?thesis using Inl b0 len b1 SZ by simp
  next
    case (Inr p)
    then obtain w1 where w1: "lookup_start f True cwd w = Inr (root, w1)" "self_link w1 root c link"
      using self_link_start [OF Suc.prems(1,4), of f] by auto
    have kz: "w_kz w1 = []" using w1(2) by (simp add: self_link_def)
    obtain rn where rn: "w_vns w1 root = Some rn" "vn_ops rn = tmpfs_vn_op" "\<not> vn_locked rn"
      using w1(2) by (auto simp: self_link_def)
    let ?blk = "replicate (kmalloc_usable (?n + 1)) (w_junk w1)"
    obtain J where cp: "memcpy ?blk 0 b 0 (?n + 1) = Inr ((SLASH # c) @ [0] @ J)"
      using fit kmalloc_usable_le [of "?n + 1"] pre by (auto simp: mem_simps)
    have cc: "cstr ((SLASH # c) @ [0] @ J) 0 = SLASH # c" "terminated ((SLASH # c) @ [0] @ J) 0"
      using cstr_middle [OF c0, of "[]" J] by simp_all
    obtain X where sp: "split_path ((SLASH # c) @ [0] @ J) = Inr (1, c @ 0 # X)"
      using split_path_ok [OF cc(2)] unfolding cc(1) components_absolute [OF c(1,2)] by auto
    have lock: "VOP_LOCK (Some root) w1 = Inr (upd root lck w1)" by (rule lock_ok [OF rn])
    have comp: "cstr (c @ 0 # X) 0 = c" "terminated (c @ 0 # X) 0" using cstr_middle [of c "[]" X] c0 by simp_all
    have IH: "vfs_lookup_path f (Some d) (Some root) 0 False None w' = Inl Diverges"
      if "terminated d 0" "cstr d 0 = SLASH # c" "self_link w' root c link" for d w'
      by (rule Suc.IH [OF that(3,1,2)]) (use that(3) in \<open>auto simp: self_link_def\<close>)
    note last = self_link_comp [where lookup = "vfs_lookup_path f" and f = f and wd = "b ! (?n - 1) = SLASH" and wl = want, OF w1(2) comp(2,1) c(3) IH]
    have run: "vfs_lookup_path (Suc f) (Some b) cwd 0 want out w =
        lookup_comps f (vfs_lookup_path f) 0 (b ! (?n - 1) = SLASH) want (c @ 0 # X) 1 0 root (upd root lck w1)"
      using b0 len b1 SZ w1(1) kz cp sp lock rn c(2) by (simp del: lookup_comps.simps)
    show ?thesis unfolding run using last by simp
  qed
qed simp

section \<open>A name that fills its block\<close>

lemma create_overruns:
  assumes can: "can_create w pv pn" and b: "terminated b p" "length (cstr b p) = kmalloc_usable (length (cstr b p))"
    and new: "children_map pn (cstr b p) = None"
  shows "tmpfs_create (Some pv) type b p attr out w = Inl OutOfBounds"
proof -
  let ?c = "cstr b p"
  obtain fs t where fs: "vn_vfs pn = Some fs" "w_fss w fs = Some t" using can by (auto simp: can_create_def)
  have pn: "w_vns w pv = Some pn" "ht_inv (tn_children pn)" "w_kz w = []" "w_next w < 2 ^ 64"
    using can by (auto simp: can_create_def)
  have "ht_map (tn_children pn) ?c = None" using new by (simp add: children_map_def)
  then have get: "children_get pn ?c = Inr None" using children_get_ok [OF pn(2), of ?c] by simp
  obtain vn w1 where al: "alloc_node (Some fs) type w = Inr (YAK_SUCCESS, Some (w_next w), w1)" "only_new (w_next w) w w1"
    using alloc_node_ok [OF fs(2) pn(3,4), of type] by blast
  have "w_kz w1 = []" using al(2) pn(3) by (simp add: only_new_def)
  moreover have "strndup (\<lambda>_. Some (replicate (length ?c) (w_junk w1))) b p (length ?c) = Inl OutOfBounds"
    by (rule strndup_overrun [where b = "replicate (length ?c) (w_junk w1)"]) (use cstr_fits [OF b(1)] in simp_all)
  ultimately show ?thesis
    using pn(1) get al(1) fs b by (simp add: tmpfs_create_def name_of mem_simps Let_def cong: if_cong)
qed

section \<open>A directory that is mounted over while it is held\<close>

lemma enter_held:
  assumes d: "ready d w" "ready r w" "r \<noteq> d" and res: "resolve fuel (Some d) w = Inr r"
  shows "enter_mount fuel d (hold d w) = Inr (r, hold r w)"
proof -
  obtain rn where rn: "w_vns w r = Some rn" "vn_refcnt rn + 3 < 2 ^ 64" using d(2) by (auto simp: ready_def)
  have "resolve fuel (Some d) (hold d w) = Inr r" using res resolve_alike [OF alike_hold(1)] by simp
  moreover have "vn_ref (Some r) (hold d w) = Inr (hold d (upd r inc w))"
  proof -
    have "vn_ref (Some r) (hold d w) = Inr (upd r inc (hold d w))"
      by (rule ref_ok [of _ _ rn]) (use rn d(3) in \<open>simp_all add: hold_def\<close>)
    also have "upd r inc (hold d w) = hold d (upd r inc w)" unfolding hold_def by (rule upd_commute) (rule d(3))
    finally show ?thesis .
  qed
  moreover have "vn_put (Some d) (hold d (upd r inc w)) = Inr (upd r inc w)"
    by (rule put_hold) (use d in \<open>simp add: ready_upd\<close>)
  moreover have "VOP_LOCK (Some r) (upd r inc w) = Inr (hold r w)" by (rule lock_inc [OF d(2)])
  ultimately show ?thesis using d(3) by (simp add: enter_mount_def)
qed

lemma dot_drops_two:
  assumes ok: "fs_ok fuel root w" and d: "w_vns w d = Some vn" "vn_ops vn = tmpfs_vn_op" "vn_type vn = VDIR" "0 < vn_refcnt vn"
    and b: "terminated b p" "entry w d (cstr b p) = Some d" and m: "mounted fuel w d \<noteq> d" "type_of w (mounted fuel w d) = Some VDIR"
  shows "lookup_child fuel lookup flags want_dir want_last False b p d (hold d w) =
     Inr (Go (mounted fuel w d) (hold (mounted fuel w d) (upd d dec w)))"
proof -
  let ?r = "mounted fuel w d"
  note rd = fs_okD(1) [OF ok d(1,2)]
  obtain r where r: "resolve fuel (Some d) w = Inr r" "ready r w" using fs_okD(2) [OF ok d(1,2)] by blast
  have mr: "?r = r" using r(1) by (simp add: mounted_def)
  have look: "VOP_LOOKUP (Some d) b p None (hold d w) = Inr (YAK_SUCCESS, Some d)"
    using lookup_name [OF ok d(1-3) b(1)] b(2) by simp
  have ent: "enter_mount fuel d (hold d w) = Inr (r, hold r w)" by (rule enter_held [OF rd r(2)]) (use m mr r in simp_all)
  obtain rn where rn: "w_vns w r = Some rn" "vn_type rn = VDIR" using ready_vnode [OF r(2)] m(2) mr by (auto simp: type_of_def)
  have "w_vns (hold r w) d = Some vn" using d(1) m(1) mr by (simp add: hold_def)
  then have "vn_deref (Some d) (hold r w) = Inr (upd d dec (hold r w))" by (rule deref_ok) (rule d(4))
  also have "upd d dec (hold r w) = hold r (upd d dec w)" unfolding hold_def by (rule upd_commute) (use m mr in simp)
  finally have "vn_deref (Some d) (hold r w) = Inr (hold r (upd d dec w))" .
  then show ?thesis
    using look ent rn m(1) mr by (simp add: lookup_child_def take_next_def finish_comp_def hold_vnode)
qed

section \<open>Mounting\<close>

lemma mount_ok:
  assumes v: "w_vns w v = Some vn" "vn_refcnt vn + 1 < 2 ^ 64" and kz: "w_kz w = []"
    and fresh: "w_vns w (w_next w + 1) = None" "w_next w + 1 < 2 ^ 64"
  shows "\<exists>r w'. tmpfs_mount (Some v) w = Inr (YAK_SUCCESS, w') \<and> w_vns w r = None \<and>
     resolve (Suc (Suc f)) (Some v) w' = Inr r \<and> resolve_upward (Suc f) r w' = resolve_upward f v w' \<and>
     type_of w' r = Some VDIR \<and> entry w' r = [[DOT] \<mapsto> r] \<and>
     w_vns w' v = Some (vn\<lparr>vn_refcnt := vn_refcnt vn + 1, vn_mounted_vfs := Some (w_next w)\<rparr>) \<and>
     (\<forall>u. u \<noteq> v \<longrightarrow> u \<noteq> r \<longrightarrow> w_vns w' u = w_vns w u)"
proof -
  let ?fs = "w_next w" and ?r = "w_next w + 1"
  let ?w2 = "w\<lparr>w_next := ?r, w_fss := (w_fss w)(?fs \<mapsto> \<lparr>fs_root = None, seq_ino = 1\<rparr>)\<rparr>"
  have "w_fss ?w2 ?fs = Some \<lparr>fs_root = None, seq_ino = 1\<rparr>" "w_kz ?w2 = []" "w_next ?w2 < 2 ^ 64" using kz fresh by simp_all
  from alloc_node_ok [OF this, of VDIR]
  obtain rn w3 where al: "alloc_node (Some ?fs) VDIR ?w2 = Inr (YAK_SUCCESS, Some ?r, w3)" "only_new ?r ?w2 w3"
      and rn: "w_vns w3 ?r = Some rn" "vn_type rn = VDIR" "vn_mounted_vfs rn = None" 
        "ht_map (tn_children rn) = [[0x2E] \<mapsto> word_of_nat ?r]"
        "w_fss w3 = (w_fss ?w2)(?fs \<mapsto> \<lparr>fs_root = None, seq_ino = 2\<rparr>)"
    by auto
  have vr: "v \<noteq> ?r" using v(1) fresh(1) by auto
  have v3: "w_vns w3 v = Some vn" using al(2) vr v(1) by (simp add: only_new_def)
  let ?w4 = "w3\<lparr>w_fss := (w_fss w3)(?fs \<mapsto> \<lparr>fs_root = Some ?r, seq_ino = 2\<rparr>)\<rparr>"
  let ?w6 = "put_vnode v (inc vn\<lparr>vn_mounted_vfs := Some ?fs\<rparr>) (upd v inc ?w4)"
  let ?w = "put_vnode ?r (rn\<lparr>vn_node_covered := Some v\<rparr>) ?w6"
  have ref: "vn_ref (Some v) ?w4 = Inr (upd v inc ?w4)" by (rule ref_ok [of _ _ vn]) (use v v3 in simp_all)
  have r6: "w_vns ?w6 ?r = Some rn" using rn(1) vr by simp
  have run: "tmpfs_mount (Some v) w = Inr (YAK_SUCCESS, ?w)"
  proof -
    have "w_fss w3 ?fs = Some \<lparr>fs_root = None, seq_ino = 2\<rparr>" using rn(5) by simp
    moreover have "w_vns (upd v inc ?w4) v = Some (inc vn)" using v3 by simp
    ultimately show ?thesis
      unfolding tmpfs_mount_def using kz al(1) ref r6 by (simp add: Let_def del: upd_simps(1) put_vnode_simps(1))
  qed
  have nodes: "w_vns ?w v = Some (inc vn\<lparr>vn_mounted_vfs := Some ?fs\<rparr>)" "w_vns ?w ?r = Some (rn\<lparr>vn_node_covered := Some v\<rparr>)"
     "w_fss ?w ?fs = Some \<lparr>fs_root = Some ?r, seq_ino = 2\<rparr>"
    using vr by simp_all
  show ?thesis
  proof (intro exI conjI)
    show "tmpfs_mount (Some v) w = Inr (YAK_SUCCESS, ?w)" by (rule run)
    show "w_vns w ?r = None" by (rule fresh(1))
    show "resolve (Suc (Suc f)) (Some v) ?w = Inr ?r"
      using nodes rn(3) by (simp add: tmpfs_getroot_def del: put_vnode_simps(1))
    show "resolve_upward (Suc f) ?r ?w = resolve_upward f v ?w" using nodes by (simp del: put_vnode_simps(1))
    show "type_of ?w ?r = Some VDIR" using nodes(2) rn(2) unfolding type_of_def by (simp del: put_vnode_simps(1))
    have "(\<lambda>c. map_option unat ([[0x2E] \<mapsto> word_of_nat ?r :: u64] c)) = [[DOT] \<mapsto> ?r]"
      using unat_nat [OF fresh(2)] by (simp add: fun_eq_iff DOT_def)
    then show "entry ?w ?r = [[DOT] \<mapsto> ?r]"
      using nodes(2) rn(4) unfolding entry_def fun_eq_iff by (simp del: put_vnode_simps(1))
    show "w_vns ?w v = Some (vn\<lparr>vn_refcnt := vn_refcnt vn + 1, vn_mounted_vfs := Some ?fs\<rparr>)" using nodes(1) by simp
    show "\<forall>u. u \<noteq> v \<longrightarrow> u \<noteq> ?r \<longrightarrow> w_vns ?w u = w_vns w u" using al(2) by (simp add: only_new_def)
  qed
qed

end
