(* ===== verification/DirList.thy ===== *)
theory DirList
  imports TmpfsFacts
begin

text \<open>
  Reading a directory in pieces: the entries \<open>tmpfs_getdirents\<close> returns for an offset, and the calls of a
  program that continues until nothing more comes.
\<close>

unbundle bit_operations_syntax

section \<open>Listing a directory\<close>

definition live_entries :: "hashtable \<Rightarrow> ht_entry list" where
  "live_entries t = filter (\<lambda>e. he_key e \<noteq> None) (ht_entries t)"

definition dirent_of :: "world \<Rightarrow> ht_entry \<Rightarrow> dirent" where
  "dirent_of w e = (case w_vns w (unat (he_value e)) of Some child \<Rightarrow>
     \<lparr>d_ino = va_inode (tn_vattr child), d_reclen = dirent_len (he_key_len e) mod 65536,
      d_type = vtype_to_dtype (vn_type child), d_name = take (he_key_len e) (the (he_key e))\<rparr>)"

text \<open>The entries that fit after \<open>bytes\<close> bytes.\<close>

fun fitting :: "nat \<Rightarrow> nat \<Rightarrow> ht_entry list \<Rightarrow> ht_entry list" where
  "fitting bufsize bytes [] = []"
| "fitting bufsize bytes (e # es) =
     (if bytes + dirent_len (he_key_len e) > bufsize then []
      else e # fitting bufsize (bytes + dirent_len (he_key_len e)) es)"

definition dirents_size :: "ht_entry list \<Rightarrow> nat" where
  "dirents_size es = sum_list (map (\<lambda>e. dirent_len (he_key_len e)) es)"

lemma dirents_from_ok:
  assumes "\<forall>e \<in> set es. he_key e \<noteq> None \<longrightarrow> he_value e \<noteq> 0 \<and> w_vns w (unat (he_value e)) \<noteq> None"
  shows "dirents_from w bufsize skip es idx bytes =
     (let le = filter (\<lambda>e. he_key e \<noteq> None) es; got = fitting bufsize bytes (drop (skip - idx) le) in
      Inr (map (dirent_of w) got, bytes + dirents_size got, idx + min (skip - idx) (length le) + length got))"
  using assms
proof (induction es arbitrary: idx bytes)
  case (Cons e es)
  have "\<forall>e \<in> set es. he_key e \<noteq> None \<longrightarrow> he_value e \<noteq> 0 \<and> w_vns w (unat (he_value e)) \<noteq> None"
    using Cons.prems by simp
  note IH = Cons.IH [OF this, unfolded Let_def]
  show ?case
  proof (cases "he_key e")
    case None
    then show ?thesis using IH by (simp add: Let_def)
  next
    case (Some name)
    obtain child where ch: "he_value e \<noteq> 0" "w_vns w (unat (he_value e)) = Some child" using Cons.prems Some by auto
    show ?thesis
    proof (cases "skip > idx")
      case True
      then have "skip - idx = Suc (skip - (idx + 1))" by simp
      then show ?thesis using Some True IH [of "idx + 1" bytes] by (simp add: Let_def)
    next
      case False
      then show ?thesis using Some ch IH by (simp add: Let_def dirent_of_def dirents_size_def)
    qed
  qed
qed (simp add: dirents_size_def)

lemma fitting_prefix: "fitting bufsize bytes es = take (length (fitting bufsize bytes es)) es"
  by (induction bufsize bytes es rule: fitting.induct) auto

lemma fitting_size: "bytes \<le> bufsize \<Longrightarrow> bytes + dirents_size (fitting bufsize bytes es) \<le> bufsize"
  by (induction bufsize bytes es rule: fitting.induct) (auto simp: dirents_size_def)

text \<open>A directory whose entries lead to nodes.\<close>

definition dir_ok :: "world \<Rightarrow> vnode \<Rightarrow> bool" where
  "dir_ok w vn \<longleftrightarrow> vn_type vn = VDIR \<and> ht_inv (tn_children vn) \<and>
     (\<forall>c p. ht_map (tn_children vn) c = Some p \<longrightarrow> p \<noteq> 0 \<and> w_vns w (unat p) \<noteq> None)"

lemma es_map_live: "es_map es c = Some p \<Longrightarrow> \<exists>e \<in> set (filter (\<lambda>e. he_key e \<noteq> None) es). he_key e = Some c \<and> he_value e = p"
  by (induction es) (auto split: if_splits)

lemma live_map:
  assumes "ht_inv t"
  shows "e \<in> set (live_entries t) \<Longrightarrow> \<exists>c. he_key e = Some c \<and> he_key_len e = length c \<and> ht_map t c = Some (he_value e)"
    "ht_map t c = Some p \<Longrightarrow> \<exists>e \<in> set (live_entries t). he_key e = Some c \<and> he_value e = p"
    "distinct (map (the \<circ> he_key) (live_entries t))"
proof -
  have ok: "probe_ok (ht_hash t) (ht_entries t) (ht_capacity t)" using assms by (simp add: ht_inv_def)
  note len = probe_ok_length [OF ok]
  show "\<exists>c. he_key e = Some c \<and> he_key_len e = length c \<and> ht_map t c = Some (he_value e)" if "e \<in> set (live_entries t)"
  proof -
    from that obtain i c where i: "i < ht_capacity t" "ht_entries t ! i = e" "he_key e = Some c"
      by (auto simp: live_entries_def in_set_conv_nth len)
    have "es_map (ht_entries t) c = Some (he_value (ht_entries t ! i))"
    proof (rule es_map_Some)
      show "i < length (ht_entries t)" "he_key (ht_entries t ! i) = Some c" using i len by simp_all
      show "j = i" if "j < length (ht_entries t)" "he_key (ht_entries t ! j) = Some c" for j
        by (rule probe_okD(3) [OF ok i(1)]) (use i that len in simp_all)
    qed
    then show ?thesis using i probe_okD(1) [OF ok i(1)] by (simp add: ht_map_def)
  qed
  show "\<exists>e \<in> set (live_entries t). he_key e = Some c \<and> he_value e = p" if "ht_map t c = Some p"
    using es_map_live that by (simp add: ht_map_def live_entries_def)
  have "distinct (map (the \<circ> he_key) (filter (\<lambda>e. he_key e \<noteq> None) es))" if "uniq es" for es
    using that by (induction es) (auto simp: es_map_None split: option.splits)
  then show "distinct (map (the \<circ> he_key) (live_entries t))"
    using probe_ok_uniq [OF ok] by (simp add: live_entries_def)
qed

definition listing :: "world \<Rightarrow> vnode \<Rightarrow> dirent list" where
  "listing w vn = map (dirent_of w) (live_entries (tn_children vn))"

lemma getdirents_ok:
  assumes v: "w_vns w v = Some vn" and d: "dir_ok w vn"
  shows "\<exists>got. tmpfs_getdirents (Some v) bufsize off w =
      Inr (YAK_SUCCESS, map (dirent_of w) got, min off (length (listing w vn)) + length got, dirents_size got) \<and>
     got = fitting bufsize 0 (drop off (live_entries (tn_children vn)))"
proof -
  let ?t = "tn_children vn"
  have inv: "ht_inv ?t" using d by (simp add: dir_ok_def)
  have len: "length (ht_entries ?t) = ht_capacity ?t" using inv probe_ok_length by (auto simp: ht_inv_def)
  have all: "\<forall>e \<in> set (ht_entries ?t). he_key e \<noteq> None \<longrightarrow> he_value e \<noteq> 0 \<and> w_vns w (unat (he_value e)) \<noteq> None"
  proof (intro ballI impI)
    fix e assume "e \<in> set (ht_entries ?t)" "he_key e \<noteq> None"
    then have "e \<in> set (live_entries ?t)" by (simp add: live_entries_def)
    then obtain c where "ht_map ?t c = Some (he_value e)" using live_map(1) [OF inv] by blast
    then show "he_value e \<noteq> 0 \<and> w_vns w (unat (he_value e)) \<noteq> None" using d by (auto simp: dir_ok_def)
  qed
  show ?thesis
    using v d dirents_from_ok [OF all, of bufsize off 0 0]
    by (simp add: tmpfs_getdirents_def dir_ok_def len Let_def listing_def live_entries_def)
qed

text \<open>A program that lists a directory calls until nothing more comes.\<close>

fun list_dir :: "nat \<Rightarrow> nat \<Rightarrow> nat \<Rightarrow> nat \<Rightarrow> world \<Rightarrow> dirent list res" where
  "list_dir 0 v bufsize off w = Inl Diverges"
| "list_dir (Suc calls) v bufsize off w =
     bindR (tmpfs_getdirents (Some v) bufsize off w) (\<lambda>(rv, ds, off', bytes).
       if ds = [] then Inr [] else bindR (list_dir calls v bufsize off' w) (\<lambda>more. Inr (ds @ more)))"

lemma fitting_Nil: "\<forall>e \<in> set es. dirent_len (he_key_len e) \<le> bufsize \<Longrightarrow> fitting bufsize 0 es = [] \<longleftrightarrow> es = []"
  by (cases es) auto

lemma list_dir_ok:
  assumes v: "w_vns w v = Some vn" and d: "dir_ok w vn"
    and room: "\<forall>e \<in> set (live_entries (tn_children vn)). dirent_len (he_key_len e) \<le> bufsize"
  shows "off \<le> length (listing w vn) \<Longrightarrow> length (listing w vn) - off < calls \<Longrightarrow>
    list_dir calls v bufsize off w = Inr (drop off (listing w vn))"
proof (induction calls arbitrary: off)
  case (Suc calls)
  let ?all = "live_entries (tn_children vn)" and ?got = "fitting bufsize 0 (drop off (live_entries (tn_children vn)))"
  have get: "tmpfs_getdirents (Some v) bufsize off w = Inr (YAK_SUCCESS, map (dirent_of w) ?got, off + length ?got, dirents_size ?got)"
    using getdirents_ok [OF v d, of bufsize off] Suc.prems(1) by auto
  have pre: "?got = take (length ?got) (drop off ?all)" by (rule fitting_prefix)
  have nil: "?got = [] \<longleftrightarrow> drop off ?all = []" by (rule fitting_Nil) (use room in_set_dropD in fast)
  show ?case
  proof (cases "?got = []")
    case True
    then show ?thesis using get nil by (simp add: listing_def drop_map)
  next
    case False
    have pos: "0 < length ?got" using False by simp
    have lg: "length ?got \<le> length ?all - off" using arg_cong [OF pre, of length] by simp
    have more: "off < length ?all" using False nil by simp
    have "list_dir calls v bufsize (off + length ?got) w = Inr (drop (off + length ?got) (listing w vn))"
      by (rule Suc.IH) (use Suc.prems pos lg more in \<open>unfold listing_def length_map, linarith+\<close>)
    moreover have "map (dirent_of w) ?got @ drop (off + length ?got) (listing w vn) = drop off (listing w vn)"
    proof -
      have "?got @ drop (length ?got) (drop off ?all) = drop off ?all" using pre append_take_drop_id by metis
      then have "map (dirent_of w) (?got @ drop (length ?got) (drop off ?all)) = map (dirent_of w) (drop off ?all)" by (rule arg_cong)
      then show ?thesis by (simp add: listing_def drop_map add.commute)
    qed
    ultimately show ?thesis using get False by simp
  qed
qed simp

text \<open>The names listed are those of the directory, each once.\<close>

lemma listing_names:
  assumes "dir_ok w vn"
  shows "distinct (map d_name (listing w vn))" "set (map d_name (listing w vn)) = dom (ht_map (tn_children vn))"
proof -
  have inv: "ht_inv (tn_children vn)" using assms by (simp add: dir_ok_def)
  have nm: "d_name (dirent_of w e) = the (he_key e)" if e: "e \<in> set (live_entries (tn_children vn))" for e
  proof -
    obtain c where c: "he_key e = Some c" "he_key_len e = length c" "ht_map (tn_children vn) c = Some (he_value e)"
      using live_map(1) [OF inv e] by blast
    obtain child where "w_vns w (unat (he_value e)) = Some child" using assms c(3) by (auto simp: dir_ok_def)
    then show ?thesis using c by (simp add: dirent_of_def)
  qed
  then have names: "map d_name (listing w vn) = map (the \<circ> he_key) (live_entries (tn_children vn))" by (simp add: listing_def)
  then show "distinct (map d_name (listing w vn))" using live_map(3) [OF inv] by simp
  show "set (map d_name (listing w vn)) = dom (ht_map (tn_children vn))"
    unfolding names
  proof (intro set_eqI iffI)
    fix c assume "c \<in> set (map (the \<circ> he_key) (live_entries (tn_children vn)))"
    then obtain e where "e \<in> set (live_entries (tn_children vn))" "c = the (he_key e)" by auto
    then show "c \<in> dom (ht_map (tn_children vn))" using live_map(1) [OF inv] by fastforce
  next
    fix c assume "c \<in> dom (ht_map (tn_children vn))"
    then obtain e where "e \<in> set (live_entries (tn_children vn))" "he_key e = Some c" using live_map(2) [OF inv] by blast
    then show "c \<in> set (map (the \<circ> he_key) (live_entries (tn_children vn)))" by (auto intro!: image_eqI [of _ _ e])
  qed
qed

end
