(* ===== verification/VfsSamples.thy ===== *)
theory VfsSamples
  imports PathFaults DirList FileProperties
begin

text \<open>
  A sample tree: two mounted file systems, a few directories, a file and a symbolic link to itself.
\<close>

unbundle bit_operations_syntax

section \<open>A sample tree\<close>

text \<open>A table of children by insertion.\<close>

definition dir_table :: "(buf \<times> nat) list \<Rightarrow> hashtable" where
  "dir_table kvs = fold (\<lambda>(k, v) t. case ht_set True True t k (length k) (word_of_nat v) True of Inr (_, t') \<Rightarrow> t' | Inl _ \<Rightarrow> t)
     kvs (ht_init ht_hash_str ht_eq_str)"

lemma dir_table_ok:
  "ht_inv (dir_table kvs) \<and> ht_map (dir_table kvs) = (\<lambda>k. map_option word_of_nat (map_of (rev kvs) k))"
proof (induction kvs rule: rev_induct)
  case Nil
  show ?case using fresh_children by (simp add: dir_table_def fun_eq_iff)
next
  case (snoc kv kvs)
  obtain k v where kv: "kv = (k, v)" by fastforce
  obtain t where "ht_set True True (dir_table kvs) k (length k) (word_of_nat v) True = Inr (YAK_SUCCESS, t)" "ht_inv t"
      "ht_map t = (ht_map (dir_table kvs))(k \<mapsto> word_of_nat v)"
    using ht_set_ok [of "dir_table kvs" True k "word_of_nat v" True] snoc by auto
  then show ?case using snoc kv by (simp add: dir_table_def fun_eq_iff)
qed

definition sample_node :: "vtype \<Rightarrow> (buf \<times> nat) list \<Rightarrow> nat option \<Rightarrow> nat option \<Rightarrow> nat option \<Rightarrow> buf option \<Rightarrow> vnode" where
  "sample_node type kvs vfs mnt cov lp = sample_vnode\<lparr>vn_type := type, vn_vfs := vfs, vn_mounted_vfs := mnt, vn_node_covered := cov,
     tn_link_path := lp, tn_children := dir_table kvs\<rparr>"

text \<open>The names \<open>etc\<close>, \<open>mnt\<close>, \<open>passwd\<close> and \<open>self\<close>.\<close>

definition n_etc :: buf where "n_etc = [0x65, 0x74, 0x63]"
definition n_mnt :: buf where "n_mnt = [0x6D, 0x6E, 0x74]"
definition n_passwd :: buf where "n_passwd = [0x70, 0x61, 0x73, 0x73, 0x77, 0x64]"
definition n_self :: buf where "n_self = [0x73, 0x65, 0x6C, 0x66]"

text \<open>Node 1 is the root node of the name space; file system 0 with root 2 is mounted on it and file system 7
  with root 6 on \<open>/mnt\<close>; \<open>/self\<close> is a symbolic link to itself.\<close>

definition tree_nodes :: "(nat \<times> vnode) list" where
  "tree_nodes =
     [(1, (sample_node VDIR [] None (Some 0) None None)\<lparr>vn_ops := root_ops\<rparr>),
      (2, sample_node VDIR [([DOT], 2), (n_etc, 3), (n_mnt, 5), (n_self, 8)] (Some 0) None (Some 1) None),
      (3, sample_node VDIR [([DOT], 3), ([DOT, DOT], 2), (n_passwd, 4)] (Some 0) None None None),
      (4, sample_node VREG [] (Some 0) None None None),
      (5, sample_node VDIR [([DOT], 5), ([DOT, DOT], 2)] (Some 0) (Some 7) None None),
      (6, sample_node VDIR [([DOT], 6)] (Some 7) None (Some 5) None),
      (8, sample_node VLNK [] (Some 0) None None (Some (SLASH # n_self @ [0])))]"

definition tree :: world where
  "tree = \<lparr>w_vns = map_of tree_nodes, w_objs = Map.empty, w_phys = sample_phys,
     w_fss = [0 \<mapsto> \<lparr>fs_root = Some 2, seq_ino = 9\<rparr>, 7 \<mapsto> \<lparr>fs_root = Some 6, seq_ino = 2\<rparr>], w_next = 9, w_kz = [],
     w_junk = 0xAA, w_now = 0, w_root = 1, w_cwd = Some 5, w_filesystems = dir_table []\<rparr>"

lemma tree_fields [simp]: "w_kz tree = []" "w_next tree = 9" "w_root tree = 1" "w_cwd tree = Some 5" "w_junk tree = 0xAA"
  "w_fss tree = [0 \<mapsto> \<lparr>fs_root = Some 2, seq_ino = 9\<rparr>, 7 \<mapsto> \<lparr>fs_root = Some 6, seq_ino = 2\<rparr>]"
  by (simp_all add: tree_def)

lemma node_fields [simp]:
  "vn_ops (sample_node type kvs vfs mnt cov lp) = tmpfs_vn_op" "vn_type (sample_node type kvs vfs mnt cov lp) = type"
  "vn_refcnt (sample_node type kvs vfs mnt cov lp) = 1" "\<not> vn_locked (sample_node type kvs vfs mnt cov lp)"
  "vn_vfs (sample_node type kvs vfs mnt cov lp) = vfs" "vn_mounted_vfs (sample_node type kvs vfs mnt cov lp) = mnt"
  "vn_node_covered (sample_node type kvs vfs mnt cov lp) = cov" "tn_link_path (sample_node type kvs vfs mnt cov lp) = lp"
  "tn_children (sample_node type kvs vfs mnt cov lp) = dir_table kvs"
  by (simp_all add: sample_node_def sample_vnode_def)

lemma tree_node: "w_vns tree v = map_of tree_nodes v"
  by (simp add: tree_def)

lemmas tree_simps = tree_node tree_nodes_def tmpfs_getroot_def

lemma node_map: "children_map (sample_node type kvs vfs mnt cov lp) c = map_option (\<lambda>v. unat (word_of_nat v :: u64)) (map_of (rev kvs) c)"
  using dir_table_ok [of kvs] by (simp add: children_map_def option.map_comp comp_def)

text \<open>A node whose entries are nodes of a list.\<close>

definition leads_to :: "nat set \<Rightarrow> hashtable \<Rightarrow> bool" where
  "leads_to V t \<longleftrightarrow> (\<forall>c p. ht_map t c = Some p \<longrightarrow> unat p \<in> V)"

lemma leads_toI:
  assumes "\<forall>(k, v) \<in> set kvs. v \<in> V \<and> v < 2 ^ 64"
  shows "leads_to V (dir_table kvs)"
  unfolding leads_to_def
proof (intro allI impI)
  fix c p assume "ht_map (dir_table kvs) c = Some p"
  then obtain v where v: "map_of (rev kvs) c = Some v" "p = word_of_nat v" using dir_table_ok [of kvs] by auto
  then have "(c, v) \<in> set kvs" using map_of_SomeD [OF v(1)] by simp
  then show "unat p \<in> V" using assms v(2) unat_nat by fastforce
qed

lemma tree_resolve: "resolve 2 (Some 1) tree = Inr 2" "resolve 2 (Some 2) tree = Inr 2" "resolve 2 (Some 3) tree = Inr 3"
  "resolve 2 (Some 4) tree = Inr 4" "resolve 2 (Some 5) tree = Inr 6" "resolve 2 (Some 6) tree = Inr 6" "resolve 2 (Some 8) tree = Inr 8"
  "resolve_upward 2 6 tree = Inr 5"
  by (simp_all add: tree_simps numeral_2_eq_2)

lemma tree_ready: "v \<in> {2, 3, 4, 5, 6, 8} \<Longrightarrow> ready v tree"
  by (auto simp: ready_def tree_simps)

lemma tree_in_order: "fs_ok 2 2 tree"
proof -
  have node: "v \<in> {2, 3, 4, 5, 6, 8} \<and> w_vns tree v = Some vn" if "w_vns tree v = Some vn" "vn_ops vn = tmpfs_vn_op" for v vn
    using that by (auto simp: tree_simps split: if_splits)
  have inv: "ht_inv (tn_children vn)" if "w_vns tree v = Some vn" for v vn
    using that dir_table_ok by (auto simp: tree_simps split: if_splits)
  have kids: "unat p \<in> {2, 3, 4, 5, 6, 8}" if "w_vns tree v = Some vn" "ht_map (tn_children vn) c = Some p" for v vn c p
  proof -
    have "leads_to {2, 3, 4, 5, 6, 8} (tn_children vn)" using that(1) by (auto simp: tree_simps leads_toI split: if_splits)
    then show ?thesis using that(2) by (auto simp: leads_to_def)
  qed
  have ops: "\<exists>un. w_vns tree v = Some un \<and> vn_ops un = tmpfs_vn_op" if "v \<in> {2, 3, 4, 5, 6, 8}" for v
    using that by (auto simp: tree_simps)
  have res: "\<exists>r. resolve 2 (Some v) tree = Inr r \<and> ready r tree" if "v \<in> {2, 3, 4, 5, 6, 8}" for v
    using that tree_resolve tree_ready by auto
  have up: "\<exists>u. resolve_upward 2 v tree = Inr u \<and> ready u tree" if "w_vns tree v = Some vn" "vn_ops vn = tmpfs_vn_op" "v \<noteq> 2" "vn_node_covered vn \<noteq> None" for v vn
  proof -
    have "v = 6" using that by (auto simp: tree_simps split: if_splits)
    then show ?thesis using tree_resolve tree_ready by auto
  qed
  have nz: "p \<noteq> 0" if "unat p \<in> {2, 3, 4, 5, 6, 8}" for p :: u64 using that by auto
  show ?thesis
    unfolding fs_ok_def
  proof (intro conjI allI impI)
    show "w_kz tree = []" "resolve 2 (Some (w_root tree)) tree = Inr 2" using tree_resolve(1) by simp_all
  next
    fix v vn assume v: "w_vns tree v = Some vn" "vn_ops vn = tmpfs_vn_op"
    have m: "v \<in> {2, 3, 4, 5, 6, 8}" using node [OF v] by blast
    show "ready v tree" by (rule tree_ready [OF m])
    show "\<exists>r. resolve 2 (Some v) tree = Inr r \<and> ready r tree" by (rule res [OF m])
    show "\<exists>u. resolve_upward 2 v tree = Inr u \<and> ready u tree" if "v \<noteq> 2" "vn_node_covered vn \<noteq> None" by (rule up [OF v that])
    show "ht_inv (tn_children vn)" by (rule inv [OF v(1)])
    fix c p assume p: "ht_map (tn_children vn) c = Some p"
    show "p \<noteq> 0" by (rule nz [OF kids [OF v(1) p]])
    show "\<exists>un. w_vns tree (unat p) = Some un \<and> vn_ops un = tmpfs_vn_op" by (rule ops [OF kids [OF v(1) p]])
  qed
qed

end
