(* ===== verification/VfsProperties.thy ===== *)
theory VfsProperties
  imports VfsSamples
begin

text \<open>
  The properties of paths, of creating, reading and mounting directories, with the sample tree.
\<close>

unbundle bit_operations_syntax

section \<open>The tree by evaluation\<close>

lemma tree_entry: "entry tree v c = (case map_of tree_nodes v of None \<Rightarrow> None | Some vn \<Rightarrow> children_map vn c)"
  by (simp add: entry_def tree_node children_map_def split: option.splits)

lemma root_node_map: "children_map (sample_node type kvs vfs mnt cov lp\<lparr>vn_ops := ops\<rparr>) c =
    children_map (sample_node type kvs vfs mnt cov lp) c"
  by (simp add: children_map_def)

lemmas tree_eval = tree_entry tree_nodes_def node_map root_node_map mounted_def tree_resolve base_of_def top_def tree_node type_of_def
  n_etc_def n_mnt_def n_passwd_def n_self_def DOT_def SLASH_def

text \<open>\<open>/mnt/../etc/passwd\<close> and \<open>/etc/new\<close>.\<close>

definition p_passwd :: buf where
  "p_passwd = SLASH # n_mnt @ SLASH # [DOT, DOT] @ SLASH # n_etc @ SLASH # n_passwd"

definition p_new :: buf where "p_new = SLASH # n_etc @ SLASH # [0x6E, 0x65, 0x77]"

lemma components_cut: "SLASH \<notin> set c \<Longrightarrow> c \<noteq> [] \<Longrightarrow> components (c @ SLASH # s) = c # components s"
proof (cases c)
  case (Cons x xs)
  moreover assume "SLASH \<notin> set c"
  ultimately have x: "x \<noteq> SLASH" "takeWhile (\<lambda>c. c \<noteq> SLASH) (xs @ SLASH # s) = xs"
      "dropWhile (\<lambda>c. c \<noteq> SLASH) (xs @ SLASH # s) = SLASH # s"
    by (auto simp: takeWhile_append dropWhile_append)
  show ?thesis unfolding Cons append_Cons components_name [OF x(1)] x(2,3) by simp
qed simp

lemma components_last: "SLASH \<notin> set c \<Longrightarrow> c \<noteq> [] \<Longrightarrow> components c = [c]"
  using components_absolute [of c] by simp

lemma name_chars: "SLASH \<notin> set n_etc" "SLASH \<notin> set n_mnt" "SLASH \<notin> set n_passwd" "SLASH \<notin> set n_self" "SLASH \<notin> set [DOT, DOT]"
  "SLASH \<notin> set [0x6E, 0x65, 0x77]" "n_etc \<noteq> []" "n_mnt \<noteq> []" "n_passwd \<noteq> []" "n_self \<noteq> []"
  by (simp_all add: tree_eval)

lemma path_comps: "components p_passwd = [n_mnt, [DOT, DOT], n_etc, n_passwd]" "components p_new = [n_etc, [0x6E, 0x65, 0x77]]"
  unfolding p_passwd_def p_new_def components_slash
  by (simp_all only: components_cut components_last name_chars not_Cons_self2 list.distinct simp_thms)

lemma closed_string: "0 \<notin> set s \<Longrightarrow> terminated (s @ [0]) 0 \<and> cstr (s @ [0]) 0 = s"
  using cstr_middle [of s "[]" "[]"] by auto

lemma tree_start: "may_start 2 tree (SLASH # s) None" "start_of 2 tree (SLASH # s) None = 2"
  using tree_ready [of 2] by (simp_all add: may_start_def start_of_def tree_eval)

section \<open>Paths\<close>

text \<open>C9: Cutting a path in place gives its components, one string after the other, and their number, whatever
  the number and place of the slashes.\<close>

theorem path_components:
  assumes "terminated b 0"
  shows "\<exists>rest. split_path b = Inr (length (components (cstr b 0)), layout (components (cstr b 0)) @ rest)"
  by (rule split_path_ok [OF assms])

lemma path_components_witness:
  "\<exists>rest. split_path (p_passwd @ [0]) = Inr (4, n_mnt @ [0] @ [DOT, DOT] @ [0] @ n_etc @ [0] @ n_passwd @ [0] @ rest)"
proof -
  have "0 \<notin> set p_passwd" by (simp add: p_passwd_def tree_eval)
  then show ?thesis using path_components [of "p_passwd @ [0]"] closed_string [of p_passwd] path_comps(1) by (simp add: eval_nat_numeral)
qed

text \<open>C7: Looking up a path along which no symbolic link is followed and no directory that was mounted over is
  named by \<open>.\<close> (the walk is not \<open>Odd\<close>) follows the directories, mounts and \<open>..\<close> as the walk over the tree does,
  and returns what the walk ends in: on success exactly that vnode locked and with one more reference, on an
  error with all locks and references as before the call. The excluded paths are those on which the code keeps a
  reference too many (a link that cannot be resolved, or leads back to its directory) or drops one twice (\<open>.\<close> in a
  directory that was mounted over), so the claim is not made for them. Memory is taken to be there (\<open>fs_ok\<close>), and a last
  component that is asked for to fit its copy.\<close>

theorem lookup_follows_path:
  assumes "fs_ok fuel root w" and "may_start root w s cwd"
    and "terminated b 0" "cstr b 0 = s" "s \<noteq> []"
    and "path_to fuel w root flags (start_of root w s cwd) s \<noteq> Odd"
    and "want_last \<longrightarrow> components s \<noteq> [] \<longrightarrow> fits (last (components s))"
  shows "vfs_lookup_path (Suc fuel) (Some b) cwd flags want_last out (handed cwd w) =
     Inr (lookup_result want_last w (last_comp s) (path_to fuel w root flags (start_of root w s cwd) s))"
  by (rule vfs_lookup_ok [OF assms])

lemma lookup_follows_path_witness:
  "vfs_lookup_path 3 (Some (p_passwd @ [0])) None 0 False None tree = Inr (YAK_SUCCESS, Some 4, None, hold 4 tree)"
proof -
  have s: "p_passwd = SLASH # tl p_passwd" "0 \<notin> set p_passwd" by (simp_all add: p_passwd_def tree_eval)
  have "path_to 2 tree 2 0 2 p_passwd = Found 4"
    unfolding path_to_def path_comps by (simp add: p_passwd_def tree_eval Let_def)
  then show ?thesis
    using lookup_follows_path [OF tree_in_order, of p_passwd None "p_passwd @ [0]" 0 False None] tree_start [of "tl p_passwd"]
      closed_string [OF s(2)] s(1)
    by (simp add: lookup_result_def handed_def last_of_def numeral_3_eq_3 [symmetric] p_passwd_def del: vfs_lookup_path.simps)
qed

section \<open>Creating\<close>

lemma tree_node_at: "v \<in> {3, 5} \<Longrightarrow> \<exists>vn. w_vns tree v = Some vn \<and> can_create tree v vn \<and> vn_ops vn = tmpfs_vn_op \<and> vn_type vn = VDIR"
proof -
  assume v: "v \<in> {3, 5}"
  have nz: "ht_map (dir_table kvs) c \<noteq> Some 0" if "\<forall>(k, v) \<in> set kvs. v \<in> {1..8} \<and> v < 2 ^ 64" for kvs c
    using leads_toI [OF that] unfolding leads_to_def by (metis atLeastAtMost_iff not_one_le_zero unsigned_0)
  show ?thesis using v dir_table_ok nz by (auto simp: tree_node tree_nodes_def can_create_def)
qed

lemma small_fits: "c \<noteq> [] \<Longrightarrow> length c < 15 \<Longrightarrow> fits c \<and> name_fits c"
  unfolding fits_def name_fits_def kmalloc_usable_def kmalloc_sizes_def by (simp add: eval_nat_numeral)

text \<open>C8: A file or directory created by its path is then found by it: the new node, with its links, is the
  only difference to the tree, which is in order again.\<close>

theorem created_is_found:
  assumes "fs_ok fuel root w" and "may_start root w s None"
    and "terminated b 0" "cstr b 0 = s" "s \<noteq> []" "s \<noteq> [SLASH]" "s \<noteq> [DOT]"
    and "path_to fuel w root VFS_LOOKUP_PARENT (start_of root w s None) s = Found d"
    and "last (components s) = c" "c \<noteq> [DOT, DOT]" "fits c" "name_fits c"
    and "can_create w d pn" "vn_ops pn = tmpfs_vn_op" "vn_type pn = VDIR" "children_map pn c = None"
    and "w_vns w 0 = None" "0 < w_next w"
    and "type \<noteq> VLNK" "last s = SLASH \<longrightarrow> type = VDIR"
  shows "\<exists>w'. vfs_create (Suc fuel) (Some b) type attr out w = Inr (YAK_SUCCESS, Some (w_next w), w') \<and>
     created w d type c w' \<and> fs_ok fuel root w' \<and>
     vfs_lookup_path (Suc fuel) (Some b) None 0 False out w' = Inr (YAK_SUCCESS, Some (w_next w), None, hold (w_next w) w')"
  by (rule create_then_find [OF assms])

lemma created_is_found_witness:
  "\<exists>w'. vfs_create 3 (Some (p_new @ [0])) VREG zero_vattr None tree = Inr (YAK_SUCCESS, Some 9, w') \<and>
     created tree 3 VREG [0x6E, 0x65, 0x77] w' \<and>
     vfs_lookup_path 3 (Some (p_new @ [0])) None 0 False None w' = Inr (YAK_SUCCESS, Some 9, None, hold 9 w')"
proof -
  have s: "p_new = SLASH # tl p_new" "0 \<notin> set p_new" "p_new \<noteq> [SLASH]" "p_new \<noteq> [DOT]" "last p_new \<noteq> SLASH" "p_new \<noteq> []"
    by (simp_all add: p_new_def tree_eval)
  have st: "may_start 2 tree p_new None" "start_of 2 tree p_new None = 2" using tree_start [of "tl p_new"] s(1) by metis+
  obtain pn where pn: "w_vns tree 3 = Some pn" "can_create tree 3 pn" "vn_ops pn = tmpfs_vn_op" "vn_type pn = VDIR"
    using tree_node_at [of 3] by auto
  have path: "path_to 2 tree 2 VFS_LOOKUP_PARENT (start_of 2 tree p_new None) p_new = Found 3"
    unfolding path_to_def path_comps st(2) by (simp add: p_new_def tree_eval Let_def VFS_LOOKUP_PARENT_def)
  have new: "children_map pn [0x6E, 0x65, 0x77] = None" using pn(1) by (auto simp: tree_eval)
  have small: "fits [0x6E, 0x65, 0x77]" "name_fits [0x6E, 0x65, 0x77]" using small_fits [of "[0x6E, 0x65, 0x77]"] by simp_all
  show ?thesis
    using created_is_found [OF tree_in_order st(1) closed_string [OF s(2), THEN conjunct1] closed_string [OF s(2), THEN conjunct2] s(6,3,4)
        path, of "[0x6E, 0x65, 0x77]" pn VREG zero_vattr None] pn(2-4) new small s(5)
    by (simp add: path_comps DOT_def tree_node tree_nodes_def numeral_3_eq_3 [symmetric] del: vfs_lookup_path.simps) blast
qed

text \<open>Creating \<open>/\<close> does not report that it exists: a node is made and entered in the root directory under the
  name \<open>/\<close>, which is no component of any path.\<close>

theorem slash_is_created:
  assumes "fs_ok fuel root w" "may_start root w [SLASH] None" "can_create w root rn" "children_map rn [SLASH] = None"
  shows "\<exists>w'. vfs_create (Suc fuel) (Some [SLASH, 0]) type attr out w = Inr (YAK_SUCCESS, Some (w_next w), w') \<and>
     entry w' root [SLASH] = Some (w_next w) \<and> [SLASH] \<notin> set (components s)"
proof -
  have b: "terminated [SLASH, 0] 0" "cstr [SLASH, 0] 0 = [SLASH]" using closed_string [of "[SLASH]"] by (simp_all add: SLASH_def)
  have path: "path_to fuel w root VFS_LOOKUP_PARENT (start_of root w [SLASH] None) [SLASH] = Found root"
    by (simp add: path_to_def start_of_def)
  have "ready root w" "last_comp [SLASH] = [SLASH]" "fits [SLASH]" "name_fits [SLASH]"
    using assms(2) small_fits [of "[SLASH]"] by (simp_all add: may_start_def last_comp_def)
  then obtain w' where w': "vfs_create (Suc fuel) (Some [SLASH, 0]) type attr out w = Inr (YAK_SUCCESS, Some (w_next w), w')"
      "created w root type [SLASH] w'"
    using vfs_create_ok [OF assms(1,2) b _ path, of "[SLASH]" rn type attr out] assms(3,4) by auto
  then obtain pn pn' vn where "created_nodes w root type [SLASH] pn pn' vn w'" by (auto simp: created_def)
  then have "entry w' root [SLASH] = Some (w_next w)" by (simp add: created_nodes_def entry_children)
  moreover have "[SLASH] \<notin> set (components s)" using components_chars [of "[SLASH]" s] by auto
  ultimately show ?thesis using w' by blast
qed

lemma slash_is_created_witness:
  "\<exists>w'. vfs_create 3 (Some [SLASH, 0]) VDIR zero_vattr None tree = Inr (YAK_SUCCESS, Some 9, w') \<and> entry w' 2 [SLASH] = Some 9"
proof -
  obtain rn where rn: "can_create tree 2 rn" "children_map rn [SLASH] = None"
  proof
    let ?rn = "sample_node VDIR [([DOT], 2), (n_etc, 3), (n_mnt, 5), (n_self, 8)] (Some 0) None (Some 1) None"
    have "leads_to {1..8} (tn_children ?rn)" by (simp add: leads_toI)
    then have "ht_map (tn_children ?rn) c \<noteq> Some 0" for c
      unfolding leads_to_def by (metis atLeastAtMost_iff not_one_le_zero unsigned_0)
    then show "can_create tree 2 ?rn" using dir_table_ok by (simp add: can_create_def tree_node tree_nodes_def)
    show "children_map ?rn [SLASH] = None" by (simp add: tree_eval)
  qed
  show ?thesis
    using slash_is_created [OF tree_in_order tree_start(1) rn, of VDIR zero_vattr None]
    by (simp add: numeral_3_eq_3 [symmetric]) blast
qed

text \<open>C38: A new name whose length fills its block (16, 48, 112 characters and so on) is terminated past the end
  of the block by \<open>tmpfs_create\<close>.\<close>

theorem full_name_overruns:
  assumes "can_create w pv pn" "terminated b p" "length (cstr b p) = kmalloc_usable (length (cstr b p))"
    and "children_map pn (cstr b p) = None"
  shows "tmpfs_create (Some pv) type b p attr out w = Inl OutOfBounds"
  by (rule create_overruns [OF assms])

lemma full_name_overruns_witness:
  "tmpfs_create (Some 3) VREG (replicate 16 0x61 @ [0]) 0 zero_vattr None tree = Inl OutOfBounds"
proof -
  let ?n = "replicate 16 (0x61 :: u8)"
  obtain pn where pn: "w_vns tree 3 = Some pn" "can_create tree 3 pn" using tree_node_at [of 3] by auto
  have b: "terminated (?n @ [0]) 0" "cstr (?n @ [0]) 0 = ?n" using closed_string [of ?n] by simp_all
  have "children_map pn ?n = None" using pn(1) by (auto simp: tree_eval numeral_eq_Suc)
  then show ?thesis using full_name_overruns [OF pn(2) b(1)] b(2) kmalloc_tight(1) by simp
qed

section \<open>Reading a directory\<close>

text \<open>C10: A program that reads a directory in pieces, with a buffer that holds any one entry, needs at most one
  call more than there are entries to come to the end, and gets every name of the directory exactly once.\<close>

theorem directory_is_listed:
  assumes "w_vns w v = Some vn" "dir_ok w vn"
    and "\<forall>e \<in> set (live_entries (tn_children vn)). dirent_len (he_key_len e) \<le> bufsize"
    and "length (listing w vn) < calls"
  shows "list_dir calls v bufsize 0 w = Inr (listing w vn) \<and> distinct (map d_name (listing w vn)) \<and>
    set (map d_name (listing w vn)) = dom (ht_map (tn_children vn))"
  using list_dir_ok [OF assms(1-3), of 0 calls] assms(4) listing_names [OF assms(2)] by simp

lemma directory_is_listed_witness:
  "\<exists>ds. list_dir 4 3 32 0 tree = Inr ds \<and> distinct (map d_name ds) \<and> set (map d_name ds) = {[DOT], [DOT, DOT], n_passwd}"
proof -
  let ?t = "dir_table [([DOT], 3), ([DOT, DOT], 2), (n_passwd, 4)]"
  let ?vn = "sample_node VDIR [([DOT], 3), ([DOT, DOT], 2), (n_passwd, 4)] (Some 0) None None None"
  have vn: "w_vns tree 3 = Some ?vn" by (simp add: tree_node tree_nodes_def)
  have inv: "ht_inv ?t" using dir_table_ok by blast
  have dm: "dom (ht_map ?t) = {[DOT], [DOT, DOT], n_passwd}"
    using dir_table_ok [of "[([DOT], 3), ([DOT, DOT], 2), (n_passwd, 4)]"] by (auto simp: dom_def DOT_def n_passwd_def split: if_splits)
  have "leads_to {2, 3, 4} ?t" by (simp add: leads_toI)
  then have dir: "dir_ok tree ?vn"
    using inv by (auto simp: dir_ok_def leads_to_def tree_node tree_nodes_def)
  have room: "\<forall>e \<in> set (live_entries (tn_children ?vn)). dirent_len (he_key_len e) \<le> 32"
  proof
    fix e assume "e \<in> set (live_entries (tn_children ?vn))"
    then obtain c where c: "he_key_len e = length c" "c \<in> dom (ht_map ?t)" using live_map(1) [of "tn_children ?vn" e] inv by auto
    then have "length c \<le> 6" unfolding dm by (auto simp: n_passwd_def)
    then have "(19 + length c + 1 + 7) div 8 \<le> 33 div 8" by (intro div_le_mono) simp
    then show "dirent_len (he_key_len e) \<le> 32" using c(1) by (simp add: dirent_len_def)
  qed
  have "distinct (map d_name (listing tree ?vn))" "set (map d_name (listing tree ?vn)) = {[DOT], [DOT, DOT], n_passwd}"
    using listing_names [OF dir] dm by simp_all
  then have "length (listing tree ?vn) = card {[DOT], [DOT, DOT], n_passwd}" by (metis distinct_card length_map)
  then have "length (listing tree ?vn) < 4" by (simp add: DOT_def n_passwd_def)
  from directory_is_listed [OF vn dir room this] show ?thesis using dm by auto
qed

section \<open>Links and mounts\<close>

text \<open>C37: Looking up a symbolic link to itself recurses without a bound: for every number of levels the lookup
  has not returned.\<close>

theorem self_link_recurses:
  assumes "self_link w root c link" "SLASH \<notin> set c" "c \<noteq> []" "c \<noteq> [DOT, DOT]"
    and "terminated b 0" "cstr b 0 = SLASH # c" "cwd = None \<or> w_vns w (the cwd) \<noteq> None"
  shows "\<forall>fuel. vfs_lookup_path fuel (Some b) cwd 0 want_last out w = Inl Diverges"
  using self_link_diverges [OF assms(2-4,1,5-7)] by blast

lemma self_link_recurses_witness:
  "\<forall>fuel. vfs_lookup_path fuel (Some (SLASH # n_self @ [0])) None 0 False None tree = Inl Diverges"
proof -
  have z: "0 \<notin> set (SLASH # n_self)" by (simp add: tree_eval)
  have "resolve f (Some 1) tree = Inr 2 \<or> resolve f (Some 1) tree = Inl Diverges" for f
    by (cases f; cases "f - 1") (auto simp: tree_simps)
  then have "self_link tree 2 n_self 8"
    using dir_table_ok [of "[([DOT], 2), (n_etc, 3), (n_mnt, 5), (n_self, 8)]"] closed_string [OF z]
    by (simp add: self_link_def tree_node tree_nodes_def n_self_def)
  then show ?thesis
    using self_link_recurses [of tree 2 n_self 8 "SLASH # n_self @ [0]" None] closed_string [OF z] name_chars
    by (simp add: n_self_def DOT_def)
qed

text \<open>\<open>.\<close> in a directory that was mounted over while it was held: the walk goes on in the mounted root, as
  elsewhere, and takes one reference too many from the directory.\<close>

theorem dot_loses_reference:
  assumes "fs_ok fuel root w" and "w_vns w d = Some vn" "vn_ops vn = tmpfs_vn_op" "vn_type vn = VDIR" "0 < vn_refcnt vn"
    and "terminated b p" "entry w d (cstr b p) = Some d"
    and "mounted fuel w d \<noteq> d" "type_of w (mounted fuel w d) = Some VDIR"
  shows "lookup_child fuel lookup flags want_dir want_last False b p d (hold d w) =
     Inr (Go (mounted fuel w d) (hold (mounted fuel w d) (upd d dec w)))"
  by (rule dot_drops_two [OF assms])

lemma dot_loses_reference_witness:
  "lookup_child 2 (vfs_lookup_path 2) 0 False False False ([DOT] @ [0]) 0 5 (hold 5 tree) = Inr (Go 6 (hold 6 (upd 5 dec tree)))"
proof -
  have b: "terminated ([DOT] @ [0]) 0" "cstr ([DOT] @ [0]) 0 = [DOT]" using closed_string [of "[DOT]"] by (simp_all add: DOT_def)
  have e: "entry tree 5 (cstr ([DOT] @ [0]) 0) = Some 5" unfolding b(2) by (simp add: tree_eval)
  have m: "mounted 2 tree 5 = 6" by (simp add: mounted_def tree_resolve)
  show ?thesis
    using dot_loses_reference [OF tree_in_order _ _ _ _ b(1) e, of _ "vfs_lookup_path 2" 0 False False] m
    by (simp add: tree_node tree_nodes_def type_of_def)
qed

text \<open>C11: Mounting an in-memory file system: its root, a new directory with the entry \<open>.\<close> alone, is what the
  covered vnode resolves to, going up from it leads to what is above the covered vnode, and no other vnode
  changes.\<close>

theorem mount_covers:
  assumes "w_vns w v = Some vn" "vn_refcnt vn + 1 < 2 ^ 64" "w_kz w = []"
    and "w_vns w (w_next w + 1) = None" "w_next w + 1 < 2 ^ 64"
  shows "\<exists>r w'. tmpfs_mount (Some v) w = Inr (YAK_SUCCESS, w') \<and> w_vns w r = None \<and>
     resolve (Suc (Suc f)) (Some v) w' = Inr r \<and> resolve_upward (Suc f) r w' = resolve_upward f v w' \<and>
     type_of w' r = Some VDIR \<and> entry w' r = [[DOT] \<mapsto> r] \<and>
     w_vns w' v = Some (vn\<lparr>vn_refcnt := vn_refcnt vn + 1, vn_mounted_vfs := Some (w_next w)\<rparr>) \<and>
     (\<forall>u. u \<noteq> v \<longrightarrow> u \<noteq> r \<longrightarrow> w_vns w' u = w_vns w u)"
  by (rule mount_ok [OF assms])

lemma mount_covers_witness:
  "\<exists>r w'. tmpfs_mount (Some 3) tree = Inr (YAK_SUCCESS, w') \<and> resolve 2 (Some 3) w' = Inr r \<and> entry w' r = [[DOT] \<mapsto> r] \<and>
     w_vns w' 5 = w_vns tree 5"
proof -
  obtain vn where vn: "w_vns tree 3 = Some vn" "vn_refcnt vn = 1" by (simp add: tree_node tree_nodes_def)
  obtain r w' where r: "tmpfs_mount (Some 3) tree = Inr (YAK_SUCCESS, w')" "w_vns tree r = None" "resolve (Suc (Suc 0)) (Some 3) w' = Inr r"
      "entry w' r = [[DOT] \<mapsto> r]" "\<forall>u. u \<noteq> 3 \<longrightarrow> u \<noteq> r \<longrightarrow> w_vns w' u = w_vns tree u"
    using mount_covers [OF vn(1), of 0] vn(2) by (auto simp: tree_node tree_nodes_def)
  have "r \<noteq> 5" using r(2) by (auto simp: tree_node tree_nodes_def)
  then show ?thesis using r by (auto simp: numeral_2_eq_2)
qed

end
