(* ===== verification/NTty.thy ===== *)
theory NTty
  imports RingBuffer
begin

text \<open>
  Terminals: the line discipline of \<^verbatim>\<open>kernel/io/tty/n_tty.c\<close> and the terminal core of \<^verbatim>\<open>kernel/io/tty/tty.c\<close>.
  What the driver is given to write is recorded, call by call, and so are the settings it is told. Each
  handler runs under \<open>read_mutex\<close> and is one step; a read that waits lets others run: \<open>waits\<close> lists, for every
  time it sleeps, the characters that arrive meanwhile and the status the wait ends with, and a read that
  sleeps after that never returns. \<open>char\<close> is signed.
\<close>

unbundle bit_operations_syntax

section \<open>Settings\<close>

record termios =
  c_iflag :: u32
  c_oflag :: u32
  c_cflag :: u32
  c_lflag :: u32
  c_line :: u8
  c_cc :: "u8 list"
  c_ibaud :: u32
  c_obaud :: u32

definition ICANON :: u32 where "ICANON = 2"
definition ECHO :: u32 where "ECHO = 8"
definition ECHONL :: u32 where "ECHONL = 0x40"
definition OPOST :: u32 where "OPOST = 1"
definition ONLCR :: u32 where "ONLCR = 4"
definition OCRNL :: u32 where "OCRNL = 8"

definition VERASE :: nat where "VERASE = 2"
definition VKILL :: nat where "VKILL = 3"
definition VEOF :: nat where "VEOF = 4"
definition VTIME :: nat where "VTIME = 5"
definition VMIN :: nat where "VMIN = 6"

record winsize =
  ws_row :: "16 word"
  ws_col :: "16 word"
  ws_xpixel :: "16 word"
  ws_ypixel :: "16 word"

record tty =
  t_session :: "nat option"
  t_termios :: termios
  t_winsize :: winsize
  t_data_available :: bool
  t_poll_alarms :: nat
  t_read_buf :: ringbuffer
  t_write_buf :: ringbuffer
  t_canonical_buf :: buf
  t_canonical_pos :: nat
  t_out :: "buf list"
  t_settings :: "termios list"

definition TTY_BUF_SIZE :: nat where "TTY_BUF_SIZE = 4096"

definition NL :: u8 where "NL = 0x0A"
definition CR :: u8 where "CR = 0x0D"

definition driver_write :: "buf \<Rightarrow> tty \<Rightarrow> tty" where
  "driver_write b tty = tty\<lparr>t_out := t_out tty @ [b]\<rparr>"

definition rubout :: buf where "rubout = [8, 0x20, 8]"

section \<open>Input\<close>

definition alarm :: "tty \<Rightarrow> tty" where
  "alarm tty = tty\<lparr>t_poll_alarms := t_poll_alarms tty + 1, t_data_available := True\<rparr>"

definition commit_line :: "tty \<Rightarrow> tty res" where
  "commit_line tty =
     (if t_canonical_pos tty = 0 then Inr tty
      else bindR (ringbuffer_put (t_read_buf tty) (t_canonical_buf tty) (t_canonical_pos tty)) (\<lambda>(_, rb).
        Inr (alarm (tty\<lparr>t_read_buf := rb, t_canonical_pos := 0\<rparr>))))"

definition do_echo :: "u8 \<Rightarrow> tty \<Rightarrow> tty" where
  "do_echo c tty =
     (let fl = c_lflag (t_termios tty) in
      if fl AND ECHO = 0 then (if c = NL \<and> fl AND ECHONL \<noteq> 0 then driver_write [c] tty else tty)
      else driver_write [c] tty)"

text \<open>A \<open>char\<close> compared with an \<open>unsigned char\<close>.\<close>

definition char_is :: "u8 \<Rightarrow> u8 \<Rightarrow> bool" where
  "char_is c cc \<longleftrightarrow> sint c = uint cc"

fun kill_line :: "nat \<Rightarrow> tty \<Rightarrow> tty" where
  "kill_line 0 tty = tty"
| "kill_line (Suc n) tty = kill_line n (driver_write rubout (tty\<lparr>t_canonical_pos := n\<rparr>))"

definition receive_char :: "tty \<Rightarrow> u8 \<Rightarrow> tty res" where
  "receive_char tty c =
     (let t = t_termios tty; pos = t_canonical_pos tty; echo = (c_lflag t AND ECHO \<noteq> 0) in
      if c_lflag t AND ICANON \<noteq> 0 then
        bindR (ld (c_cc t) VERASE) (\<lambda>verase.
        bindR (ld (c_cc t) VKILL) (\<lambda>vkill.
        bindR (ld (c_cc t) VEOF) (\<lambda>veof.
          if char_is c verase then
            Inr (if pos > 0 then
                   (let tty1 = tty\<lparr>t_canonical_pos := pos - 1\<rparr> in if echo then driver_write rubout tty1 else tty1)
                 else tty)
          else if char_is c vkill then
            Inr (if echo then kill_line pos tty else tty\<lparr>t_canonical_pos := 0\<rparr>)
          else if char_is c veof then commit_line tty
          else
            bindR (if pos < TTY_BUF_SIZE - 1
                   then bindR (st (t_canonical_buf tty) pos c) (\<lambda>b. Inr (tty\<lparr>t_canonical_buf := b, t_canonical_pos := pos + 1\<rparr>))
                   else Inr tty) (\<lambda>tty1.
              let tty2 = do_echo c tty1 in
              if c = NL then commit_line tty2 else Inr tty2))))
      else
        bindR (ringbuffer_put (t_read_buf tty) [c] 1) (\<lambda>(_, rb). Inr (alarm (tty\<lparr>t_read_buf := rb\<rparr>))))"

fun receive_chars :: "tty \<Rightarrow> u8 list \<Rightarrow> tty res" where
  "receive_chars tty [] = Inr tty"
| "receive_chars tty (c # cs) = bindR (receive_char tty c) (\<lambda>t. receive_chars t cs)"

section \<open>Reading\<close>

fun check_line_from :: "ringbuffer \<Rightarrow> nat \<Rightarrow> nat \<Rightarrow> nat res" where
  "check_line_from rb i 0 = Inr 0"
| "check_line_from rb i (Suc k) =
     bindR (ld (rb_data rb) ((rb_tail rb + i) mod rb_capacity rb)) (\<lambda>c.
       if c = NL then Inr (i + 1) else check_line_from rb (i + 1) k)"

definition check_line :: "ringbuffer \<Rightarrow> nat res" where
  "check_line rb = check_line_from rb 0 (ringbuffer_available rb)"

type_synonym waits = "(status \<times> u8 list) list"

text \<open>In canonical mode a wait that ends with an error panics.\<close>

fun read_line :: "waits \<Rightarrow> tty \<Rightarrow> buf \<Rightarrow> nat \<Rightarrow> (nat \<times> buf \<times> tty) res" where
  "read_line waits tty b len =
     (let tty1 = tty\<lparr>t_data_available := False\<rparr>; avail = ringbuffer_available (t_read_buf tty) in
      bindR (check_line (t_read_buf tty)) (\<lambda>n0.
        let n = (if n0 = 0 \<and> avail > 0 then avail else n0) in
        if n > 0 then
          bindR (ringbuffer_get (t_read_buf tty) b (min n len)) (\<lambda>(got, b', rb). Inr (got, b', tty1\<lparr>t_read_buf := rb\<rparr>))
        else
          case waits of
            [] \<Rightarrow> Inl Diverges
          | (rv, cs) # ws \<Rightarrow>
              bindR (receive_chars tty1 cs) (\<lambda>tty2. ensure (\<not> IS_ERR rv) KPanic (read_line ws tty2 b len))))"

text \<open>The loop of the other mode; a reader that has bytes to take does not sleep, so \<open>fuel\<close> counts its rounds.
  The timeouts decide which waits end with an error.\<close>

fun read_raw :: "nat \<Rightarrow> waits \<Rightarrow> u8 \<Rightarrow> u8 \<Rightarrow> nat \<Rightarrow> bool \<Rightarrow> tty \<Rightarrow> buf \<Rightarrow> nat \<Rightarrow> (nat \<times> buf \<times> tty) res" where
  "read_raw 0 waits vmin vtime got first_byte tty b len = Inl Diverges"
| "read_raw (Suc fuel) waits vmin vtime got first_byte tty b len =
     (if \<not> (got = 0 \<or> (vmin > 0 \<and> got < unat vmin)) then Inr (got, b, tty)
      else
        let tty1 = tty\<lparr>t_data_available := False\<rparr>; avail = ringbuffer_available (t_read_buf tty) in
        if avail > 0 then
          bindR (ringbuffer_get (t_read_buf tty) (drop got b) (min avail (len - got))) (\<lambda>(n, d, rb).
            let tty2 = tty1\<lparr>t_read_buf := rb\<rparr>; b2 = take got b @ d in
            if vmin = 0 then Inr (got + n, b2, tty2)
            else read_raw fuel waits vmin vtime (got + n) False tty2 b2 len)
        else
          case waits of
            [] \<Rightarrow> Inl Diverges
          | (rv, cs) # ws \<Rightarrow>
              bindR (receive_chars tty1 cs) (\<lambda>tty2.
                if IS_ERR rv then Inr (got, b, tty2)
                else if vtime > 0 \<and> \<not> first_byte \<and> ringbuffer_available (t_read_buf tty2) = 0 then Inr (got, b, tty2)
                else read_raw fuel ws vmin vtime got first_byte tty2 b len))"

definition n_tty_read :: "nat \<Rightarrow> waits \<Rightarrow> tty \<Rightarrow> buf \<Rightarrow> nat \<Rightarrow> (status \<times> nat \<times> buf \<times> tty) res" where
  "n_tty_read fuel waits tty b len =
     (let t = t_termios tty in
      bindR (if c_lflag t AND ICANON \<noteq> 0 then read_line waits tty b len
             else bindR (ld (c_cc t) VMIN) (\<lambda>vmin. bindR (ld (c_cc t) VTIME) (\<lambda>vtime.
                    read_raw fuel waits vmin vtime 0 True tty b len))) (\<lambda>(got, b', tty1).
        Inr (YAK_SUCCESS, got, b',
             if ringbuffer_available (t_read_buf tty1) = 0 then tty1\<lparr>t_data_available := False\<rparr> else tty1)))"

section \<open>Output and control\<close>

text \<open>One character, as \<open>write\<close> hands it to the driver.\<close>

definition write_char :: "u8 \<Rightarrow> tty \<Rightarrow> tty" where
  "write_char c tty =
     (let fl = c_oflag (t_termios tty) in
      if fl AND OPOST \<noteq> 0 \<and> c = NL \<and> fl AND ONLCR \<noteq> 0 then driver_write [CR, NL] tty
      else driver_write [if fl AND OPOST \<noteq> 0 \<and> c = CR \<and> fl AND OCRNL \<noteq> 0 then NL else c] tty)"

fun write_from :: "buf \<Rightarrow> nat \<Rightarrow> nat \<Rightarrow> tty \<Rightarrow> tty res" where
  "write_from b i 0 tty = Inr tty"
| "write_from b i (Suc k) tty = bindR (ld b i) (\<lambda>c. write_from b (i + 1) k (write_char c tty))"

definition n_tty_write :: "tty \<Rightarrow> buf \<Rightarrow> nat \<Rightarrow> (status \<times> nat \<times> tty) res" where
  "n_tty_write tty b len = bindR (write_from b 0 len tty) (\<lambda>tty'. Inr (YAK_SUCCESS, len, tty'))"

definition TCGETS :: u64 where "TCGETS = 0x5401"
definition TCSETS :: u64 where "TCSETS = 0x5402"

definition n_tty_ioctl :: "tty \<Rightarrow> u64 \<Rightarrow> termios \<Rightarrow> status \<times> termios \<times> tty" where
  "n_tty_ioctl tty com arg =
     (if com = TCGETS then (YAK_SUCCESS, t_termios tty, tty)
      else if com = TCSETS then (YAK_SUCCESS, arg, tty\<lparr>t_termios := arg, t_settings := t_settings tty @ [arg]\<rparr>)
      else (YAK_NOTTY, arg, tty))"

definition POLL_IN :: "16 word" where "POLL_IN = 1"
definition POLL_OUT :: "16 word" where "POLL_OUT = 4"

definition n_tty_poll :: "tty \<Rightarrow> 16 word \<Rightarrow> 16 word \<Rightarrow> (status \<times> 16 word) res" where
  "n_tty_poll tty events revents =
     (let r1 = (if events AND POLL_OUT \<noteq> 0 then revents OR POLL_OUT else revents) in
      if events AND POLL_IN \<noteq> 0 then
        bindR (if c_lflag (t_termios tty) AND ICANON \<noteq> 0 then bindR (check_line (t_read_buf tty)) (\<lambda>n. Inr (n > 0))
               else Inr (ringbuffer_available (t_read_buf tty) > 0)) (\<lambda>ready.
          Inr (YAK_SUCCESS, if ready then r1 OR POLL_IN else r1))
      else Inr (YAK_SUCCESS, r1))"

section \<open>The terminal core\<close>

text \<open>\<open>ttys\<close> is the array of terminals; \<open>ldisc_ops\<close> is always the discipline above.\<close>

definition MAX_TTY :: nat where "MAX_TTY = 64"

text \<open>The flags are \<open>BRKINT | ICRNL | IMAXBEL | IXON\<close>, \<open>OPOST | ONLCR\<close>, \<open>CREAD | CS8 | HUPCL\<close> and
  \<open>ECHO | ECHOE | ECHOK | ICANON | ISIG | IEXTEN\<close>.\<close>

definition default_termios :: termios where
  "default_termios = \<lparr>c_iflag = 0x2502, c_oflag = 5, c_cflag = 0x4B0, c_lflag = 0x803B, c_line = 0,
     c_cc = [3, 0x1C, 0x7F, 0x15, 4, 0, 1, 0, 0x11, 0x13, 0x1A, 0, 0x12, 0, 0x17, 0x16] @ replicate 16 0, c_ibaud = 0, c_obaud = 0\<rparr>"

definition tty_input :: "tty option \<Rightarrow> u8 \<Rightarrow> tty option res" where
  "tty_input tp c = (case tp of None \<Rightarrow> Inr None | Some tty \<Rightarrow> bindR (receive_char tty c) (\<lambda>t. Inr (Some t)))"

definition tty_at :: "tty option list \<Rightarrow> nat \<Rightarrow> tty res" where
  "tty_at ttys minor = bindR (ld ttys minor) (\<lambda>tp. case tp of None \<Rightarrow> Inl NullDeref | Some tty \<Rightarrow> Inr tty)"

definition tty_read :: "nat \<Rightarrow> waits \<Rightarrow> tty option list \<Rightarrow> nat \<Rightarrow> buf \<Rightarrow> nat \<Rightarrow> (status \<times> nat \<times> buf \<times> tty option list) res" where
  "tty_read fuel waits ttys minor b len =
     bindR (tty_at ttys minor) (\<lambda>tty. bindR (n_tty_read fuel waits tty b len) (\<lambda>(rv, got, b', tty').
       Inr (rv, got, b', ttys[minor := Some tty'])))"

definition tty_write :: "tty option list \<Rightarrow> nat \<Rightarrow> buf \<Rightarrow> nat \<Rightarrow> (status \<times> nat \<times> tty option list) res" where
  "tty_write ttys minor b len =
     bindR (tty_at ttys minor) (\<lambda>tty. bindR (n_tty_write tty b len) (\<lambda>(rv, n, tty').
       Inr (rv, n, ttys[minor := Some tty'])))"

definition TIOCSCTTY :: u64 where "TIOCSCTTY = 0x540E"
definition TIOCGPGRP :: u64 where "TIOCGPGRP = 0x540F"
definition TIOCSPGRP :: u64 where "TIOCSPGRP = 0x5410"
definition TIOCGWINSZ :: u64 where "TIOCGWINSZ = 0x5413"
definition TIOCSWINSZ :: u64 where "TIOCSWINSZ = 0x5414"
definition TIOCNOTTY :: u64 where "TIOCNOTTY = 0x5422"

text \<open>\<open>data\<close> points to a window size or to settings, as the request has it.\<close>

definition tty_core_ioctl :: "tty \<Rightarrow> u64 \<Rightarrow> winsize \<Rightarrow> status \<times> winsize \<times> tty" where
  "tty_core_ioctl tty com data =
     (if com = TIOCSWINSZ then (YAK_SUCCESS, data, tty\<lparr>t_winsize := data\<rparr>)
      else if com = TIOCGWINSZ then (YAK_SUCCESS, t_winsize tty, tty)
      else if com = TIOCGPGRP \<or> com = TIOCSPGRP then (YAK_SUCCESS, data, tty)
      else (YAK_NOTTY, data, tty))"

definition tty_ioctl :: "tty option list \<Rightarrow> nat \<Rightarrow> u64 \<Rightarrow> winsize \<times> termios \<Rightarrow>
    (status \<times> (winsize \<times> termios) \<times> tty option list) res" where
  "tty_ioctl ttys minor com data =
     bindR (ld ttys minor) (\<lambda>tp. case tp of None \<Rightarrow> Inl AssertFail | Some tty \<Rightarrow>
       case data of (ws, tio) \<Rightarrow>
       if com \<in> {TIOCSCTTY, TIOCNOTTY, TIOCGWINSZ, TIOCSWINSZ, TIOCGPGRP, TIOCSPGRP} then
         (case tty_core_ioctl tty com ws of (rv, ws', tty') \<Rightarrow> Inr (rv, (ws', tio), ttys[minor := Some tty']))
       else if com = TCGETS \<or> com = TCSETS then
         (case n_tty_ioctl tty com tio of (rv, tio', tty') \<Rightarrow> Inr (rv, (ws, tio'), ttys[minor := Some tty']))
       else Inr (YAK_NOTTY, data, ttys))"

definition tty_poll :: "tty option list \<Rightarrow> nat \<Rightarrow> 16 word \<Rightarrow> 16 word \<Rightarrow> (status \<times> 16 word) res" where
  "tty_poll ttys minor events revents =
     bindR (ld ttys minor) (\<lambda>tp. case tp of None \<Rightarrow> Inl AssertFail | Some tty \<Rightarrow> n_tty_poll tty events revents)"

record session =
  sid :: int
  ses_ctty :: "nat option"
  had_ctty :: bool

text \<open>A session leader without a controlling terminal takes the one it opens. \<open>proc\<close> and \<open>pid\<close> are those of the
  current process.\<close>

definition tty_open :: "nat \<Rightarrow> int \<Rightarrow> session \<Rightarrow> tty option list \<Rightarrow> nat \<Rightarrow> (status \<times> session \<times> tty option list) res" where
  "tty_open proc pid ses ttys minor =
     bindR (ld ttys minor) (\<lambda>tp.
       if sid ses = pid then
         (case tp of None \<Rightarrow> Inl NullDeref | Some tty \<Rightarrow>
            if \<not> had_ctty ses \<and> t_session tty = None then
              Inr (YAK_SUCCESS, ses\<lparr>ses_ctty := Some minor, had_ctty := True\<rparr>, ttys[minor := Some (tty\<lparr>t_session := Some proc\<rparr>)])
            else Inr (YAK_SUCCESS, ses, ttys))
       else Inr (YAK_SUCCESS, ses, ttys))"

fun free_minor :: "tty option list \<Rightarrow> nat \<Rightarrow> nat option" where
  "free_minor [] i = None"
| "free_minor (t # ts) i = (if t = None then Some i else free_minor ts (i + 1))"

text \<open>\<open>blank\<close> is what the allocated object holds, if memory was left; \<open>name_copy\<close> says whether the name could be
  copied, \<open>rmem\<close> and \<open>wmem\<close> are the memory of the two buffers, \<open>ws\<close> the size the driver reports. After a failed
  copy the object is freed and stays in the array.\<close>

definition tty_create :: "tty option \<Rightarrow> bool \<Rightarrow> buf option \<Rightarrow> buf option \<Rightarrow> winsize \<Rightarrow> tty option list \<Rightarrow>
    nat option \<times> tty option list" where
  "tty_create blank name_copy rmem wmem ws ttys =
     (case blank of None \<Rightarrow> (None, ttys) | Some t0 \<Rightarrow>
      case free_minor (take MAX_TTY ttys) 0 of None \<Rightarrow> (None, ttys) | Some minor \<Rightarrow>
      if \<not> name_copy then (None, ttys[minor := Some t0])
      else
        let rb = the (snd (ringbuffer_init rmem (Some (t_read_buf t0)) TTY_BUF_SIZE));
            wb = the (snd (ringbuffer_init wmem (Some (t_write_buf t0)) TTY_BUF_SIZE))
        in (Some minor, ttys[minor := Some (t0\<lparr>t_session := None, t_termios := default_termios, t_data_available := False,
              t_read_buf := rb, t_write_buf := wb, t_canonical_buf := replicate TTY_BUF_SIZE 0, t_canonical_pos := 0,
              t_winsize := ws\<rparr>)]))"

end
