(* ===== verification/TtyFacts.thy ===== *)
theory TtyFacts
  imports NTty
begin

text \<open>
  The line discipline implements an editor of lines: what is typed is a pair of the line being edited and the
  finished bytes (\<open>typed\<close>), and every character acts on it as \<open>edit\<close> does. Reading takes the first line.
\<close>

unbundle bit_operations_syntax

section \<open>The editor of lines\<close>

text \<open>What is typed, as a line being edited and the bytes of finished lines, \<open>cap\<close> at most.\<close>

definition edit :: "termios \<Rightarrow> nat \<Rightarrow> u8 \<Rightarrow> u8 list \<times> u8 list \<Rightarrow> u8 list \<times> u8 list" where
  "edit t cap c = (\<lambda>(line, ready).
     if char_is c (c_cc t ! VERASE) then (butlast line, ready)
     else if char_is c (c_cc t ! VKILL) then ([], ready)
     else if char_is c (c_cc t ! VEOF) then ([], ready @ take (cap - length ready) line)
     else let line1 = (if length line < TTY_BUF_SIZE - 1 then line @ [c] else line) in
          if c = NL then ([], ready @ take (cap - length ready) line1) else (line1, ready))"

definition tty_ok :: "tty \<Rightarrow> bool" where
  "tty_ok tty \<longleftrightarrow> rb_inv (t_read_buf tty) \<and> length (t_canonical_buf tty) = TTY_BUF_SIZE \<and> t_canonical_pos tty < TTY_BUF_SIZE \<and>
     length (c_cc (t_termios tty)) = 32"

definition typed :: "tty \<Rightarrow> u8 list \<times> u8 list" where
  "typed tty = (take (t_canonical_pos tty) (t_canonical_buf tty), rb_list (t_read_buf tty))"

definition canonical :: "tty \<Rightarrow> bool" where
  "canonical tty \<longleftrightarrow> c_lflag (t_termios tty) AND ICANON \<noteq> 0"

text \<open>Settings and capacity, which input does not change.\<close>

definition same_mode :: "tty \<Rightarrow> tty \<Rightarrow> bool" where
  "same_mode tty tty' \<longleftrightarrow> t_termios tty' = t_termios tty \<and> rb_capacity (t_read_buf tty') = rb_capacity (t_read_buf tty)"

lemma commit_ok:
  assumes "tty_ok tty" "typed tty = (line, ready)"
  shows "\<exists>tty'. commit_line tty = Inr tty' \<and> tty_ok tty' \<and> same_mode tty tty' \<and>
     typed tty' = ([], ready @ take (rb_capacity (t_read_buf tty) - length ready) line)"
proof (cases "t_canonical_pos tty = 0")
  case True
  then show ?thesis using assms by (auto simp: commit_line_def typed_def same_mode_def)
next
  case False
  have inv: "rb_inv (t_read_buf tty)" and pos: "t_canonical_pos tty \<le> length (t_canonical_buf tty)"
    using assms(1) by (simp_all add: tty_ok_def)
  obtain rb where "ringbuffer_put (t_read_buf tty) (t_canonical_buf tty) (t_canonical_pos tty) =
        Inr (min (t_canonical_pos tty) (rb_capacity (t_read_buf tty) - length (rb_list (t_read_buf tty))), rb)"
      "rb_inv rb" "rb_capacity rb = rb_capacity (t_read_buf tty)"
      "rb_list rb = rb_list (t_read_buf tty) @
         take (min (t_canonical_pos tty) (rb_capacity (t_read_buf tty) - length (rb_list (t_read_buf tty)))) (t_canonical_buf tty)"
    using ringbuffer_put_refines [OF inv pos] by blast
  then show ?thesis
    using False assms by (auto simp: commit_line_def alarm_def typed_def same_mode_def tty_ok_def min.commute)
qed

lemma driver_write_fields [simp]:
  "typed (driver_write b tty) = typed tty" "tty_ok (driver_write b tty) = tty_ok tty"
  "same_mode t0 (driver_write b tty) = same_mode t0 tty" "t_canonical_pos (driver_write b tty) = t_canonical_pos tty"
  "t_read_buf (driver_write b tty) = t_read_buf tty"
  by (simp_all add: driver_write_def typed_def tty_ok_def same_mode_def)

lemma do_echo_fields [simp]:
  "typed (do_echo c tty) = typed tty" "tty_ok (do_echo c tty) = tty_ok tty" "same_mode t0 (do_echo c tty) = same_mode t0 tty"
  "t_read_buf (do_echo c tty) = t_read_buf tty"
  by (simp_all add: do_echo_def Let_def)

lemma kill_line_ok:
  "tty_ok tty \<Longrightarrow> n \<le> t_canonical_pos tty \<Longrightarrow> tty_ok (kill_line n tty) \<and> same_mode tty (kill_line n tty) \<and>
     (t_canonical_pos tty = n \<longrightarrow> typed (kill_line n tty) = ([], snd (typed tty)))"
proof (induction n tty rule: kill_line.induct)
  case (1 tty)
  then show ?case by (simp add: typed_def same_mode_def)
next
  case (2 n tty)
  let ?t = "driver_write rubout (tty\<lparr>t_canonical_pos := n\<rparr>)"
  have "tty_ok ?t" "t_canonical_pos ?t = n" "same_mode tty ?t" "snd (typed ?t) = snd (typed tty)"
    using 2(2,3) by (simp_all add: tty_ok_def same_mode_def typed_def driver_write_def)
  then show ?case using 2(1) by (auto simp: same_mode_def)
qed

lemma receive_char_ok:
  assumes ok: "tty_ok tty" and can: "canonical tty"
  shows "\<exists>tty'. receive_char tty c = Inr tty' \<and> tty_ok tty' \<and> same_mode tty tty' \<and>
     typed tty' = edit (t_termios tty) (rb_capacity (t_read_buf tty)) c (typed tty)"
proof -
  let ?t = "t_termios tty" and ?pos = "t_canonical_pos tty" and ?b = "t_canonical_buf tty"
  obtain line ready where ab: "typed tty = (line, ready)" by fastforce
  have len: "length ?b = TTY_BUF_SIZE" "?pos < TTY_BUF_SIZE" "length (c_cc ?t) = 32" using ok by (simp_all add: tty_ok_def)
  have line: "line = take ?pos ?b" "ready = rb_list (t_read_buf tty)" "length line = ?pos"
    using ab len by (auto simp: typed_def)
  have cc: "ld (c_cc ?t) VERASE = Inr (c_cc ?t ! VERASE)" "ld (c_cc ?t) VKILL = Inr (c_cc ?t ! VKILL)" "ld (c_cc ?t) VEOF = Inr (c_cc ?t ! VEOF)"
    using len(3) by (simp_all add: VERASE_def VKILL_def VEOF_def)
  have icanon: "c_lflag ?t AND ICANON \<noteq> 0" using can by (simp add: canonical_def)
  consider (erase) "char_is c (c_cc ?t ! VERASE)" | (kill) "\<not> char_is c (c_cc ?t ! VERASE)" "char_is c (c_cc ?t ! VKILL)"
    | (eof) "\<not> char_is c (c_cc ?t ! VERASE)" "\<not> char_is c (c_cc ?t ! VKILL)" "char_is c (c_cc ?t ! VEOF)"
    | (plain) "\<not> char_is c (c_cc ?t ! VERASE)" "\<not> char_is c (c_cc ?t ! VKILL)" "\<not> char_is c (c_cc ?t ! VEOF)" by blast
  then show ?thesis
  proof cases
    case erase
    have "butlast line = take (?pos - 1) ?b" using line len by (simp add: butlast_take)
    then have less: "tty_ok (tty\<lparr>t_canonical_pos := ?pos - 1\<rparr>)" "same_mode tty (tty\<lparr>t_canonical_pos := ?pos - 1\<rparr>)"
        "typed (tty\<lparr>t_canonical_pos := ?pos - 1\<rparr>) = (butlast line, ready)"
      using ok len(2) line by (auto simp: tty_ok_def same_mode_def typed_def)
    have "?pos = 0 \<Longrightarrow> butlast line = line" using line by simp
    moreover have "same_mode tty tty" by (simp add: same_mode_def)
    ultimately have "\<exists>tty'. receive_char tty c = Inr tty' \<and> tty_ok tty' \<and> same_mode tty tty' \<and> typed tty' = (butlast line, ready)"
      using erase icanon cc ok less ab by (simp add: receive_char_def Let_def)
    then show ?thesis using erase ab by (simp add: edit_def)
  next
    case kill
    have "tty_ok (tty\<lparr>t_canonical_pos := 0\<rparr>)" "same_mode tty (tty\<lparr>t_canonical_pos := 0\<rparr>)" "typed (tty\<lparr>t_canonical_pos := 0\<rparr>) = ([], ready)"
      using ok len(2) line by (simp_all add: tty_ok_def same_mode_def typed_def)
    then have "\<exists>tty'. receive_char tty c = Inr tty' \<and> tty_ok tty' \<and> same_mode tty tty' \<and> typed tty' = ([], ready)"
      using kill icanon cc kill_line_ok [OF ok order_refl] ab by (simp add: receive_char_def Let_def)
    then show ?thesis using kill ab by (simp add: edit_def)
  next
    case eof
    then show ?thesis using icanon cc commit_ok [OF ok ab] ab by (auto simp: receive_char_def Let_def edit_def)
  next
    case plain
    let ?tty1 = "if ?pos < TTY_BUF_SIZE - 1 then tty\<lparr>t_canonical_buf := ?b[?pos := c], t_canonical_pos := ?pos + 1\<rparr> else tty"
    let ?line1 = "if length line < TTY_BUF_SIZE - 1 then line @ [c] else line"
    have one: "tty_ok ?tty1" "same_mode tty ?tty1" "typed ?tty1 = (?line1, ready)"
      using ok len line by (auto simp: tty_ok_def same_mode_def typed_def take_Suc_update)
    have step: "receive_char tty c = (if c = NL then commit_line (do_echo c ?tty1) else Inr (do_echo c ?tty1))"
      using plain icanon cc len by (simp add: receive_char_def Let_def)
    have e: "edit ?t (rb_capacity (t_read_buf tty)) c (typed tty) =
        (if c = NL then ([], ready @ take (rb_capacity (t_read_buf tty) - length ready) ?line1) else (?line1, ready))"
      using plain ab by (simp add: edit_def Let_def)
    show ?thesis
    proof (cases "c = NL")
      case True
      have "tty_ok (do_echo c ?tty1)" "typed (do_echo c ?tty1) = (?line1, ready)" using one by simp_all
      from commit_ok [OF this] obtain tty' where c: "commit_line (do_echo c ?tty1) = Inr tty'" "tty_ok tty'" "same_mode (do_echo c ?tty1) tty'"
          "typed tty' = ([], ready @ take (rb_capacity (t_read_buf (do_echo c ?tty1)) - length ready) ?line1)" by blast
      have sm: "same_mode tty (do_echo c ?tty1)" using one(2) by simp
      then have "rb_capacity (t_read_buf (do_echo c ?tty1)) = rb_capacity (t_read_buf tty)" by (simp only: same_mode_def)
      moreover have "same_mode tty tty'" using sm c(3) unfolding same_mode_def by metis
      ultimately show ?thesis unfolding step e using True c(1,2,4) by simp
    next
      case False
      then show ?thesis unfolding step e using one by simp
    qed
  qed
qed

lemma receive_chars_ok:
  "tty_ok tty \<Longrightarrow> canonical tty \<Longrightarrow> \<exists>tty'. receive_chars tty cs = Inr tty' \<and> tty_ok tty' \<and> same_mode tty tty' \<and>
     typed tty' = fold (edit (t_termios tty) (rb_capacity (t_read_buf tty))) cs (typed tty)"
proof (induction cs arbitrary: tty)
  case Nil
  then show ?case by (simp add: same_mode_def)
next
  case (Cons c cs)
  obtain t1 where t1: "receive_char tty c = Inr t1" "tty_ok t1" "same_mode tty t1"
      "typed t1 = edit (t_termios tty) (rb_capacity (t_read_buf tty)) c (typed tty)"
    using receive_char_ok [OF Cons.prems] by blast
  have "canonical t1" using Cons.prems(2) t1(3) by (simp add: canonical_def same_mode_def)
  from Cons.IH [OF t1(2) this] show ?case using t1 by (auto simp: same_mode_def)
qed

section \<open>Reading lines\<close>

definition first_line :: "u8 list \<Rightarrow> nat" where
  "first_line xs = (if NL \<in> set xs then length (takeWhile (\<lambda>c. c \<noteq> NL) xs) + 1 else length xs)"

lemma check_line_from_ok:
  assumes "rb_inv rb"
  shows "i + k = rb_size rb \<Longrightarrow> check_line_from rb i k =
     Inr (let xs = drop i (rb_list rb) in if NL \<in> set xs then i + length (takeWhile (\<lambda>c. c \<noteq> NL) xs) + 1 else 0)"
proof (induction k arbitrary: i)
  case (Suc k)
  have len: "i < length (rb_list rb)" using Suc.prems by simp
  have d: "drop i (rb_list rb) = rb_list rb ! i # drop (i + 1) (rb_list rb)" using Cons_nth_drop_Suc [OF len] by simp
  have at: "ld (rb_data rb) ((rb_tail rb + i) mod rb_capacity rb) = Inr (rb_list rb ! i)"
  proof -
    have "(rb_tail rb + i) mod rb_capacity rb < length (rb_data rb)" using assms unfolding rb_inv_def by (metis mod_less_divisor)
    then show ?thesis using len by (simp add: rb_list_nth)
  qed
  show ?case
  proof (cases "rb_list rb ! i = NL")
    case True
    then show ?thesis using at d by (simp add: Let_def)
  next
    case False
    then have "check_line_from rb (i + 1) k = Inr (let xs = drop (i + 1) (rb_list rb) in
        if NL \<in> set xs then i + 1 + length (takeWhile (\<lambda>c. c \<noteq> NL) xs) + 1 else 0)"
      using Suc by (simp add: Let_def)
    then show ?thesis unfolding d using at False by (simp add: Let_def)
  qed
qed simp

lemma check_line_ok:
  "rb_inv rb \<Longrightarrow> check_line rb = Inr (if NL \<in> set (rb_list rb) then first_line (rb_list rb) else 0)"
  using check_line_from_ok [of rb 0 "rb_size rb"] by (simp add: check_line_def ringbuffer_available_def first_line_def Let_def)

declare read_line.simps [simp del]

text \<open>With bytes ready the first line is returned, or all there is.\<close>

lemma read_line_ready:
  assumes ok: "tty_ok tty" and ab: "typed tty = (line, ready)" "ready \<noteq> []" and len: "len \<le> length b"
  defines "k \<equiv> min (first_line ready) len"
  shows "\<exists>tty'. read_line waits tty b len = Inr (k, take k ready @ drop k b, tty') \<and> tty_ok tty' \<and> same_mode tty tty' \<and>
    typed tty' = (line, drop k ready)"
proof -
  have inv: "rb_inv (t_read_buf tty)" and rd: "rb_list (t_read_buf tty) = ready" using ok ab by (simp_all add: tty_ok_def typed_def)
  have av: "ringbuffer_available (t_read_buf tty) = length ready" using rd rb_list_length by (metis ringbuffer_available_def)
  have fl: "0 < first_line ready" "first_line ready \<le> length ready"
  proof -
    show "0 < first_line ready" using ab(2) by (simp add: first_line_def)
    have "takeWhile (\<lambda>c. c \<noteq> NL) ready \<noteq> ready" if "NL \<in> set ready" using that takeWhile_eq_all_conv [of _ ready] by auto
    then have "length (takeWhile (\<lambda>c. c \<noteq> NL) ready) < length ready" if "NL \<in> set ready"
      using that length_takeWhile_le takeWhile_eq_take take_all_iff by (metis le_neq_implies_less order_refl)
    then show "first_line ready \<le> length ready" by (auto simp: first_line_def)
  qed
  have "k \<le> length b" using len by (simp add: k_def)
  then obtain rb where rb: "ringbuffer_get (t_read_buf tty) b k = Inr (k, take k ready @ drop k b, rb)" "rb_inv rb"
      "rb_capacity rb = rb_capacity (t_read_buf tty)" "rb_list rb = drop k ready"
    using ringbuffer_get_refines [OF inv, of k b] fl(2) unfolding rd k_def by (auto simp: min_absorb1 min_def split: if_splits)
  have n: "(if (if NL \<in> set ready then first_line ready else 0) = 0 \<and> length ready > 0 then length ready
      else (if NL \<in> set ready then first_line ready else 0)) = first_line ready"
    using fl ab(2) by (auto simp: first_line_def)
  have "read_line waits tty b len = Inr (k, take k ready @ drop k b, tty\<lparr>t_data_available := False, t_read_buf := rb\<rparr>)"
    unfolding read_line.simps [of waits] Let_def check_line_ok [OF inv] rd av bindR_simps n
    using fl(1) rb(1) by (simp add: k_def)
  then show ?thesis using ok ab rb by (auto simp: tty_ok_def same_mode_def typed_def)
qed

lemma finish_read:
  "tty_ok (tty\<lparr>t_data_available := x\<rparr>) = tty_ok tty" "typed (tty\<lparr>t_data_available := x\<rparr>) = typed tty"
  "same_mode t0 (tty\<lparr>t_data_available := x\<rparr>) = same_mode t0 tty" "same_mode (tty\<lparr>t_data_available := x\<rparr>) t0 = same_mode tty t0"
  "canonical (tty\<lparr>t_data_available := x\<rparr>) = canonical tty"
  by (simp_all add: tty_ok_def typed_def same_mode_def canonical_def)

lemma n_tty_read_line:
  assumes "canonical tty" "read_line waits tty b len = Inr (k, b', tty1)"
  shows "\<exists>x. n_tty_read fuel waits tty b len = Inr (YAK_SUCCESS, k, b', tty1\<lparr>t_data_available := x\<rparr>)"
proof (cases "ringbuffer_available (t_read_buf tty1) = 0")
  case True
  then show ?thesis using assms by (auto simp: n_tty_read_def canonical_def)
next
  case False
  then have "n_tty_read fuel waits tty b len = Inr (YAK_SUCCESS, k, b', tty1\<lparr>t_data_available := t_data_available tty1\<rparr>)"
    using assms by (simp add: n_tty_read_def canonical_def)
  then show ?thesis by blast
qed

text \<open>A reader that sleeps while the line is typed.\<close>

lemma sleep_then_read:
  assumes ok: "tty_ok tty" "canonical tty" and ab: "typed tty = (line, [])"
    and after: "fold (edit (t_termios tty) (rb_capacity (t_read_buf tty))) cs (line, []) = (line', ready')" "ready' \<noteq> []"
    and len: "len \<le> length b"
  defines "k \<equiv> min (first_line ready') len"
  shows "\<exists>tty'. n_tty_read fuel ((YAK_SUCCESS, cs) # ws) tty b len = Inr (YAK_SUCCESS, k, take k ready' @ drop k b, tty') \<and>
    tty_ok tty' \<and> same_mode tty tty' \<and> typed tty' = (line', drop k ready')"
proof -
  let ?t1 = "tty\<lparr>t_data_available := False\<rparr>"
  have inv: "rb_inv (t_read_buf tty)" and rd: "rb_list (t_read_buf tty) = []" using ok ab by (simp_all add: tty_ok_def typed_def)
  have av: "ringbuffer_available (t_read_buf tty) = 0" using rd rb_list_length by (metis list.size(3) ringbuffer_available_def)
  obtain t2 where t2: "receive_chars ?t1 cs = Inr t2" "tty_ok t2" "same_mode tty t2" "typed t2 = (line', ready')"
    using receive_chars_ok [of ?t1 cs] ok ab after(1) by (auto simp: finish_read)
  obtain t3 where t3: "read_line ws t2 b len = Inr (k, take k ready' @ drop k b, t3)" "tty_ok t3" "same_mode t2 t3"
      "typed t3 = (line', drop k ready')"
    using read_line_ready [OF t2(2,4) after(2) len, of ws] unfolding k_def by blast
  have "read_line ((YAK_SUCCESS, cs) # ws) tty b len = Inr (k, take k ready' @ drop k b, t3)"
    unfolding read_line.simps [of "_ # _"] Let_def check_line_ok [OF inv] rd av bindR_simps using t2(1) t3(1) by simp
  from n_tty_read_line [OF ok(2) this, of fuel] obtain x where
      "n_tty_read fuel ((YAK_SUCCESS, cs) # ws) tty b len = Inr (YAK_SUCCESS, k, take k ready' @ drop k b, t3\<lparr>t_data_available := x\<rparr>)" by blast
  moreover have "same_mode tty t3" using t2(3) t3(3) by (simp add: same_mode_def)
  ultimately show ?thesis using t3 by (auto simp: finish_read)
qed

section \<open>Reads that do not return\<close>

lemma eof_never_read:
  assumes ok: "tty_ok tty" "canonical tty" and ab: "typed tty = ([], [])"
    and eof: "char_is c (c_cc (t_termios tty) ! VEOF)" "\<not> char_is c (c_cc (t_termios tty) ! VERASE)" "\<not> char_is c (c_cc (t_termios tty) ! VKILL)"
  shows "read_line (replicate n (YAK_SUCCESS, [c])) tty b len = Inl Diverges"
  using ok ab eof
proof (induction n arbitrary: tty)
  case 0
  then have inv: "rb_inv (t_read_buf tty)" and rd: "rb_list (t_read_buf tty) = []" by (simp_all add: tty_ok_def typed_def)
  have av: "ringbuffer_available (t_read_buf tty) = 0" using rd rb_list_length by (metis list.size(3) ringbuffer_available_def)
  show ?case unfolding replicate_0 read_line.simps [of "[]"] Let_def check_line_ok [OF inv] rd av bindR_simps by simp
next
  case (Suc n)
  let ?t1 = "tty\<lparr>t_data_available := False\<rparr>"
  have inv: "rb_inv (t_read_buf tty)" and rd: "rb_list (t_read_buf tty) = []" using Suc.prems by (simp_all add: tty_ok_def typed_def)
  have av: "ringbuffer_available (t_read_buf tty) = 0" using rd rb_list_length by (metis list.size(3) ringbuffer_available_def)
  obtain t2 where t2: "receive_chars ?t1 [c] = Inr t2" "tty_ok t2" "same_mode tty t2" "typed t2 = ([], [])"
    using receive_chars_ok [of ?t1 "[c]"] Suc.prems by (auto simp: finish_read edit_def)
  have "canonical t2" using t2(3) Suc.prems(2) by (simp add: canonical_def same_mode_def)
  then have "read_line (replicate n (YAK_SUCCESS, [c])) t2 b len = Inl Diverges"
    using Suc.IH [OF t2(2) _ t2(4)] Suc.prems t2(3) by (simp add: same_mode_def)
  then show ?case
    unfolding replicate_Suc read_line.simps [of "_ # _"] Let_def check_line_ok [OF inv] rd av bindR_simps using t2(1) by simp
qed

text \<open>More bytes than the caller has room for, and \<open>VMIN\<close> asks for more than that.\<close>

lemma read_raw_spins:
  assumes v: "len < unat vmin"
  shows "rb_inv (t_read_buf tty) \<Longrightarrow> len - got < rb_size (t_read_buf tty) \<Longrightarrow> got \<le> len \<Longrightarrow> length b = len \<Longrightarrow>
     read_raw fuel waits vmin vtime got first_byte tty b len = Inl Diverges"
proof (induction fuel arbitrary: got first_byte tty b)
  case (Suc fuel)
  let ?n = "len - got"
  have more: "got = 0 \<or> (vmin > 0 \<and> got < unat vmin)" using v Suc.prems(3) by (auto simp: word_gt_0 unat_gt_0)
  have av: "ringbuffer_available (t_read_buf tty) > 0" "min (ringbuffer_available (t_read_buf tty)) ?n = ?n"
    using Suc.prems(2) by (simp_all add: ringbuffer_available_def)
  obtain rb where rb: "ringbuffer_get (t_read_buf tty) (drop got b) ?n = Inr (?n, take ?n (rb_list (t_read_buf tty)) @ drop ?n (drop got b), rb)"
      "rb_inv rb" "rb_list rb = drop ?n (rb_list (t_read_buf tty))"
    using ringbuffer_get_refines [OF Suc.prems(1), of ?n "drop got b"] Suc.prems(2,4) by (auto simp: min_def split: if_splits)
  have sz: "rb_size rb = rb_size (t_read_buf tty) - ?n" using arg_cong [OF rb(3), of length] by simp
  have "vmin \<noteq> 0" using v by auto
  have "read_raw fuel waits vmin vtime (got + ?n) False (tty\<lparr>t_data_available := False, t_read_buf := rb\<rparr>)
      (take got b @ take ?n (rb_list (t_read_buf tty)) @ drop ?n (drop got b)) len = Inl Diverges"
    by (rule Suc.IH) (use Suc.prems rb(2) sz in auto)
  then show ?case using more av rb(1) \<open>vmin \<noteq> 0\<close> by (simp add: Let_def)
qed simp

end
