(* ===== verification/TtyProperties.thy ===== *)
theory TtyProperties
  imports TtyFacts
begin

text \<open>
  The properties of terminals, with a sample terminal.
\<close>

unbundle bit_operations_syntax

section \<open>A sample terminal\<close>

text \<open>\<open>bs\<close> are the bytes ready.\<close>

definition sample_tty :: "termios \<Rightarrow> buf \<Rightarrow> tty" where
  "sample_tty t bs = \<lparr>t_session = None, t_termios = t, t_winsize = \<lparr>ws_row = 25, ws_col = 80, ws_xpixel = 0, ws_ypixel = 0\<rparr>,
     t_data_available = False, t_poll_alarms = 0,
     t_read_buf = \<lparr>rb_data = bs @ replicate (TTY_BUF_SIZE - length bs) 0, rb_capacity = TTY_BUF_SIZE, rb_size = length bs,
        rb_head = length bs mod TTY_BUF_SIZE, rb_tail = 0\<rparr>,
     t_write_buf = \<lparr>rb_data = replicate TTY_BUF_SIZE 0, rb_capacity = TTY_BUF_SIZE, rb_size = 0, rb_head = 0, rb_tail = 0\<rparr>,
     t_canonical_buf = replicate TTY_BUF_SIZE 0, t_canonical_pos = 0, t_out = [], t_settings = []\<rparr>"

lemma sample_tty_ok:
  assumes "length bs < TTY_BUF_SIZE" "length (c_cc t) = 32"
  shows "tty_ok (sample_tty t bs)" "typed (sample_tty t bs) = ([], bs)" "t_termios (sample_tty t bs) = t"
    "rb_capacity (t_read_buf (sample_tty t bs)) = TTY_BUF_SIZE"
proof -
  show "tty_ok (sample_tty t bs)" "t_termios (sample_tty t bs) = t" "rb_capacity (t_read_buf (sample_tty t bs)) = TTY_BUF_SIZE"
    using assms by (simp_all add: tty_ok_def sample_tty_def rb_inv_def)
  have "rb_list (t_read_buf (sample_tty t bs)) = bs"
    by (rule nth_equalityI) (use assms in \<open>simp_all add: sample_tty_def rb_list_nth nth_append\<close>)
  then show "typed (sample_tty t bs) = ([], bs)" by (simp add: typed_def sample_tty_def)
qed

lemma default_fields: "length (c_cc default_termios) = 32" "c_lflag default_termios AND ICANON \<noteq> 0"
  "c_cc default_termios ! VERASE = 0x7F" "c_cc default_termios ! VKILL = 0x15" "c_cc default_termios ! VEOF = 4"
  by (simp_all add: default_termios_def ICANON_def VERASE_def VKILL_def VEOF_def)

section \<open>Lines\<close>

text \<open>C12: In canonical mode whatever is typed has the effect of the editor of lines: erase and kill act on the
  line being typed, end of line and of file pass it on, and a reader finds the finished bytes in order, as
  far as the buffer holds them; no input fails.\<close>

theorem input_edits_line:
  assumes "tty_ok tty" "canonical tty"
  shows "\<exists>tty'. receive_chars tty cs = Inr tty' \<and> tty_ok tty' \<and> same_mode tty tty' \<and>
     typed tty' = fold (edit (t_termios tty) (rb_capacity (t_read_buf tty))) cs (typed tty)"
  by (rule receive_chars_ok [OF assms])

lemma input_edits_line_witness:
  "\<exists>tty'. receive_chars (sample_tty default_termios []) [0x6C, 0x78, 0x7F, 0x73] = Inr tty' \<and> typed tty' = ([0x6C, 0x73], [])"
  using input_edits_line [of "sample_tty default_termios []" "[0x6C, 0x78, 0x7F, 0x73]"] sample_tty_ok [of "[]" default_termios] default_fields
  by (auto simp: canonical_def edit_def char_is_def TTY_BUF_SIZE_def NL_def)

text \<open>C13: A reader that sleeps while a line is typed is given the first finished line, edited, cut to what it asks
  for; the rest stays for the next read.\<close>

theorem typed_line_is_read:
  assumes "tty_ok tty" "canonical tty" and "typed tty = (line, [])"
    and "fold (edit (t_termios tty) (rb_capacity (t_read_buf tty))) cs (line, []) = (line', ready')" "ready' \<noteq> []"
    and "len \<le> length b" "k = min (first_line ready') len"
  shows "\<exists>tty'. n_tty_read fuel ((YAK_SUCCESS, cs) # ws) tty b len = Inr (YAK_SUCCESS, k, take k ready' @ drop k b, tty') \<and>
    tty_ok tty' \<and> same_mode tty tty' \<and> typed tty' = (line', drop k ready')"
  unfolding assms(7) by (rule sleep_then_read [OF assms(1-6)])

text \<open>What is typed is \<open>lx\<close>, an erase, \<open>s\<close>, end of line, \<open>q\<close>.\<close>

lemma typed_line_is_read_witness:
  "\<exists>tty'. n_tty_read 0 [(YAK_SUCCESS, [0x6C, 0x78, 0x7F, 0x73, 0x0A, 0x71])] (sample_tty default_termios []) [0, 0, 0, 0, 0] 5 =
     Inr (YAK_SUCCESS, 3, [0x6C, 0x73, 0x0A, 0, 0], tty') \<and> typed tty' = ([0x71], [])"
proof -
  let ?t = "sample_tty default_termios []"
  have s: "tty_ok ?t" "typed ?t = ([], [])" "t_termios ?t = default_termios" "rb_capacity (t_read_buf ?t) = TTY_BUF_SIZE"
    using sample_tty_ok [of "[]" default_termios] default_fields by (simp_all add: TTY_BUF_SIZE_def)
  have can: "canonical ?t" using s(3) default_fields(2) by (simp add: canonical_def)
  have f: "fold (edit (t_termios ?t) (rb_capacity (t_read_buf ?t))) [0x6C, 0x78, 0x7F, 0x73, 0x0A, 0x71] ([], []) =
      ([0x71], [0x6C, 0x73, 0x0A])"
    unfolding s(3,4) by (simp add: edit_def default_fields char_is_def TTY_BUF_SIZE_def NL_def)
  have k: "3 = min (first_line [0x6C, 0x73, 0x0A]) 5" by (simp add: first_line_def NL_def)
  obtain tty' where r: "n_tty_read 0 [(YAK_SUCCESS, [0x6C, 0x78, 0x7F, 0x73, 0x0A, 0x71])] ?t [0, 0, 0, 0, 0] 5 =
      Inr (YAK_SUCCESS, 3, take 3 [0x6C, 0x73, 0x0A] @ drop 3 [0, 0, 0, 0, 0], tty')" "typed tty' = ([0x71], drop 3 [0x6C, 0x73, 0x0A])"
    using typed_line_is_read [OF s(1) can s(2) f _ _ k, of "[0, 0, 0, 0, 0]" 0 "[]"] by force
  have "take 3 [0x6C, 0x73, 0x0A] @ drop 3 [0, 0, 0, 0, 0] = [0x6C, 0x73, 0x0A, 0, 0 :: u8]" "drop 3 [0x6C, 0x73, 0x0A :: u8] = []"
    by simp_all
  then show ?thesis using r by metis
qed

text \<open>C39: The end-of-file character on an empty line is never reported: a reader sleeps on however often it is
  typed.\<close>

theorem end_of_file_is_lost:
  assumes "tty_ok tty" "canonical tty" "typed tty = ([], [])"
    and "char_is c (c_cc (t_termios tty) ! VEOF)" "\<not> char_is c (c_cc (t_termios tty) ! VERASE)" "\<not> char_is c (c_cc (t_termios tty) ! VKILL)"
  shows "\<forall>n. n_tty_read fuel (replicate n (YAK_SUCCESS, [c])) tty b len = Inl Diverges"
  using eof_never_read [OF assms] assms(2) by (simp add: n_tty_read_def canonical_def)

lemma end_of_file_is_lost_witness:
  "\<forall>n. n_tty_read 0 (replicate n (YAK_SUCCESS, [4])) (sample_tty default_termios []) [0] 1 = Inl Diverges"
  using end_of_file_is_lost [of "sample_tty default_termios []" 4] sample_tty_ok [of "[]" default_termios] default_fields
  by (simp add: canonical_def char_is_def TTY_BUF_SIZE_def)

text \<open>C40: A read of fewer bytes than \<open>VMIN\<close>, with more bytes ready than it asks for, never returns: it goes round
  its loop without end, holding the lock of the terminal.\<close>

theorem short_read_spins:
  assumes "tty_ok tty" "\<not> canonical tty" "len < unat (c_cc (t_termios tty) ! VMIN)"
    and "length b = len" "typed tty = (line, ready)" "len < length ready"
  shows "\<forall>fuel. n_tty_read fuel waits tty b len = Inl Diverges"
proof
  fix fuel
  have cc: "ld (c_cc (t_termios tty)) VMIN = Inr (c_cc (t_termios tty) ! VMIN)" "ld (c_cc (t_termios tty)) VTIME = Inr (c_cc (t_termios tty) ! VTIME)"
    using assms(1) by (simp_all add: tty_ok_def VMIN_def VTIME_def)
  have "rb_inv (t_read_buf tty)" "len < rb_size (t_read_buf tty)" using assms(1,5,6) by (auto simp: tty_ok_def typed_def)
  then show "n_tty_read fuel waits tty b len = Inl Diverges"
    using read_raw_spins [OF assms(3), of tty 0 b] assms(2,4) cc by (simp add: n_tty_read_def canonical_def)
qed

lemma short_read_spins_witness:
  "\<forall>fuel. n_tty_read fuel [] (sample_tty (default_termios\<lparr>c_lflag := 0, c_cc := (c_cc default_termios)[VMIN := 2]\<rparr>) [0x61, 0x62]) [0] 1 = Inl Diverges"
proof -
  let ?t = "default_termios\<lparr>c_lflag := 0, c_cc := (c_cc default_termios)[VMIN := 2]\<rparr>"
  have "length (c_cc ?t) = 32" "c_cc ?t ! VMIN = 2" using default_fields(1) by (simp_all add: VMIN_def)
  then show ?thesis
    using short_read_spins [of "sample_tty ?t [0x61, 0x62]" 1 "[0]"] sample_tty_ok [of "[0x61, 0x62]" ?t]
    by (simp add: canonical_def TTY_BUF_SIZE_def)
qed

end
