(* ===== verification/Vmem.thy ===== *)
theory Vmem
  imports Pmap
begin

text \<open>
  Resource arenas: \<^verbatim>\<open>kernel/vm/vmem.c\<close>, the allocator of kernel address space. A boundary
  tag is a number standing for its address; the tags an arena owns are on \<open>ar_freetags\<close> or, in
  address order, on \<open>ar_all_tags\<close>, and those of a free segment, an allocation or a span also on a
  free list, a hash list or the list of spans. \<open>LIST_REMOVE\<close> knows only the tag, not the list
  it is on: it takes the tag off every list of the arena. The quantum caches are those of
  \<^verbatim>\<open>kernel/vm/kmem_slab.c\<close>, whose entry points are the argument \<open>sl\<close>. What is in the
  allocated memory (\<open>memset\<close>) is not part of the state.

  An allocation may import from the source of the arena, or need a page for new tags from the heap
  arena; \<open>vmem_xalloc\<close> and \<open>vmem_xfree\<close> take the depth of these calls as fuel, and the bodies
  below take the function for the inner calls as the argument \<open>xa\<close> or \<open>xf\<close>.
\<close>

unbundle bit_operations_syntax

section \<open>Data\<close>

definition VM_SLEEP :: u32 where "VM_SLEEP = 0x1"
definition VM_NOSLEEP :: u32 where "VM_NOSLEEP = 0x2"
definition VM_POPULATE :: u32 where "VM_POPULATE = 0x4"
definition VM_BESTFIT :: u32 where "VM_BESTFIT = 0x8"
definition VM_INSTANTFIT :: u32 where "VM_INSTANTFIT = 0x10"
definition VM_EXACT :: u32 where "VM_EXACT = 0x20"

lemmas vmem_flags = VM_SLEEP_def VM_NOSLEEP_def VM_POPULATE_def VM_BESTFIT_def VM_INSTANTFIT_def
  VM_EXACT_def

definition STATIC_BT_COUNT :: nat where "STATIC_BT_COUNT = 128"
definition BT_MINRESERVED :: u64 where "BT_MINRESERVED = 4"
definition HASH_BUCKET_COUNT :: nat where "HASH_BUCKET_COUNT = 16"
definition FREELIST_COUNT :: nat where "FREELIST_COUNT = 64"
definition VMEM_QCACHE_MAX :: nat where "VMEM_QCACHE_MAX = 16"
definition KERNEL_HEAP_BASE :: u64 where "KERNEL_HEAP_BASE = 0xFFFFFFe000000000"
definition KERNEL_HEAP_LENGTH :: u64 where "KERNEL_HEAP_LENGTH = 0x800000000"

datatype vmem_tag_type =
  VMEM_TAG_NULL | VMEM_TAG_SPAN | VMEM_TAG_SPAN_IMPORTED | VMEM_TAG_FREE | VMEM_TAG_ALLOCATED

record vmem_tag =
  tg_type :: vmem_tag_type
  tg_static :: bool
  tg_start :: u64
  tg_size :: u64

text \<open>The functions an arena is created with, \<open>afunc\<close> and \<open>ffunc\<close>.\<close>

datatype vmem_func = No_func | Kmem_func | Vmem_func

record vmem =
  ar_locked :: bool
  ar_quantum :: u64
  ar_qcache_max :: u64
  ar_afunc :: vmem_func
  ar_ffunc :: vmem_func
  ar_source :: "nat option"
  ar_freetags :: "nat list"
  ar_n_freetags :: u64
  ar_qcaches :: "nat option list"
  ar_all_tags :: "nat list"
  ar_freelists :: "nat list list"
  ar_hashlists :: "nat list list"
  ar_spanlist :: "nat list"

text \<open>The arenas, the tags not yet given to one, and the page tables of the kernel's map.\<close>

record kmem =
  ks_tags :: "nat \<Rightarrow> vmem_tag"
  ks_arenas :: "nat \<Rightarrow> vmem"
  ks_tag_list :: "nat list"
  ks_tag_count :: u64
  ks_tag_lock :: bool
  ks_refill_lock :: bool
  ks_static_left :: int
  ks_next_tag :: nat
  ks_lv :: nat
  ks_root :: u64
  ks_vm :: vm

definition heap_arena :: nat where "heap_arena = 0"
definition vmem_internal_arena :: nat where "vmem_internal_arena = 1"
definition vmem_vmem_arena :: nat where "vmem_vmem_arena = 2"

definition put_arena :: "nat \<Rightarrow> vmem \<Rightarrow> kmem \<Rightarrow> kmem" where
  "put_arena v a s = s\<lparr>ks_arenas := (ks_arenas s)(v := a)\<rparr>"

definition upd_arena :: "nat \<Rightarrow> (vmem \<Rightarrow> vmem) \<Rightarrow> kmem \<Rightarrow> kmem" where
  "upd_arena v f s = put_arena v (f (ks_arenas s v)) s"

definition set_tag :: "nat \<Rightarrow> (vmem_tag \<Rightarrow> vmem_tag) \<Rightarrow> kmem \<Rightarrow> kmem" where
  "set_tag t f s = s\<lparr>ks_tags := (ks_tags s)(t := f (ks_tags s t))\<rparr>"

text \<open>The mutex of an arena: acquiring one's own and releasing another's fail assertions.\<close>

definition arena_lock :: "nat \<Rightarrow> kmem \<Rightarrow> kmem res" where
  "arena_lock v s =
     ensure (\<not> ar_locked (ks_arenas s v)) AssertFail (Inr (upd_arena v (\<lambda>a. a\<lparr>ar_locked := True\<rparr>) s))"

definition arena_unlock :: "nat \<Rightarrow> kmem \<Rightarrow> kmem res" where
  "arena_unlock v s =
     ensure (ar_locked (ks_arenas s v)) AssertFail (Inr (upd_arena v (\<lambda>a. a\<lparr>ar_locked := False\<rparr>) s))"

text \<open>The slab allocator: creating a cache (object size, alignment, the largest cached size, the
  arena), allocating an object, freeing one, and setting the allocator up.\<close>

record slab =
  sl_create :: "u64 \<Rightarrow> u64 \<Rightarrow> u64 \<Rightarrow> nat \<Rightarrow> kmem \<Rightarrow> (nat option \<times> kmem) res"
  sl_alloc :: "nat option \<Rightarrow> u32 \<Rightarrow> kmem \<Rightarrow> (u64 \<times> kmem) res"
  sl_free :: "nat option \<Rightarrow> u64 \<Rightarrow> kmem \<Rightarrow> kmem res"
  sl_init :: "kmem \<Rightarrow> kmem res"

type_synonym xalloc =
  "nat \<Rightarrow> u64 \<Rightarrow> u64 \<Rightarrow> u64 \<Rightarrow> u64 \<Rightarrow> u64 \<Rightarrow> u64 \<Rightarrow> u32 \<Rightarrow> kmem \<Rightarrow> (u64 \<times> kmem) res"

type_synonym xfree = "nat \<Rightarrow> u64 \<Rightarrow> u64 \<Rightarrow> kmem \<Rightarrow> kmem res"

section \<open>Lists of tags\<close>

fun insert_after :: "nat \<Rightarrow> nat \<Rightarrow> nat list \<Rightarrow> nat list" where
  "insert_after x e [] = []"
| "insert_after x e (y # ys) = (if y = x then y # e # ys else y # insert_after x e ys)"

fun insert_before :: "nat \<Rightarrow> nat \<Rightarrow> nat list \<Rightarrow> nat list" where
  "insert_before x e [] = []"
| "insert_before x e (y # ys) = (if y = x then e # y # ys else y # insert_before x e ys)"

fun next_in :: "nat \<Rightarrow> nat list \<Rightarrow> nat option" where
  "next_in x (y # z # zs) = (if y = x then Some z else next_in x (z # zs))"
| "next_in x _ = None"

fun prev_in :: "nat \<Rightarrow> nat list \<Rightarrow> nat option" where
  "prev_in x (y # z # zs) = (if z = x then Some y else prev_in x (z # zs))"
| "prev_in x _ = None"

definition list_remove :: "nat \<Rightarrow> vmem \<Rightarrow> vmem" where
  "list_remove t a =
     a\<lparr>ar_freetags := removeAll t (ar_freetags a),
       ar_freelists := map (removeAll t) (ar_freelists a),
       ar_hashlists := map (removeAll t) (ar_hashlists a),
       ar_spanlist := removeAll t (ar_spanlist a)\<rparr>"

section \<open>Allocating through an arena\<close>

definition vmem_alloc_via :: "slab \<Rightarrow> xalloc \<Rightarrow> nat \<Rightarrow> u64 \<Rightarrow> u32 \<Rightarrow> kmem \<Rightarrow> (u64 \<times> kmem) res" where
  "vmem_alloc_via sl xa v sz flag s =
     ensure (sz \<noteq> 0) AssertFail (
     ensure (flag AND VM_EXACT = 0) AssertFail (
     let a = ks_arenas s v in
     if sz \<le> ar_qcache_max a then
       if ar_quantum a = 0 then Inl DivByZero
       else bindR (ld (ar_qcaches a) (unat (sz div ar_quantum a - 1))) (\<lambda>c.
         bindR (sl_alloc sl c (flag AND (VM_SLEEP OR VM_NOSLEEP)) s) (\<lambda>(addr, s1).
           ensure (addr \<noteq> 0) AssertFail (Inr (addr, s1))))
     else xa v sz 0 0 0 0 0 flag s))"

text \<open>One iteration of the loop that backs new kernel memory with pages; a failed page allocation
  is not tested for.\<close>

definition back_page :: "nat \<Rightarrow> u64 \<Rightarrow> u64 \<Rightarrow> vm \<Rightarrow> vm res" where
  "back_page lv root va vm =
     bindR (pmm_alloc_order 0 (vm_pmm vm)) (\<lambda>(page, pm).
       case page of
         None \<Rightarrow> Inl NullDeref
       | Some n \<Rightarrow>
           bindR (page_at (pm_pages pm) n) (\<lambda>p.
             pmap_map lv root va (of_nat (page_to_addr p)) 0 (VM_READ OR VM_WRITE) VM_WB (set_pmm pm vm)))"

definition kmem_alloc_via :: "slab \<Rightarrow> xalloc \<Rightarrow> nat \<Rightarrow> u64 \<Rightarrow> u32 \<Rightarrow> kmem \<Rightarrow> (u64 \<times> kmem) res" where
  "kmem_alloc_via sl xa v sz flag s =
     bindR (vmem_alloc_via sl xa v sz flag s) (\<lambda>(addr, s1).
       if addr = 0 then Inr (0, s1)
       else bindR (over_range (back_page (ks_lv s1) (ks_root s1)) addr PAGE_SIZE (page_count sz PAGE_SIZE)
                    (ks_vm s1)) (\<lambda>vm.
         Inr (addr, s1\<lparr>ks_vm := vm\<rparr>)))"

definition vm_kalloc_via :: "slab \<Rightarrow> xalloc \<Rightarrow> u64 \<Rightarrow> u32 \<Rightarrow> kmem \<Rightarrow> (u64 \<times> kmem) res" where
  "vm_kalloc_via sl xa sz flag s = kmem_alloc_via sl xa heap_arena sz flag s"

section \<open>Boundary tags\<close>

text \<open>The loop that moves tags from the common list to the arena.\<close>

fun move_tags :: "nat list \<Rightarrow> nat list \<Rightarrow> u64 \<Rightarrow> u64 \<Rightarrow> nat list \<times> nat list \<times> u64 \<times> u64" where
  "move_tags [] fr n c = ([], fr, n, c)"
| "move_tags (t # ts) fr n c =
     (if n \<le> BT_MINRESERVED then move_tags ts (t # fr) (n + 1) (c - 1) else (t # ts, fr, n, c))"

definition take_tags :: "nat \<Rightarrow> kmem \<Rightarrow> kmem res" where
  "take_tags v s =
     ensure (\<not> ks_tag_lock s) AssertFail (
     case move_tags (ks_tag_list s) (ar_freetags (ks_arenas s v)) (ar_n_freetags (ks_arenas s v)) (ks_tag_count s) of
       (ts, fr, n, c) \<Rightarrow>
         Inr (upd_arena v (\<lambda>a. a\<lparr>ar_freetags := fr, ar_n_freetags := n\<rparr>)
               (s\<lparr>ks_tag_list := ts, ks_tag_count := c\<rparr>)))"

definition sizeof_tag :: nat where "sizeof_tag = 56"

definition zeroed_tag :: vmem_tag where
  "zeroed_tag = \<lparr>tg_type = VMEM_TAG_NULL, tg_static = False, tg_start = 0, tg_size = 0\<rparr>"

text \<open>The tags of a fresh page.\<close>

definition add_tags :: "nat \<Rightarrow> kmem \<Rightarrow> kmem" where
  "add_tags n s =
     s\<lparr>ks_tags := (\<lambda>t. if ks_next_tag s \<le> t \<and> t < ks_next_tag s + n then zeroed_tag else ks_tags s t),
       ks_tag_list := rev [ks_next_tag s ..< ks_next_tag s + n] @ ks_tag_list s,
       ks_tag_count := ks_tag_count s + of_nat n,
       ks_next_tag := ks_next_tag s + n\<rparr>"

definition refill_page :: "slab \<Rightarrow> xalloc \<Rightarrow> nat \<Rightarrow> kmem \<Rightarrow> kmem res" where
  "refill_page sl xa v s =
     bindR (arena_unlock v s) (\<lambda>s1.
     ensure (\<not> ks_refill_lock s1) AssertFail (
     bindR (vm_kalloc_via sl xa (of_nat PAGE_SIZE) (VM_SLEEP OR VM_POPULATE) (s1\<lparr>ks_refill_lock := True\<rparr>)) (\<lambda>(addr, s2).
       if addr = 0 then Inl NullDeref
       else ensure (\<not> ks_tag_lock s2) AssertFail (
              arena_lock v ((add_tags (PAGE_SIZE div sizeof_tag) s2)\<lparr>ks_refill_lock := False\<rparr>)))))"

fun refill_loop :: "slab \<Rightarrow> xalloc \<Rightarrow> nat \<Rightarrow> nat \<Rightarrow> kmem \<Rightarrow> kmem res" where
  "refill_loop sl xa v 0 s = Inl Diverges"
| "refill_loop sl xa v (Suc k) s =
     (if ks_tag_list s \<noteq> [] then Inr s else bindR (refill_page sl xa v s) (refill_loop sl xa v k))"

fun tag_refill :: "slab \<Rightarrow> xalloc \<Rightarrow> nat \<Rightarrow> nat \<Rightarrow> kmem \<Rightarrow> kmem res" where
  "tag_refill sl xa v 0 s = Inl Diverges"
| "tag_refill sl xa v (Suc k) s =
     (if ar_n_freetags (ks_arenas s v) > BT_MINRESERVED then Inr s
      else bindR (take_tags v s) (\<lambda>s1. bindR (refill_loop sl xa v (Suc k) s1) (tag_refill sl xa v k)))"

fun await_tags :: "slab \<Rightarrow> xalloc \<Rightarrow> nat \<Rightarrow> nat \<Rightarrow> u32 \<Rightarrow> kmem \<Rightarrow> kmem res" where
  "await_tags sl xa v 0 flag s = Inl Diverges"
| "await_tags sl xa v (Suc k) flag s =
     (if ar_n_freetags (ks_arenas s v) \<le> BT_MINRESERVED \<and> flag AND VM_POPULATE = 0
      then bindR (tag_refill sl xa v (Suc k) s) (await_tags sl xa v k flag) else Inr s)"

text \<open>The tag is never null: an empty list is dereferenced.\<close>

definition tag_alloc :: "slab \<Rightarrow> xalloc \<Rightarrow> nat \<Rightarrow> nat \<Rightarrow> u32 \<Rightarrow> kmem \<Rightarrow> (nat \<times> kmem) res" where
  "tag_alloc sl xa k v flag s =
     bindR (await_tags sl xa v k flag s) (\<lambda>s1.
       case ar_freetags (ks_arenas s1 v) of
         [] \<Rightarrow> Inl NullDeref
       | t # ts \<Rightarrow> Inr (t, upd_arena v (\<lambda>a. a\<lparr>ar_freetags := ts, ar_n_freetags := ar_n_freetags a - 1\<rparr>) s1))"

definition tag_free :: "nat \<Rightarrow> nat \<Rightarrow> kmem \<Rightarrow> kmem" where
  "tag_free v t s =
     upd_arena v (\<lambda>a. a\<lparr>ar_freetags := t # ar_freetags a, ar_n_freetags := ar_n_freetags a + 1\<rparr>) s"

definition tag_static_init :: "kmem \<Rightarrow> kmem" where
  "tag_static_init s =
     (let n = nat (ks_static_left s) in
      s\<lparr>ks_tags := (\<lambda>t. if t < n then (ks_tags s t)\<lparr>tg_static := True\<rparr> else ks_tags s t),
        ks_tag_list := [0 ..< n] @ ks_tag_list s,
        ks_static_left := (if ks_static_left s > 0 then -1 else ks_static_left s - 1)\<rparr>)"

section \<open>Free lists and hash lists\<close>

fun ilog :: "nat \<Rightarrow> nat" where
  "ilog n = (if n < 2 then 0 else Suc (ilog (n div 2)))"

declare ilog.simps [simp del]

text \<open>\<open>__builtin_clzl\<close> of a size that is not zero is \<open>63 - ilog\<close>; the list of a size of 1 is the
  one before the first.\<close>

definition freelist_idx :: "u64 \<Rightarrow> nat" where
  "freelist_idx sz = ilog (unat sz)"

definition freelist_list :: "u64 \<Rightarrow> nat res" where
  "freelist_list sz = (if freelist_idx sz = 0 then Inl OutOfBounds else Inr (freelist_idx sz - 1))"

definition insert_free :: "nat \<Rightarrow> nat \<Rightarrow> kmem \<Rightarrow> kmem res" where
  "insert_free v t s =
     bindR (freelist_list (tg_size (ks_tags s t))) (\<lambda>i.
     bindR (ld (ar_freelists (ks_arenas s v)) i) (\<lambda>l.
       Inr (upd_arena v (\<lambda>a. a\<lparr>ar_freelists := (ar_freelists a)[i := t # l]\<rparr>) s)))"

definition murmur64 :: "u64 \<Rightarrow> u64" where
  "murmur64 h =
     (let h = h XOR drop_bit 33 h;
          h = h * 0xff51afd7ed558ccd;
          h = h XOR drop_bit 33 h;
          h = h * 0xc4ceb9fe1a85ec53
      in h XOR drop_bit 33 h)"

definition hash_index :: "u64 \<Rightarrow> nat" where
  "hash_index ptr = unat (murmur64 ptr AND (of_nat HASH_BUCKET_COUNT - 1))"

definition insert_alloc :: "nat \<Rightarrow> nat \<Rightarrow> kmem \<Rightarrow> kmem res" where
  "insert_alloc v t s =
     ensure (tg_type (ks_tags s t) = VMEM_TAG_ALLOCATED) AssertFail (
     let i = hash_index (tg_start (ks_tags s t)) in
     bindR (ld (ar_hashlists (ks_arenas s v)) i) (\<lambda>l.
       Inr (upd_arena v (\<lambda>a. a\<lparr>ar_hashlists := (ar_hashlists a)[i := t # l]\<rparr>) s)))"

fun lookup_in :: "(nat \<Rightarrow> vmem_tag) \<Rightarrow> u64 \<Rightarrow> u64 \<Rightarrow> nat list \<Rightarrow> nat option res" where
  "lookup_in T addr sz [] = Inr None"
| "lookup_in T addr sz (t # ts) =
     ensure (tg_type (T t) = VMEM_TAG_ALLOCATED) AssertFail (
     if tg_start (T t) = addr then ensure (tg_size (T t) = sz) AssertFail (Inr (Some t))
     else lookup_in T addr sz ts)"

definition lookup_alloc :: "nat \<Rightarrow> u64 \<Rightarrow> u64 \<Rightarrow> kmem \<Rightarrow> nat option res" where
  "lookup_alloc v addr sz s =
     bindR (ld (ar_hashlists (ks_arenas s v)) (hash_index addr)) (lookup_in (ks_tags s) addr sz)"

section \<open>Adding a span\<close>

fun span_before :: "(nat \<Rightarrow> vmem_tag) \<Rightarrow> u64 \<Rightarrow> nat list \<Rightarrow> nat option \<Rightarrow> nat option" where
  "span_before T addr [] aft = aft"
| "span_before T addr (t # ts) aft = (if tg_start (T t) > addr then aft else span_before T addr ts (Some t))"

definition insert_span :: "nat option \<Rightarrow> nat \<Rightarrow> vmem \<Rightarrow> vmem" where
  "insert_span aft t a =
     (case aft of
        Some p \<Rightarrow>
          a\<lparr>ar_spanlist := insert_after p t (ar_spanlist a),
            ar_all_tags := (case next_in p (ar_spanlist a) of
                              Some n \<Rightarrow> insert_before n t (ar_all_tags a)
                            | None \<Rightarrow> ar_all_tags a @ [t])\<rparr>
      | None \<Rightarrow> a\<lparr>ar_spanlist := t # ar_spanlist a, ar_all_tags := t # ar_all_tags a\<rparr>)"

definition vmem_add_locked ::
  "slab \<Rightarrow> xalloc \<Rightarrow> nat \<Rightarrow> nat \<Rightarrow> u64 \<Rightarrow> u64 \<Rightarrow> vmem_tag_type \<Rightarrow> u32 \<Rightarrow> kmem \<Rightarrow> (u64 \<times> kmem) res" where
  "vmem_add_locked sl xa k v addr sz span_type flag s =
     bindR (tag_alloc sl xa k v flag s) (\<lambda>(span, s1).
     bindR (tag_alloc sl xa k v flag s1) (\<lambda>(fre, s2).
       let aft = (if span_type \<noteq> VMEM_TAG_SPAN_IMPORTED
                  then span_before (ks_tags s2) addr (ar_spanlist (ks_arenas s2 v)) None else None);
           s3 = set_tag span (\<lambda>g. g\<lparr>tg_start := addr, tg_size := sz, tg_type := span_type\<rparr>) s2;
           s4 = set_tag fre (\<lambda>g. g\<lparr>tg_start := addr, tg_size := sz, tg_type := VMEM_TAG_FREE\<rparr>) s3;
           s5 = upd_arena v (insert_span aft span) s4;
           s6 = upd_arena v (\<lambda>a. a\<lparr>ar_all_tags := insert_after span fre (ar_all_tags a)\<rparr>) s5
       in bindR (insert_free v fre s6) (\<lambda>s7. Inr (addr, s7))))"

section \<open>Allocating a segment\<close>

definition split_left :: "nat \<Rightarrow> nat \<Rightarrow> u64 \<Rightarrow> nat \<Rightarrow> kmem \<Rightarrow> kmem res" where
  "split_left v t at left s =
     (let start = tg_start (ks_tags s t) in
      if at > start then
        insert_free v left
          (upd_arena v (\<lambda>a. a\<lparr>ar_all_tags := insert_before t left (ar_all_tags a)\<rparr>)
            (set_tag left (\<lambda>g. g\<lparr>tg_type := VMEM_TAG_FREE, tg_start := start, tg_size := at - start\<rparr>) s))
      else Inr (tag_free v left s))"

definition split_right :: "nat \<Rightarrow> nat \<Rightarrow> u64 \<Rightarrow> u64 \<Rightarrow> nat \<Rightarrow> kmem \<Rightarrow> kmem res" where
  "split_right v t at sz right s =
     (let start = tg_start (ks_tags s t); len = tg_size (ks_tags s t) in
      if at + sz < start + len then
        insert_free v right
          (upd_arena v (\<lambda>a. a\<lparr>ar_all_tags := insert_after t right (ar_all_tags a)\<rparr>)
            (set_tag right (\<lambda>g. g\<lparr>tg_type := VMEM_TAG_FREE, tg_start := at + sz,
                                 tg_size := (start + len) - (at + sz)\<rparr>) s))
      else Inr (tag_free v right s))"

definition split_seg :: "nat \<Rightarrow> nat \<Rightarrow> u64 \<Rightarrow> u64 \<Rightarrow> nat \<Rightarrow> nat \<Rightarrow> kmem \<Rightarrow> kmem res" where
  "split_seg v t at sz left right s =
     ensure (tg_type (ks_tags s t) = VMEM_TAG_FREE) AssertFail (
     bindR (split_left v t at left (upd_arena v (list_remove t) s)) (\<lambda>s1.
     bindR (split_right v t at sz right s1) (\<lambda>s2.
       insert_alloc v t
         (set_tag t (\<lambda>g. g\<lparr>tg_type := VMEM_TAG_ALLOCATED, tg_start := at, tg_size := sz\<rparr>) s2))))"

text \<open>Where an allocation of \<open>sz\<close> bytes in \<open>[mn, mx)\<close> would start in a segment.\<close>

definition fit_in :: "u64 \<Rightarrow> u64 \<Rightarrow> u64 \<Rightarrow> vmem_tag \<Rightarrow> u64 option" where
  "fit_in mn mx sz g =
     (let seg_start = tg_start g; seg_end = tg_start g + tg_size g in
      if mn \<noteq> 0 \<and> seg_end \<le> mn then None
      else if mx \<noteq> 0 \<and> seg_start \<ge> mx then None
      else let (cur_start, cur_size) =
                 (if mn \<noteq> 0 \<and> seg_start < mn then (mn, tg_size g - (mn - seg_start)) else (seg_start, tg_size g));
               cur_size = (if mx \<noteq> 0 \<and> cur_start + cur_size > mx then mx - cur_start else cur_size)
           in if cur_size < sz then None else Some cur_start)"

text \<open>The search of one list: the best segment with the start in it, and whether it is taken at
  once.\<close>

fun scan_list :: "(nat \<Rightarrow> vmem_tag) \<Rightarrow> u64 \<Rightarrow> u64 \<Rightarrow> u64 \<Rightarrow> u32 \<Rightarrow> nat list \<Rightarrow> (nat \<times> u64) option \<Rightarrow>
    (nat \<times> u64) option \<times> bool" where
  "scan_list T mn mx sz flag [] best = (best, False)"
| "scan_list T mn mx sz flag (e # es) best =
     (case fit_in mn mx sz (T e) of
        None \<Rightarrow> scan_list T mn mx sz flag es best
      | Some at \<Rightarrow>
          if flag AND VM_INSTANTFIT \<noteq> 0 then (Some (e, at), True)
          else if flag AND VM_BESTFIT \<noteq> 0 then
            scan_list T mn mx sz flag es
              (case best of
                 None \<Rightarrow> Some (e, at)
               | Some (b, _) \<Rightarrow> if tg_size (T e) < tg_size (T b) then Some (e, at) else best)
          else scan_list T mn mx sz flag es best)"

fun scan_lists :: "(nat \<Rightarrow> vmem_tag) \<Rightarrow> u64 \<Rightarrow> u64 \<Rightarrow> u64 \<Rightarrow> u32 \<Rightarrow> nat list list \<Rightarrow> (nat \<times> u64) option \<Rightarrow>
    (nat \<times> u64) option" where
  "scan_lists T mn mx sz flag [] best = best"
| "scan_lists T mn mx sz flag (l # ls) best =
     (if best \<noteq> None then best
      else case scan_list T mn mx sz flag l best of
             (b, True) \<Rightarrow> b
           | (b, False) \<Rightarrow> scan_lists T mn mx sz flag ls b)"

definition ALIGN_UP :: "u64 \<Rightarrow> u64 \<Rightarrow> u64" where
  "ALIGN_UP addr align = (addr + align - 1) AND NOT (align - 1)"

definition import_span :: "slab \<Rightarrow> xalloc \<Rightarrow> nat \<Rightarrow> nat \<Rightarrow> u64 \<Rightarrow> u64 \<Rightarrow> u32 \<Rightarrow> kmem \<Rightarrow> (u64 \<times> kmem) res" where
  "import_span sl xa k v sz align flag s =
     (case ar_source (ks_arenas s v) of
        None \<Rightarrow> Inr (0, s)
      | Some src \<Rightarrow>
          let import_size = ALIGN_UP sz (max (ar_quantum (ks_arenas s src)) align) in
          bindR (case ar_afunc (ks_arenas s v) of
                   No_func \<Rightarrow> Inl NullDeref
                 | Kmem_func \<Rightarrow> kmem_alloc_via sl xa src import_size flag s
                 | Vmem_func \<Rightarrow> vmem_alloc_via sl xa src import_size flag s) (\<lambda>(rv, s1).
            if rv = 0 then Inr (0, s1)
            else vmem_add_locked sl xa k v rv import_size VMEM_TAG_SPAN_IMPORTED flag s1))"

definition give_up :: "nat \<Rightarrow> kmem \<Rightarrow> (u64 \<times> kmem) res" where
  "give_up v s = bindR (arena_unlock v s) (\<lambda>s1. Inr (0, s1))"

text \<open>The loop around the search; \<open>tried\<close> is \<open>tried_import\<close>, and the loop runs at most twice.\<close>

definition take_best :: "nat \<Rightarrow> u64 \<Rightarrow> u64 \<Rightarrow> u64 \<Rightarrow> nat \<Rightarrow> nat \<Rightarrow> nat \<times> u64 \<Rightarrow> kmem \<Rightarrow> (u64 \<times> kmem) res" where
  "take_best v sz mn mx left right best s =
     (case best of (t, at) \<Rightarrow>
        ensure (tg_size (ks_tags s t) \<ge> sz) AssertFail (
        ensure (mn = 0 \<or> at \<ge> mn) AssertFail (
        ensure (mx = 0 \<or> at + sz \<le> mx) AssertFail (
        bindR (split_seg v t at sz left right (upd_arena v (list_remove t) s)) (\<lambda>s1.
        bindR (arena_unlock v s1) (\<lambda>s2. Inr (at, s2)))))))"

definition scan_arena :: "nat \<Rightarrow> u64 \<Rightarrow> u64 \<Rightarrow> u64 \<Rightarrow> u32 \<Rightarrow> kmem \<Rightarrow> (nat \<times> u64) option res" where
  "scan_arena v sz mn mx flag s =
     bindR (freelist_list sz) (\<lambda>i.
       Inr (scan_lists (ks_tags s) mn mx sz flag (drop i (ar_freelists (ks_arenas s v))) None))"

fun search_loop :: "slab \<Rightarrow> xalloc \<Rightarrow> nat \<Rightarrow> nat \<Rightarrow> u64 \<Rightarrow> u64 \<Rightarrow> u64 \<Rightarrow> u64 \<Rightarrow> u32 \<Rightarrow> nat \<Rightarrow> nat \<Rightarrow> nat \<Rightarrow> kmem \<Rightarrow>
    (u64 \<times> kmem) res" where
  "search_loop sl xa k v sz align mn mx flag left right 0 s =
     bindR (scan_arena v sz mn mx flag s) (\<lambda>best.
       case best of
         Some b \<Rightarrow> take_best v sz mn mx left right b s
       | None \<Rightarrow> give_up v s)"
| "search_loop sl xa k v sz align mn mx flag left right (Suc imports) s =
     bindR (scan_arena v sz mn mx flag s) (\<lambda>best.
       case best of
         Some b \<Rightarrow> take_best v sz mn mx left right b s
       | None \<Rightarrow>
           if ar_source (ks_arenas s v) = None then give_up v s
           else ensure (mn = 0) AssertFail (
                ensure (mx = 0) AssertFail (
                bindR (import_span sl xa k v sz align flag s) (\<lambda>(rv, s1).
                  if rv = 0 then give_up v s1
                  else search_loop sl xa k v sz align mn mx flag left right imports s1))))"

definition xalloc_body :: "slab \<Rightarrow> xalloc \<Rightarrow> nat \<Rightarrow> xalloc" where
  "xalloc_body sl xa k v sz align phase nocross mn mx vmflag s =
     bindR (arena_lock v s) (\<lambda>s1.
     ensure (align = 0) AssertFail (
     ensure (phase = 0) AssertFail (
     ensure (nocross = 0) AssertFail (
     ensure (sz \<noteq> 0) AssertFail (
     let flag = (if vmflag AND (VM_INSTANTFIT OR VM_BESTFIT) = 0 then vmflag OR VM_INSTANTFIT else vmflag) in
     bindR (tag_alloc sl xa k v flag s1) (\<lambda>(left, s2).
     bindR (tag_alloc sl xa k v flag s2) (\<lambda>(right, s3).
       search_loop sl xa k v sz align mn mx flag left right 1 s3)))))))"

fun vmem_xalloc :: "slab \<Rightarrow> nat \<Rightarrow> xalloc" where
  "vmem_xalloc sl 0 v sz align phase nocross mn mx flag s = Inl Diverges"
| "vmem_xalloc sl (Suc n) v sz align phase nocross mn mx flag s =
     xalloc_body sl (vmem_xalloc sl n) (Suc n) v sz align phase nocross mn mx flag s"

definition vmem_alloc :: "slab \<Rightarrow> nat \<Rightarrow> nat \<Rightarrow> u64 \<Rightarrow> u32 \<Rightarrow> kmem \<Rightarrow> (u64 \<times> kmem) res" where
  "vmem_alloc sl n = vmem_alloc_via sl (vmem_xalloc sl n)"

definition kmem_alloc :: "slab \<Rightarrow> nat \<Rightarrow> nat \<Rightarrow> u64 \<Rightarrow> u32 \<Rightarrow> kmem \<Rightarrow> (u64 \<times> kmem) res" where
  "kmem_alloc sl n = kmem_alloc_via sl (vmem_xalloc sl n)"

definition vm_kalloc :: "slab \<Rightarrow> nat \<Rightarrow> u64 \<Rightarrow> u32 \<Rightarrow> kmem \<Rightarrow> (u64 \<times> kmem) res" where
  "vm_kalloc sl n = vm_kalloc_via sl (vmem_xalloc sl n)"

definition vmem_add :: "slab \<Rightarrow> nat \<Rightarrow> nat \<Rightarrow> u64 \<Rightarrow> u64 \<Rightarrow> u32 \<Rightarrow> kmem \<Rightarrow> (u64 \<times> kmem) res" where
  "vmem_add sl n v addr sz flag s =
     bindR (arena_lock v s) (\<lambda>s1.
     bindR (vmem_add_locked sl (vmem_xalloc sl n) (Suc n) v addr sz VMEM_TAG_SPAN flag s1) (\<lambda>(rv, s2).
     bindR (arena_unlock v s2) (\<lambda>s3. Inr (rv, s3))))"

section \<open>Freeing\<close>

definition vmem_free_via :: "slab \<Rightarrow> xfree \<Rightarrow> nat \<Rightarrow> u64 \<Rightarrow> u64 \<Rightarrow> kmem \<Rightarrow> kmem res" where
  "vmem_free_via sl xf v addr sz s =
     ensure (addr \<noteq> 0) AssertFail (
     ensure (sz \<noteq> 0) AssertFail (
     let a = ks_arenas s v in
     if sz \<le> ar_qcache_max a then
       if ar_quantum a = 0 then Inl DivByZero
       else bindR (ld (ar_qcaches a) (unat (sz div ar_quantum a - 1))) (\<lambda>c. sl_free sl c addr s)
     else xf v addr sz s))"

definition kmem_free_via :: "slab \<Rightarrow> xfree \<Rightarrow> nat \<Rightarrow> u64 \<Rightarrow> u64 \<Rightarrow> kmem \<Rightarrow> kmem res" where
  "kmem_free_via sl xf v addr sz s =
     ensure (addr \<noteq> 0) AssertFail (
     ensure (sz > 0) AssertFail (
     bindR (pmap_unmap_range_and_free (ks_lv s) (ks_root s) addr sz 0 (ks_vm s)) (\<lambda>vm.
       vmem_free_via sl xf v addr sz (s\<lparr>ks_vm := vm\<rparr>))))"

definition seg_type :: "nat \<Rightarrow> kmem \<Rightarrow> vmem_tag_type" where
  "seg_type t s = tg_type (ks_tags s t)"

text \<open>Joining a freed segment with the one before it and the one after it: the tag that stays, and
  the state.\<close>

definition join_left :: "nat \<Rightarrow> nat \<Rightarrow> kmem \<Rightarrow> (nat \<times> kmem) res" where
  "join_left v t s =
     (case prev_in t (ar_all_tags (ks_arenas s v)) of
        None \<Rightarrow> Inl NullDeref
      | Some left \<Rightarrow>
          if seg_type left s = VMEM_TAG_FREE then
            let s1 = upd_arena v (\<lambda>a. list_remove left (a\<lparr>ar_all_tags := removeAll t (ar_all_tags a)\<rparr>)) s;
                s2 = set_tag left (\<lambda>g. g\<lparr>tg_size := tg_size g + tg_size (ks_tags s t)\<rparr>) s1
            in Inr (left, tag_free v t s2)
          else Inr (t, s))"

definition join_right :: "nat \<Rightarrow> nat \<Rightarrow> kmem \<Rightarrow> nat \<times> kmem" where
  "join_right v t s =
     (case next_in t (ar_all_tags (ks_arenas s v)) of
        None \<Rightarrow> (t, s)
      | Some right \<Rightarrow>
          if seg_type right s = VMEM_TAG_FREE then
            let s1 = upd_arena v (\<lambda>a. list_remove right (a\<lparr>ar_all_tags := removeAll t (ar_all_tags a)\<rparr>)) s;
                s2 = set_tag right (\<lambda>g. g\<lparr>tg_start := tg_start (ks_tags s t),
                                         tg_size := tg_size g + tg_size (ks_tags s t)\<rparr>) s1
            in (right, tag_free v t s2)
          else (t, s))"

text \<open>Whether a free segment fills the imported span before it.\<close>

definition fills_import :: "nat \<Rightarrow> nat \<Rightarrow> kmem \<Rightarrow> bool" where
  "fills_import left t s \<longleftrightarrow>
     seg_type left s = VMEM_TAG_SPAN_IMPORTED \<and> tg_size (ks_tags s t) = tg_size (ks_tags s left)"

definition return_span :: "slab \<Rightarrow> xfree \<Rightarrow> nat \<Rightarrow> nat \<Rightarrow> nat \<Rightarrow> kmem \<Rightarrow> kmem res" where
  "return_span sl xf v left t s =
     (let right = next_in t (ar_all_tags (ks_arenas s v)) in
      ensure (case right of None \<Rightarrow> True
              | Some r \<Rightarrow> seg_type r s = VMEM_TAG_SPAN_IMPORTED \<or> seg_type r s = VMEM_TAG_SPAN) AssertFail (
      bindR (case (ar_ffunc (ks_arenas s v), ar_source (ks_arenas s v)) of
               (Kmem_func, Some src) \<Rightarrow> kmem_free_via sl xf src (tg_start (ks_tags s left)) (tg_size (ks_tags s left)) s
             | (Vmem_func, Some src) \<Rightarrow> vmem_free_via sl xf src (tg_start (ks_tags s left)) (tg_size (ks_tags s left)) s
             | _ \<Rightarrow> Inl NullDeref) (\<lambda>s1.
        let s2 = tag_free v t (upd_arena v (\<lambda>a. a\<lparr>ar_all_tags := removeAll t (ar_all_tags a)\<rparr>) s1)
        in Inr (tag_free v left
             (upd_arena v (\<lambda>a. (list_remove left a)\<lparr>ar_all_tags := removeAll left (ar_all_tags a)\<rparr>) s2)))))"

definition xfree_body :: "slab \<Rightarrow> xfree \<Rightarrow> xfree" where
  "xfree_body sl xf v addr sz s =
     bindR (arena_lock v s) (\<lambda>s1.
     ensure (addr \<noteq> 0) AssertFail (
     ensure (sz \<noteq> 0) AssertFail (
     bindR (lookup_alloc v addr sz s1) (\<lambda>found.
       case found of
         None \<Rightarrow> Inl AssertFail
       | Some t0 \<Rightarrow>
           ensure (tg_size (ks_tags s1 t0) = sz) AssertFail (
           let s2 = set_tag t0 (\<lambda>g. g\<lparr>tg_type := VMEM_TAG_FREE\<rparr>) (upd_arena v (list_remove t0) s1) in
           bindR (join_left v t0 s2) (\<lambda>(t1, s3).
           case prev_in t1 (ar_all_tags (ks_arenas s3 v)) of
             None \<Rightarrow> Inl NullDeref
           | Some left \<Rightarrow>
               case join_right v t1 s3 of (t, s4) \<Rightarrow>
                 bindR (if fills_import left t s4 then return_span sl xf v left t s4
                        else insert_free v t s4) (arena_unlock v)))))))"

fun vmem_xfree :: "slab \<Rightarrow> nat \<Rightarrow> xfree" where
  "vmem_xfree sl 0 v addr sz s = Inl Diverges"
| "vmem_xfree sl (Suc n) v addr sz s = xfree_body sl (vmem_xfree sl n) v addr sz s"

definition vmem_free :: "slab \<Rightarrow> nat \<Rightarrow> nat \<Rightarrow> u64 \<Rightarrow> u64 \<Rightarrow> kmem \<Rightarrow> kmem res" where
  "vmem_free sl n = vmem_free_via sl (vmem_xfree sl n)"

definition kmem_free :: "slab \<Rightarrow> nat \<Rightarrow> nat \<Rightarrow> u64 \<Rightarrow> u64 \<Rightarrow> kmem \<Rightarrow> kmem res" where
  "kmem_free sl n = kmem_free_via sl (vmem_xfree sl n)"

definition vm_kfree :: "slab \<Rightarrow> nat \<Rightarrow> u64 \<Rightarrow> u64 \<Rightarrow> kmem \<Rightarrow> kmem res" where
  "vm_kfree sl n = kmem_free sl n heap_arena"

section \<open>Creating arenas\<close>

text \<open>\<open>sizeof (vmem_t)\<close> with \<open>CONFIG_DEBUG\<close>; an arena from the heap is named by its address.\<close>

definition sizeof_vmem :: u64 where "sizeof_vmem = 936"

definition P2CHECK :: "u64 \<Rightarrow> bool" where
  "P2CHECK v \<longleftrightarrow> v AND (v - 1) = 0"

definition fresh_arena :: "u64 \<Rightarrow> u64 \<Rightarrow> vmem_func \<Rightarrow> vmem_func \<Rightarrow> nat option \<Rightarrow> nat option list \<Rightarrow> vmem" where
  "fresh_arena quantum qcache_max afunc ffunc source qcaches =
     \<lparr>ar_locked = False, ar_quantum = quantum, ar_qcache_max = qcache_max, ar_afunc = afunc,
      ar_ffunc = ffunc, ar_source = source, ar_freetags = [], ar_n_freetags = 0, ar_qcaches = qcaches,
      ar_all_tags = [], ar_freelists = replicate FREELIST_COUNT [],
      ar_hashlists = replicate HASH_BUCKET_COUNT [], ar_spanlist = []\<rparr>"

definition create_qcache :: "slab \<Rightarrow> nat \<Rightarrow> u64 \<Rightarrow> u64 \<Rightarrow> nat \<Rightarrow> kmem \<Rightarrow> kmem res" where
  "create_qcache sl v quantum qcache_max i s =
     bindR (sl_create sl (quantum + quantum * of_nat i) quantum qcache_max v s) (\<lambda>(c, s1).
     bindR (st (ar_qcaches (ks_arenas s1 v)) i c) (\<lambda>cs.
       Inr (upd_arena v (\<lambda>a. a\<lparr>ar_qcaches := cs\<rparr>) s1)))"

definition vmem_init :: "slab \<Rightarrow> nat \<Rightarrow> nat option \<Rightarrow> u64 \<Rightarrow> u64 \<Rightarrow> u64 \<Rightarrow> vmem_func \<Rightarrow> vmem_func \<Rightarrow>
    nat option \<Rightarrow> u64 \<Rightarrow> u32 \<Rightarrow> kmem \<Rightarrow> (nat \<times> kmem) res" where
  "vmem_init sl n vmp base sz quantum afunc ffunc source qcache_max flag s =
     bindR (case vmp of
              Some v \<Rightarrow> Inr (v, s)
            | None \<Rightarrow> bindR (vmem_alloc sl n vmem_vmem_arena sizeof_vmem VM_SLEEP s) (\<lambda>(addr, s1).
                        ensure (addr \<noteq> 0) AssertFail (Inr (unat addr, s1)))) (\<lambda>(v, s1).
     ensure (quantum \<noteq> 0) AssertFail (
     ensure (qcache_max mod quantum = 0) AssertFail (
     ensure (P2CHECK quantum) AssertFail (
     ensure (base = 0 \<or> source = None) AssertFail (
     let s2 = upd_arena v (\<lambda>a. fresh_arena quantum qcache_max afunc ffunc source (ar_qcaches a)) s1 in
     bindR (if base \<noteq> 0 \<and> sz \<noteq> 0
            then vmem_add_locked sl (vmem_xalloc sl n) (Suc n) v base sz VMEM_TAG_SPAN flag s2
            else Inr (0, s2)) (\<lambda>(_, s3).
     if qcache_max > 0 then
       let cached = min qcache_max (quantum * of_nat VMEM_QCACHE_MAX);
           s4 = upd_arena v (\<lambda>a. a\<lparr>ar_qcaches := replicate VMEM_QCACHE_MAX None\<rparr>) s3
       in bindR (each_index (create_qcache sl v quantum cached) [0 ..< unat (cached div quantum)] s4) (\<lambda>s5.
            Inr (v, s5))
     else Inr (v, s3)))))))"

text \<open>The state before the first arena: the arenas are zeroed memory, the tags those of a static
  array.\<close>

definition boot_kmem :: "nat \<Rightarrow> u64 \<Rightarrow> vm \<Rightarrow> kmem" where
  "boot_kmem lv root vm =
     \<lparr>ks_tags = (\<lambda>_. zeroed_tag),
      ks_arenas = (\<lambda>_. fresh_arena 0 0 No_func No_func None (replicate VMEM_QCACHE_MAX None)),
      ks_tag_list = [], ks_tag_count = 0, ks_tag_lock = False, ks_refill_lock = False,
      ks_static_left = int STATIC_BT_COUNT, ks_next_tag = STATIC_BT_COUNT,
      ks_lv = lv, ks_root = root, ks_vm = vm\<rparr>"

definition vmem_earlyinit :: "slab \<Rightarrow> nat \<Rightarrow> kmem \<Rightarrow> ((nat \<times> nat) \<times> kmem) res" where
  "vmem_earlyinit sl n s =
     (let s0 = tag_static_init (s\<lparr>ks_tag_lock := False, ks_refill_lock := False, ks_tag_list := [], ks_tag_count := 0\<rparr>);
          page = of_nat PAGE_SIZE in
      bindR (vmem_init sl n (Some heap_arena) KERNEL_HEAP_BASE KERNEL_HEAP_LENGTH page No_func No_func
               None 0 VM_SLEEP s0) (\<lambda>(_, s1).
      bindR (vmem_init sl n (Some vmem_internal_arena) 0 0 page Kmem_func Kmem_func
               (Some heap_arena) 0 VM_SLEEP s1) (\<lambda>(_, s2).
      bindR (vmem_init sl n (Some vmem_vmem_arena) 0 0 8 Vmem_func Vmem_func
               (Some vmem_internal_arena) 0 VM_SLEEP s2) (\<lambda>(_, s3).
      bindR (sl_init sl s3) (\<lambda>s4.
      bindR (vmem_init sl n None 0 0 page Vmem_func Vmem_func (Some heap_arena) (page * 8) VM_SLEEP s4) (\<lambda>(kmem_va_arena, s5).
      bindR (vmem_init sl n None 0 0 page Kmem_func Kmem_func (Some kmem_va_arena) 0 VM_SLEEP s5) (\<lambda>(kmem_default_arena, s6).
        Inr ((kmem_va_arena, kmem_default_arena), s6))))))))"

end
