(* ===== verification/Spec2Isabelle.thy ===== *)
theory Spec2Isabelle
  imports CString RingBuffer HashTable VmProperties FileProperties VfsProperties TtyProperties Vmem
begin

text \<open>
  The Yak kernel: a verification library for the parts of \<^verbatim>\<open>src/kernel\<close> that manage memory and keep data.

  The program. \<^verbatim>\<open>vm/pmm.c\<close> hands out physical pages from buddy zones; \<^verbatim>\<open>vm/page.c\<close> and
  \<^verbatim>\<open>refcount.h\<close> count their references. \<^verbatim>\<open>vm/object.c\<close> and \<^verbatim>\<open>vm/aobj.c\<close> keep the pages of an object in
  a red-black tree (\<^verbatim>\<open>core/subr_tree.c\<close>). \<^verbatim>\<open>vm/anon.c\<close> and \<^verbatim>\<open>vm/amap.c\<close> hold the private pages of
  copy-on-write mappings. \<^verbatim>\<open>vm/generic_pmap.c\<close> writes the page tables. \<^verbatim>\<open>vm/map.c\<close> keeps an address space
  as a tree of entries and calls all of these; \<^verbatim>\<open>vm/fault.c\<close> fills in pages on demand, under the
  reader-writer lock of \<^verbatim>\<open>core/rwlock.c\<close>. \<^verbatim>\<open>core/file.c\<close> keeps the open files of a process, \<^verbatim>\<open>fs/vfs.c\<close> finds files by
  their path in the directories of \<^verbatim>\<open>fs/tmpfs.c\<close>, which keep their contents in objects; \<^verbatim>\<open>io/tty\<close> edits lines. \<^verbatim>\<open>core/hashtable.c\<close>, \<^verbatim>\<open>core/ringbuffer.c\<close> and \<^verbatim>\<open>lib/string.c\<close>
  serve the rest of the kernel.

  Conventions. A C function is a HOL function of the same name over an explicit state. \<open>fault + 'a\<close> is
  the result type: \<open>Inl\<close> is a failed assertion (\<^verbatim>\<open>CONFIG_DEBUG\<close> is set, so \<^verbatim>\<open>assert\<close> panics), a null
  dereference, an access out of bounds, or never returning. Status codes are values of \<open>status\<close>. Machine
  words have their width (\<open>u8\<close>, \<open>u32\<close>, \<open>u64\<close>); a \<open>size_t\<close> that cannot overflow where it is used is a
  \<open>nat\<close>, and the places that rely on wrap-around write it out. A pointer to a heap object is a number, a
  page is its frame number. Memory that an allocation returns, and whether it returns any, is a parameter or
  a list of answers in the state.

  The theories.
    \<^item> \<open>Kernel_Prelude\<close>: faults, status codes, the result monad, checked array access, loops over indexes.
    \<^item> \<open>CString\<close>: \<^verbatim>\<open>lib/string.c\<close>; what each routine computes, and where it leaves its buffer.
    \<^item> \<open>RingBuffer\<close>: \<^verbatim>\<open>core/ringbuffer.c\<close>; refinement of a bounded list.
    \<^item> \<open>HashTable\<close>: \<^verbatim>\<open>core/hashtable.c\<close>; open addressing refines a finite map, the probe invariant.
    \<^item> \<open>RbTree\<close>: \<^verbatim>\<open>core/subr_tree.c\<close> over positions in a tree; order, balance, depth. The locale of trees
      ordered by a comparison is interpreted on the page tree and on the map's tree.
    \<^item> \<open>BuddySpec\<close>, \<open>Pmm\<close>: tilings of memory by blocks, and \<^verbatim>\<open>vm/pmm.c\<close>; the locale of page
      allocators is interpreted on the model of the allocator. A new region
      gives its frames to the allocator less the \<open>overhead\<close> of its descriptors (\<open>free_frames\<close>).
    \<^item> \<open>PageStock\<close>: the number of pages the allocator can still give (\<open>free_pages\<close>), which a single page lowers by
      one; there is none exactly when the allocator answers \<open>None\<close>.
    \<^item> \<open>VmObject\<close>: \<^verbatim>\<open>vm/object.c\<close>, \<^verbatim>\<open>vm/aobj.c\<close>; \<open>VmState\<close>: the state of the virtual-memory code.
    \<^item> \<open>Amap\<close>: \<^verbatim>\<open>vm/anon.c\<close>, \<^verbatim>\<open>vm/amap.c\<close>; \<open>Pmap\<close>: \<^verbatim>\<open>vm/generic_pmap.c\<close>, with the tree of tables as invariant.
    \<^item> \<open>RwLock\<close>: \<^verbatim>\<open>core/rwlock.c\<close> as a step relation of interleaved threads, and the abstract lock.
    \<^item> \<open>VmMap\<close>: \<^verbatim>\<open>vm/map.c\<close>; \<open>MapFacts\<close>: its invariant, lookups, splitting an entry, the search for a gap;
      \<open>MapProtect\<close>: changing rights, and that entries of the page tables outside the range (\<open>in_page_of\<close>) stay; \<open>MapFork\<close>: fork; \<open>MapFaults\<close>: inputs on which the code fails.
    \<^item> \<open>Fault\<close>: \<^verbatim>\<open>vm/fault.c\<close>; \<open>FaultFacts\<close>: copy-on-write.
    \<^item> \<open>Vnode\<close>, \<open>FsState\<close>: vnodes, and the state of the file-system code.
    \<^item> \<open>FileDesc\<close>: \<^verbatim>\<open>core/file.c\<close>; \<open>FileFacts\<close>: the table as a map, the exact count of references to a file.
    \<^item> \<open>FileData\<close>: \<^verbatim>\<open>vfs_vobj_write\<close> and \<^verbatim>\<open>vfs_vobj_read\<close> of \<^verbatim>\<open>fs/generic.c\<close>; \<open>FileContents\<close>: they implement a byte
      string; \<open>FileProperties\<close>: the properties of both.
    \<^item> \<open>Tmpfs\<close>: \<^verbatim>\<open>fs/tmpfs.c\<close>; \<open>Vfs\<close>: \<^verbatim>\<open>fs/vfs.c\<close>, mounts, paths and the operations that take a path.
    \<^item> \<open>PathSplit\<close>: cutting a path in place; \<open>VnodeFacts\<close>, \<open>PathWalk\<close>, \<open>PathLookup\<close>: the lookup follows a walk over
      the tree of directories (\<open>walk_to\<close>) with exact locks and references, except on the paths on which the code
      miscounts them (\<open>Odd\<close>: a link that is followed, \<open>.\<close> in a directory that was mounted over); \<open>TmpfsFacts\<close>, \<open>PathCreate\<close>: creating
      a name keeps the tree in order and the name is found; \<open>DirList\<close>: reading a directory; \<open>PathFaults\<close>: paths
      that go wrong, and mounting; \<open>VfsSamples\<close>, \<open>VfsProperties\<close>: a sample tree and the properties.
    \<^item> \<open>NTty\<close>: \<^verbatim>\<open>io/tty/n_tty.c\<close> and \<^verbatim>\<open>io/tty/tty.c\<close>; \<open>TtyFacts\<close>: typing edits lines, reading takes them in order;
      \<open>TtyProperties\<close>: the properties.
    \<^item> \<open>Vmem\<close>: \<^verbatim>\<open>vm/vmem.c\<close>, the arenas of kernel address space with their boundary tags, imports and
      tag refills.
    \<^item> \<open>Samples\<close>, \<open>VmSamples\<close>: concrete states for the witnesses; \<open>VmProperties\<close> and this theory: the properties.

  Loops and fuel. Loops over a finite structure recurse on it. The loops of \<^verbatim>\<open>vm/map.c\<close> that follow successor
  entries take fuel, \<open>loop_fuel\<close>, which exceeds the number of entries a loop can visit (splitting adds at most
  two); running out is \<open>Diverges\<close>, and the theorems that \<open>vm_protect\<close> and the allocation of a range
  succeed show that it does not happen. Hash-table probing is bounded by the number of slots. The depth of
  the page tables is at most 5. The fuel of \<open>resolve\<close>, \<open>resolve_upward\<close> and \<open>vfs_lookup_path\<close> counts nested mounts
  and symbolic links, which the code follows without a limit; \<open>fs_ok\<close> says that the fuel covers the mounts,
  \<open>lookup_follows_path\<close> that the lookup then returns, and \<open>self_link_recurses\<close> that no fuel covers a link to itself. The
  fuel of a raw read of a terminal counts the rounds of its loop; a line is read without fuel. A reader that
  sleeps and is not woken by the listed events has the value \<open>Diverges\<close> as well.

  Exhausted memory. The code uses some allocations without testing them, so it faults when they fail. The
  theorems say exactly when: looking up a page that an object lacks faults when \<open>free_pages\<close> is 0; a write to a
  file, or a read of it, faults when fewer pages are free than the object lacks (\<open>lacking\<close>; a read stops at
  \<open>read_end\<close>), and what it takes otherwise is that number; mapping a page faults only when fewer are free than
  the tables missing on the way (\<open>missing_tables\<close>), or when the allocator manages frame 0, whose address the
  code takes for null (\<open>short_of_pages\<close>). The larger array of a hash table is needed when \<open>must_grow\<close> says so, and
  without it nothing changes. Allocations from the kernel heap are answers in the state.

  Concurrency. The reader-writer lock is modelled at the level of its atomic accesses. Every other operation
  runs as one step, which is what its lock provides; the map lock is part of the state, so a lock left held
  or taken twice shows.

  Not modelled, and why: code whose effect is on hardware (boot, interrupt controllers, TLB shootdown, device
  drivers), the scheduler and what is built on its context switches, C++ bindings, printing. The manifest
  lists each part.
\<close>

section \<open>The page allocator\<close>

text \<open>C1: Allocating a block of any order from a well-formed allocator never faults; the block it
  returns is aligned to its size, overlaps no block in use, and is afterwards in use; with nothing
  returned the blocks in use are unchanged.\<close>

theorem alloc_fresh_block:
  assumes ok: "pmm_ok pm" and k: "order < BUDDY_ORDERS"
  shows "\<exists>r pm'. pmm_alloc_order order pm = Inr (r, pm') \<and> pmm_ok pm' \<and>
     (case r of
        None \<Rightarrow> held pm' = held pm
      | Some n \<Rightarrow> 2 ^ order dvd n \<and> held pm' = insert (n, order) (held pm) \<and>
          (\<forall>b \<in> held pm. blk b \<inter> blk (n, order) = {}))"
proof -
  obtain r pm' where a: "pmm_alloc_order order pm = Inr (r, pm')" "pmm_ok pm'"
    "case r of None \<Rightarrow> held pm' = held pm
      | Some n \<Rightarrow> (n, order) \<notin> held pm \<and> held pm' = insert (n, order) (held pm)"
    using pmm_alloc_order_ok [OF ok k] by (fastforce split: option.splits)
  have "2 ^ order dvd n \<and> (\<forall>b \<in> held pm. blk b \<inter> blk (n, order) = {})" if r: "r = Some n" for n
    using held_aligned [OF a(2), of n order] held_disjoint [OF a(2), of n order] a(3) r by fastforce
  with a show ?thesis by (cases r) auto
qed

lemma alloc_fresh_block_witness:
  "\<exists>r pm'. pmm_alloc_order 0 sample_pmm = Inr (r, pm') \<and> pmm_ok pm' \<and>
     (case r of
        None \<Rightarrow> held pm' = {}
      | Some n \<Rightarrow> 2 ^ 0 dvd n \<and> held pm' = {(n, 0)} \<and> (\<forall>b \<in> {}. blk b \<inter> blk (n, 0) = {}))"
  using alloc_fresh_block [OF sample_pmm_ok, of 0] unfolding sample_pmm_held BUDDY_ORDERS_def by simp

text \<open>C2: Dropping the last reference of an allocated page runs without a failed assertion,
  returns exactly its block and keeps the allocator well formed; the free count grows by the size of
  the block.\<close>

theorem last_release:
  assumes "pmm_ok pm" "(n, k) \<in> held pm" "pm_pages pm n = Some p" "pg_shares p = 1"
    and "pg_flags p AND VM_PG_FAKE = 0"
  shows "\<exists>pm'. page_deref n pm = Inr pm' \<and> pmm_ok pm' \<and> held pm' = held pm - {(n, k)} \<and>
     free_pagecnt pm' = free_pagecnt pm + 2 ^ k"
  using assms by (rule page_deref_last)

lemma last_release_witness:
  "\<exists>pm'. page_deref 2 (sample_alloc 1) = Inr pm' \<and> pmm_ok pm' \<and> held pm' = {} \<and>
     free_pagecnt pm' = free_pagecnt (sample_alloc 1) + 2"
  using last_release [of "sample_alloc 1" 2 1] sample_held by auto

text \<open>C15: Adding a memory region to a zone records it and, without a fault, cuts the frames behind its
  descriptors into free blocks: the free frames are those from before and exactly these, each in one aligned
  block (\<open>pmm_ok\<close>); the three counts grow accordingly, and the blocks in use stay as they were.\<close>

theorem add_region_well_formed:
  assumes "pmm_ok pm" "base mod PAGE_SIZE = 0" "rend mod PAGE_SIZE = 0" "base < rend"
    and "base > UINT32_MAX \<or> rend < UINT32_MAX"
    and "z \<in> set (zone_list pm)" "in_zone z base" "rend \<le> zn_end z"
    and "\<And>r. r \<in> set (region_list pm) \<Longrightarrow> rg_end r < base \<or> rend < rg_base r"
  defines "cnt \<equiv> (rend - base) div 2 ^ PAGE_SHIFT"
  shows "\<exists>pm'. pmm_add_region base rend pm = Inr pm' \<and> pmm_ok pm' \<and> held pm' = held pm \<and>
     region_list pm' = insert_by_base rg_base \<lparr>rg_base = base, rg_end = rend\<rparr> (region_list pm) \<and>
     free_frames pm' = free_frames pm \<union> {base div 2 ^ PAGE_SHIFT + overhead cnt..<rend div 2 ^ PAGE_SHIFT} \<and>
     total_pagecnt pm' = total_pagecnt pm + cnt \<and>
     usable_pagecnt pm' = usable_pagecnt pm + (cnt - overhead cnt) \<and>
     free_pagecnt pm' = free_pagecnt pm + (cnt - overhead cnt)"
  unfolding cnt_def using assms(1-9) by (rule pmm_add_region_ok)

lemma add_region_well_formed_witness:
  "\<exists>pm'. pmm_add_region 0x8000 0xC000 sample_pmm = Inr pm' \<and> pmm_ok pm' \<and> held pm' = {} \<and>
     region_list pm' = [\<lparr>rg_base = 0x2000, rg_end = 0x5000\<rparr>, \<lparr>rg_base = 0x8000, rg_end = 0xC000\<rparr>] \<and>
     free_frames pm' = {2, 3, 4, 9, 10, 11} \<and> total_pagecnt pm' = 7 \<and> usable_pagecnt pm' = 6 \<and> free_pagecnt pm' = 6"
proof -
  have "overhead 4 = 1"
    by (simp add: overhead_def align_up_def SIZEOF_REGION_def SIZEOF_PAGE_def pmm_consts)
  moreover have "{2, 3, 4} \<union> {9..<12} = {2, 3, 4, 9, 10, 11 :: nat}" by auto
  moreover have "zone_list sample_pmm = [sample_zone]" "total_pagecnt sample_pmm = 3" "usable_pagecnt sample_pmm = 3"
    "free_pagecnt sample_pmm = 3"
    "region_list sample_pmm = [\<lparr>rg_base = 0x2000, rg_end = 0x5000\<rparr>]"
    by (simp_all add: sample_pmm_def)
  moreover have "in_zone sample_zone 0x8000" "0xC000 \<le> zn_end sample_zone"
    by (simp_all add: sample_zone_def in_zone_def)
  ultimately show ?thesis
    using add_region_well_formed [OF sample_pmm_ok, where base = "0x8000" and rend = "0xC000" and z = sample_zone]
      sample_pmm_held sample_free_frames
    by (simp add: pmm_consts UINT32_MAX_def)
qed

text \<open>A single page that was allocated can be released again, and the pages in use are then
  those from before the allocation.\<close>

theorem alloc_release:
  assumes "pmm_inv pm" "pmm_alloc_order 0 pm = Inr (Some n, pm1)"
  shows "\<exists>pm2. page_deref n pm1 = Inr pm2 \<and> pmm_inv pm2 \<and> owned_pages pm2 = owned_pages pm"
  using assms by (rule pages.alloc_free)

lemma alloc_release_witness:
  "\<exists>pm2. page_deref 4 (sample_alloc 0) = Inr pm2 \<and> pmm_inv pm2 \<and>
     owned_pages pm2 = owned_pages sample_pmm"
  by (rule alloc_release [OF sample_pmm_inv sample_alloc(1)])

text \<open>The end of a region counts as inside it: the descriptor looked up there is one past the
  region's array.\<close>

theorem lookup_past_end:
  assumes "region_list pm = [r]" "rg_base r \<le> rg_end r" "rg_base r mod PAGE_SIZE = 0"
    and "rg_end r mod PAGE_SIZE = 0"
  shows "pmm_lookup_page (region_list pm) (rg_end r) = Some (PastEnd (rg_base r))"
  using assms by (simp add: pmm_lookup_page_def div_le_mono)

lemma lookup_past_end_witness:
  "pmm_lookup_page (region_list sample_pmm) 0x5000 = Some (PastEnd 0x2000)"
  using lookup_past_end [of sample_pmm "\<lparr>rg_base = 0x2000, rg_end = 0x5000\<rparr>"]
  by (simp add: sample_pmm_def pmm_consts)

section \<open>Trees\<close>

text \<open>C3: Inserting a page with a new offset into an object's tree keeps the tree ordered, balanced
  and of equal black height on every path, and adds exactly that page at its place.\<close>

theorem page_tree_insert:
  assumes "ptree.tree_ok t" "fst pg \<notin> fst ` set (inorder t)"
  shows "\<exists>t'. rb_insert vm_page_tree_cmp t pg = Inr (None, t') \<and> ptree.tree_ok t' \<and>
     inorder t' = filter (\<lambda>x. fst x < fst pg) (inorder t) @ pg # filter (\<lambda>x. fst pg < fst x) (inorder t)"
  using assms by (rule ptree.insert_new)

lemma page_tree_insert_witness:
  "\<exists>t'. rb_insert vm_page_tree_cmp sample_tree (0x2000, 5) = Inr (None, t') \<and> ptree.tree_ok t' \<and>
     inorder t' = [(0x1000, 9), (0x2000, 5), (0x3000, 8)]"
  using page_tree_insert [OF sample_tree_ok, of "(0x2000, 5)"] by (simp add: sample_tree_def)

text \<open>C4: Removing a page that is in the tree never dereferences a null pointer, takes exactly that
  page out and keeps the tree ordered and balanced.\<close>

theorem page_tree_remove:
  assumes "ptree.tree_ok t" "x \<in> set (inorder t)" "fst x = fst pg"
  shows "\<exists>t'. rb_remove vm_page_tree_cmp t pg = Inr t' \<and> ptree.tree_ok t' \<and>
     inorder t' = filter (\<lambda>y. fst y \<noteq> fst pg) (inorder t)"
  using assms by (rule ptree.remove_present)

lemma page_tree_remove_witness:
  "\<exists>t'. rb_remove vm_page_tree_cmp sample_tree (0x3000, 8) = Inr t' \<and> ptree.tree_ok t' \<and>
     inorder t' = [(0x1000, 9)]"
  using page_tree_remove [OF sample_tree_ok, of "(0x3000, 8)" "(0x3000, 8)"] by (simp add: sample_tree_def)

text \<open>A descent in a tree of \<open>n\<close> elements passes at most \<open>2 * log2 (n + 1) + 1\<close> of them.\<close>

theorem tree_depth_logarithmic:
  assumes "rb_ok t"
  shows "2 ^ (depth t div 2) \<le> length (inorder t) + 1"
  using assms by (rule depth_bound)

lemma tree_depth_logarithmic_witness:
  "2 ^ (depth sample_tree div 2) \<le> length (inorder sample_tree) + (1::nat)"
  by (rule tree_depth_logarithmic) (use sample_tree_ok in \<open>simp add: ptree.tree_ok_def\<close>)

section \<open>VM objects\<close>

text \<open>C5: Looking up a page an anonymous object does not have takes one of the free pages, which no one
  else holds, fills it with zeros, touches no other page's bytes and enters it in the object's tree under its
  offset. Only when no page is free is the outcome the null dereference.\<close>

theorem lookup_zero_fill:
  assumes "obj_ok obj (ph_pmm ph)" "pmm_inv (ph_pmm ph)"
    and "off AND 0xFFF = 0" "off \<notin> fst ` set (inorder (memq obj))" "flags AND LOOKUP_ONLY = 0"
  shows "if free_pages (ph_pmm ph) = 0 then vm_lookuppage oid obj off flags pagep ph = Inl NullDeref
    else (\<exists>n obj' ph'. vm_lookuppage oid obj off flags pagep ph = Inr (YAK_SUCCESS, Some n, obj', ph') \<and>
       obj_ok obj' (ph_pmm ph') \<and> pmm_inv (ph_pmm ph') \<and>
       n \<notin> owned_pages (ph_pmm ph) \<and> owned_pages (ph_pmm ph') = insert n (owned_pages (ph_pmm ph)) \<and>
       free_pages (ph_pmm ph') + 1 = free_pages (ph_pmm ph) \<and>
       set (inorder (memq obj')) = insert (off, n) (set (inorder (memq obj))) \<and>
       ph_mem ph' n = (\<lambda>_. 0) \<and> (\<forall>m. m \<noteq> n \<longrightarrow> ph_mem ph' m = ph_mem ph m))"
  using assms by (rule lookup_fill)

lemma lookup_zero_fill_witness:
  "\<exists>n obj' ph'. vm_lookuppage 1 sample_object 0x1000 0 None sample_phys = Inr (YAK_SUCCESS, Some n, obj', ph') \<and>
     obj_ok obj' (ph_pmm ph') \<and> pmm_inv (ph_pmm ph') \<and>
     n \<notin> owned_pages sample_pmm \<and> owned_pages (ph_pmm ph') = insert n (owned_pages sample_pmm) \<and>
     free_pages (ph_pmm ph') = 2 \<and> set (inorder (memq obj')) = {(0x1000, n)} \<and>
     ph_mem ph' n = (\<lambda>_. 0) \<and> (\<forall>m. m \<noteq> n \<longrightarrow> ph_mem ph' m = (\<lambda>_. 7))"
  using lookup_zero_fill [of sample_object sample_phys "0x1000" 0 1 None] sample_pmm_inv object_create_ok sample_free_pages
  by (simp add: sample_object_def sample_phys_def LOOKUP_ONLY_def vm_object_common_init_def)

text \<open>A page the object has is returned by every later lookup of its offset, whatever the flags,
  and such a lookup changes neither the object nor memory.\<close>

theorem lookup_stable:
  assumes "obj_ok obj pm" "(off, n) \<in> set (inorder (memq obj))"
  shows "vm_lookuppage oid obj off flags pagep ph = Inr (YAK_SUCCESS, Some n, obj, ph)"
  using assms by (intro lookup_present) (auto simp: obj_ok_def)

lemma lookup_stable_witness:
  "vm_lookuppage 1 filled_object 0x1000 0 None sample_phys = Inr (YAK_SUCCESS, Some 4, filled_object, sample_phys)"
  by (rule lookup_stable [OF filled_object_ok(1)]) (simp add: filled_object_def)

text \<open>C16: Dropping the last reference of an anonymous object removes it and gives back exactly its
  pages.\<close>

theorem object_release:
  assumes "objs oid = Some obj" "vo_refcnt obj = 1" "obj_ok obj (ph_pmm ph)" "pmm_inv (ph_pmm ph)"
  shows "\<exists>ph'. vm_object_deref oid objs ph = Inr (objs(oid := None), ph') \<and> pmm_inv (ph_pmm ph') \<and>
     owned_pages (ph_pmm ph') = owned_pages (ph_pmm ph) - snd ` set (inorder (memq obj))"
  using assms by (rule object_deref_last)

lemma object_release_witness:
  "\<exists>ph'. vm_object_deref 1 [1 \<mapsto> filled_object] (sample_phys\<lparr>ph_pmm := filled_pmm\<rparr>) =
       Inr ([1 \<mapsto> filled_object](1 := None), ph') \<and> pmm_inv (ph_pmm ph') \<and>
     owned_pages (ph_pmm ph') = owned_pages filled_pmm - {4}"
  using object_release [of "[1 \<mapsto> filled_object]" 1 filled_object "sample_phys\<lparr>ph_pmm := filled_pmm\<rparr>"]
    filled_object_ok by (simp add: filled_object_def)

text \<open>The anonymous pager does not test the page it allocates: when the allocator has none, it
  zeroes through a null pointer.\<close>

theorem anon_pager_oom:
  assumes "vm_pagealloc (Some oid) off (ph_pmm ph) = Inr (None, pm)" "off AND 0xFFF = 0"
  shows "anon_pager_get oid off 1 ph = Inl NullDeref"
  using anon_one_page [OF assms(2,1)] by simp

lemma anon_pager_oom_witness:
  "anon_pager_get 1 0 1 (sample_phys\<lparr>ph_pmm := sample_pmm\<lparr>zone_list := []\<rparr>\<rparr>) = Inl NullDeref"
  by (rule anon_pager_oom) (simp_all add: vm_pagealloc_def pmm_alloc_order_def charge_def)

section \<open>Queues and tables\<close>

text \<open>C14: A ring buffer is a FIFO: what was stored comes out first, then the bytes just written,
  also when the bytes wrap around the end of the array.\<close>

theorem ring_fifo:
  assumes "rb_inv q" "length b \<le> rb_capacity q - length (rb_list q)"
    and "length d = length (rb_list q) + length b"
  shows "\<exists>q1 q2. ringbuffer_put q b (length b) = Inr (length b, q1) \<and>
     ringbuffer_get q1 d (length d) = Inr (length d, rb_list q @ b, q2) \<and> rb_list q2 = [] \<and> rb_inv q2"
  using assms by (rule rb.put_then_get_all)

lemma ring_fifo_witness:
  "\<exists>q1 q2. ringbuffer_put sample_ring [3, 4] 2 = Inr (2, q1) \<and>
     ringbuffer_get q1 [0, 0, 0, 0] 4 = Inr (4, [1, 2, 3, 4], q2) \<and> rb_list q2 = [] \<and> rb_inv q2"
  using ring_fifo [of sample_ring "[3, 4]" "[0, 0, 0, 0]"] sample_ring_ok by (simp add: numeral_eq_Suc)

text \<open>A write stores as many bytes as fit, from the front of the source, and reports that
  number; nothing stored before is overwritten.\<close>

theorem ring_short_write:
  assumes "rb_inv q" "n \<le> length src"
  shows "\<exists>q'. ringbuffer_put q src n = Inr (min n (rb_capacity q - length (rb_list q)), q') \<and>
     rb_inv q' \<and> rb_capacity q' = rb_capacity q \<and>
     rb_list q' = rb_list q @ take (min n (rb_capacity q - length (rb_list q))) src"
  using assms by (rule rb.q_put)

lemma ring_short_write_witness:
  "\<exists>q'. ringbuffer_put sample_ring [3, 4, 5] 3 = Inr (2, q') \<and> rb_inv q' \<and> rb_capacity q' = 4 \<and>
     rb_list q' = [1, 2, 3, 4]"
  using ring_short_write [of sample_ring 3 "[3, 4, 5]"] sample_ring_ok by simp

text \<open>C6: Setting a key of a hash table makes it read back the value and leaves every other key's
  value as it was, through tombstones, probing and growth. For every answer of the two allocations: when
  the table must grow and there is no memory for the larger array, it reports \<open>YAK_OOM\<close> and the table is
  unchanged altogether; when there is none for the copy of the key, or the key is there and may not be
  overwritten, it reports that and no key's value changes.\<close>

theorem table_set:
  assumes "ht_inv tbl"
  shows "\<exists>tbl'. ht_set grown mem tbl key (length key) value overwrite =
       Inr (if must_grow tbl \<and> \<not> grown then YAK_OOM
            else if ht_map tbl key \<noteq> None \<and> \<not> overwrite then YAK_EXISTS
            else if mem then YAK_SUCCESS else YAK_OOM, tbl') \<and>
     ht_inv tbl' \<and> (must_grow tbl \<and> \<not> grown \<longrightarrow> tbl' = tbl) \<and>
     ht_map tbl' = (if must_grow tbl \<and> \<not> grown \<or> ht_map tbl key \<noteq> None \<and> \<not> overwrite \<or> \<not> mem
                    then ht_map tbl else (ht_map tbl)(key \<mapsto> value))"
  using assms by (rule ht_set_any)

lemma table_set_witness:
  "(\<exists>tbl'. ht_set True True sample_table [1, 2] 2 5 False = Inr (YAK_SUCCESS, tbl') \<and> ht_inv tbl' \<and>
      ht_map tbl' = (ht_map sample_table)([1, 2] \<mapsto> 5)) \<and>
   ht_set False True sample_table [1, 2] 2 5 False = Inr (YAK_OOM, sample_table)"
proof -
  have "must_grow sample_table" by (simp add: must_grow_def sample_table_def ht_init_def)
  moreover have "length [1, 2 :: u8] = 2" by simp
  ultimately show ?thesis
    using table_set [OF sample_table_ok(1), of True True "[1, 2]" 5 False]
      table_set [OF sample_table_ok(1), of False True "[1, 2]" 5 False] sample_table_ok(2) by (auto simp: numeral_2_eq_2)
qed

text \<open>A deleted key can be set again, also without permission to overwrite, and every other key
  keeps its value throughout.\<close>

theorem table_delete_set:
  assumes "ht_inv tbl"
  shows "\<exists>b t1 t2. ht_del tbl k (length k) = Inr (b, t1) \<and>
     ht_set True True t1 k (length k) v False = Inr (YAK_SUCCESS, t2) \<and> ht_inv t2 \<and>
     ht_get t2 k (length k) = Inr v \<and>
     (\<forall>k'. k' \<noteq> k \<longrightarrow> ht_get t2 k' (length k') = ht_get tbl k' (length k'))"
  using assms by (rule ht.del_set)

lemma table_delete_set_witness:
  "\<exists>b t1 t2. ht_del sample_table [7] 1 = Inr (b, t1) \<and> ht_set True True t1 [7] 1 9 False = Inr (YAK_SUCCESS, t2) \<and>
     ht_inv t2 \<and> ht_get t2 [7] 1 = Inr 9 \<and>
     (\<forall>k'. k' \<noteq> [7] \<longrightarrow> ht_get t2 k' (length k') = ht_get sample_table k' (length k'))"
  using table_delete_set [OF sample_table_ok(1), of "[7]" 9] by simp

text \<open>Rehashing into an array large enough keeps every key's value and the probe sequences, and
  drops the tombstones.\<close>

theorem table_resize:
  assumes "ht_inv tbl" "ht_count tbl * 4 \<le> new_cap * 3" "2 \<le> new_cap"
  shows "\<exists>tbl'. ht_resize True tbl new_cap = Inr (YAK_SUCCESS, tbl') \<and> ht_inv tbl' \<and>
     ht_map tbl' = ht_map tbl \<and> ht_capacity tbl' = new_cap \<and> ht_count tbl' \<le> ht_count tbl"
  using ht_resize_ok [OF assms] by blast

lemma table_resize_witness:
  "\<exists>tbl'. ht_resize True sample_table 16 = Inr (YAK_SUCCESS, tbl') \<and> ht_inv tbl' \<and>
     ht_map tbl' = ht_map sample_table \<and> ht_capacity tbl' = 16 \<and> ht_count tbl' \<le> 0"
  using table_resize [OF sample_table_ok(1), of 16] sample_table_ok(3) by simp

section \<open>Strings and memory\<close>

text \<open>\<open>memmove\<close> copies the bytes the source held before the call, whichever way the two ranges
  overlap, and changes no byte outside the destination.\<close>

theorem memmove_overlap:
  assumes "d + n \<le> length b" "s + n \<le> length b"
  shows "memmove b d s n = Inr (take d b @ take n (drop s b) @ drop (d + n) b)"
  using assms by (rule memmove_eq)

lemma memmove_overlap_witness: "memmove [1, 2, 3, 4, 5] 1 0 3 = Inr [1, 1, 2, 3, 5]"
  using memmove_overlap [of 1 3 "[1, 2, 3, 4, 5]" 0] by (simp add: numeral_eq_Suc)

text \<open>\<open>strcmp\<close> of terminated strings reads within both and returns zero exactly when they are
  equal.\<close>

theorem strcmp_equal:
  assumes "terminated b1 s1" "terminated b2 s2"
  shows "\<exists>r. strcmp b1 s1 b2 s2 = Inr r \<and> (r = 0 \<longleftrightarrow> cstr b1 s1 = cstr b2 s2)"
  using assms by (rule strcmp_eq)

lemma strcmp_equal_witness:
  "\<exists>r. strcmp [97, 98, 0] 0 [99, 97, 98, 0] 1 = Inr r \<and> (r = 0 \<longleftrightarrow> [97, 98] = [97, 98 :: u8])"
  using strcmp_equal [of "[97, 98, 0]" 0 "[99, 97, 98, 0]" 1] by (simp add: terminated_def cstr_def)

text \<open>\<open>strndup\<close> writes its terminator one byte past the block it allocated, whatever the
  string.\<close>

theorem strndup_writes_past_end:
  assumes "s + n \<le> length src" "mem n = Some b" "length b = n"
  shows "strndup mem src s n = Inl OutOfBounds"
  using assms by (rule strndup_overrun)

lemma strndup_writes_past_end_witness:
  "strndup (\<lambda>n. Some (replicate n 0)) [97, 98, 99, 0] 0 3 = Inl OutOfBounds"
  by (rule strndup_writes_past_end [where b = "replicate 3 0"]) simp_all

end
